(* ===== verification/Prelude.thy ===== *)
theory Prelude
  imports Main "HOL-Library.Word"
begin

text \<open>
  Shared vocabulary of the development.

  \<^item> Machine integers keep the width the C++ code gives them (\<open>u8\<close> .. \<open>u64\<close>); their
    arithmetic wraps, and the lemma bundle \<open>word_bounds\<close> turns the code's overflow guards
    into facts about \<open>unat\<close>. A container's \<open>size()\<close> is a \<open>nat\<close>.
  \<^item> \<open>status_code\<close> is \<open>status_code\<close> of contracts/vqec_vision_status.hpp. The \<open>message_\<close> of a
    \<open>status\<close> is diagnostic text that no code path branches on; it is not modelled, so a
    returned \<open>status\<close> is its code.
  \<^item> A C++ method that mutates its object and writes reference parameters is a function that
    takes the old object and the old parameter values and returns the status with the new
    ones. That an operation leaves its outputs alone on failure is then a theorem.
  \<^item> The locales \<open>step_system\<close>, \<open>latched_system\<close>, \<open>fresh_ids\<close> and \<open>held_resources\<close> are
    the contracts several stateful components share: an invariant kept by every operation,
    a flag that is never cleared again, identities that are never handed out twice, and
    resources that stay with their holder until given back.
\<close>

unbundle bit_operations_syntax

type_synonym u8 = "8 word"
type_synonym u16 = "16 word"
type_synonym u32 = "32 word"
type_synonym u64 = "64 word"

abbreviation UINT64_MAX :: u64 where "UINT64_MAX \<equiv> - 1"

named_theorems guards \<open>overflow guards as facts about natural numbers\<close>

section \<open>Status codes\<close>

datatype status_code =
    Ok
  | Invalid_argument
  | Unsupported
  | Missing_plugin
  | Incompatible_plugin
  | Graph_link_failed
  | Timeout
  | Source_lost
  | Protocol_error
  | Resource_exhausted
  | Unauthorized
  | Io_error
  | Invalid_state
  | Pending

type_synonym status = status_code

section \<open>Checked word arithmetic\<close>

lemma unat_bound: "unat (b :: 'a::len word) < 2 ^ LENGTH('a)"
  by (rule unsigned_less)

lemma unat_max: "unat (- 1 :: 'a::len word) = 2 ^ LENGTH('a) - 1"
  by (simp add: unsigned_minus_1_eq_mask mask_eq_exp_minus_1)

lemma unat_less_64 [simp]: "unat (a :: u64) < 18446744073709551616"
proof -
  have "unat a \<le> unat (- 1 :: u64)" by (simp add: word_le_nat_alt [symmetric])
  also have "unat (- 1 :: u64) = 18446744073709551615" by (simp add: unat_max)
  finally show ?thesis by linarith
qed

lemma unat_less_2_64: "unat (a :: u64) < 2 ^ 64"
  by simp

lemma unat_max_minus: "unat (- 1 - b :: 'a::len word) = 2 ^ LENGTH('a) - 1 - unat b"
proof -
  have "b \<le> (- 1 :: 'a word)" by simp
  then have "unat ((- 1 :: 'a word) - b) = unat (- 1 :: 'a word) - unat b"
    by (rule unat_sub)
  then show ?thesis by (simp add: unat_max)
qed

lemma le_max_minus [guards]:
  "(a :: 'a::len word) \<le> - 1 - b \<longleftrightarrow> unat a + unat b < 2 ^ LENGTH('a)"
  using unat_bound [of b] unfolding word_le_nat_alt unat_max_minus by linarith

lemma ge_max_minus [guards]:
  "- 1 - b \<le> (a :: 'a::len word) \<longleftrightarrow> 2 ^ LENGTH('a) \<le> Suc (unat a + unat b)"
  using unat_bound [of b] unfolding word_le_nat_alt unat_max_minus by linarith

lemma less_max_minus [guards]:
  "- 1 - b < (a :: 'a::len word) \<longleftrightarrow> 2 ^ LENGTH('a) \<le> unat a + unat b"
  by (simp add: not_le [symmetric] le_max_minus)

lemma no_overflow: "unat b + unat (a :: 'a::len word) < 2 ^ LENGTH('a) \<Longrightarrow> \<not> - 1 - b < a"
  unfolding less_max_minus by linarith

lemma unat_add_exact:
  "unat (a :: 'a::len word) + unat b < 2 ^ LENGTH('a) \<Longrightarrow> unat (a + b) = unat a + unat b"
  by (simp add: unat_add_lem [THEN iffD1])

lemma unat_mult_exact:
  "unat (a :: 'a::len word) * unat b < 2 ^ LENGTH('a) \<Longrightarrow> unat (a * b) = unat a * unat b"
  by (simp add: unat_mult_lem [THEN iffD1])

lemma unat_sub_exact: "(b :: 'a::len word) \<le> a \<Longrightarrow> unat (a - b) = unat a - unat b"
  by (rule unat_sub)

lemma unat_Suc_exact: "(b :: 'a::len word) \<noteq> - 1 \<Longrightarrow> unat (b + 1) = Suc (unat b)"
  by (metis add.commute add_eq_0_iff unatSuc)

lemma word_less_Suc: "(b :: 'a::len word) \<noteq> - 1 \<Longrightarrow> b < b + 1"
  by (simp add: word_less_nat_alt unat_Suc_exact)

text \<open>Widening conversions (\<open>static_cast<std::uint64_t>\<close>) keep the value.\<close>

lemma unat_ucast_widen:
  assumes "LENGTH('a::len) \<le> LENGTH('b::len)"
  shows "unat (ucast (w :: 'a word) :: 'b word) = unat w"
proof -
  have "unat w < 2 ^ LENGTH('b)"
    using unat_bound [of w] assms by (meson less_le_trans one_le_numeral power_increasing)
  then show ?thesis
    by (simp add: unsigned_ucast_eq unsigned_take_bit_eq take_bit_nat_eq_self)
qed

lemma unat_ucast_widen_simps [simp]:
  "unat (ucast (a :: u32) :: u64) = unat a"
  "unat (ucast (b :: u16) :: u64) = unat b"
  "unat (ucast (b :: u16) :: u32) = unat b"
  "unat (ucast (c :: u8) :: u32) = unat c"
  "unat (ucast (c :: u8) :: u16) = unat c"
  "unat (ucast (c :: u8) :: u64) = unat c"
  by (rule unat_ucast_widen, simp)+

lemma word_neq_0_unat: "(a :: 'a::len word) \<noteq> 0 \<longleftrightarrow> 0 < unat a"
  by (simp add: unat_gt_0)

text \<open>
  \<open>if (right != 0 && left > max / right) return false; product = left * right\<close>: the
  multiplication helper that several files of the program repeat.
\<close>

definition checked_mul :: "'a::len word \<Rightarrow> 'a word \<Rightarrow> 'a word option" where
  "checked_mul left right =
     (if right \<noteq> 0 \<and> left > (- 1) div right then None else Some (left * right))"

text \<open>\<open>if (bytes > max - total) return false; total += bytes\<close>.\<close>

definition checked_add :: "'a::len word \<Rightarrow> 'a word \<Rightarrow> 'a word option" where
  "checked_add bytes sofar = (if bytes > - 1 - sofar then None else Some (sofar + bytes))"

lemma div_guard:
  "b \<noteq> 0 \<Longrightarrow> (a :: 'a::len word) \<le> (- 1) div b \<longleftrightarrow> unat a * unat b < 2 ^ LENGTH('a)"
proof -
  assume "b \<noteq> 0"
  then have b: "0 < unat b" by (simp add: unat_gt_0)
  have "unat a * unat b \<le> 2 ^ LENGTH('a) - 1 \<longleftrightarrow> unat a * unat b < 2 ^ LENGTH('a)"
    using zero_less_power [of "2 :: nat" "LENGTH('a)"] by linarith
  with b show ?thesis
    by (simp add: word_le_nat_alt unat_div unat_max less_eq_div_iff_mult_less_eq)
qed

lemma checked_mul_Some_iff:
  "checked_mul a b = Some (c :: 'a::len word) \<longleftrightarrow>
     unat a * unat b < 2 ^ LENGTH('a) \<and> c = a * b"
proof (cases "b = 0")
  case True
  then show ?thesis by (auto simp: checked_mul_def)
next
  case False
  then show ?thesis by (auto simp: checked_mul_def div_guard not_less simp flip: not_le)
qed

lemma checked_mul_None_iff:
  "checked_mul a b = None \<longleftrightarrow> 2 ^ LENGTH('a) \<le> unat (a :: 'a::len word) * unat b"
  using checked_mul_Some_iff [of a b "a * b"] by (auto simp: checked_mul_def split: if_splits)

lemma checked_mul_SomeD:
  "checked_mul a b = Some (c :: 'a::len word) \<Longrightarrow> unat c = unat a * unat b"
  by (simp add: checked_mul_Some_iff unat_mult_exact)

lemma checked_add_Some_iff:
  "checked_add a t = Some (c :: 'a::len word) \<longleftrightarrow>
     unat t + unat a < 2 ^ LENGTH('a) \<and> c = t + a"
  by (auto simp: checked_add_def not_less le_max_minus less_max_minus add.commute)

lemma checked_add_None_iff:
  "checked_add a t = None \<longleftrightarrow> 2 ^ LENGTH('a) \<le> unat (t :: 'a::len word) + unat a"
  by (auto simp: checked_add_def less_max_minus add.commute)

lemma checked_add_SomeD:
  "checked_add a t = Some (c :: 'a::len word) \<Longrightarrow> unat c = unat t + unat a"
  by (simp add: checked_add_Some_iff unat_add_exact)

text \<open>Testing one bit of a mask.\<close>

lemma and_bit_nonzero:
  "(a :: 'a::len word) AND push_bit n 1 \<noteq> 0 \<longleftrightarrow> bit a n"
proof
  assume nz: "a AND push_bit n 1 \<noteq> 0"
  show "bit a n"
  proof (rule ccontr)
    assume no: "\<not> bit a n"
    have "a AND push_bit n 1 = 0"
    proof (rule bit_word_eqI)
      show "bit (a AND push_bit n 1) i = bit (0 :: 'a word) i" for i
        using no by (cases "i = n") (simp_all add: bit_and_iff bit_exp_iff)
    qed
    with nz show False by simp
  qed
next
  assume yes: "bit a n"
  then have "bit (a AND push_bit n 1) n"
    by (simp add: bit_and_iff bit_exp_iff bit_imp_le_length possible_bit_def)
  then show "a AND push_bit n 1 \<noteq> 0" by (auto simp del: push_bit_of_1)
qed

lemmas word_bounds = guards unat_add_exact unat_sub_exact word_le_nat_alt word_less_nat_alt

lemma ok_triple: "fst r = Ok \<Longrightarrow> r = (Ok, fst (snd r), snd (snd r))"
  and ok_pair: "fst q = Ok \<Longrightarrow> q = (Ok, snd q)"
  by (auto simp: prod_eq_iff)

section \<open>Fixed slot arrays\<close>

text \<open>
  The bookkeeping classes keep a fixed array of slots and search it from the front.
  \<open>first_index P xs\<close> is the index such a loop stops at.
\<close>

fun first_index :: "('a \<Rightarrow> bool) \<Rightarrow> 'a list \<Rightarrow> nat option" where
  "first_index P [] = None"
| "first_index P (x # xs) = (if P x then Some 0 else map_option Suc (first_index P xs))"

lemma first_index_None: "first_index P xs = None \<longleftrightarrow> (\<forall>x \<in> set xs. \<not> P x)"
  by (induction xs) auto

lemma first_index_Some:
  "first_index P xs = Some i \<Longrightarrow> i < length xs \<and> P (xs ! i) \<and> (\<forall>j < i. \<not> P (xs ! j))"
proof (induction xs arbitrary: i)
  case Nil
  then show ?case by simp
next
  case (Cons x xs)
  then show ?case by (auto simp: less_Suc_eq_0_disj split: if_splits)
qed

lemma first_index_eqI:
  "i < length xs \<Longrightarrow> P (xs ! i) \<Longrightarrow> (\<And>j. j < i \<Longrightarrow> \<not> P (xs ! j)) \<Longrightarrow> first_index P xs = Some i"
proof (induction xs arbitrary: i)
  case Nil
  then show ?case by simp
next
  case (Cons x xs)
  show ?case
  proof (cases i)
    case 0
    with Cons.prems show ?thesis by simp
  next
    case (Suc k)
    have "first_index P xs = Some k"
    proof (rule Cons.IH)
      show "\<not> P (xs ! j)" if "j < k" for j
        using Cons.prems(3) [of "Suc j"] that Suc by simp
    qed (use Cons.prems Suc in auto)
    moreover have "\<not> P x" using Cons.prems(3) [of 0] Suc by simp
    ultimately show ?thesis using Suc by simp
  qed
qed

lemma first_index_ex: "(\<exists>i. first_index P xs = Some i) \<longleftrightarrow> (\<exists>x \<in> set xs. P x)"
  using first_index_None [of P xs] by auto

lemma first_index_take:
  "first_index P (take n xs) =
     (case first_index P xs of None \<Rightarrow> None | Some i \<Rightarrow> if i < n then Some i else None)"
  by (induction xs arbitrary: n) (auto simp: take_Cons split: nat.splits option.splits)

text \<open>How many slots satisfy a predicate, and what updating one slot does to that count.\<close>

lemma length_filter_update:
  "i < length xs \<Longrightarrow>
     length (filter P (xs[i := y])) + (if P (xs ! i) then 1 else 0) =
     length (filter P xs) + (if P y then 1 else 0)"
proof (induction xs arbitrary: i)
  case Nil
  then show ?case by simp
next
  case (Cons x xs)
  then show ?case by (cases i) auto
qed

lemma length_filter_set: "i < length xs \<Longrightarrow> \<not> P (xs ! i) \<Longrightarrow> P y \<Longrightarrow>
    length (filter P (xs[i := y])) = Suc (length (filter P xs))"
  using length_filter_update [of i xs P y] by simp

lemma length_filter_clear: "i < length xs \<Longrightarrow> P (xs ! i) \<Longrightarrow> \<not> P y \<Longrightarrow>
    Suc (length (filter P (xs[i := y]))) = length (filter P xs)"
  using length_filter_update [of i xs P y] by simp

lemma length_filter_same: "i < length xs \<Longrightarrow> P (xs ! i) = P y \<Longrightarrow>
    length (filter P (xs[i := y])) = length (filter P xs)"
  using length_filter_update [of i xs P y] by (simp split: if_splits)

text \<open>What updating one slot does to a sum over the slots.\<close>

lemma sum_list_update_nat:
  "i < length xs \<Longrightarrow> sum_list (map f (xs[i := y])) + f (xs ! i) = sum_list (map f xs) + (f y :: nat)"
proof (induction xs arbitrary: i)
  case Nil
  then show ?case by simp
next
  case (Cons x xs)
  show ?case
  proof (cases i)
    case 0
    then show ?thesis by simp
  next
    case (Suc k)
    then show ?thesis using Cons.IH [of k] Cons.prems by simp
  qed
qed

section \<open>Validation loops\<close>

text \<open>\<open>if (valid.code_ != status_code::ok) return valid;\<close> followed by the rest.\<close>

definition and_then :: "status \<Rightarrow> status \<Rightarrow> status" where
  "and_then s t = (if s = Ok then t else s)"

lemma and_then_Ok [simp]: "and_then s t = Ok \<longleftrightarrow> s = Ok \<and> t = Ok"
  by (simp add: and_then_def)

lemma and_then_simps [simp]: "and_then Ok t = t" "s \<noteq> Ok \<Longrightarrow> and_then s t = s"
  by (simp_all add: and_then_def)

text \<open>
  The validators walk a vector from the front; the check of an element sees the elements
  before it (that is how duplicates are found), and the first error is returned.
\<close>

fun validate_items :: "('a list \<Rightarrow> 'a \<Rightarrow> status) \<Rightarrow> 'a list \<Rightarrow> 'a list \<Rightarrow> status" where
  "validate_items check seen [] = Ok"
| "validate_items check seen (x # xs) =
     and_then (check seen x) (validate_items check (seen @ [x]) xs)"

lemma validate_items_Ok:
  "validate_items check seen xs = Ok \<longleftrightarrow>
     (\<forall>i < length xs. check (seen @ take i xs) (xs ! i) = Ok)"
proof (induction xs arbitrary: seen)
  case Nil
  show ?case by simp
next
  case (Cons x xs)
  show ?case by (auto simp: Cons.IH All_less_Suc2)
qed

lemma validate_items_error:
  "validate_items check seen xs = e \<Longrightarrow> e \<noteq> Ok \<Longrightarrow>
     \<exists>i < length xs. check (seen @ take i xs) (xs ! i) = e"
proof (induction xs arbitrary: seen)
  case Nil
  then show ?case by simp
next
  case (Cons x xs)
  show ?case
  proof (cases "check seen x = Ok")
    case True
    then obtain i where "i < length xs" "check ((seen @ [x]) @ take i xs) (xs ! i) = e"
      using Cons.IH [of "seen @ [x]"] Cons.prems by auto
    then show ?thesis by (intro exI [of _ "Suc i"]) simp
  next
    case False
    with Cons.prems show ?thesis by (intro exI [of _ 0]) simp
  qed
qed

text \<open>No element repeats the key of an earlier one: the keys are distinct.\<close>

lemma all_nth_set: "(\<forall>i < length xs. P (xs ! i)) \<longleftrightarrow> (\<forall>x \<in> set xs. P x)"
  by (simp add: all_set_conv_all_nth)

lemma no_earlier_key_distinct:
  "(\<forall>i < length xs. \<forall>y \<in> set (take i xs). f y \<noteq> f (xs ! i)) \<longleftrightarrow> distinct (map f xs)"
proof (induction xs rule: rev_induct)
  case Nil
  show ?case by simp
next
  case (snoc x xs)
  have eq: "(\<forall>i < length (xs @ [x]). \<forall>y \<in> set (take i (xs @ [x])). f y \<noteq> f ((xs @ [x]) ! i)) \<longleftrightarrow>
      (\<forall>i < length xs. \<forall>y \<in> set (take i xs). f y \<noteq> f (xs ! i)) \<and> (\<forall>y \<in> set xs. f y \<noteq> f x)"
    by (simp add: All_less_Suc nth_append) blast
  show ?case unfolding eq snoc by (simp add: image_iff) metis
qed

lemma validate_distinct_Ok:
  assumes "\<And>prev x. check prev x = Ok \<longleftrightarrow> P x \<and> (\<forall>y \<in> set prev. f y \<noteq> f x)"
  shows "validate_items check [] xs = Ok \<longleftrightarrow> (\<forall>x \<in> set xs. P x) \<and> distinct (map f xs)"
  unfolding validate_items_Ok assms append_Nil
  using no_earlier_key_distinct [of xs f] all_nth_set [of xs P] by blast

text \<open>
  The same for a key that may be absent (the empty string, the number zero): present keys
  are distinct.
\<close>

lemma no_earlier_marked_key_distinct:
  "(\<forall>i < length xs. f (xs ! i) \<noteq> absent \<longrightarrow> (\<forall>y \<in> set (take i xs). f y \<noteq> f (xs ! i))) \<longleftrightarrow>
     distinct (filter (\<lambda>k. k \<noteq> absent) (map f xs))"
proof (induction xs rule: rev_induct)
  case Nil
  show ?case by simp
next
  case (snoc x xs)
  have eq: "(\<forall>i < length (xs @ [x]). f ((xs @ [x]) ! i) \<noteq> absent \<longrightarrow>
        (\<forall>y \<in> set (take i (xs @ [x])). f y \<noteq> f ((xs @ [x]) ! i))) \<longleftrightarrow>
      (\<forall>i < length xs. f (xs ! i) \<noteq> absent \<longrightarrow> (\<forall>y \<in> set (take i xs). f y \<noteq> f (xs ! i))) \<and>
      (f x \<noteq> absent \<longrightarrow> (\<forall>y \<in> set xs. f y \<noteq> f x))"
    by (simp add: All_less_Suc nth_append) blast
  show ?case unfolding eq snoc by (auto simp: image_iff)
qed

lemmas no_earlier_present_key_distinct = no_earlier_marked_key_distinct [where absent = "[]"]
lemmas no_earlier_nonzero_key_distinct = no_earlier_marked_key_distinct [where absent = 0]

text \<open>Searching a vector for the first entry with a key.\<close>

lemma find_SomeD: "find P xs = Some x \<Longrightarrow> x \<in> set xs \<and> P x"
  by (auto simp: find_Some_iff)

lemma find_unique:
  assumes "distinct (map f xs)" and "x \<in> set xs"
  shows "find (\<lambda>y. f y = f x) xs = Some x"
proof (cases "find (\<lambda>y. f y = f x) xs")
  case None
  with assms(2) show ?thesis by (auto simp: find_None_iff)
next
  case (Some y)
  from find_SomeD [OF this] have "y \<in> set xs" "f y = f x" by auto
  with assms have "y = x" by (metis distinct_map inj_onD)
  with Some show ?thesis by simp
qed

section \<open>Shared contracts of stateful components\<close>

text \<open>Every operation of the component keeps its invariant.\<close>

locale step_system =
  fixes step :: "'op \<Rightarrow> 's \<Rightarrow> 's"
    and inv :: "'s \<Rightarrow> bool"
  assumes step_inv: "inv s \<Longrightarrow> inv (step a s)"
begin

lemma run_inv: "inv s \<Longrightarrow> inv (fold step ops s)"
  by (induction ops arbitrary: s) (auto simp: step_inv)

lemma run_rel:
  assumes refl: "\<And>s. R s s"
    and trans: "\<And>s t u. R s t \<Longrightarrow> R t u \<Longrightarrow> R s u"
    and one: "\<And>a s. inv s \<Longrightarrow> R s (step a s)"
  shows "inv s \<Longrightarrow> R s (fold step ops s)"
proof (induction ops arbitrary: s)
  case Nil
  show ?case by (simp add: refl)
next
  case (Cons a ops)
  from Cons.prems have "inv (step a s)" by (rule step_inv)
  then have "R (step a s) (fold step (a # ops) s)" using Cons.IH by simp
  with one [OF Cons.prems] show ?case by (rule trans)
qed

end

text \<open>A condition that no operation clears once it holds.\<close>

locale latched_system = step_system +
  fixes latched :: "'s \<Rightarrow> bool"
  assumes latch: "inv s \<Longrightarrow> latched s \<Longrightarrow> latched (step a s)"
begin

lemma run_latched: "inv s \<Longrightarrow> latched s \<Longrightarrow> latched (fold step ops s)"
  by (induction ops arbitrary: s) (auto simp: step_inv latch)

end

text \<open>
  A component that issues identities from a counter: live identities lie below the
  counter, the counter never moves back, and only identities at or above it become live.
\<close>

locale fresh_ids = step_system +
  fixes next_id :: "'s \<Rightarrow> nat"
    and live :: "'s \<Rightarrow> nat set"
  assumes live_below: "inv s \<Longrightarrow> i \<in> live s \<Longrightarrow> i < next_id s"
    and next_mono: "inv s \<Longrightarrow> next_id s \<le> next_id (step a s)"
    and live_step: "inv s \<Longrightarrow> i \<in> live (step a s) \<Longrightarrow> i \<in> live s \<or> next_id s \<le> i"
begin

lemma run_next_mono: "inv s \<Longrightarrow> next_id s \<le> next_id (fold step ops s)"
  by (rule run_rel) (auto intro: next_mono)

lemma retired_never_live_again:
  "inv s \<Longrightarrow> i < next_id s \<Longrightarrow> i \<notin> live s \<Longrightarrow> i \<notin> live (fold step ops s)"
proof (induction ops arbitrary: s)
  case Nil
  then show ?case by simp
next
  case (Cons a ops)
  have "i < next_id (step a s)"
    using next_mono [OF Cons.prems(1), of a] Cons.prems(2) by simp
  moreover have "i \<notin> live (step a s)"
    using live_step [OF Cons.prems(1)] Cons.prems(2,3) by force
  ultimately show ?case
    using Cons.IH [OF step_inv [OF Cons.prems(1), of a]] by simp
qed

end

text \<open>
  A component that lends resources out: what a client holds stays held until the client
  itself gives it back, whatever else is called.
\<close>

locale held_resources = step_system +
  fixes held :: "'s \<Rightarrow> 'r set"
    and gives_back :: "'op \<Rightarrow> 'r set"
  assumes held_step: "inv s \<Longrightarrow> r \<in> held s \<Longrightarrow> r \<notin> gives_back a \<Longrightarrow> r \<in> held (step a s)"
begin

lemma run_held:
  "inv s \<Longrightarrow> r \<in> held s \<Longrightarrow> (\<forall>a \<in> set ops. r \<notin> gives_back a) \<Longrightarrow> r \<in> held (fold step ops s)"
  by (induction ops arbitrary: s) (auto simp: step_inv held_step)

end

end
