(* ===== verification/Submission_Window.thy ===== *)
theory Submission_Window
  imports Prelude
begin

text \<open>
  The submission ledger: contracts/vqec_vision_submission_window.hpp and
  core/vqec_vision_submission_window.cpp (prefix \<open>subwn\<close>).

  A window of at most four slots tracks the jobs a graph has accepted. A job is reserved,
  committed, completed on its input side and on its result side (in either order), and its
  slot is released by the second completion; an uncommitted reservation can be cancelled.
  Deadlines, faults and draining stop admission without releasing anything.
\<close>

section \<open>State\<close>

definition g_max_jobs :: nat where "g_max_jobs = 4"

definition g_default_job_timeout_ns :: u64 where "g_default_job_timeout_ns = 1000000000"

record submission_token =
  tok_cycle_id :: u64
  tok_job_id :: u64

record submission_ticket =
  tk_token :: submission_token
  tk_source_epoch :: u64
  tk_source_frame_id :: u64
  tk_source_pts_ns :: u64
  tk_pipeline_pts_ns :: u64
  tk_submitted_steady_ns :: u64

text \<open>
  A scoped enumeration can hold a value outside its enumerators; the code checks for that,
  so the model has such values.
\<close>

datatype submission_sequence_policy =
    Unique_source_frames
  | Repeated_tasks_per_source_frame
  | Unlisted_sequence_policy u32

record submission_config =
  cfg_cycle_id :: u64
  cfg_source_epoch :: u64
  cfg_pipeline_anchor_ns :: u64
  cfg_job_timeout_ns :: u64
  cfg_capacity :: u32
  cfg_sequence_policy :: submission_sequence_policy

record slot =
  sl_job_id :: u64
  sl_deadline_ns :: u64
  sl_committed :: bool
  sl_input_done :: bool
  sl_result_done :: bool

definition empty_slot :: slot where
  "empty_slot = \<lparr>sl_job_id = 0, sl_deadline_ns = 0, sl_committed = False,
     sl_input_done = False, sl_result_done = False\<rparr>"

definition default_submission_config :: submission_config where
  "default_submission_config = \<lparr>cfg_cycle_id = 0, cfg_source_epoch = 0,
     cfg_pipeline_anchor_ns = 0, cfg_job_timeout_ns = g_default_job_timeout_ns,
     cfg_capacity = 1, cfg_sequence_policy = Unique_source_frames\<rparr>"

record submission_window =
  sw_config :: submission_config
  sw_slots :: "slot list"
  sw_next_job_id :: u64
  sw_first_source_pts_ns :: u64
  sw_last_source_pts_ns :: u64
  sw_last_source_frame_id :: u64
  sw_configured :: bool
  sw_has_timestamp :: bool
  sw_draining :: bool
  sw_faulted :: bool

definition subwn_initial :: submission_window where
  "subwn_initial = \<lparr>sw_config = default_submission_config,
     sw_slots = replicate g_max_jobs empty_slot, sw_next_job_id = 1,
     sw_first_source_pts_ns = 0, sw_last_source_pts_ns = 0, sw_last_source_frame_id = 0,
     sw_configured = False, sw_has_timestamp = False, sw_draining = False,
     sw_faulted = False\<rparr>"

section \<open>Operations\<close>

definition known_sequence_policy :: "submission_sequence_policy \<Rightarrow> bool" where
  "known_sequence_policy p \<longleftrightarrow>
     p = Unique_source_frames \<or> p = Repeated_tasks_per_source_frame"

definition subwn_configure ::
    "submission_config \<Rightarrow> submission_window \<Rightarrow> status \<times> submission_window" where
  "subwn_configure c w =
     (if sw_configured w then (Invalid_state, w)
      else if cfg_cycle_id c = 0 \<or> cfg_source_epoch c = 0 \<or> cfg_capacity c = 0 \<or>
          unat (cfg_capacity c) > length (sw_slots w) \<or>
          cfg_pipeline_anchor_ns c = UINT64_MAX \<or>
          cfg_job_timeout_ns c = 0 \<or> cfg_job_timeout_ns c = UINT64_MAX \<or>
          \<not> known_sequence_policy (cfg_sequence_policy c)
        then (Invalid_argument, w)
      else (Ok, w\<lparr>sw_config := c, sw_configured := True\<rparr>))"

definition subwn_is_accepting :: "submission_window \<Rightarrow> bool" where
  "subwn_is_accepting w \<longleftrightarrow> sw_configured w \<and> \<not> sw_draining w \<and> \<not> sw_faulted w"

definition subwn_free_slot :: "submission_window \<Rightarrow> nat option" where
  "subwn_free_slot w =
     first_index (\<lambda>s. sl_job_id s = 0) (take (unat (cfg_capacity (sw_config w))) (sw_slots w))"

definition subwn_stale_source :: "u64 \<Rightarrow> u64 \<Rightarrow> u64 \<Rightarrow> submission_window \<Rightarrow> bool" where
  "subwn_stale_source source_epoch source_frame_id source_pts_ns w \<longleftrightarrow>
     (let repeats_last_source = sw_has_timestamp w \<and>
            source_pts_ns = sw_last_source_pts_ns w \<and>
            source_frame_id = sw_last_source_frame_id w;
          repeated_task_allowed =
            cfg_sequence_policy (sw_config w) = Repeated_tasks_per_source_frame \<and>
            repeats_last_source
      in source_epoch \<noteq> cfg_source_epoch (sw_config w) \<or> source_pts_ns = UINT64_MAX \<or>
         (sw_has_timestamp w \<and> source_pts_ns < sw_last_source_pts_ns w) \<or>
         (sw_has_timestamp w \<and> source_pts_ns = sw_last_source_pts_ns w \<and>
           \<not> repeated_task_allowed))"

definition subwn_delta :: "u64 \<Rightarrow> submission_window \<Rightarrow> u64" where
  "subwn_delta source_pts_ns w =
     (if sw_has_timestamp w then source_pts_ns - sw_first_source_pts_ns w else 0)"

definition subwn_take_slot ::
    "u64 \<Rightarrow> u64 \<Rightarrow> u64 \<Rightarrow> nat \<Rightarrow> submission_window \<Rightarrow> submission_window" where
  "subwn_take_slot source_frame_id source_pts_ns steady_now_ns i w =
     w\<lparr>sw_first_source_pts_ns :=
         (if sw_has_timestamp w then sw_first_source_pts_ns w else source_pts_ns),
       sw_has_timestamp := True,
       sw_last_source_pts_ns := source_pts_ns,
       sw_last_source_frame_id := source_frame_id,
       sw_next_job_id := sw_next_job_id w + 1,
       sw_slots := (sw_slots w)[i := (sw_slots w ! i)
         \<lparr>sl_job_id := sw_next_job_id w,
          sl_deadline_ns := steady_now_ns + cfg_job_timeout_ns (sw_config w)\<rparr>]\<rparr>"

definition subwn_make_ticket ::
    "u64 \<Rightarrow> u64 \<Rightarrow> u64 \<Rightarrow> u64 \<Rightarrow> submission_window \<Rightarrow> submission_ticket" where
  "subwn_make_ticket source_epoch source_frame_id source_pts_ns steady_now_ns w =
     \<lparr>tk_token = \<lparr>tok_cycle_id = cfg_cycle_id (sw_config w), tok_job_id = sw_next_job_id w\<rparr>,
      tk_source_epoch = source_epoch,
      tk_source_frame_id = source_frame_id,
      tk_source_pts_ns = source_pts_ns,
      tk_pipeline_pts_ns = cfg_pipeline_anchor_ns (sw_config w) + subwn_delta source_pts_ns w,
      tk_submitted_steady_ns = steady_now_ns\<rparr>"

definition subwn_would_overflow :: "u64 \<Rightarrow> u64 \<Rightarrow> submission_window \<Rightarrow> bool" where
  "subwn_would_overflow source_pts_ns steady_now_ns w \<longleftrightarrow>
     subwn_delta source_pts_ns w \<ge> UINT64_MAX - cfg_pipeline_anchor_ns (sw_config w) \<or>
     steady_now_ns \<ge> UINT64_MAX - cfg_job_timeout_ns (sw_config w) \<or>
     sw_next_job_id w = UINT64_MAX"

definition subwn_reserve ::
    "u64 \<Rightarrow> u64 \<Rightarrow> u64 \<Rightarrow> u64 \<Rightarrow> submission_window \<Rightarrow> submission_ticket \<Rightarrow>
       status \<times> submission_window \<times> submission_ticket" where
  "subwn_reserve source_epoch source_frame_id source_pts_ns steady_now_ns w ticket =
     (if \<not> subwn_is_accepting w then (Invalid_state, w, ticket)
      else if subwn_stale_source source_epoch source_frame_id source_pts_ns w
        then (Invalid_argument, w, ticket)
      else if subwn_would_overflow source_pts_ns steady_now_ns w
        then (Invalid_argument, w, ticket)
      else
        (case subwn_free_slot w of
           None \<Rightarrow> (Resource_exhausted, w, ticket)
         | Some i \<Rightarrow>
             (Ok, subwn_take_slot source_frame_id source_pts_ns steady_now_ns i w,
              subwn_make_ticket source_epoch source_frame_id source_pts_ns steady_now_ns w)))"

text \<open>The returned pointer is the index of the slot.\<close>

definition subwn_find_slot :: "submission_token \<Rightarrow> submission_window \<Rightarrow> nat option" where
  "subwn_find_slot token w =
     (if \<not> sw_configured w \<or> tok_cycle_id token \<noteq> cfg_cycle_id (sw_config w) \<or>
         tok_job_id token = 0
      then None
      else first_index (\<lambda>s. sl_job_id s = tok_job_id token) (sw_slots w))"

definition subwn_commit ::
    "submission_token \<Rightarrow> submission_window \<Rightarrow> status \<times> submission_window" where
  "subwn_commit token w =
     (case subwn_find_slot token w of
        None \<Rightarrow> (Invalid_state, w)
      | Some i \<Rightarrow>
          if sl_committed (sw_slots w ! i) \<or> \<not> subwn_is_accepting w then (Invalid_state, w)
          else (Ok, w\<lparr>sw_slots := (sw_slots w)[i := (sw_slots w ! i)\<lparr>sl_committed := True\<rparr>]\<rparr>))"

definition subwn_cancel_reserved ::
    "submission_token \<Rightarrow> submission_window \<Rightarrow> status \<times> submission_window" where
  "subwn_cancel_reserved token w =
     (case subwn_find_slot token w of
        None \<Rightarrow> (Invalid_state, w)
      | Some i \<Rightarrow>
          if sl_committed (sw_slots w ! i) then (Invalid_state, w)
          else (Ok, w\<lparr>sw_slots := (sw_slots w)[i := empty_slot]\<rparr>))"

definition subwn_complete ::
    "submission_token \<Rightarrow> bool \<Rightarrow> submission_window \<Rightarrow> status \<times> submission_window" where
  "subwn_complete token is_input w =
     (case subwn_find_slot token w of
        None \<Rightarrow> (Invalid_state, w)
      | Some i \<Rightarrow>
          (let entry = sw_slots w ! i in
           if \<not> sl_committed entry then (Invalid_state, w)
           else if (if is_input then sl_input_done entry else sl_result_done entry)
             then (Invalid_state, w)
           else
             (let entry' = (if is_input then entry\<lparr>sl_input_done := True\<rparr>
                            else entry\<lparr>sl_result_done := True\<rparr>)
              in (Ok, w\<lparr>sw_slots := (sw_slots w)
                    [i := if sl_input_done entry' \<and> sl_result_done entry' then empty_slot
                          else entry']\<rparr>))))"

definition subwn_complete_input ::
    "submission_token \<Rightarrow> submission_window \<Rightarrow> status \<times> submission_window" where
  "subwn_complete_input token = subwn_complete token True"

definition subwn_complete_result ::
    "submission_token \<Rightarrow> submission_window \<Rightarrow> status \<times> submission_window" where
  "subwn_complete_result token = subwn_complete token False"

definition subwn_check_deadlines ::
    "u64 \<Rightarrow> submission_window \<Rightarrow> status \<times> submission_window" where
  "subwn_check_deadlines steady_now_ns w =
     (if \<not> sw_configured w then (Invalid_state, w)
      else if list_ex (\<lambda>s. sl_job_id s \<noteq> 0 \<and> steady_now_ns \<ge> sl_deadline_ns s) (sw_slots w)
        then (Timeout, w\<lparr>sw_faulted := True\<rparr>)
      else (if sw_faulted w then Invalid_state else Ok, w))"

definition subwn_begin_drain :: "submission_window \<Rightarrow> submission_window" where
  "subwn_begin_drain w = w\<lparr>sw_draining := True\<rparr>"

definition subwn_mark_fault :: "submission_window \<Rightarrow> submission_window" where
  "subwn_mark_fault w = w\<lparr>sw_faulted := True\<rparr>"

definition subwn_get_outstanding :: "submission_window \<Rightarrow> nat" where
  "subwn_get_outstanding w = length (filter (\<lambda>s. sl_job_id s \<noteq> 0) (sw_slots w))"

text \<open>Any call a client can make, as one step of the window's state.\<close>

datatype subwn_op =
    Sw_configure submission_config
  | Sw_reserve u64 u64 u64 u64
  | Sw_commit submission_token
  | Sw_cancel_reserved submission_token
  | Sw_complete submission_token bool
  | Sw_check_deadlines u64
  | Sw_begin_drain
  | Sw_mark_fault

definition blank_ticket :: submission_ticket where
  "blank_ticket = \<lparr>tk_token = \<lparr>tok_cycle_id = 0, tok_job_id = 0\<rparr>, tk_source_epoch = 0,
     tk_source_frame_id = 0, tk_source_pts_ns = 0, tk_pipeline_pts_ns = 0,
     tk_submitted_steady_ns = 0\<rparr>"

fun subwn_step :: "subwn_op \<Rightarrow> submission_window \<Rightarrow> submission_window" where
  "subwn_step (Sw_configure c) w = snd (subwn_configure c w)"
| "subwn_step (Sw_reserve e f p n) w = fst (snd (subwn_reserve e f p n w blank_ticket))"
| "subwn_step (Sw_commit t) w = snd (subwn_commit t w)"
| "subwn_step (Sw_cancel_reserved t) w = snd (subwn_cancel_reserved t w)"
| "subwn_step (Sw_complete t b) w = snd (subwn_complete t b w)"
| "subwn_step (Sw_check_deadlines n) w = snd (subwn_check_deadlines n w)"
| "subwn_step Sw_begin_drain w = subwn_begin_drain w"
| "subwn_step Sw_mark_fault w = subwn_mark_fault w"

section \<open>The job life cycle\<close>

text \<open>
  The contract of the ledger, per job: a reserved job is committed or cancelled, a
  committed one is released by its second completion and by nothing else.
\<close>

datatype job_phase = Absent | Reserved | Running bool bool

inductive job_step :: "job_phase \<Rightarrow> job_phase \<Rightarrow> bool" where
  reserve: "job_step Absent Reserved"
| commit: "job_step Reserved (Running False False)"
| cancel: "job_step Reserved Absent"
| input_first: "job_step (Running False False) (Running True False)"
| result_first: "job_step (Running False False) (Running False True)"
| input_last: "job_step (Running False True) Absent"
| result_last: "job_step (Running True False) Absent"

inductive_cases from_running: "job_step (Running i r) p"
inductive_cases from_absent: "job_step Absent p"
inductive_simps job_step_simps:
  "job_step Absent p" "job_step Reserved p" "job_step (Running i r) p"

text \<open>
  The interface of a ledger to its client. \<open>phase s j\<close> is where job \<open>j\<close> stands in state
  \<open>s\<close>; every operation either leaves it or moves it along the life cycle.
\<close>

locale job_ledger = step_system +
  fixes phase :: "'s \<Rightarrow> u64 \<Rightarrow> job_phase"
  assumes phase_step:
    "inv s \<Longrightarrow> j \<noteq> 0 \<Longrightarrow>
       phase (step a s) j = phase s j \<or> job_step (phase s j) (phase (step a s) j)"
begin

lemma run_phase:
  "inv s \<Longrightarrow> j \<noteq> 0 \<Longrightarrow> job_step\<^sup>*\<^sup>* (phase s j) (phase (fold step ops s) j)"
proof (induction ops arbitrary: s)
  case Nil
  show ?case by simp
next
  case (Cons a ops)
  have "job_step\<^sup>*\<^sup>* (phase s j) (phase (step a s) j)"
    using phase_step [OF Cons.prems, of a] by auto
  moreover have "job_step\<^sup>*\<^sup>* (phase (step a s) j) (phase (fold step ops (step a s)) j)"
    using Cons.IH [OF step_inv [OF Cons.prems(1)] Cons.prems(2)] .
  ultimately show ?case by simp
qed

end

section \<open>The invariant\<close>

definition slot_ok :: "u64 \<Rightarrow> slot \<Rightarrow> bool" where
  "slot_ok bound s \<longleftrightarrow>
     (if sl_job_id s = 0 then s = empty_slot
      else sl_job_id s < bound \<and>
        (sl_input_done s \<or> sl_result_done s \<longrightarrow> sl_committed s) \<and>
        \<not> (sl_input_done s \<and> sl_result_done s))"

definition slots_distinct :: "slot list \<Rightarrow> bool" where
  "slots_distinct xs \<longleftrightarrow> (\<forall>i < length xs. \<forall>j < length xs.
     sl_job_id (xs ! i) = sl_job_id (xs ! j) \<longrightarrow> sl_job_id (xs ! i) \<noteq> 0 \<longrightarrow> i = j)"

definition config_ok :: "submission_config \<Rightarrow> bool" where
  "config_ok c \<longleftrightarrow> cfg_cycle_id c \<noteq> 0 \<and> cfg_source_epoch c \<noteq> 0 \<and> 0 < unat (cfg_capacity c) \<and>
     unat (cfg_capacity c) \<le> g_max_jobs \<and> cfg_pipeline_anchor_ns c \<noteq> UINT64_MAX \<and>
     cfg_job_timeout_ns c \<noteq> 0 \<and> cfg_job_timeout_ns c \<noteq> UINT64_MAX \<and>
     known_sequence_policy (cfg_sequence_policy c)"

definition subwn_inv :: "submission_window \<Rightarrow> bool" where
  "subwn_inv w \<longleftrightarrow>
     length (sw_slots w) = g_max_jobs \<and>
     0 < sw_next_job_id w \<and>
     (\<forall>i < g_max_jobs. slot_ok (sw_next_job_id w) (sw_slots w ! i)) \<and>
     slots_distinct (sw_slots w) \<and>
     (\<forall>i < g_max_jobs. sl_job_id (sw_slots w ! i) \<noteq> 0 \<longrightarrow>
        i < unat (cfg_capacity (sw_config w))) \<and>
     (if sw_configured w then config_ok (sw_config w)
      else (\<forall>i < g_max_jobs. sw_slots w ! i = empty_slot) \<and> \<not> sw_has_timestamp w) \<and>
     (sw_has_timestamp w \<longrightarrow>
        sw_first_source_pts_ns w \<le> sw_last_source_pts_ns w \<and>
        sw_last_source_pts_ns w \<noteq> UINT64_MAX)"

lemma sl_job_id_empty [simp]: "sl_job_id empty_slot = 0"
  and sl_flags_empty [simp]: "\<not> sl_committed empty_slot" "\<not> sl_input_done empty_slot"
    "\<not> sl_result_done empty_slot"
  by (simp_all add: empty_slot_def)

lemma slot_ok_empty [simp]: "slot_ok b empty_slot"
  by (simp add: slot_ok_def)

lemma slot_ok_mono: "slot_ok b s \<Longrightarrow> b \<le> c \<Longrightarrow> slot_ok c s"
  by (auto simp: slot_ok_def split: if_splits)

lemma slots_distinct_update:
  assumes "slots_distinct xs" and "i < length xs"
    and "\<And>j. j < length xs \<Longrightarrow> j \<noteq> i \<Longrightarrow> sl_job_id s = 0 \<or> sl_job_id (xs ! j) \<noteq> sl_job_id s"
  shows "slots_distinct (xs[i := s])"
  unfolding slots_distinct_def
proof (intro allI impI)
  fix a b
  assume ab: "a < length (xs[i := s])" "b < length (xs[i := s])"
    and eq: "sl_job_id (xs[i := s] ! a) = sl_job_id (xs[i := s] ! b)"
    and nz: "sl_job_id (xs[i := s] ! a) \<noteq> 0"
  show "a = b"
  proof (cases "a = i \<or> b = i")
    case True
    with ab eq nz assms(3) [of a] assms(3) [of b] show ?thesis
      by (auto simp: nth_list_update split: if_splits)
  next
    case False
    with ab eq nz assms(1) show ?thesis by (auto simp: slots_distinct_def)
  qed
qed

lemma subwn_inv_initial: "subwn_inv subwn_initial"
  by (simp add: subwn_inv_def subwn_initial_def slots_distinct_def g_max_jobs_def nth_Cons')

lemma subwn_inv_length: "subwn_inv w \<Longrightarrow> length (sw_slots w) = g_max_jobs"
  and subwn_inv_slot: "subwn_inv w \<Longrightarrow> i < g_max_jobs \<Longrightarrow>
    slot_ok (sw_next_job_id w) (sw_slots w ! i)"
  and subwn_inv_distinct: "subwn_inv w \<Longrightarrow> i < g_max_jobs \<Longrightarrow> j < g_max_jobs \<Longrightarrow>
    sl_job_id (sw_slots w ! i) = sl_job_id (sw_slots w ! j) \<Longrightarrow>
    sl_job_id (sw_slots w ! i) \<noteq> 0 \<Longrightarrow> i = j"
  and subwn_inv_capacity: "subwn_inv w \<Longrightarrow> i < g_max_jobs \<Longrightarrow>
    sl_job_id (sw_slots w ! i) \<noteq> 0 \<Longrightarrow> i < unat (cfg_capacity (sw_config w))"
  and subwn_inv_unconfigured: "subwn_inv w \<Longrightarrow> \<not> sw_configured w \<Longrightarrow>
    (\<forall>i < g_max_jobs. sw_slots w ! i = empty_slot) \<and> \<not> sw_has_timestamp w"
  and subwn_inv_config: "subwn_inv w \<Longrightarrow> sw_configured w \<Longrightarrow> config_ok (sw_config w)"
  and subwn_inv_pts: "subwn_inv w \<Longrightarrow> sw_has_timestamp w \<Longrightarrow>
    sw_first_source_pts_ns w \<le> sw_last_source_pts_ns w \<and>
    sw_last_source_pts_ns w \<noteq> UINT64_MAX"
  unfolding subwn_inv_def slots_distinct_def by presburger+

text \<open>Replacing a slot by one with the same job, or by the empty slot, keeps the invariant.\<close>

lemma subwn_inv_update:
  assumes inv: "subwn_inv w" and i: "i < g_max_jobs"
    and ok: "slot_ok (sw_next_job_id w) s"
    and same: "sl_job_id s = 0 \<or> sl_job_id s = sl_job_id (sw_slots w ! i)"
  shows "subwn_inv (w\<lparr>sw_slots := (sw_slots w)[i := s]\<rparr>)"
proof -
  have len: "length (sw_slots w) = g_max_jobs" using inv by (simp add: subwn_inv_def)
  have "slots_distinct ((sw_slots w)[i := s])"
    using inv i same len
    by (intro slots_distinct_update) (auto simp: subwn_inv_def slots_distinct_def)
  moreover have "s = empty_slot" if "\<not> sw_configured w"
    using inv i ok same that by (auto simp: subwn_inv_def slot_ok_def split: if_splits)
  ultimately show ?thesis
    using inv i ok same len by (auto simp: subwn_inv_def nth_list_update)
qed

lemma subwn_find_slot_Some:
  assumes "subwn_inv w" and "subwn_find_slot t w = Some i"
  shows "i < g_max_jobs" and "sl_job_id (sw_slots w ! i) = tok_job_id t"
    and "tok_job_id t \<noteq> 0" and "sw_configured w" and "tok_cycle_id t = cfg_cycle_id (sw_config w)"
proof -
  have "first_index (\<lambda>s. sl_job_id s = tok_job_id t) (sw_slots w) = Some i"
    and r: "sw_configured w" "tok_cycle_id t = cfg_cycle_id (sw_config w)" "tok_job_id t \<noteq> 0"
    using assms(2) by (auto simp: subwn_find_slot_def split: if_splits)
  from first_index_Some [OF this(1)] subwn_inv_length [OF assms(1)]
  show "i < g_max_jobs" "sl_job_id (sw_slots w ! i) = tok_job_id t" by simp_all
  from r show "tok_job_id t \<noteq> 0" "sw_configured w"
    "tok_cycle_id t = cfg_cycle_id (sw_config w)" by auto
qed

lemma subwn_find_slot_iff:
  assumes "subwn_inv w"
  shows "subwn_find_slot t w = Some i \<longleftrightarrow>
    sw_configured w \<and> tok_cycle_id t = cfg_cycle_id (sw_config w) \<and> tok_job_id t \<noteq> 0 \<and>
    i < g_max_jobs \<and> sl_job_id (sw_slots w ! i) = tok_job_id t"
    (is "?l \<longleftrightarrow> ?r")
proof
  assume ?l
  with subwn_find_slot_Some [OF assms] show ?r by simp
next
  assume r: ?r
  have len: "length (sw_slots w) = g_max_jobs" using assms by (simp add: subwn_inv_def)
  have "first_index (\<lambda>s. sl_job_id s = tok_job_id t) (sw_slots w) = Some i"
  proof (rule first_index_eqI)
    show "sl_job_id (sw_slots w ! j) \<noteq> tok_job_id t" if "j < i" for j
      using subwn_inv_distinct [OF assms, of j i] r that by auto
  qed (use r len in simp_all)
  with r show ?l by (simp add: subwn_find_slot_def)
qed

section \<open>Every operation keeps the invariant\<close>

lemma subwn_configure_inv: "subwn_inv w \<Longrightarrow> subwn_inv (snd (subwn_configure c w))"
  by (auto simp: subwn_configure_def subwn_inv_def config_ok_def word_neq_0_unat split: if_splits)

lemma subwn_commit_inv: "subwn_inv w \<Longrightarrow> subwn_inv (snd (subwn_commit t w))"
proof (cases "subwn_find_slot t w")
  case (Some i)
  assume inv: "subwn_inv w"
  note f = subwn_find_slot_Some [OF inv Some]
  have "slot_ok (sw_next_job_id w) ((sw_slots w ! i)\<lparr>sl_committed := True\<rparr>)"
    using subwn_inv_slot [OF inv f(1)] f(2,3) by (auto simp: slot_ok_def)
  then show ?thesis
    using inv f(1) Some by (auto simp: subwn_commit_def intro: subwn_inv_update)
qed (simp add: subwn_commit_def)

lemma subwn_cancel_inv: "subwn_inv w \<Longrightarrow> subwn_inv (snd (subwn_cancel_reserved t w))"
  by (auto simp: subwn_cancel_reserved_def intro: subwn_inv_update dest: subwn_find_slot_Some
      split: option.splits)

definition completed_slot :: "bool \<Rightarrow> slot \<Rightarrow> slot" where
  "completed_slot is_input s =
     (let s' = (if is_input then s\<lparr>sl_input_done := True\<rparr> else s\<lparr>sl_result_done := True\<rparr>)
      in if sl_input_done s' \<and> sl_result_done s' then empty_slot else s')"

lemma subwn_complete_eq:
  "subwn_complete t b w =
     (case subwn_find_slot t w of
        None \<Rightarrow> (Invalid_state, w)
      | Some i \<Rightarrow>
          if sl_committed (sw_slots w ! i) \<and>
             \<not> (if b then sl_input_done (sw_slots w ! i) else sl_result_done (sw_slots w ! i))
          then (Ok, w\<lparr>sw_slots := (sw_slots w)[i := completed_slot b (sw_slots w ! i)]\<rparr>)
          else (Invalid_state, w))"
  by (auto simp: subwn_complete_def completed_slot_def Let_def split: option.splits)

lemma completed_slot_ok:
  "slot_ok n s \<Longrightarrow> sl_job_id s \<noteq> 0 \<Longrightarrow> sl_committed s \<Longrightarrow> slot_ok n (completed_slot b s)"
  by (auto simp: completed_slot_def slot_ok_def Let_def)

lemma completed_slot_job: "sl_job_id (completed_slot b s) = 0 \<or>
    sl_job_id (completed_slot b s) = sl_job_id s"
  by (simp add: completed_slot_def Let_def)

lemma subwn_complete_inv: "subwn_inv w \<Longrightarrow> subwn_inv (snd (subwn_complete t b w))"
proof (cases "subwn_find_slot t w")
  case (Some i)
  assume inv: "subwn_inv w"
  note f = subwn_find_slot_Some [OF inv Some]
  show ?thesis
    using subwn_inv_update [OF inv f(1) completed_slot_ok [OF subwn_inv_slot [OF inv f(1)]]
        completed_slot_job, of b] f(2,3) inv Some
    by (simp add: subwn_complete_eq)
qed (simp add: subwn_complete_def)

lemma subwn_check_deadlines_inv: "subwn_inv w \<Longrightarrow> subwn_inv (snd (subwn_check_deadlines n w))"
  by (auto simp: subwn_check_deadlines_def subwn_inv_def)

lemma subwn_free_slot_Some:
  assumes "subwn_inv w" and "subwn_free_slot w = Some i"
  shows "i < g_max_jobs" and "i < unat (cfg_capacity (sw_config w))"
    and "sl_job_id (sw_slots w ! i) = 0" and "sw_slots w ! i = empty_slot"
proof -
  from first_index_Some [OF assms(2) [unfolded subwn_free_slot_def]]
  show i: "i < g_max_jobs" and "i < unat (cfg_capacity (sw_config w))"
    and j: "sl_job_id (sw_slots w ! i) = 0"
    by (auto simp: subwn_inv_length [OF assms(1)])
  from subwn_inv_slot [OF assms(1) i] j show "sw_slots w ! i = empty_slot"
    by (simp add: slot_ok_def)
qed

text \<open>What a successful reservation knows.\<close>

lemma subwn_reserve_Ok:
  assumes "subwn_reserve e f p n w tk = (Ok, w', tk')"
  obtains i where "subwn_free_slot w = Some i" and "subwn_is_accepting w"
    and "\<not> subwn_stale_source e f p w" and "\<not> subwn_would_overflow p n w"
    and "w' = subwn_take_slot f p n i w" and "tk' = subwn_make_ticket e f p n w"
  using assms by (auto simp: subwn_reserve_def split: if_splits option.splits)

lemma subwn_reserve_failed:
  "subwn_reserve e f p n w tk = (st, w', tk') \<Longrightarrow> st \<noteq> Ok \<Longrightarrow> w' = w \<and> tk' = tk"
  by (auto simp: subwn_reserve_def split: if_splits option.splits)

lemma subwn_take_slot_inv:
  assumes inv: "subwn_inv w" and free: "subwn_free_slot w = Some i"
    and acc: "subwn_is_accepting w" and st: "\<not> subwn_stale_source e f p w"
    and ov: "\<not> subwn_would_overflow p n w"
  shows "subwn_inv (subwn_take_slot f p n i w)"
proof -
  note fr = subwn_free_slot_Some [OF inv free]
  have len: "length (sw_slots w) = g_max_jobs" by (rule subwn_inv_length [OF inv])
  have nx: "0 < sw_next_job_id w" "sw_next_job_id w < sw_next_job_id w + 1"
    using inv ov by (simp_all add: subwn_inv_def subwn_would_overflow_def word_less_Suc)
  let ?s = "(sw_slots w ! i)\<lparr>sl_job_id := sw_next_job_id w,
      sl_deadline_ns := n + cfg_job_timeout_ns (sw_config w)\<rparr>"
  have old: "sl_job_id (sw_slots w ! j) \<noteq> sw_next_job_id w" if "j < g_max_jobs" for j
    using subwn_inv_slot [OF inv that] nx by (auto simp: slot_ok_def split: if_splits)
  have "slots_distinct ((sw_slots w)[i := ?s])"
    using inv fr(1) len old
    by (intro slots_distinct_update) (auto simp: subwn_inv_def)
  moreover have "slot_ok (sw_next_job_id w + 1) ((sw_slots w)[i := ?s] ! j)"
    if "j < g_max_jobs" for j
  proof (cases "j = i")
    case True
    with that nx fr(4) len show ?thesis by (auto simp: slot_ok_def empty_slot_def)
  next
    case False
    with that nx len slot_ok_mono [OF subwn_inv_slot [OF inv that], of "sw_next_job_id w + 1"]
    show ?thesis by simp
  qed
  moreover have "sw_configured w" "config_ok (sw_config w)"
    using acc inv by (simp_all add: subwn_is_accepting_def subwn_inv_config)
  moreover have "sw_first_source_pts_ns w \<le> p" if "sw_has_timestamp w"
    using that subwn_inv_pts [OF inv that] st by (auto simp: subwn_stale_source_def Let_def)
  moreover have "p \<noteq> UINT64_MAX" using st by (simp add: subwn_stale_source_def Let_def)
  ultimately show ?thesis
    using nx len fr subwn_inv_capacity [OF inv]
    by (auto simp: subwn_inv_def subwn_take_slot_def nth_list_update)
qed

lemma subwn_reserve_inv: "subwn_inv w \<Longrightarrow> subwn_inv (fst (snd (subwn_reserve e f p n w tk)))"
  by (auto simp: subwn_reserve_def subwn_take_slot_inv split: option.splits)

lemma subwn_step_inv: "subwn_inv w \<Longrightarrow> subwn_inv (subwn_step a w)"
  by (cases a) (simp_all add: subwn_configure_inv subwn_reserve_inv subwn_commit_inv
      subwn_cancel_inv subwn_complete_inv subwn_check_deadlines_inv, simp_all add: subwn_inv_def subwn_begin_drain_def subwn_mark_fault_def)

section \<open>Where a job stands\<close>

definition slot_phase :: "slot \<Rightarrow> job_phase" where
  "slot_phase s =
     (if sl_committed s then Running (sl_input_done s) (sl_result_done s) else Reserved)"

definition subwn_phase :: "submission_window \<Rightarrow> u64 \<Rightarrow> job_phase" where
  "subwn_phase w j =
     (case find (\<lambda>s. sl_job_id s = j \<and> j \<noteq> 0) (sw_slots w) of
        None \<Rightarrow> Absent
      | Some s \<Rightarrow> slot_phase s)"

lemma slot_phase_not_Absent [simp]: "slot_phase s \<noteq> Absent"
  by (simp add: slot_phase_def)

lemma subwn_phase_at:
  assumes "subwn_inv w" and "i < g_max_jobs" and "sl_job_id (sw_slots w ! i) \<noteq> 0"
  shows "subwn_phase w (sl_job_id (sw_slots w ! i)) = slot_phase (sw_slots w ! i)"
proof -
  let ?j = "sl_job_id (sw_slots w ! i)"
  have "find (\<lambda>s. sl_job_id s = ?j \<and> ?j \<noteq> 0) (sw_slots w) = Some (sw_slots w ! i)"
    using assms subwn_inv_distinct [OF assms(1), of _ i] subwn_inv_length [OF assms(1)]
    by (subst find_Some_iff) (metis (no_types, lifting) nat_neq_iff order.strict_trans)
  then show ?thesis by (simp add: subwn_phase_def)
qed

lemma subwn_phase_Absent:
  assumes "subwn_inv w"
  shows "subwn_phase w j = Absent \<longleftrightarrow>
    j = 0 \<or> (\<forall>i < g_max_jobs. sl_job_id (sw_slots w ! i) \<noteq> j)"
  using subwn_inv_length [OF assms]
  by (auto simp: subwn_phase_def find_None_iff find_Some_iff in_set_conv_nth split: option.splits)

lemma subwn_phase_eqI:
  assumes "subwn_inv w" and "subwn_inv w'"
    and "\<And>i. i < g_max_jobs \<Longrightarrow> j \<noteq> 0 \<Longrightarrow>
           sl_job_id (sw_slots w ! i) = j \<or> sl_job_id (sw_slots w' ! i) = j \<Longrightarrow>
           sw_slots w' ! i = sw_slots w ! i"
  shows "subwn_phase w' j = subwn_phase w j"
proof (cases "subwn_phase w j = Absent")
  case True
  then have "subwn_phase w' j = Absent"
    using assms by (metis subwn_phase_Absent)
  with True show ?thesis by simp
next
  case False
  then obtain i where i: "i < g_max_jobs" "sl_job_id (sw_slots w ! i) = j" "j \<noteq> 0"
    using subwn_phase_Absent [OF assms(1)] by blast
  with assms(3) have "sw_slots w' ! i = sw_slots w ! i" by blast
  with i subwn_phase_at [OF assms(1), of i] subwn_phase_at [OF assms(2), of i] show ?thesis
    by simp
qed

text \<open>Updating one slot changes the phase of that slot's job only.\<close>

lemma subwn_phase_update:
  assumes inv: "subwn_inv w" and i: "i < g_max_jobs"
    and ok: "slot_ok (sw_next_job_id w) s"
    and same: "sl_job_id s = 0 \<or> sl_job_id s = sl_job_id (sw_slots w ! i)"
    and nz: "sl_job_id (sw_slots w ! i) \<noteq> 0"
  shows "subwn_phase (w\<lparr>sw_slots := (sw_slots w)[i := s]\<rparr>) =
    (subwn_phase w)(sl_job_id (sw_slots w ! i) :=
       (if sl_job_id s = 0 then Absent else slot_phase s))"
proof
  fix j
  let ?w = "w\<lparr>sw_slots := (sw_slots w)[i := s]\<rparr>"
  have inv': "subwn_inv ?w" by (rule subwn_inv_update [OF inv i ok same])
  have len: "length (sw_slots w) = g_max_jobs" by (rule subwn_inv_length [OF inv])
  show "subwn_phase ?w j = ((subwn_phase w)(sl_job_id (sw_slots w ! i) :=
       (if sl_job_id s = 0 then Absent else slot_phase s))) j"
  proof (cases "j = sl_job_id (sw_slots w ! i)")
    case True
    show ?thesis
    proof (cases "sl_job_id s = 0")
      case sz: True
      have "sl_job_id (sw_slots ?w ! k) \<noteq> j" if "k < g_max_jobs" for k
        using that i len nz True sz subwn_inv_distinct [OF inv that i]
        by (cases "k = i") auto
      then have "subwn_phase ?w j = Absent" using subwn_phase_Absent [OF inv'] by blast
      with True sz show ?thesis by simp
    next
      case False
      with subwn_phase_at [OF inv' i] i len True same show ?thesis by simp
    qed
  next
    case False
    have "subwn_phase ?w j = subwn_phase w j"
    proof (rule subwn_phase_eqI [OF inv inv'])
      fix k assume "k < g_max_jobs" "j \<noteq> 0" "sl_job_id (sw_slots w ! k) = j \<or> sl_job_id (sw_slots ?w ! k) = j"
      with False same i len show "sw_slots ?w ! k = sw_slots w ! k"
        using ok by (cases "k = i") (auto simp: slot_ok_def)
    qed
    with False show ?thesis by simp
  qed
qed

lemma subwn_phase_take_slot:
  assumes inv: "subwn_inv w" and free: "subwn_free_slot w = Some i"
    and acc: "subwn_is_accepting w" and st: "\<not> subwn_stale_source e f p w"
    and ov: "\<not> subwn_would_overflow p n w"
  shows "subwn_phase (subwn_take_slot f p n i w) = (subwn_phase w)(sw_next_job_id w := Reserved)"
proof
  fix j
  let ?w = "subwn_take_slot f p n i w"
  note fr = subwn_free_slot_Some [OF inv free]
  have inv': "subwn_inv ?w" by (rule subwn_take_slot_inv [OF inv free acc st ov])
  have len: "length (sw_slots w) = g_max_jobs" by (rule subwn_inv_length [OF inv])
  have nz: "sw_next_job_id w \<noteq> 0" using inv by (auto simp: subwn_inv_def)
  have new: "sl_job_id (sw_slots ?w ! i) = sw_next_job_id w" "\<not> sl_committed (sw_slots ?w ! i)"
    using fr len by (simp_all add: subwn_take_slot_def)
  show "subwn_phase ?w j = ((subwn_phase w)(sw_next_job_id w := Reserved)) j"
  proof (cases "j = sw_next_job_id w")
    case True
    with subwn_phase_at [OF inv' fr(1)] new nz show ?thesis by (simp add: slot_phase_def)
  next
    case False
    have "subwn_phase ?w j = subwn_phase w j"
    proof (rule subwn_phase_eqI [OF inv inv'])
      fix k assume k: "k < g_max_jobs" "j \<noteq> 0"
        "sl_job_id (sw_slots w ! k) = j \<or> sl_job_id (sw_slots ?w ! k) = j"
      have "k \<noteq> i" using k(2,3) new(1) fr(3) False by auto
      then show "sw_slots ?w ! k = sw_slots w ! k" by (simp add: subwn_take_slot_def)
    qed
    with False show ?thesis by simp
  qed
qed

section \<open>The window implements the life cycle\<close>

text \<open>What an operation promises for the job its token names.\<close>

fun spec_commit :: "bool \<Rightarrow> job_phase \<Rightarrow> status \<times> job_phase" where
  "spec_commit accepting Reserved =
     (if accepting then (Ok, Running False False) else (Invalid_state, Reserved))"
| "spec_commit accepting p = (Invalid_state, p)"

fun spec_cancel :: "job_phase \<Rightarrow> status \<times> job_phase" where
  "spec_cancel Reserved = (Ok, Absent)"
| "spec_cancel p = (Invalid_state, p)"

fun spec_complete :: "bool \<Rightarrow> job_phase \<Rightarrow> status \<times> job_phase" where
  "spec_complete is_input (Running i r) =
     (if is_input then
        (if i then (Invalid_state, Running i r)
         else (Ok, if r then Absent else Running True r))
      else
        (if r then (Invalid_state, Running i r)
         else (Ok, if i then Absent else Running i True)))"
| "spec_complete is_input p = (Invalid_state, p)"

definition current_token :: "submission_token \<Rightarrow> submission_window \<Rightarrow> bool" where
  "current_token t w \<longleftrightarrow> tok_cycle_id t = cfg_cycle_id (sw_config w) \<and> tok_job_id t \<noteq> 0"

lemma subwn_find_slot_None:
  "subwn_inv w \<Longrightarrow> current_token t w \<Longrightarrow>
     subwn_find_slot t w = None \<longleftrightarrow> subwn_phase w (tok_job_id t) = Absent"
  using subwn_find_slot_iff [of w t] subwn_inv_unconfigured [of w]
  by (force simp: subwn_phase_Absent current_token_def empty_slot_def
      simp flip: not_Some_eq)

lemma subwn_find_slot_phase:
  assumes "subwn_inv w" and "subwn_find_slot t w = Some i"
  shows "subwn_phase w (tok_job_id t) = slot_phase (sw_slots w ! i)"
  using subwn_find_slot_Some [OF assms] subwn_phase_at [OF assms(1)] by force

lemma subwn_commit_refines:
  assumes inv: "subwn_inv w" and cur: "current_token t w"
  shows "fst (subwn_commit t w) =
      fst (spec_commit (subwn_is_accepting w) (subwn_phase w (tok_job_id t)))"
    and "subwn_phase (snd (subwn_commit t w)) = (subwn_phase w)(tok_job_id t :=
      snd (spec_commit (subwn_is_accepting w) (subwn_phase w (tok_job_id t))))"
proof -
  have "fst (subwn_commit t w) =
      fst (spec_commit (subwn_is_accepting w) (subwn_phase w (tok_job_id t))) \<and>
      subwn_phase (snd (subwn_commit t w)) = (subwn_phase w)(tok_job_id t :=
      snd (spec_commit (subwn_is_accepting w) (subwn_phase w (tok_job_id t))))"
  proof (cases "subwn_find_slot t w")
    case None
    with subwn_find_slot_None [OF assms] show ?thesis by (auto simp: subwn_commit_def)
  next
    case (Some i)
    note f = subwn_find_slot_Some [OF inv Some]
    note ok = subwn_inv_slot [OF inv f(1)]
    have "slot_ok (sw_next_job_id w) ((sw_slots w ! i)\<lparr>sl_committed := True\<rparr>)"
      using ok f(2,3) by (auto simp: slot_ok_def)
    from subwn_phase_update [OF inv f(1) this] f(2,3) ok
    show ?thesis
      using Some subwn_find_slot_phase [OF inv Some]
      by (auto simp: subwn_commit_def slot_phase_def slot_ok_def split: if_splits)
  qed
  then show "fst (subwn_commit t w) =
      fst (spec_commit (subwn_is_accepting w) (subwn_phase w (tok_job_id t)))"
    and "subwn_phase (snd (subwn_commit t w)) = (subwn_phase w)(tok_job_id t :=
      snd (spec_commit (subwn_is_accepting w) (subwn_phase w (tok_job_id t))))" by auto
qed

lemma subwn_cancel_refines:
  assumes inv: "subwn_inv w" and cur: "current_token t w"
  shows "fst (subwn_cancel_reserved t w) = fst (spec_cancel (subwn_phase w (tok_job_id t))) \<and>
    subwn_phase (snd (subwn_cancel_reserved t w)) =
      (subwn_phase w)(tok_job_id t := snd (spec_cancel (subwn_phase w (tok_job_id t))))"
proof (cases "subwn_find_slot t w")
  case None
  with subwn_find_slot_None [OF assms] show ?thesis by (auto simp: subwn_cancel_reserved_def)
next
  case (Some i)
  note f = subwn_find_slot_Some [OF inv Some]
  from subwn_phase_update [OF inv f(1) slot_ok_empty] f(2,3) show ?thesis
    using Some subwn_find_slot_phase [OF inv Some]
    by (auto simp: subwn_cancel_reserved_def slot_phase_def)
qed

lemma subwn_complete_refines:
  assumes inv: "subwn_inv w" and cur: "current_token t w"
  shows "fst (subwn_complete t b w) = fst (spec_complete b (subwn_phase w (tok_job_id t))) \<and>
    subwn_phase (snd (subwn_complete t b w)) =
      (subwn_phase w)(tok_job_id t := snd (spec_complete b (subwn_phase w (tok_job_id t))))"
proof (cases "subwn_find_slot t w")
  case None
  with subwn_find_slot_None [OF assms] show ?thesis by (auto simp: subwn_complete_eq)
next
  case (Some i)
  note f = subwn_find_slot_Some [OF inv Some]
  let ?s = "sw_slots w ! i"
  note ph = subwn_find_slot_phase [OF inv Some]
  show ?thesis
  proof (cases "sl_committed ?s \<and> \<not> (if b then sl_input_done ?s else sl_result_done ?s)")
    case True
    have "slot_ok (sw_next_job_id w) (completed_slot b ?s)"
      using completed_slot_ok [OF subwn_inv_slot [OF inv f(1)]] f(2,3) True by simp
    from subwn_phase_update [OF inv f(1) this completed_slot_job] f(2,3)
    have upd: "subwn_phase (snd (subwn_complete t b w)) = (subwn_phase w)(tok_job_id t :=
        (if sl_job_id (completed_slot b ?s) = 0 then Absent else slot_phase (completed_slot b ?s)))"
      using Some True by (simp add: subwn_complete_eq)
    show ?thesis
      unfolding upd using Some True ph f(2,3)
      by (cases b) (auto simp: subwn_complete_eq completed_slot_def slot_phase_def Let_def)
  next
    case False
    with Some ph show ?thesis
      by (auto simp: subwn_complete_eq slot_phase_def split: if_splits)
  qed
qed

lemma stale_token_refused:
  assumes "subwn_inv w" and "\<not> current_token t w"
  shows "subwn_commit t w = (Invalid_state, w)" "subwn_cancel_reserved t w = (Invalid_state, w)"
    "subwn_complete t b w = (Invalid_state, w)"
  using assms by (auto simp: subwn_commit_def subwn_cancel_reserved_def subwn_complete_def
      subwn_find_slot_def current_token_def)

lemma spec_steps:
  "snd (spec_commit a p) = p \<or> job_step p (snd (spec_commit a p))"
  "snd (spec_cancel p) = p \<or> job_step p (snd (spec_cancel p))"
  "snd (spec_complete b p) = p \<or> job_step p (snd (spec_complete b p))"
  by (cases p; simp add: job_step_simps)+

lemma subwn_reserve_phase:
  assumes inv: "subwn_inv w"
  shows "subwn_phase (fst (snd (subwn_reserve e f p n w tk))) =
    (if fst (subwn_reserve e f p n w tk) = Ok
     then (subwn_phase w)(sw_next_job_id w := Reserved) else subwn_phase w)"
  using subwn_phase_take_slot [OF inv] by (auto simp: subwn_reserve_def split: option.splits)

lemma subwn_next_Absent: "subwn_inv w \<Longrightarrow> subwn_phase w (sw_next_job_id w) = Absent"
  by (subst subwn_phase_Absent) (auto simp: subwn_inv_def slot_ok_def split: if_splits)

lemma subwn_phase_slots: "sw_slots w' = sw_slots w \<Longrightarrow> subwn_phase w' = subwn_phase w"
  by (rule ext) (simp add: subwn_phase_def)

lemma subwn_step_phase:
  assumes "subwn_inv w" and "j \<noteq> 0"
  shows "subwn_phase (subwn_step a w) j = subwn_phase w j \<or>
    job_step (subwn_phase w j) (subwn_phase (subwn_step a w) j)"
proof (cases a)
  case (Sw_reserve e f p n)
  then show ?thesis
    using subwn_reserve_phase [OF assms(1), of e f p n blank_ticket] subwn_next_Absent [OF assms(1)]
    by (auto simp: job_step.reserve)
next
  case (Sw_commit t)
  show ?thesis
    using subwn_commit_refines(2) [OF assms(1), of t] spec_steps(1) stale_token_refused(1) [OF assms(1)]
    by (cases "current_token t w") (auto simp: Sw_commit)
next
  case (Sw_cancel_reserved t)
  show ?thesis
    using subwn_cancel_refines [OF assms(1), of t] spec_steps(2) stale_token_refused(2) [OF assms(1)]
    by (cases "current_token t w") (auto simp: Sw_cancel_reserved)
next
  case (Sw_complete t b)
  show ?thesis
    using subwn_complete_refines [OF assms(1), of t b] spec_steps(3) stale_token_refused(3) [OF assms(1)]
    by (cases "current_token t w") (auto simp: Sw_complete)
qed (auto simp: subwn_configure_def subwn_check_deadlines_def subwn_begin_drain_def
    subwn_mark_fault_def intro!: subwn_phase_slots [THEN fun_cong])

interpretation subwn: job_ledger subwn_step subwn_inv subwn_phase
  by unfold_locales (auto simp: subwn_step_inv subwn_step_phase)

definition subwn_live :: "submission_window \<Rightarrow> nat set" where
  "subwn_live w = unat ` {j. subwn_phase w j \<noteq> Absent}"

lemma unat_in_subwn_live: "unat j \<in> subwn_live w \<longleftrightarrow> subwn_phase w j \<noteq> Absent"
  by (auto simp: subwn_live_def dest: word_unat_eq_iff [THEN iffD2])

lemma subwn_live_below:
  assumes "subwn_inv w" and "subwn_phase w j \<noteq> Absent"
  shows "j < sw_next_job_id w"
proof -
  obtain i where "i < g_max_jobs" "sl_job_id (sw_slots w ! i) = j" "j \<noteq> 0"
    using assms subwn_phase_Absent by blast
  then show ?thesis using subwn_inv_slot [OF assms(1)] by (force simp: slot_ok_def)
qed

lemma subwn_step_next:
  assumes "subwn_inv w"
  shows "sw_next_job_id w \<le> sw_next_job_id (subwn_step a w)"
  by (cases a) (auto simp: subwn_configure_def subwn_reserve_def subwn_commit_def
      subwn_cancel_reserved_def subwn_complete_eq subwn_check_deadlines_def subwn_begin_drain_def
      subwn_mark_fault_def subwn_take_slot_def subwn_would_overflow_def word_less_Suc less_imp_le
      split: option.splits)

lemma subwn_new_live:
  assumes inv: "subwn_inv w" and new: "subwn_phase (subwn_step a w) j \<noteq> Absent"
    and old: "subwn_phase w j = Absent"
  shows "j = sw_next_job_id w"
proof -
  have nz: "j \<noteq> 0" using new subwn_phase_Absent [OF subwn_step_inv [OF inv]] by blast
  show ?thesis
  proof (cases a)
    case (Sw_reserve e f p n)
    then show ?thesis
      using subwn_reserve_phase [OF inv, of e f p n blank_ticket] new old
      by (auto split: if_splits)
  next
    case (Sw_commit t)
    then show ?thesis
      using subwn_commit_refines(2) [OF inv, of t] stale_token_refused(1) [OF inv, of t] new old
      by (cases "current_token t w") (auto split: if_splits)
  next
    case (Sw_cancel_reserved t)
    then show ?thesis
      using subwn_cancel_refines [OF inv, of t] stale_token_refused(2) [OF inv, of t] new old
      by (cases "current_token t w") (auto split: if_splits)
  next
    case (Sw_complete t b)
    then show ?thesis
      using subwn_complete_refines [OF inv, of t b] stale_token_refused(3) [OF inv, of t b] new old
      by (cases "current_token t w") (auto split: if_splits)
  qed (use new old in \<open>auto simp: subwn_configure_def subwn_check_deadlines_def
      subwn_begin_drain_def subwn_mark_fault_def subwn_phase_def split: if_splits\<close>)
qed

interpretation subwn_ids:
  fresh_ids subwn_step subwn_inv "\<lambda>w. unat (sw_next_job_id w)" subwn_live
proof unfold_locales
  show "i < unat (sw_next_job_id w)" if "subwn_inv w" "i \<in> subwn_live w" for w i
    using that subwn_live_below [OF that(1)] by (auto simp: subwn_live_def word_less_nat_alt)
  show "unat (sw_next_job_id w) \<le> unat (sw_next_job_id (subwn_step a w))" if "subwn_inv w" for w a
    using subwn_step_next [OF that, of a] by (simp add: word_le_nat_alt)
  show "i \<in> subwn_live w \<or> unat (sw_next_job_id w) \<le> i"
    if "subwn_inv w" "i \<in> subwn_live (subwn_step a w)" for w a i
    using that subwn_new_live [OF that(1)] by (force simp: subwn_live_def)
qed

definition subwn_stopped :: "submission_window \<Rightarrow> bool" where
  "subwn_stopped w \<longleftrightarrow> sw_draining w \<or> sw_faulted w"

interpretation subwn_stop: latched_system subwn_step subwn_inv subwn_stopped
proof unfold_locales
  show "subwn_stopped (subwn_step a w)" if "subwn_stopped w" for a w
    using that by (cases a) (auto simp: subwn_stopped_def subwn_configure_def subwn_reserve_def
        subwn_commit_def subwn_cancel_reserved_def subwn_complete_eq subwn_check_deadlines_def
        subwn_begin_drain_def subwn_mark_fault_def subwn_take_slot_def split: option.splits)
qed

section \<open>Timestamps across a run\<close>

text \<open>Once a frame has been reserved, the anchor of the timeline is fixed and the last PTS only grows.\<close>

definition timeline :: "submission_window \<Rightarrow> submission_window \<Rightarrow> bool" where
  "timeline w w' \<longleftrightarrow>
     (sw_configured w \<longrightarrow> sw_configured w' \<and> sw_config w' = sw_config w) \<and>
     (sw_has_timestamp w \<longrightarrow> sw_has_timestamp w' \<and>
        sw_first_source_pts_ns w' = sw_first_source_pts_ns w \<and>
        sw_last_source_pts_ns w \<le> sw_last_source_pts_ns w') \<and>
     sw_next_job_id w \<le> sw_next_job_id w'"

lemma timeline_refl: "timeline w w"
  by (simp add: timeline_def)

lemma timeline_trans: "timeline u v \<Longrightarrow> timeline v w \<Longrightarrow> timeline u w"
  by (auto simp: timeline_def)

lemma timeline_step: "subwn_inv w \<Longrightarrow> timeline w (subwn_step a w)"
  using subwn_step_next [of w a]
  by (cases a) (auto simp: timeline_def subwn_configure_def subwn_reserve_def
        subwn_commit_def subwn_cancel_reserved_def subwn_complete_eq subwn_check_deadlines_def
        subwn_begin_drain_def subwn_mark_fault_def subwn_take_slot_def subwn_stale_source_def
        Let_def not_less split: option.splits)

lemma timeline_run: "subwn_inv w \<Longrightarrow> timeline w (fold subwn_step ops w)"
  by (rule subwn.run_rel) (auto intro: timeline_refl timeline_trans timeline_step)

lemma subwn_ticket_exact:
  assumes inv: "subwn_inv w" and ok: "subwn_reserve e f p n w tk = (Ok, w', tk')"
  shows "unat (tk_pipeline_pts_ns tk') + unat (sw_first_source_pts_ns w') =
      unat (cfg_pipeline_anchor_ns (sw_config w)) + unat p"
    and "tk_pipeline_pts_ns tk' < UINT64_MAX"
    and "tk_source_pts_ns tk' = p" and "tok_job_id (tk_token tk') = sw_next_job_id w"
    and "sw_first_source_pts_ns w' \<le> p" and "sw_last_source_pts_ns w' = p" and "sw_has_timestamp w'"
    and "sw_next_job_id w < sw_next_job_id w'" and "sw_configured w" and "sw_config w' = sw_config w"
proof -
  obtain i where i: "subwn_is_accepting w" "\<not> subwn_stale_source e f p w"
      "\<not> subwn_would_overflow p n w" "w' = subwn_take_slot f p n i w"
      "tk' = subwn_make_ticket e f p n w"
    using ok by (rule subwn_reserve_Ok)
  have fl: "sw_first_source_pts_ns w \<le> p" if "sw_has_timestamp w"
    using i(2) subwn_inv_pts [OF inv that] that by (auto simp: subwn_stale_source_def Let_def)
  have d: "unat (subwn_delta p w) + unat (sw_first_source_pts_ns w') = unat p"
    using fl unat_sub_exact [of "sw_first_source_pts_ns w" p]
    by (auto simp: i(4) subwn_delta_def subwn_take_slot_def word_le_nat_alt)
  have "Suc (unat (cfg_pipeline_anchor_ns (sw_config w)) + unat (subwn_delta p w)) < 2 ^ LENGTH(64)"
    using i(3) unfolding subwn_would_overflow_def ge_max_minus by simp
  then have s: "unat (tk_pipeline_pts_ns tk') =
      unat (cfg_pipeline_anchor_ns (sw_config w)) + unat (subwn_delta p w)"
    and m: "Suc (unat (tk_pipeline_pts_ns tk')) < 2 ^ 64"
    by (simp_all add: i(5) subwn_make_ticket_def unat_add_exact)
  from s d show "unat (tk_pipeline_pts_ns tk') + unat (sw_first_source_pts_ns w') =
      unat (cfg_pipeline_anchor_ns (sw_config w)) + unat p" by simp
  from m show "tk_pipeline_pts_ns tk' < UINT64_MAX" by (simp add: word_less_nat_alt unat_max)
  show "tk_source_pts_ns tk' = p" "tok_job_id (tk_token tk') = sw_next_job_id w"
    "sw_last_source_pts_ns w' = p" "sw_has_timestamp w'" "sw_configured w" "sw_config w' = sw_config w"
    using i by (simp_all add: subwn_make_ticket_def subwn_take_slot_def subwn_is_accepting_def)
  show "sw_first_source_pts_ns w' \<le> p" using fl by (simp add: i(4) subwn_take_slot_def)
  show "sw_next_job_id w < sw_next_job_id w'"
    using i(3,4) by (simp add: subwn_take_slot_def subwn_would_overflow_def word_less_Suc)
qed

section \<open>Properties\<close>

definition demo_config :: submission_config where
  "demo_config = \<lparr>cfg_cycle_id = 7, cfg_source_epoch = 3, cfg_pipeline_anchor_ns = 1000,
     cfg_job_timeout_ns = 500, cfg_capacity = 2, cfg_sequence_policy = Unique_source_frames\<rparr>"

definition demo_window :: submission_window where
  "demo_window = subwn_step (Sw_configure demo_config) subwn_initial"

lemma demo_window_inv: "subwn_inv demo_window"
  by (simp only: demo_window_def subwn_step_inv subwn_inv_initial)

lemma subwn_outstanding_capacity:
  assumes "subwn_inv w"
  shows "subwn_get_outstanding w \<le> (if sw_configured w then unat (cfg_capacity (sw_config w)) else 0)"
proof -
  let ?c = "unat (cfg_capacity (sw_config w))"
  let ?P = "\<lambda>s. sl_job_id s \<noteq> 0"
  have len: "length (sw_slots w) = g_max_jobs" by (rule subwn_inv_length [OF assms])
  have "filter ?P (drop ?c (sw_slots w)) = []"
    using subwn_inv_capacity [OF assms] len
    by (auto simp: filter_empty_conv in_set_conv_nth) (metis less_diff_conv add.commute not_add_less1)
  then have "filter ?P (sw_slots w) = filter ?P (take ?c (sw_slots w))"
    by (metis append_Nil2 append_take_drop_id filter_append)
  then have "subwn_get_outstanding w \<le> length (take ?c (sw_slots w))"
    unfolding subwn_get_outstanding_def by (metis length_filter_le)
  moreover have "subwn_get_outstanding w = 0" if "\<not> sw_configured w"
    using subwn_inv_unconfigured [OF assms that] len
    by (auto simp: subwn_get_outstanding_def filter_empty_conv in_set_conv_nth)
  ultimately show ?thesis by auto
qed

text \<open>
  C1. Whatever calls a client makes, in any order and with any arguments, a submission
  window keeps its invariant (four slots, distinct fresh job ids, released slots cleared,
  completion flags only on committed jobs) and never has more jobs outstanding than the
  configured capacity; before configuration it has none.
\<close>

theorem subwn_reachable_bounded:
  "let w = fold subwn_step ops subwn_initial in
     subwn_inv w \<and>
     subwn_get_outstanding w \<le>
       (if sw_configured w then unat (cfg_capacity (sw_config w)) else 0)"
  using subwn.run_inv [OF subwn_inv_initial, of ops]
  by (simp only: Let_def subwn_outstanding_capacity simp_thms)

text \<open>
  C2. Refinement: seen through the phase of each job, \<open>commit\<close>, \<open>cancel_reserved\<close> and
  \<open>complete\<close> with a token of the current cycle are exactly the operations of the abstract
  life cycle, in the returned status and in the new state; no other job is touched, and a
  token of another cycle is refused without any effect.
\<close>

theorem subwn_refines_life_cycle:
  assumes "subwn_inv w"
  shows "let p = subwn_phase w (tok_job_id t) in
    if current_token t w then
      (fst (subwn_commit t w) = fst (spec_commit (subwn_is_accepting w) p) \<and>
       subwn_phase (snd (subwn_commit t w)) =
         (subwn_phase w)(tok_job_id t := snd (spec_commit (subwn_is_accepting w) p))) \<and>
      (fst (subwn_cancel_reserved t w) = fst (spec_cancel p) \<and>
       subwn_phase (snd (subwn_cancel_reserved t w)) =
         (subwn_phase w)(tok_job_id t := snd (spec_cancel p))) \<and>
      (fst (subwn_complete t b w) = fst (spec_complete b p) \<and>
       subwn_phase (snd (subwn_complete t b w)) =
         (subwn_phase w)(tok_job_id t := snd (spec_complete b p)))
    else
      subwn_commit t w = (Invalid_state, w) \<and> subwn_cancel_reserved t w = (Invalid_state, w) \<and>
      subwn_complete t b w = (Invalid_state, w)"
  using subwn_commit_refines [OF assms, of t] subwn_cancel_refines [OF assms, of t]
    subwn_complete_refines [OF assms, of t b] stale_token_refused [OF assms, of t]
  by (simp add: Let_def)

theorem subwn_refines_life_cycle_witness:
  "let w = subwn_step (Sw_commit \<lparr>tok_cycle_id = 7, tok_job_id = 1\<rparr>)
         (subwn_step (Sw_reserve 3 10 100 5) demo_window)
   in subwn_phase w 1 = Running False False \<and>
      subwn_phase (snd (subwn_complete \<lparr>tok_cycle_id = 7, tok_job_id = 1\<rparr> True w)) 1 =
        Running True False"
proof -
  let ?w = "subwn_step (Sw_commit \<lparr>tok_cycle_id = 7, tok_job_id = 1\<rparr>)
         (subwn_step (Sw_reserve 3 10 100 5) demo_window)"
  have inv: "subwn_inv ?w" by (intro subwn_step_inv demo_window_inv)
  have p: "subwn_phase ?w 1 = Running False False"
    and cur: "current_token \<lparr>tok_cycle_id = 7, tok_job_id = 1\<rparr> ?w" by code_simp+
  show ?thesis
    using subwn_refines_life_cycle [OF inv, of "\<lparr>tok_cycle_id = 7, tok_job_id = 1\<rparr>" True] p cur
    by (simp add: Let_def)
qed

text \<open>
  The call at position \<open>k\<close> of a run completes one half of job \<open>j\<close>: the input half when \<open>half\<close>, else
  the result half.
\<close>

definition completed_at :: "submission_window \<Rightarrow> subwn_op list \<Rightarrow> u64 \<Rightarrow> bool \<Rightarrow> nat \<Rightarrow> bool" where
  "completed_at w ops j half k \<longleftrightarrow> k < length ops \<and>
     (\<exists>t. ops ! k = Sw_complete t half \<and> tok_job_id t = j \<and>
        fst (subwn_complete t half (fold subwn_step (take k ops) w)) = Ok)"

lemma completed_at_Suc: "completed_at w (a # ops) j half (Suc k) = completed_at (subwn_step a w) ops j half k"
  by (simp add: completed_at_def)

text \<open>A call that moves a running job completes one of its halves.\<close>

lemma running_moves:
  assumes inv: "subwn_inv w" and j: "j \<noteq> 0" and run: "subwn_phase w j = Running i r"
    and moved: "subwn_phase (subwn_step a w) j \<noteq> Running i r"
  obtains half where "completed_at w (a # ops) j half 0"
    "spec_complete half (Running i r) = (Ok, subwn_phase (subwn_step a w) j)"
proof (cases a)
  case (Sw_reserve e f p n)
  then show ?thesis
    using moved run subwn_reserve_phase [OF inv, of e f p n blank_ticket] subwn_next_Absent [OF inv]
    by (auto split: if_splits)
next
  case (Sw_commit t)
  then show ?thesis
    using moved run subwn_commit_refines(2) [OF inv, of t] stale_token_refused(1) [OF inv, of t]
    by (cases "current_token t w") (auto split: if_splits)
next
  case (Sw_cancel_reserved t)
  then show ?thesis
    using moved run subwn_cancel_refines [OF inv, of t] stale_token_refused(2) [OF inv, of t]
    by (cases "current_token t w") (auto split: if_splits)
next
  case (Sw_complete t half)
  have current: "current_token t w"
    using moved run stale_token_refused(3) [OF inv, of t half] Sw_complete by (cases "current_token t w") auto
  note done_half = subwn_complete_refines [OF inv current, of half]
  have t: "tok_job_id t = j" using moved run done_half by (auto simp: Sw_complete split: if_splits)
  have "fst (spec_complete half (Running i r)) = Ok"
    using moved run done_half t by (auto simp: Sw_complete split: if_splits)
  then show ?thesis
    using that [of half] done_half t run by (simp add: Sw_complete completed_at_def prod_eq_iff)
qed (use moved run subwn_phase_slots [of "subwn_step a w" w] in \<open>auto simp: subwn_configure_def
    subwn_check_deadlines_def subwn_begin_drain_def subwn_mark_fault_def\<close>)

lemma released_stays:
  assumes "subwn_inv w" "j \<noteq> 0" "subwn_phase w j \<noteq> Absent" "subwn_phase (subwn_step a w) j = Absent"
  shows "subwn_phase (fold subwn_step ops (subwn_step a w)) j = Absent"
proof -
  have "j < sw_next_job_id (subwn_step a w)"
    using subwn_live_below [OF assms(1,3)] subwn_step_next [OF assms(1), of a] by auto
  then show ?thesis
    using subwn_ids.retired_never_live_again [OF subwn_step_inv [OF assms(1), of a], of "unat j" ops] assms(4)
    by (simp add: unat_in_subwn_live word_less_nat_alt)
qed

text \<open>A job with one half left is released by the call that completes it.\<close>

lemma last_half_releases:
  assumes "subwn_inv w" "j \<noteq> 0" "subwn_phase w j = Running (\<not> half) half"
    and "subwn_phase (fold subwn_step ops w) j = Absent"
  shows "\<exists>k. completed_at w ops j half k \<and>
    (\<forall>m \<le> length ops. subwn_phase (fold subwn_step (take m ops) w) j = Absent \<longleftrightarrow> k < m)"
  using assms
proof (induction ops arbitrary: w)
  case (Cons a ops)
  note inv = subwn_step_inv [OF Cons.prems(1), of a]
  show ?case
  proof (cases "subwn_phase (subwn_step a w) j = Running (\<not> half) half")
    case True
    obtain k where "completed_at (subwn_step a w) ops j half k"
      "\<forall>m \<le> length ops. subwn_phase (fold subwn_step (take m ops) (subwn_step a w)) j = Absent \<longleftrightarrow> k < m"
      using Cons.IH [OF inv Cons.prems(2) True] Cons.prems(4) by auto
    then show ?thesis using Cons.prems(3)
      by (intro exI [of _ "Suc k"]) (auto simp: completed_at_Suc take_Cons' le_Suc_eq split: if_splits)
  next
    case False
    obtain h where h: "completed_at w (a # ops) j h 0"
        "spec_complete h (Running (\<not> half) half) = (Ok, subwn_phase (subwn_step a w) j)"
      by (rule running_moves [OF Cons.prems(1-3) False, of ops])
    then have "h = half" and gone: "subwn_phase (subwn_step a w) j = Absent"
      by (cases h; cases half; simp)+
    then show ?thesis
      using h(1) Cons.prems(3) released_stays [OF Cons.prems(1,2) _ gone]
      by (intro exI [of _ 0]) (auto simp: take_Cons' split: if_splits)
  qed
qed simp

lemma subwn_first_half:
  assumes "subwn_inv w" "j \<noteq> 0" "subwn_phase w j = Running False False"
    and "subwn_phase (fold subwn_step ops w) j = Absent"
  shows "\<exists>half k m. completed_at w ops j half k \<and> completed_at w ops j (\<not> half) m \<and> k < m \<and>
    (\<forall>l \<le> length ops. subwn_phase (fold subwn_step (take l ops) w) j = Absent \<longleftrightarrow> m < l)"
  using assms
proof (induction ops arbitrary: w)
  case (Cons a ops)
  note inv = subwn_step_inv [OF Cons.prems(1), of a]
  have shift: "\<forall>l \<le> length (a # ops). subwn_phase (fold subwn_step (take l (a # ops)) w) j = Absent \<longleftrightarrow> Suc m < l"
    if "\<forall>l \<le> length ops. subwn_phase (fold subwn_step (take l ops) (subwn_step a w)) j = Absent \<longleftrightarrow> m < l" for m
    using that Cons.prems(3) by (auto simp: take_Cons' split: if_splits)
  show ?case
  proof (cases "subwn_phase (subwn_step a w) j = Running False False")
    case True
    obtain half k m where "completed_at (subwn_step a w) ops j half k" "completed_at (subwn_step a w) ops j (\<not> half) m"
      "k < m" "\<forall>l \<le> length ops. subwn_phase (fold subwn_step (take l ops) (subwn_step a w)) j = Absent \<longleftrightarrow> m < l"
      using Cons.IH [OF inv Cons.prems(2) True] Cons.prems(4) by auto
    then show ?thesis using shift
      by (intro exI [of _ half] exI [of _ "Suc k"] exI [of _ "Suc m"]) (simp add: completed_at_Suc)
  next
    case False
    obtain h where h: "completed_at w (a # ops) j h 0"
        "spec_complete h (Running False False) = (Ok, subwn_phase (subwn_step a w) j)"
      by (rule running_moves [OF Cons.prems(1-3) False, of ops])
    then have left: "subwn_phase (subwn_step a w) j = Running (\<not> (\<not> h)) (\<not> h)" by (cases h) simp_all
    obtain m where "completed_at (subwn_step a w) ops j (\<not> h) m"
      "\<forall>l \<le> length ops. subwn_phase (fold subwn_step (take l ops) (subwn_step a w)) j = Absent \<longleftrightarrow> m < l"
      using last_half_releases [OF inv Cons.prems(2) left] Cons.prems(4) by auto
    then show ?thesis using shift h(1)
      by (intro exI [of _ h] exI [of _ 0] exI [of _ "Suc m"]) (simp add: completed_at_Suc)
  qed
qed simp

text \<open>
  C3. A committed job is released by its two completions together and by nothing else: if it is gone after
  some run of calls, then some call of the run completed its input half and some call its result half,
  both answered Ok, and the job left its slot exactly at the later of the two. No timeout, fault, drain,
  cancel, foreign token or single completion releases it.
\<close>

theorem subwn_release_needs_both_completions:
  assumes "subwn_inv w" and "subwn_phase w j = Running False False"
    and "subwn_phase (fold subwn_step ops w) j = Absent"
  shows "\<exists>a b. completed_at w ops j True a \<and> completed_at w ops j False b \<and>
    (\<forall>m \<le> length ops. subwn_phase (fold subwn_step (take m ops) w) j = Absent \<longleftrightarrow> max a b < m)"
proof -
  have "j \<noteq> 0" using assms(2) subwn_phase_Absent [OF assms(1), of 0] by auto
  from subwn_first_half [OF assms(1) this assms(2,3)] obtain half k m where
    "completed_at w ops j half k" "completed_at w ops j (\<not> half) m" "k < m"
    "\<forall>l \<le> length ops. subwn_phase (fold subwn_step (take l ops) w) j = Absent \<longleftrightarrow> m < l"
    by blast
  note halves = this
  show ?thesis
  proof (cases half)
    case True
    then show ?thesis using halves by (intro exI [of _ k] exI [of _ m]) (simp add: max_def)
  next
    case False
    then show ?thesis using halves by (intro exI [of _ m] exI [of _ k]) (simp add: max_def)
  qed
qed

theorem subwn_release_needs_both_completions_witness:
  "let t = \<lparr>tok_cycle_id = 7, tok_job_id = 1\<rparr>;
       w = subwn_step (Sw_commit t) (subwn_step (Sw_reserve 3 10 100 5) demo_window);
       ops = [Sw_complete t False, Sw_mark_fault, Sw_complete t True]
   in subwn_phase (fold subwn_step ops w) 1 = Absent \<and>
      (\<exists>a b. completed_at w ops 1 True a \<and> completed_at w ops 1 False b \<and> max a b < 3)"
proof -
  let ?t = "\<lparr>tok_cycle_id = 7, tok_job_id = 1\<rparr> :: submission_token"
  let ?w = "subwn_step (Sw_commit ?t) (subwn_step (Sw_reserve 3 10 100 5) demo_window)"
  let ?ops = "[Sw_complete ?t False, Sw_mark_fault, Sw_complete ?t True]"
  have inv: "subwn_inv ?w" by (intro subwn_step_inv demo_window_inv)
  have p: "subwn_phase ?w 1 = Running False False"
    and q: "subwn_phase (fold subwn_step ?ops ?w) 1 = Absent" by code_simp+
  obtain a b where ab: "completed_at ?w ?ops 1 True a" "completed_at ?w ?ops 1 False b"
    using subwn_release_needs_both_completions [OF inv p q] by blast
  then have "max a b < 3" unfolding completed_at_def by simp
  with ab q show ?thesis unfolding Let_def by blast
qed

text \<open>
  The pipeline clock of a stream is exact: two tickets of one window, however many
  calls lie between them, differ in their pipeline timestamps by exactly as much as in
  their source timestamps (no wrap-around, no reordering), and the later ticket has the
  larger job id.
\<close>

lemma subwn_pipeline_intervals:
  assumes inv: "subwn_inv w"
    and first: "subwn_reserve e f p n w tk = (Ok, w1, t1)"
    and second: "subwn_reserve e' f' p' n' (fold subwn_step ops w1) tk' = (Ok, w2, t2)"
  shows "tk_source_pts_ns t1 \<le> tk_source_pts_ns t2 \<and>
    unat (tk_pipeline_pts_ns t2) + unat (tk_source_pts_ns t1) =
      unat (tk_pipeline_pts_ns t1) + unat (tk_source_pts_ns t2) \<and>
    tk_pipeline_pts_ns t2 < UINT64_MAX \<and>
    tok_job_id (tk_token t1) < tok_job_id (tk_token t2)"
proof -
  let ?m = "fold subwn_step ops w1"
  have inv1: "subwn_inv w1" using subwn_reserve_inv [OF inv, of e f p n tk] first by simp
  note a = subwn_ticket_exact [OF inv first]
  note b = subwn_ticket_exact [OF subwn.run_inv [OF inv1] second]
  have tl: "timeline w1 ?m" by (rule timeline_run [OF inv1])
  have cfg: "sw_config ?m = sw_config w"
    using tl a(9,10) first by (auto simp: timeline_def subwn_reserve_def subwn_take_slot_def
        split: if_splits option.splits)
  have keep: "sw_first_source_pts_ns w2 = sw_first_source_pts_ns w1"
    using tl a(7) second by (auto simp: timeline_def elim!: subwn_reserve_Ok simp: subwn_take_slot_def)
  have "p \<le> sw_last_source_pts_ns ?m" using tl a(6,7) by (simp add: timeline_def)
  moreover have "sw_last_source_pts_ns ?m \<le> p'"
    using second tl a(7) by (auto elim!: subwn_reserve_Ok simp: subwn_stale_source_def Let_def
        timeline_def not_less)
  ultimately have "p \<le> p'" by simp
  moreover have "sw_next_job_id w < sw_next_job_id ?m"
    using a(8) tl unfolding timeline_def by (meson less_le_trans)
  ultimately show ?thesis using a(1-4) b(1-4) cfg keep by simp
qed

theorem subwn_pipeline_intervals_witness:
  "let r1 = subwn_reserve 3 10 100 5 demo_window blank_ticket;
       r2 = subwn_reserve 3 11 140 6 (fold subwn_step [Sw_check_deadlines 6] (fst (snd r1)))
              blank_ticket
   in fst r1 = Ok \<and> fst r2 = Ok \<and>
      unat (tk_pipeline_pts_ns (snd (snd r2))) + unat (tk_source_pts_ns (snd (snd r1))) =
        unat (tk_pipeline_pts_ns (snd (snd r1))) + unat (tk_source_pts_ns (snd (snd r2)))"
proof -
  let ?r1 = "subwn_reserve 3 10 100 5 demo_window blank_ticket"
  let ?r2 = "subwn_reserve 3 11 140 6 (fold subwn_step [Sw_check_deadlines 6] (fst (snd ?r1)))
              blank_ticket"
  have ok: "fst ?r1 = Ok" "fst ?r2 = Ok" by code_simp+
  from subwn_pipeline_intervals
    [OF demo_window_inv ok_triple [OF ok(1)] ok_triple [OF ok(2)]] ok
  show ?thesis unfolding Let_def by blast
qed

text \<open>
  C4. A job id is never outstanding again once it has been released: after any further
  calls, a commit, cancel or completion that presents the old token is refused and
  changes nothing.
\<close>

theorem subwn_no_stale_completion:
  assumes "subwn_inv w" and "tok_job_id t < sw_next_job_id w"
    and "subwn_phase w (tok_job_id t) = Absent"
  shows "let w' = fold subwn_step ops w in
    subwn_complete t b w' = (Invalid_state, w') \<and> subwn_commit t w' = (Invalid_state, w') \<and>
    subwn_cancel_reserved t w' = (Invalid_state, w')"
proof -
  let ?w = "fold subwn_step ops w"
  have inv: "subwn_inv ?w" by (rule subwn.run_inv [OF assms(1)])
  have "subwn_phase ?w (tok_job_id t) = Absent"
    using subwn_ids.retired_never_live_again [OF assms(1), of "unat (tok_job_id t)" ops] assms(2,3)
    by (simp add: unat_in_subwn_live word_less_nat_alt)
  then have "subwn_find_slot t ?w = None \<or> \<not> current_token t ?w"
    using subwn_find_slot_None [OF inv] by blast
  then show ?thesis
    using stale_token_refused [OF inv, of t]
    by (auto simp: Let_def subwn_complete_def subwn_commit_def subwn_cancel_reserved_def)
qed

theorem subwn_no_stale_completion_witness:
  "let t = \<lparr>tok_cycle_id = 7, tok_job_id = 1\<rparr>;
       w = subwn_step (Sw_cancel_reserved t) (subwn_step (Sw_reserve 3 10 100 5) demo_window);
       w' = fold subwn_step [Sw_reserve 3 11 140 6] w
   in subwn_complete t True w' = (Invalid_state, w')"
proof -
  let ?t = "\<lparr>tok_cycle_id = 7, tok_job_id = 1\<rparr> :: submission_token"
  let ?w = "subwn_step (Sw_cancel_reserved ?t) (subwn_step (Sw_reserve 3 10 100 5) demo_window)"
  have inv: "subwn_inv ?w" by (intro subwn_step_inv demo_window_inv)
  have lt: "tok_job_id ?t < sw_next_job_id ?w"
    and p: "subwn_phase ?w (tok_job_id ?t) = Absent" by code_simp+
  show ?thesis
    using subwn_no_stale_completion [OF inv lt p, of "[Sw_reserve 3 11 140 6]" True]
    unfolding Let_def by blast
qed

text \<open>
  Deadlines fail closed: a deadline check that reports a timeout keeps every job and
  every slot as they were, and from then on, whatever is called, the window never accepts
  a reservation or a commit again.
\<close>

lemma subwn_timeout_quarantines:
  assumes "subwn_inv w" and "subwn_check_deadlines now w = (Timeout, w')"
  shows "sw_slots w' = sw_slots w \<and>
    \<not> subwn_is_accepting (fold subwn_step ops w') \<and>
    fst (subwn_reserve e f p n (fold subwn_step ops w') tk) = Invalid_state \<and>
    fst (subwn_commit t (fold subwn_step ops w')) = Invalid_state"
proof -
  have w': "w' = w\<lparr>sw_faulted := True\<rparr>"
    using assms(2) by (auto simp: subwn_check_deadlines_def split: if_splits)
  have "subwn_inv w'" using subwn_check_deadlines_inv [OF assms(1), of now] assms(2) by simp
  from subwn_stop.run_latched [OF this, of ops]
  have "\<not> subwn_is_accepting (fold subwn_step ops w')"
    by (auto simp: w' subwn_stopped_def subwn_is_accepting_def)
  then show ?thesis
    by (auto simp: w' subwn_reserve_def subwn_commit_def split: option.splits)
qed

theorem subwn_timeout_quarantines_witness:
  "let w = subwn_step (Sw_reserve 3 10 100 5) demo_window;
       w' = snd (subwn_check_deadlines 505 w)
   in fst (subwn_check_deadlines 505 w) = Timeout \<and> sw_slots w' = sw_slots w \<and>
      \<not> subwn_is_accepting (fold subwn_step [Sw_begin_drain] w')"
proof -
  let ?w = "subwn_step (Sw_reserve 3 10 100 5) demo_window"
  have inv: "subwn_inv ?w" by (intro subwn_step_inv demo_window_inv)
  have "fst (subwn_check_deadlines 505 ?w) = Timeout" by code_simp
  then have t: "subwn_check_deadlines 505 ?w = (Timeout, snd (subwn_check_deadlines 505 ?w))"
    by (simp add: prod_eq_iff)
  show ?thesis
    using subwn_timeout_quarantines [OF inv t, of "[Sw_begin_drain]"] t
    unfolding Let_def by (metis fst_conv)
qed

end
