(* ===== verification/Preview_Contract.thy ===== *)
theory Preview_Contract
  imports Prelude
begin

text \<open>
  Frame identity, NV12 geometry and encoded access units:
  contracts/vqec_vision_preview_contract.hpp with core/vqec_vision_preview_contract.cpp
  (prefix \<open>pvctr\<close>), contracts/vqec_vision_nv12_geometry.hpp (prefix \<open>nvgeo\<close>),
  contracts/vqec_vision_preview_limits.hpp, and the owned copy of an encoded unit
  (core/vqec_vision_encoded_output.cpp, prefix \<open>encot\<close>).

  The overlay boxes of the same file are in Observation.
\<close>

section \<open>Limits\<close>

definition pv_max_dimension_pixels :: u32 where "pv_max_dimension_pixels = 8192"
definition pv_max_surface_bytes :: u64 where "pv_max_surface_bytes = 64 * 1024 * 1024"
definition pv_max_pool_bytes :: u64 where "pv_max_pool_bytes = 256 * 1024 * 1024"
definition pv_max_surface_slots :: nat where "pv_max_surface_slots = 4"
definition pv_max_encoded_payload_bytes :: nat where
  "pv_max_encoded_payload_bytes = 2 * 1024 * 1024"
definition pv_max_parameter_set_bytes :: nat where "pv_max_parameter_set_bytes = 512"

section \<open>NV12 geometry\<close>

definition nvgeo_is_even_nonzero :: "u32 \<Rightarrow> u32 \<Rightarrow> bool" where
  "nvgeo_is_even_nonzero width height \<longleftrightarrow>
     width \<noteq> 0 \<and> height \<noteq> 0 \<and> width mod 2 = 0 \<and> height mod 2 = 0"

definition nvgeo_packed_bytes :: "u32 \<Rightarrow> u32 \<Rightarrow> u64" where
  "nvgeo_packed_bytes width height =
     (if \<not> nvgeo_is_even_nonzero width height then 0
      else (let pixels = (ucast width :: u64) * ucast height in pixels + pixels div 2))"

section \<open>Frame identity\<close>

record preview_frame_key =
  fk_camera_id :: u32
  fk_channel_id :: u32
  fk_source_epoch :: u64
  fk_frame_id :: u64
  fk_source_pts_ns :: u64

definition blank_frame_key :: preview_frame_key where
  "blank_frame_key = \<lparr>fk_camera_id = 0, fk_channel_id = 0, fk_source_epoch = 0,
     fk_frame_id = 0, fk_source_pts_ns = UINT64_MAX\<rparr>"

record preview_geometry =
  geo_width :: u32
  geo_height :: u32

definition geometry_supported :: "preview_geometry \<Rightarrow> bool" where
  "geometry_supported g \<longleftrightarrow>
     \<not> (geo_width g = 0 \<or> geo_height g = 0 \<or> geo_width g > pv_max_dimension_pixels \<or>
        geo_height g > pv_max_dimension_pixels \<or>
        \<not> nvgeo_is_even_nonzero (geo_width g) (geo_height g))"

definition pvctr_validate_identity ::
    "preview_frame_key \<Rightarrow> preview_frame_key \<Rightarrow> preview_geometry \<Rightarrow> preview_geometry \<Rightarrow> status" where
  "pvctr_validate_identity frame expected_frame geometry expected_geometry =
     (if fk_source_epoch frame = 0 \<or> fk_source_pts_ns frame = UINT64_MAX \<or>
         \<not> geometry_supported geometry then Invalid_argument
      else if fk_camera_id frame \<noteq> fk_camera_id expected_frame \<or>
          fk_channel_id frame \<noteq> fk_channel_id expected_frame \<or>
          fk_source_epoch frame \<noteq> fk_source_epoch expected_frame \<or>
          fk_frame_id frame \<noteq> fk_frame_id expected_frame \<or>
          fk_source_pts_ns frame \<noteq> fk_source_pts_ns expected_frame \<or>
          geo_width geometry \<noteq> geo_width expected_geometry \<or>
          geo_height geometry \<noteq> geo_height expected_geometry then Invalid_state
      else Ok)"

section \<open>Encoded access units\<close>

text \<open>
  A borrowed byte view: a pointer that may be null, and a size. The bytes behind a non-null
  pointer are a list; the size is what the producer claims.
\<close>

record preview_bytes_view =
  bv_data :: "u8 list option"
  bv_size :: nat

definition view_byte :: "preview_bytes_view \<Rightarrow> nat \<Rightarrow> u8" where
  "view_byte v i =
     (case bv_data v of None \<Rightarrow> 0 | Some bs \<Rightarrow> if i < length bs then bs ! i else 0)"

record h264_access_unit_view =
  au_frame :: preview_frame_key
  au_geometry :: preview_geometry
  au_is_keyframe :: bool
  au_payload :: preview_bytes_view
  au_sps :: preview_bytes_view
  au_pps :: preview_bytes_view

definition has_start_code :: "preview_bytes_view \<Rightarrow> bool" where
  "has_start_code v \<longleftrightarrow>
     view_byte v 0 = 0 \<and> view_byte v 1 = 0 \<and>
     (view_byte v 2 = 1 \<or> (bv_size v \<ge> 5 \<and> view_byte v 2 = 0 \<and> view_byte v 3 = 1))"

definition pvctr_validate_access_unit ::
    "h264_access_unit_view \<Rightarrow> preview_frame_key \<Rightarrow> preview_geometry \<Rightarrow> status" where
  "pvctr_validate_access_unit unit expected_frame expected_geometry =
     (let identity = pvctr_validate_identity (au_frame unit) expected_frame
            (au_geometry unit) expected_geometry
      in if identity \<noteq> Ok then identity
         else if bv_size (au_payload unit) > pv_max_encoded_payload_bytes \<or>
             bv_size (au_sps unit) > pv_max_parameter_set_bytes \<or>
             bv_size (au_pps unit) > pv_max_parameter_set_bytes then Resource_exhausted
         else if bv_data (au_payload unit) = None \<or> bv_size (au_payload unit) < 4 \<or>
             (bv_size (au_sps unit) \<noteq> 0 \<and> bv_data (au_sps unit) = None) \<or>
             (bv_size (au_pps unit) \<noteq> 0 \<and> bv_data (au_pps unit) = None) then Invalid_argument
         else if \<not> has_start_code (au_payload unit) then Protocol_error
         else Ok)"

text \<open>
  The owned copy. Whether the allocations succeed is decided by the environment
  (\<open>alloc_ok\<close>); the output pointer is passed in and returned.
\<close>

record owned_h264_output =
  ho_frame :: preview_frame_key
  ho_geometry :: preview_geometry
  ho_is_keyframe :: bool
  ho_payload :: "u8 list"
  ho_sps :: "u8 list"
  ho_pps :: "u8 list"

definition view_of_bytes :: "u8 list \<Rightarrow> preview_bytes_view" where
  "view_of_bytes bs = \<lparr>bv_data = Some bs, bv_size = length bs\<rparr>"

definition encot_borrow_view :: "owned_h264_output \<Rightarrow> h264_access_unit_view" where
  "encot_borrow_view h = \<lparr>au_frame = ho_frame h, au_geometry = ho_geometry h,
     au_is_keyframe = ho_is_keyframe h, au_payload = view_of_bytes (ho_payload h),
     au_sps = view_of_bytes (ho_sps h), au_pps = view_of_bytes (ho_pps h)\<rparr>"

definition view_contents :: "preview_bytes_view \<Rightarrow> u8 list" where
  "view_contents v = (case bv_data v of None \<Rightarrow> [] | Some bs \<Rightarrow> take (bv_size v) bs)"

definition encot_copy_output ::
    "bool \<Rightarrow> h264_access_unit_view \<Rightarrow> preview_frame_key \<Rightarrow> preview_geometry \<Rightarrow>
       owned_h264_output option \<Rightarrow> status \<times> owned_h264_output option" where
  "encot_copy_output alloc_ok input expected_frame expected_geometry output =
     (let valid = pvctr_validate_access_unit input expected_frame expected_geometry
      in if valid \<noteq> Ok then (valid, output)
         else if \<not> alloc_ok then (Resource_exhausted, output)
         else (Ok, Some \<lparr>ho_frame = au_frame input, ho_geometry = au_geometry input,
            ho_is_keyframe = au_is_keyframe input,
            ho_payload = view_contents (au_payload input),
            ho_sps = (if bv_size (au_sps input) \<noteq> 0 then view_contents (au_sps input) else []),
            ho_pps = (if bv_size (au_pps input) \<noteq> 0 then view_contents (au_pps input) else [])\<rparr>))"

section \<open>Lemmas\<close>

lemma word_even_unat: "(w :: u32) mod 2 = 0 \<longleftrightarrow> even (unat w)"
proof -
  have "w mod 2 = 0 \<longleftrightarrow> unat (w mod 2) = 0" by (simp add: unat_eq_0)
  also have "\<dots> \<longleftrightarrow> even (unat w)" by (simp add: unat_mod even_iff_mod_2_eq_zero)
  finally show ?thesis .
qed

text \<open>Inside the supported range the packed size is exactly three half-pixels per pixel.\<close>

lemma packed_bytes_exact:
  assumes "nvgeo_is_even_nonzero w h" and "unat w \<le> 8192" and "unat h \<le> 8192"
  shows "2 * unat (nvgeo_packed_bytes w h) = 3 * (unat w * unat h)"
proof -
  have le: "unat w * unat h \<le> 8192 * 8192" using assms(2,3) by (rule mult_le_mono)
  let ?p = "(ucast w :: u64) * ucast h"
  have p: "unat ?p = unat w * unat h" using le by (subst unat_mult_exact) simp_all
  have "even (unat w)" using assms(1) by (simp add: nvgeo_is_even_nonzero_def word_even_unat)
  then have ev: "even (unat ?p)" by (simp add: p)
  have "unat (?p + ?p div 2) = unat ?p + unat ?p div 2"
    using le p by (subst unat_add_exact) (simp_all add: unat_div)
  with ev p assms(1) show ?thesis by (auto simp: nvgeo_packed_bytes_def Let_def elim!: evenE)
qed

lemma geometry_supported_iff:
  "geometry_supported g \<longleftrightarrow> nvgeo_is_even_nonzero (geo_width g) (geo_height g) \<and>
     unat (geo_width g) \<le> 8192 \<and> unat (geo_height g) \<le> 8192"
proof -
  have "geo_width g \<noteq> 0 \<and> geo_height g \<noteq> 0"
    if "nvgeo_is_even_nonzero (geo_width g) (geo_height g)"
    using that by (simp add: nvgeo_is_even_nonzero_def)
  then show ?thesis
    by (auto simp: geometry_supported_def pv_max_dimension_pixels_def word_le_nat_alt not_less)
qed

lemma packed_bytes_positive:
  "geometry_supported g \<Longrightarrow> 0 < unat (nvgeo_packed_bytes (geo_width g) (geo_height g))"
proof -
  assume g: "geometry_supported g"
  then have "0 < unat (geo_width g)" "0 < unat (geo_height g)"
    by (auto simp: geometry_supported_iff nvgeo_is_even_nonzero_def unat_gt_0)
  then have "0 < 3 * (unat (geo_width g) * unat (geo_height g))" by simp
  moreover have "2 * unat (nvgeo_packed_bytes (geo_width g) (geo_height g)) =
      3 * (unat (geo_width g) * unat (geo_height g))"
    using g by (intro packed_bytes_exact) (auto simp: geometry_supported_iff)
  ultimately show ?thesis by linarith
qed

lemma identity_Ok:
  "pvctr_validate_identity f f' g g' = Ok \<longleftrightarrow>
     f = f' \<and> g = g' \<and> fk_source_epoch f \<noteq> 0 \<and> fk_source_pts_ns f \<noteq> UINT64_MAX \<and>
     geometry_supported g"
  by (auto simp: pvctr_validate_identity_def split: if_splits
      intro!: preview_frame_key.equality preview_geometry.equality)

lemma access_unit_Ok_identity:
  "pvctr_validate_access_unit u f g = Ok \<Longrightarrow> au_frame u = f \<and> au_geometry u = g"
  by (auto simp: pvctr_validate_access_unit_def Let_def identity_Ok split: if_splits)

text \<open>A view whose claimed size is the size of the bytes behind it.\<close>

definition view_honest :: "preview_bytes_view \<Rightarrow> bool" where
  "view_honest v \<longleftrightarrow> (case bv_data v of None \<Rightarrow> bv_size v = 0 | Some bs \<Rightarrow> bv_size v = length bs)"

text \<open>Copying a unit and borrowing the copy gives back the same unit, still valid.\<close>

lemma copy_borrow:
  assumes "encot_copy_output a u f g o0 = (Ok, Some h)"
    and "view_honest (au_payload u)" "view_honest (au_sps u)" "view_honest (au_pps u)"
  shows "ho_payload h = view_contents (au_payload u)" "ho_sps h = view_contents (au_sps u)"
    "ho_pps h = view_contents (au_pps u)" "ho_is_keyframe h = au_is_keyframe u"
    "pvctr_validate_access_unit (encot_borrow_view h) f g = Ok"
proof -
  have h: "h = \<lparr>ho_frame = au_frame u, ho_geometry = au_geometry u,
            ho_is_keyframe = au_is_keyframe u,
            ho_payload = view_contents (au_payload u),
            ho_sps = (if bv_size (au_sps u) \<noteq> 0 then view_contents (au_sps u) else []),
            ho_pps = (if bv_size (au_pps u) \<noteq> 0 then view_contents (au_pps u) else [])\<rparr>"
    and v: "pvctr_validate_access_unit u f g = Ok"
    using assms(1) by (auto simp: encot_copy_output_def Let_def split: if_splits)
  have z: "view_contents w = []" if "bv_size w = 0" for w
    using that by (simp add: view_contents_def split: option.splits)
  show "ho_payload h = view_contents (au_payload u)" "ho_sps h = view_contents (au_sps u)"
    "ho_pps h = view_contents (au_pps u)" "ho_is_keyframe h = au_is_keyframe u"
    using h z by simp_all
  have same: "bv_size (view_of_bytes (view_contents w)) = bv_size w"
    "view_byte (view_of_bytes (view_contents w)) i = view_byte w i" if "view_honest w" for w i
    using that by (auto simp: view_honest_def view_of_bytes_def view_contents_def view_byte_def
        split: option.splits)
  have sc: "has_start_code (view_of_bytes (view_contents (au_payload u))) =
      has_start_code (au_payload u)"
    using same [OF assms(2)] by (simp add: has_start_code_def)
  show "pvctr_validate_access_unit (encot_borrow_view h) f g = Ok"
    using v h z sc same(1) [OF assms(2)] same(1) [OF assms(3)] same(1) [OF assms(4)]
    by (auto simp: pvctr_validate_access_unit_def encot_borrow_view_def Let_def view_of_bytes_def
        split: if_splits)
qed

end
