(* ===== verification/Encoder_Contract.thy ===== *)
theory Encoder_Contract
  imports Submission_Window Preview_Contract
begin

text \<open>
  The contract between the encoder window and an encoder backend:
  contracts/vqec_vision_encoder_backend.hpp and core/vqec_vision_encoder_contract.cpp
  (prefix \<open>encct\<close>). A shared pointer is an \<open>option\<close>: it can be empty, and what it points
  at is immutable.
\<close>

record encoder_input =
  ei_frame :: preview_frame_key
  ei_geometry :: preview_geometry
  ei_ticket :: submission_ticket
  ei_dispatch_generation :: u64
  ei_pixels :: "u8 list option"

datatype encoder_event_kind =
    Input_complete
  | Output_ready
  | Output_dropped
  | Fault
  | Unlisted_event_kind u32

record encoder_event =
  ev_kind :: encoder_event_kind
  ev_token :: submission_token
  ev_output :: "owned_h264_output option"
  ev_detail :: status

definition encct_validate_event :: "encoder_event \<Rightarrow> status" where
  "encct_validate_event event =
     (let has_token = tok_cycle_id (ev_token event) \<noteq> 0 \<and> tok_job_id (ev_token event) \<noteq> 0;
          is_global = tok_cycle_id (ev_token event) = 0 \<and> tok_job_id (ev_token event) = 0
      in case ev_kind event of
           Input_complete \<Rightarrow>
             if \<not> has_token \<or> ev_output event \<noteq> None \<or> ev_detail event \<noteq> Ok
             then Protocol_error else Ok
         | Output_dropped \<Rightarrow>
             if \<not> has_token \<or> ev_output event \<noteq> None \<or> ev_detail event \<noteq> Ok
             then Protocol_error else Ok
         | Output_ready \<Rightarrow>
             if \<not> has_token \<or> ev_output event = None \<or> ev_detail event \<noteq> Ok
             then Protocol_error else Ok
         | Fault \<Rightarrow>
             if (\<not> has_token \<and> \<not> is_global) \<or> ev_output event \<noteq> None \<or>
                ev_detail event = Ok \<or> ev_detail event = Pending
             then Protocol_error else Ok
         | Unlisted_event_kind _ \<Rightarrow> Protocol_error)"

definition encct_validate_input ::
    "encoder_input \<Rightarrow> preview_frame_key \<Rightarrow> preview_geometry \<Rightarrow> submission_ticket \<Rightarrow> u64 \<Rightarrow> status" where
  "encct_validate_input input expected_frame expected_geometry expected_ticket
      expected_generation =
     (let frame = ei_frame input; geometry = ei_geometry input; ticket = ei_ticket input;
          bytes = nvgeo_packed_bytes (geo_width geometry) (geo_height geometry)
      in if ei_pixels input = None \<or> fk_source_epoch frame = 0 \<or>
            fk_source_pts_ns frame = UINT64_MAX \<or>
            tok_cycle_id (tk_token ticket) = 0 \<or> tok_job_id (tk_token ticket) = 0 \<or>
            tk_source_epoch ticket \<noteq> fk_source_epoch frame \<or>
            tk_source_frame_id ticket \<noteq> fk_frame_id frame \<or>
            tk_source_pts_ns ticket \<noteq> fk_source_pts_ns frame \<or>
            tk_pipeline_pts_ns ticket = UINT64_MAX \<or>
            ei_dispatch_generation input = 0 \<or> expected_generation = 0 \<or>
            \<not> geometry_supported geometry then Invalid_argument
         else if fk_camera_id frame \<noteq> fk_camera_id expected_frame \<or>
             fk_channel_id frame \<noteq> fk_channel_id expected_frame \<or>
             fk_source_epoch frame \<noteq> fk_source_epoch expected_frame \<or>
             fk_frame_id frame \<noteq> fk_frame_id expected_frame \<or>
             fk_source_pts_ns frame \<noteq> fk_source_pts_ns expected_frame \<or>
             geo_width geometry \<noteq> geo_width expected_geometry \<or>
             geo_height geometry \<noteq> geo_height expected_geometry \<or>
             tok_cycle_id (tk_token ticket) \<noteq> tok_cycle_id (tk_token expected_ticket) \<or>
             tok_job_id (tk_token ticket) \<noteq> tok_job_id (tk_token expected_ticket) \<or>
             tk_source_epoch ticket \<noteq> tk_source_epoch expected_ticket \<or>
             tk_source_frame_id ticket \<noteq> tk_source_frame_id expected_ticket \<or>
             tk_source_pts_ns ticket \<noteq> tk_source_pts_ns expected_ticket \<or>
             tk_pipeline_pts_ns ticket \<noteq> tk_pipeline_pts_ns expected_ticket \<or>
             ei_dispatch_generation input \<noteq> expected_generation then Invalid_state
         else if bytes > pv_max_surface_bytes then Resource_exhausted
         else if int (length (the (ei_pixels input))) \<noteq> uint bytes then Invalid_argument
         else Ok)"

text \<open>An accepted event is never both a completion and a fault, and never carries a bad payload.\<close>

lemma encct_validate_event_Ok:
  assumes "encct_validate_event e = Ok"
  shows "ev_kind e = Fault \<longleftrightarrow> ev_detail e \<noteq> Ok"
    and "ev_kind e = Output_ready \<longleftrightarrow> ev_output e \<noteq> None"
    and "ev_kind e \<noteq> Fault \<Longrightarrow> tok_job_id (ev_token e) \<noteq> 0"
    and "ev_kind e \<in> {Input_complete, Output_ready, Output_dropped, Fault}"
  using assms by (auto simp: encct_validate_event_def Let_def
      split: encoder_event_kind.splits if_splits)

lemma encct_validate_input_Ok:
  assumes "encct_validate_input i f g t n = Ok"
  shows "ei_frame i = f" and "ei_geometry i = g" and "tk_token (ei_ticket i) = tk_token t"
    and "ei_dispatch_generation i = n" and "n \<noteq> 0"
    and "\<exists>px. ei_pixels i = Some px \<and>
           length px = unat (nvgeo_packed_bytes (geo_width g) (geo_height g))"
    and "geometry_supported g"
proof -
  show f: "ei_frame i = f"
    using assms by (auto simp: encct_validate_input_def Let_def split: if_splits
        intro!: preview_frame_key.equality)
  show g: "ei_geometry i = g"
    using assms by (auto simp: encct_validate_input_def Let_def split: if_splits
        intro!: preview_geometry.equality)
  show "tk_token (ei_ticket i) = tk_token t"
    using assms by (auto simp: encct_validate_input_def Let_def split: if_splits
        intro!: submission_token.equality)
  show "ei_dispatch_generation i = n" "n \<noteq> 0" "geometry_supported g"
    using assms g by (auto simp: encct_validate_input_def Let_def split: if_splits)
  obtain px where "ei_pixels i = Some px"
      "int (length px) = uint (nvgeo_packed_bytes (geo_width g) (geo_height g))"
    using assms g by (auto simp: encct_validate_input_def Let_def split: if_splits)
  then show "\<exists>px. ei_pixels i = Some px \<and>
           length px = unat (nvgeo_packed_bytes (geo_width g) (geo_height g))"
    by (metis nat_int unat_eq_nat_uint)
qed

end
