(* ===== verification/Encoder_Window.thy ===== *)
theory Encoder_Window
  imports Encoder_Contract
begin

text \<open>
  The encoder window: contracts/vqec_vision_encoder_window.hpp and
  core/vqec_vision_encoder_window.cpp (prefix \<open>encwn\<close>). It pairs a submission ledger with
  its own table of entries and a byte budget; every operation drives both. The main
  invariant is that entry \<open>i\<close> and ledger slot \<open>i\<close> always describe the same job, so the two
  can never disagree about what is outstanding or how many bytes are reserved.
\<close>

section \<open>State\<close>

record encoder_window_config =
  ewc_submission :: submission_config
  ewc_camera_id :: u32
  ewc_channel_id :: u32
  ewc_geometry :: preview_geometry
  ewc_max_input_bytes :: u64

record entry =
  en_token :: submission_token
  en_frame :: preview_frame_key
  en_input_done :: bool
  en_result_done :: bool
  en_committed :: bool
  en_submission_attempted :: bool
  en_pipeline_pts_ns :: u64

definition empty_entry :: entry where
  "empty_entry = \<lparr>en_token = \<lparr>tok_cycle_id = 0, tok_job_id = 0\<rparr>, en_frame = blank_frame_key,
     en_input_done = False, en_result_done = False, en_committed = False,
     en_submission_attempted = False, en_pipeline_pts_ns = 0\<rparr>"

record encoder_window =
  ew_ledger :: submission_window
  ew_config :: encoder_window_config
  ew_entries :: "entry list"
  ew_surface_bytes :: u64
  ew_reserved_bytes :: u64
  ew_last_now_ns :: u64
  ew_configured :: bool

definition encwn_initial :: encoder_window where
  "encwn_initial = \<lparr>ew_ledger = subwn_initial,
     ew_config = \<lparr>ewc_submission = default_submission_config, ewc_camera_id = 0,
       ewc_channel_id = 0, ewc_geometry = \<lparr>geo_width = 0, geo_height = 0\<rparr>,
       ewc_max_input_bytes = 0\<rparr>,
     ew_entries = replicate g_max_jobs empty_entry, ew_surface_bytes = 0,
     ew_reserved_bytes = 0, ew_last_now_ns = 0, ew_configured = False\<rparr>"

section \<open>Operations\<close>

definition encwn_configure ::
    "encoder_window_config \<Rightarrow> encoder_window \<Rightarrow> status \<times> encoder_window" where
  "encwn_configure c w =
     (if ew_configured w then (Invalid_state, w)
      else
        (let geometry = ewc_geometry c;
             bytes = nvgeo_packed_bytes (geo_width geometry) (geo_height geometry)
         in if \<not> geometry_supported geometry \<or> ewc_max_input_bytes c = 0 \<or>
               ewc_max_input_bytes c > pv_max_pool_bytes then (Invalid_argument, w)
            else if bytes > pv_max_surface_bytes \<or> bytes > ewc_max_input_bytes c
              then (Resource_exhausted, w)
            else
              (case subwn_configure (ewc_submission c) (ew_ledger w) of
                 (result, ledger') \<Rightarrow>
                   if result \<noteq> Ok then (result, w\<lparr>ew_ledger := ledger'\<rparr>)
                   else (Ok, w\<lparr>ew_ledger := ledger', ew_config := c,
                          ew_surface_bytes := bytes, ew_configured := True\<rparr>))))"

definition encwn_accept_clock :: "u64 \<Rightarrow> encoder_window \<Rightarrow> bool \<times> encoder_window" where
  "encwn_accept_clock now_ns w =
     (if now_ns = UINT64_MAX \<or> now_ns < ew_last_now_ns w then (False, w)
      else (True, w\<lparr>ew_last_now_ns := now_ns\<rparr>))"

definition encwn_free_entry :: "encoder_window \<Rightarrow> nat option" where
  "encwn_free_entry w = first_index (\<lambda>e. tok_job_id (en_token e) = 0) (ew_entries w)"

definition encwn_new_entry :: "preview_frame_key \<Rightarrow> submission_ticket \<Rightarrow> entry" where
  "encwn_new_entry frame ticket =
     empty_entry\<lparr>en_token := tk_token ticket, en_frame := frame,
       en_pipeline_pts_ns := tk_pipeline_pts_ns ticket\<rparr>"

definition encwn_reserve ::
    "preview_frame_key \<Rightarrow> bool \<Rightarrow> u64 \<Rightarrow> encoder_window \<Rightarrow> submission_ticket \<Rightarrow>
       status \<times> encoder_window \<times> submission_ticket" where
  "encwn_reserve frame has_demand now_ns w0 ticket =
     (if \<not> ew_configured w0 \<or> \<not> subwn_is_accepting (ew_ledger w0)
        then (Invalid_state, w0, ticket)
      else
        (case encwn_accept_clock now_ns w0 of
           (accepted, w) \<Rightarrow>
             if \<not> accepted then (Invalid_argument, w, ticket)
             else if \<not> has_demand then (Pending, w, ticket)
             else if fk_camera_id frame \<noteq> ewc_camera_id (ew_config w) \<or>
                 fk_channel_id frame \<noteq> ewc_channel_id (ew_config w)
               then (Invalid_argument, w, ticket)
             else if ew_surface_bytes w > ewc_max_input_bytes (ew_config w) - ew_reserved_bytes w
               then (Resource_exhausted, w, ticket)
             else
               (case encwn_free_entry w of
                  None \<Rightarrow> (Resource_exhausted, w, ticket)
                | Some i \<Rightarrow>
                    (case subwn_reserve (fk_source_epoch frame) (fk_frame_id frame)
                            (fk_source_pts_ns frame) now_ns (ew_ledger w) blank_ticket of
                       (result, ledger', new_ticket) \<Rightarrow>
                         if result \<noteq> Ok then (result, w\<lparr>ew_ledger := ledger'\<rparr>, ticket)
                         else (Ok,
                           w\<lparr>ew_ledger := ledger',
                             ew_entries := (ew_entries w)[i := encwn_new_entry frame new_ticket],
                             ew_reserved_bytes := ew_reserved_bytes w + ew_surface_bytes w\<rparr>,
                           new_ticket)))))"

definition encwn_find :: "submission_token \<Rightarrow> encoder_window \<Rightarrow> nat option" where
  "encwn_find token w =
     first_index (\<lambda>e. tok_job_id token \<noteq> 0 \<and> tok_job_id (en_token e) = tok_job_id token \<and>
                      tok_cycle_id (en_token e) = tok_cycle_id token) (ew_entries w)"

definition encwn_set_entry :: "nat \<Rightarrow> entry \<Rightarrow> encoder_window \<Rightarrow> encoder_window" where
  "encwn_set_entry i e w = w\<lparr>ew_entries := (ew_entries w)[i := e]\<rparr>"

definition encwn_commit :: "submission_token \<Rightarrow> encoder_window \<Rightarrow> status \<times> encoder_window" where
  "encwn_commit token w =
     (case encwn_find token w of
        None \<Rightarrow> (Invalid_state, w)
      | Some i \<Rightarrow>
          (case subwn_commit token (ew_ledger w) of
             (result, ledger') \<Rightarrow>
               (result,
                if result = Ok
                then encwn_set_entry i ((ew_entries w ! i)\<lparr>en_committed := True\<rparr>)
                       (w\<lparr>ew_ledger := ledger'\<rparr>)
                else w\<lparr>ew_ledger := ledger'\<rparr>)))"

definition encwn_cancel_reserved ::
    "submission_token \<Rightarrow> encoder_window \<Rightarrow> status \<times> encoder_window" where
  "encwn_cancel_reserved token w =
     (case encwn_find token w of
        None \<Rightarrow> (Invalid_state, w)
      | Some i \<Rightarrow>
          (case subwn_cancel_reserved token (ew_ledger w) of
             (result, ledger') \<Rightarrow>
               (result,
                if result = Ok
                then (encwn_set_entry i empty_entry (w\<lparr>ew_ledger := ledger'\<rparr>))
                       \<lparr>ew_reserved_bytes := ew_reserved_bytes w - ew_surface_bytes w\<rparr>
                else w\<lparr>ew_ledger := ledger'\<rparr>)))"

definition encwn_begin_submission ::
    "submission_token \<Rightarrow> encoder_window \<Rightarrow> status \<times> encoder_window" where
  "encwn_begin_submission token w =
     (case encwn_find token w of
        None \<Rightarrow> (Invalid_state, w)
      | Some i \<Rightarrow>
          (let e = ew_entries w ! i in
           if \<not> en_committed e \<or> en_submission_attempted e \<or> en_input_done e \<or>
              en_result_done e \<or> \<not> subwn_is_accepting (ew_ledger w) then (Invalid_state, w)
           else (Ok, encwn_set_entry i (e\<lparr>en_submission_attempted := True\<rparr>) w)))"

definition encwn_expected_ticket :: "entry \<Rightarrow> submission_ticket" where
  "encwn_expected_ticket e =
     \<lparr>tk_token = en_token e, tk_source_epoch = fk_source_epoch (en_frame e),
      tk_source_frame_id = fk_frame_id (en_frame e),
      tk_source_pts_ns = fk_source_pts_ns (en_frame e),
      tk_pipeline_pts_ns = en_pipeline_pts_ns e, tk_submitted_steady_ns = 0\<rparr>"

definition encwn_begin_input ::
    "encoder_input \<Rightarrow> u64 \<Rightarrow> encoder_window \<Rightarrow> status \<times> encoder_window" where
  "encwn_begin_input input expected_generation w =
     (case encwn_find (tk_token (ei_ticket input)) w of
        None \<Rightarrow> (Invalid_state, w)
      | Some i \<Rightarrow>
          (let e = ew_entries w ! i;
               valid = encct_validate_input input (en_frame e) (ewc_geometry (ew_config w))
                         (encwn_expected_ticket e) expected_generation
           in if valid \<noteq> Ok then (valid, w)
              else encwn_begin_submission (tk_token (ei_ticket input)) w))"

definition encwn_complete ::
    "submission_token \<Rightarrow> bool \<Rightarrow> encoder_window \<Rightarrow> status \<times> encoder_window" where
  "encwn_complete token is_input w =
     (case encwn_find token w of
        None \<Rightarrow> (Invalid_state, w)
      | Some i \<Rightarrow>
          (case (if is_input then subwn_complete_input token (ew_ledger w)
                 else subwn_complete_result token (ew_ledger w)) of
             (result, ledger') \<Rightarrow>
               if result \<noteq> Ok then (result, w\<lparr>ew_ledger := ledger'\<rparr>)
               else
                 (let e = (if is_input then (ew_entries w ! i)\<lparr>en_input_done := True\<rparr>
                           else (ew_entries w ! i)\<lparr>en_result_done := True\<rparr>);
                      w' = w\<lparr>ew_ledger := ledger'\<rparr>
                  in (Ok, if en_input_done e \<and> en_result_done e
                          then (encwn_set_entry i empty_entry w')
                                 \<lparr>ew_reserved_bytes := ew_reserved_bytes w - ew_surface_bytes w\<rparr>
                          else encwn_set_entry i e w'))))"

definition encwn_complete_input ::
    "submission_token \<Rightarrow> encoder_window \<Rightarrow> status \<times> encoder_window" where
  "encwn_complete_input token = encwn_complete token True"

definition encwn_complete_result ::
    "submission_token \<Rightarrow> h264_access_unit_view \<Rightarrow> encoder_window \<Rightarrow> status \<times> encoder_window" where
  "encwn_complete_result token unit w =
     (case encwn_find token w of
        None \<Rightarrow> (Invalid_state, w)
      | Some i \<Rightarrow>
          (let result = pvctr_validate_access_unit unit (en_frame (ew_entries w ! i))
                 (ewc_geometry (ew_config w))
           in if result \<noteq> Ok then (result, w) else encwn_complete token False w))"

definition encwn_complete_dropped_result ::
    "submission_token \<Rightarrow> encoder_window \<Rightarrow> status \<times> encoder_window" where
  "encwn_complete_dropped_result token = encwn_complete token False"

definition encwn_mark_fault :: "encoder_window \<Rightarrow> encoder_window" where
  "encwn_mark_fault w = w\<lparr>ew_ledger := subwn_mark_fault (ew_ledger w)\<rparr>"

definition encwn_begin_drain :: "encoder_window \<Rightarrow> encoder_window" where
  "encwn_begin_drain w = w\<lparr>ew_ledger := subwn_begin_drain (ew_ledger w)\<rparr>"

text \<open>
  The event check walks the entries for one with the event's token. An unused entry has the
  zero token, which a validated completion event never has.
\<close>

definition encwn_event_entry :: "submission_token \<Rightarrow> encoder_window \<Rightarrow> nat option" where
  "encwn_event_entry token w =
     first_index (\<lambda>e. tok_cycle_id (en_token e) = tok_cycle_id token \<and>
                      tok_job_id (en_token e) = tok_job_id token) (ew_entries w)"

definition encwn_validate_event :: "encoder_event \<Rightarrow> encoder_window \<Rightarrow> status" where
  "encwn_validate_event event w =
     (let valid = encct_validate_event event in
      if valid \<noteq> Ok then valid
      else if ev_kind event = Fault \<and> tok_job_id (ev_token event) = 0
        then (if ew_configured w then Ok else Invalid_state)
      else
        (case encwn_event_entry (ev_token event) w of
           None \<Rightarrow> Invalid_state
         | Some i \<Rightarrow>
             (let item = ew_entries w ! i in
              if \<not> en_committed item then Invalid_state
              else if (ev_kind event = Input_complete \<and> en_input_done item) \<or>
                  ((ev_kind event = Output_ready \<or> ev_kind event = Output_dropped) \<and>
                   en_result_done item) then Invalid_state
              else if ev_kind event = Output_ready
                then pvctr_validate_access_unit (encot_borrow_view (the (ev_output event)))
                       (en_frame item) (ewc_geometry (ew_config w))
              else Ok)))"

definition encwn_apply_event :: "encoder_event \<Rightarrow> encoder_window \<Rightarrow> status \<times> encoder_window" where
  "encwn_apply_event event w =
     (let valid = encwn_validate_event event w in
      if valid \<noteq> Ok then (valid, encwn_mark_fault w)
      else
        (case ev_kind event of
           Fault \<Rightarrow> (ev_detail event, encwn_mark_fault w)
         | Unlisted_event_kind _ \<Rightarrow> (Protocol_error, encwn_mark_fault w)
         | kind \<Rightarrow>
             (case (case kind of
                      Input_complete \<Rightarrow> encwn_complete_input (ev_token event) w
                    | Output_ready \<Rightarrow> encwn_complete_result (ev_token event)
                        (encot_borrow_view (the (ev_output event))) w
                    | _ \<Rightarrow> encwn_complete_dropped_result (ev_token event) w) of
                (result, w') \<Rightarrow> (result, if result \<noteq> Ok then encwn_mark_fault w' else w'))))"

definition encwn_check_deadlines :: "u64 \<Rightarrow> encoder_window \<Rightarrow> status \<times> encoder_window" where
  "encwn_check_deadlines now_ns w0 =
     (if \<not> ew_configured w0 then (Invalid_state, w0)
      else
        (case encwn_accept_clock now_ns w0 of
           (accepted, w) \<Rightarrow>
             if \<not> accepted then (Invalid_argument, w)
             else
               (case subwn_check_deadlines now_ns (ew_ledger w) of
                  (result, ledger') \<Rightarrow> (result, w\<lparr>ew_ledger := ledger'\<rparr>))))"

definition encwn_outstanding :: "encoder_window \<Rightarrow> nat" where
  "encwn_outstanding w = subwn_get_outstanding (ew_ledger w)"

definition encwn_reserved_bytes :: "encoder_window \<Rightarrow> u64" where
  "encwn_reserved_bytes w = ew_reserved_bytes w"

definition encwn_geometry :: "encoder_window \<Rightarrow> preview_geometry" where
  "encwn_geometry w = ewc_geometry (ew_config w)"

datatype encwn_op =
    Ew_configure encoder_window_config
  | Ew_reserve preview_frame_key bool u64
  | Ew_commit submission_token
  | Ew_begin_submission submission_token
  | Ew_begin_input encoder_input u64
  | Ew_cancel_reserved submission_token
  | Ew_complete_input submission_token
  | Ew_complete_result submission_token h264_access_unit_view
  | Ew_complete_dropped_result submission_token
  | Ew_apply_event encoder_event
  | Ew_check_deadlines u64
  | Ew_begin_drain
  | Ew_mark_fault

fun encwn_step :: "encwn_op \<Rightarrow> encoder_window \<Rightarrow> encoder_window" where
  "encwn_step (Ew_configure c) w = snd (encwn_configure c w)"
| "encwn_step (Ew_reserve f d n) w = fst (snd (encwn_reserve f d n w blank_ticket))"
| "encwn_step (Ew_commit t) w = snd (encwn_commit t w)"
| "encwn_step (Ew_begin_submission t) w = snd (encwn_begin_submission t w)"
| "encwn_step (Ew_begin_input i g) w = snd (encwn_begin_input i g w)"
| "encwn_step (Ew_cancel_reserved t) w = snd (encwn_cancel_reserved t w)"
| "encwn_step (Ew_complete_input t) w = snd (encwn_complete_input t w)"
| "encwn_step (Ew_complete_result t u) w = snd (encwn_complete_result t u w)"
| "encwn_step (Ew_complete_dropped_result t) w = snd (encwn_complete_dropped_result t w)"
| "encwn_step (Ew_apply_event e) w = snd (encwn_apply_event e w)"
| "encwn_step (Ew_check_deadlines n) w = snd (encwn_check_deadlines n w)"
| "encwn_step Ew_begin_drain w = encwn_begin_drain w"
| "encwn_step Ew_mark_fault w = encwn_mark_fault w"

section \<open>The invariant: both tables agree\<close>

definition lock_entry :: "u64 \<Rightarrow> entry \<Rightarrow> slot \<Rightarrow> bool" where
  "lock_entry cycle e s \<longleftrightarrow>
     (if sl_job_id s = 0 then e = empty_entry
      else tok_job_id (en_token e) = sl_job_id s \<and> tok_cycle_id (en_token e) = cycle \<and>
        en_committed e = sl_committed s \<and> en_input_done e = sl_input_done s \<and>
        en_result_done e = sl_result_done s \<and> (en_submission_attempted e \<longrightarrow> en_committed e))"

definition lockstep :: "encoder_window \<Rightarrow> bool" where
  "lockstep w \<longleftrightarrow> length (ew_entries w) = g_max_jobs \<and>
     (\<forall>i < g_max_jobs. lock_entry (cfg_cycle_id (sw_config (ew_ledger w)))
        (ew_entries w ! i) (sw_slots (ew_ledger w) ! i))"

definition budget_ok :: "encoder_window \<Rightarrow> bool" where
  "budget_ok w \<longleftrightarrow>
     unat (ew_reserved_bytes w) = encwn_outstanding w * unat (ew_surface_bytes w) \<and>
     ew_reserved_bytes w \<le> ewc_max_input_bytes (ew_config w) \<and>
     ewc_max_input_bytes (ew_config w) \<le> pv_max_pool_bytes \<and>
     (ew_configured w \<longrightarrow> 0 < ew_surface_bytes w \<and>
        geometry_supported (ewc_geometry (ew_config w)) \<and>
        ew_surface_bytes w = nvgeo_packed_bytes (geo_width (ewc_geometry (ew_config w)))
          (geo_height (ewc_geometry (ew_config w))))"

definition encwn_inv :: "encoder_window \<Rightarrow> bool" where
  "encwn_inv w \<longleftrightarrow> subwn_inv (ew_ledger w) \<and> ew_configured w = sw_configured (ew_ledger w) \<and>
     lockstep w \<and> budget_ok w"

lemma encwn_invD:
  assumes "encwn_inv w"
  shows "subwn_inv (ew_ledger w)" "ew_configured w = sw_configured (ew_ledger w)"
    "lockstep w" "budget_ok w"
  using assms by (simp_all add: encwn_inv_def)

lemma lockstep_length: "lockstep w \<Longrightarrow> length (ew_entries w) = g_max_jobs"
  and lockstep_entry: "lockstep w \<Longrightarrow> i < g_max_jobs \<Longrightarrow>
    lock_entry (cfg_cycle_id (sw_config (ew_ledger w))) (ew_entries w ! i) (sw_slots (ew_ledger w) ! i)"
  by (simp_all add: lockstep_def)

lemma empty_entry_simps [simp]:
  "tok_job_id (en_token empty_entry) = 0" "tok_cycle_id (en_token empty_entry) = 0"
  by (simp_all add: empty_entry_def)

lemma lock_entry_empty [simp]: "lock_entry c empty_entry empty_slot"
  by (simp add: lock_entry_def)

lemma lock_entry_job: "lock_entry c e s \<Longrightarrow> tok_job_id (en_token e) = sl_job_id s"
  by (auto simp: lock_entry_def split: if_splits)

lemma encwn_inv_initial: "encwn_inv encwn_initial"
proof -
  have "ew_ledger encwn_initial = subwn_initial" by (simp add: encwn_initial_def)
  then show ?thesis
    unfolding encwn_inv_def using subwn_inv_initial
    by (simp add: encwn_initial_def lockstep_def budget_ok_def encwn_outstanding_def
        subwn_get_outstanding_def subwn_initial_def pv_max_pool_bytes_def lock_entry_def)
qed

text \<open>Both tables are searched to the same index.\<close>

lemma encwn_find_eq:
  assumes "encwn_inv w"
  shows "encwn_find t w = subwn_find_slot t (ew_ledger w)"
proof -
  note inv = encwn_invD [OF assms]
  have iff: "(encwn_find t w = Some i) = (subwn_find_slot t (ew_ledger w) = Some i)" for i
  proof
    assume "encwn_find t w = Some i"
    from first_index_Some [OF this [unfolded encwn_find_def]]
    have i: "i < g_max_jobs" "tok_job_id t \<noteq> 0" "tok_job_id (en_token (ew_entries w ! i)) = tok_job_id t"
      "tok_cycle_id (en_token (ew_entries w ! i)) = tok_cycle_id t"
      by (auto simp: lockstep_length [OF inv(3)])
    from lockstep_entry [OF inv(3) i(1)] i
    have "sl_job_id (sw_slots (ew_ledger w) ! i) = tok_job_id t"
      "cfg_cycle_id (sw_config (ew_ledger w)) = tok_cycle_id t"
      by (auto simp: lock_entry_def split: if_splits)
    moreover from this i subwn_inv_unconfigured [OF inv(1)] have "sw_configured (ew_ledger w)"
      by force
    ultimately show "subwn_find_slot t (ew_ledger w) = Some i"
      using subwn_find_slot_iff [OF inv(1), of t i] i by simp
  next
    assume "subwn_find_slot t (ew_ledger w) = Some i"
    note f = subwn_find_slot_Some [OF inv(1) this]
    show "encwn_find t w = Some i" unfolding encwn_find_def
    proof (rule first_index_eqI)
      show "i < length (ew_entries w)" using f(1) lockstep_length [OF inv(3)] by simp
      show "tok_job_id t \<noteq> 0 \<and> tok_job_id (en_token (ew_entries w ! i)) = tok_job_id t \<and>
          tok_cycle_id (en_token (ew_entries w ! i)) = tok_cycle_id t"
        using lockstep_entry [OF inv(3) f(1)] f by (auto simp: lock_entry_def)
      show "\<not> (tok_job_id t \<noteq> 0 \<and> tok_job_id (en_token (ew_entries w ! j)) = tok_job_id t \<and>
          tok_cycle_id (en_token (ew_entries w ! j)) = tok_cycle_id t)" if "j < i" for j
      proof -
        have j: "j < g_max_jobs" using that f(1) by simp
        show ?thesis
          using lock_entry_job [OF lockstep_entry [OF inv(3) j]] f(2,3) that
            subwn_inv_distinct [OF inv(1) j f(1)] by auto
      qed
    qed
  qed
  show ?thesis
    using iff by (metis option.exhaust)
qed

lemma encwn_find_Some:
  assumes "encwn_inv w" and "encwn_find t w = Some i"
  shows "i < g_max_jobs" and "subwn_find_slot t (ew_ledger w) = Some i"
    and "sl_job_id (sw_slots (ew_ledger w) ! i) = tok_job_id t" and "tok_job_id t \<noteq> 0"
    and "en_token (ew_entries w ! i) = t"
    and "en_committed (ew_entries w ! i) = sl_committed (sw_slots (ew_ledger w) ! i)"
    and "en_input_done (ew_entries w ! i) = sl_input_done (sw_slots (ew_ledger w) ! i)"
    and "en_result_done (ew_entries w ! i) = sl_result_done (sw_slots (ew_ledger w) ! i)"
    and "en_submission_attempted (ew_entries w ! i) \<Longrightarrow> en_committed (ew_entries w ! i)"
    and "ew_configured w"
proof -
  note inv = encwn_invD [OF assms(1)]
  show f: "subwn_find_slot t (ew_ledger w) = Some i"
    using assms(2) encwn_find_eq [OF assms(1)] by simp
  note g = subwn_find_slot_Some [OF inv(1) f]
  show "i < g_max_jobs" "sl_job_id (sw_slots (ew_ledger w) ! i) = tok_job_id t" "tok_job_id t \<noteq> 0"
    "ew_configured w"
    using g inv(2) by auto
  from lockstep_entry [OF inv(3) g(1)] g
  show "en_token (ew_entries w ! i) = t"
    "en_committed (ew_entries w ! i) = sl_committed (sw_slots (ew_ledger w) ! i)"
    "en_input_done (ew_entries w ! i) = sl_input_done (sw_slots (ew_ledger w) ! i)"
    "en_result_done (ew_entries w ! i) = sl_result_done (sw_slots (ew_ledger w) ! i)"
    "en_submission_attempted (ew_entries w ! i) \<Longrightarrow> en_committed (ew_entries w ! i)"
    by (auto simp: lock_entry_def intro!: submission_token.equality)
qed

lemma encwn_free_eq:
  assumes "encwn_inv w" and "subwn_free_slot (ew_ledger w) = Some i"
  shows "encwn_free_entry w = Some i"
proof -
  note inv = encwn_invD [OF assms(1)]
  note fr = subwn_free_slot_Some [OF inv(1) assms(2)]
  show ?thesis unfolding encwn_free_entry_def
  proof (rule first_index_eqI)
    show "i < length (ew_entries w)" using fr lockstep_length [OF inv(3)] by simp
    show "tok_job_id (en_token (ew_entries w ! i)) = 0"
      using lock_entry_job [OF lockstep_entry [OF inv(3) fr(1)]] fr by simp
    show "tok_job_id (en_token (ew_entries w ! j)) \<noteq> 0" if "j < i" for j
    proof -
      have "\<not> sl_job_id (take (unat (cfg_capacity (sw_config (ew_ledger w)))) (sw_slots (ew_ledger w)) ! j) = 0"
        using first_index_Some [OF assms(2) [unfolded subwn_free_slot_def]] that by blast
      then show ?thesis
        using lock_entry_job [OF lockstep_entry [OF inv(3), of j]] that fr(1,2) by simp
    qed
  qed
qed

section \<open>Every operation keeps the two tables together\<close>

text \<open>What each ledger operation does to the slot it finds.\<close>

definition ledger_slot :: "nat \<Rightarrow> slot \<Rightarrow> submission_window \<Rightarrow> submission_window" where
  "ledger_slot i s l = l\<lparr>sw_slots := (sw_slots l)[i := s]\<rparr>"

lemma outstanding_slot:
  assumes "subwn_inv l" and "i < g_max_jobs"
  shows "subwn_get_outstanding (ledger_slot i s l) +
      (if sl_job_id (sw_slots l ! i) \<noteq> 0 then 1 else 0) =
    subwn_get_outstanding l + (if sl_job_id s \<noteq> 0 then 1 else 0)"
  using length_filter_update [of i "sw_slots l" "\<lambda>s. sl_job_id s \<noteq> 0" s] assms
  by (simp add: subwn_get_outstanding_def ledger_slot_def subwn_inv_length)

lemma encwn_slot_inv:
  assumes inv: "encwn_inv w" and i: "i < g_max_jobs"
    and l: "subwn_inv l'" "sw_configured l' = sw_configured (ew_ledger w)"
      "sw_config l' = sw_config (ew_ledger w)" "sw_slots l' = (sw_slots (ew_ledger w))[i := s]"
    and lock: "lock_entry (cfg_cycle_id (sw_config (ew_ledger w))) e s"
    and r: "unat r = subwn_get_outstanding l' * unat (ew_surface_bytes w)"
      "r \<le> ewc_max_input_bytes (ew_config w)"
  shows "encwn_inv (w\<lparr>ew_ledger := l', ew_entries := (ew_entries w)[i := e], ew_reserved_bytes := r\<rparr>)"
proof -
  note v = encwn_invD [OF inv]
  have "lock_entry (cfg_cycle_id (sw_config l')) ((ew_entries w)[i := e] ! k) (sw_slots l' ! k)"
    if "k < g_max_jobs" for k
    using lockstep_entry [OF v(3) that] lock i that lockstep_length [OF v(3)] subwn_inv_length [OF v(1)]
    by (cases "k = i") (simp_all add: l)
  then show ?thesis
    using v l(1,2) r lockstep_length [OF v(3)]
    by (auto simp: encwn_inv_def lockstep_def budget_ok_def encwn_outstanding_def)
qed

text \<open>The ledger alone may change its flags.\<close>

lemma encwn_ledger_inv:
  assumes "encwn_inv w" and "subwn_inv l'" and "sw_configured l' = sw_configured (ew_ledger w)"
    and "sw_config l' = sw_config (ew_ledger w)" and "sw_slots l' = sw_slots (ew_ledger w)"
  shows "encwn_inv (w\<lparr>ew_ledger := l'\<rparr>)"
  using assms by (auto simp: encwn_inv_def lockstep_def budget_ok_def encwn_outstanding_def
      subwn_get_outstanding_def)

lemma encwn_entry_inv:
  assumes inv: "encwn_inv w" and i: "i < g_max_jobs"
    and "lock_entry (cfg_cycle_id (sw_config (ew_ledger w))) e (sw_slots (ew_ledger w) ! i)"
  shows "encwn_inv (encwn_set_entry i e w)"
proof -
  note v = encwn_invD [OF inv]
  have "encwn_inv (w\<lparr>ew_ledger := ew_ledger w, ew_entries := (ew_entries w)[i := e],
      ew_reserved_bytes := ew_reserved_bytes w\<rparr>)"
    by (rule encwn_slot_inv [OF inv i v(1) refl refl _ assms(3)])
      (use v(4) in \<open>simp_all add: budget_ok_def encwn_outstanding_def\<close>)
  then show ?thesis by (simp add: encwn_set_entry_def)
qed

lemma encwn_same_job_inv:
  assumes inv: "encwn_inv w" and i: "i < g_max_jobs"
    and l: "subwn_inv (ledger_slot i s (ew_ledger w))"
    and job: "sl_job_id s = sl_job_id (sw_slots (ew_ledger w) ! i)"
    and lock: "lock_entry (cfg_cycle_id (sw_config (ew_ledger w))) e s"
  shows "encwn_inv (encwn_set_entry i e (w\<lparr>ew_ledger := ledger_slot i s (ew_ledger w)\<rparr>))"
proof -
  note v = encwn_invD [OF inv]
  have "subwn_get_outstanding (ledger_slot i s (ew_ledger w)) = encwn_outstanding w"
    using outstanding_slot [OF v(1) i, of s] job by (simp add: encwn_outstanding_def split: if_splits)
  then have "encwn_inv (w\<lparr>ew_ledger := ledger_slot i s (ew_ledger w),
      ew_entries := (ew_entries w)[i := e], ew_reserved_bytes := ew_reserved_bytes w\<rparr>)"
    using v(4) by (intro encwn_slot_inv [OF inv i l _ _ _ lock]) (simp_all add: ledger_slot_def budget_ok_def)
  then show ?thesis by (simp add: encwn_set_entry_def)
qed

lemma encwn_release_inv:
  assumes inv: "encwn_inv w" and i: "i < g_max_jobs"
    and l: "subwn_inv (ledger_slot i empty_slot (ew_ledger w))"
    and nz: "sl_job_id (sw_slots (ew_ledger w) ! i) \<noteq> 0"
  shows "encwn_inv ((encwn_set_entry i empty_entry
      (w\<lparr>ew_ledger := ledger_slot i empty_slot (ew_ledger w)\<rparr>))
        \<lparr>ew_reserved_bytes := ew_reserved_bytes w - ew_surface_bytes w\<rparr>)"
proof -
  note v = encwn_invD [OF inv]
  let ?n = "subwn_get_outstanding (ledger_slot i empty_slot (ew_ledger w))"
  have "encwn_outstanding w = Suc ?n"
    using outstanding_slot [OF v(1) i, of empty_slot] nz by (simp add: encwn_outstanding_def)
  then have eq: "unat (ew_reserved_bytes w) = ?n * unat (ew_surface_bytes w) + unat (ew_surface_bytes w)"
    using v(4) by (simp add: budget_ok_def)
  then have le: "ew_surface_bytes w \<le> ew_reserved_bytes w" by (simp add: word_le_nat_alt)
  then have d: "unat (ew_reserved_bytes w - ew_surface_bytes w) = ?n * unat (ew_surface_bytes w)"
    using eq by (simp add: unat_sub_exact)
  moreover have "ew_reserved_bytes w - ew_surface_bytes w \<le> ewc_max_input_bytes (ew_config w)"
    using d eq v(4) by (simp add: budget_ok_def word_le_nat_alt)
  ultimately have "encwn_inv (w\<lparr>ew_ledger := ledger_slot i empty_slot (ew_ledger w),
      ew_entries := (ew_entries w)[i := empty_entry],
      ew_reserved_bytes := ew_reserved_bytes w - ew_surface_bytes w\<rparr>)"
    by (intro encwn_slot_inv [OF inv i l, where s = empty_slot]) (simp_all add: ledger_slot_def)
  then show ?thesis by (simp add: encwn_set_entry_def)
qed

lemma encwn_configure_inv: "encwn_inv w \<Longrightarrow> encwn_inv (snd (encwn_configure c w))"
proof -
  assume inv: "encwn_inv w"
  note v = encwn_invD [OF inv]
  show ?thesis
  proof (cases "fst (encwn_configure c w) = Ok")
    case False
    then have "encwn_configure c w = (fst (encwn_configure c w), w)"
      by (auto simp: encwn_configure_def subwn_configure_def Let_def split: if_splits)
    with inv show ?thesis by (metis snd_conv)
  next
    case True
    let ?g = "ewc_geometry c" and ?l = "snd (subwn_configure (ewc_submission c) (ew_ledger w))"
    have c: "\<not> ew_configured w" "geometry_supported ?g" "ewc_max_input_bytes c \<le> pv_max_pool_bytes"
      and ok: "fst (subwn_configure (ewc_submission c) (ew_ledger w)) = Ok"
      and w': "snd (encwn_configure c w) = w\<lparr>ew_ledger := ?l, ew_config := c,
        ew_surface_bytes := nvgeo_packed_bytes (geo_width ?g) (geo_height ?g), ew_configured := True\<rparr>"
      using True by (auto simp: encwn_configure_def Let_def split: if_splits prod.splits)
    have l: "subwn_inv ?l" "sw_configured ?l" "sw_slots ?l = sw_slots (ew_ledger w)"
      using subwn_configure_inv [OF v(1)] ok
      by (auto simp: subwn_configure_def split: if_splits)
    have e: "sw_slots (ew_ledger w) ! i = empty_slot" if "i < g_max_jobs" for i
      using subwn_inv_unconfigured [OF v(1)] v(2) c(1) that by simp
    have "encwn_outstanding w = 0"
      using subwn_outstanding_capacity [OF v(1)] v(2) c(1) by (simp add: encwn_outstanding_def)
    then have z: "ew_reserved_bytes w = 0" "subwn_get_outstanding ?l = 0"
      using v(4) l(3)
      by (simp_all add: budget_ok_def encwn_outstanding_def subwn_get_outstanding_def word_unat_eq_iff)
    have "lock_entry k (ew_entries w ! i) (sw_slots ?l ! i)" if "i < g_max_jobs" for i k
      using lockstep_entry [OF v(3) that] e [OF that] l(3) by (simp add: lock_entry_def)
    then show ?thesis
      unfolding w' using l z c packed_bytes_positive [OF c(2)] lockstep_length [OF v(3)]
      by (auto simp: encwn_inv_def lockstep_def budget_ok_def encwn_outstanding_def
          word_less_nat_alt)
  qed
qed

lemma encwn_clock_inv: "encwn_inv w \<Longrightarrow> encwn_inv (snd (encwn_accept_clock n w))"
  by (auto simp: encwn_accept_clock_def encwn_inv_def lockstep_def budget_ok_def encwn_outstanding_def)

lemma encwn_clock_fields [simp]:
  "ew_ledger (snd (encwn_accept_clock n w)) = ew_ledger w"
  "ew_config (snd (encwn_accept_clock n w)) = ew_config w"
  "ew_entries (snd (encwn_accept_clock n w)) = ew_entries w"
  "ew_surface_bytes (snd (encwn_accept_clock n w)) = ew_surface_bytes w"
  "ew_reserved_bytes (snd (encwn_accept_clock n w)) = ew_reserved_bytes w"
  "ew_configured (snd (encwn_accept_clock n w)) = ew_configured w"
  by (simp_all add: encwn_accept_clock_def)

text \<open>The reservation after the clock check, on both tables.\<close>

lemma encwn_take_inv:
  assumes inv: "encwn_inv w" and ok: "subwn_reserve e f p n (ew_ledger w) tk = (Ok, l', tk')"
    and room: "\<not> ew_surface_bytes w > ewc_max_input_bytes (ew_config w) - ew_reserved_bytes w"
    and free: "encwn_free_entry w = Some i"
  shows "encwn_inv (w\<lparr>ew_ledger := l', ew_entries := (ew_entries w)[i := encwn_new_entry frame tk'],
    ew_reserved_bytes := ew_reserved_bytes w + ew_surface_bytes w\<rparr>)"
proof -
  note v = encwn_invD [OF inv]
  let ?l = "ew_ledger w"
  obtain k where k: "subwn_free_slot ?l = Some k" "l' = subwn_take_slot f p n k ?l"
      "tk' = subwn_make_ticket e f p n ?l"
    using ok by (rule subwn_reserve_Ok)
  have "k = i" using encwn_free_eq [OF inv k(1)] free by simp
  note fr = subwn_free_slot_Some [OF v(1) k(1)]
  let ?s = "empty_slot\<lparr>sl_job_id := sw_next_job_id ?l,
          sl_deadline_ns := n + cfg_job_timeout_ns (sw_config ?l)\<rparr>"
  have nz: "sw_next_job_id ?l \<noteq> 0" using v(1) by (auto simp: subwn_inv_def)
  have l: "subwn_inv l'" "sw_configured l' = sw_configured ?l" "sw_config l' = sw_config ?l"
      "sw_slots l' = (sw_slots ?l)[i := ?s]"
    using subwn_reserve_inv [OF v(1), of e f p n tk] ok fr \<open>k = i\<close>
    by (simp_all add: k(2) subwn_take_slot_def)
  have "subwn_get_outstanding l' = subwn_get_outstanding (ledger_slot i ?s ?l)"
    using l(4) by (simp add: subwn_get_outstanding_def ledger_slot_def)
  then have out: "subwn_get_outstanding l' = Suc (encwn_outstanding w)"
    using outstanding_slot [OF v(1), of i ?s] fr \<open>k = i\<close> nz by (simp add: encwn_outstanding_def)
  have le: "ew_reserved_bytes w \<le> ewc_max_input_bytes (ew_config w)"
    and eq: "unat (ew_reserved_bytes w) = encwn_outstanding w * unat (ew_surface_bytes w)"
    using v(4) by (simp_all add: budget_ok_def)
  have sum: "unat (ew_reserved_bytes w) + unat (ew_surface_bytes w) \<le>
      unat (ewc_max_input_bytes (ew_config w))"
    using room le by (simp add: word_less_nat_alt word_le_nat_alt unat_sub_exact)
  then have u: "unat (ew_reserved_bytes w + ew_surface_bytes w) =
      unat (ew_reserved_bytes w) + unat (ew_surface_bytes w)"
    using unat_bound [of "ewc_max_input_bytes (ew_config w)"] by (intro unat_add_exact) linarith
  show ?thesis
  proof (rule encwn_slot_inv [OF inv _ l])
    show "i < g_max_jobs" using fr \<open>k = i\<close> by simp
    show "lock_entry (cfg_cycle_id (sw_config ?l)) (encwn_new_entry frame tk') ?s"
      using nz by (simp add: lock_entry_def encwn_new_entry_def k(3) subwn_make_ticket_def
          empty_entry_def empty_slot_def)
    show "unat (ew_reserved_bytes w + ew_surface_bytes w) =
        subwn_get_outstanding l' * unat (ew_surface_bytes w)"
      by (simp add: u eq out)
    show "ew_reserved_bytes w + ew_surface_bytes w \<le> ewc_max_input_bytes (ew_config w)"
      using sum by (simp add: word_le_nat_alt u)
  qed
qed

lemma encwn_reserve_inv: "encwn_inv w \<Longrightarrow> encwn_inv (fst (snd (encwn_reserve frame d n w tk)))"
proof -
  assume inv: "encwn_inv w"
  let ?v = "snd (encwn_accept_clock n w)"
  have v: "encwn_inv ?v" by (rule encwn_clock_inv [OF inv])
  have failed: "fst (snd (subwn_reserve e f p n (ew_ledger w) blank_ticket)) = ew_ledger w"
    if "fst (subwn_reserve e f p n (ew_ledger w) blank_ticket) \<noteq> Ok" for e f p
    using that subwn_reserve_failed [of e f p n "ew_ledger w" blank_ticket] by (metis prod.collapse)
  have same: "?v\<lparr>ew_ledger := ew_ledger w\<rparr> = ?v" by simp
  note ok = encwn_take_inv [OF v ok_triple, simplified]
  show ?thesis
    using inv v
    by (simp add: encwn_reserve_def case_prod_beta same failed ok split: option.split)
qed

lemma subwn_find_failed: "subwn_commit t l = (r, l') \<Longrightarrow> r \<noteq> Ok \<Longrightarrow> l' = l"
  "subwn_cancel_reserved t l = (r, l') \<Longrightarrow> r \<noteq> Ok \<Longrightarrow> l' = l"
  "subwn_complete t b l = (r, l') \<Longrightarrow> r \<noteq> Ok \<Longrightarrow> l' = l"
  by (auto simp: subwn_commit_def subwn_cancel_reserved_def subwn_complete_eq
      split: option.splits if_splits)

lemma encwn_commit_inv: "encwn_inv w \<Longrightarrow> encwn_inv (snd (encwn_commit t w))"
proof (cases "encwn_find t w")
  case (Some i)
  assume inv: "encwn_inv w"
  note v = encwn_invD [OF inv] and f = encwn_find_Some [OF inv Some]
  let ?s = "(sw_slots (ew_ledger w) ! i)\<lparr>sl_committed := True\<rparr>"
  let ?e = "(ew_entries w ! i)\<lparr>en_committed := True\<rparr>"
  have c: "subwn_commit t (ew_ledger w) =
      (if sl_committed (sw_slots (ew_ledger w) ! i) \<or> \<not> subwn_is_accepting (ew_ledger w)
       then (Invalid_state, ew_ledger w) else (Ok, ledger_slot i ?s (ew_ledger w)))"
    using f(2) by (simp add: subwn_commit_def ledger_slot_def)
  have "lock_entry (cfg_cycle_id (sw_config (ew_ledger w))) ?e ?s"
    using lockstep_entry [OF v(3) f(1)] f(3,4) by (simp add: lock_entry_def)
  then have "encwn_inv (encwn_set_entry i ?e (w\<lparr>ew_ledger := ledger_slot i ?s (ew_ledger w)\<rparr>))"
    if "subwn_inv (ledger_slot i ?s (ew_ledger w))"
    by (intro encwn_same_job_inv [OF inv f(1) that]) simp_all
  then show ?thesis
    using inv subwn_commit_inv [OF v(1), of t] Some by (auto simp: encwn_commit_def c)
qed (simp add: encwn_commit_def)

lemma encwn_cancel_inv: "encwn_inv w \<Longrightarrow> encwn_inv (snd (encwn_cancel_reserved t w))"
proof (cases "encwn_find t w")
  case (Some i)
  assume inv: "encwn_inv w"
  note v = encwn_invD [OF inv] and f = encwn_find_Some [OF inv Some]
  have c: "subwn_cancel_reserved t (ew_ledger w) =
      (if sl_committed (sw_slots (ew_ledger w) ! i)
       then (Invalid_state, ew_ledger w) else (Ok, ledger_slot i empty_slot (ew_ledger w)))"
    using f(2) by (simp add: subwn_cancel_reserved_def ledger_slot_def)
  show ?thesis
    using inv subwn_cancel_inv [OF v(1), of t] Some encwn_release_inv [OF inv f(1)] f(3,4)
    by (auto simp: encwn_cancel_reserved_def c)
qed (simp add: encwn_cancel_reserved_def)

lemma encwn_begin_submission_inv: "encwn_inv w \<Longrightarrow> encwn_inv (snd (encwn_begin_submission t w))"
proof (cases "encwn_find t w")
  case (Some i)
  assume inv: "encwn_inv w"
  note v = encwn_invD [OF inv] and f = encwn_find_Some [OF inv Some]
  have "lock_entry (cfg_cycle_id (sw_config (ew_ledger w)))
      ((ew_entries w ! i)\<lparr>en_submission_attempted := True\<rparr>) (sw_slots (ew_ledger w) ! i)"
    if "en_committed (ew_entries w ! i)"
    using lockstep_entry [OF v(3) f(1)] f(3,4) that by (simp add: lock_entry_def)
  then show ?thesis
    using inv Some encwn_entry_inv [OF inv f(1)] by (simp add: encwn_begin_submission_def Let_def)
qed (simp add: encwn_begin_submission_def)

definition completed_entry :: "bool \<Rightarrow> entry \<Rightarrow> entry" where
  "completed_entry is_input e =
     (if is_input then e\<lparr>en_input_done := True\<rparr> else e\<lparr>en_result_done := True\<rparr>)"

lemma encwn_complete_eq:
  "encwn_complete t b w =
     (case encwn_find t w of
        None \<Rightarrow> (Invalid_state, w)
      | Some i \<Rightarrow>
          (case subwn_complete t b (ew_ledger w) of
             (result, l') \<Rightarrow>
               if result \<noteq> Ok then (result, w\<lparr>ew_ledger := l'\<rparr>)
               else
                 (let e = completed_entry b (ew_entries w ! i)
                  in (Ok, if en_input_done e \<and> en_result_done e
                          then (encwn_set_entry i empty_entry (w\<lparr>ew_ledger := l'\<rparr>))
                                 \<lparr>ew_reserved_bytes := ew_reserved_bytes w - ew_surface_bytes w\<rparr>
                          else encwn_set_entry i e (w\<lparr>ew_ledger := l'\<rparr>)))))"
  by (auto simp: encwn_complete_def completed_entry_def subwn_complete_input_def
      subwn_complete_result_def Let_def split: option.splits prod.splits)

lemma encwn_complete_inv: "encwn_inv w \<Longrightarrow> encwn_inv (snd (encwn_complete t b w))"
proof (cases "encwn_find t w")
  case (Some i)
  assume inv: "encwn_inv w"
  note v = encwn_invD [OF inv] and f = encwn_find_Some [OF inv Some]
  let ?s = "sw_slots (ew_ledger w) ! i" and ?e = "completed_entry b (ew_entries w ! i)"
  show ?thesis
  proof (cases "fst (subwn_complete t b (ew_ledger w)) = Ok")
    case False
    then show ?thesis
      using inv Some by (auto simp: encwn_complete_eq split: prod.splits dest: subwn_find_failed)
  next
    case True
    then have c: "subwn_complete t b (ew_ledger w) = (Ok, ledger_slot i (completed_slot b ?s) (ew_ledger w))"
      and com: "sl_committed ?s" and fresh: "\<not> (if b then sl_input_done ?s else sl_result_done ?s)"
      using f(2) by (auto simp: subwn_complete_eq ledger_slot_def split: if_splits)
    have l: "subwn_inv (ledger_slot i (completed_slot b ?s) (ew_ledger w))"
      using subwn_complete_inv [OF v(1), of t b] c by simp
    show ?thesis
    proof (cases "en_input_done ?e \<and> en_result_done ?e")
      case both: True
      then have "completed_slot b ?s = empty_slot"
        using f(7,8) by (cases b) (auto simp: completed_slot_def completed_entry_def Let_def)
      then show ?thesis
        using encwn_release_inv [OF inv f(1)] l f(3,4) Some both
        by (simp add: encwn_complete_eq c)
    next
      case half: False
      then have "lock_entry (cfg_cycle_id (sw_config (ew_ledger w))) ?e (completed_slot b ?s)"
        and "sl_job_id (completed_slot b ?s) = sl_job_id ?s"
        using lockstep_entry [OF v(3) f(1)] f(3,4,7,8)
        by (cases b; auto simp: completed_slot_def completed_entry_def Let_def lock_entry_def)+
      from encwn_same_job_inv [OF inv f(1) l this(2,1)] show ?thesis
        using Some half by (auto simp: encwn_complete_eq c Let_def)
    qed
  qed
qed (simp add: encwn_complete_def)

lemma encwn_mark_fault_inv: "encwn_inv w \<Longrightarrow> encwn_inv (encwn_mark_fault w)"
  and encwn_begin_drain_inv: "encwn_inv w \<Longrightarrow> encwn_inv (encwn_begin_drain w)"
  using subwn_step_inv [of "ew_ledger w" Sw_mark_fault] subwn_step_inv [of "ew_ledger w" Sw_begin_drain]
  by (auto simp: encwn_mark_fault_def encwn_begin_drain_def subwn_mark_fault_def
      subwn_begin_drain_def dest: encwn_invD intro!: encwn_ledger_inv)

lemma encwn_check_deadlines_inv: "encwn_inv w \<Longrightarrow> encwn_inv (snd (encwn_check_deadlines n w))"
proof -
  assume inv: "encwn_inv w"
  note v = encwn_clock_inv [OF inv, of n]
  have "encwn_inv ((snd (encwn_accept_clock n w))
      \<lparr>ew_ledger := snd (subwn_check_deadlines n (ew_ledger w))\<rparr>)"
    using subwn_check_deadlines_inv [OF encwn_invD(1) [OF inv], of n]
    by (intro encwn_ledger_inv [OF v]) (simp_all add: subwn_check_deadlines_def)
  then show ?thesis
    using inv v by (simp add: encwn_check_deadlines_def case_prod_beta)
qed

lemma encwn_apply_event_inv: "encwn_inv w \<Longrightarrow> encwn_inv (snd (encwn_apply_event ev w))"
  using encwn_mark_fault_inv encwn_complete_inv
  by (auto simp: encwn_apply_event_def Let_def case_prod_beta encwn_complete_input_def
      encwn_complete_result_def encwn_complete_dropped_result_def
      split: encoder_event_kind.split option.split)

lemma encwn_step_inv: "encwn_inv w \<Longrightarrow> encwn_inv (encwn_step a w)"
proof (cases a)
  case (Ew_begin_input i g)
  then show "encwn_inv w \<Longrightarrow> encwn_inv (encwn_step a w)"
    by (auto simp: encwn_begin_input_def Let_def encwn_begin_submission_inv split: option.split)
next
  case (Ew_complete_result t u)
  then show "encwn_inv w \<Longrightarrow> encwn_inv (encwn_step a w)"
    by (auto simp: encwn_complete_result_def Let_def encwn_complete_inv split: option.split)
qed (simp_all add: encwn_configure_inv encwn_reserve_inv encwn_commit_inv encwn_cancel_inv
    encwn_begin_submission_inv encwn_complete_inv encwn_complete_input_def
    encwn_complete_dropped_result_def encwn_apply_event_inv encwn_check_deadlines_inv
    encwn_mark_fault_inv encwn_begin_drain_inv)

section \<open>Every step of the window is a step of its ledger\<close>

lemma encwn_commit_status:
  assumes "encwn_inv w"
  shows "fst (encwn_commit t w) = fst (subwn_commit t (ew_ledger w))"
    and "ew_ledger (snd (encwn_commit t w)) = snd (subwn_commit t (ew_ledger w))"
  by (simp_all add: encwn_commit_def encwn_find_eq [OF assms] encwn_set_entry_def case_prod_beta
      split: option.split) (simp_all add: subwn_commit_def)

lemma encwn_cancel_status:
  assumes "encwn_inv w"
  shows "fst (encwn_cancel_reserved t w) = fst (subwn_cancel_reserved t (ew_ledger w))"
    and "ew_ledger (snd (encwn_cancel_reserved t w)) = snd (subwn_cancel_reserved t (ew_ledger w))"
  by (simp_all add: encwn_cancel_reserved_def encwn_find_eq [OF assms] encwn_set_entry_def case_prod_beta
      split: option.split) (simp_all add: subwn_cancel_reserved_def)

lemma encwn_complete_status:
  assumes "encwn_inv w"
  shows "fst (encwn_complete t b w) = fst (subwn_complete t b (ew_ledger w))"
    and "ew_ledger (snd (encwn_complete t b w)) = snd (subwn_complete t b (ew_ledger w))"
  by (simp_all add: encwn_complete_eq encwn_find_eq [OF assms] encwn_set_entry_def case_prod_beta
      Let_def split: option.split) (simp_all add: subwn_complete_eq)

definition ledger_move :: "submission_window \<Rightarrow> submission_window \<Rightarrow> bool" where
  "ledger_move l l' \<longleftrightarrow> l' = l \<or> (\<exists>op. l' = subwn_step op l) \<or>
     (\<exists>op. l' = subwn_mark_fault (subwn_step op l))"

lemma ledger_moveI:
  "ledger_move l l"
  "ledger_move l (snd (subwn_configure c l))"
  "ledger_move l (fst (snd (subwn_reserve e f p n l blank_ticket)))"
  "ledger_move l (snd (subwn_commit t l))" "ledger_move l (snd (subwn_cancel_reserved t l))"
  "ledger_move l (snd (subwn_complete t b l))" "ledger_move l (snd (subwn_check_deadlines n l))"
  "ledger_move l (subwn_begin_drain l)" "ledger_move l (subwn_mark_fault l)"
  "ledger_move l (subwn_mark_fault (snd (subwn_complete t b l)))"
  unfolding ledger_move_def by (metis subwn_step.simps)+

lemma encwn_reserve_ledger:
  "ledger_move (ew_ledger w) (ew_ledger (fst (snd (encwn_reserve frame d n w tk))))"
  using ledger_moveI(1,3) by (auto simp: encwn_reserve_def case_prod_beta split: option.split)

lemma encwn_apply_event_ledger:
  assumes "encwn_inv w"
  shows "ledger_move (ew_ledger w) (ew_ledger (snd (encwn_apply_event ev w)))"
  using ledger_moveI
  by (auto simp: encwn_apply_event_def Let_def case_prod_beta encwn_complete_input_def
      encwn_complete_result_def encwn_complete_dropped_result_def encwn_mark_fault_def
      encwn_complete_status [OF assms] split: encoder_event_kind.split option.split)

lemma encwn_step_ledger:
  assumes "encwn_inv w"
  shows "ledger_move (ew_ledger w) (ew_ledger (encwn_step a w))"
proof (cases a)
  case (Ew_configure c)
  then show ?thesis
    using ledger_moveI by (auto simp: encwn_configure_def Let_def case_prod_beta)
next
  case (Ew_check_deadlines n)
  then show ?thesis
    using ledger_moveI by (auto simp: encwn_check_deadlines_def case_prod_beta)
next
  case (Ew_begin_submission t)
  then show ?thesis
    using ledger_moveI(1) by (auto simp: encwn_begin_submission_def encwn_set_entry_def Let_def
        split: option.split)
next
  case (Ew_begin_input i g)
  then show ?thesis
    using ledger_moveI(1) by (auto simp: encwn_begin_input_def encwn_begin_submission_def
        encwn_set_entry_def Let_def split: option.split)
next
  case (Ew_complete_result t u)
  then show ?thesis
    using ledger_moveI by (auto simp: encwn_complete_result_def Let_def
        encwn_complete_status [OF assms] split: option.split)
qed (use ledger_moveI encwn_reserve_ledger encwn_apply_event_ledger [OF assms] in
    \<open>simp_all add: encwn_commit_status [OF assms] encwn_cancel_status [OF assms]
      encwn_complete_status [OF assms] encwn_complete_input_def encwn_complete_dropped_result_def
      encwn_mark_fault_def encwn_begin_drain_def\<close>)

lemma ledger_move_run: "ledger_move l l' \<Longrightarrow> \<exists>ops. l' = fold subwn_step ops l"
  unfolding ledger_move_def
  by (metis fold_simps subwn_step.simps(8))

lemma ledger_move_phase:
  assumes "ledger_move l l'" and "subwn_inv l" and "j \<noteq> 0"
  shows "subwn_phase l' j = subwn_phase l j \<or> job_step (subwn_phase l j) (subwn_phase l' j)"
proof -
  have "subwn_phase (subwn_mark_fault k) = subwn_phase k" for k
    by (rule subwn_phase_slots) (simp add: subwn_mark_fault_def)
  then show ?thesis
    using assms(1) subwn_step_phase [OF assms(2,3)] unfolding ledger_move_def by metis
qed

definition encwn_phase :: "encoder_window \<Rightarrow> u64 \<Rightarrow> job_phase" where
  "encwn_phase w = subwn_phase (ew_ledger w)"

interpretation encwn: job_ledger encwn_step encwn_inv encwn_phase
proof unfold_locales
  show "encwn_phase (encwn_step a w) j = encwn_phase w j \<or>
      job_step (encwn_phase w j) (encwn_phase (encwn_step a w) j)"
    if "encwn_inv w" "j \<noteq> 0" for w a j
    using ledger_move_phase [OF encwn_step_ledger [OF that(1)] encwn_invD(1) [OF that(1)] that(2)]
    by (simp add: encwn_phase_def)
qed (rule encwn_step_inv)

lemma encwn_run_ledger:
  "encwn_inv w \<Longrightarrow> \<exists>ls. ew_ledger (fold encwn_step ops w) = fold subwn_step ls (ew_ledger w)"
proof (induction ops arbitrary: w)
  case Nil
  show ?case by (rule exI [of _ "[]"]) simp
next
  case (Cons a ops)
  obtain l1 where "ew_ledger (encwn_step a w) = fold subwn_step l1 (ew_ledger w)"
    using ledger_move_run [OF encwn_step_ledger [OF Cons.prems]] by blast
  moreover obtain l2 where "ew_ledger (fold encwn_step ops (encwn_step a w)) =
      fold subwn_step l2 (ew_ledger (encwn_step a w))"
    using Cons.IH [OF encwn_step_inv [OF Cons.prems]] by blast
  ultimately show ?case by (intro exI [of _ "l1 @ l2"]) simp
qed

section \<open>One submission attempt per job\<close>

definition attempted :: "encoder_window \<Rightarrow> u64 \<Rightarrow> bool" where
  "attempted w j \<longleftrightarrow> list_ex (\<lambda>e. tok_job_id (en_token e) = j \<and> en_submission_attempted e) (ew_entries w)"

text \<open>An update that keeps the entry's token and attempt, or drops an unused entry, loses no attempt.\<close>

lemma attempted_update:
  assumes "attempted w j" and "ew_entries w' = (ew_entries w)[i := e]" and "j \<noteq> 0"
    and "i < length (ew_entries w)"
    and "tok_job_id (en_token (ew_entries w ! i)) = j \<Longrightarrow>
      en_submission_attempted (ew_entries w ! i) \<Longrightarrow>
      tok_job_id (en_token e) = j \<and> en_submission_attempted e"
  shows "attempted w' j"
proof -
  obtain k where k: "k < length (ew_entries w)" "tok_job_id (en_token (ew_entries w ! k)) = j"
    "en_submission_attempted (ew_entries w ! k)"
    using assms(1) by (auto simp: attempted_def list_ex_length)
  show ?thesis
    unfolding attempted_def list_ex_length assms(2)
    by (rule exI [of _ k]) (use k assms(4,5) in \<open>auto simp: nth_list_update\<close>)
qed

lemma attempted_same: "ew_entries w' = ew_entries w \<Longrightarrow> attempted w' j = attempted w j"
  by (simp add: attempted_def)

lemma find_length: "encwn_inv w \<Longrightarrow> encwn_find t w = Some i \<Longrightarrow> i < length (ew_entries w)"
  using encwn_find_Some(1) lockstep_length encwn_invD(3) by metis

lemma free_length: "encwn_free_entry w = Some i \<Longrightarrow>
    i < length (ew_entries w) \<and> tok_job_id (en_token (ew_entries w ! i)) = 0"
  unfolding encwn_free_entry_def by (drule first_index_Some) blast

lemma encwn_complete_attempted:
  assumes inv: "encwn_inv w" and at: "attempted w j" and j: "j \<noteq> 0"
    and live: "encwn_phase (snd (encwn_complete t b w)) j \<noteq> Absent"
  shows "attempted (snd (encwn_complete t b w)) j"
proof (cases "encwn_find t w")
  case None
  with at show ?thesis by (simp add: encwn_complete_eq)
next
  case (Some i)
  note f = encwn_find_Some [OF inv Some] and v = encwn_invD [OF inv]
  show ?thesis
  proof (cases "fst (subwn_complete t b (ew_ledger w)) = Ok")
    case False
    with Some at show ?thesis
      by (auto simp: encwn_complete_eq case_prod_beta attempted_def)
  next
    case True
    let ?e = "completed_entry b (ew_entries w ! i)"
    show ?thesis
    proof (cases "en_input_done ?e \<and> en_result_done ?e")
      case False
      with Some True have "ew_entries (snd (encwn_complete t b w)) = (ew_entries w)[i := ?e]"
        by (auto simp: encwn_complete_eq case_prod_beta encwn_set_entry_def Let_def)
      from attempted_update [OF at this j find_length [OF inv Some]] show ?thesis
        by (simp add: completed_entry_def)
    next
      case both: True
      have "tok_job_id (en_token (ew_entries w ! i)) \<noteq> j"
      proof
        assume tok: "tok_job_id (en_token (ew_entries w ! i)) = j"
        have "snd (spec_complete b (subwn_phase (ew_ledger w) j)) = Absent"
          using subwn_find_slot_phase [OF v(1) f(2)] True both tok f f(2)
          by (auto simp: slot_phase_def completed_entry_def subwn_complete_eq split: if_splits)
        moreover have "current_token t (ew_ledger w)"
          using subwn_find_slot_Some [OF v(1) f(2)] by (simp add: current_token_def)
        ultimately show False
          using live tok f(5) subwn_complete_refines [OF v(1), of t b]
          by (simp add: encwn_phase_def encwn_complete_status [OF inv])
      qed
      moreover have "ew_entries (snd (encwn_complete t b w)) = (ew_entries w)[i := empty_entry]"
        using Some True both
        by (auto simp: encwn_complete_eq case_prod_beta encwn_set_entry_def Let_def)
      ultimately show ?thesis using attempted_update [OF at _ j find_length [OF inv Some]] by metis
    qed
  qed
qed

lemma encwn_cancel_attempted:
  assumes inv: "encwn_inv w" and at: "attempted w j" and j: "j \<noteq> 0"
  shows "attempted (snd (encwn_cancel_reserved t w)) j"
proof (cases "encwn_find t w")
  case None
  with at show ?thesis by (simp add: encwn_cancel_reserved_def)
next
  case (Some i)
  note f = encwn_find_Some [OF inv Some]
  show ?thesis
  proof (cases "fst (subwn_cancel_reserved t (ew_ledger w)) = Ok")
    case False
    with Some at show ?thesis
      by (auto simp: encwn_cancel_reserved_def case_prod_beta attempted_def)
  next
    case True
    then have "\<not> en_submission_attempted (ew_entries w ! i)"
      using f(2,6,9) by (auto simp: subwn_cancel_reserved_def split: if_splits)
    moreover have "ew_entries (snd (encwn_cancel_reserved t w)) = (ew_entries w)[i := empty_entry]"
      using Some True by (simp add: encwn_cancel_reserved_def case_prod_beta encwn_set_entry_def)
    ultimately show ?thesis using attempted_update [OF at _ j find_length [OF inv Some]] by metis
  qed
qed

lemma encwn_commit_attempted:
  assumes inv: "encwn_inv w" and at: "attempted w j" and j: "j \<noteq> 0"
  shows "attempted (snd (encwn_commit t w)) j"
proof (cases "encwn_find t w")
  case (Some i)
  from attempted_update [OF at, of "snd (encwn_commit t w)" i
      "(ew_entries w ! i)\<lparr>en_committed := True\<rparr>"] j find_length [OF inv Some] at Some
  show ?thesis
    by (cases "fst (subwn_commit t (ew_ledger w)) = Ok")
      (auto simp: encwn_commit_def case_prod_beta encwn_set_entry_def attempted_def)
qed (use at in \<open>simp add: encwn_commit_def\<close>)

lemma encwn_begin_attempted:
  assumes inv: "encwn_inv w" and at: "attempted w j" and j: "j \<noteq> 0"
  shows "attempted (snd (encwn_begin_submission t w)) j"
proof (cases "encwn_find t w")
  case (Some i)
  from attempted_update [OF at, of "encwn_set_entry i
      ((ew_entries w ! i)\<lparr>en_submission_attempted := True\<rparr>) w" i] j find_length [OF inv Some] at Some
  show ?thesis
    by (auto simp: encwn_begin_submission_def Let_def encwn_set_entry_def)
qed (use at in \<open>simp add: encwn_begin_submission_def\<close>)

lemma encwn_reserve_attempted:
  assumes at: "attempted w j" and j: "j \<noteq> 0"
  shows "attempted (fst (snd (encwn_reserve f d n w tk))) j"
proof (cases "fst (encwn_reserve f d n w tk) = Ok")
  case False
  then have "ew_entries (fst (snd (encwn_reserve f d n w tk))) = ew_entries w"
    by (auto simp: encwn_reserve_def case_prod_beta split: option.splits if_splits)
  with at show ?thesis by (simp add: attempted_def)
next
  case True
  then obtain i e where i: "encwn_free_entry (snd (encwn_accept_clock n w)) = Some i"
      "ew_entries (fst (snd (encwn_reserve f d n w tk))) = (ew_entries w)[i := e]"
    by (auto simp: encwn_reserve_def case_prod_beta split: option.splits if_splits)
  from free_length [OF i(1)] attempted_update [OF at i(2) j] j show ?thesis by simp
qed

lemma encwn_event_attempted:
  assumes inv: "encwn_inv w" and at: "attempted w j" and j: "j \<noteq> 0"
    and live: "encwn_phase (snd (encwn_apply_event ev w)) j \<noteq> Absent"
  shows "attempted (snd (encwn_apply_event ev w)) j"
proof -
  have mark: "attempted (encwn_mark_fault v) j = attempted v j"
    "encwn_phase (encwn_mark_fault v) j = encwn_phase v j" for v
    by (simp_all add: encwn_mark_fault_def attempted_def encwn_phase_def subwn_mark_fault_def
        subwn_phase_def)
  note c = encwn_complete_attempted [OF inv at j]
  show ?thesis
    using live at c
    by (auto simp: encwn_apply_event_def Let_def case_prod_beta encwn_complete_input_def
        encwn_complete_result_def encwn_complete_dropped_result_def mark
        split: encoder_event_kind.splits option.splits if_splits)
qed

lemma encwn_step_attempted:
  assumes "encwn_inv w" and "attempted w j" and "j \<noteq> 0"
    and "encwn_phase (encwn_step a w) j \<noteq> Absent"
  shows "attempted (encwn_step a w) j"
proof (cases a)
  case (Ew_begin_input i g)
  then show ?thesis
    using assms encwn_begin_attempted [OF assms(1-3)]
    by (auto simp: encwn_begin_input_def Let_def split: option.splits)
next
  case (Ew_complete_result t u)
  then show ?thesis
    using assms encwn_complete_attempted [OF assms(1-3)]
    by (auto simp: encwn_complete_result_def Let_def split: option.splits if_splits)
next
  case (Ew_configure c)
  then show ?thesis
    using assms(2) by (auto simp: encwn_configure_def Let_def case_prod_beta attempted_def)
next
  case (Ew_check_deadlines n)
  then show ?thesis
    using assms(2) by (auto simp: encwn_check_deadlines_def case_prod_beta attempted_def)
next
  case Ew_begin_drain
  then show ?thesis using assms(2) by (simp add: encwn_begin_drain_def attempted_def)
next
  case Ew_mark_fault
  then show ?thesis using assms(2) by (simp add: encwn_mark_fault_def attempted_def)
qed (use assms encwn_reserve_attempted [OF assms(2,3)] encwn_commit_attempted [OF assms(1-3)]
    encwn_begin_attempted [OF assms(1-3)] encwn_cancel_attempted [OF assms(1-3)]
    encwn_complete_attempted [OF assms(1-3)] encwn_event_attempted [OF assms(1-3)] in
    \<open>simp_all add: encwn_complete_input_def encwn_complete_dropped_result_def\<close>)

text \<open>A job is spent once its input was handed over, or once it is gone for good.\<close>

definition spent :: "u64 \<Rightarrow> encoder_window \<Rightarrow> bool" where
  "spent j w \<longleftrightarrow> j \<noteq> 0 \<and> j < sw_next_job_id (ew_ledger w) \<and>
     (encwn_phase w j = Absent \<or> attempted w j)"

lemma ledger_move_ids:
  assumes "ledger_move l l'" and "subwn_inv l"
  shows "sw_next_job_id l \<le> sw_next_job_id l'"
    and "j < sw_next_job_id l \<Longrightarrow> subwn_phase l j = Absent \<Longrightarrow> subwn_phase l' j = Absent"
proof -
  have m: "sw_next_job_id (subwn_mark_fault k) = sw_next_job_id k"
    "subwn_phase (subwn_mark_fault k) = subwn_phase k" for k
    by (simp add: subwn_mark_fault_def, rule subwn_phase_slots) (simp add: subwn_mark_fault_def)
  show "sw_next_job_id l \<le> sw_next_job_id l'"
    using assms(1) subwn_step_next [OF assms(2)] m(1) unfolding ledger_move_def
    by (metis order_refl)
  show "subwn_phase l' j = Absent" if "j < sw_next_job_id l" "subwn_phase l j = Absent"
  proof -
    have "subwn_phase (subwn_step op l) j = Absent" for op
      using subwn_new_live [OF assms(2), of op j] that by auto
    then show ?thesis using assms(1) that(2) m(2) unfolding ledger_move_def by metis
  qed
qed

interpretation encwn_spent: latched_system encwn_step encwn_inv "spent j"
proof unfold_locales
  show "spent j (encwn_step a w)" if "encwn_inv w" "spent j w" for w a
  proof -
    note ids = ledger_move_ids [OF encwn_step_ledger [OF that(1), of a] encwn_invD(1) [OF that(1)]]
    have "j < sw_next_job_id (ew_ledger (encwn_step a w))"
      using ids(1) that(2) unfolding spent_def by (meson less_le_trans)
    then show ?thesis
      using ids(2) [of j] encwn_step_attempted [OF that(1), of j a] that(2)
      unfolding spent_def encwn_phase_def by blast
  qed
qed

section \<open>Events\<close>

lemma encwn_event_find:
  assumes inv: "encwn_inv w" and nz: "tok_job_id t \<noteq> 0"
  shows "encwn_event_entry t w = encwn_find t w"
  using nz by (simp add: encwn_event_entry_def encwn_find_def conj_commute)

text \<open>A completion that passes the checks is never refused by the ledger.\<close>

lemma encwn_valid_completion:
  assumes inv: "encwn_inv w" and ok: "encwn_validate_event ev w = Ok" and k: "ev_kind ev \<noteq> Fault"
  shows "fst (encwn_complete (ev_token ev) (ev_kind ev = Input_complete) w) = Ok"
    and "ev_kind ev = Output_ready \<Longrightarrow>
      encwn_complete_result (ev_token ev) (encot_borrow_view (the (ev_output ev))) w =
      encwn_complete (ev_token ev) False w"
proof -
  have val: "encct_validate_event ev = Ok" using ok by (auto simp: encwn_validate_event_def Let_def split: if_splits)
  note e = encct_validate_event_Ok [OF val]
  have nz: "tok_job_id (ev_token ev) \<noteq> 0" by (rule e(3) [OF k])
  obtain i where i: "encwn_find (ev_token ev) w = Some i" "en_committed (ew_entries w ! i)"
      "\<not> (if ev_kind ev = Input_complete then en_input_done (ew_entries w ! i)
          else en_result_done (ew_entries w ! i))"
      "ev_kind ev = Output_ready \<Longrightarrow>
        pvctr_validate_access_unit (encot_borrow_view (the (ev_output ev)))
          (en_frame (ew_entries w ! i)) (ewc_geometry (ew_config w)) = Ok"
    using ok val k nz e(4) encwn_event_find [OF inv nz]
    by (auto simp: encwn_validate_event_def Let_def split: option.splits if_splits)
  note f = encwn_find_Some [OF inv i(1)]
  show "fst (encwn_complete (ev_token ev) (ev_kind ev = Input_complete) w) = Ok"
    using i(2,3) f(2,6-8) by (auto simp: encwn_complete_status [OF inv] subwn_complete_eq)
  show "encwn_complete_result (ev_token ev) (encot_borrow_view (the (ev_output ev))) w =
      encwn_complete (ev_token ev) False w" if "ev_kind ev = Output_ready"
    using i(1,4) that by (simp add: encwn_complete_result_def Let_def)
qed

text \<open>The result of an event is the verdict of its validation, or the fault it reports.\<close>

lemma encwn_apply_event_eq:
  assumes inv: "encwn_inv w"
  shows "encwn_apply_event ev w =
    (if encwn_validate_event ev w \<noteq> Ok then (encwn_validate_event ev w, encwn_mark_fault w)
     else if ev_kind ev = Fault then (ev_detail ev, encwn_mark_fault w)
     else encwn_complete (ev_token ev) (ev_kind ev = Input_complete) w)"
proof (cases "encwn_validate_event ev w = Ok \<and> ev_kind ev \<noteq> Fault")
  case True
  then have val: "encct_validate_event ev = Ok"
    by (auto simp: encwn_validate_event_def Let_def split: if_splits)
  note e = encct_validate_event_Ok(4) [OF val]
  note c = encwn_valid_completion [OF inv, of ev]
  show ?thesis
    using True e c
    by (auto simp: encwn_apply_event_def Let_def encwn_complete_input_def
        encwn_complete_dropped_result_def prod_eq_iff split: prod.splits)
next
  case False
  then show ?thesis by (auto simp: encwn_apply_event_def Let_def)
qed

lemma encwn_mark_fault_stops:
  assumes "encwn_inv w"
  shows "\<not> subwn_is_accepting (ew_ledger (fold encwn_step ops (encwn_mark_fault w)))"
proof -
  obtain ls where "ew_ledger (fold encwn_step ops (encwn_mark_fault w)) =
      fold subwn_step ls (ew_ledger (encwn_mark_fault w))"
    using encwn_run_ledger [OF encwn_mark_fault_inv [OF assms]] by blast
  moreover have "subwn_stopped (ew_ledger (encwn_mark_fault w))"
    by (simp add: encwn_mark_fault_def subwn_mark_fault_def subwn_stopped_def)
  ultimately have "subwn_stopped (ew_ledger (fold encwn_step ops (encwn_mark_fault w)))"
    using subwn_stop.run_latched [OF encwn_invD(1) [OF encwn_mark_fault_inv [OF assms]]] by simp
  then show ?thesis by (auto simp: subwn_stopped_def subwn_is_accepting_def)
qed

section \<open>Properties\<close>

definition demo_encoder_config :: encoder_window_config where
  "demo_encoder_config = \<lparr>ewc_submission = demo_config, ewc_camera_id = 1, ewc_channel_id = 2,
     ewc_geometry = \<lparr>geo_width = 4, geo_height = 2\<rparr>, ewc_max_input_bytes = 30\<rparr>"

definition demo_frame :: preview_frame_key where
  "demo_frame = \<lparr>fk_camera_id = 1, fk_channel_id = 2, fk_source_epoch = 3, fk_frame_id = 10,
     fk_source_pts_ns = 100\<rparr>"

definition demo_token :: submission_token where
  "demo_token = \<lparr>tok_cycle_id = 7, tok_job_id = 1\<rparr>"

text \<open>A configured window with one committed job.\<close>

definition demo_encoder :: encoder_window where
  "demo_encoder = fold encwn_step [Ew_configure demo_encoder_config, Ew_reserve demo_frame True 5,
     Ew_commit demo_token] encwn_initial"

lemma demo_encoder_inv: "encwn_inv demo_encoder"
  by (simp only: demo_encoder_def encwn.run_inv encwn_inv_initial)

text \<open>
  C7. The window's own table and its ledger never disagree: after any calls both find the
  same slot for every token, the reserved bytes are exactly one packed surface per
  outstanding job, and they stay within the configured budget, which is within the pool.
\<close>

theorem encwn_tables_agree:
  "let w = fold encwn_step ops encwn_initial in
     encwn_inv w \<and>
     encwn_find t w = subwn_find_slot t (ew_ledger w) \<and>
     unat (encwn_reserved_bytes w) = encwn_outstanding w * unat (ew_surface_bytes w) \<and>
     encwn_reserved_bytes w \<le> ewc_max_input_bytes (ew_config w) \<and>
     ewc_max_input_bytes (ew_config w) \<le> pv_max_pool_bytes"
proof -
  have inv: "encwn_inv (fold encwn_step ops encwn_initial)"
    by (rule encwn.run_inv [OF encwn_inv_initial])
  show ?thesis
    using encwn_find_eq [OF inv, of t] encwn_invD(4) [OF inv] inv
    by (simp add: Let_def encwn_reserved_bytes_def budget_ok_def)
qed

text \<open>
  Refinement: on the phase of each job, the encoder window's \<open>commit\<close>,
  \<open>cancel_reserved\<close> and completions are the operations of the same abstract life cycle as
  the ledger's, in the returned status and in the new state.
\<close>

lemma encwn_refines_life_cycle:
  assumes "encwn_inv w" and "current_token t (ew_ledger w)"
  shows "let p = encwn_phase w (tok_job_id t); set_phase = (\<lambda>q. (encwn_phase w)(tok_job_id t := q));
      accepting = subwn_is_accepting (ew_ledger w) in
    fst (encwn_commit t w) = fst (spec_commit accepting p) \<and>
    encwn_phase (snd (encwn_commit t w)) = set_phase (snd (spec_commit accepting p)) \<and>
    fst (encwn_cancel_reserved t w) = fst (spec_cancel p) \<and>
    encwn_phase (snd (encwn_cancel_reserved t w)) = set_phase (snd (spec_cancel p)) \<and>
    fst (encwn_complete t b w) = fst (spec_complete b p) \<and>
    encwn_phase (snd (encwn_complete t b w)) = set_phase (snd (spec_complete b p))"
  using subwn_commit_refines [OF encwn_invD(1) [OF assms(1)] assms(2)]
    subwn_cancel_refines [OF encwn_invD(1) [OF assms(1)] assms(2)]
    subwn_complete_refines [OF encwn_invD(1) [OF assms(1)] assms(2), of b]
  by (simp add: Let_def encwn_phase_def encwn_commit_status [OF assms(1)]
      encwn_cancel_status [OF assms(1)] encwn_complete_status [OF assms(1)])

theorem encwn_refines_life_cycle_witness:
  "encwn_phase demo_encoder 1 = Running False False \<and>
   encwn_phase (snd (encwn_complete demo_token False demo_encoder)) 1 = Running False True"
proof -
  have p: "encwn_phase demo_encoder 1 = Running False False"
    and cur: "current_token demo_token (ew_ledger demo_encoder)"
    and j: "tok_job_id demo_token = 1" by code_simp+
  show ?thesis
    using encwn_refines_life_cycle [OF demo_encoder_inv cur, of False] p j by (simp add: Let_def)
qed

text \<open>
  A job's input is handed to the encoder at most once: after a successful
  \<open>begin_submission\<close>, and any further calls, both ways of submitting the same token are
  refused, and the refusal changes nothing.
\<close>

lemma encwn_single_submission:
  assumes "encwn_inv w" and "encwn_begin_submission t w = (Ok, w1)"
  shows "let w' = fold encwn_step ops w1 in
    encwn_begin_submission t w' = (Invalid_state, w') \<and>
    fst (encwn_begin_input (input\<lparr>ei_ticket := (ei_ticket input)\<lparr>tk_token := t\<rparr>\<rparr>) g w') \<noteq> Ok"
proof -
  obtain i where i: "encwn_find t w = Some i"
      "w1 = encwn_set_entry i ((ew_entries w ! i)\<lparr>en_submission_attempted := True\<rparr>) w"
    using assms(2) by (auto simp: encwn_begin_submission_def Let_def split: option.splits if_splits)
  note f = encwn_find_Some [OF assms(1) i(1)] and v = encwn_invD [OF assms(1)]
  have inv1: "encwn_inv w1" using encwn_begin_submission_inv [OF assms(1), of t] assms(2) by simp
  have "tok_job_id t < sw_next_job_id (ew_ledger w)"
    using subwn_live_below [OF v(1), of "tok_job_id t"] subwn_find_slot_phase [OF v(1) f(2)] by simp
  moreover have "attempted w1 (tok_job_id t)"
    using find_length [OF assms(1) i(1)] f(5)
    by (auto simp: attempted_def i(2) encwn_set_entry_def list_ex_length nth_list_update)
  ultimately have "spent (tok_job_id t) w1"
    using f(4) by (simp add: spent_def i(2) encwn_set_entry_def)
  from encwn_spent.run_latched [OF inv1 this, of ops]
  have sp: "spent (tok_job_id t) (fold encwn_step ops w1)" .
  let ?w = "fold encwn_step ops w1"
  have inv: "encwn_inv ?w" by (rule encwn.run_inv [OF inv1])
  have ref: "encwn_begin_submission t ?w = (Invalid_state, ?w)"
  proof (cases "encwn_find t ?w")
    case (Some k)
    note g = encwn_find_Some [OF inv Some]
    have "encwn_phase ?w (tok_job_id t) \<noteq> Absent"
      using subwn_find_slot_phase [OF encwn_invD(1) [OF inv] g(2)] by (simp add: encwn_phase_def)
    then obtain k' where k': "k' < g_max_jobs" "tok_job_id (en_token (ew_entries ?w ! k')) = tok_job_id t"
        "en_submission_attempted (ew_entries ?w ! k')"
      using sp lockstep_length [OF encwn_invD(3) [OF inv]] by (auto simp: spent_def attempted_def list_ex_length)
    have "k' = k"
      using subwn_inv_distinct [OF encwn_invD(1) [OF inv] k'(1) g(1)] k'(2) g(3,4)
        lock_entry_job [OF lockstep_entry [OF encwn_invD(3) [OF inv] k'(1)]] by simp
    then show ?thesis using k' Some by (simp add: encwn_begin_submission_def Let_def)
  qed (simp add: encwn_begin_submission_def)
  then show ?thesis
    by (auto simp: Let_def encwn_begin_input_def split: option.split)
qed

theorem encwn_single_submission_witness:
  "let w1 = snd (encwn_begin_submission demo_token demo_encoder);
       w' = fold encwn_step [Ew_complete_input demo_token, Ew_check_deadlines 6] w1
   in fst (encwn_begin_submission demo_token demo_encoder) = Ok \<and>
      encwn_begin_submission demo_token w' = (Invalid_state, w')"
proof -
  have "fst (encwn_begin_submission demo_token demo_encoder) = Ok" by code_simp
  note ok = ok_pair [OF this] this
  show ?thesis
    using encwn_single_submission [OF demo_encoder_inv ok(1),
        of "[Ew_complete_input demo_token, Ew_check_deadlines 6]"] ok(2)
    unfolding Let_def by blast
qed

text \<open>
  Backend events fail closed. Applying an event returns the verdict of its validation,
  or the failure it reports, and is never refused by the ledger after it passed validation.
  Whenever the result is not ok, every job, byte and entry is kept and the window never
  accepts another reservation or commit.
\<close>

lemma encwn_event_fails_closed:
  assumes "encwn_inv w"
  shows "let valid = encwn_validate_event ev w; result = encwn_apply_event ev w in
    fst result = (if valid \<noteq> Ok then valid else if ev_kind ev = Fault then ev_detail ev else Ok) \<and>
    (if fst result = Ok then True
     else ew_entries (snd result) = ew_entries w \<and>
       ew_reserved_bytes (snd result) = ew_reserved_bytes w \<and>
       sw_slots (ew_ledger (snd result)) = sw_slots (ew_ledger w) \<and>
       \<not> subwn_is_accepting (ew_ledger (fold encwn_step ops (snd result))))"
proof -
  have ok: "fst (encwn_complete (ev_token ev) (ev_kind ev = Input_complete) w) = Ok"
    if "encwn_validate_event ev w = Ok" "ev_kind ev \<noteq> Fault"
    by (rule encwn_valid_completion(1) [OF assms that])
  have keep: "ew_entries (encwn_mark_fault w) = ew_entries w"
    "ew_reserved_bytes (encwn_mark_fault w) = ew_reserved_bytes w"
    "sw_slots (ew_ledger (encwn_mark_fault w)) = sw_slots (ew_ledger w)"
    by (simp_all add: encwn_mark_fault_def subwn_mark_fault_def)
  show ?thesis
    using encwn_mark_fault_stops [OF assms, of ops] keep ok
    by (simp add: Let_def encwn_apply_event_eq [OF assms])
qed

definition demo_duplicate :: encoder_event where
  "demo_duplicate = \<lparr>ev_kind = Input_complete, ev_token = demo_token, ev_output = None,
     ev_detail = Ok\<rparr>"

theorem encwn_event_fails_closed_witness:
  "let w = snd (encwn_apply_event demo_duplicate demo_encoder) in
   fst (encwn_apply_event demo_duplicate demo_encoder) = Ok \<and>
   fst (encwn_apply_event demo_duplicate w) = Invalid_state \<and>
   \<not> subwn_is_accepting (ew_ledger (fold encwn_step [Ew_commit demo_token]
      (snd (encwn_apply_event demo_duplicate w))))"
proof -
  let ?w = "snd (encwn_apply_event demo_duplicate demo_encoder)"
  have inv: "encwn_inv ?w" by (rule encwn_apply_event_inv [OF demo_encoder_inv])
  have r: "fst (encwn_apply_event demo_duplicate demo_encoder) = Ok"
    "fst (encwn_apply_event demo_duplicate ?w) = Invalid_state" by code_simp+
  show ?thesis
    using encwn_event_fails_closed [OF inv, of demo_duplicate "[Ew_commit demo_token]"] r
    unfolding Let_def by simp
qed

end
