(* ===== verification/Identifiers.thy ===== *)
theory Identifiers
  imports Prelude
begin

text \<open>
  The shared checks of contracts/vqec_vision_identifier.hpp: bounded ASCII identifiers and
  lowercase SHA-256 digests. A \<open>std::string\<close> is the list of its bytes.
\<close>

definition ident_char :: "char \<Rightarrow> bool" where
  "ident_char c \<longleftrightarrow>
     (let character = of_char c :: nat;
          is_alphanumeric = (97 \<le> character \<and> character \<le> 122) \<or>
            (65 \<le> character \<and> character \<le> 90) \<or> (48 \<le> character \<and> character \<le> 57)
      in is_alphanumeric \<or> c = CHR ''_'' \<or> c = CHR ''-'' \<or> c = CHR ''.'' \<or> c = CHR '':'')"

definition ident_is_valid :: "string \<Rightarrow> nat \<Rightarrow> bool" where
  "ident_is_valid s max_bytes \<longleftrightarrow> s \<noteq> [] \<and> length s \<le> max_bytes \<and> list_all ident_char s"

definition ident_is_sha256_hex :: "string \<Rightarrow> bool" where
  "ident_is_sha256_hex s \<longleftrightarrow>
     length s = 64 \<and> list_all (\<lambda>c. c \<in> set ''0123456789abcdef'') s"

lemma ident_valid_not_empty: "ident_is_valid s n \<Longrightarrow> s \<noteq> []"
  by (simp add: ident_is_valid_def)

lemma ident_valid_mono: "ident_is_valid s n \<Longrightarrow> n \<le> m \<Longrightarrow> ident_is_valid s m"
  by (simp add: ident_is_valid_def)

text \<open>A digest is an identifier, so the two checks never disagree on one.\<close>

lemma sha256_is_identifier:
  assumes "ident_is_sha256_hex s"
  shows "ident_is_valid s 64"
proof -
  have "ident_char c" if "c \<in> set ''0123456789abcdef''" for c
    using that by (auto simp: ident_char_def)
  moreover have "length s = 64" and "\<forall>c \<in> set s. c \<in> set ''0123456789abcdef''"
    using assms unfolding ident_is_sha256_hex_def list_all_iff by blast+
  ultimately have "list_all ident_char s" unfolding list_all_iff by blast
  moreover have "s \<noteq> []" using \<open>length s = 64\<close> by auto
  ultimately show ?thesis using \<open>length s = 64\<close> by (simp add: ident_is_valid_def)
qed

text \<open>No accepted character is a path separator, a space or a control character.\<close>

lemma ident_no_separator:
  "ident_is_valid s n \<Longrightarrow> CHR ''/'' \<notin> set s \<and> CHR 0x20 \<notin> set s \<and> CHR 0x00 \<notin> set s"
  by (auto simp: ident_is_valid_def list_all_iff ident_char_def)

end
