(* ===== verification/Output_Gate.thy ===== *)
theory Output_Gate
  imports Identifiers
begin

text \<open>
  The output policy gate (contracts/vqec_vision_output_gate.hpp, core/vqec_vision_output_gate.cpp,
  prefix \<open>otgat\<close>) and the output generation counter (core/vqec_vision_output_generation.cpp,
  prefix \<open>otgen\<close>).

  The gate decides, immediately before delivery, whether a rendered output is licensed:
  for its source, its feature and every attribute it shows, under the policy revision it
  was prepared with, inside the policy's validity interval, on a clock that never moved
  backwards.
\<close>

section \<open>The gate\<close>

definition otgat_max_identifier_bytes :: nat where "otgat_max_identifier_bytes = 128"
definition otgat_max_attributes_per_scope :: nat where "otgat_max_attributes_per_scope = 64"
definition otgat_max_policy_rules :: nat where "otgat_max_policy_rules = 64"

record output_scope_rule =
  rule_source_id :: string
  rule_feature_id :: string
  rule_attributes :: "string list"

record output_policy =
  pol_revision :: u64
  pol_not_before_ns :: u64
  pol_expires_ns :: u64
  pol_rules :: "output_scope_rule list"

record output_authorization =
  auth_policy_revision :: u64
  auth_source_id :: string
  auth_feature_id :: string
  auth_attributes :: "string list"

record output_gate =
  og_policy :: output_policy
  og_last_now_ns :: u64
  og_is_active :: bool

definition otgat_initial :: output_gate where
  "otgat_initial = \<lparr>og_policy = \<lparr>pol_revision = 0, pol_not_before_ns = 0, pol_expires_ns = 0,
     pol_rules = []\<rparr>, og_last_now_ns = 0, og_is_active = False\<rparr>"

definition otgat_is_identifier :: "string \<Rightarrow> bool" where
  "otgat_is_identifier s = ident_is_valid s otgat_max_identifier_bytes"

fun otgat_attributes_from :: "string list \<Rightarrow> string list \<Rightarrow> bool" where
  "otgat_attributes_from seen [] = True"
| "otgat_attributes_from seen (a # as) =
     (if \<not> otgat_is_identifier a then False
      else if a \<in> set seen then False
      else otgat_attributes_from (seen @ [a]) as)"

definition otgat_are_attributes_valid :: "string list \<Rightarrow> bool" where
  "otgat_are_attributes_valid attributes =
     (if length attributes > otgat_max_attributes_per_scope then False
      else otgat_attributes_from [] attributes)"

definition same_scope :: "output_scope_rule \<Rightarrow> output_scope_rule \<Rightarrow> bool" where
  "same_scope r q \<longleftrightarrow>
     rule_source_id r = rule_source_id q \<and> rule_feature_id r = rule_feature_id q"

definition otgat_check_rule :: "output_scope_rule list \<Rightarrow> output_scope_rule \<Rightarrow> status" where
  "otgat_check_rule previous rule =
     (if \<not> otgat_is_identifier (rule_source_id rule) \<or>
         \<not> otgat_is_identifier (rule_feature_id rule) \<or>
         \<not> otgat_are_attributes_valid (rule_attributes rule) then Invalid_argument
      else if list_ex (same_scope rule) previous then Invalid_argument
      else Ok)"

definition otgat_apply_policy ::
    "output_policy \<Rightarrow> u64 \<Rightarrow> output_gate \<Rightarrow> status \<times> output_gate" where
  "otgat_apply_policy policy expected_revision g =
     (if expected_revision \<noteq> pol_revision (og_policy g) \<or>
         pol_revision policy \<le> pol_revision (og_policy g) then (Invalid_state, g)
      else if pol_revision policy = UINT64_MAX \<or>
          pol_not_before_ns policy \<ge> pol_expires_ns policy \<or>
          pol_expires_ns policy = UINT64_MAX \<or>
          length (pol_rules policy) > otgat_max_policy_rules then (Invalid_argument, g)
      else
        (let valid = validate_items otgat_check_rule [] (pol_rules policy)
         in if valid \<noteq> Ok then (valid, g)
            else (Ok, g\<lparr>og_policy := policy, og_is_active := True\<rparr>)))"

definition otgat_authorize ::
    "output_authorization \<Rightarrow> u64 \<Rightarrow> output_gate \<Rightarrow> status \<times> output_gate" where
  "otgat_authorize request steady_now_ns g =
     (if steady_now_ns = UINT64_MAX \<or> steady_now_ns < og_last_now_ns g
        then (Unauthorized, g\<lparr>og_is_active := False\<rparr>)
      else
        (let g' = g\<lparr>og_last_now_ns := steady_now_ns\<rparr>; policy = og_policy g in
         if \<not> og_is_active g \<or> auth_policy_revision request \<noteq> pol_revision policy \<or>
            steady_now_ns < pol_not_before_ns policy \<or> steady_now_ns \<ge> pol_expires_ns policy
           then (Unauthorized, g')
         else if \<not> otgat_is_identifier (auth_source_id request) \<or>
             \<not> otgat_is_identifier (auth_feature_id request) \<or>
             \<not> otgat_are_attributes_valid (auth_attributes request)
           then (Invalid_argument, g')
         else
           (case find (\<lambda>rule. rule_source_id rule = auth_source_id request \<and>
                              rule_feature_id rule = auth_feature_id request)
                   (pol_rules policy) of
              None \<Rightarrow> (Unauthorized, g')
            | Some rule \<Rightarrow>
                if list_all (\<lambda>a. a \<in> set (rule_attributes rule)) (auth_attributes request)
                then (Ok, g') else (Unauthorized, g'))))"

definition otgat_invalidate :: "output_gate \<Rightarrow> output_gate" where
  "otgat_invalidate g = g\<lparr>og_is_active := False\<rparr>"

definition otgat_get_revision :: "output_gate \<Rightarrow> u64" where
  "otgat_get_revision g = pol_revision (og_policy g)"

datatype otgat_op =
    Og_apply_policy output_policy u64
  | Og_authorize output_authorization u64
  | Og_invalidate

fun otgat_step :: "otgat_op \<Rightarrow> output_gate \<Rightarrow> output_gate" where
  "otgat_step (Og_apply_policy p e) g = snd (otgat_apply_policy p e g)"
| "otgat_step (Og_authorize r n) g = snd (otgat_authorize r n g)"
| "otgat_step Og_invalidate g = otgat_invalidate g"

section \<open>Declarative reading of the checks\<close>

lemma otgat_attributes_from_iff:
  "otgat_attributes_from seen as \<longleftrightarrow>
     list_all otgat_is_identifier as \<and> distinct as \<and> set seen \<inter> set as = {}"
  by (induction as arbitrary: seen) auto

definition scope_wf :: "string \<Rightarrow> string \<Rightarrow> string list \<Rightarrow> bool" where
  "scope_wf source feature attributes \<longleftrightarrow>
     otgat_is_identifier source \<and> otgat_is_identifier feature \<and>
     length attributes \<le> otgat_max_attributes_per_scope \<and>
     list_all otgat_is_identifier attributes \<and> distinct attributes"

lemma otgat_scope_wf:
  "otgat_is_identifier s \<and> otgat_is_identifier f \<and> otgat_are_attributes_valid as \<longleftrightarrow>
     scope_wf s f as"
  by (auto simp: scope_wf_def otgat_are_attributes_valid_def otgat_attributes_from_iff)

definition policy_wf :: "output_policy \<Rightarrow> bool" where
  "policy_wf p \<longleftrightarrow>
     pol_not_before_ns p < pol_expires_ns p \<and> pol_expires_ns p \<noteq> UINT64_MAX \<and>
     pol_revision p \<noteq> UINT64_MAX \<and> length (pol_rules p) \<le> otgat_max_policy_rules \<and>
     (\<forall>r \<in> set (pol_rules p). scope_wf (rule_source_id r) (rule_feature_id r) (rule_attributes r)) \<and>
     distinct (map (\<lambda>r. (rule_source_id r, rule_feature_id r)) (pol_rules p))"

lemma otgat_check_rule_Ok:
  "otgat_check_rule previous r = Ok \<longleftrightarrow>
     scope_wf (rule_source_id r) (rule_feature_id r) (rule_attributes r) \<and>
     (\<forall>q \<in> set previous. (rule_source_id q, rule_feature_id q) \<noteq> (rule_source_id r, rule_feature_id r))"
  by (auto simp: otgat_check_rule_def same_scope_def list_ex_iff simp flip: otgat_scope_wf)

lemma otgat_apply_policy_Ok:
  "fst (otgat_apply_policy p e g) = Ok \<longleftrightarrow>
     e = pol_revision (og_policy g) \<and> pol_revision (og_policy g) < pol_revision p \<and> policy_wf p"
proof -
  have "validate_items otgat_check_rule [] (pol_rules p) = Ok \<longleftrightarrow>
      (\<forall>r \<in> set (pol_rules p). scope_wf (rule_source_id r) (rule_feature_id r) (rule_attributes r)) \<and>
      distinct (map (\<lambda>r. (rule_source_id r, rule_feature_id r)) (pol_rules p))"
    by (rule validate_distinct_Ok) (rule otgat_check_rule_Ok)
  then show ?thesis
    by (auto simp: otgat_apply_policy_def policy_wf_def Let_def not_le)
qed

lemma otgat_apply_policy_state:
  "snd (otgat_apply_policy p e g) =
     (if fst (otgat_apply_policy p e g) = Ok then g\<lparr>og_policy := p, og_is_active := True\<rparr> else g)"
  by (auto simp: otgat_apply_policy_def Let_def)

section \<open>Invariant\<close>

definition otgat_inv :: "output_gate \<Rightarrow> bool" where
  "otgat_inv g \<longleftrightarrow> policy_wf (og_policy g) \<or> (\<not> og_is_active g \<and> og_policy g = og_policy otgat_initial)"

lemma otgat_authorize_state:
  "og_policy (snd (otgat_authorize r n g)) = og_policy g \<and>
   (og_is_active (snd (otgat_authorize r n g)) \<longrightarrow> og_is_active g)"
  by (auto simp: otgat_authorize_def Let_def split: option.splits)

lemma otgat_step_inv: "otgat_inv g \<Longrightarrow> otgat_inv (otgat_step a g)"
  using otgat_authorize_state
  by (cases a) (auto simp: otgat_inv_def otgat_apply_policy_state otgat_apply_policy_Ok
      otgat_invalidate_def)

interpretation otgat: step_system otgat_step otgat_inv
  by unfold_locales (rule otgat_step_inv)

lemma otgat_inv_initial: "otgat_inv otgat_initial"
  by (simp add: otgat_inv_def otgat_initial_def)

lemma otgat_run_inv: "otgat_inv (fold otgat_step ops otgat_initial)"
  by (rule otgat.run_inv [OF otgat_inv_initial])

text \<open>With one rule per source and feature, the first matching rule is the only one.\<close>

lemma policy_find:
  assumes "policy_wf p"
  shows "find (\<lambda>r. rule_source_id r = s \<and> rule_feature_id r = f) (pol_rules p) = Some q \<longleftrightarrow>
    q \<in> set (pol_rules p) \<and> rule_source_id q = s \<and> rule_feature_id q = f"
    (is "find ?P ?rs = _ \<longleftrightarrow> _")
proof
  assume "find ?P ?rs = Some q"
  then show "q \<in> set ?rs \<and> rule_source_id q = s \<and> rule_feature_id q = f"
    by (auto simp: find_Some_iff)
next
  assume q: "q \<in> set ?rs \<and> rule_source_id q = s \<and> rule_feature_id q = f"
  have d: "distinct (map (\<lambda>r. (rule_source_id r, rule_feature_id r)) ?rs)"
    using assms by (simp add: policy_wf_def)
  obtain q' where q': "find ?P ?rs = Some q'"
    using q by (cases "find ?P ?rs") (auto simp: find_None_iff)
  then have "q' \<in> set ?rs" "rule_source_id q' = s" "rule_feature_id q' = f"
    by (auto simp: find_Some_iff)
  with q d have "q' = q" by (auto simp: distinct_map inj_on_def)
  with q' show "find ?P ?rs = Some q" by simp
qed

text \<open>What a delivery needs: an active, current policy that entitles every attribute shown.\<close>

definition entitled :: "output_policy \<Rightarrow> output_authorization \<Rightarrow> u64 \<Rightarrow> bool" where
  "entitled p r now \<longleftrightarrow>
     auth_policy_revision r = pol_revision p \<and>
     pol_not_before_ns p \<le> now \<and> now < pol_expires_ns p \<and>
     scope_wf (auth_source_id r) (auth_feature_id r) (auth_attributes r) \<and>
     (\<exists>q \<in> set (pol_rules p). rule_source_id q = auth_source_id r \<and>
        rule_feature_id q = auth_feature_id r \<and>
        set (auth_attributes r) \<subseteq> set (rule_attributes q))"

lemma otgat_authorize_Ok:
  assumes "otgat_inv g"
  shows "fst (otgat_authorize r now g) = Ok \<longleftrightarrow>
    now \<noteq> UINT64_MAX \<and> og_last_now_ns g \<le> now \<and> og_is_active g \<and> entitled (og_policy g) r now"
proof (cases "og_is_active g")
  case False
  then show ?thesis by (simp add: otgat_authorize_def Let_def)
next
  case True
  with assms have wf: "policy_wf (og_policy g)" by (auto simp: otgat_inv_def)
  show ?thesis
  proof (cases "find (\<lambda>q. rule_source_id q = auth_source_id r \<and>
      rule_feature_id q = auth_feature_id r) (pol_rules (og_policy g))")
    case None
    then have "\<not> entitled (og_policy g) r now" by (auto simp: entitled_def find_None_iff)
    with None show ?thesis by (simp add: otgat_authorize_def Let_def)
  next
    case (Some q)
    note q = Some [unfolded policy_find [OF wf]]
    have only: "q' = q" if "q' \<in> set (pol_rules (og_policy g))"
        "rule_source_id q' = auth_source_id r" "rule_feature_id q' = auth_feature_id r" for q'
      using policy_find [OF wf, of "auth_source_id r" "auth_feature_id r" q'] Some that by auto
    have "entitled (og_policy g) r now \<longleftrightarrow>
      auth_policy_revision r = pol_revision (og_policy g) \<and>
      pol_not_before_ns (og_policy g) \<le> now \<and> now < pol_expires_ns (og_policy g) \<and>
      scope_wf (auth_source_id r) (auth_feature_id r) (auth_attributes r) \<and>
      set (auth_attributes r) \<subseteq> set (rule_attributes q)"
      unfolding entitled_def using q only by blast
    with Some True show ?thesis
      by (auto simp: otgat_authorize_def Let_def list_all_iff not_less not_le
          simp flip: otgat_scope_wf)
  qed
qed

text \<open>The policy in force was applied in this run.\<close>

lemma otgat_policy_origin:
  "og_is_active (fold otgat_step ops otgat_initial) \<Longrightarrow>
     \<exists>e. Og_apply_policy (og_policy (fold otgat_step ops otgat_initial)) e \<in> set ops"
proof (induction ops rule: rev_induct)
  case Nil
  then show ?case by (simp add: otgat_initial_def)
next
  case (snoc a ops)
  let ?g = "fold otgat_step ops otgat_initial"
  show ?case
  proof (cases a)
    case (Og_apply_policy p e)
    with snoc show ?thesis by (auto simp: otgat_apply_policy_state split: if_splits)
  next
    case (Og_authorize r n)
    with snoc otgat_authorize_state [of r n ?g] show ?thesis by auto
  next
    case Og_invalidate
    with snoc.prems show ?thesis by (simp add: otgat_invalidate_def)
  qed
qed

text \<open>Without a successful policy update an inactive gate stays inactive.\<close>

definition no_update :: "otgat_op list \<Rightarrow> bool" where
  "no_update ops \<longleftrightarrow> list_all (\<lambda>a. case a of Og_apply_policy p e \<Rightarrow> False | _ \<Rightarrow> True) ops"

lemma otgat_inactive_stays:
  "no_update ops \<Longrightarrow> \<not> og_is_active g \<Longrightarrow> \<not> og_is_active (fold otgat_step ops g)"
proof (induction ops arbitrary: g)
  case Nil
  then show ?case by simp
next
  case (Cons a ops)
  then have "\<not> og_is_active (otgat_step a g)"
    using otgat_authorize_state by (cases a) (auto simp: no_update_def otgat_invalidate_def)
  with Cons show ?case by (simp add: no_update_def)
qed

lemma otgat_revision_mono:
  "pol_revision (og_policy g) \<le> pol_revision (og_policy (fold otgat_step ops g))"
proof (induction ops arbitrary: g)
  case Nil
  show ?case by simp
next
  case (Cons a ops)
  have "pol_revision (og_policy g) \<le> pol_revision (og_policy (otgat_step a g))"
    using otgat_authorize_state
    by (cases a) (auto simp: otgat_apply_policy_state otgat_apply_policy_Ok otgat_invalidate_def)
  also have "\<dots> \<le> pol_revision (og_policy (fold otgat_step ops (otgat_step a g)))"
    by (rule Cons.IH)
  finally show ?case by simp
qed

section \<open>The generation counter\<close>

text \<open>The state is the watermark; the reference parameter is passed in and returned.\<close>

definition otgen_issue :: "u64 \<Rightarrow> u64 \<Rightarrow> status \<times> u64 \<times> u64" where
  "otgen_issue issued_watermark generation =
     (if issued_watermark = UINT64_MAX then (Resource_exhausted, issued_watermark, generation)
      else (Ok, issued_watermark + 1, issued_watermark + 1))"

text \<open>The ids that \<open>n\<close> calls hand out, and the watermark they leave.\<close>

fun otgen_issue_many :: "nat \<Rightarrow> u64 \<Rightarrow> u64 list \<times> u64" where
  "otgen_issue_many 0 w = ([], w)"
| "otgen_issue_many (Suc n) w =
     (case otgen_issue w 0 of
        (st, w', g) \<Rightarrow>
          (case otgen_issue_many n w' of
             (ids, w'') \<Rightarrow> (if st = Ok then g # ids else ids, w'')))"

lemma otgen_issue_many_sorted:
  "sorted_wrt (<) (fst (otgen_issue_many n w)) \<and>
   (\<forall>g \<in> set (fst (otgen_issue_many n w)). w < g) \<and> w \<le> snd (otgen_issue_many n w)"
proof (induction n arbitrary: w)
  case 0
  show ?case by simp
next
  case (Suc n)
  show ?case
  proof (cases "w = UINT64_MAX")
    case True
    then show ?thesis using Suc [of w] by (auto simp: otgen_issue_def split: prod.splits)
  next
    case False
    have lt: "w < w + 1" using False by (rule word_less_Suc)
    obtain ids w'' where r: "otgen_issue_many n (w + 1) = (ids, w'')" by force
    with Suc [of "w + 1"] have "sorted_wrt (<) ids" "\<forall>g \<in> set ids. w + 1 < g" "w + 1 \<le> w''"
      by auto
    with lt False r show ?thesis by (auto simp: otgen_issue_def)
  qed
qed

section \<open>Properties\<close>

text \<open>
  C5. The gate decides exactly the licence question. After any history of policy updates,
  authorizations and invalidations, a delivery is authorized if and only if the clock is
  valid and has not moved backwards, the gate is active, the request names the policy
  revision in force, the time lies in the policy's validity interval, the request is well
  formed, and one rule of the policy entitles its source and feature with every attribute.
\<close>

theorem otgat_authorize_decides_entitlement:
  "let g = fold otgat_step ops otgat_initial in
     fst (otgat_authorize r now g) = Ok \<longleftrightarrow>
       now \<noteq> UINT64_MAX \<and> og_last_now_ns g \<le> now \<and> og_is_active g \<and>
       entitled (og_policy g) r now"
  unfolding Let_def by (rule otgat_authorize_Ok [OF otgat_run_inv])

text \<open>
  Nothing is ever delivered without a grant: an authorized delivery shows only
  attributes that a policy entitles, and that policy was itself submitted to the gate
  earlier in the same run.
\<close>

lemma otgat_output_needs_applied_policy:
  assumes "fst (otgat_authorize r now (fold otgat_step ops otgat_initial)) = Ok"
  shows "\<exists>p e. Og_apply_policy p e \<in> set ops \<and> policy_wf p \<and> entitled p r now"
proof -
  let ?g = "fold otgat_step ops otgat_initial"
  from assms have act: "og_is_active ?g" and ent: "entitled (og_policy ?g) r now"
    by (simp_all add: otgat_authorize_Ok [OF otgat_run_inv])
  from act otgat_run_inv [of ops] have "policy_wf (og_policy ?g)" by (auto simp: otgat_inv_def)
  with otgat_policy_origin [OF act] ent show ?thesis by blast
qed

definition demo_policy :: output_policy where
  "demo_policy = \<lparr>pol_revision = 4, pol_not_before_ns = 100, pol_expires_ns = 900,
     pol_rules = [\<lparr>rule_source_id = ''cam-1'', rule_feature_id = ''intrusion'',
       rule_attributes = [''bbox'', ''track'']\<rparr>]\<rparr>"

definition demo_request :: output_authorization where
  "demo_request = \<lparr>auth_policy_revision = 4, auth_source_id = ''cam-1'',
     auth_feature_id = ''intrusion'', auth_attributes = [''bbox'']\<rparr>"

theorem otgat_output_needs_applied_policy_witness:
  "fst (otgat_authorize demo_request 200 (fold otgat_step [Og_apply_policy demo_policy 0]
      otgat_initial)) = Ok \<and>
   (\<exists>p e. Og_apply_policy p e \<in> set [Og_apply_policy demo_policy 0] \<and> policy_wf p \<and>
      entitled p demo_request 200)"
proof -
  have ok: "fst (otgat_authorize demo_request 200 (fold otgat_step [Og_apply_policy demo_policy 0]
      otgat_initial)) = Ok" by code_simp
  from otgat_output_needs_applied_policy [OF ok] ok show ?thesis by blast
qed

text \<open>
  C6. The gate fails closed: a clock that stands at its maximum or moved backwards
  deactivates it, and then every delivery is refused, at every time and for every request,
  until a newer policy is applied.
\<close>

theorem otgat_backward_clock_denies:
  assumes "now = UINT64_MAX \<or> now < og_last_now_ns g" and "no_update ops"
  shows "fst (otgat_authorize r now g) = Unauthorized \<and>
    fst (otgat_authorize r' now' (fold otgat_step ops (snd (otgat_authorize r now g)))) \<noteq> Ok"
proof -
  have "\<not> og_is_active (snd (otgat_authorize r now g))"
    using assms(1) by (auto simp: otgat_authorize_def)
  from otgat_inactive_stays [OF assms(2) this] show ?thesis
    using assms(1) by (auto simp: otgat_authorize_def Let_def)
qed

theorem otgat_backward_clock_denies_witness:
  "let g = fold otgat_step [Og_apply_policy demo_policy 0, Og_authorize demo_request 300]
             otgat_initial
   in 250 < og_last_now_ns g \<and> fst (otgat_authorize demo_request 310 g) = Ok \<and>
      fst (otgat_authorize demo_request 310
        (fold otgat_step [Og_authorize demo_request 305] (snd (otgat_authorize demo_request 250 g)))) \<noteq> Ok"
proof -
  let ?g = "fold otgat_step [Og_apply_policy demo_policy 0, Og_authorize demo_request 300]
             otgat_initial"
  have lt: "250 < og_last_now_ns ?g" and ok: "fst (otgat_authorize demo_request 310 ?g) = Ok"
    and nu: "no_update [Og_authorize demo_request 305]" by code_simp+
  from lt have "(250 :: u64) = UINT64_MAX \<or> 250 < og_last_now_ns ?g" by blast
  from otgat_backward_clock_denies [OF this nu] lt ok show ?thesis unfolding Let_def by blast
qed

text \<open>
  A policy update is atomic and strictly newer: it is accepted exactly when the caller
  knows the revision in force, the new revision is larger and the policy is well formed;
  a refused update leaves the gate as it was; and over any run the revision never
  decreases, so a withdrawn policy can not be replayed.
\<close>

lemma otgat_update_atomic_and_newer:
  "let r = otgat_apply_policy p e g in
     (fst r = Ok \<longleftrightarrow>
        e = otgat_get_revision g \<and> otgat_get_revision g < pol_revision p \<and> policy_wf p) \<and>
     snd r = (if fst r = Ok then g\<lparr>og_policy := p, og_is_active := True\<rparr> else g) \<and>
     otgat_get_revision g \<le> otgat_get_revision (fold otgat_step ops g)"
  unfolding Let_def otgat_get_revision_def
  using otgat_apply_policy_Ok otgat_apply_policy_state otgat_revision_mono by simp

text \<open>
  Output generations are unique: the ids that any number of calls hand out are
  strictly increasing, larger than the watermark they started from (so never zero), and
  the counter stops at its maximum instead of wrapping around.
\<close>

lemma otgen_ids_unique:
  "let (ids, w') = otgen_issue_many n w in
     sorted_wrt (<) ids \<and> distinct ids \<and> 0 \<notin> set ids \<and> w \<le> w' \<and>
     otgen_issue UINT64_MAX g = (Resource_exhausted, UINT64_MAX, g)"
proof -
  obtain ids w' where r: "otgen_issue_many n w = (ids, w')" by force
  with otgen_issue_many_sorted [of n w]
  have "sorted_wrt (<) ids" "\<forall>g \<in> set ids. w < g" "w \<le> w'" by auto
  moreover from this(2) have "0 \<notin> set ids" by auto
  ultimately show ?thesis
    using r by (auto simp: otgen_issue_def strict_sorted_iff)
qed

end
