(* ===== verification/Float_Compare.thy ===== *)
theory Float_Compare
  imports Complex_Main
begin

text \<open>
  Floating-point values that the code stores and compares but does not compute with: a
  finite number, an infinity or a NaN (\<open>-0.0\<close> compares equal to \<open>0.0\<close>, so the sign of
  zero is not kept). The comparisons are those of C++: any comparison with a NaN is false.
  No rounding takes place in what is modelled with this type.
\<close>

datatype fp = Finite rat | Pos_infinity | Neg_infinity | Not_a_number

fun fp_is_finite :: "fp \<Rightarrow> bool" where
  "fp_is_finite (Finite _) = True"
| "fp_is_finite _ = False"

fun fp_le :: "fp \<Rightarrow> fp \<Rightarrow> bool" where
  "fp_le (Finite a) (Finite b) = (a \<le> b)"
| "fp_le Not_a_number _ = False"
| "fp_le _ Not_a_number = False"
| "fp_le Neg_infinity _ = True"
| "fp_le _ Pos_infinity = True"
| "fp_le _ _ = False"

fun fp_eq :: "fp \<Rightarrow> fp \<Rightarrow> bool" where
  "fp_eq Not_a_number _ = False"
| "fp_eq _ Not_a_number = False"
| "fp_eq a b = (a = b)"

definition fp_less :: "fp \<Rightarrow> fp \<Rightarrow> bool" where
  "fp_less a b \<longleftrightarrow> fp_le a b \<and> \<not> fp_eq a b"

text \<open>\<open>std::isfinite(x) && lo <= x && x <= hi\<close>, and its negation as the code writes it.\<close>

definition fp_in_range :: "fp \<Rightarrow> rat \<Rightarrow> rat \<Rightarrow> bool" where
  "fp_in_range x lo hi \<longleftrightarrow> fp_is_finite x \<and> fp_le (Finite lo) x \<and> fp_le x (Finite hi)"

lemma fp_in_range_iff: "fp_in_range x lo hi \<longleftrightarrow> (\<exists>q. x = Finite q \<and> lo \<le> q \<and> q \<le> hi)"
  by (cases x) (auto simp: fp_in_range_def)

lemma fp_positive: "\<not> fp_is_finite x \<or> fp_le x (Finite 0) \<longleftrightarrow> \<not> (\<exists>q > 0. x = Finite q)"
  by (cases x) auto

type_synonym channel_values = "fp \<times> fp \<times> fp"

fun channel_list :: "channel_values \<Rightarrow> fp list" where
  "channel_list (a, b, c) = [a, b, c]"

definition channels_eq :: "channel_values \<Rightarrow> channel_values \<Rightarrow> bool" where
  "channels_eq v w \<longleftrightarrow> list_all2 fp_eq (channel_list v) (channel_list w)"

end
