(* ===== verification/Tensor_Contract.thy ===== *)
theory Tensor_Contract
  imports Prelude Float_Compare
begin

text \<open>
  Tensor metadata: contracts/vqec_vision_tensor_result.hpp,
  contracts/vqec_vision_tensor_contract.hpp and core/vqec_vision_tensor_contract.cpp
  (prefix \<open>tnctr\<close>). A quantization scale is only compared (Float_Compare.thy).
\<close>

section \<open>Data\<close>

datatype tensor_element_type =
    Elem_unknown | Elem_int8 | Elem_uint8 | Elem_int16 | Elem_uint16 | Elem_int32
  | Elem_uint32 | Elem_int64 | Elem_uint64 | Elem_float16 | Elem_float32
  | Unlisted_element_type u32

record tensor_quantization =
  tq_is_quantized :: bool
  tq_scale :: fp
  tq_zero_point :: "32 word"

datatype tensor_layout =
    Layout_unknown | Layout_nhwc | Layout_nchw | Layout_flat | Unlisted_layout u32

record tensor_spec =
  ts_name :: string
  ts_dimensions :: "u32 list"
  ts_dtype :: tensor_element_type
  ts_quantization :: tensor_quantization
  ts_layout :: tensor_layout

definition tnctr_max_outputs :: nat where "tnctr_max_outputs = 16"
definition tnctr_max_output_bytes :: u64 where "tnctr_max_output_bytes = 64 * 1024 * 1024"
definition tnctr_max_name_bytes :: nat where "tnctr_max_name_bytes = 128"
definition tnctr_max_rank :: nat where "tnctr_max_rank = 8"

section \<open>Operations\<close>

fun tnctr_element_size :: "tensor_element_type \<Rightarrow> u64" where
  "tnctr_element_size Elem_int8 = 1"
| "tnctr_element_size Elem_uint8 = 1"
| "tnctr_element_size Elem_int16 = 2"
| "tnctr_element_size Elem_uint16 = 2"
| "tnctr_element_size Elem_float16 = 2"
| "tnctr_element_size Elem_int32 = 4"
| "tnctr_element_size Elem_uint32 = 4"
| "tnctr_element_size Elem_float32 = 4"
| "tnctr_element_size Elem_int64 = 8"
| "tnctr_element_size Elem_uint64 = 8"
| "tnctr_element_size _ = 0"

fun tnctr_element_type_name :: "tensor_element_type \<Rightarrow> string" where
  "tnctr_element_type_name Elem_int8 = ''int8''"
| "tnctr_element_type_name Elem_uint8 = ''uint8''"
| "tnctr_element_type_name Elem_int16 = ''int16''"
| "tnctr_element_type_name Elem_uint16 = ''uint16''"
| "tnctr_element_type_name Elem_int32 = ''int32''"
| "tnctr_element_type_name Elem_uint32 = ''uint32''"
| "tnctr_element_type_name Elem_int64 = ''int64''"
| "tnctr_element_type_name Elem_uint64 = ''uint64''"
| "tnctr_element_type_name Elem_float16 = ''float16''"
| "tnctr_element_type_name Elem_float32 = ''float32''"
| "tnctr_element_type_name _ = ''unknown''"

definition tnctr_element_type_from_name :: "string \<Rightarrow> tensor_element_type" where
  "tnctr_element_type_from_name name =
     (if name = ''int8'' then Elem_int8
      else if name = ''uint8'' then Elem_uint8
      else if name = ''int16'' then Elem_int16
      else if name = ''uint16'' then Elem_uint16
      else if name = ''int32'' then Elem_int32
      else if name = ''uint32'' then Elem_uint32
      else if name = ''int64'' then Elem_int64
      else if name = ''uint64'' then Elem_uint64
      else if name = ''float16'' then Elem_float16
      else if name = ''float32'' then Elem_float32
      else Elem_unknown)"

text \<open>The multiplication loop: \<open>None\<close> is its early \<open>return 0\<close>.\<close>

fun tnctr_elements :: "u64 \<Rightarrow> u32 list \<Rightarrow> u64 option" where
  "tnctr_elements elements [] = Some elements"
| "tnctr_elements elements (d # ds) =
     (if d = 0 \<or> elements > UINT64_MAX div ucast d then None
      else tnctr_elements (elements * ucast d) ds)"

definition tnctr_shape_bytes :: "tensor_spec \<Rightarrow> u64" where
  "tnctr_shape_bytes spec =
     (let element_size = tnctr_element_size (ts_dtype spec)
      in if element_size = 0 \<or> ts_dimensions spec = [] \<or>
            length (ts_dimensions spec) > tnctr_max_rank then 0
         else
           (case tnctr_elements 1 (ts_dimensions spec) of
              None \<Rightarrow> 0
            | Some elements \<Rightarrow>
                if elements > UINT64_MAX div element_size then 0
                else elements * element_size))"

definition tnctr_is_floating :: "tensor_element_type \<Rightarrow> bool" where
  "tnctr_is_floating t \<longleftrightarrow> t = Elem_float16 \<or> t = Elem_float32"

definition tnctr_validate_spec :: "tensor_spec \<Rightarrow> status" where
  "tnctr_validate_spec spec =
     (if ts_name spec = [] \<or> length (ts_name spec) > tnctr_max_name_bytes \<or>
         CHR 0x00 \<in> set (ts_name spec) \<or> ts_dimensions spec = [] \<or>
         length (ts_dimensions spec) > tnctr_max_rank then Invalid_argument
      else if ts_dtype spec = Elem_unknown then Unsupported
      else if tq_is_quantized (ts_quantization spec) \<and> tnctr_is_floating (ts_dtype spec)
        then Invalid_argument
      else if tq_is_quantized (ts_quantization spec) \<and>
          (\<not> fp_is_finite (tq_scale (ts_quantization spec)) \<or>
           fp_le (tq_scale (ts_quantization spec)) (Finite 0)) then Invalid_argument
      else if tnctr_shape_bytes spec = 0 then Invalid_argument
      else Ok)"

text \<open>The loop of \<open>validate_outputs\<close>: the outputs before the current one, and their bytes so far.\<close>

fun tnctr_outputs_from ::
    "u64 \<Rightarrow> tensor_spec list \<Rightarrow> u64 \<Rightarrow> tensor_spec list \<Rightarrow> status \<times> u64" where
  "tnctr_outputs_from max_bytes seen sofar [] = (Ok, sofar)"
| "tnctr_outputs_from max_bytes seen sofar (output # rest) =
     (let valid = tnctr_validate_spec output; bytes = tnctr_shape_bytes output
      in if valid \<noteq> Ok then (valid, sofar)
         else if \<exists>p \<in> set seen. ts_name p = ts_name output then (Invalid_argument, sofar)
         else if bytes > max_bytes then (Invalid_argument, sofar)
         else if bytes > max_bytes - sofar then (Resource_exhausted, sofar)
         else tnctr_outputs_from max_bytes (seen @ [output]) (sofar + bytes) rest)"

definition tnctr_validate_outputs ::
    "tensor_spec list \<Rightarrow> u64 \<Rightarrow> u64 \<Rightarrow> status \<times> u64" where
  "tnctr_validate_outputs outputs max_bytes required =
     (if outputs = [] \<or> length outputs > tnctr_max_outputs \<or> max_bytes = 0 \<or>
         max_bytes > tnctr_max_output_bytes then (Invalid_argument, required)
      else
        (case tnctr_outputs_from max_bytes [] 0 outputs of
           (valid, sofar) \<Rightarrow> if valid \<noteq> Ok then (valid, required) else (Ok, sofar)))"

section \<open>The sizes as numbers\<close>

definition shape_elements :: "tensor_spec \<Rightarrow> nat" where
  "shape_elements spec = prod_list (map unat (ts_dimensions spec))"

text \<open>The exact number of bytes of a packed tensor, with no width limit.\<close>

definition exact_bytes :: "tensor_spec \<Rightarrow> nat" where
  "exact_bytes spec = shape_elements spec * unat (tnctr_element_size (ts_dtype spec))"

lemma tnctr_elements_exact:
  assumes "0 < unat e"
  shows "tnctr_elements e ds =
    (if 0 \<notin> set ds \<and> unat e * prod_list (map unat ds) < 2 ^ 64
     then Some (word_of_nat (unat e * prod_list (map unat ds))) else None)"
  using assms
proof (induction ds arbitrary: e)
  case Nil
  show ?case by simp
next
  case (Cons d ds)
  show ?case
  proof (cases "d = 0")
    case True
    then show ?thesis by simp
  next
    case False
    then have pos: "0 < unat d" by (simp add: unat_gt_0)
    then have nz: "(ucast d :: u64) \<noteq> 0"
      by (metis unat_0 unat_ucast_widen_simps(1) less_irrefl)
    have guard: "e \<le> UINT64_MAX div ucast d \<longleftrightarrow> unat e * unat d < 2 ^ 64"
      using div_guard [OF nz, of e] by simp
    show ?thesis
    proof (cases "unat e * unat d < 2 ^ 64")
      case True
      then have u: "unat (e * ucast d :: u64) = unat e * unat d"
        by (subst unat_mult_exact) simp_all
      have "0 < unat (e * ucast d :: u64)" using u pos Cons.prems by simp
      moreover have "\<not> UINT64_MAX div ucast d < e" using True guard by (simp add: not_less)
      ultimately show ?thesis using Cons.IH False by (simp add: u mult.assoc)
    next
      case big: False
      have "unat e * unat d * prod_list (map unat ds) \<ge> 2 ^ 64" if "0 \<notin> set ds"
      proof -
        have "prod_list (map unat ds) \<noteq> 0" using that by (auto simp: prod_list_zero_iff unat_eq_0)
        then have "unat e * unat d * 1 \<le> unat e * unat d * prod_list (map unat ds)"
          by (intro mult_le_mono2) linarith
        with big show ?thesis by linarith
      qed
      then show ?thesis using big guard False by (auto simp: not_le mult.assoc)
    qed
  qed
qed

definition rank_ok :: "tensor_spec \<Rightarrow> bool" where
  "rank_ok s \<longleftrightarrow> ts_dimensions s \<noteq> [] \<and> length (ts_dimensions s) \<le> tnctr_max_rank"

lemma unat_shape_bytes:
  "unat (tnctr_shape_bytes s) =
     (if rank_ok s \<and> exact_bytes s < 2 ^ 64 then exact_bytes s else 0)"
proof (cases "tnctr_element_size (ts_dtype s) = 0 \<or> \<not> rank_ok s")
  case True
  then show ?thesis
    by (auto simp: tnctr_shape_bytes_def rank_ok_def exact_bytes_def Let_def not_le)
next
  case False
  let ?z = "tnctr_element_size (ts_dtype s)" and ?n = "shape_elements s"
  have z: "?z \<noteq> 0" "0 < unat ?z" and r: "rank_ok s" using False by (auto simp: unat_gt_0)
  have unfold: "tnctr_shape_bytes s = (case tnctr_elements 1 (ts_dimensions s) of None \<Rightarrow> 0
      | Some e \<Rightarrow> if e > UINT64_MAX div ?z then 0 else e * ?z)"
    using z r by (simp add: tnctr_shape_bytes_def Let_def rank_ok_def)
  have ex: "tnctr_elements 1 (ts_dimensions s) =
      (if 0 \<notin> set (ts_dimensions s) \<and> ?n < 2 ^ 64 then Some (word_of_nat ?n) else None)"
    by (subst tnctr_elements_exact) (simp_all add: shape_elements_def)
  show ?thesis
  proof (cases "0 \<in> set (ts_dimensions s)")
    case True
    then have "?n = 0"
      by (auto simp: shape_elements_def prod_list_zero_iff intro!: image_eqI [of _ _ 0])
    then show ?thesis using True ex unfold by (simp add: exact_bytes_def)
  next
    case nz: False
    show ?thesis
    proof (cases "?n < 2 ^ 64")
      case True
      then have u: "unat (word_of_nat ?n :: u64) = ?n" by (simp add: unat_of_nat)
      have g: "word_of_nat ?n \<le> UINT64_MAX div ?z \<longleftrightarrow> exact_bytes s < 2 ^ 64"
        using div_guard [OF z(1), of "word_of_nat ?n"] u by (simp add: exact_bytes_def)
      have "unat (word_of_nat ?n * ?z) = exact_bytes s" if "exact_bytes s < 2 ^ 64"
        using that u by (subst unat_mult_exact) (simp_all add: exact_bytes_def)
      then show ?thesis using True nz ex unfold g r by (simp add: not_le [symmetric])
    next
      case False
      have "?n * 1 \<le> ?n * unat ?z" using z(2) by (intro mult_le_mono2) linarith
      then have "\<not> exact_bytes s < 2 ^ 64" using False unfolding exact_bytes_def by linarith
      then show ?thesis using False nz ex unfold by simp
    qed
  qed
qed

section \<open>What the output validator accepts\<close>

definition spec_wf :: "tensor_spec \<Rightarrow> bool" where
  "spec_wf s \<longleftrightarrow> ts_name s \<noteq> [] \<and> length (ts_name s) \<le> tnctr_max_name_bytes \<and>
     CHR 0x00 \<notin> set (ts_name s) \<and> rank_ok s \<and> 0 < exact_bytes s \<and> exact_bytes s < 2 ^ 64 \<and>
     (tq_is_quantized (ts_quantization s) \<longrightarrow> \<not> tnctr_is_floating (ts_dtype s) \<and>
        (\<exists>q > 0. tq_scale (ts_quantization s) = Finite q))"

lemma shape_bytes_zero: "tnctr_shape_bytes s = 0 \<longleftrightarrow> \<not> (rank_ok s \<and> 0 < exact_bytes s \<and> exact_bytes s < 2 ^ 64)"
  using unat_shape_bytes [of s] by (auto simp: word_unat_eq_iff split: if_splits)

lemma validate_spec_Ok: "tnctr_validate_spec s = Ok \<longleftrightarrow> spec_wf s"
proof -
  have "ts_dtype s \<noteq> Elem_unknown" if "0 < exact_bytes s"
    using that by (auto simp: exact_bytes_def)
  then show ?thesis
    unfolding tnctr_validate_spec_def fp_positive shape_bytes_zero spec_wf_def rank_ok_def
    by auto
qed

definition output_bytes :: "tensor_spec list \<Rightarrow> nat" where
  "output_bytes outputs = sum_list (map exact_bytes outputs)"

lemma outputs_from_Ok:
  assumes "unat sofar \<le> unat max_bytes"
  shows "tnctr_outputs_from max_bytes seen sofar outputs = (Ok, r) \<longleftrightarrow>
    (\<forall>s \<in> set outputs. spec_wf s \<and> ts_name s \<notin> ts_name ` set seen) \<and>
    distinct (map ts_name outputs) \<and>
    unat sofar + output_bytes outputs \<le> unat max_bytes \<and>
    r = sofar + word_of_nat (output_bytes outputs)"
  using assms
proof (induction outputs arbitrary: seen sofar)
  case Nil
  then show ?case by (auto simp: output_bytes_def)
next
  case (Cons s rest)
  let ?b = "tnctr_shape_bytes s"
  show ?case
  proof (cases "spec_wf s \<and> ts_name s \<notin> ts_name ` set seen \<and>
      unat sofar + exact_bytes s \<le> unat max_bytes")
    case False
    have "tnctr_outputs_from max_bytes seen sofar (s # rest) \<noteq> (Ok, r)"
    proof
      assume "tnctr_outputs_from max_bytes seen sofar (s # rest) = (Ok, r)"
      then have ok: "spec_wf s" "ts_name s \<notin> ts_name ` set seen" "\<not> ?b > max_bytes - sofar"
        by (auto simp: Let_def validate_spec_Ok split: if_splits)
      have "unat ?b = exact_bytes s" using ok(1) by (simp add: unat_shape_bytes spec_wf_def)
      with ok False Cons.prems show False
        by (simp add: word_less_nat_alt unat_sub_exact word_le_nat_alt)
    qed
    then show ?thesis using False by (auto simp: output_bytes_def)
  next
    case True
    then have b: "unat ?b = exact_bytes s" by (simp add: unat_shape_bytes spec_wf_def)
    have bw: "?b = word_of_nat (exact_bytes s)" by (simp add: b [symmetric])
    have sum: "unat (sofar + ?b) = unat sofar + exact_bytes s"
      using True b unat_bound [of max_bytes] by (subst unat_add_exact) linarith+
    have new: "\<not> (\<exists>p \<in> set seen. ts_name p = ts_name s)" using True by (metis image_eqI)
    have step: "tnctr_outputs_from max_bytes seen sofar (s # rest) =
        tnctr_outputs_from max_bytes (seen @ [s]) (sofar + ?b) rest"
      using True b Cons.prems new
      by (auto simp: Let_def validate_spec_Ok word_less_nat_alt unat_sub_exact word_le_nat_alt)
    have le: "unat (sofar + ?b) \<le> unat max_bytes" using sum True by simp
    note ih = Cons.IH [OF le, of "seen @ [s]", unfolded sum]
    have "tnctr_outputs_from max_bytes seen sofar (s # rest) = (Ok, r) \<longleftrightarrow>
        (\<forall>x \<in> set rest. spec_wf x \<and> ts_name x \<notin> ts_name ` set (seen @ [s])) \<and>
        distinct (map ts_name rest) \<and>
        unat sofar + exact_bytes s + output_bytes rest \<le> unat max_bytes \<and>
        r = sofar + ?b + word_of_nat (output_bytes rest)"
      using step ih by simp
    then show ?thesis
      unfolding bw using True
      by (auto simp: output_bytes_def add.assoc image_iff simp del: tnctr_outputs_from.simps)
  qed
qed

lemma validate_outputs_Ok:
  "tnctr_validate_outputs outputs max_bytes r0 = (Ok, r) \<longleftrightarrow>
    outputs \<noteq> [] \<and> length outputs \<le> tnctr_max_outputs \<and> 0 < max_bytes \<and>
    max_bytes \<le> tnctr_max_output_bytes \<and> (\<forall>s \<in> set outputs. spec_wf s) \<and>
    distinct (map ts_name outputs) \<and> output_bytes outputs \<le> unat max_bytes \<and>
    r = word_of_nat (output_bytes outputs)"
proof -
  have pos: "0 < max_bytes \<longleftrightarrow> max_bytes \<noteq> 0" by (simp add: word_neq_0_conv)
  have from_Ok: "(case tnctr_outputs_from max_bytes [] 0 outputs of
      (valid, sofar) \<Rightarrow> if valid \<noteq> Ok then (valid, r0) else (Ok, sofar)) = (Ok, r) \<longleftrightarrow>
      tnctr_outputs_from max_bytes [] 0 outputs = (Ok, r)"
    by (auto split: prod.splits)
  show ?thesis
    unfolding tnctr_validate_outputs_def pos if_distrib
    using outputs_from_Ok [of 0 max_bytes "[]" outputs r] from_Ok
    by (auto simp: not_less)
qed

lemma validate_outputs_error:
  "fst (tnctr_validate_outputs outputs max_bytes r0) \<noteq> Ok \<Longrightarrow>
    snd (tnctr_validate_outputs outputs max_bytes r0) = r0"
  by (auto simp: tnctr_validate_outputs_def split: prod.splits if_splits)

section \<open>Properties\<close>

text \<open>
  The packed size of a tensor is exact or zero: the guarded 64-bit loop returns the
  true product of the dimensions and the element size when the rank is supported and the
  product fits in 64 bits, and 0 in every other case (a wrapped size is never returned).
\<close>

lemma tnctr_shape_bytes_exact:
  "unat (tnctr_shape_bytes s) =
     (if ts_dimensions s \<noteq> [] \<and> length (ts_dimensions s) \<le> tnctr_max_rank \<and>
         prod_list (map unat (ts_dimensions s)) * unat (tnctr_element_size (ts_dtype s)) < 2 ^ 64
      then prod_list (map unat (ts_dimensions s)) * unat (tnctr_element_size (ts_dtype s))
      else 0)"
  unfolding unat_shape_bytes rank_ok_def exact_bytes_def shape_elements_def by simp

text \<open>
  The output contract of a model is accepted exactly when it has 1 to 16 well-formed,
  distinctly named tensors whose exact total size is within the byte budget; the reported
  requirement is that total, and a refusal leaves the caller's value alone.
\<close>

lemma tnctr_outputs_exact:
  "(fst (tnctr_validate_outputs outputs max_bytes r0) = Ok) =
     (outputs \<noteq> [] \<and> length outputs \<le> tnctr_max_outputs \<and> 0 < max_bytes \<and>
      max_bytes \<le> tnctr_max_output_bytes \<and> list_all spec_wf outputs \<and>
      distinct (map ts_name outputs) \<and> output_bytes outputs \<le> unat max_bytes) \<and>
   snd (tnctr_validate_outputs outputs max_bytes r0) =
     (if fst (tnctr_validate_outputs outputs max_bytes r0) = Ok
      then word_of_nat (output_bytes outputs) else r0)"
proof (cases "fst (tnctr_validate_outputs outputs max_bytes r0) = Ok")
  case True
  then obtain r where r: "tnctr_validate_outputs outputs max_bytes r0 = (Ok, r)"
    by (metis prod.collapse)
  with validate_outputs_Ok [of outputs max_bytes r0 r] show ?thesis by (simp add: list_all_iff)
next
  case False
  then have "\<not> (outputs \<noteq> [] \<and> length outputs \<le> tnctr_max_outputs \<and> 0 < max_bytes \<and>
      max_bytes \<le> tnctr_max_output_bytes \<and> (\<forall>s \<in> set outputs. spec_wf s) \<and>
      distinct (map ts_name outputs) \<and> output_bytes outputs \<le> unat max_bytes)"
    using validate_outputs_Ok [of outputs max_bytes r0 "word_of_nat (output_bytes outputs)"]
    by auto
  with False validate_outputs_error [OF False] show ?thesis by (auto simp: list_all_iff)
qed

text \<open>
  Element type names round-trip: parsing the printed name of a type gives the type
  back, values outside the enumeration print and parse as unknown, and a name that parses
  to a known type is that type's printed name.
\<close>

lemma tnctr_names_roundtrip:
  "tnctr_element_type_from_name (tnctr_element_type_name t) =
     (case t of Unlisted_element_type _ \<Rightarrow> Elem_unknown | _ \<Rightarrow> t) \<and>
   (tnctr_element_type_from_name n = Elem_unknown \<or>
    tnctr_element_type_name (tnctr_element_type_from_name n) = n)"
  by (cases t) (simp_all add: tnctr_element_type_from_name_def)

end
