(* ===== verification/Inference_Execution.thy ===== *)
theory Inference_Execution
  imports Identifiers Tensor_Contract
begin

text \<open>
  Execution capabilities, policies, domains, model updates and shared buffers:
  contracts/vqec_vision_inference_execution.hpp and core/vqec_vision_inference_execution.cpp
  (prefix \<open>inexe\<close>). The masks are words; what they mean is stated on sets of requested and
  offered features.
\<close>

section \<open>Data\<close>

definition inexe_max_compute_units :: u8 where "inexe_max_compute_units = 8"
definition inexe_max_inflight_jobs :: u16 where "inexe_max_inflight_jobs = 16"
definition inexe_max_shared_registrations :: u16 where "inexe_max_shared_registrations = 64"
definition inexe_max_priority :: u32 where "inexe_max_priority = 7"
definition inexe_max_domain_id_bytes :: nat where "inexe_max_domain_id_bytes = 128"
definition inexe_max_domain_graphs :: u16 where "inexe_max_domain_graphs = 64"
definition inexe_max_shared_buffer_bytes :: u64 where
  "inexe_max_shared_buffer_bytes = push_bit 34 1"
definition inexe_model_identifier_bytes :: nat where "inexe_model_identifier_bytes = 128"

datatype shared_buffer_access = Read_only | Read_write | Unlisted_buffer_access u32

record inference_shared_buffer =
  sb_registration_id :: u64
  sb_allocation_id :: u64
  sb_generation :: u64
  sb_bytes :: u64
  sb_access :: shared_buffer_access

datatype inference_execution_mode = Synchronous | Asynchronous | Unlisted_execution_mode u32
datatype inference_memory_mode = Copy | Registered_shared | Unlisted_memory_mode u32
datatype inference_perf_profile =
    Low_latency | Balanced | High_throughput | Sustained | Unlisted_perf_profile u32

record inference_capabilities =
  cap_supported_dtype_mask :: u32
  cap_perf_profile_mask :: u8
  cap_compute_unit_count :: u8
  cap_graph_count :: u16
  cap_max_inflight_jobs :: u16
  cap_max_shared_registrations :: u16
  cap_supports_async :: bool
  cap_supports_native_output :: bool
  cap_supports_shared_memory :: bool
  cap_supports_artifact_update :: bool
  cap_supports_multi_model_domain :: bool

record inference_execution_policy =
  xp_mode :: inference_execution_mode
  xp_memory :: inference_memory_mode
  xp_profile :: inference_perf_profile
  xp_compute_unit_affinity :: u32
  xp_compute_unit_count :: u8
  xp_max_inflight_jobs :: u16
  xp_priority :: u32
  xp_prefer_native_output :: bool

record inference_execution_domain =
  xd_domain_id :: string
  xd_max_graphs :: u16
  xd_max_inflight_jobs :: u16
  xd_allows_shared_context :: bool

record inference_model_update =
  mu_base_model_id :: string
  mu_base_model_version :: string
  mu_update_artifact_ref :: string
  mu_update_artifact_sha256 :: string
  mu_update_revision :: u64

section \<open>Bit masks\<close>

fun element_ordinal :: "tensor_element_type \<Rightarrow> nat" where
  "element_ordinal Elem_unknown = 0"
| "element_ordinal Elem_int8 = 1"
| "element_ordinal Elem_uint8 = 2"
| "element_ordinal Elem_int16 = 3"
| "element_ordinal Elem_uint16 = 4"
| "element_ordinal Elem_int32 = 5"
| "element_ordinal Elem_uint32 = 6"
| "element_ordinal Elem_int64 = 7"
| "element_ordinal Elem_uint64 = 8"
| "element_ordinal Elem_float16 = 9"
| "element_ordinal Elem_float32 = 10"
| "element_ordinal (Unlisted_element_type v) = unat v"

fun profile_ordinal :: "inference_perf_profile \<Rightarrow> nat" where
  "profile_ordinal Low_latency = 0"
| "profile_ordinal Balanced = 1"
| "profile_ordinal High_throughput = 2"
| "profile_ordinal Sustained = 3"
| "profile_ordinal (Unlisted_perf_profile v) = unat v"

definition inexe_dtype_bit :: "tensor_element_type \<Rightarrow> u32" where
  "inexe_dtype_bit t = push_bit (element_ordinal t) 1"

definition inexe_known_dtype_mask :: u32 where
  "inexe_known_dtype_mask = push_bit 11 1 - 2"

definition inexe_profile_bit :: "inference_perf_profile \<Rightarrow> u8" where
  "inexe_profile_bit p = ucast (push_bit (profile_ordinal p) 1 :: u32)"

definition inexe_valid_profile_mask :: u8 where "inexe_valid_profile_mask = 0x0F"

definition inexe_unit_mask :: "u8 \<Rightarrow> u32" where
  "inexe_unit_mask count =
     (if count = 0 then 0 else if count \<ge> 32 then - 1 else push_bit (unat count) 1 - 1)"

definition inexe_is_valid_mode :: "inference_execution_mode \<Rightarrow> bool" where
  "inexe_is_valid_mode m \<longleftrightarrow> m = Synchronous \<or> m = Asynchronous"

definition inexe_is_valid_memory :: "inference_memory_mode \<Rightarrow> bool" where
  "inexe_is_valid_memory m \<longleftrightarrow> m = Copy \<or> m = Registered_shared"

fun inexe_is_valid_profile :: "inference_perf_profile \<Rightarrow> bool" where
  "inexe_is_valid_profile (Unlisted_perf_profile _) = False"
| "inexe_is_valid_profile _ = True"

section \<open>Validators\<close>

definition inexe_validate_capabilities :: "inference_capabilities \<Rightarrow> status" where
  "inexe_validate_capabilities c =
     (if cap_graph_count c = 0 then Invalid_argument
      else if cap_perf_profile_mask c = 0 \<or>
          cap_perf_profile_mask c AND NOT inexe_valid_profile_mask \<noteq> 0 then Invalid_argument
      else if cap_supported_dtype_mask c = 0 \<or>
          cap_supported_dtype_mask c AND NOT inexe_known_dtype_mask \<noteq> 0 then Invalid_argument
      else if cap_compute_unit_count c > inexe_max_compute_units then Invalid_argument
      else if cap_max_inflight_jobs c = 0 \<or> cap_max_inflight_jobs c > inexe_max_inflight_jobs
        then Invalid_argument
      else if cap_max_shared_registrations c > inexe_max_shared_registrations
        then Invalid_argument
      else if cap_supports_shared_memory c \<noteq> (cap_max_shared_registrations c > 0)
        then Invalid_argument
      else if \<not> cap_supports_async c \<and> cap_max_inflight_jobs c \<noteq> 1 then Invalid_argument
      else Ok)"

definition inexe_validate_domain :: "inference_execution_domain \<Rightarrow> status" where
  "inexe_validate_domain d =
     (if \<not> ident_is_valid (xd_domain_id d) inexe_max_domain_id_bytes then Invalid_argument
      else if xd_max_graphs d = 0 \<or> xd_max_graphs d > inexe_max_domain_graphs
        then Invalid_argument
      else if xd_max_inflight_jobs d = 0 \<or> xd_max_inflight_jobs d > inexe_max_inflight_jobs
        then Invalid_argument
      else Ok)"

definition inexe_domain_admits ::
    "inference_execution_domain \<Rightarrow> inference_capabilities \<Rightarrow> u16 \<Rightarrow> u32 \<Rightarrow> status" where
  "inexe_domain_admits d c graph_count total_inflight_jobs =
     and_then (inexe_validate_domain d) (and_then (inexe_validate_capabilities c)
       (if graph_count = 0 \<or> total_inflight_jobs = 0 then Invalid_argument
        else if graph_count > xd_max_graphs d then Resource_exhausted
        else if graph_count > 1 \<and>
            (\<not> xd_allows_shared_context d \<or> \<not> cap_supports_multi_model_domain c)
          then Unsupported
        else if total_inflight_jobs > ucast (xd_max_inflight_jobs d) then Resource_exhausted
        else
          (let aggregate = (ucast (cap_max_inflight_jobs c) :: u64) * ucast graph_count
           in if ucast total_inflight_jobs > aggregate then Resource_exhausted else Ok)))"

definition inexe_validate_policy :: "inference_execution_policy \<Rightarrow> status" where
  "inexe_validate_policy p =
     (if \<not> inexe_is_valid_mode (xp_mode p) \<or> \<not> inexe_is_valid_memory (xp_memory p) \<or>
         \<not> inexe_is_valid_profile (xp_profile p) then Invalid_argument
      else if xp_max_inflight_jobs p = 0 \<or> xp_max_inflight_jobs p > inexe_max_inflight_jobs
        then Invalid_argument
      else if xp_mode p = Synchronous \<and> xp_max_inflight_jobs p \<noteq> 1 then Invalid_argument
      else if xp_compute_unit_count p > inexe_max_compute_units then Invalid_argument
      else if xp_compute_unit_count p \<noteq> 0 \<and>
          xp_compute_unit_affinity p AND NOT (inexe_unit_mask (xp_compute_unit_count p)) \<noteq> 0
        then Invalid_argument
      else if xp_priority p > inexe_max_priority then Invalid_argument
      else Ok)"

definition inexe_policy_is_supported ::
    "inference_execution_policy \<Rightarrow> inference_capabilities \<Rightarrow> status" where
  "inexe_policy_is_supported p c =
     and_then (inexe_validate_policy p) (and_then (inexe_validate_capabilities c)
       (if xp_mode p = Asynchronous \<and> \<not> cap_supports_async c then Unsupported
        else if xp_memory p = Registered_shared \<and> \<not> cap_supports_shared_memory c
          then Unsupported
        else if xp_prefer_native_output p \<and> \<not> cap_supports_native_output c then Unsupported
        else if cap_perf_profile_mask c AND inexe_profile_bit (xp_profile p) = 0
          then Unsupported
        else if (xp_compute_unit_count p \<noteq> 0 \<or> xp_compute_unit_affinity p \<noteq> 0) \<and>
            cap_compute_unit_count c = 0 then Unsupported
        else if xp_compute_unit_count p > cap_compute_unit_count c then Unsupported
        else if xp_compute_unit_affinity p AND NOT (inexe_unit_mask (cap_compute_unit_count c)) \<noteq> 0
          then Unsupported
        else if xp_max_inflight_jobs p > cap_max_inflight_jobs c then Unsupported
        else Ok))"

definition inexe_dtype_supported :: "inference_capabilities \<Rightarrow> tensor_element_type \<Rightarrow> bool" where
  "inexe_dtype_supported c t \<longleftrightarrow>
     (if t = Elem_unknown then False
      else cap_supported_dtype_mask c AND inexe_dtype_bit t \<noteq> 0)"

definition inexe_validate_model_update :: "inference_model_update \<Rightarrow> status" where
  "inexe_validate_model_update u =
     (if \<not> ident_is_valid (mu_base_model_id u) inexe_model_identifier_bytes \<or>
         \<not> ident_is_valid (mu_base_model_version u) inexe_model_identifier_bytes \<or>
         \<not> ident_is_valid (mu_update_artifact_ref u) inexe_model_identifier_bytes
        then Invalid_argument
      else if \<not> ident_is_sha256_hex (mu_update_artifact_sha256 u) then Invalid_argument
      else if mu_update_revision u = 0 \<or> mu_update_revision u = UINT64_MAX
        then Invalid_argument
      else Ok)"

definition inexe_model_update_supported ::
    "inference_model_update \<Rightarrow> inference_capabilities \<Rightarrow> status" where
  "inexe_model_update_supported u c =
     and_then (inexe_validate_model_update u) (and_then (inexe_validate_capabilities c)
       (if \<not> cap_supports_artifact_update c then Unsupported else Ok))"

definition inexe_validate_shared_buffer :: "inference_shared_buffer \<Rightarrow> status" where
  "inexe_validate_shared_buffer b =
     (if sb_registration_id b = 0 \<or> sb_allocation_id b = 0 \<or> sb_generation b = 0
        then Invalid_argument
      else if sb_bytes b = 0 \<or> sb_bytes b > inexe_max_shared_buffer_bytes
        then Invalid_argument
      else if sb_access b \<noteq> Read_only \<and> sb_access b \<noteq> Read_write then Invalid_argument
      else Ok)"

definition inexe_shared_buffer_supported ::
    "inference_shared_buffer \<Rightarrow> inference_capabilities \<Rightarrow> u16 \<Rightarrow> status" where
  "inexe_shared_buffer_supported b c active_registrations =
     and_then (inexe_validate_shared_buffer b) (and_then (inexe_validate_capabilities c)
       (if \<not> cap_supports_shared_memory c then Unsupported
        else if active_registrations \<ge> cap_max_shared_registrations c then Resource_exhausted
        else Ok))"

section \<open>What the masks mean\<close>

lemma bit_unit_mask: "bit (inexe_unit_mask n) i \<longleftrightarrow> i < 32 \<and> i < unat n"
proof -
  have "push_bit k 1 - 1 = (mask k :: u32)" for k
    by (simp add: mask_eq_exp_minus_1)
  then show ?thesis
    by (auto simp: inexe_unit_mask_def bit_mask_iff word_le_nat_alt not_le)
qed

lemma and_not_zero:
  "(a :: 'a::len word) AND NOT m = 0 \<longleftrightarrow> (\<forall>i. bit a i \<longrightarrow> bit m i)"
  by (auto simp: bit_eq_iff bit_and_iff bit_not_iff dest: bit_imp_le_length)

lemma profile_bit_nonzero:
  assumes "inexe_is_valid_profile p"
  shows "m AND inexe_profile_bit p \<noteq> 0 \<longleftrightarrow> bit m (profile_ordinal p)"
proof -
  have "inexe_profile_bit p = push_bit (profile_ordinal p) 1"
    using assms by (cases p) (simp_all add: inexe_profile_bit_def)
  then show ?thesis using and_bit_nonzero [of m "profile_ordinal p"] by simp
qed

text \<open>A policy asks for features; a backend offers some.\<close>

datatype feature =
    Async_execution
  | Shared_memory
  | Native_output
  | Profile inference_perf_profile
  | Compute_unit nat

definition requested :: "inference_execution_policy \<Rightarrow> feature set" where
  "requested p =
     {f. f = Async_execution \<and> xp_mode p = Asynchronous} \<union>
     {f. f = Shared_memory \<and> xp_memory p = Registered_shared} \<union>
     {f. f = Native_output \<and> xp_prefer_native_output p} \<union>
     {Profile (xp_profile p)} \<union> Compute_unit ` {i. bit (xp_compute_unit_affinity p) i}"

definition offered :: "inference_capabilities \<Rightarrow> feature set" where
  "offered c =
     {f. f = Async_execution \<and> cap_supports_async c} \<union>
     {f. f = Shared_memory \<and> cap_supports_shared_memory c} \<union>
     {f. f = Native_output \<and> cap_supports_native_output c} \<union>
     Profile ` {q. inexe_is_valid_profile q \<and> bit (cap_perf_profile_mask c) (profile_ordinal q)} \<union>
     Compute_unit ` {i. i < unat (cap_compute_unit_count c)}"

lemma requested_offered:
  "requested p \<subseteq> offered c \<longleftrightarrow>
     (xp_mode p = Asynchronous \<longrightarrow> cap_supports_async c) \<and>
     (xp_memory p = Registered_shared \<longrightarrow> cap_supports_shared_memory c) \<and>
     (xp_prefer_native_output p \<longrightarrow> cap_supports_native_output c) \<and>
     inexe_is_valid_profile (xp_profile p) \<and>
     bit (cap_perf_profile_mask c) (profile_ordinal (xp_profile p)) \<and>
     (\<forall>i. bit (xp_compute_unit_affinity p) i \<longrightarrow> i < unat (cap_compute_unit_count c))"
  by (auto simp: requested_def offered_def)

lemma affinity_within:
  "a AND NOT (inexe_unit_mask n) = 0 \<longleftrightarrow> (\<forall>i. bit a i \<longrightarrow> i < unat n)"
  by (auto simp: and_not_zero bit_unit_mask dest: bit_imp_le_length)

lemma validate_policy_profile:
  "inexe_validate_policy p = Ok \<Longrightarrow> inexe_is_valid_profile (xp_profile p)"
  by (auto simp: inexe_validate_policy_def split: if_splits)

lemma aggregate_exact: "unat ((ucast (a :: u16) :: u64) * ucast (g :: u16)) = unat a * unat g"
proof -
  have "unat a * unat g \<le> 2 ^ 16 * 2 ^ 16"
    using unat_bound [of a] unat_bound [of g] by (intro mult_le_mono) simp_all
  then show ?thesis by (subst unat_mult_exact) simp_all
qed

section \<open>Properties\<close>

text \<open>
  No silent downgrade: a policy is supported exactly when policy and capabilities are
  valid on their own, every requested feature (execution mode, memory, native output,
  profile, each compute unit of the affinity) is offered, and its unit count and inflight
  bound are within what the backend advertises.
\<close>

lemma inexe_supported_iff_offered:
  "(inexe_policy_is_supported p c = Ok) =
     (inexe_validate_policy p = Ok \<and> inexe_validate_capabilities c = Ok \<and>
      requested p \<subseteq> offered c \<and>
      unat (xp_compute_unit_count p) \<le> unat (cap_compute_unit_count c) \<and>
      unat (xp_max_inflight_jobs p) \<le> unat (cap_max_inflight_jobs c))"
proof (cases "inexe_validate_policy p = Ok \<and> inexe_validate_capabilities c = Ok")
  case True
  note prof = validate_policy_profile [OF conjunct1 [OF True]]
  have zero: "xp_compute_unit_affinity p = 0 \<and> xp_compute_unit_count p = 0"
    if "\<forall>i. bit (xp_compute_unit_affinity p) i \<longrightarrow> i < unat (cap_compute_unit_count c)"
      "unat (xp_compute_unit_count p) \<le> unat (cap_compute_unit_count c)"
      "cap_compute_unit_count c = 0"
  proof
    show "xp_compute_unit_affinity p = 0" 
      by (rule bit_word_eqI) (use that(1,3) in simp)
    show "xp_compute_unit_count p = 0"
      using that(2,3) by (metis le_zero_eq unat_0 word_unat_eq_iff)
  qed
  have le: "\<not> a > b \<longleftrightarrow> unat a \<le> unat b" for a b :: "'a::len word"
    by (simp add: word_le_nat_alt not_less)
  show ?thesis
    using True prof zero profile_bit_nonzero [OF prof, of "cap_perf_profile_mask c"]
    unfolding inexe_policy_is_supported_def requested_offered affinity_within [symmetric] le [symmetric]
    by (simp split: if_split) blast
next
  case False
  then show ?thesis by (auto simp: inexe_policy_is_supported_def)
qed

text \<open>
  Admission into an execution domain is decided on exact numbers: the 64-bit product of
  the backend's per-graph bound and the graph count never wraps, so the admitted inflight
  jobs are at most both the domain's bound and the backend's true aggregate, and several
  graphs need shared-context support on both sides.
\<close>

lemma inexe_domain_admission_exact:
  "(inexe_domain_admits d c graphs jobs = Ok) =
     (inexe_validate_domain d = Ok \<and> inexe_validate_capabilities c = Ok \<and>
      0 < unat graphs \<and> 0 < unat jobs \<and> unat graphs \<le> unat (xd_max_graphs d) \<and>
      (unat graphs \<le> 1 \<or> xd_allows_shared_context d \<and> cap_supports_multi_model_domain c) \<and>
      unat jobs \<le> unat (xd_max_inflight_jobs d) \<and>
      unat jobs \<le> unat (cap_max_inflight_jobs c) * unat graphs)"
proof -
  have one: "graphs > 1 \<longleftrightarrow> \<not> unat graphs \<le> 1" by (simp add: word_less_nat_alt not_le)
  have agg: "ucast jobs > (ucast (cap_max_inflight_jobs c) :: u64) * ucast graphs \<longleftrightarrow>
      \<not> unat jobs \<le> unat (cap_max_inflight_jobs c) * unat graphs"
    by (simp add: word_less_nat_alt aggregate_exact not_le)
  have dom: "jobs > ucast (xd_max_inflight_jobs d) \<longleftrightarrow> \<not> unat jobs \<le> unat (xd_max_inflight_jobs d)"
    "graphs > xd_max_graphs d \<longleftrightarrow> \<not> unat graphs \<le> unat (xd_max_graphs d)"
    by (simp_all add: word_less_nat_alt not_le)
  show ?thesis
    unfolding inexe_domain_admits_def and_then_Ok one agg dom Let_def
    by (auto simp: unat_gt_0)
qed

end
