(* ===== verification/Tensor_Pool.thy ===== *)
theory Tensor_Pool
  imports Tensor_Contract
begin

text \<open>
  The preallocated tensor pool: core/vqec_vision_tensor_pool.hpp and .cpp (prefix
  \<open>tnpl\<close>). Every method holds the pool's mutex, so a run of the pool is a sequence of
  complete calls. A borrowed \<open>tensor_blob*\<close> is the index of its slot; the writes a client
  makes through it are the extra step \<open>Tp_write\<close>.
\<close>

section \<open>State\<close>

definition tnpl_max_slots :: nat where "tnpl_max_slots = 16"
definition tnpl_poison_byte :: u8 where "tnpl_poison_byte = 0xDD"

record tensor_blob =
  tb_spec :: tensor_spec
  tb_bytes :: "u8 list"

record tensor_pool_config =
  tpc_capacity :: nat
  tpc_spec :: tensor_spec
  tpc_poison_on_release :: bool

record tensor_pool_stats =
  tps_capacity :: nat
  tps_free :: nat
  tps_live :: nat
  tps_high_watermark :: nat
  tps_acquire_total :: u64
  tps_release_total :: u64
  tps_exhausted_total :: u64
  tps_double_release_total :: u64

record tensor_pool =
  tp_slots :: "tensor_blob list"
  tp_in_use :: "bool list"
  tp_capacity :: nat
  tp_live :: nat
  tp_high_watermark :: nat
  tp_acquire_total :: u64
  tp_release_total :: u64
  tp_exhausted_total :: u64
  tp_double_release_total :: u64
  tp_poison_on_release :: bool

definition blank_spec :: tensor_spec where
  "blank_spec = \<lparr>ts_name = [], ts_dimensions = [], ts_dtype = Elem_float32,
     ts_quantization = \<lparr>tq_is_quantized = False, tq_scale = Finite 0, tq_zero_point = 0\<rparr>,
     ts_layout = Layout_unknown\<rparr>"

definition tnpl_initial :: tensor_pool where
  "tnpl_initial = \<lparr>tp_slots = replicate tnpl_max_slots \<lparr>tb_spec = blank_spec, tb_bytes = []\<rparr>,
     tp_in_use = replicate tnpl_max_slots False, tp_capacity = 0, tp_live = 0,
     tp_high_watermark = 0, tp_acquire_total = 0, tp_release_total = 0,
     tp_exhausted_total = 0, tp_double_release_total = 0, tp_poison_on_release = False\<rparr>"

section \<open>Operations\<close>

text \<open>
  \<open>fail_at\<close> is the environment's part: the slot at which the allocation of the byte vector
  throws \<open>bad_alloc\<close>, if it does.
\<close>

definition tnpl_prepare :: "tensor_pool_config \<Rightarrow> nat \<Rightarrow> u64 \<Rightarrow> tensor_blob list \<Rightarrow> tensor_blob list" where
  "tnpl_prepare c count bytes slots =
     map (\<lambda>s. s\<lparr>tb_spec := tpc_spec c, tb_bytes := replicate (unat bytes) 0\<rparr>) (take count slots)
       @ drop count slots"

definition tnpl_configure ::
    "nat option \<Rightarrow> tensor_pool_config \<Rightarrow> tensor_pool \<Rightarrow> status \<times> tensor_pool" where
  "tnpl_configure fail_at c p =
     (if tp_capacity p \<noteq> 0 then (Invalid_state, p)
      else if tpc_capacity c = 0 \<or> tpc_capacity c > tnpl_max_slots \<or>
          ts_dtype (tpc_spec c) = Elem_unknown then (Invalid_argument, p)
      else
        (let bytes = tnctr_shape_bytes (tpc_spec c) in
         if bytes = 0 \<or> bytes > tnctr_max_output_bytes then (Invalid_argument, p)
         else
           (case fail_at of
              Some k \<Rightarrow>
                if k < tpc_capacity c then
                  (Resource_exhausted, p\<lparr>tp_slots :=
                     map (\<lambda>s. s\<lparr>tb_bytes := []\<rparr>)
                       (tnpl_prepare c (Suc k) bytes (tp_slots p))\<rparr>)
                else (Ok, p\<lparr>tp_slots := tnpl_prepare c (tpc_capacity c) bytes (tp_slots p),
                        tp_capacity := tpc_capacity c,
                        tp_poison_on_release := tpc_poison_on_release c\<rparr>)
            | None \<Rightarrow> (Ok, p\<lparr>tp_slots := tnpl_prepare c (tpc_capacity c) bytes (tp_slots p),
                        tp_capacity := tpc_capacity c,
                        tp_poison_on_release := tpc_poison_on_release c\<rparr>))))"

definition tnpl_is_configured :: "tensor_pool \<Rightarrow> bool" where
  "tnpl_is_configured p \<longleftrightarrow> tp_capacity p \<noteq> 0"

text \<open>The slot index stands for both outputs, the index and the pointer to that slot.\<close>

definition tnpl_acquire :: "tensor_pool \<Rightarrow> nat \<Rightarrow> status \<times> tensor_pool \<times> nat" where
  "tnpl_acquire p slot_index =
     (if tp_capacity p = 0 then (Invalid_state, p, slot_index)
      else
        (case first_index Not (take (tp_capacity p) (tp_in_use p)) of
           None \<Rightarrow> (Resource_exhausted,
                    p\<lparr>tp_exhausted_total := tp_exhausted_total p + 1\<rparr>, slot_index)
         | Some i \<Rightarrow> (Ok, p\<lparr>tp_in_use := (tp_in_use p)[i := True], tp_live := Suc (tp_live p),
                         tp_acquire_total := tp_acquire_total p + 1,
                         tp_high_watermark := max (Suc (tp_live p)) (tp_high_watermark p)\<rparr>, i)))"

definition tnpl_poison :: "nat \<Rightarrow> tensor_pool \<Rightarrow> tensor_pool" where
  "tnpl_poison i p =
     (if tp_poison_on_release p
      then p\<lparr>tp_slots := (tp_slots p)[i := (tp_slots p ! i)
             \<lparr>tb_bytes := map (\<lambda>_. tnpl_poison_byte) (tb_bytes (tp_slots p ! i))\<rparr>]\<rparr>
      else p)"

definition tnpl_release :: "nat \<Rightarrow> tensor_pool \<Rightarrow> status \<times> tensor_pool" where
  "tnpl_release i p =
     (if tp_capacity p = 0 then (Invalid_state, p)
      else if i \<ge> tp_capacity p then (Invalid_argument, p)
      else if \<not> tp_in_use p ! i
        then (Invalid_state, p\<lparr>tp_double_release_total := tp_double_release_total p + 1\<rparr>)
      else (Ok, (tnpl_poison i p)\<lparr>tp_in_use := (tp_in_use p)[i := False],
                  tp_live := tp_live p - 1, tp_release_total := tp_release_total p + 1\<rparr>))"

definition tnpl_get :: "nat \<Rightarrow> tensor_pool \<Rightarrow> tensor_blob option \<Rightarrow> status \<times> tensor_blob option" where
  "tnpl_get i p blob =
     (if tp_capacity p = 0 then (Invalid_state, blob)
      else if i \<ge> tp_capacity p \<or> \<not> tp_in_use p ! i then (Invalid_argument, blob)
      else (Ok, Some (tp_slots p ! i)))"

definition tnpl_get_stats :: "tensor_pool \<Rightarrow> tensor_pool_stats" where
  "tnpl_get_stats p = \<lparr>tps_capacity = tp_capacity p, tps_free = tp_capacity p - tp_live p,
     tps_live = tp_live p, tps_high_watermark = tp_high_watermark p,
     tps_acquire_total = tp_acquire_total p, tps_release_total = tp_release_total p,
     tps_exhausted_total = tp_exhausted_total p,
     tps_double_release_total = tp_double_release_total p\<rparr>"

text \<open>A client that holds a slot may overwrite its bytes; it must not resize them.\<close>

definition tnpl_client_write :: "nat \<Rightarrow> u8 list \<Rightarrow> tensor_pool \<Rightarrow> tensor_pool" where
  "tnpl_client_write i bytes p =
     (if i < tp_capacity p \<and> tp_in_use p ! i \<and> length bytes = length (tb_bytes (tp_slots p ! i))
      then p\<lparr>tp_slots := (tp_slots p)[i := (tp_slots p ! i)\<lparr>tb_bytes := bytes\<rparr>]\<rparr> else p)"

datatype tnpl_op =
    Tp_configure "nat option" tensor_pool_config
  | Tp_acquire
  | Tp_release nat
  | Tp_write nat "u8 list"

fun tnpl_step :: "tnpl_op \<Rightarrow> tensor_pool \<Rightarrow> tensor_pool" where
  "tnpl_step (Tp_configure f c) p = snd (tnpl_configure f c p)"
| "tnpl_step Tp_acquire p = fst (snd (tnpl_acquire p 0))"
| "tnpl_step (Tp_release i) p = snd (tnpl_release i p)"
| "tnpl_step (Tp_write i bs) p = tnpl_client_write i bs p"

section \<open>The invariant\<close>

text \<open>
  Every slot of a configured pool keeps the byte length of the configured shape (slot 0
  always belongs to a configured pool); the counters account for every slot in use.
\<close>

definition slots_shaped :: "nat \<Rightarrow> tensor_blob list \<Rightarrow> bool" where
  "slots_shaped cap slots \<longleftrightarrow>
     (\<forall>i < cap. tb_spec (slots ! i) = tb_spec (slots ! 0) \<and>
        length (tb_bytes (slots ! i)) = unat (tnctr_shape_bytes (tb_spec (slots ! 0))))"

lemma slots_shaped_cong:
  assumes "\<And>k. tb_spec (slots' ! k) = tb_spec (slots ! k) \<and>
      length (tb_bytes (slots' ! k)) = length (tb_bytes (slots ! k))"
  shows "slots_shaped cap slots' = slots_shaped cap slots"
  by (simp add: slots_shaped_def assms)

definition tnpl_inv :: "tensor_pool \<Rightarrow> bool" where
  "tnpl_inv p \<longleftrightarrow>
     length (tp_slots p) = tnpl_max_slots \<and> length (tp_in_use p) = tnpl_max_slots \<and>
     tp_capacity p \<le> tnpl_max_slots \<and>
     (\<forall>i < tnpl_max_slots. tp_in_use p ! i \<longrightarrow> i < tp_capacity p) \<and>
     slots_shaped (tp_capacity p) (tp_slots p) \<and>
     tp_live p = length (filter id (tp_in_use p)) \<and> tp_live p \<le> tp_high_watermark p \<and>
     tp_high_watermark p \<le> tp_capacity p \<and>
     tp_acquire_total p = tp_release_total p + word_of_nat (tp_live p)"

lemma tnpl_inv_parts:
  assumes "tnpl_inv p"
  shows "length (tp_slots p) = tnpl_max_slots" "length (tp_in_use p) = tnpl_max_slots"
    "tp_capacity p \<le> tnpl_max_slots" "i < tnpl_max_slots \<Longrightarrow> tp_in_use p ! i \<Longrightarrow> i < tp_capacity p"
    "tp_live p = length (filter id (tp_in_use p))" "tp_live p \<le> tp_high_watermark p"
    "tp_high_watermark p \<le> tp_capacity p"
    "tp_acquire_total p = tp_release_total p + word_of_nat (tp_live p)"
    "slots_shaped (tp_capacity p) (tp_slots p)"
  using assms unfolding tnpl_inv_def by blast+

lemma tnpl_inv_initial: "tnpl_inv tnpl_initial"
  by (simp add: tnpl_inv_def tnpl_initial_def slots_shaped_def)

lemma live_bounded:
  assumes "length xs = n" and "\<forall>i < n. xs ! i \<longrightarrow> i < c" and "c \<le> n"
  shows "length (filter id xs) \<le> c"
proof -
  have "filter id (drop c xs) = []"
  proof (rule ccontr)
    assume "filter id (drop c xs) \<noteq> []"
    then obtain k where "k < length (drop c xs)" "drop c xs ! k"
      by (auto simp: filter_empty_conv in_set_conv_nth)
    then have "c + k < n" "xs ! (c + k)" using assms(1,3) by simp_all
    with assms(2) show False by fastforce
  qed
  then have "filter id xs = filter id (take c xs)"
    by (metis append_Nil2 append_take_drop_id filter_append)
  also have "length \<dots> \<le> c" by (rule order_trans [OF length_filter_le]) simp
  finally show ?thesis .
qed

lemma prepare_nth:
  assumes "i < count" and "count \<le> length slots"
  shows "tnpl_prepare c count b slots ! i =
    (slots ! i)\<lparr>tb_spec := tpc_spec c, tb_bytes := replicate (unat b) 0\<rparr>"
  using assms by (simp add: tnpl_prepare_def nth_append)

lemma prepare_length [simp]: "length (tnpl_prepare c n b slots) = length slots"
  by (simp add: tnpl_prepare_def)

lemma slots_shaped_0 [simp]: "slots_shaped 0 s"
  by (simp add: slots_shaped_def)

lemma tnpl_inv_counters [simp]:
  "tnpl_inv (p\<lparr>tp_exhausted_total := n\<rparr>) = tnpl_inv p"
  "tnpl_inv (p\<lparr>tp_double_release_total := n\<rparr>) = tnpl_inv p"
  by (simp_all add: tnpl_inv_def)

lemma tnpl_unconfigured_inv:
  assumes inv: "tnpl_inv p" and z: "tp_capacity p = 0" and len: "length s = tnpl_max_slots"
    and "c \<le> tnpl_max_slots" and "slots_shaped c s"
  shows "tnpl_inv (p\<lparr>tp_slots := s, tp_capacity := c, tp_poison_on_release := b\<rparr>)"
proof -
  note v = tnpl_inv_parts [OF inv]
  have "\<not> tp_in_use p ! i" if "i < tnpl_max_slots" for i using v(4) [OF that] z by auto
  moreover have "tp_high_watermark p = 0" using v(7) z by simp
  ultimately show ?thesis
    unfolding tnpl_inv_def using v(2,5,6,8) assms(3-5) by simp
qed

lemma tnpl_configure_inv: "tnpl_inv p \<Longrightarrow> tnpl_inv (snd (tnpl_configure f c p))"
proof -
  assume inv: "tnpl_inv p"
  note v = tnpl_inv_parts [OF inv]
  have shaped: "slots_shaped (tpc_capacity c)
      (tnpl_prepare c (tpc_capacity c) (tnctr_shape_bytes (tpc_spec c)) (tp_slots p))"
    if "tpc_capacity c \<le> tnpl_max_slots" "tpc_capacity c \<noteq> 0"
    using that v(1) by (simp add: slots_shaped_def prepare_nth)
  note ok = tnpl_unconfigured_inv [OF inv _ _ _ shaped]
  have failed: "tnpl_inv (p\<lparr>tp_slots := s\<rparr>)"
    if "tp_capacity p = 0" "length s = tnpl_max_slots" for s
  proof -
    have "slots_shaped (tp_capacity p) s" using that(1) by simp
    then show ?thesis using inv that(2) unfolding tnpl_inv_def by simp
  qed
  show ?thesis
    using inv ok failed v(1) by (simp add: tnpl_configure_def Let_def split: option.split)
qed

lemma free_index:
  assumes "tnpl_inv p" and "first_index Not (take (tp_capacity p) (tp_in_use p)) = Some i"
  shows "i < tp_capacity p" "i < tnpl_max_slots" "\<not> tp_in_use p ! i"
  using first_index_Some [OF assms(2)] tnpl_inv_parts(2,3) [OF assms(1)] by auto

lemma tnpl_acquire_inv: "tnpl_inv p \<Longrightarrow> tnpl_inv (fst (snd (tnpl_acquire p k)))"
proof (cases "first_index Not (take (tp_capacity p) (tp_in_use p))")
  case None
  assume "tnpl_inv p"
  then show ?thesis using None by (simp add: tnpl_acquire_def)
next
  case (Some i)
  assume inv: "tnpl_inv p"
  note f = free_index [OF inv Some] and v = tnpl_inv_parts [OF inv]
  let ?u = "(tp_in_use p)[i := True]"
  have cnt: "length (filter id ?u) = Suc (tp_live p)"
    using f v(2,5) by (subst length_filter_set) simp_all
  have used: "\<forall>k < tnpl_max_slots. ?u ! k \<longrightarrow> k < tp_capacity p"
    using inv f v(2) by (auto simp: tnpl_inv_def nth_list_update)
  have "Suc (tp_live p) \<le> tp_capacity p"
    using live_bounded [of ?u tnpl_max_slots "tp_capacity p"] used v(2,3) cnt by simp
  then show ?thesis
    using inv used cnt Some v(8) by (simp add: tnpl_acquire_def tnpl_inv_def)
qed

lemma tnpl_release_inv: "tnpl_inv p \<Longrightarrow> tnpl_inv (snd (tnpl_release i p))"
proof (cases "tp_capacity p \<noteq> 0 \<and> i < tp_capacity p \<and> tp_in_use p ! i")
  case False
  assume "tnpl_inv p"
  then show ?thesis using False by (auto simp: tnpl_release_def)
next
  case True
  assume inv: "tnpl_inv p"
  note v = tnpl_inv_parts [OF inv]
  let ?u = "(tp_in_use p)[i := False]" and ?q = "snd (tnpl_release i p)"
  have i: "i < tnpl_max_slots" using True v(3) by simp
  have cnt: "Suc (length (filter id ?u)) = tp_live p"
    using True i v(2,5) by (subst length_filter_clear) simp_all
  then obtain n where n: "tp_live p = Suc n" "length (filter id ?u) = n" by auto
  have used: "\<forall>k < tnpl_max_slots. ?u ! k \<longrightarrow> k < tp_capacity p"
    using inv i v(2) by (auto simp: tnpl_inv_def nth_list_update)
  have q: "tp_in_use ?q = ?u" "tp_capacity ?q = tp_capacity p" "tp_live ?q = n"
    "tp_high_watermark ?q = tp_high_watermark p" "tp_acquire_total ?q = tp_acquire_total p"
    "tp_release_total ?q = tp_release_total p + 1" "length (tp_slots ?q) = tnpl_max_slots"
    using True v(1) n by (simp_all add: tnpl_release_def tnpl_poison_def)
  have slots: "tb_spec (tp_slots ?q ! k) = tb_spec (tp_slots p ! k) \<and>
      length (tb_bytes (tp_slots ?q ! k)) = length (tb_bytes (tp_slots p ! k))" for k
    using True i v(1) by (cases "k = i") (simp_all add: tnpl_release_def tnpl_poison_def)
  show ?thesis
    unfolding tnpl_inv_def q slots_shaped_cong [OF slots]
    using used n v(2,3,6,7,8,9) by (simp add: v(5) [symmetric])
qed

lemma tnpl_write_inv: "tnpl_inv p \<Longrightarrow> tnpl_inv (tnpl_client_write i bs p)"
proof -
  assume inv: "tnpl_inv p"
  note v = tnpl_inv_parts [OF inv]
  let ?q = "tnpl_client_write i bs p"
  have q: "tp_in_use ?q = tp_in_use p" "tp_capacity ?q = tp_capacity p" "tp_live ?q = tp_live p"
    "tp_high_watermark ?q = tp_high_watermark p" "tp_acquire_total ?q = tp_acquire_total p"
    "tp_release_total ?q = tp_release_total p" "length (tp_slots ?q) = tnpl_max_slots"
    using v(1) by (simp_all add: tnpl_client_write_def)
  have slots: "tb_spec (tp_slots ?q ! k) = tb_spec (tp_slots p ! k) \<and>
      length (tb_bytes (tp_slots ?q ! k)) = length (tb_bytes (tp_slots p ! k))" for k
    using v(1,3) by (cases "k = i") (auto simp: tnpl_client_write_def)
  show ?thesis using inv slots_shaped_cong [OF slots] unfolding tnpl_inv_def q by simp
qed

lemma tnpl_step_inv: "tnpl_inv p \<Longrightarrow> tnpl_inv (tnpl_step a p)"
  by (cases a) (simp_all add: tnpl_configure_inv tnpl_acquire_inv tnpl_release_inv tnpl_write_inv)

section \<open>Slots stay with their holder\<close>

definition tnpl_held :: "tensor_pool \<Rightarrow> nat set" where
  "tnpl_held p = {i. i < tnpl_max_slots \<and> tp_in_use p ! i}"

fun tnpl_gives_back :: "tnpl_op \<Rightarrow> nat set" where
  "tnpl_gives_back (Tp_release i) = {i}"
| "tnpl_gives_back _ = {}"

lemma update_True: "i < length xs \<Longrightarrow> xs ! i \<Longrightarrow> xs[k := True] ! i"
  by (cases "k = i") simp_all

lemma gives_back_iff: "i \<in> tnpl_gives_back a \<longleftrightarrow> a = Tp_release i"
  by (cases a) auto

interpretation tnpl: held_resources tnpl_step tnpl_inv tnpl_held tnpl_gives_back
proof unfold_locales
  show "tnpl_inv (tnpl_step a p)" if "tnpl_inv p" for p a
    using that by (rule tnpl_step_inv)
  show "i \<in> tnpl_held (tnpl_step a p)"
    if "tnpl_inv p" "i \<in> tnpl_held p" "i \<notin> tnpl_gives_back a" for p i a
    using that(2,3) tnpl_inv_parts(2) [OF that(1)]
    by (cases a) (auto simp: tnpl_held_def tnpl_configure_def tnpl_acquire_def tnpl_release_def
        tnpl_poison_def tnpl_client_write_def Let_def update_True split: option.split)
qed

section \<open>Properties\<close>

definition demo_spec :: tensor_spec where
  "demo_spec = blank_spec\<lparr>ts_name := ''boxes'', ts_dimensions := [1, 3]\<rparr>"

definition demo_pool :: tensor_pool where
  "demo_pool = tnpl_step (Tp_configure None
     \<lparr>tpc_capacity = 2, tpc_spec = demo_spec, tpc_poison_on_release = True\<rparr>) tnpl_initial"

lemma demo_pool_inv: "tnpl_inv demo_pool"
  by (simp only: demo_pool_def tnpl_step_inv tnpl_inv_initial)

lemma tnpl_books:
  assumes "tnpl_inv p"
  shows "tps_live (tnpl_get_stats p) = length (filter id (tp_in_use p)) \<and>
     tps_free (tnpl_get_stats p) + tps_live (tnpl_get_stats p) = tps_capacity (tnpl_get_stats p) \<and>
     tps_live (tnpl_get_stats p) \<le> tps_high_watermark (tnpl_get_stats p) \<and>
     tps_high_watermark (tnpl_get_stats p) \<le> tps_capacity (tnpl_get_stats p) \<and>
     tps_acquire_total (tnpl_get_stats p) - tps_release_total (tnpl_get_stats p) =
       word_of_nat (tps_live (tnpl_get_stats p)) \<and>
     list_all (\<lambda>b. length (tb_bytes b) = unat (tnctr_shape_bytes (tb_spec (tp_slots p ! 0))))
       (take (tps_capacity (tnpl_get_stats p)) (tp_slots p))"
proof -
  note v = tnpl_inv_parts [OF assms]
  have shaped: "list_all (\<lambda>b. length (tb_bytes b) = unat (tnctr_shape_bytes (tb_spec (tp_slots p ! 0))))
       (take (tp_capacity p) (tp_slots p))"
  proof -
    have "length (tb_bytes (tp_slots p ! k)) = unat (tnctr_shape_bytes (tb_spec (tp_slots p ! 0)))"
      if "k < tp_capacity p" for k
      using v(9) that unfolding slots_shaped_def by blast
    then show ?thesis by (simp add: list_all_length)
  qed
  have diff: "tp_acquire_total p - tp_release_total p = word_of_nat (tp_live p)"
    by (subst v(8)) simp
  have sum: "tp_capacity p - tp_live p + tp_live p = tp_capacity p" using v(6,7) by simp
  show ?thesis
    unfolding tnpl_get_stats_def tensor_pool_stats.simps
    by (intro conjI v(5-7) shaped diff sum)
qed

text \<open>
  The pool's books always balance, whatever is called (including failed
  preallocations and bogus releases): the live count is the number of slots in use, free
  and live slots add up to the capacity, acquisitions minus releases is the live count, the
  high watermark is between the two, and every slot keeps the configured byte length.
\<close>

lemma tnpl_conservation:
  "let p = fold tnpl_step ops tnpl_initial; s = tnpl_get_stats p in
     tps_live s = length (filter id (tp_in_use p)) \<and>
     tps_free s + tps_live s = tps_capacity s \<and>
     tps_live s \<le> tps_high_watermark s \<and> tps_high_watermark s \<le> tps_capacity s \<and>
     tps_acquire_total s - tps_release_total s = word_of_nat (tps_live s) \<and>
     list_all (\<lambda>b. length (tb_bytes b) = unat (tnctr_shape_bytes (tb_spec (tp_slots p ! 0))))
       (take (tps_capacity s) (tp_slots p))"
  unfolding Let_def by (rule tnpl_books [OF tnpl.run_inv [OF tnpl_inv_initial]])

text \<open>
  C8. A borrowed slot is exclusive: from a successful acquire until the holder releases
  that slot, no other acquire returns it and reading it stays allowed, whatever the other
  clients do.
\<close>

theorem tnpl_exclusive:
  assumes "tnpl_inv p" and "tnpl_acquire p k = (Ok, p1, i)"
    and "Tp_release i \<notin> set ops"
  shows "let p2 = fold tnpl_step ops p1 in
    fst (tnpl_get i p2 b) = Ok \<and>
    (fst (tnpl_acquire p2 k') \<noteq> Ok \<or> snd (snd (tnpl_acquire p2 k')) \<noteq> i)"
proof -
  let ?p = "fold tnpl_step ops p1"
  have f: "first_index Not (take (tp_capacity p) (tp_in_use p)) = Some i" "tp_capacity p \<noteq> 0"
      "p1 = fst (snd (tnpl_acquire p k))"
    using assms(2) by (auto simp: tnpl_acquire_def split: if_splits option.splits)
  have inv1: "tnpl_inv p1" using tnpl_acquire_inv [OF assms(1)] f(3) by simp
  have "i \<in> tnpl_held p1"
    using free_index [OF assms(1) f(1)] tnpl_inv_parts(2) [OF assms(1)] f
    by (simp add: tnpl_held_def tnpl_acquire_def)
  moreover have "\<forall>a \<in> set ops. i \<notin> tnpl_gives_back a"
    using assms(3) by (auto simp: gives_back_iff)
  ultimately have held: "i \<in> tnpl_held ?p" using tnpl.run_held [OF inv1] by blast
  have inv: "tnpl_inv ?p" by (rule tnpl.run_inv [OF inv1])
  have use: "tp_in_use ?p ! i" "i < tp_capacity ?p"
    using held tnpl_inv_parts(4) [OF inv] by (auto simp: tnpl_held_def)
  have "j \<noteq> i" if "first_index Not (take (tp_capacity ?p) (tp_in_use ?p)) = Some j" for j
    using free_index(3) [OF inv that] use(1) by auto
  then show ?thesis
    using use by (auto simp: Let_def tnpl_get_def tnpl_acquire_def split: option.split)
qed

theorem tnpl_exclusive_witness:
  "fst (tnpl_acquire demo_pool 0) = Ok \<and>
   fst (tnpl_get 0 (fold tnpl_step [Tp_acquire, Tp_release 1] (fst (snd (tnpl_acquire demo_pool 0)))) None) = Ok"
proof -
  have ok: "fst (tnpl_acquire demo_pool 0) = Ok" "snd (snd (tnpl_acquire demo_pool 0)) = 0"
    by code_simp+
  have acq: "tnpl_acquire demo_pool 0 = (Ok, fst (snd (tnpl_acquire demo_pool 0)), 0)"
    using ok by (metis prod.collapse)
  have "Tp_release 0 \<notin> set [Tp_acquire, Tp_release 1]" by simp
  from tnpl_exclusive [OF demo_pool_inv acq this] ok(1) show ?thesis
    unfolding Let_def by blast
qed

text \<open>
  A released slot is gone for its holder: right after a successful release a second
  release of the same slot is refused and counted, reading it is refused, and with
  poisoning on the old contents are overwritten.
\<close>

lemma tnpl_release_final:
  assumes "tnpl_inv p" and "tnpl_release i p = (Ok, p')"
  shows "tnpl_release i p' =
      (Invalid_state, p'\<lparr>tp_double_release_total := tp_double_release_total p' + 1\<rparr>) \<and>
    tnpl_get i p' b = (Invalid_argument, b) \<and> tps_live (tnpl_get_stats p) = Suc (tps_live (tnpl_get_stats p')) \<and>
    (if tp_poison_on_release p
     then list_all (\<lambda>x. x = tnpl_poison_byte) (tb_bytes (tp_slots p' ! i))
     else tp_slots p' = tp_slots p)"
proof -
  have r: "tp_capacity p \<noteq> 0" "i < tp_capacity p" "tp_in_use p ! i"
    and p': "p' = (tnpl_poison i p)\<lparr>tp_in_use := (tp_in_use p)[i := False],
                  tp_live := tp_live p - 1, tp_release_total := tp_release_total p + 1\<rparr>"
    using assms(2) by (auto simp: tnpl_release_def split: if_splits)
  note v = tnpl_inv_parts [OF assms(1)]
  have i: "i < tnpl_max_slots" using r v(3) by simp
  have "Suc (length (filter id ((tp_in_use p)[i := False]))) = tp_live p"
    using r i v(2,5) by (subst length_filter_clear) simp_all
  then have "tp_live p = Suc (tp_live p - 1)" by linarith
  then show ?thesis
    using r i v(1,2)
    by (simp add: p' tnpl_release_def tnpl_get_def tnpl_poison_def tnpl_get_stats_def list_all_iff)
qed

theorem tnpl_release_final_witness:
  "let p = tnpl_step Tp_acquire demo_pool; p' = snd (tnpl_release 0 p) in
   fst (tnpl_release 0 p) = Ok \<and> fst (tnpl_release 0 p') = Invalid_state"
proof -
  have inv: "tnpl_inv (tnpl_step Tp_acquire demo_pool)" by (rule tnpl_step_inv [OF demo_pool_inv])
  have ok: "fst (tnpl_release 0 (tnpl_step Tp_acquire demo_pool)) = Ok" by code_simp
  show ?thesis
    using tnpl_release_final [OF inv ok_pair [OF ok]] ok unfolding Let_def by simp
qed

end
