(* ===== verification/Preview_Pool.thy ===== *)
theory Preview_Pool
  imports Preview_Contract
begin

text \<open>
  CPU preview surfaces and their pool: contracts/vqec_vision_preview_surface.hpp,
  contracts/vqec_vision_preview_pool.hpp, core/vqec_vision_preview_surface.cpp (prefix
  \<open>pvsrf\<close>) and core/vqec_vision_preview_pool.cpp (prefix \<open>pvpol\<close>).

  A surface's storage is either its own byte vector or a lease on a pool slot. The lease is
  a shared pointer whose deleter clears the slot's busy flag; the moment its last owner
  drops it is the environment's step \<open>Pp_drop\<close>. The busy flag is an atomic that acquire
  exchanges and the deleter stores, so each of these is one atomic step.
\<close>

section \<open>State\<close>

datatype surface_storage = Own_bytes "u8 list" | Pool_lease nat

text \<open>The writer is its storage pointer.\<close>

type_synonym writable_preview_surface = "surface_storage option"

record pool_slot =
  ps_bytes :: "u8 list"
  ps_busy :: bool

record preview_surface_pool =
  pp_slots :: "pool_slot option list"
  pp_allocated_bytes :: u64
  pp_configured :: bool
  pp_geometry :: preview_geometry

definition pvpol_initial :: preview_surface_pool where
  "pvpol_initial = \<lparr>pp_slots = replicate pv_max_surface_slots None, pp_allocated_bytes = 0,
     pp_configured = False, pp_geometry = \<lparr>geo_width = 0, geo_height = 0\<rparr>\<rparr>"

section \<open>Surfaces\<close>

definition pvsrf_create ::
    "bool \<Rightarrow> preview_geometry \<Rightarrow> u64 \<Rightarrow> writable_preview_surface \<Rightarrow>
       status \<times> writable_preview_surface" where
  "pvsrf_create alloc_ok geometry max_bytes writer =
     (if writer \<noteq> None then (Invalid_state, writer)
      else if \<not> geometry_supported geometry \<or> max_bytes = 0 \<or> max_bytes > pv_max_surface_bytes
        then (Invalid_argument, writer)
      else
        (let bytes = nvgeo_packed_bytes (geo_width geometry) (geo_height geometry) in
         if bytes > max_bytes then (Resource_exhausted, writer)
         else if \<not> alloc_ok then (Resource_exhausted, writer)
         else (Ok, Some (Own_bytes (replicate (unat bytes) 0)))))"

text \<open>The bytes a surface can write, through its own storage or its lease.\<close>

definition pvsrf_borrow_data ::
    "preview_surface_pool \<Rightarrow> writable_preview_surface \<Rightarrow> u8 list option" where
  "pvsrf_borrow_data pool writer =
     (case writer of
        None \<Rightarrow> None
      | Some (Own_bytes bytes) \<Rightarrow> Some bytes
      | Some (Pool_lease i) \<Rightarrow> map_option ps_bytes (pp_slots pool ! i))"

definition pvsrf_size_bytes :: "preview_surface_pool \<Rightarrow> writable_preview_surface \<Rightarrow> nat" where
  "pvsrf_size_bytes pool writer =
     (case pvsrf_borrow_data pool writer of None \<Rightarrow> 0 | Some bytes \<Rightarrow> length bytes)"

definition pvsrf_seal ::
    "writable_preview_surface \<Rightarrow> surface_storage option \<times> writable_preview_surface" where
  "pvsrf_seal writer = (writer, None)"

section \<open>The pool\<close>

definition pvpol_configure ::
    "bool \<Rightarrow> preview_geometry \<Rightarrow> u32 \<Rightarrow> u64 \<Rightarrow> preview_surface_pool \<Rightarrow>
       status \<times> preview_surface_pool" where
  "pvpol_configure alloc_ok geometry capacity max_total_bytes pool =
     (if pp_configured pool then (Invalid_state, pool)
      else if capacity = 0 \<or> unat capacity > length (pp_slots pool) \<or>
          \<not> geometry_supported geometry \<or>
          max_total_bytes = 0 \<or> max_total_bytes > pv_max_pool_bytes then (Invalid_argument, pool)
      else
        (let bytes = nvgeo_packed_bytes (geo_width geometry) (geo_height geometry) in
         if bytes > pv_max_surface_bytes \<or> bytes * ucast capacity > max_total_bytes
           then (Resource_exhausted, pool)
         else if \<not> alloc_ok then (Resource_exhausted, pool)
         else (Ok, pool\<lparr>
             pp_slots := replicate (unat capacity)
                 (Some \<lparr>ps_bytes = replicate (unat bytes) 0, ps_busy = False\<rparr>) @
               replicate (length (pp_slots pool) - unat capacity) None,
             pp_allocated_bytes := bytes * ucast capacity, pp_geometry := geometry,
             pp_configured := True\<rparr>)))"

definition slot_available :: "pool_slot option \<Rightarrow> bool" where
  "slot_available s \<longleftrightarrow> (case s of None \<Rightarrow> False | Some slot \<Rightarrow> \<not> ps_busy slot)"

definition slot_set_busy :: "bool \<Rightarrow> nat \<Rightarrow> preview_surface_pool \<Rightarrow> preview_surface_pool" where
  "slot_set_busy b i pool =
     pool\<lparr>pp_slots := (pp_slots pool)[i := map_option (\<lambda>s. s\<lparr>ps_busy := b\<rparr>) (pp_slots pool ! i)]\<rparr>"

text \<open>
  The lease is created after the flag was taken; if its control block cannot be allocated
  the deleter runs and clears the flag again.
\<close>

definition pvpol_acquire ::
    "bool \<Rightarrow> preview_surface_pool \<Rightarrow> writable_preview_surface \<Rightarrow>
       status \<times> preview_surface_pool \<times> writable_preview_surface" where
  "pvpol_acquire lease_ok pool writer =
     (if \<not> pp_configured pool \<or> writer \<noteq> None then (Invalid_state, pool, writer)
      else
        (case first_index slot_available (pp_slots pool) of
           None \<Rightarrow> (Resource_exhausted, pool, writer)
         | Some i \<Rightarrow>
             (let taken = slot_set_busy True i pool in
              if \<not> lease_ok then (Resource_exhausted, slot_set_busy False i taken, writer)
              else (Ok, taken, Some (Pool_lease i)))))"

definition pvpol_available :: "preview_surface_pool \<Rightarrow> nat" where
  "pvpol_available pool = length (filter slot_available (pp_slots pool))"

definition pvpol_allocated_bytes :: "preview_surface_pool \<Rightarrow> u64" where
  "pvpol_allocated_bytes pool = pp_allocated_bytes pool"

definition pvpol_geometry :: "preview_surface_pool \<Rightarrow> preview_geometry" where
  "pvpol_geometry pool = pp_geometry pool"

datatype pvpol_op =
    Pp_configure bool preview_geometry u32 u64
  | Pp_acquire bool
  | Pp_drop nat

fun pvpol_step :: "pvpol_op \<Rightarrow> preview_surface_pool \<Rightarrow> preview_surface_pool" where
  "pvpol_step (Pp_configure a g c m) pool = snd (pvpol_configure a g c m pool)"
| "pvpol_step (Pp_acquire a) pool = fst (snd (pvpol_acquire a pool None))"
| "pvpol_step (Pp_drop i) pool = slot_set_busy False i pool"

section \<open>The invariant\<close>

definition pool_capacity :: "preview_surface_pool \<Rightarrow> nat" where
  "pool_capacity pool = length (filter (\<lambda>s. s \<noteq> None) (pp_slots pool))"

definition pool_surface_bytes :: "preview_surface_pool \<Rightarrow> nat" where
  "pool_surface_bytes pool =
     unat (nvgeo_packed_bytes (geo_width (pp_geometry pool)) (geo_height (pp_geometry pool)))"

definition slot_sized :: "nat \<Rightarrow> pool_slot option \<Rightarrow> bool" where
  "slot_sized n s \<longleftrightarrow> (case s of None \<Rightarrow> True | Some slot \<Rightarrow> length (ps_bytes slot) = n)"

definition pvpol_inv :: "preview_surface_pool \<Rightarrow> bool" where
  "pvpol_inv pool \<longleftrightarrow> length (pp_slots pool) = pv_max_surface_slots \<and>
     unat (pp_allocated_bytes pool) = pool_capacity pool * pool_surface_bytes pool \<and>
     pp_allocated_bytes pool \<le> pv_max_pool_bytes \<and>
     list_all (slot_sized (pool_surface_bytes pool)) (pp_slots pool) \<and>
     (if pp_configured pool then geometry_supported (pp_geometry pool) \<and> 0 < pool_capacity pool
      else pool_capacity pool = 0)"

lemma pvpol_inv_initial: "pvpol_inv pvpol_initial"
  by (simp add: pvpol_inv_def pvpol_initial_def pool_capacity_def pv_max_pool_bytes_def
      list_all_iff slot_sized_def)

lemma slot_busy_fields [simp]:
  "length (pp_slots (slot_set_busy b i pool)) = length (pp_slots pool)"
  "pp_allocated_bytes (slot_set_busy b i pool) = pp_allocated_bytes pool"
  "pp_configured (slot_set_busy b i pool) = pp_configured pool"
  "pp_geometry (slot_set_busy b i pool) = pp_geometry pool"
  "pool_surface_bytes (slot_set_busy b i pool) = pool_surface_bytes pool"
  by (simp_all add: slot_set_busy_def pool_surface_bytes_def)

lemma slot_set_busy_capacity [simp]: "pool_capacity (slot_set_busy b i pool) = pool_capacity pool"
proof (cases "i < length (pp_slots pool)")
  case True
  then show ?thesis
    unfolding pool_capacity_def slot_set_busy_def
    by simp (rule length_filter_same, simp_all)
qed (simp add: pool_capacity_def slot_set_busy_def list_update_beyond)

lemma slot_set_busy_inv: "pvpol_inv pool \<Longrightarrow> pvpol_inv (slot_set_busy b i pool)"
proof -
  assume inv: "pvpol_inv pool"
  have "slot_sized n (map_option (\<lambda>s. s\<lparr>ps_busy := b\<rparr>) s) = slot_sized n s" for n s
    by (simp add: slot_sized_def split: option.split)
  then have "list_all (slot_sized n) (pp_slots (slot_set_busy b i pool))"
    if "list_all (slot_sized n) (pp_slots pool)" for n
    using that unfolding slot_set_busy_def list_all_length
    by (cases "i < length (pp_slots pool)") (auto simp: nth_list_update)
  with inv show ?thesis by (simp add: pvpol_inv_def)
qed

lemma pvpol_configure_Ok:
  assumes "fst (pvpol_configure a g c m pool) = Ok"
  shows "\<not> pp_configured pool" "c \<noteq> 0" "unat c \<le> length (pp_slots pool)" "geometry_supported g"
    "m \<le> pv_max_pool_bytes" "nvgeo_packed_bytes (geo_width g) (geo_height g) \<le> pv_max_surface_bytes"
    "nvgeo_packed_bytes (geo_width g) (geo_height g) * ucast c \<le> m"
  using assms by (auto simp: pvpol_configure_def Let_def not_less split: if_splits)

lemma pvpol_configure_inv: "pvpol_inv pool \<Longrightarrow> pvpol_inv (snd (pvpol_configure a g c m pool))"
proof -
  assume inv: "pvpol_inv pool"
  let ?q = "snd (pvpol_configure a g c m pool)" and ?b = "nvgeo_packed_bytes (geo_width g) (geo_height g)"
  show ?thesis
  proof (cases "fst (pvpol_configure a g c m pool) = Ok")
    case False
    then have "?q = pool" by (auto simp: pvpol_configure_def Let_def split: if_splits)
    with inv show ?thesis by simp
  next
    case True
    note k = pvpol_configure_Ok [OF True]
    have q: "?q = pool\<lparr>
             pp_slots := replicate (unat c) (Some \<lparr>ps_bytes = replicate (unat ?b) 0, ps_busy = False\<rparr>) @
               replicate (length (pp_slots pool) - unat c) None,
             pp_allocated_bytes := ?b * ucast c, pp_geometry := g, pp_configured := True\<rparr>"
      using True by (auto simp: pvpol_configure_def Let_def split: if_splits)
    have len: "length (pp_slots pool) = 4" using inv by (simp add: pvpol_inv_def pv_max_surface_slots_def)
    have "unat ?b \<le> 67108864" "unat c \<le> 4"
      using k(3,6) len by (simp_all add: word_le_nat_alt pv_max_surface_bytes_def)
    then have "unat ?b * unat c \<le> 67108864 * 4" by (rule mult_le_mono)
    then have u: "unat (?b * ucast c) = unat ?b * unat c"
      by (subst unat_mult_exact) simp_all
    have "0 < unat c" using k(2) by (simp add: unat_gt_0)
    then show ?thesis
      using inv k(3,4) u order_trans [OF k(7,5)]
      by (simp add: q pvpol_inv_def pool_capacity_def pool_surface_bytes_def list_all_iff
          slot_sized_def mult.commute)
  qed
qed

lemma pvpol_acquire_inv: "pvpol_inv pool \<Longrightarrow> pvpol_inv (fst (snd (pvpol_acquire a pool w)))"
  by (auto simp: pvpol_acquire_def Let_def slot_set_busy_inv split: option.split)

lemma pvpol_step_inv: "pvpol_inv pool \<Longrightarrow> pvpol_inv (pvpol_step op pool)"
  by (cases op) (simp_all add: pvpol_configure_inv pvpol_acquire_inv slot_set_busy_inv)

section \<open>Leases are exclusive\<close>

definition leased :: "preview_surface_pool \<Rightarrow> nat set" where
  "leased pool = {i. i < length (pp_slots pool) \<and>
     (case pp_slots pool ! i of None \<Rightarrow> False | Some s \<Rightarrow> ps_busy s)}"

fun pvpol_gives_back :: "pvpol_op \<Rightarrow> nat set" where
  "pvpol_gives_back (Pp_drop i) = {i}"
| "pvpol_gives_back _ = {}"

lemma drops_iff: "i \<in> pvpol_gives_back a \<longleftrightarrow> a = Pp_drop i"
  by (cases a) auto

lemma leased_other:
  "i \<in> leased pool \<Longrightarrow> i \<noteq> k \<or> b \<Longrightarrow> i \<in> leased (slot_set_busy b k pool)"
  by (cases "i = k") (auto simp: leased_def slot_set_busy_def split: option.splits)

lemma leased_unavailable:
  "i \<in> leased pool \<Longrightarrow> first_index slot_available (pp_slots pool) = Some k \<Longrightarrow> k \<noteq> i"
  by (drule first_index_Some) (auto simp: leased_def slot_available_def split: option.splits)

interpretation pvpol: held_resources pvpol_step pvpol_inv leased pvpol_gives_back
proof unfold_locales
  show "pvpol_inv (pvpol_step a p)" if "pvpol_inv p" for p a
    using that by (rule pvpol_step_inv)
  show "i \<in> leased (pvpol_step a p)"
    if "pvpol_inv p" "i \<in> leased p" "i \<notin> pvpol_gives_back a" for p i a
  proof (cases a)
    case (Pp_configure x g c m)
    have "pp_configured p"
    proof (rule ccontr)
      assume "\<not> pp_configured p"
      then have "filter (\<lambda>s. s \<noteq> None) (pp_slots p) = []"
        using that(1) by (simp add: pvpol_inv_def pool_capacity_def)
      then have "pp_slots p ! i = None" if "i < length (pp_slots p)"
        using that by (auto simp: filter_empty_conv)
      with that(2) show False by (auto simp: leased_def)
    qed
    with that(2) Pp_configure show ?thesis by (simp add: pvpol_configure_def)
  next
    case (Pp_acquire x)
    then show ?thesis
      using that(2) leased_unavailable [OF that(2)]
      by (auto simp: pvpol_acquire_def Let_def intro!: leased_other split: option.split)
  next
    case (Pp_drop k)
    with that(2,3) show ?thesis by (simp add: leased_other)
  qed
qed

section \<open>Properties\<close>

text \<open>
  The pool's memory is exact and bounded: after any calls, allocation failures
  included, the reported bytes are the number of preallocated surfaces times the packed
  size of the geometry (no 64-bit wrap-around), at most the 256 MiB pool limit, every
  surface has exactly that size, and an unconfigured pool owns nothing.
\<close>

lemma pvpol_memory_exact:
  "let pool = fold pvpol_step ops pvpol_initial in
     unat (pvpol_allocated_bytes pool) =
       length (filter (\<lambda>s. s \<noteq> None) (pp_slots pool)) *
       unat (nvgeo_packed_bytes (geo_width (pvpol_geometry pool)) (geo_height (pvpol_geometry pool))) \<and>
     pvpol_allocated_bytes pool \<le> pv_max_pool_bytes \<and>
     list_all (slot_sized (pool_surface_bytes pool)) (pp_slots pool) \<and>
     (if pp_configured pool then geometry_supported (pvpol_geometry pool)
      else pvpol_allocated_bytes pool = 0)"
proof -
  have inv: "pvpol_inv (fold pvpol_step ops pvpol_initial)"
    by (rule pvpol.run_inv [OF pvpol_inv_initial])
  then show ?thesis
    unfolding Let_def pvpol_inv_def pvpol_allocated_bytes_def pvpol_geometry_def pool_capacity_def
      pool_surface_bytes_def
    by (simp add: word_unat_eq_iff split: if_splits)
qed

text \<open>
  Leased pixels are exclusive: until the last owner of a lease drops it, no other
  acquire returns the same surface, whatever is called in between.
\<close>

lemma pvpol_lease_exclusive:
  assumes "pvpol_inv pool" and "pvpol_acquire ok1 pool None = (Ok, pool1, Some (Pool_lease i))"
    and "Pp_drop i \<notin> set ops"
  shows "snd (snd (pvpol_acquire ok2 (fold pvpol_step ops pool1) None)) \<noteq> Some (Pool_lease i)"
proof -
  let ?p = "fold pvpol_step ops pool1"
  have f: "first_index slot_available (pp_slots pool) = Some i" "pool1 = slot_set_busy True i pool"
    using assms(2) by (auto simp: pvpol_acquire_def Let_def split: if_splits option.splits)
  have inv1: "pvpol_inv pool1" using slot_set_busy_inv [OF assms(1)] f(2) by simp
  have "i \<in> leased pool1"
    using first_index_Some [OF f(1)]
    by (auto simp: f(2) leased_def slot_set_busy_def slot_available_def split: option.splits)
  then have "i \<in> leased ?p"
    using pvpol.run_held [OF inv1] assms(3) by (auto simp: drops_iff)
  from leased_unavailable [OF this] show ?thesis
    by (auto simp: pvpol_acquire_def Let_def split: option.split)
qed

theorem pvpol_lease_exclusive_witness:
  "let p1 = fst (snd (pvpol_acquire True (pvpol_step
          (Pp_configure True \<lparr>geo_width = 2, geo_height = 2\<rparr> 2 12) pvpol_initial) None))
   in snd (snd (pvpol_acquire True (fold pvpol_step [Pp_acquire False, Pp_drop 1] p1) None)) \<noteq>
        Some (Pool_lease 0)"
proof -
  let ?p = "pvpol_step (Pp_configure True \<lparr>geo_width = 2, geo_height = 2\<rparr> 2 12) pvpol_initial"
  have inv: "pvpol_inv ?p" by (rule pvpol_step_inv [OF pvpol_inv_initial])
  have r: "fst (pvpol_acquire True ?p None) = Ok"
    "snd (snd (pvpol_acquire True ?p None)) = Some (Pool_lease 0)" by code_simp+
  have acq: "pvpol_acquire True ?p None =
      (Ok, fst (snd (pvpol_acquire True ?p None)), Some (Pool_lease 0))"
    using r by (metis prod.collapse)
  have "Pp_drop 0 \<notin> set [Pp_acquire False, Pp_drop 1]" by simp
  from pvpol_lease_exclusive [OF inv acq this] show ?thesis unfolding Let_def by blast
qed

end
