(* ===== verification/Inference_Plan.thy ===== *)
theory Inference_Plan
  imports Preview_Contract Tensor_Contract
begin

text \<open>
  The preprocess contract and the single-image inference plan:
  contracts/vqec_vision_image_enums.hpp, contracts/vqec_vision_preprocess_spec.hpp with
  core/vqec_vision_preprocess_spec.cpp (prefix \<open>ppspc\<close>), and
  contracts/vqec_vision_inference_plan.hpp with core/vqec_vision_inference_plan.cpp (prefix
  \<open>infpl\<close>), whose lexical path check is shown to exclude path traversal.
\<close>

section \<open>Preprocess contract\<close>

datatype channel_order = Order_rgb | Order_bgr | Unlisted_channel_order u32

datatype image_placement =
    Place_unspecified | Place_top_left | Place_centre | Place_stretch | Unlisted_placement u32

datatype source_pixel_format =
    Format_unknown | Format_nv12 | Format_rgb888 | Format_bgr888 | Format_rgba8888
  | Unlisted_pixel_format u32

datatype color_matrix =
    Matrix_unspecified | Matrix_bt601 | Matrix_bt709 | Matrix_bt2020 | Unlisted_matrix u32

datatype color_range = Range_unspecified | Range_limited | Range_full | Unlisted_range u32

datatype resize_mode = Resize_stretch | Resize_letterbox | Resize_crop | Unlisted_resize u32

datatype interpolation_mode =
    Interp_nearest | Interp_bilinear | Interp_area | Unlisted_interpolation u32

datatype normalization_formula =
    Norm_offset_scale | Norm_mean_std | Norm_none | Unlisted_normalization u32

datatype coordinate_convention =
    Coord_tensor_pixels_xywh | Coord_tensor_pixels_xyxy | Coord_normalized_xywh
  | Coord_normalized_xyxy | Unlisted_coordinates u32

record preprocess_spec =
  pps_source_format :: source_pixel_format
  pps_matrix :: color_matrix
  pps_range :: color_range
  pps_resize :: resize_mode
  pps_interpolation :: interpolation_mode
  pps_placement :: image_placement
  pps_pad_value :: channel_values
  pps_channels :: channel_order
  pps_normalization :: normalization_formula
  pps_offset :: channel_values
  pps_scale :: channel_values
  pps_coordinates :: coordinate_convention

definition ppspc_finite_in_range :: "fp \<Rightarrow> rat \<Rightarrow> rat \<Rightarrow> bool" where
  "ppspc_finite_in_range v low high = fp_in_range v low high"

definition explicit_placement :: "image_placement \<Rightarrow> bool" where
  "explicit_placement p \<longleftrightarrow> p \<in> {Place_top_left, Place_centre, Place_stretch}"

definition known_channel_order :: "channel_order \<Rightarrow> bool" where
  "known_channel_order c \<longleftrightarrow> c \<in> {Order_rgb, Order_bgr}"

definition ppspc_validate :: "preprocess_spec \<Rightarrow> status" where
  "ppspc_validate s =
     (if pps_source_format s \<notin> {Format_nv12, Format_rgb888, Format_bgr888, Format_rgba8888}
        then Invalid_argument
      else if pps_matrix s \<notin> {Matrix_bt601, Matrix_bt709, Matrix_bt2020} then Invalid_argument
      else if pps_range s \<notin> {Range_limited, Range_full} then Invalid_argument
      else if pps_resize s \<notin> {Resize_stretch, Resize_letterbox, Resize_crop}
        then Invalid_argument
      else if pps_interpolation s \<notin> {Interp_nearest, Interp_bilinear, Interp_area}
        then Invalid_argument
      else if \<not> explicit_placement (pps_placement s) then Invalid_argument
      else if \<not> list_all (\<lambda>pad. ppspc_finite_in_range pad 0 255) (channel_list (pps_pad_value s))
        then Invalid_argument
      else if \<not> known_channel_order (pps_channels s) then Invalid_argument
      else if pps_normalization s \<notin> {Norm_offset_scale, Norm_mean_std, Norm_none}
        then Invalid_argument
      else if \<not> list_all fp_is_finite (channel_list (pps_offset s)) then Invalid_argument
      else if \<not> list_all (\<lambda>v. fp_is_finite v \<and> \<not> fp_eq v (Finite 0)) (channel_list (pps_scale s))
        then Invalid_argument
      else if pps_coordinates s \<notin> {Coord_tensor_pixels_xywh, Coord_tensor_pixels_xyxy,
          Coord_normalized_xywh, Coord_normalized_xyxy} then Invalid_argument
      else Ok)"

section \<open>The plan\<close>

definition infpl_min_tensor_dimension :: u32 where "infpl_min_tensor_dimension = 8"
definition infpl_max_tensor_dimension :: u32 where "infpl_max_tensor_dimension = 4096"
definition infpl_max_fps_numerator :: u32 where "infpl_max_fps_numerator = 240000"
definition infpl_max_fps_denominator :: u32 where "infpl_max_fps_denominator = 10000"
definition infpl_max_frames_per_second :: u32 where "infpl_max_frames_per_second = 240"
definition infpl_max_input_queue_bytes :: u64 where
  "infpl_max_input_queue_bytes = 256 * 1024 * 1024"
definition infpl_max_output_queue_buffers :: u32 where "infpl_max_output_queue_buffers = 16"
definition infpl_max_path_bytes :: nat where "infpl_max_path_bytes = 4096"

record inference_plan =
  ip_source_width :: u32
  ip_source_height :: u32
  ip_fps_numerator :: u32
  ip_fps_denominator :: u32
  ip_tensor_width :: u32
  ip_tensor_height :: u32
  ip_input_type :: tensor_element_type
  ip_channel_order :: channel_order
  ip_placement :: image_placement
  ip_mean :: channel_values
  ip_sigma :: channel_values
  ip_preprocess :: preprocess_spec
  ip_model_path :: string
  ip_backend_path :: string
  ip_system_path :: string
  ip_input_queue_bytes :: u64
  ip_output_queue_buffers :: u32

text \<open>\<open>path.find(needle) != npos\<close>\<close>

fun contains :: "string \<Rightarrow> string \<Rightarrow> bool" where
  "contains needle [] = (needle = [])"
| "contains needle (c # cs) =
     (take (length needle) (c # cs) = needle \<or> contains needle cs)"

definition infpl_is_absolute_path :: "string \<Rightarrow> bool" where
  "infpl_is_absolute_path path \<longleftrightarrow>
     path \<noteq> [] \<and> hd path = CHR ''/'' \<and> length path \<le> infpl_max_path_bytes \<and>
     list_all (\<lambda>c. (of_char c :: u8) \<ge> 32 \<and> c \<noteq> CHR 0x5C) path \<and>
     \<not> contains ''/../'' path \<and> \<not> contains ''/./'' path \<and>
     take 3 (drop (length path - 3) path) \<noteq> ''/..'' \<and>
     take 2 (drop (length path - 2) path) \<noteq> ''/.''"

definition infpl_has_suffix :: "string \<Rightarrow> string \<Rightarrow> bool" where
  "infpl_has_suffix path suff \<longleftrightarrow>
     length path \<ge> length suff \<and> take (length suff) (drop (length path - length suff) path) = suff"

definition infpl_get_packed_frame_bytes :: "inference_plan \<Rightarrow> u64" where
  "infpl_get_packed_frame_bytes p =
     (if ip_source_width p > pv_max_dimension_pixels \<or> ip_source_height p > pv_max_dimension_pixels
      then 0 else nvgeo_packed_bytes (ip_source_width p) (ip_source_height p))"

text \<open>The mean and sigma range checks that the plan and the catalog entry share.\<close>

definition normalization_in_range :: "channel_values \<Rightarrow> channel_values \<Rightarrow> bool" where
  "normalization_in_range mean sigma \<longleftrightarrow>
     list_all2 (\<lambda>m s. \<not> (\<not> fp_is_finite m \<or> fp_less m (Finite 0) \<or> fp_less (Finite 255) m \<or>
         \<not> fp_is_finite s \<or> fp_le s (Finite 0) \<or> fp_less (Finite 255) s))
       (channel_list mean) (channel_list sigma)"

definition custom_normalization :: "channel_values \<Rightarrow> channel_values \<Rightarrow> bool" where
  "custom_normalization mean sigma \<longleftrightarrow>
     \<not> channels_eq mean (Finite 0, Finite 0, Finite 0) \<or>
     \<not> channels_eq sigma (Finite 1, Finite 1, Finite 1)"

definition unsupported_input_type :: "tensor_element_type \<Rightarrow> bool" where
  "unsupported_input_type t \<longleftrightarrow>
     tnctr_element_size t = 0 \<or> t = Elem_int64 \<or> t = Elem_uint64"

definition infpl_validate_plan :: "inference_plan \<Rightarrow> status" where
  "infpl_validate_plan p =
     (let frame_bytes = infpl_get_packed_frame_bytes p in
      if frame_bytes = 0 then Invalid_argument
      else if ip_tensor_width p < infpl_min_tensor_dimension \<or>
          ip_tensor_height p < infpl_min_tensor_dimension \<or>
          ip_tensor_width p > infpl_max_tensor_dimension \<or>
          ip_tensor_height p > infpl_max_tensor_dimension then Invalid_argument
      else if ip_fps_numerator p = 0 \<or> ip_fps_denominator p = 0 \<or>
          ip_fps_numerator p > infpl_max_fps_numerator \<or>
          ip_fps_denominator p > infpl_max_fps_denominator \<or>
          (ucast (ip_fps_numerator p) :: u64) >
            ucast infpl_max_frames_per_second * ucast (ip_fps_denominator p)
        then Invalid_argument
      else if \<not> explicit_placement (ip_placement p) then Invalid_argument
      else if unsupported_input_type (ip_input_type p) then Unsupported
      else if \<not> known_channel_order (ip_channel_order p) then Invalid_argument
      else if \<not> normalization_in_range (ip_mean p) (ip_sigma p) then Invalid_argument
      else if ip_input_type p \<noteq> Elem_float32 \<and> custom_normalization (ip_mean p) (ip_sigma p)
        then Unsupported
      else if \<not> infpl_is_absolute_path (ip_model_path p) \<or>
          \<not> (infpl_has_suffix (ip_model_path p) ''.bin'' \<or>
             infpl_has_suffix (ip_model_path p) ''.so'') \<or>
          \<not> infpl_is_absolute_path (ip_backend_path p) \<or>
          \<not> infpl_is_absolute_path (ip_system_path p) then Invalid_argument
      else if ip_input_queue_bytes p < frame_bytes \<or>
          ip_input_queue_bytes p > infpl_max_input_queue_bytes \<or>
          ip_output_queue_buffers p = 0 \<or>
          ip_output_queue_buffers p > infpl_max_output_queue_buffers then Invalid_argument
      else Ok)"

section \<open>Paths as components\<close>

fun path_components :: "string \<Rightarrow> string list" where
  "path_components [] = [[]]"
| "path_components (c # cs) =
     (if c = CHR ''/'' then [] # path_components cs
      else (c # hd (path_components cs)) # tl (path_components cs))"

lemma path_components_ne: "path_components p \<noteq> []"
  by (induction p) auto

lemma contains_append: "contains needle (a @ needle @ b)"
proof (induction a)
  case Nil
  then show ?case by (cases needle; cases b) auto
next
  case (Cons x a)
  then show ?case by simp
qed

text \<open>The first component ends at a slash; every later one lies between two slashes.\<close>

lemma component_first: "\<exists>b. p @ ''/'' = hd (path_components p) @ ''/'' @ b"
proof (induction p)
  case (Cons c cs)
  then show ?case by (cases "c = CHR ''/''") auto
qed simp

lemma component_delimited:
  "w \<in> set (tl (path_components p)) \<Longrightarrow> \<exists>a b. p @ ''/'' = a @ ''/'' @ w @ ''/'' @ b"
proof (induction p)
  case Nil
  then show ?case by simp
next
  case (Cons c cs)
  obtain h t where ht: "path_components cs = h # t"
    using path_components_ne [of cs] by (cases "path_components cs") auto
  show ?case
  proof (cases "c = CHR ''/'' \<and> w = h")
    case True
    obtain b where "cs @ ''/'' = h @ ''/'' @ b" using component_first [of cs] ht by auto
    with True have "(c # cs) @ ''/'' = [] @ ''/'' @ w @ ''/'' @ b" by simp
    then show ?thesis by blast
  next
    case False
    with Cons.prems ht have "w \<in> set (tl (path_components cs))" by (auto split: if_splits)
    then obtain a b where "cs @ ''/'' = a @ ''/'' @ w @ ''/'' @ b" using Cons.IH by blast
    then show ?thesis by (intro exI [of _ "c # a"] exI [of _ b]) simp
  qed
qed

lemma dot_component:
  assumes abs: "infpl_is_absolute_path p" and w: "w \<in> set (path_components p)" and "w \<noteq> []"
  shows "contains (''/'' @ w @ ''/'') p \<or>
    take (Suc (length w)) (drop (length p - Suc (length w)) p) = ''/'' @ w"
proof -
  obtain q where p: "p = CHR ''/'' # q"
    using abs by (cases p) (auto simp: infpl_is_absolute_path_def)
  with w \<open>w \<noteq> []\<close> have "w \<in> set (tl (path_components p))" by simp
  then obtain a b where ab: "p @ ''/'' = a @ ''/'' @ w @ ''/'' @ b"
    using component_delimited by blast
  show ?thesis
  proof (cases b rule: rev_cases)
    case Nil
    with ab have "p = a @ ''/'' @ w" by simp
    then show ?thesis by simp
  next
    case (snoc b' x)
    with ab have "p = a @ (''/'' @ w @ ''/'') @ b'" by simp
    then show ?thesis using contains_append by metis
  qed
qed

lemma absolute_path_no_dots:
  assumes "infpl_is_absolute_path p"
  shows "''..'' \<notin> set (path_components p)" and "''.'' \<notin> set (path_components p)"
  using dot_component [OF assms, of "''..''"] dot_component [OF assms, of "''.''"] assms
  by (auto simp: infpl_is_absolute_path_def eval_nat_numeral)

section \<open>Properties\<close>

text \<open>
  An accepted plan cannot traverse directories and cannot starve its queue: all three
  paths are rooted, of bounded length and contain no \<open>.\<close> or \<open>..\<close> component, and the input
  queue holds at least one packed frame whose size is exactly 3/2 bytes per pixel.
\<close>

lemma infpl_plan_safe:
  assumes "infpl_validate_plan p = Ok"
  shows "list_all (\<lambda>path. hd path = CHR ''/'' \<and> length path \<le> 4096 \<and>
      ''..'' \<notin> set (path_components path) \<and> ''.'' \<notin> set (path_components path))
      [ip_model_path p, ip_backend_path p, ip_system_path p] \<and>
    2 * unat (infpl_get_packed_frame_bytes p) =
      3 * (unat (ip_source_width p) * unat (ip_source_height p)) \<and>
    0 < unat (infpl_get_packed_frame_bytes p) \<and>
    unat (infpl_get_packed_frame_bytes p) \<le> unat (ip_input_queue_bytes p)"
proof -
  have paths: "infpl_is_absolute_path (ip_model_path p)" "infpl_is_absolute_path (ip_backend_path p)"
      "infpl_is_absolute_path (ip_system_path p)"
    and nz: "infpl_get_packed_frame_bytes p \<noteq> 0"
    and q: "infpl_get_packed_frame_bytes p \<le> ip_input_queue_bytes p"
    using assms unfolding infpl_validate_plan_def Let_def by (simp_all add: not_less split: if_splits)
  have one: "hd path = CHR ''/'' \<and> length path \<le> 4096 \<and>
      ''..'' \<notin> set (path_components path) \<and> ''.'' \<notin> set (path_components path)"
    if "infpl_is_absolute_path path" for path
    using absolute_path_no_dots [OF that] that
    by (simp add: infpl_is_absolute_path_def infpl_max_path_bytes_def)
  have dims: "unat (ip_source_width p) \<le> 8192" "unat (ip_source_height p) \<le> 8192"
      "nvgeo_is_even_nonzero (ip_source_width p) (ip_source_height p)"
    and b: "infpl_get_packed_frame_bytes p = nvgeo_packed_bytes (ip_source_width p) (ip_source_height p)"
    using nz by (auto simp: infpl_get_packed_frame_bytes_def nvgeo_packed_bytes_def word_le_nat_alt
        pv_max_dimension_pixels_def not_less split: if_splits)
  show ?thesis
    using one [OF paths(1)] one [OF paths(2)] one [OF paths(3)] packed_bytes_exact [OF dims(3,1,2)]
      nz q b by (simp add: word_le_nat_alt unat_gt_0)
qed

definition demo_preprocess :: preprocess_spec where
  "demo_preprocess = \<lparr>pps_source_format = Format_nv12, pps_matrix = Matrix_bt709,
     pps_range = Range_full, pps_resize = Resize_letterbox, pps_interpolation = Interp_bilinear,
     pps_placement = Place_centre, pps_pad_value = (Finite 0, Finite 0, Finite 0),
     pps_channels = Order_rgb, pps_normalization = Norm_offset_scale,
     pps_offset = (Finite 0, Finite 0, Finite 0), pps_scale = (Finite 1, Finite 1, Finite 1),
     pps_coordinates = Coord_tensor_pixels_xywh\<rparr>"

definition demo_plan :: inference_plan where
  "demo_plan = \<lparr>ip_source_width = 4, ip_source_height = 2, ip_fps_numerator = 30,
     ip_fps_denominator = 1, ip_tensor_width = 8, ip_tensor_height = 8,
     ip_input_type = Elem_uint8, ip_channel_order = Order_rgb, ip_placement = Place_centre,
     ip_mean = (Finite 0, Finite 0, Finite 0), ip_sigma = (Finite 1, Finite 1, Finite 1),
     ip_preprocess = demo_preprocess, ip_model_path = ''/m/a.bin'', ip_backend_path = ''/b'',
     ip_system_path = ''/s'', ip_input_queue_bytes = 12, ip_output_queue_buffers = 2\<rparr>"

theorem infpl_plan_safe_witness:
  "infpl_validate_plan demo_plan = Ok \<and>
   2 * unat (infpl_get_packed_frame_bytes demo_plan) = 3 * (unat (4 :: u32) * unat (2 :: u32))"
proof -
  have ok: "infpl_validate_plan demo_plan = Ok" by code_simp
  have "ip_source_width demo_plan = 4" "ip_source_height demo_plan = 2"
    by (simp_all add: demo_plan_def)
  with infpl_plan_safe [OF ok] ok show ?thesis by simp
qed

end
