(* ===== verification/Deployment_Config.thy ===== *)
theory Deployment_Config
  imports Identifiers Inference_Plan
begin

text \<open>
  The multi-source deployment configuration and its memory budget:
  contracts/vqec_vision_deployment_config.hpp and core/vqec_vision_deployment_config.cpp
  (prefix \<open>dpval\<close>). The guarded 64-bit sums are shown to be the exact sums.
\<close>

section \<open>Data\<close>

definition dpl_schema_version :: u32 where "dpl_schema_version = 1"
definition dpl_max_sources :: nat where "dpl_max_sources = 16"
definition dpl_max_models_per_source :: nat where "dpl_max_models_per_source = 16"
definition dpl_max_identifier_bytes :: nat where "dpl_max_identifier_bytes = 128"
definition dpl_max_dimension_pixels :: u32 where "dpl_max_dimension_pixels = 8192"
definition dpl_max_frames_per_second :: u32 where "dpl_max_frames_per_second = 240"
definition dpl_max_inflight_frames_per_source :: u32 where
  "dpl_max_inflight_frames_per_source = 4"
definition dpl_max_preview_surfaces_per_source :: u32 where
  "dpl_max_preview_surfaces_per_source = 4"
definition dpl_max_cascade_frames_per_source :: u32 where "dpl_max_cascade_frames_per_source = 4"
definition dpl_max_cascade_tasks_per_frame :: u32 where "dpl_max_cascade_tasks_per_frame = 256"
definition dpl_max_cascade_bytes_per_source :: u64 where
  "dpl_max_cascade_bytes_per_source = 512 * 1024 * 1024"
definition dpl_max_frame_allocation_bytes :: u64 where
  "dpl_max_frame_allocation_bytes = 256 * 1024 * 1024"
definition dpl_max_tensor_bytes_per_source :: u64 where
  "dpl_max_tensor_bytes_per_source = 64 * 1024 * 1024"
definition dpl_max_temporal_bytes_per_source :: u64 where
  "dpl_max_temporal_bytes_per_source = 256 * 1024 * 1024"
definition dpl_max_total_resident_bytes :: u64 where
  "dpl_max_total_resident_bytes = 8 * 1024 * 1024 * 1024"

record source_profile_config =
  pf_width :: u32
  pf_height :: u32
  pf_fps_numerator :: u32
  pf_fps_denominator :: u32

record source_memory_config =
  sm_max_frame_allocation_bytes :: u64
  sm_max_inflight_frames :: u32
  sm_preview_surface_count :: u32
  sm_max_tensor_bytes :: u64
  sm_max_temporal_bytes :: u64

record source_cascade_config =
  cc_frames :: u32
  cc_tasks_per_frame :: u32
  cc_max_bytes :: u64

record source_deployment_config =
  sd_source_id :: string
  sd_raw_source_ref :: string
  sd_camera_id :: u32
  sd_channel_id :: u32
  sd_preview_output_ref :: string
  sd_profile :: source_profile_config
  sd_memory :: source_memory_config
  sd_cascade :: source_cascade_config
  sd_model_ids :: "string list"

record deployment_config =
  dc_schema_version :: u32
  dc_revision :: u64
  dc_model_catalog_ref :: string
  dc_max_total_resident_bytes :: u64
  dc_max_model_resident_bytes :: u64
  dc_sources :: "source_deployment_config list"

section \<open>Validation\<close>

definition dpval_is_identifier :: "string \<Rightarrow> bool" where
  "dpval_is_identifier v = ident_is_valid v dpl_max_identifier_bytes"

definition dpval_add_bytes :: "u64 \<Rightarrow> u64 \<Rightarrow> u64 option" where
  "dpval_add_bytes bytes sofar = checked_add bytes sofar"

definition dpval_multiply_bytes :: "u64 \<Rightarrow> u32 \<Rightarrow> u64 option" where
  "dpval_multiply_bytes bytes count = checked_mul bytes (ucast count)"

definition dpval_packed_bytes :: "source_deployment_config \<Rightarrow> u64" where
  "dpval_packed_bytes s = nvgeo_packed_bytes (pf_width (sd_profile s)) (pf_height (sd_profile s))"

definition dpval_check_profile :: "source_deployment_config \<Rightarrow> status" where
  "dpval_check_profile s =
     (let profile = sd_profile s; memory = sd_memory s in
      if \<not> dpval_is_identifier (sd_source_id s) \<or> \<not> dpval_is_identifier (sd_raw_source_ref s) \<or>
         pf_width profile = 0 \<or> pf_height profile = 0 \<or>
         pf_width profile > dpl_max_dimension_pixels \<or>
         pf_height profile > dpl_max_dimension_pixels \<or>
         \<not> nvgeo_is_even_nonzero (pf_width profile) (pf_height profile) \<or>
         pf_fps_numerator profile = 0 \<or> pf_fps_denominator profile = 0 \<or>
         (ucast (pf_fps_numerator profile) :: u64) >
           ucast dpl_max_frames_per_second * ucast (pf_fps_denominator profile) \<or>
         sm_max_frame_allocation_bytes memory = 0 \<or>
         sm_max_frame_allocation_bytes memory > dpl_max_frame_allocation_bytes \<or>
         sm_max_inflight_frames memory = 0 \<or>
         sm_max_inflight_frames memory > dpl_max_inflight_frames_per_source \<or>
         sm_preview_surface_count memory > dpl_max_preview_surfaces_per_source \<or>
         sm_max_tensor_bytes memory = 0 \<or>
         sm_max_tensor_bytes memory > dpl_max_tensor_bytes_per_source \<or>
         sm_max_temporal_bytes memory > dpl_max_temporal_bytes_per_source \<or>
         sd_model_ids s = [] \<or> length (sd_model_ids s) > dpl_max_models_per_source
      then Invalid_argument else Ok)"

definition dpval_check_preview :: "source_deployment_config \<Rightarrow> status" where
  "dpval_check_preview s =
     (let memory = sd_memory s in
      if sm_max_frame_allocation_bytes memory < dpval_packed_bytes s \<or>
         (if sm_preview_surface_count memory \<noteq> 0
          then \<not> dpval_is_identifier (sd_preview_output_ref s)
          else sd_preview_output_ref s \<noteq> [])
      then Invalid_argument else Ok)"

definition dpval_check_cascade :: "source_deployment_config \<Rightarrow> status" where
  "dpval_check_cascade s =
     (let cascade = sd_cascade s;
          cascade_zero = cc_frames cascade = 0 \<and> cc_tasks_per_frame cascade = 0 \<and>
            cc_max_bytes cascade = 0;
          cascade_set = cc_frames cascade \<noteq> 0 \<and> cc_tasks_per_frame cascade \<noteq> 0 \<and>
            cc_max_bytes cascade \<noteq> 0
      in if \<not> cascade_zero \<and> \<not> cascade_set then Invalid_argument
         else if cascade_set \<and>
             (cc_frames cascade > dpl_max_cascade_frames_per_source \<or>
              cc_tasks_per_frame cascade > dpl_max_cascade_tasks_per_frame \<or>
              cc_max_bytes cascade > dpl_max_cascade_bytes_per_source) then Invalid_argument
         else Ok)"

definition dpval_check_unique ::
    "source_deployment_config list \<Rightarrow> source_deployment_config \<Rightarrow> status" where
  "dpval_check_unique seen s =
     (if \<exists>p \<in> set seen. sd_source_id p = sd_source_id s \<or>
           sd_raw_source_ref p = sd_raw_source_ref s \<or>
           (sd_camera_id p = sd_camera_id s \<and> sd_channel_id p = sd_channel_id s) \<or>
           (sd_preview_output_ref s \<noteq> [] \<and> sd_preview_output_ref p = sd_preview_output_ref s)
      then Invalid_argument else Ok)"

definition dpval_check_model :: "string list \<Rightarrow> string \<Rightarrow> status" where
  "dpval_check_model seen m =
     (if \<not> dpval_is_identifier m then Invalid_argument
      else if m \<in> set seen then Invalid_argument else Ok)"

definition dpval_check_source ::
    "source_deployment_config list \<Rightarrow> source_deployment_config \<Rightarrow> status" where
  "dpval_check_source seen s =
     and_then (dpval_check_profile s) (and_then (dpval_check_preview s)
       (and_then (dpval_check_cascade s) (and_then (dpval_check_unique seen s)
         (validate_items dpval_check_model [] (sd_model_ids s)))))"

definition dpval_add_source :: "source_deployment_config \<Rightarrow> u64 \<Rightarrow> u64 option" where
  "dpval_add_source s t0 =
     (let memory = sd_memory s in
      case dpval_multiply_bytes (sm_max_frame_allocation_bytes memory) (sm_max_inflight_frames memory) of
        None \<Rightarrow> None
      | Some camera_bytes \<Rightarrow>
      (case dpval_multiply_bytes (dpval_packed_bytes s) (sm_preview_surface_count memory) of
        None \<Rightarrow> None
      | Some preview_bytes \<Rightarrow>
      (case dpval_add_bytes camera_bytes t0 of None \<Rightarrow> None | Some t1 \<Rightarrow>
      (case dpval_add_bytes preview_bytes t1 of None \<Rightarrow> None | Some t2 \<Rightarrow>
      (case dpval_add_bytes (sm_max_tensor_bytes memory) t2 of None \<Rightarrow> None | Some t3 \<Rightarrow>
      (case dpval_add_bytes (sm_max_temporal_bytes memory) t3 of None \<Rightarrow> None | Some t4 \<Rightarrow>
       dpval_add_bytes (cc_max_bytes (sd_cascade s)) t4))))))"

fun dpval_sources_from ::
    "u64 \<Rightarrow> source_deployment_config list \<Rightarrow> u64 \<Rightarrow> source_deployment_config list \<Rightarrow>
       status \<times> u64" where
  "dpval_sources_from limit seen sofar [] = (Ok, sofar)"
| "dpval_sources_from limit seen sofar (s # rest) =
     (let valid = dpval_check_source seen s in
      if valid \<noteq> Ok then (valid, sofar)
      else
        (case dpval_add_source s sofar of
           None \<Rightarrow> (Resource_exhausted, sofar)
         | Some t \<Rightarrow>
             if t > limit then (Resource_exhausted, sofar)
             else dpval_sources_from limit (seen @ [s]) t rest))"

definition dpval_check_root :: "deployment_config \<Rightarrow> status" where
  "dpval_check_root c =
     (if dc_schema_version c \<noteq> dpl_schema_version then Unsupported
      else if dc_revision c = 0 \<or> \<not> dpval_is_identifier (dc_model_catalog_ref c) \<or>
          dc_sources c = [] \<or> length (dc_sources c) > dpl_max_sources \<or>
          dc_max_total_resident_bytes c = 0 \<or>
          dc_max_total_resident_bytes c > dpl_max_total_resident_bytes \<or>
          dc_max_model_resident_bytes c = 0 \<or>
          dc_max_model_resident_bytes c > dc_max_total_resident_bytes c then Invalid_argument
      else Ok)"

definition dpval_validate_deployment :: "deployment_config \<Rightarrow> u64 \<Rightarrow> status \<times> u64" where
  "dpval_validate_deployment c declared =
     (if dpval_check_root c \<noteq> Ok then (dpval_check_root c, declared)
      else
        (case dpval_sources_from (dc_max_total_resident_bytes c) []
                (dc_max_model_resident_bytes c) (dc_sources c) of
           (valid, sofar) \<Rightarrow> if valid \<noteq> Ok then (valid, declared) else (Ok, sofar)))"

definition dpval_bind_source_profile ::
    "source_deployment_config \<Rightarrow> inference_plan \<Rightarrow> status \<times> inference_plan" where
  "dpval_bind_source_profile s plan =
     (let candidate = plan\<lparr>ip_source_width := pf_width (sd_profile s),
            ip_source_height := pf_height (sd_profile s),
            ip_fps_numerator := pf_fps_numerator (sd_profile s),
            ip_fps_denominator := pf_fps_denominator (sd_profile s)\<rparr>;
          valid = infpl_validate_plan candidate
      in if valid \<noteq> Ok then (valid, plan) else (Ok, candidate))"

section \<open>Exact sums\<close>

definition source_bytes :: "source_deployment_config \<Rightarrow> nat" where
  "source_bytes s =
     unat (sm_max_frame_allocation_bytes (sd_memory s)) * unat (sm_max_inflight_frames (sd_memory s)) +
     unat (dpval_packed_bytes s) * unat (sm_preview_surface_count (sd_memory s)) +
     unat (sm_max_tensor_bytes (sd_memory s)) + unat (sm_max_temporal_bytes (sd_memory s)) +
     unat (cc_max_bytes (sd_cascade s))"

definition declared_bytes :: "deployment_config \<Rightarrow> nat" where
  "declared_bytes c =
     unat (dc_max_model_resident_bytes c) + sum_list (map source_bytes (dc_sources c))"

lemma dpval_add_source_Some:
  "dpval_add_source s t = Some t' \<Longrightarrow> unat t' = unat t + source_bytes s"
  by (auto simp: dpval_add_source_def dpval_multiply_bytes_def dpval_add_bytes_def Let_def
      source_bytes_def split: option.splits dest!: checked_mul_SomeD checked_add_SomeD)

lemma dpval_add_source_None:
  "dpval_add_source s t = None \<Longrightarrow> 2 ^ 64 \<le> unat t + source_bytes s"
  by (auto simp: dpval_add_source_def dpval_multiply_bytes_def dpval_add_bytes_def Let_def
      source_bytes_def checked_mul_None_iff checked_add_None_iff
      split: option.splits dest!: checked_mul_SomeD checked_add_SomeD)

lemma dpval_add_source_exact:
  "dpval_add_source s t = Some t' \<longleftrightarrow> unat t' = unat t + source_bytes s"
proof (cases "dpval_add_source s t")
  case None
  have "unat t' \<noteq> unat t + source_bytes s"
    using dpval_add_source_None [OF None] unat_less_2_64 [of t'] by linarith
  with None show ?thesis by simp
next
  case (Some u)
  then show ?thesis using dpval_add_source_Some [OF Some] by (auto simp: word_unat_eq_iff)
qed

lemma dpval_sources_from_Ok:
  "unat sofar \<le> unat limit \<Longrightarrow>
   dpval_sources_from limit seen sofar ss = (Ok, r) \<longleftrightarrow>
     validate_items dpval_check_source seen ss = Ok \<and>
     unat sofar + sum_list (map source_bytes ss) \<le> unat limit \<and>
     unat r = unat sofar + sum_list (map source_bytes ss)"
proof (induction ss arbitrary: seen sofar)
  case Nil
  then show ?case by (auto simp: word_unat_eq_iff)
next
  case (Cons s ss)
  show ?case
  proof (cases "dpval_check_source seen s = Ok")
    case False
    then show ?thesis by (simp add: Let_def)
  next
    case ok: True
    show ?thesis
    proof (cases "dpval_add_source s sofar")
      case None
      have "\<not> unat sofar + (source_bytes s + k) \<le> unat limit" for k
        using dpval_add_source_None [OF None] unat_less_2_64 [of limit] by linarith
      with None show ?thesis using ok by (simp add: Let_def)
    next
      case (Some t)
      note t = dpval_add_source_Some [OF Some]
      show ?thesis
      proof (cases "t > limit")
        case True
        then show ?thesis using ok Some t by (auto simp: Let_def word_less_nat_alt)
      next
        case False
        then have "unat t \<le> unat limit" by (simp add: word_le_nat_alt not_less)
        from Cons.IH [OF this, of "seen @ [s]"] False show ?thesis
          using ok Some t by (simp add: Let_def add.assoc)
      qed
    qed
  qed
qed

section \<open>What a valid deployment is\<close>

text \<open>A source on its own, without the comparison to the other sources.\<close>

definition source_wf :: "source_deployment_config \<Rightarrow> bool" where
  "source_wf s \<longleftrightarrow> dpval_check_profile s = Ok \<and> dpval_check_preview s = Ok \<and>
     dpval_check_cascade s = Ok \<and> list_all dpval_is_identifier (sd_model_ids s) \<and>
     distinct (sd_model_ids s)"

lemma check_models_Ok:
  "validate_items dpval_check_model [] ms = Ok \<longleftrightarrow> list_all dpval_is_identifier ms \<and> distinct ms"
proof -
  have "dpval_check_model prev x = Ok \<longleftrightarrow> dpval_is_identifier x \<and> (\<forall>y \<in> set prev. id y \<noteq> id x)"
    for prev x
    by (auto simp: dpval_check_model_def)
  from validate_distinct_Ok [OF this] show ?thesis by (simp add: list_all_iff)
qed

lemma check_source_Ok:
  "dpval_check_source seen s = Ok \<longleftrightarrow> source_wf s \<and>
     (\<forall>p \<in> set seen. sd_source_id p \<noteq> sd_source_id s) \<and>
     (\<forall>p \<in> set seen. sd_raw_source_ref p \<noteq> sd_raw_source_ref s) \<and>
     (\<forall>p \<in> set seen. (sd_camera_id p, sd_channel_id p) \<noteq> (sd_camera_id s, sd_channel_id s)) \<and>
     (sd_preview_output_ref s \<noteq> [] \<longrightarrow>
       (\<forall>p \<in> set seen. sd_preview_output_ref p \<noteq> sd_preview_output_ref s))"
proof -
  let ?same = "\<lambda>p. sd_source_id p = sd_source_id s \<or> sd_raw_source_ref p = sd_raw_source_ref s \<or>
      (sd_camera_id p, sd_channel_id p) = (sd_camera_id s, sd_channel_id s) \<or>
      (sd_preview_output_ref s \<noteq> [] \<and> sd_preview_output_ref p = sd_preview_output_ref s)"
  have unique: "dpval_check_unique seen s = Ok \<longleftrightarrow> \<not> (\<exists>p \<in> set seen. ?same p)"
    by (simp add: dpval_check_unique_def)
  have split: "\<not> (\<exists>p \<in> set seen. ?same p) \<longleftrightarrow>
     (\<forall>p \<in> set seen. sd_source_id p \<noteq> sd_source_id s) \<and>
     (\<forall>p \<in> set seen. sd_raw_source_ref p \<noteq> sd_raw_source_ref s) \<and>
     (\<forall>p \<in> set seen. (sd_camera_id p, sd_channel_id p) \<noteq> (sd_camera_id s, sd_channel_id s)) \<and>
     (sd_preview_output_ref s \<noteq> [] \<longrightarrow>
       (\<forall>p \<in> set seen. sd_preview_output_ref p \<noteq> sd_preview_output_ref s))"
    by meson
  show ?thesis
    unfolding dpval_check_source_def and_then_Ok check_models_Ok source_wf_def unique split
    by (simp only: conj_assoc conj_ac)
qed

definition sources_distinct :: "source_deployment_config list \<Rightarrow> bool" where
  "sources_distinct ss \<longleftrightarrow> distinct (map sd_source_id ss) \<and> distinct (map sd_raw_source_ref ss) \<and>
     distinct (map (\<lambda>s. (sd_camera_id s, sd_channel_id s)) ss) \<and>
     distinct (filter (\<lambda>k. k \<noteq> []) (map sd_preview_output_ref ss))"

lemma check_sources_Ok:
  "validate_items dpval_check_source [] ss = Ok \<longleftrightarrow> list_all source_wf ss \<and> sources_distinct ss"
  unfolding validate_items_Ok append_Nil check_source_Ok sources_distinct_def list_all_length
    no_earlier_key_distinct [symmetric] no_earlier_present_key_distinct [symmetric]
  by blast

lemma deployment_sources:
  assumes "fst (dpval_validate_deployment c r0) = Ok"
  shows "list_all source_wf (dc_sources c)" "sources_distinct (dc_sources c)"
    "declared_bytes c \<le> unat (dc_max_total_resident_bytes c)"
proof -
  have root: "dpval_check_root c = Ok"
    and loop: "fst (dpval_sources_from (dc_max_total_resident_bytes c) []
      (dc_max_model_resident_bytes c) (dc_sources c)) = Ok"
    using assms by (auto simp: dpval_validate_deployment_def split: if_splits prod.splits)
  then have "unat (dc_max_model_resident_bytes c) \<le> unat (dc_max_total_resident_bytes c)"
    by (auto simp: dpval_check_root_def word_le_nat_alt not_less split: if_splits)
  from dpval_sources_from_Ok [OF this, THEN iffD1, OF ok_pair [OF loop]]
  show "list_all source_wf (dc_sources c)" "sources_distinct (dc_sources c)"
    "declared_bytes c \<le> unat (dc_max_total_resident_bytes c)"
    by (simp_all add: check_sources_Ok declared_bytes_def)
qed

lemma admitted_source_profile:
  "fst (dpval_validate_deployment c r0) = Ok \<Longrightarrow> s \<in> set (dc_sources c) \<Longrightarrow>
     dpval_check_profile s = Ok"
  using deployment_sources(1) [of c r0] by (simp add: list_all_iff source_wf_def)

text \<open>The loop over the sources never fails for another reason than the conditions on the sources.\<close>

lemma validate_deployment_iff:
  "fst (dpval_validate_deployment c r0) = Ok \<longleftrightarrow>
     dpval_check_root c = Ok \<and> list_all source_wf (dc_sources c) \<and> sources_distinct (dc_sources c) \<and>
     declared_bytes c \<le> unat (dc_max_total_resident_bytes c)"
proof (cases "dpval_check_root c = Ok")
  case False
  then show ?thesis by (simp add: dpval_validate_deployment_def)
next
  case True
  then have le: "unat (dc_max_model_resident_bytes c) \<le> unat (dc_max_total_resident_bytes c)"
    by (auto simp: dpval_check_root_def word_le_nat_alt not_less split: if_splits)
  note ok = dpval_sources_from_Ok [OF le, of "[]" "dc_sources c", unfolded check_sources_Ok,
      folded declared_bytes_def]
  show ?thesis
  proof
    assume "fst (dpval_validate_deployment c r0) = Ok"
    from deployment_sources [OF this] True
    show "dpval_check_root c = Ok \<and> list_all source_wf (dc_sources c) \<and>
        sources_distinct (dc_sources c) \<and> declared_bytes c \<le> unat (dc_max_total_resident_bytes c)"
      by blast
  next
    assume a: "dpval_check_root c = Ok \<and> list_all source_wf (dc_sources c) \<and>
        sources_distinct (dc_sources c) \<and> declared_bytes c \<le> unat (dc_max_total_resident_bytes c)"
    then have "declared_bytes c < 2 ^ 64"
      using unat_less_2_64 [of "dc_max_total_resident_bytes c"] by linarith
    then have "unat (word_of_nat (declared_bytes c) :: u64) = declared_bytes c"
      by (simp add: unat_of_nat)
    with a ok [of "word_of_nat (declared_bytes c)"] True
    show "fst (dpval_validate_deployment c r0) = Ok"
      by (simp add: dpval_validate_deployment_def)
  qed
qed

lemma validate_deployment_reports:
  assumes "fst (dpval_validate_deployment c r0) = Ok"
  shows "unat (snd (dpval_validate_deployment c r0)) = declared_bytes c"
proof -
  have root: "dpval_check_root c = Ok"
    and loop: "fst (dpval_sources_from (dc_max_total_resident_bytes c) []
      (dc_max_model_resident_bytes c) (dc_sources c)) = Ok"
    using assms by (auto simp: dpval_validate_deployment_def split: if_splits prod.splits)
  then have "unat (dc_max_model_resident_bytes c) \<le> unat (dc_max_total_resident_bytes c)"
    by (auto simp: dpval_check_root_def word_le_nat_alt not_less split: if_splits)
  from dpval_sources_from_Ok [OF this, THEN iffD1, OF ok_pair [OF loop]] root loop
  show ?thesis
    by (auto simp add: dpval_validate_deployment_def declared_bytes_def split: prod.splits)
qed

section \<open>Properties\<close>

text \<open>
  C9. The declared memory of a deployment is exact: validation succeeds exactly when the
  root is valid, every source is valid on its own, sources differ in id, raw reference,
  logical camera and preview output, and the true sum (model budget plus, per source, frames,
  preview surfaces, tensors, temporal state and cascade) is within the declared limit; that
  sum is what is reported, and a refused configuration reports nothing.
\<close>

theorem dpval_deployment_exact:
  "(fst (dpval_validate_deployment c r0) = Ok) =
     (dpval_check_root c = Ok \<and> list_all source_wf (dc_sources c) \<and>
      sources_distinct (dc_sources c) \<and>
      declared_bytes c \<le> unat (dc_max_total_resident_bytes c)) \<and>
   (if fst (dpval_validate_deployment c r0) = Ok
    then unat (snd (dpval_validate_deployment c r0)) = declared_bytes c \<and>
      declared_bytes c \<le> 8 * 1024 * 1024 * 1024
    else snd (dpval_validate_deployment c r0) = r0)"
proof (cases "fst (dpval_validate_deployment c r0) = Ok")
  case True
  note ok = True [unfolded validate_deployment_iff]
  have "unat (dc_max_total_resident_bytes c) \<le> 8 * 1024 * 1024 * 1024"
    using ok by (auto simp: dpval_check_root_def word_le_nat_alt not_less
        dpl_max_total_resident_bytes_def split: if_splits)
  with ok True validate_deployment_reports [OF True] show ?thesis by auto
next
  case False
  then have "snd (dpval_validate_deployment c r0) = r0"
    by (auto simp: dpval_validate_deployment_def split: if_splits prod.splits)
  with False show ?thesis unfolding validate_deployment_iff by argo
qed

end
