(* ===== verification/Recovery_Controller.thy ===== *)
theory Recovery_Controller
  imports Deployment_Config
begin

text \<open>
  The per-source recovery controller of
  src/runtime/lifecycle/vqec_vision_recovery_controller.hpp and .cpp (prefix \<open>rcvr\<close>):
  exponential backoff with a bounded retry budget. The clock is the caller's. The lemmas
  show that a source's budget depends on its own faults alone, and that the backoff loop
  computes the capped iteration of its multiplier whenever the products fit 64 bits.
\<close>

section \<open>State\<close>

definition rcvr_max_retries :: u32 where "rcvr_max_retries = 64"
definition rcvr_max_backoff_ns :: u64 where "rcvr_max_backoff_ns = 600000000000"

datatype recovery_decision = Retry | Wait | Exhausted

record recovery_policy =
  rpol_max_retries :: u32
  rpol_initial_backoff_ns :: u64
  rpol_max_backoff_ns :: u64
  rpol_multiplier_numerator :: u32
  rpol_multiplier_denominator :: u32

definition default_recovery_policy :: recovery_policy where
  "default_recovery_policy = \<lparr>rpol_max_retries = 5, rpol_initial_backoff_ns = 100000000,
     rpol_max_backoff_ns = 5000000000, rpol_multiplier_numerator = 2,
     rpol_multiplier_denominator = 1\<rparr>"

record recovery_snapshot =
  rsn_attempts :: u32
  rsn_next_retry_ns :: u64
  rsn_exhausted :: bool

record source_recovery_controller =
  rc_attempts :: "u32 list"
  rc_next_retry_ns :: "u64 list"
  rc_exhausted :: "bool list"
  rc_policy :: recovery_policy
  rc_source_count :: u16

definition rcvr_initial :: source_recovery_controller where
  "rcvr_initial = \<lparr>rc_attempts = replicate dpl_max_sources 0,
     rc_next_retry_ns = replicate dpl_max_sources 0,
     rc_exhausted = replicate dpl_max_sources False,
     rc_policy = default_recovery_policy, rc_source_count = 0\<rparr>"

section \<open>Operations\<close>

definition rcvr_checked_mul :: "u64 \<Rightarrow> u64 \<Rightarrow> u64 option" where
  "rcvr_checked_mul left right = checked_mul left right"

definition rcvr_configure ::
    "u16 \<Rightarrow> recovery_policy \<Rightarrow> source_recovery_controller \<Rightarrow> status \<times> source_recovery_controller" where
  "rcvr_configure count policy c =
     (if rc_source_count c \<noteq> 0 then (Invalid_state, c)
      else if count = 0 \<or> unat count > dpl_max_sources then (Invalid_argument, c)
      else if rpol_max_retries policy = 0 \<or> rpol_max_retries policy > rcvr_max_retries \<or>
          rpol_initial_backoff_ns policy = 0 \<or>
          rpol_max_backoff_ns policy < rpol_initial_backoff_ns policy \<or>
          rpol_max_backoff_ns policy > rcvr_max_backoff_ns \<or>
          rpol_multiplier_numerator policy = 0 \<or> rpol_multiplier_denominator policy = 0
        then (Invalid_argument, c)
      else (Ok, c\<lparr>rc_policy := policy, rc_source_count := count\<rparr>))"

definition rcvr_is_configured :: "source_recovery_controller \<Rightarrow> bool" where
  "rcvr_is_configured c \<longleftrightarrow> rc_source_count c \<noteq> 0"

text \<open>The scaling loop; the first argument counts the iterations that are left.\<close>

fun rcvr_backoff_from :: "nat \<Rightarrow> recovery_policy \<Rightarrow> u64 \<Rightarrow> u64" where
  "rcvr_backoff_from 0 p backoff = backoff"
| "rcvr_backoff_from (Suc steps) p backoff =
     (case rcvr_checked_mul backoff (ucast (rpol_multiplier_numerator p)) of
        None \<Rightarrow> rpol_max_backoff_ns p
      | Some scaled \<Rightarrow>
          let next = scaled div ucast (rpol_multiplier_denominator p) in
          if next > rpol_max_backoff_ns p then rpol_max_backoff_ns p
          else if next \<ge> rpol_max_backoff_ns p then rpol_max_backoff_ns p
          else rcvr_backoff_from steps p next)"

definition rcvr_on_fault ::
    "u16 \<Rightarrow> u64 \<Rightarrow> source_recovery_controller \<Rightarrow> recovery_decision \<Rightarrow>
       status \<times> source_recovery_controller \<times> recovery_decision" where
  "rcvr_on_fault slot now c decision =
     (let i = unat slot; p = rc_policy c in
      if rc_source_count c = 0 then (Invalid_state, c, decision)
      else if slot \<ge> rc_source_count c \<or> now = UINT64_MAX then (Invalid_argument, c, decision)
      else if rc_exhausted c ! i then (Ok, c, Exhausted)
      else if rc_attempts c ! i \<ge> rpol_max_retries p
        then (Ok, c\<lparr>rc_exhausted := (rc_exhausted c)[i := True]\<rparr>, Exhausted)
      else
        (let backoff = rcvr_backoff_from (unat (rc_attempts c ! i)) p (rpol_initial_backoff_ns p);
             counted = c\<lparr>rc_attempts := (rc_attempts c)[i := rc_attempts c ! i + 1]\<rparr>
         in if now > UINT64_MAX - backoff
            then (Ok, counted\<lparr>rc_next_retry_ns := (rc_next_retry_ns c)[i := UINT64_MAX]\<rparr>, Wait)
            else (Ok, counted\<lparr>rc_next_retry_ns := (rc_next_retry_ns c)[i := now + backoff]\<rparr>,
                  if backoff = 0 then Retry else Wait)))"

definition rcvr_on_success ::
    "u16 \<Rightarrow> source_recovery_controller \<Rightarrow> status \<times> source_recovery_controller" where
  "rcvr_on_success slot c =
     (let i = unat slot in
      if rc_source_count c = 0 then (Invalid_state, c)
      else if slot \<ge> rc_source_count c then (Invalid_argument, c)
      else (Ok, c\<lparr>rc_attempts := (rc_attempts c)[i := 0],
                  rc_next_retry_ns := (rc_next_retry_ns c)[i := 0],
                  rc_exhausted := (rc_exhausted c)[i := False]\<rparr>))"

definition rcvr_get_snapshot ::
    "u16 \<Rightarrow> source_recovery_controller \<Rightarrow> recovery_snapshot \<Rightarrow> status \<times> recovery_snapshot" where
  "rcvr_get_snapshot slot c snapshot =
     (let i = unat slot in
      if rc_source_count c = 0 then (Invalid_state, snapshot)
      else if slot \<ge> rc_source_count c then (Invalid_argument, snapshot)
      else (Ok, \<lparr>rsn_attempts = rc_attempts c ! i, rsn_next_retry_ns = rc_next_retry_ns c ! i,
                 rsn_exhausted = rc_exhausted c ! i\<rparr>))"

datatype rcvr_op =
    Op_configure u16 recovery_policy
  | Op_fault u16 u64
  | Op_success u16

fun rcvr_step :: "rcvr_op \<Rightarrow> source_recovery_controller \<Rightarrow> source_recovery_controller" where
  "rcvr_step (Op_configure count policy) c = snd (rcvr_configure count policy c)"
| "rcvr_step (Op_fault slot now) c = fst (snd (rcvr_on_fault slot now c Retry))"
| "rcvr_step (Op_success slot) c = snd (rcvr_on_success slot c)"

section \<open>Invariant\<close>

definition policy_ok :: "recovery_policy \<Rightarrow> bool" where
  "policy_ok p \<longleftrightarrow> 0 < unat (rpol_max_retries p) \<and> unat (rpol_max_retries p) \<le> 64 \<and>
     0 < unat (rpol_initial_backoff_ns p) \<and>
     unat (rpol_initial_backoff_ns p) \<le> unat (rpol_max_backoff_ns p) \<and>
     unat (rpol_max_backoff_ns p) \<le> 600000000000 \<and>
     0 < unat (rpol_multiplier_numerator p) \<and> 0 < unat (rpol_multiplier_denominator p)"

definition rcvr_inv :: "source_recovery_controller \<Rightarrow> bool" where
  "rcvr_inv c \<longleftrightarrow> length (rc_attempts c) = dpl_max_sources \<and>
     length (rc_next_retry_ns c) = dpl_max_sources \<and> length (rc_exhausted c) = dpl_max_sources \<and>
     unat (rc_source_count c) \<le> dpl_max_sources \<and> (rc_source_count c \<noteq> 0 \<longrightarrow> policy_ok (rc_policy c))"

lemma rcvr_initial_inv: "rcvr_inv rcvr_initial"
  by (simp add: rcvr_inv_def rcvr_initial_def)

lemma configure_Ok_iff:
  "rcvr_configure count policy c = (Ok, c') \<longleftrightarrow>
     rc_source_count c = 0 \<and> 0 < unat count \<and> unat count \<le> dpl_max_sources \<and> policy_ok policy \<and>
     c' = c\<lparr>rc_policy := policy, rc_source_count := count\<rparr>"
  unfolding rcvr_configure_def policy_ok_def rcvr_max_retries_def rcvr_max_backoff_ns_def
    word_less_nat_alt unat_gt_0
  by (auto simp: not_less)

lemma configure_cases:
  "fst (rcvr_configure count policy c) = Ok \<or> snd (rcvr_configure count policy c) = c"
  by (simp add: rcvr_configure_def)

lemma configure_inv: "rcvr_inv c \<Longrightarrow> rcvr_inv (snd (rcvr_configure count policy c))"
proof -
  assume inv: "rcvr_inv c"
  show ?thesis
  proof (cases "fst (rcvr_configure count policy c) = Ok")
    case True
    from ok_pair [OF this] inv show ?thesis
      by (subst ok_pair [OF True]) (auto simp: configure_Ok_iff rcvr_inv_def)
  next
    case False
    with configure_cases [of count policy c] inv show ?thesis by simp
  qed
qed

lemma fault_frame:
  "rc_source_count (fst (snd (rcvr_on_fault slot now c d))) = rc_source_count c"
  "rc_policy (fst (snd (rcvr_on_fault slot now c d))) = rc_policy c"
  by (simp_all add: rcvr_on_fault_def Let_def)

lemma success_frame:
  "rc_source_count (snd (rcvr_on_success slot c)) = rc_source_count c"
  "rc_policy (snd (rcvr_on_success slot c)) = rc_policy c"
  by (simp_all add: rcvr_on_success_def Let_def)

lemma fault_inv: "rcvr_inv c \<Longrightarrow> rcvr_inv (fst (snd (rcvr_on_fault slot now c d)))"
  by (simp add: rcvr_inv_def rcvr_on_fault_def Let_def)

lemma success_inv: "rcvr_inv c \<Longrightarrow> rcvr_inv (snd (rcvr_on_success slot c))"
  by (simp add: rcvr_inv_def rcvr_on_success_def Let_def)

lemma rcvr_step_inv: "rcvr_inv c \<Longrightarrow> rcvr_inv (rcvr_step a c)"
  by (cases a) (simp_all add: configure_inv fault_inv success_inv)

lemma step_frame:
  "rc_source_count c \<noteq> 0 \<Longrightarrow>
     rc_source_count (rcvr_step a c) = rc_source_count c \<and> rc_policy (rcvr_step a c) = rc_policy c"
  by (cases a) (simp_all add: rcvr_configure_def fault_frame success_frame)

interpretation rcvr: latched_system rcvr_step rcvr_inv rcvr_is_configured
  by unfold_locales (simp_all add: rcvr_step_inv rcvr_is_configured_def step_frame)

section \<open>The retry budget\<close>

text \<open>
  \<open>recent_faults slot ops\<close> counts the faults of a source since its last success, from the
  calls alone. \<open>tracks\<close> relates that number to the slot of the controller.
\<close>

definition count_fault :: "u16 \<Rightarrow> rcvr_op \<Rightarrow> nat \<Rightarrow> nat" where
  "count_fault slot a n =
     (case a of
        Op_fault s now \<Rightarrow> if s = slot \<and> now \<noteq> UINT64_MAX then Suc n else n
      | Op_success s \<Rightarrow> if s = slot then 0 else n
      | Op_configure _ _ \<Rightarrow> n)"

definition recent_faults :: "u16 \<Rightarrow> rcvr_op list \<Rightarrow> nat" where
  "recent_faults slot ops = fold (count_fault slot) ops 0"

definition tracks :: "u16 \<Rightarrow> nat \<Rightarrow> source_recovery_controller \<Rightarrow> bool" where
  "tracks slot n c \<longleftrightarrow> slot < rc_source_count c \<and>
     unat (rc_attempts c ! unat slot) = min n (unat (rpol_max_retries (rc_policy c))) \<and>
     (rc_exhausted c ! unat slot \<longleftrightarrow> unat (rpol_max_retries (rc_policy c)) < n)"

lemma slot_in_range: "rcvr_inv c \<Longrightarrow> slot < rc_source_count c \<Longrightarrow> unat slot < dpl_max_sources"
  by (auto simp: rcvr_inv_def word_less_nat_alt)

lemma tracks_configured: "tracks slot n c \<Longrightarrow> rc_source_count c \<noteq> 0"
  by (auto simp: tracks_def word_less_nat_alt)

lemma attempt_counts:
  "policy_ok p \<Longrightarrow> unat (a :: u32) < unat (rpol_max_retries p) \<Longrightarrow> unat (a + 1) = Suc (unat a)"
  by (rule unat_Suc_exact) (auto simp: policy_ok_def unat_max)

lemma other_slot: "rc_attempts (rcvr_step a c) ! unat slot = rc_attempts c ! unat slot \<and>
    rc_exhausted (rcvr_step a c) ! unat slot = rc_exhausted c ! unat slot"
  if "\<forall>now. a \<noteq> Op_fault slot now" "a \<noteq> Op_success slot"
  using that by (cases a) (auto simp: rcvr_configure_def rcvr_on_fault_def rcvr_on_success_def Let_def
      simp flip: word_unat_eq_iff)

lemma tracks_fault:
  assumes inv: "rcvr_inv c" and t: "tracks slot n c" and now: "now \<noteq> UINT64_MAX"
  shows "tracks slot (Suc n) (rcvr_step (Op_fault slot now) c)"
proof -
  have pol: "policy_ok (rc_policy c)" using inv tracks_configured [OF t] by (simp add: rcvr_inv_def)
  have i: "unat slot < length (rc_attempts c)" "unat slot < length (rc_exhausted c)"
    using inv slot_in_range [OF inv, of slot] t by (auto simp: rcvr_inv_def tracks_def)
  have "slot < rc_source_count c" using t by (simp add: tracks_def)
  then show ?thesis
    using t now i tracks_configured [OF t] attempt_counts [OF pol, of "rc_attempts c ! unat slot"]
    by (auto simp: tracks_def rcvr_on_fault_def Let_def word_le_nat_alt word_less_nat_alt not_le fault_frame)
qed

lemma tracks_success:
  assumes inv: "rcvr_inv c" and t: "tracks slot n c"
  shows "tracks slot 0 (rcvr_step (Op_success slot) c)"
proof -
  have i: "unat slot < length (rc_attempts c)" "unat slot < length (rc_exhausted c)"
    using inv slot_in_range [OF inv, of slot] t by (auto simp: rcvr_inv_def tracks_def)
  with t tracks_configured [OF t] show ?thesis
    by (auto simp: tracks_def rcvr_on_success_def Let_def not_le)
qed

lemma tracks_step:
  assumes inv: "rcvr_inv c" and t: "tracks slot n c"
  shows "tracks slot (count_fault slot a n) (rcvr_step a c)"
proof -
  have same: ?thesis if "\<forall>now. a \<noteq> Op_fault slot now" "a \<noteq> Op_success slot"
    using t other_slot [OF that, of c] step_frame [OF tracks_configured [OF t], of a] that
    by (cases a) (auto simp: tracks_def count_fault_def)
  have refused: "rcvr_step (Op_fault slot UINT64_MAX) c = c"
    by (simp add: rcvr_on_fault_def Let_def)
  show ?thesis
  proof (cases "\<exists>now. a = Op_fault slot now")
    case True
    then obtain now where a: "a = Op_fault slot now" by blast
    show ?thesis
    proof (cases "now = UINT64_MAX")
      case True
      then show ?thesis using t refused a by (simp add: count_fault_def)
    next
      case False
      then show ?thesis using tracks_fault [OF inv t] a by (simp add: count_fault_def)
    qed
  next
    case False
    show ?thesis
    proof (cases "a = Op_success slot")
      case True
      then show ?thesis using tracks_success [OF inv t] by (simp add: count_fault_def)
    qed (use same False in blast)
  qed
qed

lemma tracks_run:
  "rcvr_inv c \<Longrightarrow> tracks slot n c \<Longrightarrow>
     tracks slot (fold (count_fault slot) ops n) (fold rcvr_step ops c)"
  by (induction ops arbitrary: c n) (auto simp: tracks_step rcvr_step_inv)

lemma run_frame:
  "rc_source_count c \<noteq> 0 \<Longrightarrow> rc_source_count (fold rcvr_step ops c) = rc_source_count c \<and>
     rc_policy (fold rcvr_step ops c) = rc_policy c"
  by (induction ops arbitrary: c) (auto simp: step_frame)

lemma configured_tracks:
  assumes "rcvr_configure count policy rcvr_initial = (Ok, c)" "slot < count"
  shows "rcvr_inv c" "tracks slot 0 c" "rc_policy c = policy" "rc_source_count c = count"
    "policy_ok policy" "count \<noteq> 0"
proof -
  have "unat slot < dpl_max_sources"
    using assms by (auto simp: configure_Ok_iff word_less_nat_alt)
  then show "rcvr_inv c" "tracks slot 0 c" "rc_policy c = policy" "rc_source_count c = count"
    "policy_ok policy" "count \<noteq> 0"
    using assms by (auto simp: configure_Ok_iff rcvr_inv_def tracks_def rcvr_initial_def)
qed

text \<open>
  C12. The retry budget is exact and per source: after any calls on any sources, the
  attempts a snapshot shows for a source are its own faults since its last success, capped
  at the policy's maximum; it is exhausted exactly when a further fault came after the
  budget was used, and its next fault is answered \<open>exhausted\<close> exactly when the budget is
  used up.
\<close>

theorem rcvr_budget_exact:
  assumes "rcvr_configure count policy rcvr_initial = (Ok, c0)" and "slot < count"
  shows "let c = fold rcvr_step ops c0; n = recent_faults slot ops;
      limit = unat (rpol_max_retries policy);
      shown = rcvr_get_snapshot slot c snapshot
    in fst shown = Ok \<and> unat (rsn_attempts (snd shown)) = min n limit \<and>
       (rsn_exhausted (snd shown) \<longleftrightarrow> limit < n) \<and>
       (now \<noteq> UINT64_MAX \<longrightarrow> fst (rcvr_on_fault slot now c d) = Ok \<and>
          (snd (snd (rcvr_on_fault slot now c d)) = Exhausted \<longleftrightarrow> limit \<le> n))"
proof -
  note start = configured_tracks [OF assms]
  define c where "c = fold rcvr_step ops c0"
  define n where "n = recent_faults slot ops"
  have t: "tracks slot n c"
    unfolding c_def n_def recent_faults_def by (rule tracks_run [OF start(1,2)])
  have frame: "rc_source_count c = count" "rc_policy c = policy"
    unfolding c_def using run_frame [of c0 ops] start(3,4,6) by auto
  have "fst (rcvr_get_snapshot slot c snapshot) = Ok"
    "unat (rsn_attempts (snd (rcvr_get_snapshot slot c snapshot))) = min n (unat (rpol_max_retries policy))"
    "rsn_exhausted (snd (rcvr_get_snapshot slot c snapshot)) \<longleftrightarrow> unat (rpol_max_retries policy) < n"
    using t frame start(6) assms(2) by (auto simp: tracks_def rcvr_get_snapshot_def Let_def)
  moreover have "fst (rcvr_on_fault slot now c d) = Ok \<and>
      (snd (snd (rcvr_on_fault slot now c d)) = Exhausted \<longleftrightarrow> unat (rpol_max_retries policy) \<le> n)"
    if "now \<noteq> UINT64_MAX"
    using t frame start(6) assms(2) that
    by (auto simp: tracks_def rcvr_on_fault_def Let_def word_le_nat_alt word_less_nat_alt)
  ultimately show ?thesis unfolding Let_def c_def [symmetric] n_def [symmetric] by blast
qed

theorem rcvr_budget_exact_witness:
  "rsn_exhausted (snd (rcvr_get_snapshot 1 (fold rcvr_step
     (Op_fault 0 7 # replicate 6 (Op_fault 1 7)) (snd (rcvr_configure 2 default_recovery_policy rcvr_initial)))
     \<lparr>rsn_attempts = 0, rsn_next_retry_ns = 0, rsn_exhausted = False\<rparr>))"
proof -
  have ok: "fst (rcvr_configure 2 default_recovery_policy rcvr_initial) = Ok" by code_simp
  have n: "recent_faults 1 (Op_fault 0 7 # replicate 6 (Op_fault 1 7)) = 6"
    "unat (rpol_max_retries default_recovery_policy) = 5" by code_simp+
  show ?thesis
    using rcvr_budget_exact [OF ok_pair [OF ok], of 1 "Op_fault 0 7 # replicate 6 (Op_fault 1 7)"] n
    unfolding Let_def by simp
qed

section \<open>The backoff\<close>

text \<open>
  The reference: the first backoff scaled \<open>n\<close> times by the multiplier, each time rounded
  down and capped, on unbounded numbers.
\<close>

definition scaled_once :: "recovery_policy \<Rightarrow> nat \<Rightarrow> nat" where
  "scaled_once p b = min (unat (rpol_max_backoff_ns p))
     (b * unat (rpol_multiplier_numerator p) div unat (rpol_multiplier_denominator p))"

definition reference_backoff :: "recovery_policy \<Rightarrow> nat \<Rightarrow> nat" where
  "reference_backoff p n = (scaled_once p ^^ n) (unat (rpol_initial_backoff_ns p))"

definition products_fit :: "recovery_policy \<Rightarrow> bool" where
  "products_fit p \<longleftrightarrow>
     unat (rpol_max_backoff_ns p) * unat (rpol_multiplier_numerator p) < 2 ^ 64"

lemma backoff_capped:
  "b \<le> rpol_max_backoff_ns p \<Longrightarrow> rcvr_backoff_from n p b \<le> rpol_max_backoff_ns p"
  by (induction n arbitrary: b) (auto simp: Let_def not_le split: option.splits)

lemma cap_is_fixed:
  assumes "b \<le> unat (rpol_max_backoff_ns p)" "scaled_once p b = unat (rpol_max_backoff_ns p)"
  shows "(scaled_once p ^^ n) (unat (rpol_max_backoff_ns p)) = unat (rpol_max_backoff_ns p)"
proof -
  let ?m = "unat (rpol_max_backoff_ns p)"
  let ?f = "\<lambda>b. b * unat (rpol_multiplier_numerator p) div unat (rpol_multiplier_denominator p)"
  have "?f b \<le> ?f ?m" using assms(1) by (intro div_le_mono mult_le_mono1)
  then have "scaled_once p ?m = ?m"
    using assms(2) by (simp add: scaled_once_def min_def split: if_splits)
  then show ?thesis by (induction n) simp_all
qed

lemma backoff_exact:
  assumes "products_fit p"
  shows "b \<le> rpol_max_backoff_ns p \<Longrightarrow>
    unat (rcvr_backoff_from n p b) = (scaled_once p ^^ n) (unat b)"
proof (induction n arbitrary: b)
  case 0
  show ?case by simp
next
  case (Suc n)
  let ?num = "ucast (rpol_multiplier_numerator p) :: u64"
  let ?next = "b * ?num div ucast (rpol_multiplier_denominator p)"
  let ?m = "rpol_max_backoff_ns p"
  have "unat b * unat (rpol_multiplier_numerator p) \<le> unat ?m * unat (rpol_multiplier_numerator p)"
    using Suc.prems by (simp add: word_le_nat_alt)
  also have "\<dots> < 2 ^ 64" using assms unfolding products_fit_def .
  finally have fits: "unat b * unat ?num < 2 ^ LENGTH(64)" by simp
  then have mul: "rcvr_checked_mul b ?num = Some (b * ?num)"
    by (simp add: rcvr_checked_mul_def checked_mul_Some_iff)
  have scaled: "scaled_once p (unat b) = min (unat ?m) (unat ?next)"
    by (simp add: scaled_once_def unat_div unat_mult_exact [OF fits])
  have first_step: "(scaled_once p ^^ Suc n) (unat b) = (scaled_once p ^^ n) (scaled_once p (unat b))"
    by (simp add: funpow_swap1)
  show ?case
  proof (cases "?next < ?m")
    case True
    then have step: "scaled_once p (unat b) = unat ?next"
      using scaled by (simp add: word_less_nat_alt)
    have "rcvr_backoff_from (Suc n) p b = rcvr_backoff_from n p ?next"
      using True by (auto simp: mul Let_def)
    also have "unat \<dots> = (scaled_once p ^^ n) (unat ?next)"
      using True by (intro Suc.IH) simp
    finally show ?thesis unfolding first_step step .
  next
    case False
    then have step: "scaled_once p (unat b) = unat ?m"
      using scaled by (simp add: word_less_nat_alt)
    have "rcvr_backoff_from (Suc n) p b = ?m"
      using False by (simp add: mul Let_def not_less)
    also have "unat ?m = (scaled_once p ^^ n) (scaled_once p (unat b))"
      unfolding step using cap_is_fixed [OF _ step] Suc.prems by (simp add: word_le_nat_alt)
    finally show ?thesis unfolding first_step .
  qed
qed

text \<open>
  The backoff of a fault is the reference backoff of the attempts made so far: an
  accepted fault within the budget schedules its retry exactly that long after the caller's
  clock, saturating at the largest time, never later than the policy's maximum allows, and
  asks the caller to wait unless the backoff is zero. It counts one attempt and leaves every
  other source alone.
\<close>

lemma rcvr_backoff_schedules_exactly:
  assumes "rcvr_inv c" "slot < rc_source_count c" "now \<noteq> UINT64_MAX"
    and "\<not> rc_exhausted c ! unat slot"
    and "rc_attempts c ! unat slot < rpol_max_retries (rc_policy c)"
    and "products_fit (rc_policy c)"
  shows "let n = unat (rc_attempts c ! unat slot); b = reference_backoff (rc_policy c) n;
      r = rcvr_on_fault slot now c d; c' = fst (snd r)
    in fst r = Ok \<and> snd (snd r) = (if b = 0 then Retry else Wait) \<and>
       b \<le> unat (rpol_max_backoff_ns (rc_policy c)) \<and>
       unat (rc_next_retry_ns c' ! unat slot) = min (unat now + b) (2 ^ 64 - 1) \<and>
       unat (rc_attempts c' ! unat slot) = Suc n \<and>
       list_all (\<lambda>i. i = unat slot \<or> rc_next_retry_ns c' ! i = rc_next_retry_ns c ! i) [0..<16]"
proof -
  let ?p = "rc_policy c" and ?i = "unat slot"
  let ?w = "rcvr_backoff_from (unat (rc_attempts c ! ?i)) ?p (rpol_initial_backoff_ns ?p)"
  have nz: "rc_source_count c \<noteq> 0" using assms(2) by (auto simp: word_less_nat_alt)
  then have pol: "policy_ok ?p" using assms(1) by (simp add: rcvr_inv_def)
  then have first: "rpol_initial_backoff_ns ?p \<le> rpol_max_backoff_ns ?p"
    by (simp add: policy_ok_def word_le_nat_alt)
  have w: "unat ?w = reference_backoff ?p (unat (rc_attempts c ! ?i))"
    unfolding reference_backoff_def by (rule backoff_exact [OF assms(6) first])
  have i: "?i < length (rc_attempts c)" "?i < length (rc_next_retry_ns c)"
    using slot_in_range [OF assms(1,2)] assms(1) by (auto simp: rcvr_inv_def)
  have att: "unat (rc_attempts c ! ?i + 1) = Suc (unat (rc_attempts c ! ?i))"
    using assms(5) by (intro attempt_counts [OF pol]) (simp add: word_less_nat_alt)
  have retry: "fst (rcvr_on_fault slot now c d) = Ok"
    "snd (snd (rcvr_on_fault slot now c d)) = (if ?w = 0 then Retry else Wait)"
    "rc_next_retry_ns (fst (snd (rcvr_on_fault slot now c d))) =
       (rc_next_retry_ns c)[?i := if now > UINT64_MAX - ?w then UINT64_MAX else now + ?w]"
    "rc_attempts (fst (snd (rcvr_on_fault slot now c d))) =
       (rc_attempts c)[?i := rc_attempts c ! ?i + 1]"
    using assms(2-5) nz by (auto simp: rcvr_on_fault_def Let_def not_less not_le)
  have cap: "unat ?w \<le> unat (rpol_max_backoff_ns ?p)"
    using backoff_capped [OF first] by (simp add: word_le_nat_alt)
  have time: "unat (if now > UINT64_MAX - ?w then UINT64_MAX else now + ?w) =
      min (unat now + unat ?w) (2 ^ 64 - 1)"
    by (auto simp: less_max_minus unat_max unat_add_exact not_less min_def)
  have zero: "?w = 0 \<longleftrightarrow> unat ?w = 0" by (simp add: unat_eq_0)
  show ?thesis
    unfolding Let_def w [symmetric] retry att using i cap zero time att
    by (auto simp: list_all_iff nth_list_update)
qed

definition fault_demo :: source_recovery_controller where
  "fault_demo = fold rcvr_step [Op_fault 0 7, Op_fault 0 9]
     (snd (rcvr_configure 2 default_recovery_policy rcvr_initial))"

theorem rcvr_backoff_schedules_exactly_witness:
  "unat (rc_next_retry_ns (fst (snd (rcvr_on_fault 0 1000 fault_demo Retry))) ! 0) = 400001000"
proof -
  have inv: "rcvr_inv fault_demo"
    unfolding fault_demo_def by (intro rcvr.run_inv configure_inv rcvr_initial_inv)
  have pre: "0 < rc_source_count fault_demo" "(1000 :: u64) \<noteq> UINT64_MAX"
    "\<not> rc_exhausted fault_demo ! unat (0 :: u16)"
    "rc_attempts fault_demo ! unat (0 :: u16) < rpol_max_retries (rc_policy fault_demo)"
    and pol: "rc_policy fault_demo = default_recovery_policy"
    and two: "rc_attempts fault_demo ! unat (0 :: u16) = 2"
    by code_simp+
  have fits: "products_fit (rc_policy fault_demo)"
    unfolding pol by (simp add: products_fit_def default_recovery_policy_def)
  have "reference_backoff p 2 = scaled_once p (scaled_once p (unat (rpol_initial_backoff_ns p)))" for p
    by (simp add: reference_backoff_def numeral_2_eq_2)
  then have "reference_backoff default_recovery_policy 2 = 400000000"
    by (simp add: scaled_once_def default_recovery_policy_def)
  moreover have "unat (rc_next_retry_ns (fst (snd (rcvr_on_fault 0 1000 fault_demo Retry))) ! unat (0 :: u16)) =
      min (unat (1000 :: u64) + reference_backoff (rc_policy fault_demo)
             (unat (rc_attempts fault_demo ! unat (0 :: u16)))) (2 ^ 64 - 1)"
    using rcvr_backoff_schedules_exactly [OF inv pre fits, of Retry]
    unfolding Let_def by (elim conjE) assumption
  ultimately show ?thesis unfolding pol two by simp
qed

text \<open>
  Without that premise the comment's formula fails: a multiplier written as an unreduced
  fraction of value one overflows the product and jumps to the maximum at the first repeat.
\<close>

definition unreduced_policy :: recovery_policy where
  "unreduced_policy = \<lparr>rpol_max_retries = 5, rpol_initial_backoff_ns = 5000000000,
     rpol_max_backoff_ns = 600000000000, rpol_multiplier_numerator = 0xFFFFFFFF,
     rpol_multiplier_denominator = 0xFFFFFFFF\<rparr>"

lemma rcvr_unreduced_multiplier_jumps_to_cap:
  "fst (rcvr_configure 1 unreduced_policy rcvr_initial) = Ok"
  "rcvr_backoff_from 1 unreduced_policy (rpol_initial_backoff_ns unreduced_policy) = 600000000000"
  "reference_backoff unreduced_policy 1 = 5000000000"
proof -
  show "fst (rcvr_configure 1 unreduced_policy rcvr_initial) = Ok"
    "rcvr_backoff_from 1 unreduced_policy (rpol_initial_backoff_ns unreduced_policy) = 600000000000"
    by code_simp+
  show "reference_backoff unreduced_policy 1 = 5000000000"
    by (simp add: reference_backoff_def scaled_once_def unreduced_policy_def)
qed

end
