(* ===== verification/Model_Catalog.thy ===== *)
theory Model_Catalog
  imports Deployment_Config
begin

text \<open>
  The model catalog, its dependency graph and the admission of a deployment against it:
  contracts/vqec_vision_model_catalog.hpp, contracts/vqec_vision_model_outputs.hpp and
  core/vqec_vision_model_catalog.cpp (prefix \<open>mdcat\<close>).
\<close>

section \<open>Data\<close>

definition mdl_schema_version :: u32 where "mdl_schema_version = 2"
definition mdl_legacy_schema_version :: u32 where "mdl_legacy_schema_version = 1"
definition mdl_max_models :: nat where "mdl_max_models = 64"
definition mdl_max_dependencies :: nat where "mdl_max_dependencies = 16"
definition mdl_max_identifier_bytes :: nat where "mdl_max_identifier_bytes = 128"
definition mdl_max_model_resident_bytes :: u64 where
  "mdl_max_model_resident_bytes = 2 * 1024 * 1024 * 1024"
definition mdl_max_catalog_resident_bytes :: u64 where
  "mdl_max_catalog_resident_bytes = 8 * 1024 * 1024 * 1024"

datatype model_role = Primary | Secondary | Unlisted_role u32

record model_dependency =
  md_model_id :: string
  md_model_version :: string
  md_target_id :: string

record model_source_constraints =
  mc_min_width :: u32
  mc_min_height :: u32
  mc_max_width :: u32
  mc_max_height :: u32
  mc_min_fps_numerator :: u32
  mc_min_fps_denominator :: u32

record model_resource_profile =
  mr_resident_bytes :: u64
  mr_max_tensor_bytes_per_source :: u64
  mr_output_queue_buffers :: u32
  mr_max_concurrent_sources :: u32
  mr_can_share_context_across_sources :: bool

record model_catalog_entry =
  me_model_id :: string
  me_model_version :: string
  me_target_id :: string
  me_artifact_ref :: string
  me_artifact_sha256 :: string
  me_output_manifest_ref :: string
  me_decoder_contract :: string
  me_preprocess_contract :: string
  me_graph_name :: string
  me_role :: model_role
  me_depends_on :: "model_dependency list"
  me_tensor_width :: u32
  me_tensor_height :: u32
  me_input_type :: tensor_element_type
  me_preprocess :: preprocess_spec
  me_channel_order :: channel_order
  me_placement :: image_placement
  me_mean :: channel_values
  me_sigma :: channel_values
  me_inference_fps_numerator :: u32
  me_inference_fps_denominator :: u32
  me_source_constraints :: model_source_constraints
  me_resources :: model_resource_profile

record model_catalog =
  ct_schema_version :: u32
  ct_revision :: u64
  ct_catalog_id :: string
  ct_models :: "model_catalog_entry list"

record resolved_model_paths =
  rp_model_id :: string
  rp_target_id :: string
  rp_artifact_ref :: string
  rp_model_path :: string
  rp_backend_path :: string
  rp_system_path :: string

record model_outputs =
  mo_model_id :: string
  mo_model_version :: string
  mo_artifact_sha256 :: string
  mo_decoder_contract :: string
  mo_max_output_bytes :: u64
  mo_outputs :: "tensor_spec list"

section \<open>Entries\<close>

definition mdcat_is_identifier :: "string \<Rightarrow> bool" where
  "mdcat_is_identifier v = ident_is_valid v mdl_max_identifier_bytes"

definition mdcat_is_digest :: "string \<Rightarrow> bool" where
  "mdcat_is_digest v = ident_is_sha256_hex v"

definition mdcat_add_bytes :: "u64 \<Rightarrow> u64 \<Rightarrow> u64 option" where
  "mdcat_add_bytes bytes sofar = checked_add bytes sofar"

definition mdcat_multiply_bytes :: "u64 \<Rightarrow> u32 \<Rightarrow> u64 \<Rightarrow> u64 option" where
  "mdcat_multiply_bytes bytes count sofar =
     (if count \<noteq> 0 \<and> bytes > UINT64_MAX div ucast count then None
      else mdcat_add_bytes (bytes * ucast count) sofar)"

definition mdcat_is_rate_at_most :: "u32 \<Rightarrow> u32 \<Rightarrow> u32 \<Rightarrow> u32 \<Rightarrow> bool" where
  "mdcat_is_rate_at_most left_num left_den right_num right_den \<longleftrightarrow>
     (ucast left_num :: u64) * ucast right_den \<le> ucast right_num * ucast left_den"

definition mdcat_minimum_input_bytes :: "model_catalog_entry \<Rightarrow> u64" where
  "mdcat_minimum_input_bytes m =
     (let element_bytes = tnctr_element_size (me_input_type m) in
      if element_bytes = 0 then 0
      else ucast (me_tensor_width m) * ucast (me_tensor_height m) * 3 * element_bytes)"

definition mdcat_check_identity :: "model_catalog_entry \<Rightarrow> status" where
  "mdcat_check_identity m =
     (if \<not> mdcat_is_identifier (me_model_id m) \<or> \<not> mdcat_is_identifier (me_model_version m) \<or>
         \<not> mdcat_is_identifier (me_target_id m) \<or> \<not> mdcat_is_identifier (me_artifact_ref m) \<or>
         \<not> mdcat_is_digest (me_artifact_sha256 m) \<or>
         \<not> mdcat_is_identifier (me_output_manifest_ref m) \<or>
         \<not> mdcat_is_identifier (me_decoder_contract m) \<or>
         \<not> mdcat_is_identifier (me_preprocess_contract m) \<or>
         \<not> mdcat_is_identifier (me_graph_name m) then Invalid_argument else Ok)"

definition mdcat_check_input :: "model_catalog_entry \<Rightarrow> status" where
  "mdcat_check_input m =
     (if me_tensor_width m < infpl_min_tensor_dimension \<or>
         me_tensor_height m < infpl_min_tensor_dimension \<or>
         me_tensor_width m > infpl_max_tensor_dimension \<or>
         me_tensor_height m > infpl_max_tensor_dimension \<or>
         unsupported_input_type (me_input_type m) \<or>
         \<not> known_channel_order (me_channel_order m) \<or> \<not> explicit_placement (me_placement m)
        then Unsupported
      else if \<not> normalization_in_range (me_mean m) (me_sigma m) then Invalid_argument
      else if ppspc_validate (me_preprocess m) \<noteq> Ok \<and> me_input_type m \<noteq> Elem_float32 \<and>
          custom_normalization (me_mean m) (me_sigma m) then Unsupported
      else Ok)"

definition mdcat_check_rates :: "model_catalog_entry \<Rightarrow> status" where
  "mdcat_check_rates m =
     (let c = me_source_constraints m in
      if me_inference_fps_numerator m = 0 \<or> me_inference_fps_denominator m = 0 \<or>
         me_inference_fps_numerator m > infpl_max_fps_numerator \<or>
         me_inference_fps_denominator m > infpl_max_fps_denominator \<or>
         \<not> mdcat_is_rate_at_most (me_inference_fps_numerator m) (me_inference_fps_denominator m)
             infpl_max_frames_per_second 1 then Invalid_argument
      else if mc_min_width c = 0 \<or> mc_min_height c = 0 \<or> mc_max_width c < mc_min_width c \<or>
          mc_max_height c < mc_min_height c \<or> mc_max_width c > dpl_max_dimension_pixels \<or>
          mc_max_height c > dpl_max_dimension_pixels \<or>
          \<not> nvgeo_is_even_nonzero (mc_min_width c) (mc_min_height c) \<or>
          \<not> nvgeo_is_even_nonzero (mc_max_width c) (mc_max_height c) \<or>
          mc_min_fps_numerator c = 0 \<or> mc_min_fps_denominator c = 0 \<or>
          mc_min_fps_numerator c > infpl_max_fps_numerator \<or>
          mc_min_fps_denominator c > infpl_max_fps_denominator \<or>
          \<not> mdcat_is_rate_at_most (mc_min_fps_numerator c) (mc_min_fps_denominator c)
              infpl_max_frames_per_second 1 then Invalid_argument
      else Ok)"

definition mdcat_check_resources :: "model_catalog_entry \<Rightarrow> status" where
  "mdcat_check_resources m =
     (let r = me_resources m in
      if mr_resident_bytes r = 0 \<or> mr_resident_bytes r > mdl_max_model_resident_bytes \<or>
         mr_max_tensor_bytes_per_source r = 0 \<or>
         mr_max_tensor_bytes_per_source r > dpl_max_tensor_bytes_per_source \<or>
         mr_output_queue_buffers r = 0 \<or>
         mr_output_queue_buffers r > infpl_max_output_queue_buffers \<or>
         mr_max_concurrent_sources r = 0 \<or>
         unat (mr_max_concurrent_sources r) > dpl_max_sources then Invalid_argument
      else if mr_max_tensor_bytes_per_source r < mdcat_minimum_input_bytes m
        then Resource_exhausted
      else Ok)"

definition mdcat_check_role :: "model_catalog_entry \<Rightarrow> status" where
  "mdcat_check_role m =
     (case me_role m of
        Primary \<Rightarrow> if me_depends_on m \<noteq> [] then Invalid_argument else Ok
      | Secondary \<Rightarrow>
          if me_depends_on m = [] \<or> length (me_depends_on m) > mdl_max_dependencies
            then Invalid_argument
          else if \<not> list_all (\<lambda>d. mdcat_is_identifier (md_model_id d) \<and>
              mdcat_is_identifier (md_model_version d) \<and> mdcat_is_identifier (md_target_id d))
              (me_depends_on m) then Invalid_argument
          else Ok
      | Unlisted_role _ \<Rightarrow> Invalid_argument)"

definition mdcat_validate_entry :: "model_catalog_entry \<Rightarrow> status" where
  "mdcat_validate_entry m =
     and_then (mdcat_check_identity m) (and_then (mdcat_check_input m)
       (and_then (mdcat_check_rates m) (and_then (mdcat_check_resources m) (mdcat_check_role m))))"

definition mdcat_find_model :: "model_catalog \<Rightarrow> string \<Rightarrow> model_catalog_entry option" where
  "mdcat_find_model c model_id = find (\<lambda>m. me_model_id m = model_id) (ct_models c)"

section \<open>Sources and models\<close>

definition mdcat_source_supports_model ::
    "source_deployment_config \<Rightarrow> model_catalog_entry \<Rightarrow> bool" where
  "mdcat_source_supports_model s m \<longleftrightarrow>
     (let profile = sd_profile s; c = me_source_constraints m in
      pf_width profile \<ge> mc_min_width c \<and> pf_width profile \<le> mc_max_width c \<and>
      pf_height profile \<ge> mc_min_height c \<and> pf_height profile \<le> mc_max_height c \<and>
      mdcat_is_rate_at_most (mc_min_fps_numerator c) (mc_min_fps_denominator c)
        (pf_fps_numerator profile) (pf_fps_denominator profile) \<and>
      mdcat_is_rate_at_most (me_inference_fps_numerator m) (me_inference_fps_denominator m)
        (pf_fps_numerator profile) (pf_fps_denominator profile))"

definition mdcat_source_assigns_model :: "source_deployment_config \<Rightarrow> string \<Rightarrow> bool" where
  "mdcat_source_assigns_model s model_id \<longleftrightarrow> model_id \<in> set (sd_model_ids s)"

definition mdcat_source_activates_model ::
    "source_deployment_config \<Rightarrow> model_catalog_entry \<Rightarrow> bool" where
  "mdcat_source_activates_model s m \<longleftrightarrow>
     (if me_role m = Primary then mdcat_source_assigns_model s (me_model_id m)
      else me_depends_on m \<noteq> [] \<and>
        list_all (\<lambda>d. mdcat_source_assigns_model s (md_model_id d)) (me_depends_on m))"

section \<open>The catalog\<close>

definition names_entry :: "model_dependency \<Rightarrow> model_catalog_entry \<Rightarrow> bool" where
  "names_entry d m \<longleftrightarrow> me_model_id m = md_model_id d \<and> me_model_version m = md_model_version d \<and>
     me_target_id m = md_target_id d"

definition mdcat_check_dependency ::
    "model_catalog \<Rightarrow> model_catalog_entry \<Rightarrow> model_dependency list \<Rightarrow> model_dependency \<Rightarrow> status" where
  "mdcat_check_dependency c m earlier d =
     (if names_entry d m then Invalid_argument
      else
        (case find (names_entry d) (ct_models c) of
           None \<Rightarrow> Invalid_argument
         | Some target \<Rightarrow>
             if me_role target \<noteq> Primary then Invalid_argument
             else if \<exists>e \<in> set earlier. md_model_id e = md_model_id d \<and>
                 md_model_version e = md_model_version d \<and> md_target_id e = md_target_id d
               then Invalid_argument
             else Ok))"

definition mdcat_check_model ::
    "model_catalog \<Rightarrow> model_catalog_entry list \<Rightarrow> model_catalog_entry \<Rightarrow> status" where
  "mdcat_check_model c seen m =
     and_then (mdcat_validate_entry m)
       (and_then (if \<exists>p \<in> set seen. me_model_id p = me_model_id m \<or>
            me_artifact_ref p = me_artifact_ref m \<or>
            me_output_manifest_ref p = me_output_manifest_ref m
          then Invalid_argument else Ok)
        (validate_items (mdcat_check_dependency c m) [] (me_depends_on m)))"

fun mdcat_models_from ::
    "model_catalog \<Rightarrow> model_catalog_entry list \<Rightarrow> u64 \<Rightarrow> model_catalog_entry list \<Rightarrow>
       status \<times> u64" where
  "mdcat_models_from c seen sofar [] = (Ok, sofar)"
| "mdcat_models_from c seen sofar (m # rest) =
     (let valid = mdcat_check_model c seen m in
      if valid \<noteq> Ok then (valid, sofar)
      else
        (case mdcat_add_bytes (mr_resident_bytes (me_resources m)) sofar of
           None \<Rightarrow> (Resource_exhausted, sofar)
         | Some t \<Rightarrow>
             if t > mdl_max_catalog_resident_bytes then (Resource_exhausted, sofar)
             else mdcat_models_from c (seen @ [m]) t rest))"

definition mdcat_check_root :: "model_catalog \<Rightarrow> status" where
  "mdcat_check_root c =
     (if ct_schema_version c \<noteq> mdl_schema_version \<and>
         ct_schema_version c \<noteq> mdl_legacy_schema_version then Unsupported
      else if ct_revision c = 0 \<or> \<not> mdcat_is_identifier (ct_catalog_id c) \<or>
          ct_models c = [] \<or> length (ct_models c) > mdl_max_models then Invalid_argument
      else Ok)"

definition mdcat_validate_catalog :: "model_catalog \<Rightarrow> u64 \<Rightarrow> status \<times> u64" where
  "mdcat_validate_catalog c declared =
     (if mdcat_check_root c \<noteq> Ok then (mdcat_check_root c, declared)
      else
        (case mdcat_models_from c [] 0 (ct_models c) of
           (valid, sofar) \<Rightarrow> if valid \<noteq> Ok then (valid, declared) else (Ok, sofar)))"

section \<open>Admission of a deployment\<close>

text \<open>The counters are C++ \<open>unsigned\<close>.\<close>

definition count_u32 :: "('a \<Rightarrow> bool) \<Rightarrow> 'a list \<Rightarrow> u32" where
  "count_u32 P xs = word_of_nat (length (filter P xs))"

definition mdcat_resident_instances ::
    "source_deployment_config list \<Rightarrow> model_catalog_entry \<Rightarrow> u32" where
  "mdcat_resident_instances sources m =
     (let active = count_u32 (\<lambda>s. mdcat_source_activates_model s m) sources in
      if mr_can_share_context_across_sources (me_resources m) \<and> active \<noteq> 0 then 1 else active)"

fun mdcat_resident_from ::
    "source_deployment_config list \<Rightarrow> u64 \<Rightarrow> model_catalog_entry list \<Rightarrow> status \<times> u64" where
  "mdcat_resident_from sources required [] = (Ok, required)"
| "mdcat_resident_from sources required (m # rest) =
     (let direct = count_u32 (\<lambda>s. mdcat_source_assigns_model s (me_model_id m)) sources;
          active = count_u32 (\<lambda>s. mdcat_source_activates_model s m) sources
      in if active > mr_max_concurrent_sources (me_resources m) then (Resource_exhausted, required)
         else if direct \<noteq> 0 \<and> me_role m = Secondary then (Invalid_argument, required)
         else
           (case mdcat_multiply_bytes (mr_resident_bytes (me_resources m))
                   (mdcat_resident_instances sources m) required of
              None \<Rightarrow> (Resource_exhausted, required)
            | Some t \<Rightarrow> mdcat_resident_from sources t rest))"

fun mdcat_tensors_from ::
    "source_deployment_config \<Rightarrow> u64 \<Rightarrow> model_catalog_entry list \<Rightarrow> status \<times> u64" where
  "mdcat_tensors_from s tensor_bytes [] = (Ok, tensor_bytes)"
| "mdcat_tensors_from s tensor_bytes (m # rest) =
     (if \<not> mdcat_source_activates_model s m then mdcat_tensors_from s tensor_bytes rest
      else if \<not> mdcat_source_supports_model s m then (Unsupported, tensor_bytes)
      else
        (case mdcat_add_bytes (mr_max_tensor_bytes_per_source (me_resources m)) tensor_bytes of
           None \<Rightarrow> (Resource_exhausted, tensor_bytes)
         | Some t \<Rightarrow> mdcat_tensors_from s t rest))"

definition mdcat_check_source :: "model_catalog \<Rightarrow> source_deployment_config \<Rightarrow> status" where
  "mdcat_check_source c s =
     (if \<not> list_all (\<lambda>id. mdcat_find_model c id \<noteq> None) (sd_model_ids s) then Invalid_argument
      else
        (case mdcat_tensors_from s 0 (ct_models c) of
           (valid, tensor_bytes) \<Rightarrow>
             if valid \<noteq> Ok then valid
             else if tensor_bytes > sm_max_tensor_bytes (sd_memory s) then Resource_exhausted
             else Ok))"

definition mdcat_validate_deployment_models ::
    "deployment_config \<Rightarrow> model_catalog \<Rightarrow> u64 \<Rightarrow> status \<times> u64" where
  "mdcat_validate_deployment_models d c required =
     (let valid_deployment = fst (dpval_validate_deployment d 0);
          valid_catalog = fst (mdcat_validate_catalog c 0);
          resident = mdcat_resident_from (dc_sources d) 0 (ct_models c);
          sources = validate_items (\<lambda>_. mdcat_check_source c) [] (dc_sources d)
      in if valid_deployment \<noteq> Ok then (valid_deployment, required)
         else if valid_catalog \<noteq> Ok then (valid_catalog, required)
         else if dc_model_catalog_ref d \<noteq> ct_catalog_id c then (Invalid_argument, required)
         else if fst resident \<noteq> Ok then (fst resident, required)
         else if sources \<noteq> Ok then (sources, required)
         else if snd resident > dc_max_model_resident_bytes d then (Resource_exhausted, required)
         else (Ok, snd resident))"

definition mdcat_validate_model_outputs ::
    "model_catalog_entry \<Rightarrow> string \<Rightarrow> model_outputs \<Rightarrow> u64 \<Rightarrow> status \<times> u64" where
  "mdcat_validate_model_outputs m manifest_ref outputs required =
     (let budget = mr_max_tensor_bytes_per_source (me_resources m) in
      if mdcat_validate_entry m \<noteq> Ok then (mdcat_validate_entry m, required)
      else if manifest_ref \<noteq> me_output_manifest_ref m \<or> mo_model_id outputs \<noteq> me_model_id m \<or>
          mo_model_version outputs \<noteq> me_model_version m \<or>
          mo_artifact_sha256 outputs \<noteq> me_artifact_sha256 m \<or>
          mo_decoder_contract outputs \<noteq> me_decoder_contract m then (Invalid_argument, required)
      else
        (case tnctr_validate_outputs (mo_outputs outputs) (mo_max_output_bytes outputs) 0 of
           (valid, bytes) \<Rightarrow>
             if valid \<noteq> Ok then (valid, required)
             else if bytes > budget then (Resource_exhausted, required)
             else if mdcat_minimum_input_bytes m > budget - bytes then (Resource_exhausted, required)
             else (Ok, bytes)))"

definition mdcat_candidate_plan ::
    "source_deployment_config \<Rightarrow> model_catalog_entry \<Rightarrow> resolved_model_paths \<Rightarrow> inference_plan" where
  "mdcat_candidate_plan s m paths =
     \<lparr>ip_source_width = pf_width (sd_profile s), ip_source_height = pf_height (sd_profile s),
      ip_fps_numerator = pf_fps_numerator (sd_profile s),
      ip_fps_denominator = pf_fps_denominator (sd_profile s),
      ip_tensor_width = me_tensor_width m, ip_tensor_height = me_tensor_height m,
      ip_input_type = me_input_type m, ip_channel_order = me_channel_order m,
      ip_placement = me_placement m, ip_mean = me_mean m, ip_sigma = me_sigma m,
      ip_preprocess = me_preprocess m, ip_model_path = rp_model_path paths,
      ip_backend_path = rp_backend_path paths, ip_system_path = rp_system_path paths,
      ip_input_queue_bytes = sm_max_frame_allocation_bytes (sd_memory s),
      ip_output_queue_buffers = mr_output_queue_buffers (me_resources m)\<rparr>"

definition mdcat_compose_inference_plan ::
    "source_deployment_config \<Rightarrow> model_catalog_entry \<Rightarrow> resolved_model_paths \<Rightarrow> inference_plan \<Rightarrow>
       status \<times> inference_plan" where
  "mdcat_compose_inference_plan s m paths plan =
     (let is_assigned = mdcat_source_activates_model s m;
          candidate = mdcat_candidate_plan s m paths
      in if mdcat_validate_entry m \<noteq> Ok then (mdcat_validate_entry m, plan)
         else if \<not> mdcat_source_supports_model s m then (Unsupported, plan)
         else if \<not> is_assigned \<or>
             sm_max_tensor_bytes (sd_memory s) < mr_max_tensor_bytes_per_source (me_resources m) \<or>
             rp_model_id paths \<noteq> me_model_id m \<or> rp_target_id paths \<noteq> me_target_id m \<or>
             rp_artifact_ref paths \<noteq> me_artifact_ref m then (Invalid_argument, plan)
         else if infpl_validate_plan candidate \<noteq> Ok then (infpl_validate_plan candidate, plan)
         else (Ok, candidate))"

section \<open>Exact arithmetic\<close>

lemma product_u32_exact: "unat ((ucast (a :: u32) :: u64) * ucast (b :: u32)) = unat a * unat b"
proof -
  have "unat a * unat b \<le> (2 ^ 32 - 1) * (2 ^ 32 - 1)"
    using unat_bound [of a] unat_bound [of b] by (intro mult_le_mono) simp_all
  then show ?thesis by (subst unat_mult_exact) simp_all
qed

lemma rate_exact:
  "mdcat_is_rate_at_most a b c d \<longleftrightarrow> unat a * unat d \<le> unat c * unat b"
  by (simp add: mdcat_is_rate_at_most_def word_le_nat_alt product_u32_exact)

lemma mdcat_multiply_exact:
  "mdcat_multiply_bytes bytes count t = Some t' \<longleftrightarrow> unat t' = unat t + unat bytes * unat count"
proof -
  have eq: "mdcat_multiply_bytes bytes count t =
      (case checked_mul bytes (ucast count) of None \<Rightarrow> None | Some p \<Rightarrow> checked_add p t)"
    using unat_ucast_widen_simps(1) [of count]
    by (auto simp: mdcat_multiply_bytes_def checked_mul_def mdcat_add_bytes_def word_unat_eq_iff)
  show ?thesis
  proof (cases "mdcat_multiply_bytes bytes count t")
    case None
    have "2 ^ 64 \<le> unat t + unat bytes * unat count"
      using None unfolding eq
      by (auto split: option.splits simp: checked_mul_None_iff checked_add_None_iff
          dest!: checked_mul_SomeD)
    then have "unat t' \<noteq> unat t + unat bytes * unat count" using unat_less_2_64 [of t'] by linarith
    with None show ?thesis by simp
  next
    case (Some u)
    have "unat u = unat t + unat bytes * unat count"
      using Some unfolding eq
      by (auto split: option.splits dest!: checked_mul_SomeD checked_add_SomeD)
    with Some show ?thesis by (auto simp: word_unat_eq_iff)
  qed
qed

lemma mdcat_add_exact: "mdcat_add_bytes b t = Some t' \<longleftrightarrow> unat t' = unat t + unat b"
proof
  assume "unat t' = unat t + unat b"
  then show "mdcat_add_bytes b t = Some t'"
    using unat_less_2_64 [of t'] unat_add_exact [of t b]
    unfolding mdcat_add_bytes_def checked_add_Some_iff by (simp add: word_unat_eq_iff)
qed (simp add: mdcat_add_bytes_def checked_add_SomeD)

text \<open>The declared input of an accepted entry is its exact size: at most 384 MiB, far below 64 bits.\<close>

lemma minimum_input_exact:
  assumes "mdcat_check_input m = Ok"
  shows "unat (mdcat_minimum_input_bytes m) =
    unat (me_tensor_width m) * unat (me_tensor_height m) * 3 * unat (tnctr_element_size (me_input_type m))"
proof -
  let ?w = "unat (me_tensor_width m)" and ?h = "unat (me_tensor_height m)"
    and ?e = "tnctr_element_size (me_input_type m)"
  have le: "?w \<le> 4096" "?h \<le> 4096"
    using assms by (auto simp: mdcat_check_input_def infpl_max_tensor_dimension_def word_le_nat_alt
        not_less split: if_splits)
  have e: "unat ?e \<le> 8" by (cases "me_input_type m") simp_all
  define n where "n = ?w * ?h"
  have n: "n \<le> 4096 * 4096" unfolding n_def using le by (rule mult_le_mono)
  let ?p = "(ucast (me_tensor_width m) :: u64) * ucast (me_tensor_height m)"
  have p: "unat ?p = n" by (simp only: product_u32_exact n_def)
  have p3: "unat (?p * 3) = n * 3" using n p by (subst unat_mult_exact) simp_all
  have "n * 3 * unat ?e \<le> 4096 * 4096 * 3 * 8" using n e by (intro mult_le_mono) simp_all
  then have "unat (?p * 3 * ?e) = n * 3 * unat ?e"
    using p3 by (subst unat_mult_exact) simp_all
  then show ?thesis by (simp add: mdcat_minimum_input_bytes_def Let_def n_def)
qed

section \<open>What a valid catalog is\<close>

definition resident_sum :: "model_catalog_entry list \<Rightarrow> nat" where
  "resident_sum ms = sum_list (map (\<lambda>m. unat (mr_resident_bytes (me_resources m))) ms)"

lemma mdcat_models_from_Ok:
  "mdcat_models_from c seen sofar ms = (Ok, r) \<Longrightarrow> unat sofar \<le> unat mdl_max_catalog_resident_bytes \<Longrightarrow>
     validate_items (mdcat_check_model c) seen ms = Ok \<and> unat r = unat sofar + resident_sum ms \<and>
     unat r \<le> unat mdl_max_catalog_resident_bytes"
proof (induction ms arbitrary: seen sofar)
  case Nil
  then show ?case by (simp add: resident_sum_def)
next
  case (Cons m ms)
  obtain t where t: "mdcat_check_model c seen m = Ok"
      "mdcat_add_bytes (mr_resident_bytes (me_resources m)) sofar = Some t"
      "\<not> t > mdl_max_catalog_resident_bytes" "mdcat_models_from c (seen @ [m]) t ms = (Ok, r)"
    using Cons.prems(1) by (auto simp: Let_def split: if_splits option.splits)
  have "unat t \<le> unat mdl_max_catalog_resident_bytes" using t(3) by (simp add: word_le_nat_alt not_less)
  from Cons.IH [OF t(4) this] t(1,2) show ?case
    by (simp add: mdcat_add_exact resident_sum_def)
qed

lemma find_names:
  "find (names_entry d) ms = Some t \<Longrightarrow> t \<in> set ms \<and> names_entry d t"
  by (auto simp: find_Some_iff)

lemma check_dependencies_Ok:
  assumes "validate_items (mdcat_check_dependency c m) [] ds = Ok"
  shows "distinct ds \<and> (\<forall>d \<in> set ds. \<not> names_entry d m \<and>
    (\<exists>t \<in> set (ct_models c). names_entry d t \<and> me_role t = Primary))"
proof -
  have "mdcat_check_dependency c m prev d = Ok \<longleftrightarrow>
      (\<not> names_entry d m \<and> (\<exists>t. find (names_entry d) (ct_models c) = Some t \<and> me_role t = Primary)) \<and>
      (\<forall>e \<in> set prev. id e \<noteq> id d)" for prev d
  proof -
    have same: "(md_model_id e = md_model_id d \<and> md_model_version e = md_model_version d \<and>
        md_target_id e = md_target_id d) \<longleftrightarrow> e = d" for e
      by (auto intro: model_dependency.equality)
    show ?thesis
      unfolding mdcat_check_dependency_def same by (auto split: option.splits if_splits)
  qed
  from validate_distinct_Ok [OF this] assms have "distinct ds"
    and "\<forall>d \<in> set ds. \<not> names_entry d m \<and>
      (\<exists>t. find (names_entry d) (ct_models c) = Some t \<and> me_role t = Primary)" by auto
  then show ?thesis using find_names by blast
qed

definition catalog_keys_distinct :: "model_catalog_entry list \<Rightarrow> bool" where
  "catalog_keys_distinct ms \<longleftrightarrow> distinct (map me_model_id ms) \<and> distinct (map me_artifact_ref ms) \<and>
     distinct (map me_output_manifest_ref ms)"

lemma check_models_catalog_Ok:
  assumes "validate_items (mdcat_check_model c) [] ms = Ok"
  shows "list_all (\<lambda>m. mdcat_validate_entry m = Ok) ms" and "catalog_keys_distinct ms"
    and "m \<in> set ms \<Longrightarrow> validate_items (mdcat_check_dependency c m) [] (me_depends_on m) = Ok"
proof -
  have new: "mdcat_check_model c seen m = Ok \<Longrightarrow> mdcat_validate_entry m = Ok \<and>
      validate_items (mdcat_check_dependency c m) [] (me_depends_on m) = Ok \<and>
      (\<forall>p \<in> set seen. me_model_id p \<noteq> me_model_id m) \<and>
      (\<forall>p \<in> set seen. me_artifact_ref p \<noteq> me_artifact_ref m) \<and>
      (\<forall>p \<in> set seen. me_output_manifest_ref p \<noteq> me_output_manifest_ref m)" for seen m
    by (auto simp: mdcat_check_model_def split: if_splits)
  have all: "mdcat_check_model c (take i ms) (ms ! i) = Ok" if "i < length ms" for i
    using assms that by (simp add: validate_items_Ok)
  show "list_all (\<lambda>m. mdcat_validate_entry m = Ok) ms"
    using new [OF all] by (simp add: list_all_length)
  show "catalog_keys_distinct ms"
    unfolding catalog_keys_distinct_def no_earlier_key_distinct [symmetric]
    using new [OF all] by blast
  show "validate_items (mdcat_check_dependency c m) [] (me_depends_on m) = Ok" if "m \<in> set ms"
    using that new [OF all] by (auto simp: in_set_conv_nth)
qed

lemma mdcat_validate_catalog_Ok:
  assumes "mdcat_validate_catalog c r0 = (Ok, r)"
  shows "mdcat_check_root c = Ok" "validate_items (mdcat_check_model c) [] (ct_models c) = Ok"
    "unat r = resident_sum (ct_models c)" "unat r \<le> unat mdl_max_catalog_resident_bytes"
proof -
  have ok: "mdcat_check_root c = Ok" "mdcat_models_from c [] 0 (ct_models c) = (Ok, r)"
    using assms by (auto simp: mdcat_validate_catalog_def split: if_splits prod.splits)
  then show "mdcat_check_root c = Ok" by simp
  from mdcat_models_from_Ok [OF ok(2)]
  show "validate_items (mdcat_check_model c) [] (ct_models c) = Ok"
    "unat r = resident_sum (ct_models c)" "unat r \<le> unat mdl_max_catalog_resident_bytes" by simp_all
qed

lemma entry_role:
  "mdcat_validate_entry m = Ok \<Longrightarrow>
     (me_role m = Primary \<and> me_depends_on m = []) \<or> (me_role m = Secondary \<and> me_depends_on m \<noteq> [])"
  by (auto simp: mdcat_validate_entry_def mdcat_check_role_def split: model_role.splits if_splits)

lemma unique_by_id:
  "distinct (map me_model_id ms) \<Longrightarrow> a \<in> set ms \<Longrightarrow> b \<in> set ms \<Longrightarrow> me_model_id a = me_model_id b \<Longrightarrow> a = b"
  by (metis eq_key_imp_eq_value distinct_map inj_onD)

section \<open>What an admitted deployment is\<close>

definition active_sources :: "source_deployment_config list \<Rightarrow> model_catalog_entry \<Rightarrow> nat" where
  "active_sources ss m = length (filter (\<lambda>s. mdcat_source_activates_model s m) ss)"

text \<open>One shared context, or one per active source.\<close>

definition contexts :: "source_deployment_config list \<Rightarrow> model_catalog_entry \<Rightarrow> nat" where
  "contexts ss m =
     (if mr_can_share_context_across_sources (me_resources m) \<and> active_sources ss m \<noteq> 0 then 1
      else active_sources ss m)"

definition required_sum :: "source_deployment_config list \<Rightarrow> model_catalog_entry list \<Rightarrow> nat" where
  "required_sum ss ms =
     sum_list (map (\<lambda>m. unat (mr_resident_bytes (me_resources m)) * contexts ss m) ms)"

definition tensor_sum :: "source_deployment_config \<Rightarrow> model_catalog_entry list \<Rightarrow> nat" where
  "tensor_sum s ms = sum_list (map (\<lambda>m. unat (mr_max_tensor_bytes_per_source (me_resources m)))
     (filter (mdcat_source_activates_model s) ms))"

lemma count_exact:
  assumes "length xs \<le> dpl_max_sources"
  shows "unat (count_u32 P xs) = length (filter P xs)"
proof -
  have "length (filter P xs) \<le> 16"
    using assms length_filter_le [of P xs] unfolding dpl_max_sources_def by (rule le_trans [rotated])
  then show ?thesis by (simp add: count_u32_def unat_of_nat)
qed

lemma instances_exact:
  assumes "length ss \<le> dpl_max_sources"
  shows "unat (mdcat_resident_instances ss m) = contexts ss m"
  using count_exact [OF assms, of "\<lambda>s. mdcat_source_activates_model s m"]
  by (auto simp: mdcat_resident_instances_def Let_def contexts_def active_sources_def word_unat_eq_iff)

lemma mdcat_resident_from_Ok:
  assumes len: "length ss \<le> dpl_max_sources"
  shows "mdcat_resident_from ss t ms = (Ok, r) \<Longrightarrow>
    unat r = unat t + required_sum ss ms \<and>
    list_all (\<lambda>m. active_sources ss m \<le> unat (mr_max_concurrent_sources (me_resources m)) \<and>
      (me_role m = Secondary \<longrightarrow> (\<forall>s \<in> set ss. me_model_id m \<notin> set (sd_model_ids s)))) ms"
proof (induction ms arbitrary: t)
  case Nil
  then show ?case by (simp add: required_sum_def)
next
  case (Cons m ms)
  obtain u where u: "\<not> count_u32 (\<lambda>s. mdcat_source_activates_model s m) ss > mr_max_concurrent_sources (me_resources m)"
      "\<not> (count_u32 (\<lambda>s. mdcat_source_assigns_model s (me_model_id m)) ss \<noteq> 0 \<and> me_role m = Secondary)"
      "mdcat_multiply_bytes (mr_resident_bytes (me_resources m)) (mdcat_resident_instances ss m) t = Some u"
      "mdcat_resident_from ss u ms = (Ok, r)"
    using Cons.prems by (auto simp: Let_def split: if_splits option.splits)
  have act: "active_sources ss m \<le> unat (mr_max_concurrent_sources (me_resources m))"
    using u(1) count_exact [OF len, of "\<lambda>s. mdcat_source_activates_model s m"]
    by (simp add: word_less_nat_alt not_less active_sources_def)
  have "\<forall>s \<in> set ss. me_model_id m \<notin> set (sd_model_ids s)" if "me_role m = Secondary"
  proof -
    have "length (filter (\<lambda>s. mdcat_source_assigns_model s (me_model_id m)) ss) = 0"
      using u(2) that count_exact [OF len, of "\<lambda>s. mdcat_source_assigns_model s (me_model_id m)"]
      by simp
    then show ?thesis by (simp add: filter_empty_conv mdcat_source_assigns_model_def)
  qed
  with act Cons.IH [OF u(4)] u(3) show ?case
    by (simp add: mdcat_multiply_exact instances_exact [OF len] required_sum_def)
qed

lemma mdcat_tensors_from_Ok:
  "mdcat_tensors_from s t ms = (Ok, r) \<Longrightarrow> unat r = unat t + tensor_sum s ms \<and>
     (\<forall>m \<in> set ms. mdcat_source_activates_model s m \<longrightarrow> mdcat_source_supports_model s m)"
proof (induction ms arbitrary: t)
  case Nil
  then show ?case by (simp add: tensor_sum_def)
next
  case (Cons m ms)
  show ?case
  proof (cases "mdcat_source_activates_model s m")
    case False
    with Cons show ?thesis by (simp add: tensor_sum_def)
  next
    case True
    then obtain u where "mdcat_add_bytes (mr_max_tensor_bytes_per_source (me_resources m)) t = Some u"
        "mdcat_tensors_from s u ms = (Ok, r)" "mdcat_source_supports_model s m"
      using Cons.prems by (auto split: if_splits option.splits)
    with Cons.IH [of u] True show ?thesis by (simp add: mdcat_add_exact tensor_sum_def)
  qed
qed

lemma mdcat_check_source_Ok:
  assumes "mdcat_check_source c s = Ok"
  shows "\<forall>id \<in> set (sd_model_ids s). \<exists>m \<in> set (ct_models c). me_model_id m = id"
    and "tensor_sum s (ct_models c) \<le> unat (sm_max_tensor_bytes (sd_memory s))"
    and "\<forall>m \<in> set (ct_models c). mdcat_source_activates_model s m \<longrightarrow> mdcat_source_supports_model s m"
proof -
  obtain r where r: "mdcat_tensors_from s 0 (ct_models c) = (Ok, r)"
      "\<not> r > sm_max_tensor_bytes (sd_memory s)"
    and known: "list_all (\<lambda>id. mdcat_find_model c id \<noteq> None) (sd_model_ids s)"
    using assms by (auto simp: mdcat_check_source_def split: if_splits prod.splits)
  show "\<forall>id \<in> set (sd_model_ids s). \<exists>m \<in> set (ct_models c). me_model_id m = id"
    using known unfolding list_all_iff mdcat_find_model_def find_None_iff by blast
  show "tensor_sum s (ct_models c) \<le> unat (sm_max_tensor_bytes (sd_memory s))"
    using mdcat_tensors_from_Ok [OF r(1)] r(2) by (simp add: word_less_nat_alt not_less)
  show "\<forall>m \<in> set (ct_models c). mdcat_source_activates_model s m \<longrightarrow> mdcat_source_supports_model s m"
    using mdcat_tensors_from_Ok [OF r(1)] by blast
qed

lemma mdcat_deployment_Ok:
  assumes "mdcat_validate_deployment_models d c r0 = (Ok, r)"
  shows "fst (dpval_validate_deployment d 0) = Ok"
    "mdcat_validate_catalog c 0 = (Ok, snd (mdcat_validate_catalog c 0))"
    "mdcat_resident_from (dc_sources d) 0 (ct_models c) = (Ok, r)"
    "validate_items (\<lambda>_. mdcat_check_source c) [] (dc_sources d) = Ok"
    "r \<le> dc_max_model_resident_bytes d"
  using assms by (auto simp: mdcat_validate_deployment_models_def Let_def prod_eq_iff not_less
      split: if_splits)

lemma assigned_model:
  assumes ok: "mdcat_validate_deployment_models d c r0 = (Ok, r)"
    and s: "s \<in> set (dc_sources d)" and k: "k \<in> set (sd_model_ids s)"
  obtains m where "m \<in> set (ct_models c)" "me_model_id m = k" "me_role m = Primary"
    "mdcat_source_activates_model s m" "mdcat_source_supports_model s m"
proof -
  note o = mdcat_deployment_Ok [OF ok]
  note cat = mdcat_validate_catalog_Ok [OF o(2)]
  have src: "mdcat_check_source c s = Ok"
    using o(4) s by (auto simp: validate_items_Ok in_set_conv_nth)
  from mdcat_check_source_Ok(1) [OF src] k obtain m
    where m: "m \<in> set (ct_models c)" "me_model_id m = k" by blast
  have len: "length (dc_sources d) \<le> dpl_max_sources"
    using o(1) by (auto simp: dpval_validate_deployment_def dpval_check_root_def split: if_splits)
  have "me_role m \<noteq> Secondary"
    using mdcat_resident_from_Ok [OF len o(3)] m s k by (auto simp: list_all_iff)
  moreover have "mdcat_validate_entry m = Ok"
    using check_models_catalog_Ok(1) [OF cat(2)] m by (simp add: list_all_iff)
  ultimately have prim: "me_role m = Primary" using entry_role by blast
  then have "mdcat_source_activates_model s m"
    using m k by (simp add: mdcat_source_activates_model_def mdcat_source_assigns_model_def)
  with that m prim mdcat_check_source_Ok(3) [OF src] show ?thesis by blast
qed

section \<open>Admission is monotone\<close>

text \<open>
  Sources that activate less are admitted with no more memory: the loops only ever add, so
  running them on smaller demands cannot fail where they succeeded.
\<close>

definition demands_at_most ::
    "source_deployment_config list \<Rightarrow> source_deployment_config list \<Rightarrow> model_catalog_entry \<Rightarrow> bool"
  where "demands_at_most ss' ss m \<longleftrightarrow> active_sources ss' m \<le> active_sources ss m \<and>
     ((\<exists>s \<in> set ss'. me_model_id m \<in> set (sd_model_ids s)) \<longrightarrow>
      (\<exists>s \<in> set ss. me_model_id m \<in> set (sd_model_ids s)))"

lemma contexts_mono: "active_sources ss' m \<le> active_sources ss m \<Longrightarrow> contexts ss' m \<le> contexts ss m"
  by (auto simp: contexts_def)

lemma count_u32_zero:
  assumes "length xs \<le> dpl_max_sources"
  shows "count_u32 P xs \<noteq> 0 \<longleftrightarrow> (\<exists>x \<in> set xs. P x)"
proof -
  have "count_u32 P xs = 0 \<longleftrightarrow> length (filter P xs) = 0"
    using count_exact [OF assms, of P] by (metis unat_eq_zero)
  then show ?thesis by (simp add: filter_empty_conv)
qed

lemma mdcat_resident_from_mono:
  assumes len: "length ss \<le> dpl_max_sources" "length ss' \<le> dpl_max_sources"
  shows "mdcat_resident_from ss t ms = (Ok, r) \<Longrightarrow> unat t' \<le> unat t \<Longrightarrow>
    list_all (demands_at_most ss' ss) ms \<Longrightarrow>
    \<exists>r'. mdcat_resident_from ss' t' ms = (Ok, r') \<and> unat r' \<le> unat r"
proof (induction ms arbitrary: t t')
  case Nil
  then show ?case by simp
next
  case (Cons m ms)
  let ?count = "\<lambda>xs. count_u32 (\<lambda>s. mdcat_source_activates_model s m) xs"
  let ?direct = "\<lambda>xs. count_u32 (\<lambda>s. mdcat_source_assigns_model s (me_model_id m)) xs"
  let ?b = "mr_resident_bytes (me_resources m)"
  obtain u where u: "\<not> ?count ss > mr_max_concurrent_sources (me_resources m)"
      "\<not> (?direct ss \<noteq> 0 \<and> me_role m = Secondary)"
      "mdcat_multiply_bytes ?b (mdcat_resident_instances ss m) t = Some u"
      "mdcat_resident_from ss u ms = (Ok, r)"
    using Cons.prems(1) by (auto simp: Let_def split: if_splits option.splits)
  have le: "active_sources ss' m \<le> active_sources ss m"
    and direct: "?direct ss' \<noteq> 0 \<Longrightarrow> ?direct ss \<noteq> 0"
    using Cons.prems(3) unfolding count_u32_zero [OF len(1)] count_u32_zero [OF len(2)]
    by (simp_all add: demands_at_most_def mdcat_source_assigns_model_def)
  have "unat t' + unat ?b * contexts ss' m \<le> unat u"
    using u(3) contexts_mono [OF le] Cons.prems(2)
    by (simp add: mdcat_multiply_exact instances_exact [OF len(1)] add_mono mult_le_mono2)
  moreover from this have "unat t' + unat ?b * contexts ss' m < 2 ^ 64"
    using unat_less_2_64 [of u] by linarith
  then have "unat (word_of_nat (unat t' + unat ?b * contexts ss' m) :: u64) =
      unat t' + unat ?b * contexts ss' m" by (simp only: unat_of_nat) simp
  then obtain u' :: u64 where u': "unat u' = unat t' + unat ?b * contexts ss' m" by (rule that)
  ultimately have "unat u' \<le> unat u" by simp
  from Cons.IH [OF u(4) this] Cons.prems(3) obtain r' where
    r': "mdcat_resident_from ss' u' ms = (Ok, r')" "unat r' \<le> unat r" by auto
  have "\<not> ?count ss' > mr_max_concurrent_sources (me_resources m)"
    using u(1) le count_exact [OF len(1), of "\<lambda>s. mdcat_source_activates_model s m"]
      count_exact [OF len(2), of "\<lambda>s. mdcat_source_activates_model s m"]
    by (simp add: active_sources_def word_less_nat_alt)
  moreover have "mdcat_multiply_bytes ?b (mdcat_resident_instances ss' m) t' = Some u'"
    using u' by (simp add: mdcat_multiply_exact instances_exact [OF len(2)])
  ultimately show ?case using u(2) direct r' by (auto simp: Let_def)
qed

lemma mdcat_tensors_from_mono:
  assumes "\<And>m. mdcat_source_activates_model s' m \<Longrightarrow> mdcat_source_activates_model s m"
    and "\<And>m. mdcat_source_supports_model s' m = mdcat_source_supports_model s m"
  shows "mdcat_tensors_from s t ms = (Ok, r) \<Longrightarrow> unat t' \<le> unat t \<Longrightarrow>
    \<exists>r'. mdcat_tensors_from s' t' ms = (Ok, r') \<and> unat r' \<le> unat r"
proof (induction ms arbitrary: t t')
  case Nil
  then show ?case by simp
next
  case (Cons m ms)
  let ?b = "mr_max_tensor_bytes_per_source (me_resources m)"
  show ?case
  proof (cases "mdcat_source_activates_model s m")
    case False
    then have "\<not> mdcat_source_activates_model s' m" using assms(1) by blast
    with False Cons.IH [OF _ Cons.prems(2)] Cons.prems(1) show ?thesis by simp
  next
    case True
    then obtain u where u: "mdcat_add_bytes ?b t = Some u" "mdcat_tensors_from s u ms = (Ok, r)"
        "mdcat_source_supports_model s m"
      using Cons.prems by (auto split: if_splits option.splits)
    have sum: "unat t' + unat ?b \<le> unat u" using u(1) Cons.prems(2) by (simp add: mdcat_add_exact)
    show ?thesis
    proof (cases "mdcat_source_activates_model s' m")
      case inactive: False
      have "unat t' \<le> unat u" using sum by simp
      from Cons.IH [OF u(2) this] inactive show ?thesis by simp
    next
      case active: True
      have "unat t' + unat ?b < 2 ^ 64" using sum unat_less_2_64 [of u] by linarith
      then have "mdcat_add_bytes ?b t' = Some (t' + ?b)"
        by (simp add: mdcat_add_bytes_def checked_add_Some_iff)
      moreover from this have "unat (t' + ?b) \<le> unat u" using sum by (simp add: mdcat_add_exact)
      ultimately show ?thesis using Cons.IH [OF u(2), of "t' + ?b"] active u(3) assms(2) by simp
    qed
  qed
qed

section \<open>Properties\<close>

definition demo_model :: "string \<Rightarrow> model_role \<Rightarrow> model_dependency list \<Rightarrow> model_catalog_entry" where
  "demo_model name role deps = \<lparr>me_model_id = name, me_model_version = ''1'', me_target_id = ''t'',
     me_artifact_ref = name, me_artifact_sha256 = replicate 64 CHR ''0'',
     me_output_manifest_ref = name, me_decoder_contract = ''d'', me_preprocess_contract = ''p'',
     me_graph_name = ''g'', me_role = role, me_depends_on = deps, me_tensor_width = 8,
     me_tensor_height = 8, me_input_type = Elem_uint8, me_preprocess = demo_preprocess,
     me_channel_order = Order_rgb, me_placement = Place_centre,
     me_mean = (Finite 0, Finite 0, Finite 0), me_sigma = (Finite 1, Finite 1, Finite 1),
     me_inference_fps_numerator = 10, me_inference_fps_denominator = 1,
     me_source_constraints = \<lparr>mc_min_width = 2, mc_min_height = 2, mc_max_width = 64,
       mc_max_height = 64, mc_min_fps_numerator = 5, mc_min_fps_denominator = 1\<rparr>,
     me_resources = \<lparr>mr_resident_bytes = 100, mr_max_tensor_bytes_per_source = 200,
       mr_output_queue_buffers = 2, mr_max_concurrent_sources = 2,
       mr_can_share_context_across_sources = True\<rparr>\<rparr>"

text \<open>A detector and an embedder that runs on the detector's results.\<close>

definition demo_catalog :: model_catalog where
  "demo_catalog = \<lparr>ct_schema_version = 2, ct_revision = 1, ct_catalog_id = ''cat'',
     ct_models = [demo_model ''det'' Primary [],
       demo_model ''emb'' Secondary
         [\<lparr>md_model_id = ''det'', md_model_version = ''1'', md_target_id = ''t''\<rparr>]]\<rparr>"

definition demo_source :: source_deployment_config where
  "demo_source = \<lparr>sd_source_id = ''cam'', sd_raw_source_ref = ''raw'', sd_camera_id = 1,
     sd_channel_id = 1, sd_preview_output_ref = [],
     sd_profile = \<lparr>pf_width = 4, pf_height = 2, pf_fps_numerator = 30, pf_fps_denominator = 1\<rparr>,
     sd_memory = \<lparr>sm_max_frame_allocation_bytes = 12, sm_max_inflight_frames = 2,
       sm_preview_surface_count = 0, sm_max_tensor_bytes = 400, sm_max_temporal_bytes = 0\<rparr>,
     sd_cascade = \<lparr>cc_frames = 0, cc_tasks_per_frame = 0, cc_max_bytes = 0\<rparr>,
     sd_model_ids = [''det'']\<rparr>"

definition demo_deployment :: deployment_config where
  "demo_deployment = \<lparr>dc_schema_version = 1, dc_revision = 1, dc_model_catalog_ref = ''cat'',
     dc_max_total_resident_bytes = 1000, dc_max_model_resident_bytes = 500,
     dc_sources = [demo_source]\<rparr>"

text \<open>
  C10. A validated catalog is a two-level dependency graph with exact totals: ids, artifacts
  and manifests are unique; a primary model has no dependencies; a secondary model has some,
  all different, and each names exactly one catalog entry, a primary one other than itself;
  the reported resident bytes are the true sum and at most 8 GiB.
\<close>

theorem mdcat_catalog_sound:
  assumes "mdcat_validate_catalog c r0 = (Ok, r)"
  shows "catalog_keys_distinct (ct_models c) \<and>
    unat r = resident_sum (ct_models c) \<and> resident_sum (ct_models c) \<le> 8 * 1024 * 1024 * 1024 \<and>
    (\<forall>m \<in> set (ct_models c).
       (me_role m = Primary \<and> me_depends_on m = []) \<or>
       (me_role m = Secondary \<and> me_depends_on m \<noteq> [] \<and> distinct (me_depends_on m) \<and>
        (\<forall>d \<in> set (me_depends_on m). \<exists>!t. t \<in> set (ct_models c) \<and> names_entry d t \<and>
           me_role t = Primary \<and> t \<noteq> m)))"
proof -
  note cat = mdcat_validate_catalog_Ok [OF assms]
  note models = check_models_catalog_Ok [OF cat(2)]
  have keys: "distinct (map me_model_id (ct_models c))"
    using models(2) by (simp add: catalog_keys_distinct_def)
  have "(me_role m = Primary \<and> me_depends_on m = []) \<or>
       (me_role m = Secondary \<and> me_depends_on m \<noteq> [] \<and> distinct (me_depends_on m) \<and>
        (\<forall>d \<in> set (me_depends_on m). \<exists>!t. t \<in> set (ct_models c) \<and> names_entry d t \<and>
           me_role t = Primary \<and> t \<noteq> m))" if m: "m \<in> set (ct_models c)" for m
  proof -
    note dep = check_dependencies_Ok [OF models(3) [OF m]]
    have "\<exists>!t. t \<in> set (ct_models c) \<and> names_entry d t \<and> me_role t = Primary \<and> t \<noteq> m"
      if "d \<in> set (me_depends_on m)" for d
    proof -
      obtain t where t: "t \<in> set (ct_models c)" "names_entry d t" "me_role t = Primary" "t \<noteq> m"
        using dep \<open>d \<in> set (me_depends_on m)\<close> by blast
      moreover have "u = t" if "u \<in> set (ct_models c)" "names_entry d u" for u
        using unique_by_id [OF keys that(1) t(1)] that(2) t(2) by (simp add: names_entry_def)
      ultimately show ?thesis by blast
    qed
    moreover have "mdcat_validate_entry m = Ok" using models(1) m by (simp add: list_all_iff)
    ultimately show ?thesis using entry_role dep by blast
  qed
  moreover have "resident_sum (ct_models c) \<le> 8 * 1024 * 1024 * 1024"
    using cat(3,4) by (simp add: mdl_max_catalog_resident_bytes_def)
  ultimately show ?thesis using models(2) cat(3) by blast
qed

theorem mdcat_catalog_sound_witness:
  "unat (snd (mdcat_validate_catalog demo_catalog 0)) = resident_sum (ct_models demo_catalog) \<and>
   fst (mdcat_validate_catalog demo_catalog 0) = Ok"
proof -
  have ok: "fst (mdcat_validate_catalog demo_catalog 0) = Ok" by code_simp
  from mdcat_catalog_sound [OF ok_pair [OF ok]] ok show ?thesis by blast
qed

text \<open>
  C11. Admission is exact and end to end: when a deployment is admitted against a catalog,
  the reported model memory is the true sum over models of one context per active source
  (one in total for a shareable context), no model exceeds its source concurrency, each
  source's activated models fit its tensor budget and its profile, every assigned id is a
  primary catalog model, and models plus sources together fit the declared total.
\<close>

theorem mdcat_admission_sound:
  assumes "mdcat_validate_deployment_models d c r0 = (Ok, r)"
  shows "unat r = required_sum (dc_sources d) (ct_models c) \<and>
    unat r + sum_list (map source_bytes (dc_sources d)) \<le> unat (dc_max_total_resident_bytes d) \<and>
    (\<forall>m \<in> set (ct_models c). active_sources (dc_sources d) m \<le>
       unat (mr_max_concurrent_sources (me_resources m))) \<and>
    (\<forall>s \<in> set (dc_sources d).
       tensor_sum s (ct_models c) \<le> unat (sm_max_tensor_bytes (sd_memory s)) \<and>
       (\<forall>m \<in> set (ct_models c). mdcat_source_activates_model s m \<longrightarrow> mdcat_source_supports_model s m) \<and>
       (\<forall>k \<in> set (sd_model_ids s). \<exists>m \<in> set (ct_models c). me_model_id m = k \<and>
          me_role m = Primary \<and> mdcat_source_activates_model s m))"
proof -
  note o = mdcat_deployment_Ok [OF assms]
  have len: "length (dc_sources d) \<le> dpl_max_sources"
    using o(1) by (auto simp: dpval_validate_deployment_def dpval_check_root_def split: if_splits)
  note res = mdcat_resident_from_Ok [OF len o(3)]
  have total: "declared_bytes d \<le> unat (dc_max_total_resident_bytes d)"
    by (rule deployment_sources(3) [OF o(1)])
  have "unat r \<le> unat (dc_max_model_resident_bytes d)" using o(5) by (simp add: word_le_nat_alt)
  with total have fits: "unat r + sum_list (map source_bytes (dc_sources d)) \<le>
      unat (dc_max_total_resident_bytes d)"
    by (simp add: declared_bytes_def)
  have src: "mdcat_check_source c s = Ok" if "s \<in> set (dc_sources d)" for s
    using o(4) that by (auto simp: validate_items_Ok in_set_conv_nth)
  show ?thesis
    using res fits mdcat_check_source_Ok(2,3) [OF src] assigned_model [OF assms]
    by (auto simp: list_all_iff) (metis)+
qed

theorem mdcat_admission_sound_witness:
  "fst (mdcat_validate_deployment_models demo_deployment demo_catalog 0) = Ok \<and>
   unat (snd (mdcat_validate_deployment_models demo_deployment demo_catalog 0)) =
     required_sum (dc_sources demo_deployment) (ct_models demo_catalog)"
proof -
  have ok: "fst (mdcat_validate_deployment_models demo_deployment demo_catalog 0) = Ok" by code_simp
  from mdcat_admission_sound [OF ok_pair [OF ok]] ok show ?thesis by blast
qed

text \<open>
  A composed plan binds exactly one source, one model and one set of resolved paths:
  it is valid, takes its geometry and rate from the source and its tensor shape and input
  type from the model, its paths were resolved for this very entry, and its queue is the
  source's frame budget; a refusal leaves the old plan.
\<close>

lemma mdcat_compose_binds:
  "let result = mdcat_compose_inference_plan s m paths plan; q = snd result in
   if fst result = Ok then
     infpl_validate_plan q = Ok \<and> mdcat_validate_entry m = Ok \<and>
     mdcat_source_activates_model s m \<and> mdcat_source_supports_model s m \<and>
     rp_model_id paths = me_model_id m \<and> rp_target_id paths = me_target_id m \<and>
     rp_artifact_ref paths = me_artifact_ref m \<and>
     (ip_source_width q, ip_source_height q) = (pf_width (sd_profile s), pf_height (sd_profile s)) \<and>
     (ip_tensor_width q, ip_tensor_height q, ip_input_type q) =
       (me_tensor_width m, me_tensor_height m, me_input_type m) \<and>
     (ip_model_path q, ip_backend_path q, ip_system_path q) =
       (rp_model_path paths, rp_backend_path paths, rp_system_path paths) \<and>
     ip_input_queue_bytes q = sm_max_frame_allocation_bytes (sd_memory s)
   else q = plan"
  by (auto simp: mdcat_compose_inference_plan_def mdcat_candidate_plan_def Let_def)

text \<open>
  The per-source tensor envelope holds input and outputs together: when the outputs of
  a model are accepted, the exact input size plus the exact packed size of all outputs is
  within the entry's declared tensor budget, and that output size is what is reported.
\<close>

lemma mdcat_outputs_joint_budget:
  assumes "mdcat_validate_model_outputs m manifest_ref outputs r0 = (Ok, r)"
  shows "unat r = output_bytes (mo_outputs outputs) \<and>
    unat (me_tensor_width m) * unat (me_tensor_height m) * 3 *
        unat (tnctr_element_size (me_input_type m)) + output_bytes (mo_outputs outputs)
      \<le> unat (mr_max_tensor_bytes_per_source (me_resources m)) \<and>
    mo_artifact_sha256 outputs = me_artifact_sha256 m \<and> manifest_ref = me_output_manifest_ref m"
proof -
  let ?b = "mr_max_tensor_bytes_per_source (me_resources m)"
  have v: "mdcat_validate_entry m = Ok"
    and o: "tnctr_validate_outputs (mo_outputs outputs) (mo_max_output_bytes outputs) 0 = (Ok, r)"
    and le: "r \<le> ?b" "mdcat_minimum_input_bytes m \<le> ?b - r"
    and bind: "mo_artifact_sha256 outputs = me_artifact_sha256 m" "manifest_ref = me_output_manifest_ref m"
    using assms by (auto simp: mdcat_validate_model_outputs_def Let_def not_less
        split: if_splits prod.splits)
  have input: "mdcat_check_input m = Ok" using v by (simp add: mdcat_validate_entry_def)
  have total: "output_bytes (mo_outputs outputs) \<le> unat (mo_max_output_bytes outputs)"
    "r = word_of_nat (output_bytes (mo_outputs outputs))"
    using o by (simp_all add: validate_outputs_Ok)
  have "output_bytes (mo_outputs outputs) < 2 ^ 64"
    using total(1) unat_less_2_64 [of "mo_max_output_bytes outputs"] by linarith
  then have r: "unat r = output_bytes (mo_outputs outputs)"
    unfolding total(2) by (simp add: unat_of_nat)
  have "unat (mdcat_minimum_input_bytes m) + unat r \<le> unat ?b"
    using le by (simp add: word_le_nat_alt unat_sub_exact)
  then show ?thesis using r bind minimum_input_exact [OF input] by simp
qed

definition demo_outputs :: model_outputs where
  "demo_outputs = \<lparr>mo_model_id = ''det'', mo_model_version = ''1'',
     mo_artifact_sha256 = replicate 64 CHR ''0'', mo_decoder_contract = ''d'',
     mo_max_output_bytes = 8, mo_outputs = [\<lparr>ts_name = ''o'', ts_dimensions = [1, 2],
       ts_dtype = Elem_float32, ts_quantization = \<lparr>tq_is_quantized = False,
       tq_scale = Finite 0, tq_zero_point = 0\<rparr>, ts_layout = Layout_flat\<rparr>]\<rparr>"

theorem mdcat_outputs_joint_budget_witness:
  "fst (mdcat_validate_model_outputs (demo_model ''det'' Primary []) ''det'' demo_outputs 0) = Ok \<and>
   unat (snd (mdcat_validate_model_outputs (demo_model ''det'' Primary []) ''det'' demo_outputs 0)) =
     output_bytes (mo_outputs demo_outputs)"
proof -
  have ok: "fst (mdcat_validate_model_outputs (demo_model ''det'' Primary []) ''det'' demo_outputs 0) = Ok"
    by code_simp
  from mdcat_outputs_joint_budget [OF ok_pair [OF ok]] ok show ?thesis by blast
qed

text \<open>
  A catalog entry with a valid preprocess contract may combine an integer input with a
  custom normalization, but no plan can ever be composed from such an entry: for every
  source and every resolved path composition is refused and the old plan kept.
\<close>

lemma mdcat_custom_normalization_never_composes:
  assumes "me_input_type m \<noteq> Elem_float32" and "custom_normalization (me_mean m) (me_sigma m)"
  shows "fst (mdcat_compose_inference_plan s m paths plan) \<noteq> Ok \<and>
    snd (mdcat_compose_inference_plan s m paths plan) = plan"
proof -
  have "infpl_validate_plan (mdcat_candidate_plan s m paths) \<noteq> Ok"
    using assms by (simp add: infpl_validate_plan_def Let_def mdcat_candidate_plan_def)
  then show ?thesis by (auto simp: mdcat_compose_inference_plan_def Let_def)
qed

theorem mdcat_custom_normalization_never_composes_witness:
  "let m = (demo_model ''det'' Primary [])\<lparr>me_mean := (Finite 127, Finite 127, Finite 127)\<rparr> in
     mdcat_validate_entry m = Ok \<and>
     fst (mdcat_compose_inference_plan demo_source m
       \<lparr>rp_model_id = ''det'', rp_target_id = ''t'', rp_artifact_ref = ''det'',
        rp_model_path = ''/m.so'', rp_backend_path = ''/b'', rp_system_path = ''/s''\<rparr> demo_plan) \<noteq> Ok"
proof -
  let ?m = "(demo_model ''det'' Primary [])\<lparr>me_mean := (Finite 127, Finite 127, Finite 127)\<rparr>"
  have ok: "mdcat_validate_entry ?m = Ok" and t: "me_input_type ?m \<noteq> Elem_float32"
    and c: "custom_normalization (me_mean ?m) (me_sigma ?m)" by code_simp+
  from mdcat_custom_normalization_never_composes [OF t c] ok show ?thesis
    unfolding Let_def by blast
qed

end
