(* ===== verification/Model_Cadence.thy ===== *)
theory Model_Cadence
  imports Model_Catalog
begin

text \<open>
  The per-source model cadence of src/runtime/scheduler/vqec_vision_model_cadence.hpp and
  .cpp (prefix \<open>mdcad\<close>): which models are due on which frame. Rates are compared through
  integer phases; the lemmas show that the phases never drift, whatever frames are skipped:
  a model is due exactly when the number of its whole intervals since the first frame grows.

  The fixed arrays of one entry per model slot are lists of length 16.
\<close>

section \<open>Data\<close>

datatype model_dispatch_policy =
    Drop_if_busy | Latest_wins | Replace_pending | Must_process_once | Event_triggered
  | Unlisted_dispatch_policy u32

record model_cadence_config =
  mcc_source_fps_numerator :: u32
  mcc_source_fps_denominator :: u32
  mcc_model_count :: u16
  mcc_model_fps_numerators :: "u32 list"
  mcc_model_fps_denominators :: "u32 list"
  mcc_dispatch_policies :: "model_dispatch_policy list"

definition default_cadence_config :: model_cadence_config where
  "default_cadence_config = \<lparr>mcc_source_fps_numerator = 0, mcc_source_fps_denominator = 0,
     mcc_model_count = 0, mcc_model_fps_numerators = replicate dpl_max_models_per_source 0,
     mcc_model_fps_denominators = replicate dpl_max_models_per_source 0,
     mcc_dispatch_policies = replicate dpl_max_models_per_source Drop_if_busy\<rparr>"

record model_cadence_selection =
  mcs_frame_sequence :: u64
  mcs_skipped_intervals :: u64
  mcs_due_model_mask :: u16
  mcs_model_count :: u16

definition blank_selection :: model_cadence_selection where
  "blank_selection = \<lparr>mcs_frame_sequence = 0, mcs_skipped_intervals = 0,
     mcs_due_model_mask = 0, mcs_model_count = 0\<rparr>"

record model_cadence_scheduler =
  mcd_increments :: "u64 list"
  mcd_thresholds :: "u64 list"
  mcd_phases :: "u64 list"
  mcd_dispatch_policies :: "model_dispatch_policy list"
  mcd_last_frame_sequence :: u64
  mcd_model_count :: u16
  mcd_is_configured :: bool

definition mdcad_initial :: model_cadence_scheduler where
  "mdcad_initial = \<lparr>mcd_increments = replicate dpl_max_models_per_source 0,
     mcd_thresholds = replicate dpl_max_models_per_source 0,
     mcd_phases = replicate dpl_max_models_per_source 0,
     mcd_dispatch_policies = replicate dpl_max_models_per_source Drop_if_busy,
     mcd_last_frame_sequence = 0, mcd_model_count = 0, mcd_is_configured = False\<rparr>"

section \<open>Configuration\<close>

definition mdcad_find_model :: "model_catalog \<Rightarrow> string \<Rightarrow> model_catalog_entry option" where
  "mdcad_find_model c model_id = find (\<lambda>m. me_model_id m = model_id) (ct_models c)"

definition mdcad_multiply :: "u64 \<Rightarrow> u64 \<Rightarrow> u64 option" where
  "mdcad_multiply left right = checked_mul left right"

definition served_by_mailbox :: "model_dispatch_policy \<Rightarrow> bool" where
  "served_by_mailbox p \<longleftrightarrow> p = Drop_if_busy \<or> p = Latest_wins \<or> p = Replace_pending"

text \<open>The slot loop of \<open>configure\<close>, on the slots that are left and the two local arrays.\<close>

fun mdcad_configure_from ::
    "model_cadence_config \<Rightarrow> nat list \<Rightarrow> u64 list \<Rightarrow> u64 list \<Rightarrow> status \<times> u64 list \<times> u64 list" where
  "mdcad_configure_from c [] increments thresholds = (Ok, increments, thresholds)"
| "mdcad_configure_from c (slot # rest) increments thresholds =
     (let num = mcc_model_fps_numerators c ! slot; den = mcc_model_fps_denominators c ! slot in
      if num = 0 \<or> den = 0 then (Invalid_argument, increments, thresholds)
      else
        (case mdcad_multiply (ucast num) (ucast (mcc_source_fps_denominator c)) of
           None \<Rightarrow> (Invalid_argument, increments, thresholds)
         | Some inc \<Rightarrow>
        (case mdcad_multiply (ucast (mcc_source_fps_numerator c)) (ucast den) of
           None \<Rightarrow> (Invalid_argument, increments, thresholds)
         | Some thr \<Rightarrow>
             if inc > thr then (Invalid_argument, increments, thresholds)
             else if \<not> served_by_mailbox (mcc_dispatch_policies c ! slot)
               then (Unsupported, increments, thresholds)
             else mdcad_configure_from c rest (increments[slot := inc]) (thresholds[slot := thr]))))"

definition mdcad_configure ::
    "model_cadence_config \<Rightarrow> model_cadence_scheduler \<Rightarrow> status \<times> model_cadence_scheduler" where
  "mdcad_configure c s =
     (if mcc_source_fps_numerator c = 0 \<or> mcc_source_fps_denominator c = 0 \<or>
         mcc_model_count c = 0 \<or> unat (mcc_model_count c) > dpl_max_models_per_source
      then (Invalid_argument, s)
      else
        (case mdcad_configure_from c [0..<unat (mcc_model_count c)]
                (replicate dpl_max_models_per_source 0) (replicate dpl_max_models_per_source 0) of
           (valid, increments, thresholds) \<Rightarrow>
             if valid \<noteq> Ok then (valid, s)
             else (Ok, s\<lparr>mcd_increments := increments, mcd_thresholds := thresholds,
                        mcd_phases := replicate dpl_max_models_per_source 0,
                        mcd_dispatch_policies := mcc_dispatch_policies c,
                        mcd_last_frame_sequence := 0, mcd_model_count := mcc_model_count c,
                        mcd_is_configured := True\<rparr>)))"

fun mdcad_rates_from ::
    "model_catalog \<Rightarrow> nat \<Rightarrow> string list \<Rightarrow> model_cadence_config \<Rightarrow> model_cadence_config option" where
  "mdcad_rates_from catalog slot [] candidate = Some candidate"
| "mdcad_rates_from catalog slot (model_id # rest) candidate =
     (case mdcad_find_model catalog model_id of
        None \<Rightarrow> None
      | Some m \<Rightarrow> mdcad_rates_from catalog (Suc slot) rest (candidate
          \<lparr>mcc_model_fps_numerators :=
             (mcc_model_fps_numerators candidate)[slot := me_inference_fps_numerator m],
           mcc_model_fps_denominators :=
             (mcc_model_fps_denominators candidate)[slot := me_inference_fps_denominator m]\<rparr>))"

definition mdcad_compose_config ::
    "source_deployment_config \<Rightarrow> model_catalog \<Rightarrow> model_cadence_config \<Rightarrow>
       status \<times> model_cadence_config" where
  "mdcad_compose_config source catalog config =
     (if sd_model_ids source = [] \<or> length (sd_model_ids source) > dpl_max_models_per_source
      then (Invalid_argument, config)
      else
        (case mdcad_rates_from catalog 0 (sd_model_ids source) (default_cadence_config
                \<lparr>mcc_source_fps_numerator := pf_fps_numerator (sd_profile source),
                 mcc_source_fps_denominator := pf_fps_denominator (sd_profile source),
                 mcc_model_count := word_of_nat (length (sd_model_ids source))\<rparr>) of
           None \<Rightarrow> (Invalid_argument, config)
         | Some candidate \<Rightarrow>
             let valid = fst (mdcad_configure candidate mdcad_initial) in
             if valid \<noteq> Ok then (valid, config) else (Ok, candidate)))"

section \<open>Selection\<close>

text \<open>A shift count of at least 32 is undefined in C++; a slot below the count never reaches it.\<close>

definition mdcad_is_model_due :: "model_cadence_selection \<Rightarrow> u16 \<Rightarrow> bool" where
  "mdcad_is_model_due sel slot \<longleftrightarrow> slot < mcs_model_count sel \<and>
     (ucast (mcs_due_model_mask sel) :: u32) AND push_bit (unat slot) 1 \<noteq> 0"

text \<open>The slot loop of \<open>select\<close>; \<open>None\<close> is the \<open>resource_exhausted\<close> return.\<close>

fun mdcad_slots_from ::
    "model_cadence_scheduler \<Rightarrow> u64 \<Rightarrow> nat list \<Rightarrow> u64 list \<Rightarrow> model_cadence_selection \<Rightarrow>
       (u64 list \<times> model_cadence_selection) option" where
  "mdcad_slots_from s delta [] phases candidate = Some (phases, candidate)"
| "mdcad_slots_from s delta (slot # rest) phases candidate =
     (case mdcad_multiply delta (mcd_increments s ! slot) of
        None \<Rightarrow> None
      | Some added \<Rightarrow>
          if added > UINT64_MAX - phases ! slot then None
          else
            (let phase = phases ! slot + added;
                 elapsed = phase div (mcd_thresholds s ! slot);
                 phases' = phases[slot := phase mod (mcd_thresholds s ! slot)]
             in if elapsed = 0 then mdcad_slots_from s delta rest phases' candidate
                else
                  (let mask = ucast ((ucast (mcs_due_model_mask candidate) :: u32) OR push_bit slot 1);
                       skipped = elapsed - 1
                   in if skipped > UINT64_MAX - mcs_skipped_intervals candidate then None
                      else mdcad_slots_from s delta rest phases' (candidate
                        \<lparr>mcs_due_model_mask := mask,
                         mcs_skipped_intervals := mcs_skipped_intervals candidate + skipped\<rparr>))))"

definition mdcad_select ::
    "u64 \<Rightarrow> model_cadence_scheduler \<Rightarrow> model_cadence_selection \<Rightarrow>
       status \<times> model_cadence_scheduler \<times> model_cadence_selection" where
  "mdcad_select frame s sel =
     (let fresh = blank_selection\<lparr>mcs_frame_sequence := frame, mcs_model_count := mcd_model_count s\<rparr> in
      if \<not> mcd_is_configured s then (Invalid_state, s, sel)
      else if frame = 0 \<or> frame = UINT64_MAX then (Invalid_argument, s, sel)
      else if mcd_last_frame_sequence s = 0 then
        (Ok, s\<lparr>mcd_last_frame_sequence := frame\<rparr>,
         fresh\<lparr>mcs_due_model_mask := ucast (push_bit (unat (mcd_model_count s)) 1 - 1 :: u32)\<rparr>)
      else if frame \<le> mcd_last_frame_sequence s then (Invalid_argument, s, sel)
      else
        (case mdcad_slots_from s (frame - mcd_last_frame_sequence s)
                [0..<unat (mcd_model_count s)] (mcd_phases s) fresh of
           None \<Rightarrow> (Resource_exhausted, s, sel)
         | Some (phases, candidate) \<Rightarrow>
             (Ok, s\<lparr>mcd_phases := phases, mcd_last_frame_sequence := frame\<rparr>, candidate)))"

definition mdcad_get_dispatch_policy ::
    "u16 \<Rightarrow> model_cadence_scheduler \<Rightarrow> model_dispatch_policy \<Rightarrow> status \<times> model_dispatch_policy" where
  "mdcad_get_dispatch_policy slot s policy =
     (if \<not> mcd_is_configured s then (Invalid_state, policy)
      else if slot \<ge> mcd_model_count s then (Invalid_argument, policy)
      else (Ok, mcd_dispatch_policies s ! unat slot))"

definition mdcad_is_configured :: "model_cadence_scheduler \<Rightarrow> bool" where
  "mdcad_is_configured s \<longleftrightarrow> mcd_is_configured s"

section \<open>The configured rates\<close>

definition slot_increment :: "model_cadence_config \<Rightarrow> nat \<Rightarrow> nat" where
  "slot_increment c k =
     unat (mcc_model_fps_numerators c ! k) * unat (mcc_source_fps_denominator c)"

definition slot_threshold :: "model_cadence_config \<Rightarrow> nat \<Rightarrow> nat" where
  "slot_threshold c k =
     unat (mcc_source_fps_numerator c) * unat (mcc_model_fps_denominators c ! k)"

definition slot_ok :: "model_cadence_config \<Rightarrow> nat \<Rightarrow> bool" where
  "slot_ok c k \<longleftrightarrow> mcc_model_fps_numerators c ! k \<noteq> 0 \<and> mcc_model_fps_denominators c ! k \<noteq> 0 \<and>
     slot_increment c k \<le> slot_threshold c k \<and> served_by_mailbox (mcc_dispatch_policies c ! k)"

lemma multiply_u32:
  "mdcad_multiply (ucast (a :: u32)) (ucast (b :: u32)) = Some (ucast a * ucast b)"
proof -
  have "unat a * unat b < 2 ^ 64"
    using unat_bound [of a] unat_bound [of b] mult_strict_mono [of "unat a" "2 ^ 32" "unat b" "2 ^ 32"]
    by simp
  then show ?thesis by (simp add: mdcad_multiply_def checked_mul_Some_iff)
qed

lemma configure_from_Ok:
  assumes "mdcad_configure_from c slots inc thr = (Ok, inc', thr')"
    and "distinct slots" "set slots \<subseteq> {..<length inc}" "length thr = length inc"
  shows "length inc' = length inc \<and> length thr' = length inc \<and> (\<forall>k \<in> set slots. slot_ok c k) \<and>
    (\<forall>k. unat (inc' ! k) = (if k \<in> set slots then slot_increment c k else unat (inc ! k)) \<and>
         unat (thr' ! k) = (if k \<in> set slots then slot_threshold c k else unat (thr ! k)))"
  using assms
proof (induction slots arbitrary: inc thr)
  case Nil
  then show ?case by simp
next
  case (Cons k slots)
  let ?inc = "ucast (mcc_model_fps_numerators c ! k) * ucast (mcc_source_fps_denominator c) :: u64"
  let ?thr = "ucast (mcc_source_fps_numerator c) * ucast (mcc_model_fps_denominators c ! k) :: u64"
  have unats: "unat ?inc = slot_increment c k" "unat ?thr = slot_threshold c k"
    by (simp_all add: product_u32_exact slot_increment_def slot_threshold_def)
  have rest: "mdcad_configure_from c slots (inc[k := ?inc]) (thr[k := ?thr]) = (Ok, inc', thr')"
    and "mcc_model_fps_numerators c ! k \<noteq> 0" "mcc_model_fps_denominators c ! k \<noteq> 0"
      "\<not> ?inc > ?thr" "served_by_mailbox (mcc_dispatch_policies c ! k)"
    using Cons.prems(1) by (auto simp: Let_def multiply_u32 split: if_splits)
  then have ok: "slot_ok c k"
    using unats by (simp add: slot_ok_def word_less_nat_alt not_less)
  have k: "k < length inc" "k < length thr" "k \<notin> set slots" using Cons.prems(2-4) by auto
  from Cons.IH [OF rest] Cons.prems(2-4) ok k unats show ?case
    by (auto simp: nth_list_update)
qed

lemma configure_from_accepts:
  "\<forall>k \<in> set slots. slot_ok c k \<Longrightarrow> fst (mdcad_configure_from c slots inc thr) = Ok"
proof (induction slots arbitrary: inc thr)
  case Nil
  then show ?case by simp
next
  case (Cons k slots)
  have "\<not> (ucast (mcc_source_fps_numerator c) * ucast (mcc_model_fps_denominators c ! k) :: u64)
      < ucast (mcc_model_fps_numerators c ! k) * ucast (mcc_source_fps_denominator c)"
    using Cons.prems
    by (simp add: slot_ok_def word_less_nat_alt product_u32_exact slot_increment_def slot_threshold_def)
  with Cons show ?case by (simp add: Let_def multiply_u32 slot_ok_def)
qed

definition config_ok :: "model_cadence_config \<Rightarrow> bool" where
  "config_ok c \<longleftrightarrow> mcc_source_fps_numerator c \<noteq> 0 \<and> mcc_source_fps_denominator c \<noteq> 0 \<and>
     0 < unat (mcc_model_count c) \<and> unat (mcc_model_count c) \<le> 16 \<and>
     (\<forall>k < unat (mcc_model_count c). slot_ok c k)"

lemma configure_accepts_iff: "fst (mdcad_configure c s) = Ok \<longleftrightarrow> config_ok c"
proof -
  obtain st i t where loop: "mdcad_configure_from c [0..<unat (mcc_model_count c)]
      (replicate dpl_max_models_per_source 0) (replicate dpl_max_models_per_source 0) = (st, i, t)"
    by (metis prod.exhaust)
  show ?thesis
  proof (cases "mcc_source_fps_numerator c = 0 \<or> mcc_source_fps_denominator c = 0 \<or>
      mcc_model_count c = 0 \<or> unat (mcc_model_count c) > dpl_max_models_per_source")
    case True
    then show ?thesis by (auto simp: mdcad_configure_def config_ok_def dpl_max_models_per_source_def)
  next
    case False
    then have "fst (mdcad_configure c s) = Ok \<longleftrightarrow> st = Ok"
      by (simp add: mdcad_configure_def loop)
    moreover have "st = Ok \<longleftrightarrow> (\<forall>k < unat (mcc_model_count c). slot_ok c k)"
    proof
      assume "st = Ok"
      with loop False show "\<forall>k < unat (mcc_model_count c). slot_ok c k"
        by (auto dest!: configure_from_Ok)
    next
      assume "\<forall>k < unat (mcc_model_count c). slot_ok c k"
      then show "st = Ok"
        using configure_from_accepts [of "[0..<unat (mcc_model_count c)]" c] loop
        by (metis atLeastLessThan_iff fst_conv set_upt)
    qed
    ultimately show ?thesis
      using False by (auto simp: config_ok_def dpl_max_models_per_source_def unat_gt_0)
  qed
qed

section \<open>Phases\<close>

lemma phase_step:
  fixes x y t :: nat
  assumes "0 < t"
  shows "(x mod t + y) div t = (x + y) div t - x div t" and "(x mod t + y) mod t = (x + y) mod t"
proof -
  have "x + y = (x mod t + y) + x div t * t" using div_mult_mod_eq [of x t] by linarith
  then have "(x + y) div t = (x mod t + y) div t + x div t"
    using assms by (metis add.commute div_mult_self1 less_not_refl)
  then show "(x mod t + y) div t = (x + y) div t - x div t" by linarith
  show "(x mod t + y) mod t = (x + y) mod t" by (rule mod_add_left_eq)
qed

text \<open>The phase a slot reaches before the reduction, and how many whole intervals that is.\<close>

definition reached :: "model_cadence_scheduler \<Rightarrow> u64 \<Rightarrow> nat \<Rightarrow> nat" where
  "reached s delta k = unat (mcd_phases s ! k) + unat delta * unat (mcd_increments s ! k)"

definition elapsed :: "model_cadence_scheduler \<Rightarrow> u64 \<Rightarrow> nat \<Rightarrow> nat" where
  "elapsed s delta k = reached s delta k div unat (mcd_thresholds s ! k)"

lemma bit_set_mask:
  "k < 16 \<Longrightarrow> j < 16 \<Longrightarrow>
     bit (ucast ((ucast (m :: u16) :: u32) OR push_bit k 1) :: u16) j \<longleftrightarrow> bit m j \<or> j = k"
  by (auto simp: bit_or_iff bit_exp_iff possible_bit_def bit_unsigned_iff)

lemma slots_from_Cons:
  assumes "mdcad_slots_from s delta (k # slots) phases cand = Some (phases', cand')"
    and "phases ! k = mcd_phases s ! k" and "k < 16"
  obtains mid where
    "mdcad_slots_from s delta slots
       (phases[k := word_of_nat (reached s delta k mod unat (mcd_thresholds s ! k))]) mid =
       Some (phases', cand')"
    "mcs_model_count mid = mcs_model_count cand" "mcs_frame_sequence mid = mcs_frame_sequence cand"
    "unat (mcs_skipped_intervals mid) = unat (mcs_skipped_intervals cand) + (elapsed s delta k - 1)"
    "\<And>j. j < 16 \<Longrightarrow> bit (mcs_due_model_mask mid) j \<longleftrightarrow>
       bit (mcs_due_model_mask cand) j \<or> j = k \<and> elapsed s delta k \<noteq> 0"
    "reached s delta k < 2 ^ 64"
proof -
  let ?t = "mcd_thresholds s ! k"
  obtain added where added: "mdcad_multiply delta (mcd_increments s ! k) = Some added"
      "\<not> added > UINT64_MAX - phases ! k"
    using assms(1) by (auto split: option.splits if_splits)
  define phase where "phase = phases ! k + added"
  have phase: "unat phase = reached s delta k"
    using added assms(2)
    by (auto simp: phase_def mdcad_multiply_def less_max_minus not_le unat_add_exact reached_def
        dest!: checked_mul_SomeD)
  have fits: "reached s delta k < 2 ^ 64" using unat_less_2_64 [of phase] by (simp only: phase)
  have el: "unat (phase div ?t) = elapsed s delta k" "phase mod ?t = word_of_nat (reached s delta k mod unat ?t)"
    by (simp_all add: unat_div elapsed_def phase) (simp flip: phase unat_mod)
  show thesis
  proof (cases "phase div ?t = 0")
    case True
    then have "elapsed s delta k = 0" using el(1) by simp
    with that [of cand] assms(1) added True fits show ?thesis
      by (simp add: Let_def phase_def [symmetric] el(2))
  next
    case False
    define mid where "mid = cand
      \<lparr>mcs_due_model_mask := ucast ((ucast (mcs_due_model_mask cand) :: u32) OR push_bit k 1),
       mcs_skipped_intervals := mcs_skipped_intervals cand + (phase div ?t - 1)\<rparr>"
    have mask: "mcs_due_model_mask mid =
        ucast ((ucast (mcs_due_model_mask cand) :: u32) OR push_bit k 1)"
      by (simp add: mid_def)
    have nz: "elapsed s delta k \<noteq> 0" using False by (simp add: unat_eq_0 flip: el(1))
    have sk: "\<not> phase div ?t - 1 > UINT64_MAX - mcs_skipped_intervals cand"
      using assms(1) added False
      by (auto simp: Let_def phase_def [symmetric] split: if_splits)
    have room: "unat (mcs_skipped_intervals cand) + unat (phase div ?t - 1) < 2 ^ LENGTH(64)"
      using sk unfolding not_less le_max_minus by (simp only: add.commute)
    have skips: "mcs_skipped_intervals mid = mcs_skipped_intervals cand + (phase div ?t - 1)"
      by (simp add: mid_def)
    have minus: "unat (phase div ?t - 1) = elapsed s delta k - 1"
      using nz el(1) by (subst unat_sub_exact) (auto simp: word_le_nat_alt)
    show ?thesis
    proof (rule that [of mid])
      show "mdcad_slots_from s delta slots
          (phases[k := word_of_nat (reached s delta k mod unat ?t)]) mid = Some (phases', cand')"
        using assms(1) added False sk
        by (simp add: Let_def phase_def [symmetric] el(2) [symmetric] mid_def)
      show "unat (mcs_skipped_intervals mid) =
          unat (mcs_skipped_intervals cand) + (elapsed s delta k - 1)"
        unfolding skips minus [symmetric] by (rule unat_add_exact [OF room])
      show "bit (mcs_due_model_mask mid) j \<longleftrightarrow>
          bit (mcs_due_model_mask cand) j \<or> j = k \<and> elapsed s delta k \<noteq> 0" if "j < 16" for j
        unfolding mask bit_set_mask [OF assms(3) that] using nz by blast
    qed (use fits in \<open>simp_all add: mid_def\<close>)
  qed
qed

lemma slots_from_Some:
  assumes "mdcad_slots_from s delta slots phases cand = Some (phases', cand')"
    and "distinct slots" "set slots \<subseteq> {..<16}" "length phases = 16"
    and "\<forall>k \<in> set slots. phases ! k = mcd_phases s ! k"
  shows "length phases' = 16 \<and> mcs_model_count cand' = mcs_model_count cand \<and>
    mcs_frame_sequence cand' = mcs_frame_sequence cand \<and>
    (\<forall>k. phases' ! k = (if k \<in> set slots
       then word_of_nat (reached s delta k mod unat (mcd_thresholds s ! k)) else phases ! k)) \<and>
    (\<forall>k < 16. bit (mcs_due_model_mask cand') k \<longleftrightarrow>
       bit (mcs_due_model_mask cand) k \<or> k \<in> set slots \<and> elapsed s delta k \<noteq> 0) \<and>
    (\<forall>k \<in> set slots. reached s delta k < 2 ^ 64) \<and>
    unat (mcs_skipped_intervals cand') =
       unat (mcs_skipped_intervals cand) + (\<Sum>j\<leftarrow>slots. elapsed s delta j - 1)"
  using assms
proof (induction slots arbitrary: phases cand)
  case Nil
  then show ?case by simp
next
  case (Cons j slots)
  have j: "phases ! j = mcd_phases s ! j" "j < 16" "j \<notin> set slots" "j < length phases"
    using Cons.prems by auto
  let ?ph = "phases[j := word_of_nat (reached s delta j mod unat (mcd_thresholds s ! j))]"
  obtain mid where mid: "mdcad_slots_from s delta slots ?ph mid = Some (phases', cand')"
    "mcs_model_count mid = mcs_model_count cand" "mcs_frame_sequence mid = mcs_frame_sequence cand"
    "unat (mcs_skipped_intervals mid) = unat (mcs_skipped_intervals cand) + (elapsed s delta j - 1)"
    "\<And>i. i < 16 \<Longrightarrow> bit (mcs_due_model_mask mid) i \<longleftrightarrow>
       bit (mcs_due_model_mask cand) i \<or> i = j \<and> elapsed s delta j \<noteq> 0"
    "reached s delta j < 2 ^ 64"
    using slots_from_Cons [OF Cons.prems(1) j(1,2)] by blast
  have pre: "distinct slots" "set slots \<subseteq> {..<16}" "length ?ph = 16"
    "\<forall>k \<in> set slots. ?ph ! k = mcd_phases s ! k"
    using Cons.prems(2-5) j(3) by (auto simp: nth_list_update)
  note IH = Cons.IH [OF mid(1) pre]
  have bits: "bit (mcs_due_model_mask cand') k \<longleftrightarrow> bit (mcs_due_model_mask cand) k \<or>
      k \<in> set (j # slots) \<and> elapsed s delta k \<noteq> 0" if "k < 16" for k
    using IH mid(5) [OF that] that by auto
  have phase: "phases' ! k = (if k \<in> set (j # slots)
      then word_of_nat (reached s delta k mod unat (mcd_thresholds s ! k)) else phases ! k)" for k
    using IH j(3,4) by (cases "k = j") auto
  from IH bits phase mid(2-4,6) show ?case by simp
qed

section \<open>No drift\<close>

text \<open>
  The reference: how many whole intervals of slot \<open>k\<close> lie within \<open>d\<close> source frames, that is
  \<open>d\<close> times the model rate over the source rate, rounded down once.
\<close>

definition intervals :: "model_cadence_config \<Rightarrow> nat \<Rightarrow> nat \<Rightarrow> nat" where
  "intervals c k d = d * slot_increment c k div slot_threshold c k"

definition cadence_at :: "model_cadence_config \<Rightarrow> u64 \<Rightarrow> model_cadence_scheduler \<Rightarrow> bool" where
  "cadence_at c first s \<longleftrightarrow> mcd_is_configured s \<and> config_ok c \<and> mcd_model_count s = mcc_model_count c \<and>
     length (mcd_phases s) = 16 \<and> mcd_last_frame_sequence s \<noteq> 0 \<and> first \<le> mcd_last_frame_sequence s \<and>
     (\<forall>k < unat (mcc_model_count c). unat (mcd_increments s ! k) = slot_increment c k \<and>
        unat (mcd_thresholds s ! k) = slot_threshold c k \<and>
        unat (mcd_phases s ! k) =
          (unat (mcd_last_frame_sequence s) - unat first) * slot_increment c k mod slot_threshold c k)"

definition mdcad_step :: "u64 \<Rightarrow> model_cadence_scheduler \<Rightarrow> model_cadence_scheduler" where
  "mdcad_step frame s = fst (snd (mdcad_select frame s blank_selection))"

lemma select_state: "fst (snd (mdcad_select f s sel)) = mdcad_step f s"
  by (simp add: mdcad_step_def mdcad_select_def Let_def split: option.splits prod.splits)

lemma select_refused:
  "mdcad_select f s sel = (e, s', sel') \<Longrightarrow> e \<noteq> Ok \<Longrightarrow> s' = s \<and> sel' = sel"
  by (auto simp: mdcad_select_def Let_def split: if_splits option.splits prod.splits)

lemma threshold_positive: "config_ok c \<Longrightarrow> k < unat (mcc_model_count c) \<Longrightarrow> 0 < slot_threshold c k"
  by (auto simp: config_ok_def slot_ok_def slot_threshold_def unat_gt_0)

lemma configured:
  assumes "mdcad_configure c s = (Ok, s')"
  shows "config_ok c" "mcd_is_configured s'" "mcd_model_count s' = mcc_model_count c"
    "mcd_phases s' = replicate 16 0" "mcd_last_frame_sequence s' = 0"
    "\<And>k. k < unat (mcc_model_count c) \<Longrightarrow>
       unat (mcd_increments s' ! k) = slot_increment c k \<and> unat (mcd_thresholds s' ! k) = slot_threshold c k"
proof -
  show ok: "config_ok c" using configure_accepts_iff [of c s] assms by simp
  obtain i t where loop: "mdcad_configure_from c [0..<unat (mcc_model_count c)]
      (replicate dpl_max_models_per_source 0) (replicate dpl_max_models_per_source 0) = (Ok, i, t)"
    and s': "s' = s\<lparr>mcd_increments := i, mcd_thresholds := t,
        mcd_phases := replicate dpl_max_models_per_source 0,
        mcd_dispatch_policies := mcc_dispatch_policies c,
        mcd_last_frame_sequence := 0, mcd_model_count := mcc_model_count c,
        mcd_is_configured := True\<rparr>"
    using assms by (auto simp: mdcad_configure_def split: if_splits prod.splits)
  then show "mcd_is_configured s'" "mcd_model_count s' = mcc_model_count c"
    "mcd_phases s' = replicate 16 0" "mcd_last_frame_sequence s' = 0"
    by (simp_all add: dpl_max_models_per_source_def)
  have "set [0..<unat (mcc_model_count c)] \<subseteq> {..<16}" using ok by (auto simp: config_ok_def)
  then show "unat (mcd_increments s' ! k) = slot_increment c k \<and>
      unat (mcd_thresholds s' ! k) = slot_threshold c k" if "k < unat (mcc_model_count c)" for k
    using configure_from_Ok [OF loop] that s' by (simp add: dpl_max_models_per_source_def)
qed

lemma first_select:
  assumes "mdcad_configure c s0 = (Ok, s1)" "first \<noteq> 0" "first \<noteq> UINT64_MAX"
  shows "cadence_at c first (mdcad_step first s1)"
    "mcd_last_frame_sequence (mdcad_step first s1) = first"
  using configured [OF assms(1)] assms(2,3)
  by (auto simp: cadence_at_def mdcad_step_def mdcad_select_def Let_def nth_replicate config_ok_def)

lemma select_advances:
  assumes at: "cadence_at c first s" and ok: "mdcad_select f s sel = (Ok, s', sel')"
  shows "mcd_last_frame_sequence s < f" and "cadence_at c first s'"
    and "mcd_last_frame_sequence s' = f" and "mcs_model_count sel' = mcc_model_count c"
    and "mcs_frame_sequence sel' = f"
    and "\<And>k. k < unat (mcc_model_count c) \<Longrightarrow> bit (mcs_due_model_mask sel') k \<longleftrightarrow>
       intervals c k (unat (mcd_last_frame_sequence s) - unat first) < intervals c k (unat f - unat first)"
    and "unat (mcs_skipped_intervals sel') = (\<Sum>k\<leftarrow>[0..<unat (mcc_model_count c)].
       intervals c k (unat f - unat first)
         - intervals c k (unat (mcd_last_frame_sequence s) - unat first) - 1)"
proof -
  let ?last = "mcd_last_frame_sequence s" and ?n = "unat (mcc_model_count c)"
  let ?delta = "f - ?last"
  let ?fresh = "blank_selection\<lparr>mcs_frame_sequence := f, mcs_model_count := mcd_model_count s\<rparr>"
  have ok_c: "config_ok c" and n: "?n \<le> 16" "mcd_model_count s = mcc_model_count c"
    using at by (auto simp: cadence_at_def config_ok_def)
  obtain phases where slots: "mdcad_slots_from s ?delta [0..<?n] (mcd_phases s) ?fresh = Some (phases, sel')"
    and s': "s' = s\<lparr>mcd_phases := phases, mcd_last_frame_sequence := f\<rparr>"
    and grow: "\<not> f \<le> ?last"
    using ok at n(2) by (auto simp: mdcad_select_def Let_def cadence_at_def split: if_splits option.splits)
  show less: "?last < f" using grow by simp
  show "mcd_last_frame_sequence s' = f" by (simp add: s')
  have delta: "unat ?delta = unat f - unat ?last" using less by (simp add: unat_sub_exact)
  have le: "unat first \<le> unat ?last" "unat ?last < unat f"
    using at less by (simp_all add: cadence_at_def word_le_nat_alt word_less_nat_alt)
  have span: "(unat ?last - unat first) + (unat f - unat ?last) = unat f - unat first" using le by linarith
  note all = slots_from_Some [OF slots]
  have pre: "distinct [0..<?n]" "set [0..<?n] \<subseteq> {..<16}" "length (mcd_phases s) = 16"
    "\<forall>k \<in> set [0..<?n]. mcd_phases s ! k = mcd_phases s ! k"
    using at n by (auto simp: cadence_at_def)
  note all = all [OF pre]
  have reach: "reached s ?delta k = (unat ?last - unat first) * slot_increment c k mod slot_threshold c k +
      (unat f - unat ?last) * slot_increment c k" if "k < ?n" for k
    using at that by (simp add: reached_def cadence_at_def delta)
  have sum: "(unat ?last - unat first) * i + (unat f - unat ?last) * i = (unat f - unat first) * i" for i
    by (simp flip: span add: add_mult_distrib)
  have mod: "reached s ?delta k mod slot_threshold c k =
      (unat f - unat first) * slot_increment c k mod slot_threshold c k" if "k < ?n" for k
    using phase_step(2) [OF threshold_positive [OF ok_c that]] by (simp add: reach [OF that] sum)
  have el: "elapsed s ?delta k = intervals c k (unat f - unat first) - intervals c k (unat ?last - unat first)"
    if "k < ?n" for k
    using phase_step(1) [OF threshold_positive [OF ok_c that]] at that
    by (simp add: elapsed_def reach [OF that] sum intervals_def cadence_at_def)
  show "mcs_model_count sel' = mcc_model_count c" "mcs_frame_sequence sel' = f"
    using all n(2) by simp_all
  show "bit (mcs_due_model_mask sel') k \<longleftrightarrow>
      intervals c k (unat ?last - unat first) < intervals c k (unat f - unat first)" if "k < ?n" for k
    using all el [OF that] that n(1) by (simp add: blank_selection_def)
  have "unat (mcs_skipped_intervals sel') = (\<Sum>k\<leftarrow>[0..<?n]. elapsed s ?delta k - 1)"
    using all by (simp add: blank_selection_def)
  also have "\<dots> = (\<Sum>k\<leftarrow>[0..<?n]. intervals c k (unat f - unat first)
      - intervals c k (unat ?last - unat first) - 1)"
    by (rule arg_cong [where f = sum_list], rule map_cong) (simp_all add: el)
  finally show "unat (mcs_skipped_intervals sel') = (\<Sum>k\<leftarrow>[0..<?n].
      intervals c k (unat f - unat first) - intervals c k (unat ?last - unat first) - 1)" .
  have "unat (phases ! k) = (unat f - unat first) * slot_increment c k mod slot_threshold c k" if k: "k < ?n" for k
  proof -
    have thr: "unat (mcd_thresholds s ! k) = slot_threshold c k" using at k by (simp add: cadence_at_def)
    have "phases ! k = word_of_nat (reached s ?delta k mod slot_threshold c k)"
      using all k by (simp add: thr)
    moreover have "reached s ?delta k mod slot_threshold c k < 2 ^ 64"
      using mod_less_divisor [OF threshold_positive [OF ok_c k]] thr unat_less_2_64 [of "mcd_thresholds s ! k"]
      by (metis less_trans)
    ultimately show ?thesis by (simp add: unat_of_nat mod [OF k, symmetric])
  qed
  moreover have "f \<noteq> 0" using less by auto
  moreover have "first \<le> f" using at less by (auto simp: cadence_at_def)
  ultimately show "cadence_at c first s'"
    using at all by (simp add: cadence_at_def s')
qed

lemma step_keeps: "cadence_at c first s \<Longrightarrow> cadence_at c first (mdcad_step f s)"
proof -
  assume at: "cadence_at c first s"
  obtain e s' sel' where r: "mdcad_select f s blank_selection = (e, s', sel')" by (metis prod.exhaust)
  then have "mdcad_step f s = s'" by (simp add: mdcad_step_def)
  then show ?thesis
    using select_advances(2) [OF at] select_refused [OF r] r at by (cases "e = Ok") auto
qed

interpretation mdcad: step_system mdcad_step "cadence_at c first" for c first
  by unfold_locales (rule step_keeps)

section \<open>Acceptance\<close>

lemma slots_from_accepts:
  assumes "\<forall>k \<in> set slots. phases ! k = mcd_phases s ! k \<and> reached s delta k < 2 ^ 64"
    and "distinct slots" "set slots \<subseteq> {..<16}" "length phases = 16"
    and "unat (mcs_skipped_intervals cand) + (\<Sum>j\<leftarrow>slots. elapsed s delta j - 1) < 2 ^ 64"
  shows "\<exists>r. mdcad_slots_from s delta slots phases cand = Some r"
  using assms
proof (induction slots arbitrary: phases cand)
  case Nil
  then show ?case by simp
next
  case (Cons k slots)
  have k: "phases ! k = mcd_phases s ! k" "reached s delta k < 2 ^ 64" "k < 16"
    using Cons.prems by auto
  have "unat delta * unat (mcd_increments s ! k) < 2 ^ 64"
    using k(2) unfolding reached_def by linarith
  then obtain added where added: "mdcad_multiply delta (mcd_increments s ! k) = Some added"
    "unat added = unat delta * unat (mcd_increments s ! k)"
    by (auto simp: mdcad_multiply_def checked_mul_Some_iff unat_mult_exact)
  have room: "unat (phases ! k) + unat added < 2 ^ LENGTH(64)"
    using k(1,2) added(2) by (simp add: reached_def)
  then have fits: "\<not> added > UINT64_MAX - phases ! k" by (rule no_overflow)
  define el where "el = (phases ! k + added) div (mcd_thresholds s ! k)"
  have el: "unat el = elapsed s delta k"
    unfolding el_def unat_div unat_add_exact [OF room] by (simp add: elapsed_def reached_def k(1) added(2))
  define ph where "ph = phases[k := (phases ! k + added) mod (mcd_thresholds s ! k)]"
  have later: "\<forall>j \<in> set slots. ph ! j = mcd_phases s ! j \<and> reached s delta j < 2 ^ 64"
  proof
    fix j
    assume j: "j \<in> set slots"
    then have "j \<noteq> k" using Cons.prems(2) by auto
    with j Cons.prems(1)
    show "ph ! j = mcd_phases s ! j \<and> reached s delta j < 2 ^ 64"
      by (simp add: ph_def)
  qed
  have rest: "\<exists>r. mdcad_slots_from s delta slots ph c = Some r"
    if "unat (mcs_skipped_intervals c) + (\<Sum>j\<leftarrow>slots. elapsed s delta j - 1) < 2 ^ 64" for c
    using Cons.IH [OF later _ _ _ that] Cons.prems by (auto simp: ph_def)
  show ?case
  proof (cases "el = 0")
    case True
    with added fits rest [of cand] Cons.prems(5) show ?thesis
      by (simp add: Let_def el_def [symmetric] ph_def [symmetric])
  next
    case False
    then have "1 \<le> el" by (simp add: word_le_nat_alt Suc_le_eq unat_gt_0)
    then have "unat (el - 1) = elapsed s delta k - 1"
      using el by (simp add: unat_sub_exact)
    then have small: "unat (mcs_skipped_intervals cand) + unat (el - 1) +
        (\<Sum>j\<leftarrow>slots. elapsed s delta j - 1) < 2 ^ 64"
      using Cons.prems(5) by simp
    then have "unat (mcs_skipped_intervals cand) + unat (el - 1) < 2 ^ LENGTH(64)" by simp
    note sum = unat_add_exact [OF this]
    have "\<not> el - 1 > UINT64_MAX - mcs_skipped_intervals cand"
      by (rule no_overflow) (use small in simp)
    moreover have "\<exists>r. mdcad_slots_from s delta slots ph (cand
        \<lparr>mcs_due_model_mask := ucast ((ucast (mcs_due_model_mask cand) :: u32) OR push_bit k 1),
         mcs_skipped_intervals := mcs_skipped_intervals cand + (el - 1)\<rparr>) = Some r"
      using small sum by (intro rest) simp
    ultimately show ?thesis using added fits False
      by (simp add: Let_def el_def [symmetric] ph_def [symmetric])
  qed
qed

text \<open>
  What a slot reaches with frame \<open>f\<close>, from the rates alone, and when all of it stays within 64 bits.
\<close>

definition phase_reached :: "model_cadence_config \<Rightarrow> u64 \<Rightarrow> u64 \<Rightarrow> u64 \<Rightarrow> nat \<Rightarrow> nat" where
  "phase_reached c first last_frame f k =
     (unat last_frame - unat first) * slot_increment c k mod slot_threshold c k +
     (unat f - unat last_frame) * slot_increment c k"

definition phases_fit :: "model_cadence_config \<Rightarrow> u64 \<Rightarrow> u64 \<Rightarrow> u64 \<Rightarrow> bool" where
  "phases_fit c first last_frame f \<longleftrightarrow>
     (\<forall>k < unat (mcc_model_count c). phase_reached c first last_frame f k < 2 ^ 64) \<and>
     (\<Sum>k\<leftarrow>[0..<unat (mcc_model_count c)].
        phase_reached c first last_frame f k div slot_threshold c k - 1) < 2 ^ 64"

lemma select_accepts:
  assumes at: "cadence_at c first s" and grow: "mcd_last_frame_sequence s < f" "f \<noteq> UINT64_MAX"
  shows "if phases_fit c first (mcd_last_frame_sequence s) f then fst (mdcad_select f s sel) = Ok
    else mdcad_select f s sel = (Resource_exhausted, s, sel)"
proof -
  let ?n = "unat (mcc_model_count c)" and ?delta = "f - mcd_last_frame_sequence s"
  let ?fresh = "blank_selection\<lparr>mcs_frame_sequence := f, mcs_model_count := mcd_model_count s\<rparr>"
  have n: "?n \<le> 16" using at by (auto simp: cadence_at_def config_ok_def)
  have reach: "reached s ?delta k = phase_reached c first (mcd_last_frame_sequence s) f k" if "k < ?n" for k
    using at that grow by (simp add: reached_def phase_reached_def cadence_at_def unat_sub_exact)
  have el: "elapsed s ?delta k = phase_reached c first (mcd_last_frame_sequence s) f k div slot_threshold c k"
    if "k < ?n" for k using at that reach [OF that] by (simp add: elapsed_def cadence_at_def)
  have sum: "(\<Sum>k\<leftarrow>[0..<?n]. elapsed s ?delta k - 1) = (\<Sum>k\<leftarrow>[0..<?n].
      phase_reached c first (mcd_last_frame_sequence s) f k div slot_threshold c k - 1)"
    by (rule arg_cong [where f = sum_list], rule map_cong) (simp_all add: el)
  have pre: "distinct [0..<?n]" "set [0..<?n] \<subseteq> {..<16}" "length (mcd_phases s) = 16"
    using at n by (auto simp: cadence_at_def)
  have "(\<exists>r. mdcad_slots_from s ?delta [0..<?n] (mcd_phases s) ?fresh = Some r) \<longleftrightarrow>
      phases_fit c first (mcd_last_frame_sequence s) f"
  proof
    assume "\<exists>r. mdcad_slots_from s ?delta [0..<?n] (mcd_phases s) ?fresh = Some r"
    then obtain phases sel' where run: "mdcad_slots_from s ?delta [0..<?n] (mcd_phases s) ?fresh = Some (phases, sel')"
      by auto
    note all = slots_from_Some [OF run pre, simplified]
    have "(\<Sum>k\<leftarrow>[0..<?n]. elapsed s ?delta k - 1) = unat (mcs_skipped_intervals sel')"
      using all by (simp add: blank_selection_def)
    then have "(\<Sum>k\<leftarrow>[0..<?n]. elapsed s ?delta k - 1) < 2 ^ 64" using unat_less_2_64 [of "mcs_skipped_intervals sel'"] by (simp only:)
    then show "phases_fit c first (mcd_last_frame_sequence s) f"
      using all reach unfolding phases_fit_def sum [symmetric] by auto
  next
    assume "phases_fit c first (mcd_last_frame_sequence s) f"
    then show "\<exists>r. mdcad_slots_from s ?delta [0..<?n] (mcd_phases s) ?fresh = Some r"
      unfolding phases_fit_def sum [symmetric] using reach pre
      by (intro slots_from_accepts) (simp_all add: blank_selection_def)
  qed
  then show ?thesis
    using at grow by (auto simp: mdcad_select_def Let_def cadence_at_def not_le split: option.split)
qed

text \<open>An advance that does not fit never fits later: the model then waits for ever.\<close>

lemma phases_overflow_for_ever:
  assumes "phases_fit c first last_frame f'" "f \<le> f'"
  shows "phases_fit c first last_frame f"
proof -
  have reach: "phase_reached c first last_frame f k \<le> phase_reached c first last_frame f' k" for k
    using assms(2) by (simp add: phase_reached_def word_le_nat_alt diff_le_mono)
  have "(\<Sum>k\<leftarrow>[0..<unat (mcc_model_count c)]. phase_reached c first last_frame f k div slot_threshold c k - 1) \<le>
      (\<Sum>k\<leftarrow>[0..<unat (mcc_model_count c)]. phase_reached c first last_frame f' k div slot_threshold c k - 1)"
    by (intro sum_list_mono diff_le_mono div_le_mono reach)
  then show ?thesis using assms(1) reach unfolding phases_fit_def by (meson le_less_trans)
qed

section \<open>Composition with the catalog\<close>

lemma rates_from_Some:
  assumes "list_all (\<lambda>k. mdcad_find_model catalog k \<noteq> None) ids"
    and "length (mcc_model_fps_numerators c0) = 16" "length (mcc_model_fps_denominators c0) = 16"
    and "slot + length ids \<le> 16"
  shows "\<exists>c. mdcad_rates_from catalog slot ids c0 = Some c \<and>
    mcc_source_fps_numerator c = mcc_source_fps_numerator c0 \<and>
    mcc_source_fps_denominator c = mcc_source_fps_denominator c0 \<and>
    mcc_model_count c = mcc_model_count c0 \<and> mcc_dispatch_policies c = mcc_dispatch_policies c0 \<and>
    (\<forall>j < slot. mcc_model_fps_numerators c ! j = mcc_model_fps_numerators c0 ! j \<and>
       mcc_model_fps_denominators c ! j = mcc_model_fps_denominators c0 ! j) \<and>
    (\<forall>j < length ids. \<exists>m. mdcad_find_model catalog (ids ! j) = Some m \<and>
       mcc_model_fps_numerators c ! (slot + j) = me_inference_fps_numerator m \<and>
       mcc_model_fps_denominators c ! (slot + j) = me_inference_fps_denominator m)"
  using assms
proof (induction ids arbitrary: slot c0)
  case Nil
  then show ?case by simp
next
  case (Cons k ids)
  then obtain m where m: "mdcad_find_model catalog k = Some m" by auto
  define c1 where "c1 = c0
    \<lparr>mcc_model_fps_numerators := (mcc_model_fps_numerators c0)[slot := me_inference_fps_numerator m],
     mcc_model_fps_denominators := (mcc_model_fps_denominators c0)[slot := me_inference_fps_denominator m]\<rparr>"
  obtain c where c: "mdcad_rates_from catalog (Suc slot) ids c1 = Some c"
    "mcc_source_fps_numerator c = mcc_source_fps_numerator c1"
    "mcc_source_fps_denominator c = mcc_source_fps_denominator c1"
    "mcc_model_count c = mcc_model_count c1" "mcc_dispatch_policies c = mcc_dispatch_policies c1"
    "\<forall>j < Suc slot. mcc_model_fps_numerators c ! j = mcc_model_fps_numerators c1 ! j \<and>
       mcc_model_fps_denominators c ! j = mcc_model_fps_denominators c1 ! j"
    "\<forall>j < length ids. \<exists>m. mdcad_find_model catalog (ids ! j) = Some m \<and>
       mcc_model_fps_numerators c ! (Suc slot + j) = me_inference_fps_numerator m \<and>
       mcc_model_fps_denominators c ! (Suc slot + j) = me_inference_fps_denominator m"
    using Cons.IH [of c1 "Suc slot"] Cons.prems by (auto simp: c1_def)
  have head: "mcc_model_fps_numerators c ! slot = me_inference_fps_numerator m"
    "mcc_model_fps_denominators c ! slot = me_inference_fps_denominator m"
    using c(6) Cons.prems(2-4) by (simp_all add: c1_def)
  have "\<exists>m. mdcad_find_model catalog ((k # ids) ! j) = Some m \<and>
      mcc_model_fps_numerators c ! (slot + j) = me_inference_fps_numerator m \<and>
      mcc_model_fps_denominators c ! (slot + j) = me_inference_fps_denominator m"
    if "j < length (k # ids)" for j
    using that head m c(7) by (cases j) auto
  moreover have "mdcad_rates_from catalog slot (k # ids) c0 = Some c"
    using c(1) m by (simp add: c1_def)
  moreover have "\<forall>j < slot. mcc_model_fps_numerators c ! j = mcc_model_fps_numerators c0 ! j \<and>
       mcc_model_fps_denominators c ! j = mcc_model_fps_denominators c0 ! j"
    using c(6) by (simp add: c1_def)
  ultimately show ?case using c(2-5) by (auto simp: c1_def)
qed

lemma assigned_slot_ok:
  assumes adm: "mdcat_validate_deployment_models d catalog r0 = (Ok, r)"
    and src: "source \<in> set (dc_sources d)" and k: "model_id \<in> set (sd_model_ids source)"
  obtains m where "mdcad_find_model catalog model_id = Some m"
    "me_inference_fps_numerator m \<noteq> 0" "me_inference_fps_denominator m \<noteq> 0"
    "unat (me_inference_fps_numerator m) * unat (pf_fps_denominator (sd_profile source)) \<le>
       unat (pf_fps_numerator (sd_profile source)) * unat (me_inference_fps_denominator m)"
proof -
  obtain m where m: "m \<in> set (ct_models catalog)" "me_model_id m = model_id"
      "mdcat_source_supports_model source m"
    using assigned_model [OF adm src k] by blast
  note cat = mdcat_validate_catalog_Ok [OF mdcat_deployment_Ok(2) [OF adm]]
  have entry: "mdcat_validate_entry m = Ok"
    using check_models_catalog_Ok(1) [OF cat(2)] m(1) by (simp add: list_all_iff)
  have ids: "distinct (map me_model_id (ct_models catalog))"
    using check_models_catalog_Ok(2) [OF cat(2)] by (simp add: catalog_keys_distinct_def)
  have "mdcad_find_model catalog model_id \<noteq> None"
    using m by (auto simp: mdcad_find_model_def find_None_iff)
  then obtain m' where m': "mdcad_find_model catalog model_id = Some m'" by blast
  then have "m' \<in> set (ct_models catalog)" "me_model_id m' = model_id"
    by (auto simp: mdcad_find_model_def find_Some_iff)
  then have "m' = m" using unique_by_id [OF ids _ m(1)] m(2) by simp
  moreover have "me_inference_fps_numerator m \<noteq> 0" "me_inference_fps_denominator m \<noteq> 0"
    using entry by (auto simp: mdcat_validate_entry_def mdcat_check_rates_def Let_def split: if_splits)
  moreover have "unat (me_inference_fps_numerator m) * unat (pf_fps_denominator (sd_profile source)) \<le>
       unat (pf_fps_numerator (sd_profile source)) * unat (me_inference_fps_denominator m)"
    using m(3) by (simp add: mdcat_source_supports_model_def Let_def rate_exact)
  ultimately show thesis using that m' by blast
qed

section \<open>Properties\<close>

lemma model_due_bit:
  "mdcad_is_model_due sel slot \<longleftrightarrow>
     slot < mcs_model_count sel \<and> bit (mcs_due_model_mask sel) (unat slot)"
  unfolding mdcad_is_model_due_def and_bit_nonzero
  by (auto simp: bit_unsigned_iff dest: bit_imp_le_length)

lemma run_at:
  assumes "mdcad_configure c s0 = (Ok, s1)" "first \<noteq> 0" "first \<noteq> UINT64_MAX"
  shows "cadence_at c first (fold mdcad_step frames (mdcad_step first s1))"
  using mdcad.run_inv [OF first_select(1) [OF assms]] .

text \<open>
  C13. The cadence does not drift: after the first frame and any further sequence of
  frames, accepted or refused, a selected frame marks a model due exactly when the number
  of that model's whole intervals since the first frame grew, and the skipped intervals it
  reports are the exact number of further intervals that passed, over all models. The
  reference number is one division of unbounded numbers; the code only keeps remainders.
\<close>

theorem mdcad_no_drift:
  assumes "mdcad_configure c s0 = (Ok, s1)" and "first \<noteq> 0" and "first \<noteq> UINT64_MAX"
    and "s = fold mdcad_step frames (mdcad_step first s1)"
    and "mdcad_select frame s sel = (Ok, s', sel')"
  shows "let before = unat (mcd_last_frame_sequence s) - unat first; now = unat frame - unat first
    in first \<le> mcd_last_frame_sequence s \<and> mcd_last_frame_sequence s < frame \<and>
       mcd_last_frame_sequence s' = frame \<and> mcs_frame_sequence sel' = frame \<and>
       list_all (\<lambda>k. mdcad_is_model_due sel' (word_of_nat k) \<longleftrightarrow>
           intervals c k before < intervals c k now) [0..<unat (mcc_model_count c)] \<and>
       unat (mcs_skipped_intervals sel') =
         (\<Sum>k\<leftarrow>[0..<unat (mcc_model_count c)]. intervals c k now - intervals c k before - 1)"
proof -
  have at: "cadence_at c first s" using run_at [OF assms(1-3)] assms(4) by simp
  note adv = select_advances [OF at assms(5)]
  have due: "mdcad_is_model_due sel' (word_of_nat k) \<longleftrightarrow>
      intervals c k (unat (mcd_last_frame_sequence s) - unat first) < intervals c k (unat frame - unat first)"
    if "k < unat (mcc_model_count c)" for k
  proof -
    have "k < 16" using at that by (auto simp: cadence_at_def config_ok_def)
    then have u: "unat (word_of_nat k :: u16) = k" by (simp add: unat_of_nat)
    then show ?thesis
      unfolding model_due_bit u adv(6) [OF that, symmetric] using that adv(4) by (simp add: word_less_nat_alt u)
  qed
  have "list_all (\<lambda>k. mdcad_is_model_due sel' (word_of_nat k) \<longleftrightarrow>
      intervals c k (unat (mcd_last_frame_sequence s) - unat first) < intervals c k (unat frame - unat first))
      [0..<unat (mcc_model_count c)]"
    unfolding list_all_iff using due by simp
  then show ?thesis
    unfolding Let_def using adv(1,3,5,7) at by (simp add: cadence_at_def)
qed

definition demo_cadence :: model_cadence_config where
  "demo_cadence = default_cadence_config
     \<lparr>mcc_source_fps_numerator := 30, mcc_source_fps_denominator := 1, mcc_model_count := 2,
      mcc_model_fps_numerators := [30, 7] @ replicate 14 0,
      mcc_model_fps_denominators := [1, 1] @ replicate 14 0\<rparr>"

definition demo_scheduler :: model_cadence_scheduler where
  "demo_scheduler = fold mdcad_step [101, 50, 104] (mdcad_step 100 (snd (mdcad_configure demo_cadence mdcad_initial)))"

theorem mdcad_no_drift_witness:
  "mdcad_is_model_due (snd (snd (mdcad_select 105 demo_scheduler blank_selection))) 1 \<and>
   mcs_frame_sequence (snd (snd (mdcad_select 105 demo_scheduler blank_selection))) = 105"
proof -
  have conf: "fst (mdcad_configure demo_cadence mdcad_initial) = Ok" by code_simp
  have sel: "fst (mdcad_select 105 demo_scheduler blank_selection) = Ok" by code_simp
  have "(100 :: u64) \<noteq> 0" "(100 :: u64) \<noteq> UINT64_MAX" by code_simp+
  note t = mdcad_no_drift [OF ok_pair [OF conf] this demo_scheduler_def ok_triple [OF sel], unfolded Let_def]
  have num: "unat (mcc_model_count demo_cadence) = 2" "mcd_last_frame_sequence demo_scheduler = 104"
    "slot_increment demo_cadence 1 = 7" "slot_threshold demo_cadence 1 = 30"
    by (code_simp, code_simp, simp_all add: slot_increment_def slot_threshold_def demo_cadence_def default_cadence_config_def)
  have "word_of_nat 1 = (1 :: u16)" by simp
  with t show ?thesis unfolding num by (simp add: intervals_def num num(3,4) [unfolded One_nat_def] upt_rec)
qed

text \<open>
  C14. No model starves while its phases fit 64 bits: once the source has advanced by at least one interval
  of a model since the last accepted frame, the next frame is accepted and marks that model due, whatever
  was presented before, exactly as long as the phase of every model at that frame, and the number of
  intervals skipped, fit 64 bits. Otherwise the frame is refused as exhausted and nothing changes.
\<close>

theorem mdcad_no_starvation:
  assumes "mdcad_configure c s0 = (Ok, s1)" and "first \<noteq> 0" and "first \<noteq> UINT64_MAX"
    and "s = fold mdcad_step frames (mdcad_step first s1)"
    and "slot < mcc_model_count c" and "mcd_last_frame_sequence s < frame" and "frame \<noteq> UINT64_MAX"
    and "slot_threshold c (unat slot) \<le>
      (unat frame - unat (mcd_last_frame_sequence s)) * slot_increment c (unat slot)"
  shows "if phases_fit c first (mcd_last_frame_sequence s) frame
    then fst (mdcad_select frame s sel) = Ok \<and>
      mdcad_is_model_due (snd (snd (mdcad_select frame s sel))) slot
    else mdcad_select frame s sel = (Resource_exhausted, s, sel)"
proof (cases "phases_fit c first (mcd_last_frame_sequence s) frame")
  case True
  let ?last = "mcd_last_frame_sequence s" and ?i = "slot_increment c (unat slot)" and ?t = "slot_threshold c (unat slot)"
  have at: "cadence_at c first s" using run_at [OF assms(1-3)] assms(4) by simp
  have ok: "fst (mdcad_select frame s sel) = Ok" using select_accepts [OF at assms(6,7), of sel] True by simp
  have slot: "unat slot < unat (mcc_model_count c)" using assms(5) by (simp add: word_less_nat_alt)
  have "config_ok c" using at by (simp add: cadence_at_def)
  then have pos: "0 < ?t" using slot by (rule threshold_positive)
  have le: "unat first \<le> unat ?last" "unat ?last < unat frame"
    using at assms(6) by (simp_all add: cadence_at_def word_le_nat_alt word_less_nat_alt)
  then have "unat frame - unat first = (unat ?last - unat first) + (unat frame - unat ?last)" by linarith
  then have "(unat ?last - unat first) * ?i + ?t \<le> (unat frame - unat first) * ?i"
    using assms(8) by (simp add: add_mult_distrib)
  then have "((unat ?last - unat first) * ?i + ?t) div ?t \<le> (unat frame - unat first) * ?i div ?t"
    by (rule div_le_mono)
  then have "intervals c (unat slot) (unat ?last - unat first) < intervals c (unat slot) (unat frame - unat first)"
    using pos by (simp add: intervals_def)
  with select_advances [OF at ok_triple [OF ok]] slot assms(5) ok True show ?thesis
    by (simp add: model_due_bit)
next
  case False
  have "cadence_at c first s" using run_at [OF assms(1-3)] assms(4) by simp
  from select_accepts [OF this assms(6,7), of sel] False show ?thesis by simp
qed

theorem mdcad_no_starvation_witness:
  "mdcad_is_model_due (snd (snd (mdcad_select 109 demo_scheduler blank_selection))) 1"
proof -
  have conf: "fst (mdcad_configure demo_cadence mdcad_initial) = Ok" by code_simp
  have "(100 :: u64) \<noteq> 0" "(100 :: u64) \<noteq> UINT64_MAX" "1 < mcc_model_count demo_cadence"
    "mcd_last_frame_sequence demo_scheduler < 109" "(109 :: u64) \<noteq> UINT64_MAX" by code_simp+
  note pre = this
  have last: "mcd_last_frame_sequence demo_scheduler = 104" by code_simp
  have slots: "slot_increment demo_cadence 1 = 7" "slot_threshold demo_cadence 1 = 30"
    by (simp_all add: slot_increment_def slot_threshold_def demo_cadence_def default_cadence_config_def)
  have u: "unat (109 :: u64) = 109" "unat (104 :: u64) = 104" "unat (1 :: u16) = 1" by simp_all
  have "slot_threshold demo_cadence (unat (1 :: u16)) \<le>
      (unat (109 :: u64) - unat (mcd_last_frame_sequence demo_scheduler)) * slot_increment demo_cadence (unat (1 :: u16))"
    unfolding last u slots by simp
  note due = mdcad_no_starvation [OF ok_pair [OF conf] pre(1,2) demo_scheduler_def pre(3-5) this, of blank_selection]
  have "fst (mdcad_select 109 demo_scheduler blank_selection) = Ok" by code_simp
  then show ?thesis using due by (auto split: if_splits)
qed

text \<open>
  Admission covers the cadence: for every source of a deployment that the model
  catalog admitted, the composition of its cadence succeeds, with one slot per assigned
  model in order, the source's rate and the catalog's rate of that model.
\<close>

lemma mdcad_admitted_sources_compose:
  assumes "mdcat_validate_deployment_models d catalog r0 = (Ok, r)" and "source \<in> set (dc_sources d)"
  shows "let composed = mdcad_compose_config source catalog config; c = snd composed in
    fst composed = Ok \<and> unat (mcc_model_count c) = length (sd_model_ids source) \<and>
    mcc_source_fps_numerator c = pf_fps_numerator (sd_profile source) \<and>
    mcc_source_fps_denominator c = pf_fps_denominator (sd_profile source) \<and>
    list_all (\<lambda>j. map_option (\<lambda>m. (me_inference_fps_numerator m, me_inference_fps_denominator m))
        (mdcad_find_model catalog (sd_model_ids source ! j)) =
      Some (mcc_model_fps_numerators c ! j, mcc_model_fps_denominators c ! j))
      [0..<length (sd_model_ids source)]"
proof -
  let ?ids = "sd_model_ids source" and ?p = "sd_profile source"
  let ?c0 = "default_cadence_config\<lparr>mcc_source_fps_numerator := pf_fps_numerator ?p,
      mcc_source_fps_denominator := pf_fps_denominator ?p,
      mcc_model_count := word_of_nat (length ?ids)\<rparr>"
  have prof: "dpval_check_profile source = Ok"
    using mdcat_deployment_Ok(1) [OF assms(1)] assms(2) by (rule admitted_source_profile)
  then have len: "0 < length ?ids" "length ?ids \<le> 16"
    and fps: "pf_fps_numerator ?p \<noteq> 0" "pf_fps_denominator ?p \<noteq> 0"
    by (auto simp: dpval_check_profile_def Let_def dpl_max_models_per_source_def split: if_splits)
  have known: "list_all (\<lambda>k. mdcad_find_model catalog k \<noteq> None) ?ids"
    unfolding list_all_iff
  proof
    fix k
    assume "k \<in> set ?ids"
    then show "mdcad_find_model catalog k \<noteq> None" by (rule assigned_slot_ok [OF assms]) simp
  qed
  have "0 + length ?ids \<le> 16" using len by simp
  then obtain c where c: "mdcad_rates_from catalog 0 ?ids ?c0 = Some c"
    "mcc_source_fps_numerator c = pf_fps_numerator ?p" "mcc_source_fps_denominator c = pf_fps_denominator ?p"
    "mcc_model_count c = word_of_nat (length ?ids)"
    "mcc_dispatch_policies c = replicate 16 Drop_if_busy"
    "\<forall>j < length ?ids. \<exists>m. mdcad_find_model catalog (?ids ! j) = Some m \<and>
       mcc_model_fps_numerators c ! j = me_inference_fps_numerator m \<and>
       mcc_model_fps_denominators c ! j = me_inference_fps_denominator m"
    using rates_from_Some [OF known, of ?c0 0]
    by (auto simp: default_cadence_config_def dpl_max_models_per_source_def)
  have count: "unat (mcc_model_count c) = length ?ids" using c(4) len by (simp add: unat_of_nat)
  have "slot_ok c j" if "j < length ?ids" for j
  proof -
    have "?ids ! j \<in> set ?ids" using that by (rule nth_mem)
    then obtain m where m: "mdcad_find_model catalog (?ids ! j) = Some m" "me_inference_fps_numerator m \<noteq> 0"
      "me_inference_fps_denominator m \<noteq> 0"
      "unat (me_inference_fps_numerator m) * unat (pf_fps_denominator ?p) \<le>
        unat (pf_fps_numerator ?p) * unat (me_inference_fps_denominator m)"
      by (rule assigned_slot_ok [OF assms])
    then have "mcc_model_fps_numerators c ! j = me_inference_fps_numerator m"
      "mcc_model_fps_denominators c ! j = me_inference_fps_denominator m"
      using c(6) that by auto
    moreover have "served_by_mailbox (mcc_dispatch_policies c ! j)"
      using that len c(5) by (simp add: served_by_mailbox_def)
    ultimately show ?thesis
      using m(2-4) c(2,3) by (simp add: slot_ok_def slot_increment_def slot_threshold_def)
  qed
  then have "config_ok c" using c(2,3) fps len count by (simp add: config_ok_def)
  then have "fst (mdcad_configure c mdcad_initial) = Ok" by (simp add: configure_accepts_iff)
  then have "mdcad_compose_config source catalog config = (Ok, c)"
    using len c(1) by (simp add: mdcad_compose_config_def dpl_max_models_per_source_def Let_def)
  then show ?thesis
    unfolding Let_def using c(2,3,6) count by (auto simp: list_all_iff)
qed

theorem mdcad_admitted_sources_compose_witness:
  "fst (mdcad_compose_config demo_source demo_catalog default_cadence_config) = Ok"
proof -
  have ok: "fst (mdcat_validate_deployment_models demo_deployment demo_catalog 0) = Ok" by code_simp
  have "demo_source \<in> set (dc_sources demo_deployment)" by (simp add: demo_deployment_def)
  from mdcad_admitted_sources_compose [OF ok_pair [OF ok] this] show ?thesis
    unfolding Let_def by blast
qed

end
