(* ===== verification/Raw_Source.thy ===== *)
theory Raw_Source
  imports Prelude
begin

text \<open>
  The data of a raw camera source: contracts/vqec_vision_frame_descriptor.hpp and
  ports/vqec_vision_raw_source.hpp. A frame's owner is a shared pointer, here the identity of
  what it owns, if anything. A stride is a 32-bit two's complement number: \<open>sint\<close> reads it.
\<close>

record frame_descriptor =
  fd_buffer_id :: u64
  fd_session_epoch :: u64
  fd_width :: u32
  fd_height :: u32
  fd_offsets :: "u32 \<times> u32"
  fd_strides :: "u32 \<times> u32"
  fd_view_size_bytes :: u64
  fd_memory_offset_bytes :: u64
  fd_allocation_size_bytes :: u64
  fd_pts_ns :: u64
  fd_dts_ns :: u64
  fd_duration_ns :: u64

definition blank_descriptor :: frame_descriptor where
  "blank_descriptor = \<lparr>fd_buffer_id = 0, fd_session_epoch = 0, fd_width = 0, fd_height = 0,
     fd_offsets = (0, 0), fd_strides = (0, 0), fd_view_size_bytes = 0, fd_memory_offset_bytes = 0,
     fd_allocation_size_bytes = 0, fd_pts_ns = UINT64_MAX, fd_dts_ns = UINT64_MAX,
     fd_duration_ns = UINT64_MAX\<rparr>"

record raw_frame =
  rf_descriptor :: frame_descriptor
  rf_native_handle :: u64
  rf_owner :: "nat option"

definition blank_raw_frame :: raw_frame where
  "blank_raw_frame = \<lparr>rf_descriptor = blank_descriptor, rf_native_handle = -1, rf_owner = None\<rparr>"

datatype raw_source_state =
  Source_idle | Source_starting | Source_running | Source_draining | Source_stopped

record raw_source_profile =
  sp_width :: u32
  sp_height :: u32
  sp_fps_numerator :: u32
  sp_fps_denominator :: u32

end
