(* ===== verification/Cascade_Frame_Store.thy ===== *)
theory Cascade_Frame_Store
  imports Preview_Contract Raw_Source
begin

text \<open>
  The cascade frame store of src/runtime/scheduler/vqec_vision_cascade_frame_store.hpp
  (prefix \<open>cfstr\<close>): it keeps camera frames alive while tasks of secondary models read them.
  A task holds a completion ticket, the store's domain in the high 16 bits over a 48-bit
  counter.
\<close>

section \<open>Data\<close>

record cascade_slot =
  cs_key :: preview_frame_key
  cs_frame :: raw_frame
  cs_tickets :: "u64 list"
  cs_occupied :: bool
  cs_admits_tasks :: bool

definition cfstr_domain_shift :: nat where "cfstr_domain_shift = 48"
definition cfstr_counter_mask :: u64 where "cfstr_counter_mask = 0xFFFFFFFFFFFF"
definition cfstr_domain_mask :: u32 where "cfstr_domain_mask = 0xFFFF"

record cascade_frame_store =
  cf_slots :: "cascade_slot list"
  cf_max_bytes :: u64
  cf_bytes :: u64
  cf_next_counter :: u64
  cf_domain :: u32
  cf_is_valid :: bool

section \<open>Operations\<close>

definition cfstr_valid_budget :: "nat \<Rightarrow> nat \<Rightarrow> u64 \<Rightarrow> bool" where
  "cfstr_valid_budget frames tasks max_bytes \<longleftrightarrow> frames \<noteq> 0 \<and> tasks \<noteq> 0 \<and> max_bytes \<noteq> 0"

text \<open>The process-wide domain counter: its next value, which is also the one handed out.\<close>

definition cfstr_next_domain :: "u32 \<Rightarrow> u32" where
  "cfstr_next_domain counter = counter + 1"

definition cfstr_empty_slot :: "nat \<Rightarrow> cascade_slot" where
  "cfstr_empty_slot tasks = \<lparr>cs_key = blank_frame_key, cs_frame = blank_raw_frame,
     cs_tickets = replicate tasks 0, cs_occupied = False, cs_admits_tasks = False\<rparr>"

text \<open>The constructor; it returns the store and the process counter, which it may advance.\<close>

definition cfstr_create :: "nat \<Rightarrow> nat \<Rightarrow> u64 \<Rightarrow> u32 \<Rightarrow> u32 \<Rightarrow> cascade_frame_store \<times> u32" where
  "cfstr_create frames tasks max_bytes domain counter =
     (let valid = cfstr_valid_budget frames tasks max_bytes;
          chosen = (if domain \<noteq> 0 then domain AND cfstr_domain_mask
                    else cfstr_next_domain counter AND cfstr_domain_mask)
      in (\<lparr>cf_slots = replicate (if valid then frames else 0) (cfstr_empty_slot tasks),
           cf_max_bytes = max_bytes, cf_bytes = 0, cf_next_counter = 1,
           cf_domain = (if chosen = 0 then 1 else chosen), cf_is_valid = valid\<rparr>,
          if domain \<noteq> 0 then counter else cfstr_next_domain counter))"

definition cfstr_equal :: "preview_frame_key \<Rightarrow> preview_frame_key \<Rightarrow> bool" where
  "cfstr_equal a b \<longleftrightarrow> fk_camera_id a = fk_camera_id b \<and> fk_channel_id a = fk_channel_id b \<and>
     fk_source_epoch a = fk_source_epoch b \<and> fk_frame_id a = fk_frame_id b \<and>
     fk_source_pts_ns a = fk_source_pts_ns b"

definition cfstr_frame_size :: "cascade_slot \<Rightarrow> u64" where
  "cfstr_frame_size e = fd_allocation_size_bytes (rf_descriptor (cs_frame e))"

definition cfstr_frame_matches :: "preview_frame_key \<Rightarrow> raw_frame \<Rightarrow> bool" where
  "cfstr_frame_matches key frame \<longleftrightarrow>
     \<not> (rf_owner frame = None \<or> sint (rf_native_handle frame) < 0 \<or>
        fd_allocation_size_bytes (rf_descriptor frame) = 0 \<or>
        fk_source_epoch key \<noteq> fd_session_epoch (rf_descriptor frame) \<or>
        fk_frame_id key \<noteq> fd_buffer_id (rf_descriptor frame) \<or>
        fk_source_pts_ns key \<noteq> fd_pts_ns (rf_descriptor frame))"

text \<open>The loop of \<open>retain\<close>: \<open>None\<close> on a duplicate, else the last free slot, if any.\<close>

fun cfstr_find_free ::
    "preview_frame_key \<Rightarrow> nat \<Rightarrow> nat option \<Rightarrow> cascade_slot list \<Rightarrow> nat option option" where
  "cfstr_find_free key i available [] = Some available"
| "cfstr_find_free key i available (e # rest) =
     (if cs_occupied e \<and> cfstr_equal (cs_key e) key then None
      else cfstr_find_free key (Suc i)
        (if \<not> cs_occupied e \<and> cs_tickets e \<noteq> [] then Some i else available) rest)"

definition cfstr_retain ::
    "preview_frame_key \<Rightarrow> raw_frame \<Rightarrow> cascade_frame_store \<Rightarrow> status \<times> cascade_frame_store" where
  "cfstr_retain key frame s =
     (if \<not> cf_is_valid s then (Invalid_state, s)
      else if \<not> cfstr_frame_matches key frame then (Invalid_argument, s)
      else
        (case cfstr_find_free key 0 None (cf_slots s) of
           None \<Rightarrow> (Invalid_state, s)
         | Some None \<Rightarrow> (Resource_exhausted, s)
         | Some (Some i) \<Rightarrow>
             if fd_allocation_size_bytes (rf_descriptor frame) > cf_max_bytes s - cf_bytes s
             then (Resource_exhausted, s)
             else (Ok, s\<lparr>cf_slots := (cf_slots s)[i := (cf_slots s ! i)\<lparr>cs_key := key,
                    cs_frame := frame, cs_occupied := True, cs_admits_tasks := True\<rparr>],
                  cf_bytes := cf_bytes s + fd_allocation_size_bytes (rf_descriptor frame)\<rparr>)))"

definition cfstr_make_ticket :: "u32 \<Rightarrow> u64 \<Rightarrow> u64" where
  "cfstr_make_ticket domain counter = push_bit cfstr_domain_shift (ucast domain) OR counter"

definition cfstr_acquire ::
    "preview_frame_key \<Rightarrow> cascade_frame_store \<Rightarrow> raw_frame \<Rightarrow> u64 \<Rightarrow>
       status \<times> cascade_frame_store \<times> raw_frame \<times> u64" where
  "cfstr_acquire key s frame ticket =
     (if \<not> cf_is_valid s then (Invalid_state, s, frame, ticket)
      else
        (case first_index (\<lambda>e. cs_occupied e \<and> cs_admits_tasks e \<and> cfstr_equal (cs_key e) key)
                (cf_slots s) of
           None \<Rightarrow> (Invalid_state, s, frame, ticket)
         | Some i \<Rightarrow>
            (let e = cf_slots s ! i in
             case first_index (\<lambda>t. t = 0) (cs_tickets e) of
               None \<Rightarrow> (Resource_exhausted, s, frame, ticket)
             | Some j \<Rightarrow>
                 if cf_next_counter s > cfstr_counter_mask
                 then (Resource_exhausted, s, frame, ticket)
                 else
                   (let t = cfstr_make_ticket (cf_domain s) (cf_next_counter s)
                    in (Ok, s\<lparr>cf_slots := (cf_slots s)[i := e\<lparr>cs_tickets := (cs_tickets e)[j := t]\<rparr>],
                             cf_next_counter := cf_next_counter s + 1\<rparr>, cs_frame e, t)))))"

definition cfstr_reclaim :: "nat \<Rightarrow> cascade_frame_store \<Rightarrow> cascade_frame_store" where
  "cfstr_reclaim i s =
     (let e = cf_slots s ! i in
      if \<not> cs_admits_tasks e \<and> list_all (\<lambda>t. t = 0) (cs_tickets e)
      then s\<lparr>cf_slots := (cf_slots s)[i := e\<lparr>cs_frame := blank_raw_frame, cs_occupied := False\<rparr>],
             cf_bytes := cf_bytes s - cfstr_frame_size e\<rparr>
      else s)"

definition cfstr_retire ::
    "preview_frame_key \<Rightarrow> cascade_frame_store \<Rightarrow> status \<times> cascade_frame_store" where
  "cfstr_retire key s =
     (if \<not> cf_is_valid s then (Invalid_state, s)
      else
        (case first_index (\<lambda>e. cs_occupied e \<and> cfstr_equal (cs_key e) key) (cf_slots s) of
           None \<Rightarrow> (Invalid_state, s)
         | Some i \<Rightarrow> (Ok, cfstr_reclaim i (s\<lparr>cf_slots :=
               (cf_slots s)[i := (cf_slots s ! i)\<lparr>cs_admits_tasks := False\<rparr>]\<rparr>))))"

definition cfstr_complete :: "u64 \<Rightarrow> cascade_frame_store \<Rightarrow> status \<times> cascade_frame_store" where
  "cfstr_complete ticket s =
     (if \<not> cf_is_valid s \<or> ticket = 0 \<or> drop_bit cfstr_domain_shift ticket \<noteq> ucast (cf_domain s)
      then (Invalid_state, s)
      else
        (case first_index (\<lambda>e. cs_occupied e \<and> ticket \<in> set (cs_tickets e)) (cf_slots s) of
           None \<Rightarrow> (Invalid_state, s)
         | Some i \<Rightarrow>
            (let e = cf_slots s ! i in
             case first_index (\<lambda>t. t = ticket) (cs_tickets e) of
               None \<Rightarrow> (Invalid_state, s)
             | Some j \<Rightarrow> (Ok, cfstr_reclaim i (s\<lparr>cf_slots :=
                 (cf_slots s)[i := e\<lparr>cs_tickets := (cs_tickets e)[j := 0]\<rparr>]\<rparr>)))))"

definition cfstr_bytes :: "cascade_frame_store \<Rightarrow> u64" where
  "cfstr_bytes s = cf_bytes s"

datatype cfstr_op =
    Op_retain preview_frame_key raw_frame
  | Op_acquire preview_frame_key
  | Op_retire preview_frame_key
  | Op_complete u64

fun cfstr_step :: "cfstr_op \<Rightarrow> cascade_frame_store \<Rightarrow> cascade_frame_store" where
  "cfstr_step (Op_retain key frame) s = snd (cfstr_retain key frame s)"
| "cfstr_step (Op_acquire key) s = fst (snd (cfstr_acquire key s blank_raw_frame 0))"
| "cfstr_step (Op_retire key) s = snd (cfstr_retire key s)"
| "cfstr_step (Op_complete ticket) s = snd (cfstr_complete ticket s)"

section \<open>Tickets\<close>

lemma key_equal [simp]: "cfstr_equal a b \<longleftrightarrow> a = b"
  by (cases a; cases b) (simp add: cfstr_equal_def)

definition ticket_counter :: "u64 \<Rightarrow> nat" where
  "ticket_counter t = unat (take_bit 48 t)"

lemma counter_small: "unat (c :: u64) < 2 ^ 48 \<Longrightarrow> take_bit 48 c = c"
  by (rule word_unat_eq_iff [THEN iffD2]) (simp add: unsigned_take_bit_eq take_bit_nat_eq_self)

lemma counter_high_bits: "unat (c :: u64) < 2 ^ 48 \<Longrightarrow> 48 \<le> n \<Longrightarrow> \<not> bit c n"
  by (metis counter_small bit_take_bit_iff not_le)

lemma domain_high_bits: "unat (d :: u32) < 2 ^ 16 \<Longrightarrow> 16 \<le> n \<Longrightarrow> \<not> bit (ucast d :: u64) n"
proof -
  assume d: "unat d < 2 ^ 16" and n: "16 \<le> n"
  have "take_bit 16 d = d"
    using d by (intro word_unat_eq_iff [THEN iffD2]) (simp add: unsigned_take_bit_eq take_bit_nat_eq_self)
  then have "\<not> bit d n" using n by (metis bit_take_bit_iff not_le)
  then show ?thesis by (simp add: bit_unsigned_iff)
qed

lemma ticket_parts:
  assumes d: "unat d < 2 ^ 16" and c: "unat c < 2 ^ 48"
  shows "drop_bit 48 (cfstr_make_ticket d c) = ucast d" and "take_bit 48 (cfstr_make_ticket d c) = c"
proof -
  show "drop_bit 48 (cfstr_make_ticket d c) = ucast d"
  proof (rule bit_word_eqI)
    fix n
    assume n: "n < LENGTH(64)"
    show "bit (drop_bit 48 (cfstr_make_ticket d c)) n \<longleftrightarrow> bit (ucast d :: u64) n"
      using counter_high_bits [OF c, of "48 + n"] domain_high_bits [OF d, of n] n
      by (auto simp: cfstr_make_ticket_def cfstr_domain_shift_def bit_drop_bit_eq bit_or_iff
          bit_push_bit_iff not_le intro: ccontr)
  qed
  show "take_bit 48 (cfstr_make_ticket d c) = c"
  proof (rule bit_word_eqI)
    fix n
    assume n: "n < LENGTH(64)"
    show "bit (take_bit 48 (cfstr_make_ticket d c)) n \<longleftrightarrow> bit c n"
      using counter_high_bits [OF c, of n]
      by (auto simp: cfstr_make_ticket_def cfstr_domain_shift_def bit_take_bit_iff bit_or_iff
          bit_push_bit_iff not_le)
  qed
qed

text \<open>A ticket this store has issued: its domain, and a counter that was used.\<close>

definition issued :: "u32 \<Rightarrow> u64 \<Rightarrow> u64 \<Rightarrow> bool" where
  "issued domain next t \<longleftrightarrow> drop_bit 48 t = ucast domain \<and> 0 < ticket_counter t \<and>
     ticket_counter t < unat next"

lemma issued_mono: "issued d n t \<Longrightarrow> n \<le> n' \<Longrightarrow> issued d n' t"
  by (auto simp: issued_def word_le_nat_alt)

lemma new_ticket:
  assumes "unat d < 2 ^ 16" and "0 < unat c" "unat c < 2 ^ 48"
  shows "cfstr_make_ticket d c \<noteq> 0" "ticket_counter (cfstr_make_ticket d c) = unat c"
    "issued d (c + 1) (cfstr_make_ticket d c)" "\<not> issued d c (cfstr_make_ticket d c)"
proof -
  note parts = ticket_parts [OF assms(1,3)]
  show count: "ticket_counter (cfstr_make_ticket d c) = unat c" by (simp add: ticket_counter_def parts)
  then show "cfstr_make_ticket d c \<noteq> 0" using assms(2) by (auto simp: ticket_counter_def)
  have "c \<noteq> - 1" using assms(3) unat_max [where 'a = 64] by auto
  then show "issued d (c + 1) (cfstr_make_ticket d c)"
    using count parts assms(2) by (simp add: issued_def unat_Suc_exact)
  show "\<not> issued d c (cfstr_make_ticket d c)" using count by (simp add: issued_def)
qed

section \<open>Invariant\<close>

definition slot_bytes :: "cascade_slot \<Rightarrow> nat" where
  "slot_bytes e = (if cs_occupied e then unat (cfstr_frame_size e) else 0)"

text \<open>
  A slot on its own: its tickets were issued and differ; a free slot has none. A slot is
  live when it is free, still admits tasks, or has a task outstanding.
\<close>

definition slot_core :: "u32 \<Rightarrow> u64 \<Rightarrow> cascade_slot \<Rightarrow> bool" where
  "slot_core domain next e \<longleftrightarrow>
     (\<forall>t \<in> set (cs_tickets e). t = 0 \<or> issued domain next t) \<and>
     distinct (filter (\<lambda>t. t \<noteq> 0) (cs_tickets e)) \<and>
     (\<not> cs_occupied e \<longrightarrow> (\<forall>t \<in> set (cs_tickets e). t = 0)) \<and>
     (cs_occupied e \<longrightarrow> cfstr_frame_matches (cs_key e) (cs_frame e))"

definition slot_live :: "cascade_slot \<Rightarrow> bool" where
  "slot_live e \<longleftrightarrow> \<not> cs_occupied e \<or> cs_admits_tasks e \<or> (\<exists>t \<in> set (cs_tickets e). t \<noteq> 0)"

definition apart :: "cascade_slot \<Rightarrow> cascade_slot \<Rightarrow> bool" where
  "apart a b \<longleftrightarrow> (\<forall>t \<in> set (cs_tickets a). t \<noteq> 0 \<longrightarrow> t \<notin> set (cs_tickets b)) \<and>
     \<not> (cs_occupied a \<and> cs_occupied b \<and> cs_key a = cs_key b)"

definition slots_apart :: "cascade_slot list \<Rightarrow> bool" where
  "slots_apart es \<longleftrightarrow>
     (\<forall>i < length es. \<forall>j < length es. i \<noteq> j \<longrightarrow> apart (es ! i) (es ! j))"

definition cfstr_core :: "cascade_frame_store \<Rightarrow> bool" where
  "cfstr_core s \<longleftrightarrow> (\<forall>e \<in> set (cf_slots s). slot_core (cf_domain s) (cf_next_counter s) e) \<and>
     slots_apart (cf_slots s) \<and>
     unat (cf_bytes s) = sum_list (map slot_bytes (cf_slots s)) \<and> cf_bytes s \<le> cf_max_bytes s \<and>
     0 < unat (cf_next_counter s) \<and> unat (cf_next_counter s) \<le> 2 ^ 48 \<and>
     unat (cf_domain s) < 2 ^ 16"

definition cfstr_inv :: "cascade_frame_store \<Rightarrow> bool" where
  "cfstr_inv s \<longleftrightarrow> cfstr_core s \<and> (\<forall>e \<in> set (cf_slots s). slot_live e)"

lemma apart_sym: "apart a b \<Longrightarrow> apart b a"
  by (auto simp: apart_def)

lemma apart_update:
  assumes "slots_apart es" "i < length es"
    and "\<And>j. j < length es \<Longrightarrow> j \<noteq> i \<Longrightarrow> apart e (es ! j)"
  shows "slots_apart (es[i := e])"
  using assms apart_sym unfolding slots_apart_def by (simp add: nth_list_update)

lemma all_slots: "(\<forall>e \<in> set es. P e) \<longleftrightarrow> (\<forall>i < length es. P (es ! i))"
  by (simp add: all_set_conv_all_nth)

lemma all_slots_update:
  "\<forall>e \<in> set es. P e \<Longrightarrow> P y \<Longrightarrow> \<forall>e \<in> set (es[i := y]). P e"
  using set_update_subset_insert [of es i y] by blast

lemma all_other_slots_update:
  assumes "\<forall>j < length es. j \<noteq> i \<longrightarrow> P (es ! j)" and "P y"
  shows "\<forall>e \<in> set (es[i := y]). P e"
proof
  fix e
  assume "e \<in> set (es[i := y])"
  then obtain j where "j < length es" "e = es[i := y] ! j" by (auto simp: in_set_conv_nth)
  then show "P e" using assms by (cases "j = i") auto
qed

lemma cfstr_create_inv: "cfstr_inv (fst (cfstr_create frames tasks max_bytes domain counter))"
proof -
  let ?d = "cf_domain (fst (cfstr_create frames tasks max_bytes domain counter))"
  have mask: "unat (x AND cfstr_domain_mask) < 2 ^ 16" for x
  proof -
    have "x AND cfstr_domain_mask \<le> cfstr_domain_mask" by (rule word_and_le1)
    then show ?thesis by (simp add: word_le_nat_alt cfstr_domain_mask_def)
  qed
  have "unat ?d < 2 ^ 16" using mask by (simp add: cfstr_create_def Let_def)
  then show ?thesis
    by (simp add: cfstr_inv_def cfstr_core_def cfstr_create_def Let_def slots_apart_def apart_def
        slot_core_def slot_live_def cfstr_empty_slot_def slot_bytes_def sum_list_replicate)
qed

section \<open>Every operation keeps the invariant\<close>

lemma slot_bytes_update:
  "i < length es \<Longrightarrow> sum_list (map slot_bytes (es[i := e])) + slot_bytes (es ! i) =
     sum_list (map slot_bytes es) + slot_bytes e"
  by (rule sum_list_update_nat)

text \<open>Replacing one slot by another of the same size.\<close>

lemma core_update:
  assumes core: "cfstr_core s" and i: "i < length (cf_slots s)"
    and e: "slot_core (cf_domain s) nx e" "slot_bytes e = slot_bytes (cf_slots s ! i)"
    and up: "cf_next_counter s \<le> nx" "unat nx \<le> 2 ^ 48"
    and ap: "\<And>j. j < length (cf_slots s) \<Longrightarrow> j \<noteq> i \<Longrightarrow> apart e (cf_slots s ! j)"
  shows "cfstr_core (s\<lparr>cf_slots := (cf_slots s)[i := e], cf_next_counter := nx\<rparr>)"
proof -
  have mono: "slot_core (cf_domain s) nx x" if "slot_core (cf_domain s) (cf_next_counter s) x" for x
    using that issued_mono [OF _ up(1)] unfolding slot_core_def by blast
  have "\<forall>x \<in> set (cf_slots s). slot_core (cf_domain s) nx x"
    using core mono unfolding cfstr_core_def by blast
  then have "\<forall>x \<in> set ((cf_slots s)[i := e]). slot_core (cf_domain s) nx x"
    using e(1) by (rule all_slots_update)
  moreover have "slots_apart ((cf_slots s)[i := e])"
    using core i ap by (intro apart_update) (auto simp: cfstr_core_def)
  moreover have "sum_list (map slot_bytes ((cf_slots s)[i := e])) = sum_list (map slot_bytes (cf_slots s))"
    using slot_bytes_update [OF i, of e] e(2) by linarith
  moreover have "0 < unat nx" using core up(1) by (auto simp: cfstr_core_def word_le_nat_alt)
  ultimately show ?thesis using core up(2) by (simp add: cfstr_core_def)
qed

lemma reclaim_inv:
  assumes core: "cfstr_core s" and i: "i < length (cf_slots s)" "cs_occupied (cf_slots s ! i)"
    and others: "\<forall>j < length (cf_slots s). j \<noteq> i \<longrightarrow> slot_live (cf_slots s ! j)"
  shows "cfstr_inv (cfstr_reclaim i s)"
proof -
  let ?e = "cf_slots s ! i"
  show ?thesis
  proof (cases "\<not> cs_admits_tasks ?e \<and> list_all (\<lambda>t. t = 0) (cs_tickets ?e)")
    case False
    then have "slot_live ?e" by (auto simp: slot_live_def list_all_iff)
    then have "\<forall>e \<in> set (cf_slots s). slot_live e" using others by (metis all_slots)
    with core False show ?thesis by (auto simp: cfstr_reclaim_def Let_def cfstr_inv_def)
  next
    case True
    let ?f = "?e\<lparr>cs_frame := blank_raw_frame, cs_occupied := False\<rparr>"
    have rec: "cfstr_reclaim i s = s\<lparr>cf_slots := (cf_slots s)[i := ?f],
        cf_bytes := cf_bytes s - cfstr_frame_size ?e\<rparr>"
      using True by (simp add: cfstr_reclaim_def Let_def)
    have sum: "sum_list (map slot_bytes ((cf_slots s)[i := ?f])) + unat (cfstr_frame_size ?e) =
        unat (cf_bytes s)"
      using slot_bytes_update [OF i(1), of ?f] i(2) core by (simp add: slot_bytes_def cfstr_core_def)
    then have le: "cfstr_frame_size ?e \<le> cf_bytes s" by (simp add: word_le_nat_alt)
    then have bytes: "unat (cf_bytes s - cfstr_frame_size ?e) =
        sum_list (map slot_bytes ((cf_slots s)[i := ?f]))"
      using sum by (simp add: unat_sub_exact)
    have below: "cf_bytes s - cfstr_frame_size ?e \<le> cf_max_bytes s"
    proof -
      have "unat (cf_bytes s) \<le> unat (cf_max_bytes s)" using core by (simp add: cfstr_core_def word_le_nat_alt)
      then show ?thesis unfolding word_le_nat_alt unat_sub_exact [OF le] by linarith
    qed
    have "slot_core (cf_domain s) (cf_next_counter s) ?f"
      using True by (auto simp: slot_core_def list_all_iff)
    moreover have "\<forall>e \<in> set (cf_slots s). slot_core (cf_domain s) (cf_next_counter s) e"
      using core by (simp add: cfstr_core_def)
    ultimately have cores: "\<forall>e \<in> set ((cf_slots s)[i := ?f]). slot_core (cf_domain s) (cf_next_counter s) e"
      by (intro all_slots_update) auto
    have "apart ?e (cf_slots s ! j)" if "j < length (cf_slots s)" "j \<noteq> i" for j
      using core that i(1) unfolding cfstr_core_def slots_apart_def by metis
    then have aparts: "slots_apart ((cf_slots s)[i := ?f])"
      using core i(1) by (intro apart_update) (auto simp: cfstr_core_def apart_def)
    have lives: "\<forall>e \<in> set ((cf_slots s)[i := ?f]). slot_live e"
      by (rule all_other_slots_update [OF others]) (simp add: slot_live_def)
    show ?thesis
      using cores aparts lives bytes below core by (simp add: rec cfstr_inv_def cfstr_core_def)
  qed
qed

lemma find_free_Some:
  "cfstr_find_free key i avail es = Some (Some k) \<Longrightarrow>
     (\<forall>e \<in> set es. \<not> (cs_occupied e \<and> cs_key e = key)) \<and>
     (avail = Some k \<or> (i \<le> k \<and> k < i + length es \<and> \<not> cs_occupied (es ! (k - i))))"
proof (induction es arbitrary: i avail)
  case Nil
  then show ?case by simp
next
  case (Cons e es)
  let ?avail = "if \<not> cs_occupied e \<and> cs_tickets e \<noteq> [] then Some i else avail"
  have nodup: "\<not> (cs_occupied e \<and> cs_key e = key)"
    and rest: "cfstr_find_free key (Suc i) ?avail es = Some (Some k)"
    using Cons.prems by (auto split: if_splits)
  from Cons.IH [OF rest] nodup show ?case
    by (auto simp: nth_Cons' Suc_le_eq split: if_splits)
qed

lemma find_free_slot:
  assumes "cfstr_find_free key 0 None es = Some (Some k)"
  shows "k < length es" "\<not> cs_occupied (es ! k)" "\<forall>e \<in> set es. \<not> (cs_occupied e \<and> cs_key e = key)"
  using find_free_Some [OF assms] by auto

lemma retain_inv:
  assumes inv: "cfstr_inv s"
  shows "cfstr_inv (snd (cfstr_retain key frame s))"
proof (cases "fst (cfstr_retain key frame s) = Ok")
  case False
  then have "snd (cfstr_retain key frame s) = s"
    by (auto simp: cfstr_retain_def split: if_splits option.splits)
  with inv show ?thesis by simp
next
  case True
  let ?size = "fd_allocation_size_bytes (rf_descriptor frame)"
  obtain i where free: "cfstr_find_free key 0 None (cf_slots s) = Some (Some i)"
    and match: "cfstr_frame_matches key frame"
    and room: "\<not> ?size > cf_max_bytes s - cf_bytes s"
    using True by (auto simp: cfstr_retain_def split: if_splits option.splits)
  let ?e = "(cf_slots s ! i)\<lparr>cs_key := key, cs_frame := frame, cs_occupied := True, cs_admits_tasks := True\<rparr>"
  have new: "snd (cfstr_retain key frame s) = s\<lparr>cf_slots := (cf_slots s)[i := ?e], cf_bytes := cf_bytes s + ?size\<rparr>"
    using True free match room by (auto simp: cfstr_retain_def split: if_splits)
  note i = find_free_slot [OF free]
  have core: "cfstr_core s" using inv by (simp add: cfstr_inv_def)
  then have old: "slot_core (cf_domain s) (cf_next_counter s) (cf_slots s ! i)"
    using i(1) by (simp add: cfstr_core_def)
  then have zero: "\<forall>t \<in> set (cs_tickets (cf_slots s ! i)). t = 0" using i(2) by (simp add: slot_core_def)
  have le: "cf_bytes s \<le> cf_max_bytes s" using core by (simp add: cfstr_core_def)
  then have fit: "unat (cf_bytes s) + unat ?size \<le> unat (cf_max_bytes s)"
    using room by (simp add: word_less_nat_alt not_less unat_sub_exact word_le_nat_alt)
  then have "unat (cf_bytes s) + unat ?size < 2 ^ 64"
    using unat_less_2_64 [of "cf_max_bytes s"] by linarith
  then have "unat (cf_bytes s) + unat ?size < 2 ^ LENGTH(64)" by simp
  note add = unat_add_exact [OF this]
  have "sum_list (map slot_bytes ((cf_slots s)[i := ?e])) = unat (cf_bytes s) + unat ?size"
    using slot_bytes_update [OF i(1), of ?e] i(2) core
    by (simp add: slot_bytes_def cfstr_frame_size_def cfstr_core_def)
  moreover have "slot_core (cf_domain s) (cf_next_counter s) ?e"
    using old zero match by (auto simp: slot_core_def)
  then have "\<forall>e \<in> set ((cf_slots s)[i := ?e]). slot_core (cf_domain s) (cf_next_counter s) e"
    using core by (intro all_slots_update) (auto simp: cfstr_core_def)
  moreover have "apart ?e (cf_slots s ! j)" if "j < length (cf_slots s)" "j \<noteq> i" for j
    using zero i(3) that by (auto simp: apart_def all_slots)
  then have "slots_apart ((cf_slots s)[i := ?e])"
    using core i(1) by (intro apart_update) (auto simp: cfstr_core_def)
  moreover have "\<forall>e \<in> set ((cf_slots s)[i := ?e]). slot_live e"
    using inv by (intro all_slots_update) (auto simp: cfstr_inv_def slot_live_def)
  ultimately show ?thesis
    using core add fit by (simp add: new cfstr_inv_def cfstr_core_def word_le_nat_alt)
qed

lemma slot_at: "cfstr_core s \<Longrightarrow> i < length (cf_slots s) \<Longrightarrow>
    slot_core (cf_domain s) (cf_next_counter s) (cf_slots s ! i)"
  by (simp add: cfstr_core_def)

lemma apart_at: "cfstr_core s \<Longrightarrow> i < length (cf_slots s) \<Longrightarrow> j < length (cf_slots s) \<Longrightarrow> j \<noteq> i \<Longrightarrow>
    apart (cf_slots s ! i) (cf_slots s ! j)"
  by (simp add: cfstr_core_def slots_apart_def)

lemma lives_at: "cfstr_inv s \<Longrightarrow> i < length (cf_slots s) \<Longrightarrow> slot_live (cf_slots s ! i)"
  by (simp add: cfstr_inv_def)

text \<open>What an accepted \<open>acquire\<close> does.\<close>

lemma acquire_Ok:
  assumes "cfstr_acquire key s f0 t0 = (Ok, s', f, t)"
  obtains i j where "i < length (cf_slots s)" "cs_occupied (cf_slots s ! i)"
    "cs_admits_tasks (cf_slots s ! i)" "cs_key (cf_slots s ! i) = key"
    "j < length (cs_tickets (cf_slots s ! i))" "cs_tickets (cf_slots s ! i) ! j = 0"
    "cf_next_counter s \<le> cfstr_counter_mask"
    "t = cfstr_make_ticket (cf_domain s) (cf_next_counter s)" "f = cs_frame (cf_slots s ! i)"
    "s' = s\<lparr>cf_slots := (cf_slots s)[i := (cf_slots s ! i)\<lparr>cs_tickets := (cs_tickets (cf_slots s ! i))[j := t]\<rparr>],
        cf_next_counter := cf_next_counter s + 1\<rparr>"
  using assms
  by (auto simp: cfstr_acquire_def Let_def not_less split: if_splits option.splits dest!: first_index_Some)

lemma acquire_refused:
  "cfstr_acquire key s f0 t0 = (e, s', f, t) \<Longrightarrow> e \<noteq> Ok \<Longrightarrow> s' = s \<and> f = f0 \<and> t = t0"
  by (auto simp: cfstr_acquire_def Let_def split: if_splits option.splits)

lemma next_fits:
  assumes "cfstr_core s" "cf_next_counter s \<le> cfstr_counter_mask"
  shows "unat (cf_domain s) < 2 ^ 16" "0 < unat (cf_next_counter s)" "unat (cf_next_counter s) < 2 ^ 48"
  using assms by (auto simp: cfstr_core_def word_le_nat_alt cfstr_counter_mask_def)

lemma fresh_distinct:
  assumes "distinct (filter (\<lambda>t. t \<noteq> 0) ts)" "j < length ts" "ts ! j = 0" "t \<notin> set ts"
  shows "distinct (filter (\<lambda>t. t \<noteq> 0) (ts[j := t]))"
proof -
  have split: "ts = take j ts @ 0 # drop (Suc j) ts" using id_take_nth_drop [OF assms(2)] assms(3) by simp
  have "ts[j := t] = take j ts @ t # drop (Suc j) ts" using assms(2) by (simp add: upd_conv_take_nth_drop)
  moreover have "t \<notin> set (take j ts)" "t \<notin> set (drop (Suc j) ts)"
    using assms(4) by (auto dest: in_set_takeD in_set_dropD)
  moreover have "distinct (filter (\<lambda>t. t \<noteq> 0) (take j ts @ 0 # drop (Suc j) ts))"
    using assms(1) split by simp
  ultimately show ?thesis by auto
qed

lemma cleared_distinct:
  assumes "distinct (filter (\<lambda>t. t \<noteq> 0) ts)" "j < length ts" "ts ! j = t" "t \<noteq> 0"
  shows "distinct (filter (\<lambda>t. t \<noteq> 0) (ts[j := 0]))" "t \<notin> set (ts[j := 0])"
proof -
  have split: "ts = take j ts @ t # drop (Suc j) ts" using id_take_nth_drop [OF assms(2)] assms(3) by simp
  have upd: "ts[j := 0] = take j ts @ 0 # drop (Suc j) ts" using assms(2) by (simp add: upd_conv_take_nth_drop)
  have "distinct (filter (\<lambda>t. t \<noteq> 0) (take j ts @ t # drop (Suc j) ts))" using assms(1) split by simp
  then show "distinct (filter (\<lambda>t. t \<noteq> 0) (ts[j := 0]))" "t \<notin> set (ts[j := 0])"
    using assms(4) unfolding upd by auto
qed

lemma acquire_inv:
  assumes inv: "cfstr_inv s"
  shows "cfstr_inv (fst (snd (cfstr_acquire key s f0 t0)))"
proof (cases "fst (cfstr_acquire key s f0 t0) = Ok")
  case False
  then show ?thesis using acquire_refused [of key s f0 t0] inv by (metis prod.collapse)
next
  case True
  obtain s' f t where r: "cfstr_acquire key s f0 t0 = (Ok, s', f, t)" using ok_triple [OF True] by (metis prod.collapse)
  obtain i j where i: "i < length (cf_slots s)" "cs_occupied (cf_slots s ! i)" "cs_admits_tasks (cf_slots s ! i)"
    and j: "j < length (cs_tickets (cf_slots s ! i))" "cs_tickets (cf_slots s ! i) ! j = 0"
    and c: "cf_next_counter s \<le> cfstr_counter_mask" "t = cfstr_make_ticket (cf_domain s) (cf_next_counter s)"
    and s': "s' = s\<lparr>cf_slots := (cf_slots s)[i := (cf_slots s ! i)\<lparr>cs_tickets := (cs_tickets (cf_slots s ! i))[j := t]\<rparr>],
        cf_next_counter := cf_next_counter s + 1\<rparr>"
    using acquire_Ok [OF r] by blast
  let ?e = "cf_slots s ! i"
  let ?f = "?e\<lparr>cs_tickets := (cs_tickets ?e)[j := t]\<rparr>"
  have core: "cfstr_core s" using inv by (simp add: cfstr_inv_def)
  note fits = next_fits [OF core c(1)]
  note nt = new_ticket [OF fits, folded c(2)]
  have unused: "t \<notin> set (cs_tickets (cf_slots s ! k))" if "k < length (cf_slots s)" for k
    using slot_at [OF core that] nt(1,4) by (auto simp: slot_core_def)
  have more: "cf_next_counter s \<le> cf_next_counter s + 1" and top: "unat (cf_next_counter s + 1) \<le> 2 ^ 48"
  proof -
    have "cf_next_counter s \<noteq> - 1" using fits(3) unat_max [where 'a = 64] by auto
    then show "cf_next_counter s \<le> cf_next_counter s + 1" "unat (cf_next_counter s + 1) \<le> 2 ^ 48"
      using fits(3) by (simp_all add: word_le_nat_alt unat_Suc_exact)
  qed
  have "\<forall>x \<in> set (cs_tickets ?e). x = 0 \<or> issued (cf_domain s) (cf_next_counter s + 1) x"
    using slot_at [OF core i(1)] issued_mono [OF _ more] by (auto simp: slot_core_def)
  then have "\<forall>x \<in> set ((cs_tickets ?e)[j := t]). x = 0 \<or> issued (cf_domain s) (cf_next_counter s + 1) x"
    using nt(3) by (intro all_slots_update) auto
  moreover have "distinct (filter (\<lambda>t. t \<noteq> 0) ((cs_tickets ?e)[j := t]))"
    using slot_at [OF core i(1)] j unused [OF i(1)] by (intro fresh_distinct) (auto simp: slot_core_def)
  ultimately have slot: "slot_core (cf_domain s) (cf_next_counter s + 1) ?f"
    using slot_at [OF core i(1)] i(2) by (simp add: slot_core_def)
  have "cfstr_core s'"
    unfolding s'
  proof (rule core_update [OF core i(1) slot _ more top])
    show "slot_bytes ?f = slot_bytes ?e" by (simp add: slot_bytes_def cfstr_frame_size_def)
    show "apart ?f (cf_slots s ! k)" if "k < length (cf_slots s)" "k \<noteq> i" for k
      using apart_at [OF core i(1) that] unused [OF that(1)] set_update_subset_insert [of "cs_tickets ?e" j t]
      by (auto simp: apart_def)
  qed
  moreover have "\<forall>e \<in> set (cf_slots s'). slot_live e"
  proof -
    have "\<forall>e \<in> set ((cf_slots s)[i := ?f]). slot_live e"
      using inv i(3) by (intro all_slots_update) (auto simp: cfstr_inv_def slot_live_def)
    then show ?thesis by (simp add: s')
  qed
  ultimately show ?thesis using r by (simp add: cfstr_inv_def)
qed

lemma core_update_slot:
  assumes core: "cfstr_core s" and i: "i < length (cf_slots s)"
    and e: "slot_core (cf_domain s) (cf_next_counter s) e" "slot_bytes e = slot_bytes (cf_slots s ! i)"
    and ap: "\<And>j. j < length (cf_slots s) \<Longrightarrow> j \<noteq> i \<Longrightarrow> apart e (cf_slots s ! j)"
  shows "cfstr_core (s\<lparr>cf_slots := (cf_slots s)[i := e]\<rparr>)"
proof -
  have "s\<lparr>cf_slots := (cf_slots s)[i := e], cf_next_counter := cf_next_counter s\<rparr> =
      s\<lparr>cf_slots := (cf_slots s)[i := e]\<rparr>"
    by (cases s) simp
  moreover have "unat (cf_next_counter s) \<le> 2 ^ 48" using core by (simp add: cfstr_core_def)
  ultimately show ?thesis using core_update [OF core i e order_refl _ ap] by simp
qed

lemma update_reclaim_inv:
  assumes inv: "cfstr_inv s" and i: "i < length (cf_slots s)" "cs_occupied e"
    and e: "slot_core (cf_domain s) (cf_next_counter s) e" "slot_bytes e = slot_bytes (cf_slots s ! i)"
    and ap: "\<And>j. j < length (cf_slots s) \<Longrightarrow> j \<noteq> i \<Longrightarrow> apart e (cf_slots s ! j)"
  shows "cfstr_inv (cfstr_reclaim i (s\<lparr>cf_slots := (cf_slots s)[i := e]\<rparr>))"
proof (rule reclaim_inv)
  show "cfstr_core (s\<lparr>cf_slots := (cf_slots s)[i := e]\<rparr>)"
    using inv by (intro core_update_slot i e ap) (simp_all add: cfstr_inv_def)
qed (use i lives_at [OF inv] in auto)

lemma retire_inv:
  assumes inv: "cfstr_inv s"
  shows "cfstr_inv (snd (cfstr_retire key s))"
proof (cases "fst (cfstr_retire key s) = Ok")
  case False
  then have "snd (cfstr_retire key s) = s" by (auto simp: cfstr_retire_def split: if_splits option.splits)
  with inv show ?thesis by simp
next
  case True
  let ?P = "\<lambda>e. cs_occupied e \<and> cfstr_equal (cs_key e) key"
  obtain i where found: "first_index ?P (cf_slots s) = Some i"
    using True by (auto simp: cfstr_retire_def split: if_splits option.splits)
  note i = first_index_Some [OF found]
  have core: "cfstr_core s" using inv by (simp add: cfstr_inv_def)
  have "cfstr_inv (cfstr_reclaim i (s\<lparr>cf_slots := (cf_slots s)[i := (cf_slots s ! i)\<lparr>cs_admits_tasks := False\<rparr>]\<rparr>))"
  proof (rule update_reclaim_inv [OF inv])
    show "slot_core (cf_domain s) (cf_next_counter s) ((cf_slots s ! i)\<lparr>cs_admits_tasks := False\<rparr>)"
      using slot_at [OF core, of i] i by (simp add: slot_core_def)
    show "apart ((cf_slots s ! i)\<lparr>cs_admits_tasks := False\<rparr>) (cf_slots s ! j)"
      if "j < length (cf_slots s)" "j \<noteq> i" for j
      using apart_at [OF core _ that] i by (simp add: apart_def)
  qed (use i in \<open>simp_all add: slot_bytes_def cfstr_frame_size_def\<close>)
  then show ?thesis using True found by (simp add: cfstr_retire_def split: if_splits)
qed

text \<open>What an accepted completion does.\<close>

lemma complete_Ok:
  assumes "cfstr_complete t s = (Ok, s')"
  obtains i j where "i < length (cf_slots s)" "cs_occupied (cf_slots s ! i)"
    "j < length (cs_tickets (cf_slots s ! i))" "cs_tickets (cf_slots s ! i) ! j = t" "t \<noteq> 0"
    "s' = cfstr_reclaim i (s\<lparr>cf_slots :=
       (cf_slots s)[i := (cf_slots s ! i)\<lparr>cs_tickets := (cs_tickets (cf_slots s ! i))[j := 0]\<rparr>]\<rparr>)"
  using assms
  by (auto simp: cfstr_complete_def Let_def split: if_splits option.splits dest!: first_index_Some)

lemma complete_refused: "fst (cfstr_complete t s) \<noteq> Ok \<Longrightarrow> snd (cfstr_complete t s) = s"
  by (auto simp: cfstr_complete_def Let_def split: if_splits option.splits)

lemma cleared_slot:
  assumes core: "cfstr_core s" and i: "i < length (cf_slots s)" "cs_occupied (cf_slots s ! i)"
    and j: "j < length (cs_tickets (cf_slots s ! i))" "cs_tickets (cf_slots s ! i) ! j = t" "t \<noteq> 0"
  shows "slot_core (cf_domain s) (cf_next_counter s)
      ((cf_slots s ! i)\<lparr>cs_tickets := (cs_tickets (cf_slots s ! i))[j := 0]\<rparr>)"
    "t \<notin> set ((cs_tickets (cf_slots s ! i))[j := 0])"
    "set ((cs_tickets (cf_slots s ! i))[j := 0]) \<subseteq> insert 0 (set (cs_tickets (cf_slots s ! i)))"
proof -
  let ?ts = "cs_tickets (cf_slots s ! i)"
  have old: "slot_core (cf_domain s) (cf_next_counter s) (cf_slots s ! i)" by (rule slot_at [OF core i(1)])
  then have dist: "distinct (filter (\<lambda>t. t \<noteq> 0) ?ts)" by (simp add: slot_core_def)
  show "t \<notin> set (?ts[j := 0])" by (rule cleared_distinct(2) [OF dist j])
  show sub: "set (?ts[j := 0]) \<subseteq> insert 0 (set ?ts)" by (rule set_update_subset_insert)
  show "slot_core (cf_domain s) (cf_next_counter s) ((cf_slots s ! i)\<lparr>cs_tickets := ?ts[j := 0]\<rparr>)"
    using old i(2) sub cleared_distinct(1) [OF dist j] by (auto simp: slot_core_def)
qed

lemma complete_inv:
  assumes inv: "cfstr_inv s"
  shows "cfstr_inv (snd (cfstr_complete t s))"
proof (cases "fst (cfstr_complete t s) = Ok")
  case False
  with inv show ?thesis by (simp add: complete_refused)
next
  case True
  obtain i j where i: "i < length (cf_slots s)" "cs_occupied (cf_slots s ! i)"
    and j: "j < length (cs_tickets (cf_slots s ! i))" "cs_tickets (cf_slots s ! i) ! j = t" "t \<noteq> 0"
    and s': "snd (cfstr_complete t s) = cfstr_reclaim i (s\<lparr>cf_slots :=
       (cf_slots s)[i := (cf_slots s ! i)\<lparr>cs_tickets := (cs_tickets (cf_slots s ! i))[j := 0]\<rparr>]\<rparr>)"
    using complete_Ok [OF ok_pair [OF True]] by metis
  have core: "cfstr_core s" using inv by (simp add: cfstr_inv_def)
  note slot = cleared_slot [OF core i j]
  show ?thesis
    unfolding s'
  proof (rule update_reclaim_inv [OF inv i(1)])
    show "apart ((cf_slots s ! i)\<lparr>cs_tickets := (cs_tickets (cf_slots s ! i))[j := 0]\<rparr>) (cf_slots s ! k)"
      if "k < length (cf_slots s)" "k \<noteq> i" for k
      using apart_at [OF core i(1) that] slot(3) by (auto simp: apart_def)
  qed (use i slot(1) in \<open>simp_all add: slot_bytes_def cfstr_frame_size_def\<close>)
qed

lemma cfstr_step_inv: "cfstr_inv s \<Longrightarrow> cfstr_inv (cfstr_step a s)"
  by (cases a) (simp_all add: retain_inv acquire_inv retire_inv complete_inv)

section \<open>Frames held by tickets\<close>

text \<open>A ticket that is outstanding, with the frame it was issued for.\<close>

definition held_frames :: "cascade_frame_store \<Rightarrow> (u64 \<times> raw_frame) set" where
  "held_frames s = {(t, f). t \<noteq> 0 \<and> (\<exists>e \<in> set (cf_slots s). cs_occupied e \<and> t \<in> set (cs_tickets e) \<and>
     f = cs_frame e)}"

fun cfstr_gives_back :: "cfstr_op \<Rightarrow> (u64 \<times> raw_frame) set" where
  "cfstr_gives_back (Op_complete t) = {(t', f). t' = t}"
| "cfstr_gives_back _ = {}"

definition outstanding :: "cascade_frame_store \<Rightarrow> nat set" where
  "outstanding s = ticket_counter ` fst ` held_frames s"

text \<open>Updating one slot changes what that slot holds, and reclaiming changes nothing.\<close>

lemma held_update:
  assumes i: "i < length (cf_slots s)"
  shows "(t, f) \<in> held_frames (s\<lparr>cf_slots := (cf_slots s)[i := e]\<rparr>) \<longleftrightarrow> t \<noteq> 0 \<and>
    ((cs_occupied e \<and> t \<in> set (cs_tickets e) \<and> f = cs_frame e) \<or>
     (\<exists>j < length (cf_slots s). j \<noteq> i \<and> cs_occupied (cf_slots s ! j) \<and>
        t \<in> set (cs_tickets (cf_slots s ! j)) \<and> f = cs_frame (cf_slots s ! j)))"
proof -
  have ex: "(\<exists>x \<in> set ((cf_slots s)[i := e]). P x) \<longleftrightarrow>
      P e \<or> (\<exists>j < length (cf_slots s). j \<noteq> i \<and> P (cf_slots s ! j))" for P
    using i by (auto simp: in_set_conv_nth nth_list_update Bex_def split: if_splits)
  show ?thesis unfolding held_frames_def by (simp add: ex)
qed

lemma held_split:
  assumes i: "i < length (cf_slots s)"
  shows "(t, f) \<in> held_frames s \<longleftrightarrow> t \<noteq> 0 \<and>
    ((cs_occupied (cf_slots s ! i) \<and> t \<in> set (cs_tickets (cf_slots s ! i)) \<and> f = cs_frame (cf_slots s ! i)) \<or>
     (\<exists>j < length (cf_slots s). j \<noteq> i \<and> cs_occupied (cf_slots s ! j) \<and>
        t \<in> set (cs_tickets (cf_slots s ! j)) \<and> f = cs_frame (cf_slots s ! j)))"
  using held_update [OF i, of t f "cf_slots s ! i"] by simp

lemma held_reclaim:
  assumes i: "i < length (cf_slots s)"
  shows "held_frames (cfstr_reclaim i s) = held_frames s"
proof (cases "\<not> cs_admits_tasks (cf_slots s ! i) \<and> list_all (\<lambda>t. t = 0) (cs_tickets (cf_slots s ! i))")
  case False
  then have "cfstr_reclaim i s = s" by (auto simp: cfstr_reclaim_def Let_def)
  then show ?thesis by simp
next
  case True
  let ?f = "(cf_slots s ! i)\<lparr>cs_frame := blank_raw_frame, cs_occupied := False\<rparr>"
  have "held_frames (cfstr_reclaim i s) = held_frames (s\<lparr>cf_slots := (cf_slots s)[i := ?f]\<rparr>)"
    using True by (simp add: cfstr_reclaim_def Let_def held_frames_def)
  moreover have "(t, f) \<in> held_frames (s\<lparr>cf_slots := (cf_slots s)[i := ?f]\<rparr>) \<longleftrightarrow> (t, f) \<in> held_frames s" for t f
    unfolding held_update [OF i] held_split [OF i, of t f] using True by (auto simp: list_all_iff)
  ultimately show ?thesis by auto
qed

lemma retain_held:
  assumes inv: "cfstr_inv s"
  shows "held_frames (snd (cfstr_retain key frame s)) = held_frames s"
proof (cases "fst (cfstr_retain key frame s) = Ok")
  case False
  then have "snd (cfstr_retain key frame s) = s"
    by (auto simp: cfstr_retain_def split: if_splits option.splits)
  then show ?thesis by simp
next
  case True
  obtain i where free: "cfstr_find_free key 0 None (cf_slots s) = Some (Some i)"
    using True by (auto simp: cfstr_retain_def split: if_splits option.splits)
  note i = find_free_slot [OF free]
  let ?e = "(cf_slots s ! i)\<lparr>cs_key := key, cs_frame := frame, cs_occupied := True, cs_admits_tasks := True\<rparr>"
  have zero: "\<forall>t \<in> set (cs_tickets (cf_slots s ! i)). t = 0"
    using inv i slot_at [of s i] by (simp add: cfstr_inv_def slot_core_def)
  have "held_frames (snd (cfstr_retain key frame s)) = held_frames (s\<lparr>cf_slots := (cf_slots s)[i := ?e]\<rparr>)"
    using True free by (auto simp: cfstr_retain_def held_frames_def split: if_splits)
  moreover have "(t, f) \<in> held_frames (s\<lparr>cf_slots := (cf_slots s)[i := ?e]\<rparr>) \<longleftrightarrow> (t, f) \<in> held_frames s" for t f
    unfolding held_update [OF i(1)] held_split [OF i(1), of t f] using zero i(2) by auto
  ultimately show ?thesis by auto
qed

lemma acquire_held:
  assumes "cfstr_acquire key s f0 t0 = (Ok, s', f, t)" and inv: "cfstr_inv s"
  shows "held_frames s' = insert (t, f) (held_frames s)" and "t \<noteq> 0"
    and "ticket_counter t = unat (cf_next_counter s)" and "unat (cf_next_counter s') = Suc (unat (cf_next_counter s))"
    and "drop_bit 48 t = ucast (cf_domain s)"
proof -
  obtain i j where i: "i < length (cf_slots s)" "cs_occupied (cf_slots s ! i)" "f = cs_frame (cf_slots s ! i)"
    and j: "j < length (cs_tickets (cf_slots s ! i))" "cs_tickets (cf_slots s ! i) ! j = 0"
    and c: "cf_next_counter s \<le> cfstr_counter_mask" "t = cfstr_make_ticket (cf_domain s) (cf_next_counter s)"
    and s': "s' = s\<lparr>cf_slots := (cf_slots s)[i := (cf_slots s ! i)\<lparr>cs_tickets := (cs_tickets (cf_slots s ! i))[j := t]\<rparr>],
        cf_next_counter := cf_next_counter s + 1\<rparr>"
    using acquire_Ok [OF assms(1)] by blast
  have core: "cfstr_core s" using inv by (simp add: cfstr_inv_def)
  note fits = next_fits [OF core c(1)]
  note nt = new_ticket [OF fits, folded c(2)]
  show "t \<noteq> 0" "ticket_counter t = unat (cf_next_counter s)" by (rule nt)+
  show "drop_bit 48 t = ucast (cf_domain s)" using nt(3) by (simp add: issued_def)
  have "cf_next_counter s \<noteq> - 1" using fits(3) unat_max [where 'a = 64] by auto
  then show "unat (cf_next_counter s') = Suc (unat (cf_next_counter s))" by (simp add: s' unat_Suc_exact)
  let ?ts = "cs_tickets (cf_slots s ! i)"
  have set_ts: "x \<in> set (?ts[j := t]) \<longleftrightarrow> x = t \<or> x \<in> set ?ts" if "x \<noteq> 0" for x
    using j that by (auto simp: in_set_conv_nth nth_list_update)
  let ?e = "(cf_slots s ! i)\<lparr>cs_tickets := ?ts[j := t]\<rparr>"
  have "held_frames s' = held_frames (s\<lparr>cf_slots := (cf_slots s)[i := ?e]\<rparr>)"
    by (simp add: s' held_frames_def)
  moreover have "(x, g) \<in> held_frames (s\<lparr>cf_slots := (cf_slots s)[i := ?e]\<rparr>) \<longleftrightarrow>
      (x, g) = (t, f) \<or> (x, g) \<in> held_frames s" for x g
    unfolding held_update [OF i(1)] held_split [OF i(1), of x g] using set_ts i nt(1) by auto
  ultimately show "held_frames s' = insert (t, f) (held_frames s)" by auto
qed

lemma retire_held: "held_frames (snd (cfstr_retire key s)) = held_frames s"
proof (cases "fst (cfstr_retire key s) = Ok")
  case False
  then have "snd (cfstr_retire key s) = s" by (auto simp: cfstr_retire_def split: if_splits option.splits)
  then show ?thesis by simp
next
  case True
  let ?P = "\<lambda>e. cs_occupied e \<and> cfstr_equal (cs_key e) key"
  obtain i where found: "first_index ?P (cf_slots s) = Some i"
    using True by (auto simp: cfstr_retire_def split: if_splits option.splits)
  note i = first_index_Some [OF found]
  let ?s = "s\<lparr>cf_slots := (cf_slots s)[i := (cf_slots s ! i)\<lparr>cs_admits_tasks := False\<rparr>]\<rparr>"
  have len: "i < length (cf_slots s)" "i < length (cf_slots ?s)" using i by simp_all
  have "(t, f) \<in> held_frames ?s \<longleftrightarrow> (t, f) \<in> held_frames s" for t f
    unfolding held_update [OF len(1)] held_split [OF len(1), of t f] by simp
  then have "held_frames ?s = held_frames s" by auto
  then show ?thesis
    using True found held_reclaim [OF len(2)] by (simp add: cfstr_retire_def split: if_splits)
qed

lemma complete_held:
  assumes "fst (cfstr_complete t s) = Ok" and inv: "cfstr_inv s"
  shows "held_frames (snd (cfstr_complete t s)) = {(t', f) \<in> held_frames s. t' \<noteq> t}"
proof -
  obtain i j where i: "i < length (cf_slots s)" "cs_occupied (cf_slots s ! i)"
    and j: "j < length (cs_tickets (cf_slots s ! i))" "cs_tickets (cf_slots s ! i) ! j = t" "t \<noteq> 0"
    and s': "snd (cfstr_complete t s) = cfstr_reclaim i (s\<lparr>cf_slots :=
       (cf_slots s)[i := (cf_slots s ! i)\<lparr>cs_tickets := (cs_tickets (cf_slots s ! i))[j := 0]\<rparr>]\<rparr>)"
    using complete_Ok [OF ok_pair [OF assms(1)]] by metis
  have core: "cfstr_core s" using inv by (simp add: cfstr_inv_def)
  let ?ts = "cs_tickets (cf_slots s ! i)"
  let ?s = "s\<lparr>cf_slots := (cf_slots s)[i := (cf_slots s ! i)\<lparr>cs_tickets := ?ts[j := 0]\<rparr>]\<rparr>"
  note slot = cleared_slot [OF core i j]
  have set_ts: "x \<in> set (?ts[j := 0]) \<longleftrightarrow> x \<noteq> t \<and> x \<in> set ?ts" if "x \<noteq> 0" for x
  proof
    show "x \<in> set (?ts[j := 0]) \<Longrightarrow> x \<noteq> t \<and> x \<in> set ?ts" using slot(2,3) that by blast
    show "x \<noteq> t \<and> x \<in> set ?ts \<Longrightarrow> x \<in> set (?ts[j := 0])"
      using j by (auto simp: in_set_conv_nth nth_list_update)
  qed
  have elsewhere: "t \<notin> set (cs_tickets (cf_slots s ! k))" if "k < length (cf_slots s)" "k \<noteq> i" for k
    using apart_at [OF core i(1) that] j nth_mem [OF j(1)] by (auto simp: apart_def)
  have "held_frames (snd (cfstr_complete t s)) = held_frames ?s"
    unfolding s' by (rule held_reclaim) (simp add: i)
  moreover have "(x, g) \<in> held_frames ?s \<longleftrightarrow> (x, g) \<in> held_frames s \<and> x \<noteq> t" for x g
    unfolding held_update [OF i(1)] held_split [OF i(1), of x g] using set_ts elsewhere i by auto
  ultimately show ?thesis by auto
qed

lemma complete_iff:
  assumes inv: "cfstr_inv s" and "cf_is_valid s"
  shows "fst (cfstr_complete t s) = Ok \<longleftrightarrow> t \<in> fst ` held_frames s"
proof
  assume "fst (cfstr_complete t s) = Ok"
  then obtain i j where "i < length (cf_slots s)" "cs_occupied (cf_slots s ! i)"
    "j < length (cs_tickets (cf_slots s ! i))" "cs_tickets (cf_slots s ! i) ! j = t" "t \<noteq> 0"
    using complete_Ok [OF ok_pair] by metis
  then show "t \<in> fst ` held_frames s" by (force simp: held_frames_def)
next
  assume "t \<in> fst ` held_frames s"
  then obtain e where e: "e \<in> set (cf_slots s)" "cs_occupied e" "t \<in> set (cs_tickets e)" "t \<noteq> 0"
    by (auto simp: held_frames_def)
  then have "issued (cf_domain s) (cf_next_counter s) t"
    using inv by (auto simp: cfstr_inv_def cfstr_core_def slot_core_def)
  then have dom: "drop_bit cfstr_domain_shift t = ucast (cf_domain s)"
    by (simp add: issued_def cfstr_domain_shift_def)
  obtain i where i: "first_index (\<lambda>e. cs_occupied e \<and> t \<in> set (cs_tickets e)) (cf_slots s) = Some i"
    using e by (metis (mono_tags, lifting) first_index_ex)
  have "t \<in> set (cs_tickets (cf_slots s ! i))" using first_index_Some [OF i] by simp
  then obtain j where "first_index (\<lambda>x. x = t) (cs_tickets (cf_slots s ! i)) = Some j"
    by (metis (mono_tags, lifting) first_index_ex)
  with i dom e(4) assms(2) show "fst (cfstr_complete t s) = Ok"
    by (simp add: cfstr_complete_def Let_def)
qed

lemma step_frame_valid:
  "cf_is_valid (cfstr_step a s) = cf_is_valid s \<and> cf_domain (cfstr_step a s) = cf_domain s \<and>
   cf_max_bytes (cfstr_step a s) = cf_max_bytes s"
  by (cases a) (auto simp: cfstr_retain_def cfstr_acquire_def cfstr_retire_def cfstr_complete_def
      cfstr_reclaim_def Let_def split: option.splits)

lemma run_frame_valid:
  "cf_is_valid (fold cfstr_step ops s) = cf_is_valid s \<and>
   cf_domain (fold cfstr_step ops s) = cf_domain s \<and>
   cf_max_bytes (fold cfstr_step ops s) = cf_max_bytes s"
  by (induction ops arbitrary: s) (simp_all add: step_frame_valid)

lemma step_held:
  assumes inv: "cfstr_inv s"
  shows "held_frames s \<subseteq> held_frames (cfstr_step a s) \<union> cfstr_gives_back a"
    and "outstanding (cfstr_step a s) \<subseteq> outstanding s \<union> {unat (cf_next_counter s)}"
    and "unat (cf_next_counter s) \<le> unat (cf_next_counter (cfstr_step a s))"
proof -
  have counter: "cf_next_counter (cfstr_step a s) = cf_next_counter s" if "\<forall>key. a \<noteq> Op_acquire key"
    using that by (cases a) (auto simp: cfstr_retain_def cfstr_retire_def cfstr_complete_def
        cfstr_reclaim_def Let_def split: option.splits)
  have "held_frames s \<subseteq> held_frames (cfstr_step a s) \<union> cfstr_gives_back a \<and>
    outstanding (cfstr_step a s) \<subseteq> outstanding s \<union> {unat (cf_next_counter s)} \<and>
    unat (cf_next_counter s) \<le> unat (cf_next_counter (cfstr_step a s))"
  proof (cases a)
    case (Op_retain key frame)
    with retain_held [OF inv] counter show ?thesis by (auto simp: outstanding_def)
  next
    case (Op_retire key)
    with retire_held counter show ?thesis by (auto simp: outstanding_def)
  next
    case (Op_complete t)
    have "held_frames (snd (cfstr_complete t s)) \<subseteq> held_frames s \<and>
        held_frames s \<subseteq> held_frames (snd (cfstr_complete t s)) \<union> {(t', f). t' = t}"
      using complete_held [OF _ inv, of t] complete_refused [of t s]
      by (cases "fst (cfstr_complete t s) = Ok") auto
    with Op_complete counter show ?thesis by (auto simp: outstanding_def)
  next
    case (Op_acquire key)
    obtain e s' f t where r: "cfstr_acquire key s blank_raw_frame 0 = (e, s', f, t)" by (metis prod.exhaust)
    then have s': "cfstr_step a s = s'" by (simp add: Op_acquire)
    show ?thesis
    proof (cases "e = Ok")
      case True
      with r inv have "held_frames s' = insert (t, f) (held_frames s)"
        "ticket_counter t = unat (cf_next_counter s)" "unat (cf_next_counter s') = Suc (unat (cf_next_counter s))"
        using acquire_held by simp_all
      then show ?thesis by (auto simp: s' outstanding_def)
    next
      case False
      with acquire_refused [OF r] show ?thesis by (auto simp: s')
    qed
  qed
  then show "held_frames s \<subseteq> held_frames (cfstr_step a s) \<union> cfstr_gives_back a"
    "outstanding (cfstr_step a s) \<subseteq> outstanding s \<union> {unat (cf_next_counter s)}"
    "unat (cf_next_counter s) \<le> unat (cf_next_counter (cfstr_step a s))"
    by blast+
qed

lemma held_issued:
  assumes "cfstr_inv s" "(t, f) \<in> held_frames s"
  shows "issued (cf_domain s) (cf_next_counter s) t"
proof -
  obtain e where "e \<in> set (cf_slots s)" "t \<in> set (cs_tickets e)" "t \<noteq> 0"
    using assms(2) by (auto simp: held_frames_def)
  then show ?thesis using assms(1) unfolding cfstr_inv_def cfstr_core_def slot_core_def by blast
qed

lemma gives_back_ticket: "(t, f) \<in> cfstr_gives_back a \<Longrightarrow> a = Op_complete t"
  by (cases a) auto

lemma outstanding_below: "cfstr_inv s \<Longrightarrow> i \<in> outstanding s \<Longrightarrow> i < unat (cf_next_counter s)"
  using held_issued by (auto simp: outstanding_def issued_def)

interpretation cfstr: held_resources cfstr_step cfstr_inv held_frames cfstr_gives_back
  by unfold_locales (use cfstr_step_inv step_held(1) in blast)+

interpretation cfstr_ids: fresh_ids cfstr_step cfstr_inv "\<lambda>s. unat (cf_next_counter s)" outstanding
proof unfold_locales
  show "i \<in> outstanding s \<or> unat (cf_next_counter s) \<le> i"
    if "cfstr_inv s" "i \<in> outstanding (cfstr_step a s)" for s a i
    using step_held(2) [OF that(1), of a] that(2) by auto
qed (simp_all add: outstanding_below step_held(3))

section \<open>Properties\<close>

text \<open>
  C15. A frame outlives its tasks: from any reachable store, a task that acquired a frame
  keeps that very frame retained through any further calls, retirement of the frame
  included, until its own ticket is completed; and that completion is always accepted.
\<close>

theorem cfstr_frame_outlives_task:
  assumes "s = fold cfstr_step ops (fst (cfstr_create frames tasks max_bytes domain counter))"
    and "cfstr_acquire key s f0 t0 = (Ok, s1, frame, ticket)"
    and "Op_complete ticket \<notin> set later"
  shows "(ticket, frame) \<in> held_frames (fold cfstr_step later s1) \<and>
    fst (cfstr_complete ticket (fold cfstr_step later s1)) = Ok"
proof -
  have inv: "cfstr_inv s" unfolding assms(1) by (intro cfstr.run_inv cfstr_create_inv)
  have inv1: "cfstr_inv s1" using acquire_inv [OF inv, of key f0 t0] assms(2) by simp
  have "(ticket, frame) \<in> held_frames s1" using acquire_held(1) [OF assms(2) inv] by simp
  moreover have "\<forall>a \<in> set later. (ticket, frame) \<notin> cfstr_gives_back a"
    using assms(3) gives_back_ticket by blast
  ultimately have held: "(ticket, frame) \<in> held_frames (fold cfstr_step later s1)"
    by (intro cfstr.run_held [OF inv1])
  have "cf_is_valid s" using assms(2) by (auto simp: cfstr_acquire_def split: if_splits)
  moreover have "cf_is_valid s1 = cf_is_valid s"
    using assms(2) by (auto simp: cfstr_acquire_def Let_def split: if_splits option.splits)
  ultimately have "cf_is_valid (fold cfstr_step later s1)" using run_frame_valid [of later s1] by simp
  with complete_iff [OF cfstr.run_inv [OF inv1]] held show ?thesis by force
qed

definition demo_key :: preview_frame_key where
  "demo_key = blank_frame_key\<lparr>fk_source_epoch := 1, fk_frame_id := 7, fk_source_pts_ns := 9\<rparr>"

definition demo_frame :: raw_frame where
  "demo_frame = \<lparr>rf_descriptor = blank_descriptor\<lparr>fd_session_epoch := 1, fd_buffer_id := 7,
     fd_pts_ns := 9, fd_allocation_size_bytes := 100\<rparr>, rf_native_handle = 3, rf_owner = Some 0\<rparr>"

definition demo_store :: cascade_frame_store where
  "demo_store = fold cfstr_step [Op_retain demo_key demo_frame] (fst (cfstr_create 2 2 150 5 0))"

theorem cfstr_frame_outlives_task_witness:
  "fst (cfstr_complete (snd (snd (snd (cfstr_acquire demo_key demo_store blank_raw_frame 0))))
     (fold cfstr_step [Op_retire demo_key, Op_acquire demo_key]
       (fst (snd (cfstr_acquire demo_key demo_store blank_raw_frame 0))))) = Ok"
proof -
  obtain e s1 f t where r: "cfstr_acquire demo_key demo_store blank_raw_frame 0 = (e, s1, f, t)"
    by (metis prod.exhaust)
  have "fst (cfstr_acquire demo_key demo_store blank_raw_frame 0) = Ok" by code_simp
  then have ok: "cfstr_acquire demo_key demo_store blank_raw_frame 0 = (Ok, s1, f, t)" using r by simp
  have later: "Op_complete t \<notin> set [Op_retire demo_key, Op_acquire demo_key]" by simp
  from cfstr_frame_outlives_task [OF demo_store_def ok later] r show ?thesis by simp
qed

text \<open>
  The byte account is exact and nothing leaks: after any calls the store's byte count
  is the true sum of the allocations it retains, within the configured budget, and every
  frame it still retains either admits tasks or has a task outstanding.
\<close>

lemma cfstr_memory_exact:
  "let s = fold cfstr_step ops (fst (cfstr_create frames tasks max_bytes domain counter)) in
    unat (cfstr_bytes s) = sum_list (map slot_bytes (cf_slots s)) \<and> cfstr_bytes s \<le> max_bytes \<and>
    list_all (\<lambda>e. if cs_occupied e then cs_admits_tasks e \<or> (\<exists>t. (t, cs_frame e) \<in> held_frames s) else True)
      (cf_slots s)"
proof -
  let ?start = "fst (cfstr_create frames tasks max_bytes domain counter)"
  let ?s = "fold cfstr_step ops ?start"
  have inv: "cfstr_inv ?s" by (intro cfstr.run_inv cfstr_create_inv)
  have "cf_max_bytes ?start = max_bytes" by (simp add: cfstr_create_def Let_def)
  then have "cf_max_bytes ?s = max_bytes" using run_frame_valid [of ops ?start] by metis
  moreover have "cs_admits_tasks e \<or> (\<exists>t. (t, cs_frame e) \<in> held_frames ?s)"
    if "e \<in> set (cf_slots ?s)" "cs_occupied e" for e
    using inv that unfolding cfstr_inv_def slot_live_def held_frames_def by blast
  ultimately show ?thesis
    using inv by (simp add: Let_def cfstr_bytes_def cfstr_inv_def cfstr_core_def list_all_iff)
qed

text \<open>
  A ticket is good for one completion: once it completed, no further calls make the
  store accept it again, and a ticket of another domain is never accepted.
\<close>

lemma cfstr_ticket_single_use:
  assumes "s = fold cfstr_step ops (fst (cfstr_create frames tasks max_bytes domain counter))"
    and "fst (cfstr_complete ticket s) = Ok"
  shows "fst (cfstr_complete ticket (fold cfstr_step later (snd (cfstr_complete ticket s)))) \<noteq> Ok \<and>
    (if drop_bit 48 other = (ucast (cf_domain s) :: u64) then True
     else fst (cfstr_complete other (fold cfstr_step later s)) \<noteq> Ok)"
proof -
  let ?s1 = "snd (cfstr_complete ticket s)"
  have inv: "cfstr_inv s" unfolding assms(1) by (intro cfstr.run_inv cfstr_create_inv)
  have inv1: "cfstr_inv ?s1" by (rule complete_inv [OF inv])
  have valid: "cf_is_valid s" using assms(2) by (auto simp: cfstr_complete_def split: if_splits)
  have step: "?s1 = cfstr_step (Op_complete ticket) s" by simp
  have valid1: "cf_is_valid (fold cfstr_step later ?s1)"
    using run_frame_valid [of later ?s1] step_frame_valid [of "Op_complete ticket" s] valid by simp
  have was: "ticket \<in> fst ` held_frames s" using complete_iff [OF inv valid] assms(2) by simp
  then have "ticket_counter ticket \<in> outstanding s" by (simp add: outstanding_def)
  then have below: "ticket_counter ticket < unat (cf_next_counter ?s1)"
    using outstanding_below [OF inv] step_held(3) [OF inv, of "Op_complete ticket"] by fastforce
  have inj: "t = ticket" if "t \<in> fst ` held_frames s" "ticket_counter t = ticket_counter ticket" for t
  proof -
    have parts: "drop_bit 48 x = (ucast (cf_domain s) :: u64)" if "x \<in> fst ` held_frames s" for x
      using that held_issued [OF inv] by (auto simp: issued_def)
    have "take_bit 48 t = take_bit 48 ticket" using that(2) by (simp add: ticket_counter_def word_unat_eq_iff)
    then have "push_bit 48 (drop_bit 48 t) + take_bit 48 t = push_bit 48 (drop_bit 48 ticket) + take_bit 48 ticket"
      using parts [OF that(1)] parts [OF was] by simp
    then show ?thesis by (simp only: bits_ident)
  qed
  have "ticket_counter ticket \<notin> outstanding ?s1"
    using complete_held [OF assms(2) inv] inj by (force simp: outstanding_def)
  then have "ticket_counter ticket \<notin> outstanding (fold cfstr_step later ?s1)"
    by (rule cfstr_ids.retired_never_live_again [OF inv1 below])
  then have "ticket \<notin> fst ` held_frames (fold cfstr_step later ?s1)" by (auto simp: outstanding_def)
  then have "fst (cfstr_complete ticket (fold cfstr_step later ?s1)) \<noteq> Ok"
    using complete_iff [OF cfstr.run_inv [OF inv1] valid1] by simp
  moreover have "fst (cfstr_complete other (fold cfstr_step later s)) \<noteq> Ok"
    if "drop_bit 48 other \<noteq> (ucast (cf_domain s) :: u64)"
    using that run_frame_valid [of later s] by (simp add: cfstr_complete_def cfstr_domain_shift_def)
  ultimately show ?thesis by simp
qed

theorem cfstr_ticket_single_use_witness:
  "let s = fst (snd (cfstr_acquire demo_key demo_store blank_raw_frame 0)); t = cfstr_make_ticket 5 1
   in fst (cfstr_complete t s) = Ok \<and>
      fst (cfstr_complete t (fold cfstr_step [Op_acquire demo_key] (snd (cfstr_complete t s)))) \<noteq> Ok"
proof -
  let ?s = "fst (snd (cfstr_acquire demo_key demo_store blank_raw_frame 0))" and ?t = "cfstr_make_ticket 5 1"
  have s: "?s = fold cfstr_step [Op_retain demo_key demo_frame, Op_acquire demo_key] (fst (cfstr_create 2 2 150 5 0))"
    by (simp add: demo_store_def)
  have ok: "fst (cfstr_complete ?t ?s) = Ok" by code_simp
  from cfstr_ticket_single_use [OF s ok, of "[Op_acquire demo_key]" 0] ok show ?thesis
    unfolding Let_def by blast
qed

end
