(* ===== verification/Usecase_Activation.thy ===== *)
theory Usecase_Activation
  imports Model_Catalog "HOL-Library.Sublist"
begin

text \<open>
  The activation of use cases: contracts/vqec_vision_usecase_activation.hpp and
  core/vqec_vision_usecase_activation.cpp (prefix \<open>ucact\<close>). Every (source, use case) pair of
  a request is resolved to an effective state, and the effective deployment keeps exactly
  the models that ready use cases need. The lemmas show that the plan is complete, that
  nothing runs without a ready use case behind it, and that restricting an admitted
  deployment to what is ready never makes it inadmissible.
\<close>

section \<open>Data\<close>

definition uca_schema_version :: u32 where "uca_schema_version = 1"
definition uca_max_usecases :: nat where "uca_max_usecases = 64"
definition uca_max_root_models :: nat where "uca_max_root_models = dpl_max_models_per_source"
definition uca_max_feature_ids :: nat where "uca_max_feature_ids = 64"
definition uca_max_identifier_bytes :: nat where
  "uca_max_identifier_bytes = dpl_max_identifier_bytes"
definition uca_max_associations :: nat where
  "uca_max_associations = dpl_max_sources * uca_max_usecases"

record usecase_catalog_entry =
  ue_usecase_id :: string
  ue_usecase_version :: string
  ue_root_model_ids :: "string list"
  ue_feature_ids :: "string list"

record usecase_catalog =
  uc_schema_version :: u32
  uc_revision :: u64
  uc_catalog_id :: string
  uc_model_catalog_ref :: string
  uc_usecases :: "usecase_catalog_entry list"

datatype usecase_effective_state =
    Use_disabled | Use_not_installed | Use_denied | Use_unsupported | Use_incompatible
  | Use_resource_limited | Use_ready

record usecase_activation_request =
  uq_source_id :: string
  uq_usecase_id :: string
  uq_desired_enabled :: bool
  uq_installed :: bool
  uq_entitlement_granted :: bool
  uq_supported :: bool
  uq_compatible :: bool
  uq_resource_admitted :: bool

record usecase_activation_record =
  ur_source_id :: string
  ur_usecase_id :: string
  ur_state :: usecase_effective_state
  ur_reason_code :: status_code
  ur_desired_enabled :: bool
  ur_installed :: bool
  ur_entitlement_granted :: bool
  ur_supported :: bool
  ur_compatible :: bool
  ur_resource_admitted :: bool

record usecase_activation_snapshot =
  us_usecase_catalog_revision :: u64
  us_model_catalog_revision :: u64
  us_deployment_revision :: u64
  us_records :: "usecase_activation_record list"

section \<open>The catalog of use cases\<close>

definition ucact_is_identifier :: "string \<Rightarrow> bool" where
  "ucact_is_identifier v = ident_is_valid v uca_max_identifier_bytes"

definition ucact_find_model :: "model_catalog \<Rightarrow> string \<Rightarrow> model_catalog_entry option" where
  "ucact_find_model models model_id = find (\<lambda>m. me_model_id m = model_id) (ct_models models)"

definition ucact_find_usecase :: "usecase_catalog \<Rightarrow> string \<Rightarrow> usecase_catalog_entry option" where
  "ucact_find_usecase usecases usecase_id =
     find (\<lambda>u. ue_usecase_id u = usecase_id) (uc_usecases usecases)"

definition ucact_find_source :: "deployment_config \<Rightarrow> string \<Rightarrow> source_deployment_config option" where
  "ucact_find_source d source_id = find (\<lambda>s. sd_source_id s = source_id) (dc_sources d)"

definition ucact_source_contains_root :: "source_deployment_config \<Rightarrow> string \<Rightarrow> bool" where
  "ucact_source_contains_root s model_id \<longleftrightarrow> model_id \<in> set (sd_model_ids s)"

definition ucact_usecase_contains_root :: "usecase_catalog_entry \<Rightarrow> string \<Rightarrow> bool" where
  "ucact_usecase_contains_root u model_id \<longleftrightarrow> model_id \<in> set (ue_root_model_ids u)"

definition ucact_resolve_state ::
    "usecase_activation_request \<Rightarrow> usecase_effective_state \<times> status_code" where
  "ucact_resolve_state r =
     (if \<not> uq_desired_enabled r then (Use_disabled, Ok)
      else if \<not> uq_installed r then (Use_not_installed, Missing_plugin)
      else if \<not> uq_entitlement_granted r then (Use_denied, Unauthorized)
      else if \<not> uq_supported r then (Use_unsupported, Unsupported)
      else if \<not> uq_compatible r then (Use_incompatible, Incompatible_plugin)
      else if \<not> uq_resource_admitted r then (Use_resource_limited, Resource_exhausted)
      else (Use_ready, Ok))"

definition ucact_check_identity ::
    "usecase_catalog_entry list \<Rightarrow> usecase_catalog_entry \<Rightarrow> status" where
  "ucact_check_identity seen u =
     (if \<not> ucact_is_identifier (ue_usecase_id u) \<or> \<not> ucact_is_identifier (ue_usecase_version u) \<or>
         ue_root_model_ids u = [] \<or> length (ue_root_model_ids u) > uca_max_root_models \<or>
         length (ue_feature_ids u) > uca_max_feature_ids then Invalid_argument
      else if \<exists>p \<in> set seen. ue_usecase_id p = ue_usecase_id u then Invalid_argument
      else Ok)"

definition ucact_check_root :: "model_catalog \<Rightarrow> string list \<Rightarrow> string \<Rightarrow> status" where
  "ucact_check_root models seen model_id =
     (case ucact_find_model models model_id of
        None \<Rightarrow> Invalid_argument
      | Some m \<Rightarrow>
          if \<not> ucact_is_identifier model_id \<or> me_role m \<noteq> Primary then Invalid_argument
          else if model_id \<in> set seen then Invalid_argument
          else Ok)"

definition ucact_check_feature :: "string list \<Rightarrow> string \<Rightarrow> status" where
  "ucact_check_feature seen feature_id =
     (if \<not> ucact_is_identifier feature_id then Invalid_argument
      else if feature_id \<in> set seen then Invalid_argument
      else Ok)"

definition ucact_check_usecase ::
    "model_catalog \<Rightarrow> usecase_catalog_entry list \<Rightarrow> usecase_catalog_entry \<Rightarrow> status" where
  "ucact_check_usecase models seen u =
     and_then (ucact_check_identity seen u)
       (and_then (validate_items (ucact_check_root models) [] (ue_root_model_ids u))
         (validate_items ucact_check_feature [] (ue_feature_ids u)))"

definition ucact_check_catalog_root :: "usecase_catalog \<Rightarrow> model_catalog \<Rightarrow> status" where
  "ucact_check_catalog_root usecases models =
     (if uc_schema_version usecases \<noteq> uca_schema_version then Unsupported
      else if uc_revision usecases = 0 \<or> \<not> ucact_is_identifier (uc_catalog_id usecases) \<or>
          uc_model_catalog_ref usecases \<noteq> ct_catalog_id models \<or>
          uc_usecases usecases = [] \<or> length (uc_usecases usecases) > uca_max_usecases
        then Invalid_argument
      else Ok)"

definition ucact_validate_catalog :: "usecase_catalog \<Rightarrow> model_catalog \<Rightarrow> status" where
  "ucact_validate_catalog usecases models =
     and_then (fst (mdcat_validate_catalog models 0))
       (and_then (ucact_check_catalog_root usecases models)
         (validate_items (ucact_check_usecase models) [] (uc_usecases usecases)))"

section \<open>The plan\<close>

definition ucact_record ::
    "source_deployment_config \<Rightarrow> usecase_catalog_entry \<Rightarrow> usecase_activation_request \<Rightarrow>
       usecase_activation_record" where
  "ucact_record source usecase r =
     (let (state, reason) = ucact_resolve_state r;
          missing = state = Use_ready \<and>
            \<not> list_all (ucact_source_contains_root source) (ue_root_model_ids usecase)
      in \<lparr>ur_source_id = uq_source_id r, ur_usecase_id = uq_usecase_id r,
          ur_state = (if missing then Use_incompatible else state),
          ur_reason_code = (if missing then Incompatible_plugin else reason),
          ur_desired_enabled = uq_desired_enabled r, ur_installed = uq_installed r,
          ur_entitlement_granted = uq_entitlement_granted r, ur_supported = uq_supported r,
          ur_compatible = uq_compatible r, ur_resource_admitted = uq_resource_admitted r\<rparr>)"

text \<open>The request loop; \<open>None\<close> is the \<open>invalid_argument\<close> return.\<close>

fun ucact_records_from ::
    "deployment_config \<Rightarrow> usecase_catalog \<Rightarrow> usecase_activation_request list \<Rightarrow>
       usecase_activation_request list \<Rightarrow> usecase_activation_record list option" where
  "ucact_records_from base usecases seen [] = Some []"
| "ucact_records_from base usecases seen (r # rest) =
     (case (ucact_find_source base (uq_source_id r), ucact_find_usecase usecases (uq_usecase_id r)) of
        (Some source, Some usecase) \<Rightarrow>
          if \<exists>p \<in> set seen. uq_source_id p = uq_source_id r \<and> uq_usecase_id p = uq_usecase_id r
          then None
          else map_option (Cons (ucact_record source usecase r))
            (ucact_records_from base usecases (seen @ [r]) rest)
      | _ \<Rightarrow> None)"

text \<open>Whether a ready use case of the source needs the model; requests and records correspond.\<close>

definition ucact_is_required ::
    "usecase_catalog \<Rightarrow> (usecase_activation_request \<times> usecase_activation_record) list \<Rightarrow>
       string \<Rightarrow> string \<Rightarrow> bool" where
  "ucact_is_required usecases plan source_id model_id \<longleftrightarrow>
     (\<exists>(r, rec) \<in> set plan. uq_source_id r = source_id \<and> ur_state rec = Use_ready \<and>
        (case ucact_find_usecase usecases (uq_usecase_id r) of
           None \<Rightarrow> False
         | Some u \<Rightarrow> ucact_usecase_contains_root u model_id))"

definition ucact_no_cascade :: source_cascade_config where
  "ucact_no_cascade = \<lparr>cc_frames = 0, cc_tasks_per_frame = 0, cc_max_bytes = 0\<rparr>"

definition ucact_effective_source ::
    "model_catalog \<Rightarrow> usecase_catalog \<Rightarrow>
       (usecase_activation_request \<times> usecase_activation_record) list \<Rightarrow>
       source_deployment_config \<Rightarrow> source_deployment_config" where
  "ucact_effective_source models usecases plan base =
     (let kept = base\<lparr>sd_model_ids :=
            filter (ucact_is_required usecases plan (sd_source_id base)) (sd_model_ids base)\<rparr>;
          secondary = \<exists>m \<in> set (ct_models models).
            me_role m = Secondary \<and> mdcat_source_activates_model kept m
      in if secondary then kept else kept\<lparr>sd_cascade := ucact_no_cascade\<rparr>)"

definition ucact_effective_deployment ::
    "model_catalog \<Rightarrow> usecase_catalog \<Rightarrow>
       (usecase_activation_request \<times> usecase_activation_record) list \<Rightarrow>
       deployment_config \<Rightarrow> deployment_config" where
  "ucact_effective_deployment models usecases plan base =
     base\<lparr>dc_sources := filter (\<lambda>s. sd_model_ids s \<noteq> [])
       (map (ucact_effective_source models usecases plan) (dc_sources base))\<rparr>"

definition ucact_compose_effective_deployment ::
    "deployment_config \<Rightarrow> model_catalog \<Rightarrow> usecase_catalog \<Rightarrow> usecase_activation_request list \<Rightarrow>
       usecase_activation_snapshot \<Rightarrow> deployment_config \<Rightarrow>
       status \<times> usecase_activation_snapshot \<times> deployment_config" where
  "ucact_compose_effective_deployment base models usecases requests snapshot effective =
     (let valid_deployment = fst (dpval_validate_deployment base 0);
          valid_catalog = ucact_validate_catalog usecases models
      in if valid_deployment \<noteq> Ok then (valid_deployment, snapshot, effective)
         else if valid_catalog \<noteq> Ok then (valid_catalog, snapshot, effective)
         else if dc_model_catalog_ref base \<noteq> ct_catalog_id models
           then (Invalid_argument, snapshot, effective)
         else if length requests \<noteq> length (dc_sources base) * length (uc_usecases usecases) \<or>
             length requests > uca_max_associations then (Invalid_argument, snapshot, effective)
         else
           (case ucact_records_from base usecases [] requests of
              None \<Rightarrow> (Invalid_argument, snapshot, effective)
            | Some records \<Rightarrow>
               (let candidate = ucact_effective_deployment models usecases (zip requests records) base;
                    valid_effective = fst (dpval_validate_deployment candidate 0);
                    valid_models = fst (mdcat_validate_deployment_models candidate models 0)
                in if dc_sources candidate \<noteq> [] \<and> valid_effective \<noteq> Ok
                     then (valid_effective, snapshot, effective)
                   else if dc_sources candidate \<noteq> [] \<and> valid_models \<noteq> Ok
                     then (valid_models, snapshot, effective)
                   else (Ok, \<lparr>us_usecase_catalog_revision = uc_revision usecases,
                         us_model_catalog_revision = ct_revision models,
                         us_deployment_revision = dc_revision base,
                         us_records = records\<rparr>, candidate))))"

section \<open>The request loop\<close>

definition uq_key :: "usecase_activation_request \<Rightarrow> string \<times> string" where
  "uq_key r = (uq_source_id r, uq_usecase_id r)"

text \<open>The requests are accepted exactly when all name known entries and no pair repeats.\<close>

definition plan_wf :: "deployment_config \<Rightarrow> usecase_catalog \<Rightarrow> usecase_activation_request list \<Rightarrow> bool"
  where "plan_wf base usecases rs \<longleftrightarrow> distinct (map uq_key rs) \<and>
    list_all (\<lambda>r. ucact_find_source base (uq_source_id r) \<noteq> None \<and>
      ucact_find_usecase usecases (uq_usecase_id r) \<noteq> None) rs"

definition resolved ::
    "deployment_config \<Rightarrow> usecase_catalog \<Rightarrow> usecase_activation_request \<Rightarrow> usecase_activation_record"
  where "resolved base usecases r = ucact_record (the (ucact_find_source base (uq_source_id r)))
     (the (ucact_find_usecase usecases (uq_usecase_id r))) r"

lemma ucact_records_from_eq:
  "ucact_records_from base usecases seen rs =
     (if plan_wf base usecases rs \<and> set (map uq_key seen) \<inter> set (map uq_key rs) = {}
      then Some (map (resolved base usecases) rs) else None)"
proof (induction rs arbitrary: seen)
  case Nil
  show ?case by (simp add: plan_wf_def)
next
  case (Cons r rs)
  have dup: "(\<exists>p \<in> set seen. uq_source_id p = uq_source_id r \<and> uq_usecase_id p = uq_usecase_id r) \<longleftrightarrow>
      uq_key r \<in> set (map uq_key seen)"
    by (auto simp: image_iff uq_key_def intro: sym)
  show ?case
    unfolding ucact_records_from.simps dup Cons.IH
    by (auto simp: plan_wf_def resolved_def split: option.splits)
qed

text \<open>A complete plan: as many different pairs as there are, so every pair is named.\<close>

lemma plan_complete:
  assumes wf: "plan_wf base usecases rs"
    and len: "length rs = length (dc_sources base) * length (uc_usecases usecases)"
    and s: "s \<in> set (dc_sources base)" and u: "u \<in> set (uc_usecases usecases)"
  obtains r where "r \<in> set rs" "uq_key r = (sd_source_id s, ue_usecase_id u)"
proof -
  let ?S = "sd_source_id ` set (dc_sources base)" and ?U = "ue_usecase_id ` set (uc_usecases usecases)"
  have sub: "uq_key ` set rs \<subseteq> ?S \<times> ?U"
  proof
    fix k assume "k \<in> uq_key ` set rs"
    then obtain r where r: "r \<in> set rs" "k = uq_key r" by blast
    obtain s' u' where "ucact_find_source base (uq_source_id r) = Some s'"
        "ucact_find_usecase usecases (uq_usecase_id r) = Some u'"
      using wf r(1) by (auto simp: plan_wf_def list_all_iff)
    then have "s' \<in> set (dc_sources base)" "sd_source_id s' = uq_source_id r"
        "u' \<in> set (uc_usecases usecases)" "ue_usecase_id u' = uq_usecase_id r"
      by (auto simp: ucact_find_source_def ucact_find_usecase_def dest!: find_SomeD)
    then show "k \<in> ?S \<times> ?U" unfolding r(2) uq_key_def by (metis SigmaI image_eqI)
  qed
  have "card (?S \<times> ?U) \<le> length (dc_sources base) * length (uc_usecases usecases)"
    unfolding card_cartesian_product
    using card_length [of "map sd_source_id (dc_sources base)"]
      card_length [of "map ue_usecase_id (uc_usecases usecases)"] by (simp add: mult_le_mono)
  also have "\<dots> = card (uq_key ` set rs)"
    using wf len distinct_card [of "map uq_key rs"] by (simp add: plan_wf_def)
  finally have "uq_key ` set rs = ?S \<times> ?U"
    by (intro card_seteq sub) simp_all
  then have "(sd_source_id s, ue_usecase_id u) \<in> uq_key ` set rs" using s u by blast
  then show ?thesis using that by auto
qed

section \<open>What a record says\<close>

definition all_granted :: "usecase_activation_request \<Rightarrow> bool" where
  "all_granted r \<longleftrightarrow> uq_desired_enabled r \<and> uq_installed r \<and> uq_entitlement_granted r \<and>
     uq_supported r \<and> uq_compatible r \<and> uq_resource_admitted r"

lemma resolve_state_ready: "fst (ucact_resolve_state r) = Use_ready \<longleftrightarrow> all_granted r"
  by (simp add: ucact_resolve_state_def all_granted_def)

lemma record_ready:
  "ur_state (ucact_record s u r) = Use_ready \<longleftrightarrow>
     all_granted r \<and> set (ue_root_model_ids u) \<subseteq> set (sd_model_ids s)"
  by (auto simp: ucact_record_def Let_def list_all_iff ucact_source_contains_root_def
      resolve_state_ready [symmetric] split: prod.splits)

lemma record_key [simp]:
  "ur_source_id (ucact_record s u r) = uq_source_id r"
  "ur_usecase_id (ucact_record s u r) = uq_usecase_id r"
  by (simp_all add: ucact_record_def Let_def split: prod.splits)

lemma resolved_key [simp]:
  "ur_source_id (resolved base usecases r) = uq_source_id r"
  "ur_usecase_id (resolved base usecases r) = uq_usecase_id r"
  by (simp_all add: resolved_def)

lemma record_reason:
  "ur_reason_code (ucact_record s u r) = Ok \<longleftrightarrow>
     ur_state (ucact_record s u r) = Use_ready \<or> \<not> uq_desired_enabled r"
  by (auto simp: ucact_record_def ucact_resolve_state_def Let_def)

lemma catalog_usecases_distinct:
  assumes "ucact_validate_catalog usecases models = Ok"
  shows "distinct (map ue_usecase_id (uc_usecases usecases))"
proof -
  have "validate_items (ucact_check_usecase models) [] (uc_usecases usecases) = Ok"
    using assms by (simp add: ucact_validate_catalog_def)
  then have "ucact_check_identity (take i (uc_usecases usecases)) (uc_usecases usecases ! i) = Ok"
    if "i < length (uc_usecases usecases)" for i
    using that by (simp add: validate_items_Ok ucact_check_usecase_def)
  moreover have "\<forall>y \<in> set seen. ue_usecase_id y \<noteq> ue_usecase_id u"
    if "ucact_check_identity seen u = Ok" for seen u
    using that by (auto simp: ucact_check_identity_def split: if_splits)
  ultimately show ?thesis unfolding no_earlier_key_distinct [symmetric] by blast
qed

section \<open>The effective deployment\<close>

definition plan_of ::
    "deployment_config \<Rightarrow> usecase_catalog \<Rightarrow> usecase_activation_request list \<Rightarrow>
       (usecase_activation_request \<times> usecase_activation_record) list" where
  "plan_of base usecases rs = zip rs (map (resolved base usecases) rs)"

lemma set_plan_of: "set (plan_of base usecases rs) = (\<lambda>r. (r, resolved base usecases r)) ` set rs"
  by (simp add: plan_of_def zip_map2 zip_same_conv_map)

lemma compose_Ok:
  assumes "ucact_compose_effective_deployment base models usecases rs snap0 eff0 = (Ok, snap, eff)"
  shows "fst (dpval_validate_deployment base 0) = Ok" "ucact_validate_catalog usecases models = Ok"
    "plan_wf base usecases rs" "length rs = length (dc_sources base) * length (uc_usecases usecases)"
    "us_records snap = map (resolved base usecases) rs"
    "eff = ucact_effective_deployment models usecases (plan_of base usecases rs) base"
  using assms
  by (auto simp: ucact_compose_effective_deployment_def Let_def ucact_records_from_eq plan_of_def
      split: if_splits option.splits)

lemma compose_admitted:
  assumes "ucact_compose_effective_deployment base models usecases rs snap0 eff0 = (Ok, snap, eff)"
    and "dc_sources eff \<noteq> []"
  shows "fst (mdcat_validate_deployment_models eff models 0) = Ok"
  using assms
  by (auto simp: ucact_compose_effective_deployment_def Let_def split: if_splits option.splits)

lemma required_iff:
  assumes "ucact_validate_catalog usecases models = Ok"
  shows "ucact_is_required usecases (plan_of base usecases rs) s k \<longleftrightarrow>
    (\<exists>r \<in> set rs. uq_source_id r = s \<and> ur_state (resolved base usecases r) = Use_ready \<and>
      (\<exists>u \<in> set (uc_usecases usecases). ue_usecase_id u = uq_usecase_id r \<and>
        k \<in> set (ue_root_model_ids u)))"
proof -
  note dist = catalog_usecases_distinct [OF assms]
  have found: "(case ucact_find_usecase usecases key of None \<Rightarrow> False
        | Some u \<Rightarrow> ucact_usecase_contains_root u k) \<longleftrightarrow>
      (\<exists>u \<in> set (uc_usecases usecases). ue_usecase_id u = key \<and> k \<in> set (ue_root_model_ids u))"
    for key
  proof (cases "ucact_find_usecase usecases key")
    case None
    then have "\<not> (\<exists>u. u \<in> set (uc_usecases usecases) \<and> ue_usecase_id u = key)"
      by (simp add: ucact_find_usecase_def find_None_iff)
    with None show ?thesis by auto
  next
    case (Some u)
    then have u: "u \<in> set (uc_usecases usecases)" "ue_usecase_id u = key"
      using find_SomeD by (fastforce simp: ucact_find_usecase_def)+
    have uniq: "v = u" if "v \<in> set (uc_usecases usecases)" "ue_usecase_id v = key" for v
      using find_unique [OF dist that(1)] find_unique [OF dist u(1)] u(2) that(2) by simp
    show ?thesis
      unfolding Some option.case ucact_usecase_contains_root_def using u uniq by blast
  qed
  show ?thesis
    unfolding ucact_is_required_def set_plan_of bex_simps prod.case found ..
qed

lemma effective_source_simps [simp]:
  "sd_source_id (ucact_effective_source models usecases plan b) = sd_source_id b"
  "sd_raw_source_ref (ucact_effective_source models usecases plan b) = sd_raw_source_ref b"
  "sd_camera_id (ucact_effective_source models usecases plan b) = sd_camera_id b"
  "sd_channel_id (ucact_effective_source models usecases plan b) = sd_channel_id b"
  "sd_preview_output_ref (ucact_effective_source models usecases plan b) = sd_preview_output_ref b"
  "sd_profile (ucact_effective_source models usecases plan b) = sd_profile b"
  "sd_memory (ucact_effective_source models usecases plan b) = sd_memory b"
  "sd_model_ids (ucact_effective_source models usecases plan b) =
     filter (ucact_is_required usecases plan (sd_source_id b)) (sd_model_ids b)"
  by (simp_all add: ucact_effective_source_def Let_def)

lemma effective_runs:
  "(\<exists>e \<in> set (dc_sources (ucact_effective_deployment models usecases plan base)).
      sd_source_id e = s \<and> k \<in> set (sd_model_ids e)) \<longleftrightarrow>
   (\<exists>b \<in> set (dc_sources base). sd_source_id b = s \<and> k \<in> set (sd_model_ids b)) \<and>
   ucact_is_required usecases plan s k"
  by (auto simp: ucact_effective_deployment_def filter_empty_conv)

text \<open>A ready use case finds all its root models on its source.\<close>

lemma ready_roots_present:
  assumes wf: "plan_wf base usecases rs" and cat: "ucact_validate_catalog usecases models = Ok"
    and r: "r \<in> set rs" "ur_state (resolved base usecases r) = Use_ready"
    and u: "u \<in> set (uc_usecases usecases)" "ue_usecase_id u = uq_usecase_id r"
  obtains b where "b \<in> set (dc_sources base)" "sd_source_id b = uq_source_id r"
    "set (ue_root_model_ids u) \<subseteq> set (sd_model_ids b)"
proof -
  obtain b where b: "ucact_find_source base (uq_source_id r) = Some b"
    using wf r(1) by (auto simp: plan_wf_def list_all_iff)
  have "ucact_find_usecase usecases (uq_usecase_id r) = Some u"
    using find_unique [OF catalog_usecases_distinct [OF cat] u(1)] u(2)
    by (simp add: ucact_find_usecase_def)
  with b r(2) have "set (ue_root_model_ids u) \<subseteq> set (sd_model_ids b)"
    by (simp add: resolved_def record_ready)
  moreover have "b \<in> set (dc_sources base)" "sd_source_id b = uq_source_id r"
    using find_SomeD [OF b [unfolded ucact_find_source_def]] by auto
  ultimately show ?thesis using that by blast
qed

section \<open>Restricting an admitted deployment\<close>

lemma sources_distinct_filter: "sources_distinct ss \<Longrightarrow> sources_distinct (filter P ss)"
proof -
  have "distinct (filter (\<lambda>k. k \<noteq> []) (map f xs)) \<Longrightarrow>
      distinct (filter (\<lambda>k. k \<noteq> []) (map f (filter P xs)))" for f :: "'a \<Rightarrow> 'b list" and P xs
    by (induction xs) (auto split: if_splits)
  then show "sources_distinct ss \<Longrightarrow> sources_distinct (filter P ss)"
    unfolding sources_distinct_def by (blast intro: distinct_map_filter)
qed

lemma sources_distinct_effective:
  "sources_distinct ss \<Longrightarrow>
     sources_distinct (map (ucact_effective_source models usecases plan) ss)"
  by (simp add: sources_distinct_def comp_def)

lemma effective_source_cascade:
  "sd_cascade (ucact_effective_source models usecases plan b) \<in> {sd_cascade b, ucact_no_cascade}"
  by (simp add: ucact_effective_source_def Let_def)

lemma effective_source_wf:
  assumes wf: "source_wf b" and some: "sd_model_ids (ucact_effective_source models usecases plan b) \<noteq> []"
  shows "source_wf (ucact_effective_source models usecases plan b)"
proof -
  let ?e = "ucact_effective_source models usecases plan b"
  have len: "length (sd_model_ids ?e) \<le> length (sd_model_ids b)" by simp
  have "dpval_check_profile ?e = Ok"
    using wf some len unfolding source_wf_def dpval_check_profile_def Let_def
    by (auto simp del: effective_source_simps(8) simp add: effective_source_simps(1-7)
        split: if_splits)
  moreover have "dpval_check_preview ?e = Ok"
    using wf by (auto simp: source_wf_def dpval_check_preview_def Let_def dpval_packed_bytes_def
        split: if_splits)
  moreover have "dpval_check_cascade ?e = Ok"
    using wf effective_source_cascade [of models usecases plan b]
    by (auto simp: source_wf_def dpval_check_cascade_def ucact_no_cascade_def)
  ultimately show ?thesis using wf by (auto simp: source_wf_def list_all_iff)
qed

lemma effective_source_bytes:
  "source_bytes (ucact_effective_source models usecases plan b) \<le> source_bytes b"
  using effective_source_cascade [of models usecases plan b]
  by (auto simp: source_bytes_def dpval_packed_bytes_def ucact_no_cascade_def)

lemma sum_list_filter_le: "sum_list (map f (filter P xs)) \<le> (sum_list (map f xs) :: nat)"
  by (induction xs) auto

lemma effective_deployment_valid:
  assumes ok: "fst (dpval_validate_deployment base 0) = Ok"
    and some: "dc_sources (ucact_effective_deployment models usecases plan base) \<noteq> []"
  shows "fst (dpval_validate_deployment (ucact_effective_deployment models usecases plan base) 0) = Ok"
proof -
  let ?eff = "ucact_effective_deployment models usecases plan base"
  let ?es = "map (ucact_effective_source models usecases plan) (dc_sources base)"
  note base = ok [unfolded validate_deployment_iff]
  have srcs: "dc_sources ?eff = filter (\<lambda>s. sd_model_ids s \<noteq> []) ?es"
    by (simp add: ucact_effective_deployment_def)
  have "length (dc_sources ?eff) \<le> length (dc_sources base)"
    unfolding srcs using length_filter_le [of _ ?es] by simp
  moreover have same: "dc_schema_version ?eff = dc_schema_version base"
    "dc_revision ?eff = dc_revision base" "dc_model_catalog_ref ?eff = dc_model_catalog_ref base"
    "dc_max_total_resident_bytes ?eff = dc_max_total_resident_bytes base"
    "dc_max_model_resident_bytes ?eff = dc_max_model_resident_bytes base"
    by (simp_all add: ucact_effective_deployment_def)
  ultimately have root: "dpval_check_root ?eff = Ok"
    using base some unfolding dpval_check_root_def same by (auto split: if_splits)
  have wf: "list_all source_wf (dc_sources ?eff)"
    unfolding srcs using base effective_source_wf by (fastforce simp: list_all_iff)
  have "sum_list (map source_bytes ?es) \<le> sum_list (map source_bytes (dc_sources base))"
    unfolding map_map comp_def by (rule sum_list_mono) (rule effective_source_bytes)
  then have "declared_bytes ?eff \<le> declared_bytes base"
    using sum_list_filter_le [of source_bytes _ ?es] unfolding declared_bytes_def srcs same
    by (meson add_left_mono le_trans)
  then show ?thesis
    using base root wf sources_distinct_filter [OF sources_distinct_effective]
    unfolding validate_deployment_iff same srcs by (meson le_trans)
qed

lemma effective_source_activates:
  "mdcat_source_activates_model (ucact_effective_source models usecases plan b) m \<Longrightarrow>
     mdcat_source_activates_model b m"
  by (auto simp: mdcat_source_activates_model_def mdcat_source_assigns_model_def list_all_iff
      split: if_splits)

lemma effective_demands:
  "demands_at_most (filter P (map (ucact_effective_source models usecases plan) ss)) ss m"
proof -
  have "active_sources (filter P (map (ucact_effective_source models usecases plan) ss)) m
      \<le> active_sources ss m"
    by (induction ss) (auto simp: active_sources_def dest: effective_source_activates)
  then show ?thesis by (auto simp: demands_at_most_def)
qed

lemma effective_source_checked:
  assumes "mdcat_check_source models b = Ok"
  shows "mdcat_check_source models (ucact_effective_source models usecases plan b) = Ok"
proof -
  let ?e = "ucact_effective_source models usecases plan b"
  obtain t where t: "mdcat_tensors_from b 0 (ct_models models) = (Ok, t)"
      "\<not> t > sm_max_tensor_bytes (sd_memory b)"
    and known: "list_all (\<lambda>id. mdcat_find_model models id \<noteq> None) (sd_model_ids b)"
    using assms by (auto simp: mdcat_check_source_def split: if_splits prod.splits)
  have "\<exists>t'. mdcat_tensors_from ?e 0 (ct_models models) = (Ok, t') \<and> unat t' \<le> unat t"
    by (rule mdcat_tensors_from_mono [OF effective_source_activates _ t(1)])
      (simp_all add: mdcat_source_supports_model_def)
  then obtain t' where t': "mdcat_tensors_from ?e 0 (ct_models models) = (Ok, t')"
      "unat t' \<le> unat t" by blast
  have "\<not> t' > sm_max_tensor_bytes (sd_memory b)"
    using t(2) t'(2) by (simp add: word_less_nat_alt)
  with t' known show ?thesis by (auto simp: mdcat_check_source_def list_all_iff)
qed

lemma effective_deployment_admitted:
  assumes adm: "fst (mdcat_validate_deployment_models base models 0) = Ok"
    and some: "dc_sources (ucact_effective_deployment models usecases plan base) \<noteq> []"
  shows "fst (mdcat_validate_deployment_models
    (ucact_effective_deployment models usecases plan base) models 0) = Ok"
proof -
  let ?eff = "ucact_effective_deployment models usecases plan base"
  let ?es = "map (ucact_effective_source models usecases plan) (dc_sources base)"
  note o = mdcat_deployment_Ok [OF ok_pair [OF adm]]
  have refs: "dc_model_catalog_ref base = ct_catalog_id models"
    using adm by (auto simp: mdcat_validate_deployment_models_def Let_def split: if_splits)
  have srcs: "dc_sources ?eff = filter (\<lambda>s. sd_model_ids s \<noteq> []) ?es"
    by (simp add: ucact_effective_deployment_def)
  have valid: "fst (dpval_validate_deployment ?eff 0) = Ok"
    by (rule effective_deployment_valid [OF o(1) some])
  have len: "length (dc_sources base) \<le> dpl_max_sources"
    using o(1) by (auto simp: validate_deployment_iff dpval_check_root_def split: if_splits)
  moreover have "length (dc_sources ?eff) \<le> length (dc_sources base)"
    unfolding srcs using length_filter_le [of _ ?es] by simp
  ultimately have len': "length (dc_sources ?eff) \<le> dpl_max_sources" by simp
  have "list_all (demands_at_most (dc_sources ?eff) (dc_sources base)) (ct_models models)"
    unfolding srcs by (simp add: list_all_iff effective_demands)
  from mdcat_resident_from_mono [OF len len' o(3) order_refl this] obtain r where
    r: "mdcat_resident_from (dc_sources ?eff) 0 (ct_models models) = (Ok, r)"
      "unat r \<le> unat (snd (mdcat_validate_deployment_models base models 0))" by blast
  have "mdcat_check_source models s = Ok" if "s \<in> set (dc_sources base)" for s
    using o(4) that by (auto simp: validate_items_Ok in_set_conv_nth)
  then have "mdcat_check_source models s = Ok" if "s \<in> set (dc_sources ?eff)" for s
    using that effective_source_checked unfolding srcs by auto
  then have checks: "validate_items (\<lambda>_. mdcat_check_source models) [] (dc_sources ?eff) = Ok"
    by (simp add: validate_items_Ok)
  have "\<not> r > dc_max_model_resident_bytes ?eff"
    using r(2) o(5) by (simp add: ucact_effective_deployment_def word_le_nat_alt not_less)
  then show ?thesis
    using valid o(2) refs r(1) checks
    by (simp add: mdcat_validate_deployment_models_def Let_def prod_eq_iff
        ucact_effective_deployment_def)
qed

section \<open>Properties\<close>

text \<open>
  An accepted plan is a complete snapshot: for every source and every use case there is
  exactly one request, its record repeats what was asked, and the use case is ready exactly
  when it is wanted, installed, entitled, supported, compatible and admitted and all its
  root models are on the source; a record that is not ready carries a reason unless the use
  case was not wanted.
\<close>

lemma ucact_snapshot_complete:
  assumes "ucact_compose_effective_deployment base models usecases rs snap0 eff0 = (Ok, snap, eff)"
    and "s \<in> set (dc_sources base)" and "u \<in> set (uc_usecases usecases)"
  shows "\<exists>i < length rs. \<exists>rec. us_records snap ! i = rec \<and> length (us_records snap) = length rs \<and>
    (\<forall>j < length rs. (uq_source_id (rs ! j) = sd_source_id s \<and> uq_usecase_id (rs ! j) = ue_usecase_id u)
       = (j = i)) \<and>
    ur_source_id rec = sd_source_id s \<and> ur_usecase_id rec = ue_usecase_id u \<and>
    (ur_state rec = Use_ready) = (all_granted (rs ! i) \<and>
       set (ue_root_model_ids u) \<subseteq> set (sd_model_ids s)) \<and>
    (ur_reason_code rec = Ok) = (ur_state rec = Use_ready \<or> \<not> uq_desired_enabled (rs ! i))"
proof -
  note ok = compose_Ok [OF assms(1)]
  obtain r where r: "r \<in> set rs" "uq_key r = (sd_source_id s, ue_usecase_id u)"
    by (rule plan_complete [OF ok(3,4) assms(2,3)])
  then obtain i where i: "i < length rs" "rs ! i = r" by (auto simp: in_set_conv_nth)
  have inj: "uq_key (rs ! j) = uq_key r \<Longrightarrow> j < length rs \<Longrightarrow> j = i" for j
    using ok(3) i by (auto simp: plan_wf_def distinct_conv_nth)
  have "distinct (map sd_source_id (dc_sources base))"
    using deployment_sources(2) [OF ok(1)] by (simp add: sources_distinct_def)
  from find_unique [OF this assms(2)]
  have s: "ucact_find_source base (uq_source_id r) = Some s"
    using r(2) by (simp add: ucact_find_source_def uq_key_def)
  have u: "ucact_find_usecase usecases (uq_usecase_id r) = Some u"
    using find_unique [OF catalog_usecases_distinct [OF ok(2)] assms(3)] r(2)
    by (simp add: ucact_find_usecase_def uq_key_def)
  have "us_records snap ! i = ucact_record s u r"
    using ok(5) i s u by (simp add: resolved_def)
  moreover have "length (us_records snap) = length rs" by (simp add: ok(5))
  ultimately show ?thesis
    using i r(2) inj by (intro exI [of _ i] conjI exI [of _ "ucact_record s u r"])
      (auto simp: record_ready record_reason uq_key_def)
qed

text \<open>
  C16. Nothing runs without a ready use case behind it and everything a ready use case needs
  runs: the effective deployment has model \<open>k\<close> on source \<open>s\<close> exactly when some ready record of
  \<open>s\<close> belongs to a use case with root \<open>k\<close>. Sources that run nothing are gone, the others keep
  their order, profile and memory.
\<close>

theorem ucact_runs_exactly_ready:
  assumes "ucact_compose_effective_deployment base models usecases rs snap0 eff0 = (Ok, snap, eff)"
  shows "((\<exists>e \<in> set (dc_sources eff). sd_source_id e = s \<and> k \<in> set (sd_model_ids e)) \<longleftrightarrow>
      (\<exists>rec \<in> set (us_records snap). ur_source_id rec = s \<and> ur_state rec = Use_ready \<and>
        (\<exists>u \<in> set (uc_usecases usecases). ue_usecase_id u = ur_usecase_id rec \<and>
          k \<in> set (ue_root_model_ids u)))) \<and>
    list_all (\<lambda>e. sd_model_ids e \<noteq> []) (dc_sources eff) \<and>
    subseq (map (\<lambda>e. (sd_source_id e, sd_profile e, sd_memory e)) (dc_sources eff))
      (map (\<lambda>b. (sd_source_id b, sd_profile b, sd_memory b)) (dc_sources base))"
proof -
  note ok = compose_Ok [OF assms]
  let ?ready = "\<lambda>r. uq_source_id r = s \<and> ur_state (resolved base usecases r) = Use_ready \<and>
      (\<exists>u \<in> set (uc_usecases usecases). ue_usecase_id u = uq_usecase_id r \<and>
        k \<in> set (ue_root_model_ids u))"
  have present: "\<exists>b \<in> set (dc_sources base). sd_source_id b = s \<and> k \<in> set (sd_model_ids b)"
    if "r \<in> set rs" "?ready r" for r
    using that by (meson ready_roots_present [OF ok(3,2) that(1)] subsetD)
  have "(\<exists>e \<in> set (dc_sources eff). sd_source_id e = s \<and> k \<in> set (sd_model_ids e)) \<longleftrightarrow>
      (\<exists>r \<in> set rs. ?ready r)"
    unfolding ok(6) effective_runs required_iff [OF ok(2)] using present by blast
  moreover have "(\<exists>rec \<in> set (us_records snap). ur_source_id rec = s \<and> ur_state rec = Use_ready \<and>
        (\<exists>u \<in> set (uc_usecases usecases). ue_usecase_id u = ur_usecase_id rec \<and>
          k \<in> set (ue_root_model_ids u))) \<longleftrightarrow> (\<exists>r \<in> set rs. ?ready r)"
    unfolding ok(5) set_map bex_simps resolved_key ..
  moreover have "list_all (\<lambda>e. sd_model_ids e \<noteq> []) (dc_sources eff)"
    by (simp add: ok(6) ucact_effective_deployment_def list_all_iff)
  moreover have "subseq (map (\<lambda>e. (sd_source_id e, sd_profile e, sd_memory e)) (dc_sources eff))
      (map (\<lambda>b. (sd_source_id b, sd_profile b, sd_memory b)) (dc_sources base))"
  proof -
    let ?key = "\<lambda>e. (sd_source_id e, sd_profile e, sd_memory e)"
    let ?es = "map (ucact_effective_source models usecases (plan_of base usecases rs)) (dc_sources base)"
    have "subseq (map ?key (filter (\<lambda>s. sd_model_ids s \<noteq> []) ?es)) (map ?key ?es)"
      by (rule subseq_map) (rule subseq_filter_left)
    then show ?thesis by (simp add: ok(6) ucact_effective_deployment_def comp_def)
  qed
  ultimately show ?thesis by blast
qed

text \<open>
  Switching use cases off never breaks an admitted deployment: when the base deployment
  is admitted against the model catalog, the use case catalog is valid and the requests name
  each known pair once, composition succeeds whatever is enabled or granted, and what it
  yields (if it still runs anything) is again admitted against the catalog.
\<close>

lemma ucact_restriction_admitted:
  assumes adm: "fst (mdcat_validate_deployment_models base models 0) = Ok"
    and cat: "ucact_validate_catalog usecases models = Ok"
    and len: "length rs = length (dc_sources base) * length (uc_usecases usecases)"
    and known: "list_all (\<lambda>r. uq_source_id r \<in> sd_source_id ` set (dc_sources base) \<and>
      uq_usecase_id r \<in> ue_usecase_id ` set (uc_usecases usecases)) rs"
    and once: "distinct (map (\<lambda>r. (uq_source_id r, uq_usecase_id r)) rs)"
  shows "let (valid, snap, eff) = ucact_compose_effective_deployment base models usecases rs snap0 eff0 in
    valid = Ok \<and> us_records snap = map (resolved base usecases) rs \<and>
    (if dc_sources eff = [] then True else fst (mdcat_validate_deployment_models eff models 0) = Ok)"
proof -
  have base: "fst (dpval_validate_deployment base 0) = Ok" and ref: "dc_model_catalog_ref base = ct_catalog_id models"
    using adm by (auto simp: mdcat_validate_deployment_models_def Let_def split: if_splits)
  have "length (dc_sources base) \<le> dpl_max_sources"
    using base by (auto simp: validate_deployment_iff dpval_check_root_def split: if_splits)
  moreover have "length (uc_usecases usecases) \<le> uca_max_usecases"
    using cat by (auto simp: ucact_validate_catalog_def ucact_check_catalog_root_def split: if_splits)
  ultimately have fits: "length rs \<le> uca_max_associations"
    unfolding len uca_max_associations_def by (rule mult_le_mono)
  have wf: "plan_wf base usecases rs"
  proof -
    have found: "find (\<lambda>x. f x = k) xs \<noteq> None" if "k \<in> f ` set xs" for f :: "'a \<Rightarrow> string" and k xs
      using that by (auto simp: find_None_iff)
    show ?thesis
      using once [folded uq_key_def] known found [of "uq_source_id _" sd_source_id] found [of "uq_usecase_id _" ue_usecase_id]
      unfolding plan_wf_def list_all_iff ucact_find_source_def ucact_find_usecase_def by blast
  qed
  let ?eff = "ucact_effective_deployment models usecases (zip rs (map (resolved base usecases) rs)) base"
  have "dc_sources ?eff = [] \<or> fst (dpval_validate_deployment ?eff 0) = Ok \<and>
      fst (mdcat_validate_deployment_models ?eff models 0) = Ok"
    using effective_deployment_valid [OF base] effective_deployment_admitted [OF adm] by blast
  then show ?thesis
    using base cat ref len fits wf
    by (auto simp: ucact_compose_effective_deployment_def Let_def ucact_records_from_eq)
qed

text \<open>One camera, two use cases on its detector; the second one is not entitled.\<close>

definition demo_usecases :: usecase_catalog where
  "demo_usecases = \<lparr>uc_schema_version = 1, uc_revision = 1, uc_catalog_id = ''uses'',
     uc_model_catalog_ref = ''cat'',
     uc_usecases = [\<lparr>ue_usecase_id = ''count'', ue_usecase_version = ''1'',
         ue_root_model_ids = [''det''], ue_feature_ids = [''line'']\<rparr>,
       \<lparr>ue_usecase_id = ''guard'', ue_usecase_version = ''1'',
         ue_root_model_ids = [''det''], ue_feature_ids = []\<rparr>]\<rparr>"

definition demo_request :: "string \<Rightarrow> bool \<Rightarrow> usecase_activation_request" where
  "demo_request usecase entitled = \<lparr>uq_source_id = ''cam'', uq_usecase_id = usecase,
     uq_desired_enabled = True, uq_installed = True, uq_entitlement_granted = entitled,
     uq_supported = True, uq_compatible = True, uq_resource_admitted = True\<rparr>"

definition demo_requests :: "usecase_activation_request list" where
  "demo_requests = [demo_request ''count'' True, demo_request ''guard'' False]"

definition demo_compose ::
    "status \<times> usecase_activation_snapshot \<times> deployment_config" where
  "demo_compose = ucact_compose_effective_deployment demo_deployment demo_catalog demo_usecases
     demo_requests \<lparr>us_usecase_catalog_revision = 0, us_model_catalog_revision = 0,
       us_deployment_revision = 0, us_records = []\<rparr> demo_deployment"

lemma demo_compose_ok:
  "ucact_compose_effective_deployment demo_deployment demo_catalog demo_usecases demo_requests
     \<lparr>us_usecase_catalog_revision = 0, us_model_catalog_revision = 0,
       us_deployment_revision = 0, us_records = []\<rparr> demo_deployment =
     (Ok, fst (snd demo_compose), snd (snd demo_compose))"
proof -
  have "fst demo_compose = Ok" by code_simp
  from ok_triple [OF this] show ?thesis by (simp only: demo_compose_def)
qed

theorem ucact_snapshot_complete_witness:
  "\<exists>i < length demo_requests. uq_source_id (demo_requests ! i) = ''cam'' \<and>
     uq_usecase_id (demo_requests ! i) = ''guard''"
proof -
  have "demo_source \<in> set (dc_sources demo_deployment)" by (simp add: demo_deployment_def)
  moreover have "\<lparr>ue_usecase_id = ''guard'', ue_usecase_version = ''1'',
         ue_root_model_ids = [''det''], ue_feature_ids = []\<rparr> \<in> set (uc_usecases demo_usecases)"
    by (simp add: demo_usecases_def)
  ultimately show ?thesis
    using ucact_snapshot_complete [OF demo_compose_ok] by (fastforce simp: demo_source_def)
qed

theorem ucact_runs_exactly_ready_witness:
  "fst demo_compose = Ok \<and>
   (\<exists>e \<in> set (dc_sources (snd (snd demo_compose))). sd_source_id e = ''cam'' \<and> ''det'' \<in> set (sd_model_ids e))"
proof -
  have ready: "\<exists>rec \<in> set (us_records (fst (snd demo_compose))). ur_source_id rec = ''cam'' \<and>
      ur_state rec = Use_ready \<and> (\<exists>u \<in> set (uc_usecases demo_usecases).
        ue_usecase_id u = ur_usecase_id rec \<and> ''det'' \<in> set (ue_root_model_ids u))" by code_simp
  have ok: "fst demo_compose = Ok" by code_simp
  from ucact_runs_exactly_ready [OF demo_compose_ok, of "''cam''" "''det''"] ready ok
  show ?thesis by blast
qed

theorem ucact_restriction_admitted_witness:
  "let (valid, snap, eff) = ucact_compose_effective_deployment demo_deployment demo_catalog demo_usecases
       demo_requests (fst (snd demo_compose)) demo_deployment in
     valid = Ok \<and> us_records snap = map (resolved demo_deployment demo_usecases) demo_requests \<and>
     (if dc_sources eff = [] then True else fst (mdcat_validate_deployment_models eff demo_catalog 0) = Ok)"
proof (rule ucact_restriction_admitted)
  show "fst (mdcat_validate_deployment_models demo_deployment demo_catalog 0) = Ok" by code_simp
  show "ucact_validate_catalog demo_usecases demo_catalog = Ok" by code_simp
  show "length demo_requests = length (dc_sources demo_deployment) * length (uc_usecases demo_usecases)"
    by code_simp
  show "list_all (\<lambda>r. uq_source_id r \<in> sd_source_id ` set (dc_sources demo_deployment) \<and>
      uq_usecase_id r \<in> ue_usecase_id ` set (uc_usecases demo_usecases)) demo_requests" by code_simp
  show "distinct (map (\<lambda>r. (uq_source_id r, uq_usecase_id r)) demo_requests)" by code_simp
qed

end
