(* ===== verification/Usecase_Control.thy ===== *)
theory Usecase_Control
  imports Usecase_Activation "HOL-Library.Char_ord" "HOL-Library.List_Lexorder"
    "HOL-Library.Product_Lexorder"
begin

text \<open>
  The manager of desired plans: ports/vqec_vision_usecase_control.hpp and
  runtime/feature_manager/vqec_vision_usecase_control_manager.{hpp,cpp} (prefix \<open>ucmgr\<close>). A
  desired plan is a compare-and-swap on the control revision with a bounded memory of
  receipts; a change becomes a pending generation that the runtime owner publishes or fails.
  An allocation that can fail is a parameter of the operation.
\<close>

section \<open>Data\<close>

definition ucc_max_request_id_bytes :: nat where "ucc_max_request_id_bytes = 128"
definition ucc_max_idempotency_receipts :: nat where "ucc_max_idempotency_receipts = 64"

datatype usecase_apply_state =
  Apply_unchanged | Apply_reconciling | Apply_running | Apply_degraded | Apply_failed

datatype usecase_runtime_state =
    Run_disabled | Run_denied | Run_unsupported | Run_incompatible | Run_resource_limited
  | Run_loading | Run_running | Run_draining | Run_faulted

record usecase_desired_entry =
  ud_source_id :: string
  ud_usecase_id :: string
  ud_desired_enabled :: bool

record usecase_desired_plan =
  up_request_id :: string
  up_expected_control_revision :: u64
  up_entries :: "usecase_desired_entry list"

record usecase_apply_receipt =
  ua_accepted :: bool
  ua_control_revision :: u64
  ua_apply_state :: usecase_apply_state
  ua_reason_code :: status_code

record usecase_status_entry =
  st_source_id :: string
  st_usecase_id :: string
  st_installed :: bool
  st_entitled :: bool
  st_desired :: bool
  st_supported :: bool
  st_compatible :: bool
  st_admitted :: bool
  st_loaded :: bool
  st_running :: bool
  st_effective_state :: usecase_runtime_state
  st_reason :: string

record usecase_control_status =
  ss_control_revision :: u64
  ss_entitlement_revision :: u64
  ss_runtime_generation :: u64
  ss_entries :: "usecase_status_entry list"

record usecase_capability_snapshot =
  cs_catalog_revision :: u64
  cs_usecases :: "(string \<times> string) list"

text \<open>From runtime/feature_manager/vqec_vision_usecase_config.hpp.\<close>

record usecase_control_snapshot =
  uk_control_revision :: u64
  uk_entitlement_revision :: u64
  uk_deployment_revision :: u64
  uk_catalog :: usecase_catalog
  uk_requests :: "usecase_activation_request list"

record receipt_record =
  rr_request_id :: string
  rr_expected_control_revision :: u64
  rr_entries :: "usecase_desired_entry list"
  rr_receipt :: usecase_apply_receipt

record usecase_control_manager =
  um_control :: usecase_control_snapshot
  um_base_deployment :: deployment_config
  um_models :: model_catalog
  um_activation :: usecase_activation_snapshot
  um_active_deployment :: deployment_config
  um_pending_control :: usecase_control_snapshot
  um_pending_activation :: usecase_activation_snapshot
  um_pending_deployment :: deployment_config
  um_receipts :: "receipt_record list"
  um_runtime_generation :: u64
  um_pending_failure :: status_code
  um_configured :: bool
  um_has_pending :: bool

text \<open>The values \<open>{}\<close> of the members; a moved-from container is left empty.\<close>

definition blank_control :: usecase_control_snapshot where
  "blank_control = \<lparr>uk_control_revision = 0, uk_entitlement_revision = 0, uk_deployment_revision = 0,
     uk_catalog = \<lparr>uc_schema_version = 0, uc_revision = 0, uc_catalog_id = [],
       uc_model_catalog_ref = [], uc_usecases = []\<rparr>, uk_requests = []\<rparr>"

definition blank_activation :: usecase_activation_snapshot where
  "blank_activation = \<lparr>us_usecase_catalog_revision = 0, us_model_catalog_revision = 0,
     us_deployment_revision = 0, us_records = []\<rparr>"

definition blank_deployment :: deployment_config where
  "blank_deployment = \<lparr>dc_schema_version = 0, dc_revision = 0, dc_model_catalog_ref = [],
     dc_max_total_resident_bytes = 0, dc_max_model_resident_bytes = 0, dc_sources = []\<rparr>"

definition blank_receipt :: usecase_apply_receipt where
  "blank_receipt = \<lparr>ua_accepted = False, ua_control_revision = 0, ua_apply_state = Apply_failed,
     ua_reason_code = Ok\<rparr>"

definition ucmgr_initial :: usecase_control_manager where
  "ucmgr_initial = \<lparr>um_control = blank_control, um_base_deployment = blank_deployment,
     um_models = \<lparr>ct_schema_version = 0, ct_revision = 0, ct_catalog_id = [], ct_models = []\<rparr>,
     um_activation = blank_activation, um_active_deployment = blank_deployment,
     um_pending_control = blank_control, um_pending_activation = blank_activation,
     um_pending_deployment = blank_deployment, um_receipts = [], um_runtime_generation = 0,
     um_pending_failure = Ok, um_configured = False, um_has_pending = False\<rparr>"

section \<open>Helpers\<close>

definition ucmgr_entry_less :: "usecase_desired_entry \<Rightarrow> usecase_desired_entry \<Rightarrow> bool" where
  "ucmgr_entry_less l r \<longleftrightarrow>
     (ud_source_id l, ud_usecase_id l) < (ud_source_id r, ud_usecase_id r)"

text \<open>
  \<open>std::sort\<close> by that order. Entries of equal key may end in any order, but a plan with two
  of them is rejected by the next loop whatever the order.
\<close>

definition ucmgr_sort :: "usecase_desired_entry list \<Rightarrow> usecase_desired_entry list" where
  "ucmgr_sort entries = sort_key (\<lambda>e. (ud_source_id e, ud_usecase_id e)) entries"

definition ucmgr_entries_equal ::
    "usecase_desired_entry list \<Rightarrow> usecase_desired_entry list \<Rightarrow> bool" where
  "ucmgr_entries_equal left right \<longleftrightarrow> length left = length right \<and>
     list_all (\<lambda>(l, r). ud_source_id l = ud_source_id r \<and> ud_usecase_id l = ud_usecase_id r \<and>
       ud_desired_enabled l = ud_desired_enabled r) (zip left right)"

definition ucmgr_find_record ::
    "usecase_activation_snapshot \<Rightarrow> string \<Rightarrow> string \<Rightarrow> usecase_activation_record option" where
  "ucmgr_find_record snapshot source_id usecase_id =
     find (\<lambda>r. ur_source_id r = source_id \<and> ur_usecase_id r = usecase_id) (us_records snapshot)"

definition ucmgr_runtime_state ::
    "usecase_effective_state \<Rightarrow> bool \<Rightarrow> bool \<Rightarrow> usecase_runtime_state" where
  "ucmgr_runtime_state state pending failed =
     (if failed \<and> state = Use_ready then Run_faulted
      else (case state of
          Use_disabled \<Rightarrow> Run_disabled
        | Use_not_installed \<Rightarrow> Run_unsupported
        | Use_denied \<Rightarrow> Run_denied
        | Use_unsupported \<Rightarrow> Run_unsupported
        | Use_incompatible \<Rightarrow> Run_incompatible
        | Use_resource_limited \<Rightarrow> Run_resource_limited
        | Use_ready \<Rightarrow> if pending then Run_loading else Run_running))"

definition ucmgr_reason :: "usecase_effective_state \<Rightarrow> bool \<Rightarrow> bool \<Rightarrow> string" where
  "ucmgr_reason state pending failed =
     (if failed \<and> state = Use_ready then ''runtime_reconcile_failed''
      else if pending \<and> state = Use_ready then ''runtime_reconciling''
      else (case state of
          Use_disabled \<Rightarrow> ''desired_disabled''
        | Use_not_installed \<Rightarrow> ''not_installed''
        | Use_denied \<Rightarrow> ''entitlement_denied''
        | Use_unsupported \<Rightarrow> ''unsupported''
        | Use_incompatible \<Rightarrow> ''incompatible''
        | Use_resource_limited \<Rightarrow> ''resource_limited''
        | Use_ready \<Rightarrow> ''running''))"

section \<open>Operations\<close>

text \<open>
  \<open>leftover\<close> is what a failed assignment left in the members before the exception; \<open>None\<close>
  when every allocation succeeds.
\<close>

definition ucmgr_configure ::
    "(usecase_control_snapshot \<times> deployment_config \<times> model_catalog \<times>
        usecase_activation_snapshot \<times> deployment_config) option \<Rightarrow>
       usecase_control_snapshot \<Rightarrow> deployment_config \<Rightarrow> model_catalog \<Rightarrow>
       usecase_control_manager \<Rightarrow> status \<times> usecase_control_manager" where
  "ucmgr_configure leftover trusted base models m =
     (if um_configured m then (Invalid_state, m)
      else if uk_control_revision trusted = 0 \<or> uk_entitlement_revision trusted = 0 \<or>
          uk_deployment_revision trusted \<noteq> dc_revision base then (Invalid_argument, m)
      else
        (case ucact_compose_effective_deployment base models (uk_catalog trusted)
                (uk_requests trusted) blank_activation blank_deployment of
           (composed, activation, effective) \<Rightarrow>
             if composed \<noteq> Ok then (composed, m)
             else
               (case leftover of
                  Some (c, b, ms, a, d) \<Rightarrow>
                    (Resource_exhausted, m\<lparr>um_control := c, um_base_deployment := b,
                       um_models := ms, um_activation := a, um_active_deployment := d\<rparr>)
                | None \<Rightarrow>
                    (Ok, m\<lparr>um_control := trusted, um_base_deployment := base, um_models := models,
                       um_activation := activation, um_active_deployment := effective,
                       um_configured := True\<rparr>))))"

record apply_allocations =
  aa_entries :: bool
  aa_receipt :: bool
  aa_candidate :: bool
  aa_publication :: bool

text \<open>The checks on the sorted entries: valid identifiers, no two neighbours of the same key.\<close>

fun ucmgr_entries_valid ::
    "usecase_desired_entry option \<Rightarrow> usecase_desired_entry list \<Rightarrow> bool" where
  "ucmgr_entries_valid prev [] \<longleftrightarrow> True"
| "ucmgr_entries_valid prev (e # rest) \<longleftrightarrow>
     ident_is_valid (ud_source_id e) uca_max_identifier_bytes \<and>
     ident_is_valid (ud_usecase_id e) uca_max_identifier_bytes \<and>
     (case prev of
        None \<Rightarrow> True
      | Some p \<Rightarrow> \<not> (ud_source_id e = ud_source_id p \<and> ud_usecase_id e = ud_usecase_id p)) \<and>
     ucmgr_entries_valid (Some e) rest"

text \<open>The entries written over a plan whose requests are all off; \<open>None\<close> on an unknown pair.\<close>

fun ucmgr_set_desired ::
    "usecase_desired_entry list \<Rightarrow> usecase_activation_request list \<Rightarrow>
       usecase_activation_request list option" where
  "ucmgr_set_desired [] requests = Some requests"
| "ucmgr_set_desired (e # rest) requests =
     (case first_index (\<lambda>r. uq_source_id r = ud_source_id e \<and> uq_usecase_id r = ud_usecase_id e)
             requests of
        None \<Rightarrow> None
      | Some i \<Rightarrow> ucmgr_set_desired rest
          (requests[i := (requests ! i)\<lparr>uq_desired_enabled := ud_desired_enabled e\<rparr>]))"

definition ucmgr_candidate_requests ::
    "usecase_desired_entry list \<Rightarrow> usecase_activation_request list \<Rightarrow>
       usecase_activation_request list option" where
  "ucmgr_candidate_requests entries requests =
     ucmgr_set_desired entries (map (\<lambda>r. r\<lparr>uq_desired_enabled := False\<rparr>) requests)"

definition ucmgr_changed ::
    "usecase_activation_request list \<Rightarrow> usecase_activation_request list \<Rightarrow> bool" where
  "ucmgr_changed candidate current \<longleftrightarrow>
     list_ex (\<lambda>(a, b). uq_desired_enabled a \<noteq> uq_desired_enabled b) (zip candidate current)"

text \<open>The receipts have room for all records from \<open>reserve\<close> on: storing one never allocates.\<close>

definition ucmgr_store_receipt :: "receipt_record \<Rightarrow> receipt_record list \<Rightarrow> receipt_record list" where
  "ucmgr_store_receipt record receipts =
     (if length receipts = ucc_max_idempotency_receipts then tl receipts else receipts) @ [record]"

definition ucmgr_apply_new ::
    "apply_allocations \<Rightarrow> usecase_desired_plan \<Rightarrow> usecase_desired_entry list \<Rightarrow>
       usecase_control_manager \<Rightarrow> usecase_apply_receipt \<Rightarrow>
       status \<times> usecase_control_manager \<times> usecase_apply_receipt" where
  "ucmgr_apply_new alloc plan entries m receipt0 =
     (let control = um_control m;
          record = (\<lambda>receipt. \<lparr>rr_request_id = up_request_id plan,
            rr_expected_control_revision = up_expected_control_revision plan,
            rr_entries = entries, rr_receipt = receipt\<rparr>);
          unchanged = \<lparr>ua_accepted = True, ua_control_revision = uk_control_revision control,
            ua_apply_state = Apply_unchanged, ua_reason_code = Ok\<rparr>
      in if \<not> aa_receipt alloc \<or> \<not> aa_candidate alloc then (Resource_exhausted, m, receipt0)
         else
           (case ucmgr_candidate_requests entries (uk_requests control) of
              None \<Rightarrow> (Invalid_argument, m, receipt0)
            | Some requests \<Rightarrow>
                if \<not> ucmgr_changed requests (uk_requests control) then
                  (Ok, m\<lparr>um_receipts := ucmgr_store_receipt (record unchanged) (um_receipts m)\<rparr>,
                   unchanged)
                else if uk_control_revision control = UINT64_MAX then (Resource_exhausted, m, receipt0)
                else
                  (let candidate = control\<lparr>uk_requests := requests,
                         uk_control_revision := uk_control_revision control + 1\<rparr> in
                   case ucact_compose_effective_deployment (um_base_deployment m) (um_models m)
                          (uk_catalog candidate) requests blank_activation blank_deployment of
                     (composed, activation, effective) \<Rightarrow>
                       if composed \<noteq> Ok then (composed, m, receipt0)
                       else if \<not> aa_publication alloc then
                         (Resource_exhausted, m\<lparr>um_pending_control := blank_control,
                            um_pending_activation := blank_activation,
                            um_pending_deployment := blank_deployment\<rparr>, receipt0)
                       else
                         (let receipt = \<lparr>ua_accepted = True,
                                ua_control_revision = uk_control_revision candidate,
                                ua_apply_state = Apply_reconciling, ua_reason_code = Ok\<rparr>
                          in (Ok, m\<lparr>um_pending_control := candidate,
                                um_pending_activation := activation,
                                um_pending_deployment := effective, um_control := candidate,
                                um_has_pending := True, um_pending_failure := Ok,
                                um_receipts :=
                                  ucmgr_store_receipt (record receipt) (um_receipts m)\<rparr>,
                              receipt)))))"

definition ucmgr_apply_desired_plan ::
    "apply_allocations \<Rightarrow> usecase_desired_plan \<Rightarrow> usecase_control_manager \<Rightarrow>
       usecase_apply_receipt \<Rightarrow> status \<times> usecase_control_manager \<times> usecase_apply_receipt" where
  "ucmgr_apply_desired_plan alloc plan m receipt0 =
     (let entries = ucmgr_sort (up_entries plan) in
      if \<not> um_configured m then (Invalid_state, m, receipt0)
      else if \<not> ident_is_valid (up_request_id plan) ucc_max_request_id_bytes \<or>
          length (up_entries plan) > uca_max_associations then (Invalid_argument, m, receipt0)
      else if \<not> aa_entries alloc then (Resource_exhausted, m, receipt0)
      else if \<not> ucmgr_entries_valid None entries then (Invalid_argument, m, receipt0)
      else
        (case find (\<lambda>r. rr_request_id r = up_request_id plan) (um_receipts m) of
           Some r \<Rightarrow>
             if rr_expected_control_revision r \<noteq> up_expected_control_revision plan \<or>
                \<not> ucmgr_entries_equal (rr_entries r) entries then (Invalid_argument, m, receipt0)
             else (Ok, m, rr_receipt r)
         | None \<Rightarrow>
             if up_expected_control_revision plan \<noteq> uk_control_revision (um_control m)
               then (Invalid_state, m, receipt0)
             else if um_runtime_generation m = 0 then (Invalid_state, m, receipt0)
             else if um_has_pending m then (Invalid_state, m, receipt0)
             else ucmgr_apply_new alloc plan entries m receipt0))"

definition ucmgr_status_entry ::
    "usecase_control_manager \<Rightarrow> usecase_activation_record \<Rightarrow> usecase_status_entry" where
  "ucmgr_status_entry m r =
     (let failed = um_pending_failure m \<noteq> Ok;
          active_ready = (case ucmgr_find_record (um_activation m) (ur_source_id r) (ur_usecase_id r) of
              None \<Rightarrow> False
            | Some a \<Rightarrow> ur_state a = Use_ready \<and> um_runtime_generation m \<noteq> 0);
          candidate_ready = ur_state r = Use_ready;
          loaded = active_ready \<or>
            (\<not> um_has_pending m \<and> \<not> failed \<and> candidate_ready \<and> um_runtime_generation m \<noteq> 0);
          awaiting = um_has_pending m \<or> um_runtime_generation m = 0;
          base = \<lparr>st_source_id = ur_source_id r, st_usecase_id = ur_usecase_id r,
            st_installed = ur_installed r, st_entitled = ur_entitlement_granted r,
            st_desired = ur_desired_enabled r, st_supported = ur_supported r,
            st_compatible = ur_compatible r, st_admitted = ur_resource_admitted r,
            st_loaded = loaded, st_running = \<not> um_has_pending m \<and> active_ready,
            st_effective_state = ucmgr_runtime_state (ur_state r) awaiting failed,
            st_reason = ucmgr_reason (ur_state r) awaiting failed\<rparr>
      in if um_has_pending m \<and> active_ready \<and> candidate_ready then
           base\<lparr>st_running := True, st_effective_state := Run_running,
             st_reason := ''running_during_reconcile''\<rparr>
         else if um_has_pending m \<and> active_ready \<and> \<not> candidate_ready then
           base\<lparr>st_effective_state := Run_draining, st_reason := ''runtime_draining''\<rparr>
         else base)"

definition ucmgr_get_status ::
    "bool \<Rightarrow> usecase_control_manager \<Rightarrow> usecase_control_status \<Rightarrow> status \<times> usecase_control_status"
  where
  "ucmgr_get_status alloc m out0 =
     (let selected = (if um_has_pending m \<or> um_pending_failure m \<noteq> Ok then um_pending_activation m
            else um_activation m)
      in if \<not> um_configured m then (Invalid_state, out0)
         else if \<not> alloc then (Resource_exhausted, out0)
         else (Ok, \<lparr>ss_control_revision = uk_control_revision (um_control m),
                ss_entitlement_revision = uk_entitlement_revision (um_control m),
                ss_runtime_generation = um_runtime_generation m,
                ss_entries = map (ucmgr_status_entry m) (us_records selected)\<rparr>))"

definition ucmgr_get_capabilities ::
    "bool \<Rightarrow> usecase_control_manager \<Rightarrow> usecase_capability_snapshot \<Rightarrow>
       status \<times> usecase_capability_snapshot" where
  "ucmgr_get_capabilities alloc m out0 =
     (if \<not> um_configured m then (Invalid_state, out0)
      else if \<not> alloc then (Resource_exhausted, out0)
      else (Ok, \<lparr>cs_catalog_revision = uc_revision (uk_catalog (um_control m)),
             cs_usecases = map (\<lambda>u. (ue_usecase_id u, ue_usecase_version u))
               (uc_usecases (uk_catalog (um_control m)))\<rparr>))"

text \<open>\<open>leftover\<close> is what a failed copy left in the two outputs.\<close>

definition ucmgr_get_pending ::
    "(usecase_control_snapshot \<times> deployment_config) option \<Rightarrow> usecase_control_manager \<Rightarrow>
       usecase_control_snapshot \<Rightarrow> deployment_config \<Rightarrow>
       status \<times> usecase_control_snapshot \<times> deployment_config" where
  "ucmgr_get_pending leftover m snapshot0 deployment0 =
     (if \<not> um_has_pending m then (Invalid_state, snapshot0, deployment0)
      else (case leftover of
          Some (s, d) \<Rightarrow> (Resource_exhausted, s, d)
        | None \<Rightarrow> (Ok, um_pending_control m, um_pending_deployment m)))"

definition ucmgr_publish_initial ::
    "u64 \<Rightarrow> usecase_control_manager \<Rightarrow> status \<times> usecase_control_manager" where
  "ucmgr_publish_initial generation m =
     (if \<not> um_configured m \<or> um_has_pending m \<or> um_runtime_generation m \<noteq> 0 \<or> generation = 0
      then (Invalid_state, m)
      else (Ok, m\<lparr>um_runtime_generation := generation\<rparr>))"

definition ucmgr_publish_pending ::
    "u64 \<Rightarrow> u64 \<Rightarrow> usecase_control_manager \<Rightarrow> status \<times> usecase_control_manager" where
  "ucmgr_publish_pending control_revision generation m =
     (if \<not> um_has_pending m \<or> control_revision \<noteq> uk_control_revision (um_pending_control m) \<or>
         generation = 0 \<or> generation \<le> um_runtime_generation m then (Invalid_state, m)
      else (Ok, m\<lparr>um_activation := um_pending_activation m,
             um_active_deployment := um_pending_deployment m,
             um_pending_activation := (um_pending_activation m)\<lparr>us_records := []\<rparr>,
             um_pending_deployment := (um_pending_deployment m)\<lparr>dc_model_catalog_ref := [],
               dc_sources := []\<rparr>,
             um_pending_control := blank_control, um_pending_failure := Ok,
             um_runtime_generation := generation, um_has_pending := False\<rparr>))"

definition ucmgr_fail_pending ::
    "u64 \<Rightarrow> status_code \<Rightarrow> usecase_control_manager \<Rightarrow> status \<times> usecase_control_manager" where
  "ucmgr_fail_pending control_revision reason m =
     (if \<not> um_has_pending m \<or> control_revision \<noteq> uk_control_revision (um_pending_control m) \<or>
         reason = Ok \<or> reason = Pending then (Invalid_argument, m)
      else (Ok, m\<lparr>um_pending_failure := reason, um_has_pending := False,
             um_pending_control := blank_control, um_pending_deployment := blank_deployment\<rparr>))"

section \<open>The desired set a plan writes\<close>

definition ud_key :: "usecase_desired_entry \<Rightarrow> string \<times> string" where
  "ud_key e = (ud_source_id e, ud_usecase_id e)"

lemma names_key:
  "(\<lambda>r. uq_source_id r = ud_source_id e \<and> uq_usecase_id r = ud_usecase_id e) =
     (\<lambda>r. uq_key r = ud_key e)"
  by (simp add: uq_key_def ud_key_def)

lemma key_desired_update [simp]: "uq_key (r\<lparr>uq_desired_enabled := d\<rparr>) = uq_key r"
  by (simp add: uq_key_def)

text \<open>What trusted configuration decided about a request; a plan may only change the rest.\<close>

definition gates :: "usecase_activation_request \<Rightarrow> usecase_activation_request" where
  "gates r = r\<lparr>uq_desired_enabled := False\<rparr>"

definition wanted :: "usecase_activation_request list \<Rightarrow> (string \<times> string) set" where
  "wanted rs = uq_key ` {r \<in> set rs. uq_desired_enabled r}"

definition enabled :: "usecase_desired_entry list \<Rightarrow> (string \<times> string) set" where
  "enabled es = ud_key ` {e \<in> set es. ud_desired_enabled e}"

definition overlay ::
    "usecase_desired_entry list \<Rightarrow> usecase_activation_request \<Rightarrow> usecase_activation_request" where
  "overlay es r = r\<lparr>uq_desired_enabled :=
     fold (\<lambda>e d. if ud_key e = uq_key r then ud_desired_enabled e else d) es (uq_desired_enabled r)\<rparr>"

lemma overlay_key [simp]: "uq_key (overlay es r) = uq_key r"
  by (simp add: overlay_def uq_key_def)

lemma overlay_Nil [simp]: "overlay [] = id"
  by (rule ext) (simp add: overlay_def)

lemma gates_overlay [simp]: "gates (overlay es r) = gates r"
  by (simp add: overlay_def gates_def)

lemma first_index_key_update:
  assumes dist: "distinct (map uq_key rs)"
    and i: "first_index (\<lambda>r. uq_key r = ud_key e) rs = Some i"
  shows "rs[i := (rs ! i)\<lparr>uq_desired_enabled := ud_desired_enabled e\<rparr>] = map (overlay [e]) rs"
proof (rule nth_equalityI)
  note at = first_index_Some [OF i]
  fix j
  assume j: "j < length (rs[i := (rs ! i)\<lparr>uq_desired_enabled := ud_desired_enabled e\<rparr>])"
  have "uq_key (rs ! j) = ud_key e \<longleftrightarrow> j = i"
  proof
    assume "uq_key (rs ! j) = ud_key e"
    then have "map uq_key rs ! j = map uq_key rs ! i" using at j by simp
    then show "j = i" using nth_eq_iff_index_eq [OF dist, of j i] at j by simp
  qed (use at in simp)
  then show "rs[i := (rs ! i)\<lparr>uq_desired_enabled := ud_desired_enabled e\<rparr>] ! j = map (overlay [e]) rs ! j"
    using j at by (cases "j = i") (auto simp: overlay_def)
qed simp

lemma ucmgr_set_desired_eq:
  "distinct (map uq_key rs) \<Longrightarrow> ucmgr_set_desired es rs =
     (if ud_key ` set es \<subseteq> uq_key ` set rs then Some (map (overlay es) rs) else None)"
proof (induction es arbitrary: rs)
  case Nil
  then show ?case by simp
next
  case (Cons e es)
  let ?P = "\<lambda>r. uq_key r = ud_key e"
  have step: "map (overlay es) (map (overlay [e]) rs) = map (overlay (e # es)) rs"
    by (simp add: overlay_def)
  have keys: "map uq_key (map (overlay [e]) rs) = map uq_key rs" by simp
  show ?case
  proof (cases "first_index ?P rs")
    case None
    then have "ud_key e \<notin> uq_key ` set rs"
      unfolding first_index_None by (auto dest: sym)
    with None show ?thesis by (simp add: names_key)
  next
    case (Some i)
    from first_index_Some [OF Some] have "ud_key e = uq_key (rs ! i)" "i < length rs" by simp_all
    then have known: "ud_key e \<in> uq_key ` set rs" by simp
    have "ucmgr_set_desired (e # es) rs = ucmgr_set_desired es (map (overlay [e]) rs)"
      using Some first_index_key_update [OF Cons.prems Some] by (simp add: names_key)
    also have "\<dots> = (if ud_key ` set es \<subseteq> uq_key ` set rs
        then Some (map (overlay (e # es)) rs) else None)"
      using Cons.IH [of "map (overlay [e]) rs"] Cons.prems
      unfolding step keys set_map [symmetric] by blast
    finally show ?thesis using known by simp
  qed
qed

lemma fold_overlay:
  "distinct (map ud_key es) \<Longrightarrow>
     fold (\<lambda>e d. if ud_key e = k then ud_desired_enabled e else d) es d0 =
     (if k \<in> ud_key ` set es then k \<in> enabled es else d0)"
proof (induction es arbitrary: d0)
  case Nil
  then show ?case by simp
next
  case (Cons e es)
  then show ?case by (auto simp: enabled_def)
qed

lemma wanted_map: "wanted (map f rs) = (\<lambda>r. uq_key (f r)) ` {r \<in> set rs. uq_desired_enabled (f r)}"
  unfolding wanted_def set_map by blast

lemma candidate_requests_Some:
  assumes dist: "distinct (map uq_key rs)" and es: "distinct (map ud_key es)"
    and some: "ucmgr_candidate_requests es rs = Some rs'"
  shows "map gates rs' = map gates rs" "wanted rs' = enabled es" "map uq_key rs' = map uq_key rs"
proof -
  let ?off = "map (\<lambda>r. r\<lparr>uq_desired_enabled := False\<rparr>) rs"
  have keys: "map uq_key ?off = map uq_key rs" by (simp add: uq_key_def)
  have off: "distinct (map uq_key ?off)" "uq_key ` set ?off = uq_key ` set rs"
    using dist unfolding keys by (simp_all only: keys set_map [symmetric])
  have rs': "rs' = map (overlay es) ?off" and known: "ud_key ` set es \<subseteq> uq_key ` set rs"
    using some unfolding ucmgr_candidate_requests_def ucmgr_set_desired_eq [OF off(1)] off(2)
    by (auto split: if_splits)
  show "map gates rs' = map gates rs" unfolding rs' by (simp add: gates_def overlay_def)
  show "map uq_key rs' = map uq_key rs" unfolding rs' by (simp add: uq_key_def overlay_def)
  let ?f = "\<lambda>r. overlay es (r\<lparr>uq_desired_enabled := False\<rparr>)"
  have flag: "uq_desired_enabled (?f r) \<longleftrightarrow> uq_key r \<in> enabled es" for r
    using fold_overlay [OF es, of "uq_key r" False] by (auto simp: overlay_def enabled_def)
  have "wanted rs' = uq_key ` {r \<in> set rs. uq_key r \<in> enabled es}"
    unfolding rs' map_map comp_def wanted_map flag overlay_key key_desired_update ..
  moreover have "enabled es \<subseteq> uq_key ` set rs"
    using known unfolding enabled_def by blast
  moreover have "uq_key ` {r \<in> set rs. uq_key r \<in> E} = E \<inter> uq_key ` set rs" for E
    by (intro set_eqI) (simp add: image_iff Bex_def, metis)
  ultimately show "wanted rs' = enabled es" by (simp add: Int_absorb2)
qed

lemma wanted_nth: "k \<in> wanted rs \<longleftrightarrow> (\<exists>j < length rs. uq_key (rs ! j) = k \<and> uq_desired_enabled (rs ! j))"
  by (auto simp: wanted_def image_iff in_set_conv_nth Bex_def)

lemma changed_iff_wanted:
  assumes dist: "distinct (map uq_key rs)" and keys: "map uq_key rs' = map uq_key rs"
  shows "ucmgr_changed rs' rs \<longleftrightarrow> wanted rs' \<noteq> wanted rs"
proof -
  have len: "length rs' = length rs" using keys by (metis length_map)
  have key: "uq_key (rs' ! i) = uq_key (rs ! i)" if "i < length rs" for i
    using keys that len by (metis nth_map)
  have inj: "uq_key (rs ! i) = uq_key (rs ! j) \<longleftrightarrow> i = j" if "i < length rs" "j < length rs" for i j
    using dist that by (auto simp: distinct_conv_nth)
  have want: "uq_key (rs ! i) \<in> wanted rs \<longleftrightarrow> uq_desired_enabled (rs ! i)"
    "uq_key (rs ! i) \<in> wanted rs' \<longleftrightarrow> uq_desired_enabled (rs' ! i)" if i: "i < length rs" for i
  proof -
    have pick: "(\<exists>j < length rs. uq_key (rs ! j) = uq_key (rs ! i) \<and> P j) \<longleftrightarrow> P i" for P
      using i by (simp add: inj cong: conj_cong)
    show "uq_key (rs ! i) \<in> wanted rs \<longleftrightarrow> uq_desired_enabled (rs ! i)"
      unfolding wanted_nth by (rule pick)
    show "uq_key (rs ! i) \<in> wanted rs' \<longleftrightarrow> uq_desired_enabled (rs' ! i)"
      unfolding wanted_nth len using pick [of "\<lambda>j. uq_desired_enabled (rs' ! j)"]
      by (simp add: key cong: conj_cong)
  qed
  have sub: "wanted rs \<subseteq> set (map uq_key rs)" "wanted rs' \<subseteq> set (map uq_key rs)"
    unfolding wanted_def using keys [THEN arg_cong, of set] unfolding set_map by blast+
  have "ucmgr_changed rs' rs \<longleftrightarrow> (\<exists>i < length rs. uq_desired_enabled (rs' ! i) \<noteq> uq_desired_enabled (rs ! i))"
    using len by (auto simp: ucmgr_changed_def list_ex_length)
  also have "\<dots> \<longleftrightarrow> (\<exists>k \<in> set (map uq_key rs). (k \<in> wanted rs') \<noteq> (k \<in> wanted rs))"
    unfolding set_map bex_simps using want by (auto simp: in_set_conv_nth Bex_def)
  also have "\<dots> \<longleftrightarrow> wanted rs' \<noteq> wanted rs" using sub by blast
  finally show ?thesis .
qed

text \<open>A sorted plan whose neighbours differ has no two entries of the same key.\<close>

lemma entries_valid_adj:
  "ucmgr_entries_valid prev es \<Longrightarrow> distinct_adj (map ud_key es) \<and>
     (es = [] \<or> prev = None \<or> ud_key (hd es) \<noteq> ud_key (the prev))"
proof (induction es arbitrary: prev)
  case Nil
  then show ?case by simp
next
  case (Cons e es)
  from Cons.IH [of "Some e"] Cons.prems
  have "distinct_adj (map ud_key es)" "es = [] \<or> ud_key e \<noteq> hd (map ud_key es)"
    by (auto simp: hd_map)
  moreover have "prev = None \<or> ud_key e \<noteq> ud_key (the prev)"
    using Cons.prems by (auto simp: ud_key_def)
  ultimately show ?case by (simp add: distinct_adj_Cons)
qed

lemma sorted_adj_distinct: "sorted xs \<Longrightarrow> distinct_adj xs \<Longrightarrow> distinct (xs :: 'a::linorder list)"
proof (induction xs)
  case Nil
  then show ?case by simp
next
  case (Cons x xs)
  show ?case
  proof (cases xs)
    case Nil
    then show ?thesis by simp
  next
    case (Cons y ys)
    with Cons.prems have "x < y" by auto
    moreover have "y \<le> z" if "z \<in> set xs" for z using Cons.prems(1) Cons that by auto
    ultimately have "x \<notin> set xs" by (meson leD)
    with Cons.IH Cons.prems Cons show ?thesis by simp
  qed
qed

lemma valid_entries_distinct:
  "ucmgr_entries_valid None (ucmgr_sort es) \<Longrightarrow> distinct (map ud_key (ucmgr_sort es))"
  by (rule sorted_adj_distinct) (auto simp: ucmgr_sort_def ud_key_def [abs_def] dest: entries_valid_adj)

lemma enabled_sort [simp]: "enabled (ucmgr_sort es) = enabled es"
  by (simp add: enabled_def ucmgr_sort_def)

section \<open>The manager over any sequence of calls\<close>

datatype ucmgr_op =
    Configure "(usecase_control_snapshot \<times> deployment_config \<times> model_catalog \<times>
      usecase_activation_snapshot \<times> deployment_config) option"
      usecase_control_snapshot deployment_config model_catalog
  | Apply apply_allocations usecase_desired_plan
  | Publish_initial u64
  | Publish_pending u64 u64
  | Fail_pending u64 status_code

fun ucmgr_step :: "ucmgr_op \<Rightarrow> usecase_control_manager \<Rightarrow> usecase_control_manager" where
  "ucmgr_step (Configure leftover trusted base models) m = snd (ucmgr_configure leftover trusted base models m)"
| "ucmgr_step (Apply alloc plan) m = fst (snd (ucmgr_apply_desired_plan alloc plan m blank_receipt))"
| "ucmgr_step (Publish_initial generation) m = snd (ucmgr_publish_initial generation m)"
| "ucmgr_step (Publish_pending revision generation) m = snd (ucmgr_publish_pending revision generation m)"
| "ucmgr_step (Fail_pending revision reason) m = snd (ucmgr_fail_pending revision reason m)"

abbreviation composes_to ::
    "usecase_control_manager \<Rightarrow> usecase_activation_request list \<Rightarrow> usecase_activation_snapshot \<Rightarrow>
       deployment_config \<Rightarrow> bool" where
  "composes_to m rs activation effective \<equiv>
     ucact_compose_effective_deployment (um_base_deployment m) (um_models m) (uk_catalog (um_control m))
       rs blank_activation blank_deployment = (Ok, activation, effective)"

text \<open>
  What is active was composed from requests with the trusted gates, what is pending was
  composed from the present desired plan, and the receipts are few, of different requests.
\<close>

definition ucmgr_inv :: "usecase_control_manager \<Rightarrow> bool" where
  "ucmgr_inv m \<longleftrightarrow>
     (if um_configured m then
        plan_wf (um_base_deployment m) (uk_catalog (um_control m)) (uk_requests (um_control m)) \<and>
        (\<exists>rs. map gates rs = map gates (uk_requests (um_control m)) \<and>
          composes_to m rs (um_activation m) (um_active_deployment m)) \<and>
        (um_has_pending m \<longrightarrow> um_pending_control m = um_control m \<and>
          composes_to m (uk_requests (um_control m)) (um_pending_activation m) (um_pending_deployment m) \<and>
          um_pending_failure m = Ok \<and> um_runtime_generation m \<noteq> 0) \<and>
        length (um_receipts m) \<le> ucc_max_idempotency_receipts \<and>
        distinct (map rr_request_id (um_receipts m))
      else \<not> um_has_pending m \<and> um_runtime_generation m = 0 \<and> um_receipts m = [])"

lemma store_receipt_inv:
  assumes "length receipts \<le> ucc_max_idempotency_receipts" "distinct (map rr_request_id receipts)"
    and "find (\<lambda>r. rr_request_id r = rr_request_id new) receipts = None"
  shows "length (ucmgr_store_receipt new receipts) \<le> ucc_max_idempotency_receipts"
    "distinct (map rr_request_id (ucmgr_store_receipt new receipts))"
proof -
  show "length (ucmgr_store_receipt new receipts) \<le> ucc_max_idempotency_receipts"
    using assms(1) by (auto simp: ucmgr_store_receipt_def ucc_max_idempotency_receipts_def)
  have new: "rr_request_id new \<notin> rr_request_id ` set receipts"
    using assms(3) by (auto simp: find_None_iff)
  have "set (tl receipts) \<subseteq> set receipts" by (cases receipts) auto
  with new have "rr_request_id new \<notin> rr_request_id ` set (tl receipts)" by blast
  with new assms(2) show "distinct (map rr_request_id (ucmgr_store_receipt new receipts))"
    by (simp add: ucmgr_store_receipt_def map_tl distinct_tl)
qed

text \<open>The two outcomes of an accepted new plan.\<close>

lemma apply_new_cases:
  assumes "ucmgr_apply_new alloc plan es m rc0 = (st, m', rc)"
  obtains
    (rejected) "st \<noteq> Ok" "rc = rc0" "um_control m' = um_control m" "um_receipts m' = um_receipts m"
      "m' = m\<lparr>um_pending_control := um_pending_control m', um_pending_activation := um_pending_activation m',
        um_pending_deployment := um_pending_deployment m'\<rparr>"
  | (unchanged) rs where "st = Ok" "ucmgr_candidate_requests es (uk_requests (um_control m)) = Some rs"
      "\<not> ucmgr_changed rs (uk_requests (um_control m))"
      "rc = \<lparr>ua_accepted = True, ua_control_revision = uk_control_revision (um_control m),
        ua_apply_state = Apply_unchanged, ua_reason_code = Ok\<rparr>"
      "m' = m\<lparr>um_receipts := ucmgr_store_receipt \<lparr>rr_request_id = up_request_id plan,
        rr_expected_control_revision = up_expected_control_revision plan, rr_entries = es,
        rr_receipt = rc\<rparr> (um_receipts m)\<rparr>"
  | (changed) rs control activation effective where "st = Ok"
      "ucmgr_candidate_requests es (uk_requests (um_control m)) = Some rs"
      "ucmgr_changed rs (uk_requests (um_control m))" "uk_control_revision (um_control m) \<noteq> UINT64_MAX"
      "control = (um_control m)\<lparr>uk_requests := rs,
        uk_control_revision := uk_control_revision (um_control m) + 1\<rparr>"
      "composes_to m rs activation effective"
      "rc = \<lparr>ua_accepted = True, ua_control_revision = uk_control_revision (um_control m) + 1,
        ua_apply_state = Apply_reconciling, ua_reason_code = Ok\<rparr>"
      "m' = m\<lparr>um_pending_control := control, um_pending_activation := activation,
        um_pending_deployment := effective, um_control := control, um_has_pending := True,
        um_pending_failure := Ok, um_receipts := ucmgr_store_receipt
          \<lparr>rr_request_id = up_request_id plan,
           rr_expected_control_revision = up_expected_control_revision plan, rr_entries = es,
           rr_receipt = rc\<rparr> (um_receipts m)\<rparr>"
proof -
  note d = assms [unfolded ucmgr_apply_new_def Let_def]
  show ?thesis
  proof (cases "ucmgr_candidate_requests es (uk_requests (um_control m))")
    case None
    with d show ?thesis by (auto split: if_splits intro: rejected)
  next
    case (Some rs)
    obtain composed activation effective where c:
      "ucact_compose_effective_deployment (um_base_deployment m) (um_models m)
        (uk_catalog (um_control m)) rs blank_activation blank_deployment = (composed, activation, effective)"
      by (metis prod.exhaust)
    show ?thesis
    proof (cases "st = Ok")
      case True
      with d Some c show ?thesis by (auto split: if_splits intro: unchanged changed)
    next
      case False
      with d Some c show ?thesis by (auto split: if_splits intro!: rejected)
    qed
  qed
qed

text \<open>An accepted plan was new, or a replay that returns the stored receipt and changes nothing.\<close>

lemma apply_cases:
  assumes "ucmgr_apply_desired_plan alloc plan m rc0 = (st, m', rc)"
  obtains
    (refused) "st \<noteq> Ok" "m' = m" "rc = rc0"
  | (replay) r where "st = Ok" "m' = m" "rc = rr_receipt r" "um_configured m"
      "find (\<lambda>r. rr_request_id r = up_request_id plan) (um_receipts m) = Some r"
  | (fresh) "um_configured m" "find (\<lambda>r. rr_request_id r = up_request_id plan) (um_receipts m) = None"
      "ucmgr_entries_valid None (ucmgr_sort (up_entries plan))"
      "up_expected_control_revision plan = uk_control_revision (um_control m)"
      "um_runtime_generation m \<noteq> 0" "\<not> um_has_pending m"
      "ucmgr_apply_new alloc plan (ucmgr_sort (up_entries plan)) m rc0 = (st, m', rc)"
  using assms unfolding ucmgr_apply_desired_plan_def Let_def
  by (auto split: if_splits option.splits)

lemma inv_distinct: "ucmgr_inv m \<Longrightarrow> um_configured m \<Longrightarrow> distinct (map uq_key (uk_requests (um_control m)))"
  by (simp add: ucmgr_inv_def plan_wf_def)

lemma plan_wf_keys:
  assumes "map uq_key rs' = map uq_key rs" and "plan_wf base usecases rs"
  shows "plan_wf base usecases rs'"
proof -
  have src: "map uq_source_id rs' = map uq_source_id rs" "map uq_usecase_id rs' = map uq_usecase_id rs"
    using assms(1) [THEN arg_cong, of "map fst"] assms(1) [THEN arg_cong, of "map snd"]
    by (simp_all add: uq_key_def comp_def)
  have "plan_wf base usecases xs \<longleftrightarrow> distinct (map uq_key xs) \<and>
      list_all (\<lambda>k. ucact_find_source base k \<noteq> None) (map uq_source_id xs) \<and>
      list_all (\<lambda>k. ucact_find_usecase usecases k \<noteq> None) (map uq_usecase_id xs)" for xs
    by (auto simp: plan_wf_def list_all_iff)
  then show ?thesis using assms by (simp only: src)
qed

lemma ucmgr_apply_inv:
  assumes inv: "ucmgr_inv m" and ap: "ucmgr_apply_desired_plan alloc plan m rc0 = (st, m', rc)"
  shows "ucmgr_inv m'"
  using ap
proof (cases rule: apply_cases)
  case fresh
  note dist = inv_distinct [OF inv fresh(1)]
  let ?es = "ucmgr_sort (up_entries plan)"
  note es = valid_entries_distinct [OF fresh(3)]
  have receipts: "length (um_receipts m) \<le> ucc_max_idempotency_receipts"
    "distinct (map rr_request_id (um_receipts m))"
    using inv fresh(1) by (simp_all add: ucmgr_inv_def)
  note store = store_receipt_inv [OF receipts, of "\<lparr>rr_request_id = up_request_id plan,
      rr_expected_control_revision = v, rr_entries = e, rr_receipt = r\<rparr>" for v e r, simplified, OF fresh(2)]
  from fresh(7) show ?thesis
  proof (cases rule: apply_new_cases)
    case rejected
    show ?thesis
      by (subst rejected(5)) (use inv fresh(6) in \<open>simp add: ucmgr_inv_def\<close>)
  next
    case (unchanged rs)
    show ?thesis
      unfolding unchanged(5) using inv fresh(1,6) store by (simp add: ucmgr_inv_def)
  next
    case (changed rs control activation effective)
    note cand = candidate_requests_Some [OF dist es changed(2)]
    have "plan_wf (um_base_deployment m) (uk_catalog (um_control m)) rs"
      using inv fresh(1) plan_wf_keys [OF cand(3)] by (simp add: ucmgr_inv_def)
    moreover obtain qs where "map gates qs = map gates (uk_requests (um_control m))"
        "composes_to m qs (um_activation m) (um_active_deployment m)"
      using inv fresh(1) by (auto simp: ucmgr_inv_def)
    moreover note cand(1) [symmetric]
    ultimately show ?thesis
      using changed(6) fresh(1,5) store unfolding changed(8) changed(5)
      by (auto simp: ucmgr_inv_def)
  qed
qed (use inv in simp_all)

lemma ucmgr_step_inv: "ucmgr_inv m \<Longrightarrow> ucmgr_inv (ucmgr_step op m)"
proof (cases op)
  case (Configure leftover trusted base models)
  assume inv: "ucmgr_inv m"
  obtain composed activation effective where c:
    "ucact_compose_effective_deployment base models (uk_catalog trusted) (uk_requests trusted)
      blank_activation blank_deployment = (composed, activation, effective)"
    by (metis prod.exhaust)
  have "composed = Ok \<Longrightarrow> plan_wf base (uk_catalog trusted) (uk_requests trusted)"
    using compose_Ok(3) c by blast
  then show ?thesis
    using inv c Configure
    by (auto simp: ucmgr_configure_def ucmgr_inv_def split: option.splits)
next
  case (Apply alloc plan)
  assume "ucmgr_inv m"
  then show ?thesis using ucmgr_apply_inv [of m alloc plan] Apply by (metis prod.exhaust_sel ucmgr_step.simps(2))
next
  case (Publish_initial generation)
  assume "ucmgr_inv m"
  then show ?thesis using Publish_initial by (auto simp: ucmgr_publish_initial_def ucmgr_inv_def)
next
  case (Publish_pending revision generation)
  assume "ucmgr_inv m"
  then show ?thesis using Publish_pending
    by (auto simp: ucmgr_publish_pending_def ucmgr_inv_def split: if_splits)
next
  case (Fail_pending revision reason)
  assume "ucmgr_inv m"
  then show ?thesis using Fail_pending
    by (auto simp: ucmgr_fail_pending_def ucmgr_inv_def split: if_splits)
qed

interpretation ucmgr: step_system ucmgr_step ucmgr_inv
  by unfold_locales (rule ucmgr_step_inv)

lemma ucmgr_initial_inv: "ucmgr_inv ucmgr_initial"
  by (simp add: ucmgr_inv_def ucmgr_initial_def)

text \<open>What no call changes once the manager is configured; the control revision only grows.\<close>

definition same_trust :: "usecase_control_manager \<Rightarrow> usecase_control_manager \<Rightarrow> bool" where
  "same_trust m m' \<longleftrightarrow> (um_configured m \<longrightarrow>
     um_configured m' \<and> um_base_deployment m' = um_base_deployment m \<and> um_models m' = um_models m \<and>
     uk_catalog (um_control m') = uk_catalog (um_control m) \<and>
     map gates (uk_requests (um_control m')) = map gates (uk_requests (um_control m)))"

lemma ucmgr_step_trust:
  assumes inv: "ucmgr_inv m"
  shows "same_trust m (ucmgr_step op m)"
proof (cases op)
  case (Configure leftover trusted base models)
  then show ?thesis by (simp add: same_trust_def ucmgr_configure_def)
next
  case (Apply alloc plan)
  obtain st m' rc where ap: "ucmgr_apply_desired_plan alloc plan m blank_receipt = (st, m', rc)"
    by (metis prod.exhaust)
  then have "same_trust m m'"
  proof (cases rule: apply_cases)
    case fresh
    note dist = inv_distinct [OF inv fresh(1)] and es = valid_entries_distinct [OF fresh(3)]
    from fresh(7) show ?thesis
    proof (cases rule: apply_new_cases)
      case rejected
      show ?thesis by (subst rejected(5)) (simp add: same_trust_def)
    next
      case (unchanged rs)
      show ?thesis unfolding unchanged(5) by (simp add: same_trust_def)
    next
      case (changed rs control activation effective)
      show ?thesis
        unfolding changed(8) changed(5) using candidate_requests_Some(1) [OF dist es changed(2)]
        by (simp add: same_trust_def)
    qed
  qed (simp_all add: same_trust_def)
  then show ?thesis using Apply ap by simp
qed (auto simp: same_trust_def ucmgr_publish_initial_def ucmgr_publish_pending_def ucmgr_fail_pending_def)

lemma run_trust: "ucmgr_inv m \<Longrightarrow> same_trust m (fold ucmgr_step ops m)"
proof (rule ucmgr.run_rel)
  show "same_trust s s" for s by (simp add: same_trust_def)
  show "same_trust s t \<Longrightarrow> same_trust t u \<Longrightarrow> same_trust s u" for s t u
    by (simp add: same_trust_def)
  show "ucmgr_inv s \<Longrightarrow> same_trust s (ucmgr_step a s)" for a s by (rule ucmgr_step_trust)
qed

lemma configured_state:
  assumes "ucmgr_configure None trusted base models ucmgr_initial = (Ok, m)"
  shows "ucmgr_inv m" "um_configured m" "um_control m = trusted" "um_base_deployment m = base"
    "um_models m = models"
proof -
  have "m = ucmgr_step (Configure None trusted base models) ucmgr_initial" using assms by simp
  then show "ucmgr_inv m" using ucmgr_step_inv [OF ucmgr_initial_inv] by blast
  show "um_configured m" "um_control m = trusted" "um_base_deployment m = base" "um_models m = models"
    using assms by (auto simp: ucmgr_configure_def split: if_splits prod.splits)
qed

lemma gatesD:
  assumes "gates q = gates r"
  shows "uq_source_id q = uq_source_id r" "uq_usecase_id q = uq_usecase_id r"
    "uq_installed q = uq_installed r" "uq_entitlement_granted q = uq_entitlement_granted r"
    "uq_supported q = uq_supported r" "uq_compatible q = uq_compatible r"
    "uq_resource_admitted q = uq_resource_admitted r"
  using assms by (cases q; cases r; simp add: gates_def)+

lemma runs_needs_gates:
  assumes ok: "ucact_compose_effective_deployment base models usecases rs snap0 eff0 = (Ok, snap, eff)"
    and gates: "map gates rs = map gates trusted"
    and s: "s \<in> set (dc_sources eff)" and k: "k \<in> set (sd_model_ids s)"
  shows "\<exists>q \<in> set trusted. uq_source_id q = sd_source_id s \<and> uq_installed q \<and>
    uq_entitlement_granted q \<and> uq_supported q \<and> uq_compatible q \<and> uq_resource_admitted q \<and>
    (\<exists>u \<in> set (uc_usecases usecases). ue_usecase_id u = uq_usecase_id q \<and>
      k \<in> set (ue_root_model_ids u))"
proof -
  note o = compose_Ok [OF ok]
  have "ucact_is_required usecases (plan_of base usecases rs) (sd_source_id s) k"
    using s k effective_runs [of models usecases "plan_of base usecases rs" base "sd_source_id s" k]
    unfolding o(6) by blast
  then obtain r u where r: "r \<in> set rs" "uq_source_id r = sd_source_id s"
      "ur_state (resolved base usecases r) = Use_ready"
      and u: "u \<in> set (uc_usecases usecases)" "ue_usecase_id u = uq_usecase_id r"
        "k \<in> set (ue_root_model_ids u)"
    unfolding required_iff [OF o(2)] by blast
  have granted: "all_granted r" using r(3) by (simp add: resolved_def record_ready)
  have "gates r \<in> gates ` set trusted" using r(1) gates by (metis imageI list.set_map)
  then obtain q where q: "q \<in> set trusted" "gates q = gates r" by force
  with r u granted gatesD [OF q(2)] show ?thesis
    by (intro bexI [OF _ q(1)]) (auto simp: all_granted_def)
qed

section \<open>Receipts\<close>

lemma entries_equal_iff: "ucmgr_entries_equal l r \<longleftrightarrow> l = r"
proof
  assume eq: "ucmgr_entries_equal l r"
  show "l = r"
  proof (rule nth_equalityI)
    show len: "length l = length r" using eq by (simp add: ucmgr_entries_equal_def)
    fix i assume "i < length l"
    then have "(l ! i, r ! i) \<in> set (zip l r)" using len by (auto simp: in_set_zip)
    then show "l ! i = r ! i"
      using eq by (auto simp: ucmgr_entries_equal_def list_all_iff intro: usecase_desired_entry.equality)
  qed
qed (auto simp: ucmgr_entries_equal_def list_all_iff in_set_zip)

text \<open>A receipt with at most \<open>n\<close> newer ones behind it.\<close>

definition kept :: "nat \<Rightarrow> receipt_record \<Rightarrow> usecase_control_manager \<Rightarrow> bool" where
  "kept n r m \<longleftrightarrow> (\<exists>older newer. um_receipts m = older @ r # newer \<and> length newer \<le> n)"

definition is_apply :: "ucmgr_op \<Rightarrow> bool" where
  "is_apply op = (case op of Apply _ _ \<Rightarrow> True | _ \<Rightarrow> False)"

lemma kept_store:
  assumes "kept n r m" and "Suc n < ucc_max_idempotency_receipts"
    and "um_receipts m' = ucmgr_store_receipt new (um_receipts m)"
  shows "kept (Suc n) r m'"
proof -
  obtain older newer where o: "um_receipts m = older @ r # newer" "length newer \<le> n"
    using assms(1) by (auto simp: kept_def)
  show ?thesis
  proof (cases "length (um_receipts m) = ucc_max_idempotency_receipts")
    case True
    then have "older \<noteq> []" using o assms(2) by auto
    then have "um_receipts m' = tl older @ r # (newer @ [new])"
      using True o assms(3) by (simp add: ucmgr_store_receipt_def)
    with o(2) show ?thesis unfolding kept_def by (metis Suc_le_mono length_append_singleton)
  next
    case False
    then have "um_receipts m' = older @ r # (newer @ [new])"
      using o assms(3) by (simp add: ucmgr_store_receipt_def)
    with o(2) show ?thesis unfolding kept_def by (metis Suc_le_mono length_append_singleton)
  qed
qed

lemma kept_mono: "kept n r m \<Longrightarrow> n \<le> n' \<Longrightarrow> um_receipts m' = um_receipts m \<Longrightarrow> kept n' r m'"
  unfolding kept_def by (metis le_trans)

lemma apply_kept:
  assumes "kept n r m" "Suc n < ucc_max_idempotency_receipts"
    and ap: "ucmgr_apply_desired_plan alloc plan m rc0 = (st, m', rc)"
  shows "kept (Suc n) r m'"
  using ap
proof (cases rule: apply_cases)
  case fresh
  from fresh(7) show ?thesis
  proof (cases rule: apply_new_cases)
    case rejected
    show ?thesis by (rule kept_mono [OF assms(1) _ rejected(4)]) simp
  next
    case (unchanged rs)
    show ?thesis by (rule kept_store [OF assms(1,2)]) (subst unchanged(5), simp)
  next
    case (changed rs control activation effective)
    show ?thesis by (rule kept_store [OF assms(1,2)]) (subst changed(8), simp)
  qed
qed (use kept_mono [OF assms(1)] in simp_all)

lemma step_kept:
  assumes "kept n r m" and "um_configured m"
    and "n + (if is_apply op then 1 else 0) < ucc_max_idempotency_receipts"
  shows "kept (n + (if is_apply op then 1 else 0)) r (ucmgr_step op m)"
proof (cases op)
  case (Apply alloc plan)
  obtain st m' rc where ap: "ucmgr_apply_desired_plan alloc plan m blank_receipt = (st, m', rc)"
    by (metis prod.exhaust)
  show ?thesis using apply_kept [OF assms(1) _ ap] assms(3) Apply ap by (simp add: is_apply_def)
next
  case (Configure leftover trusted base models)
  then show ?thesis using assms by (simp add: ucmgr_configure_def is_apply_def)
next
  case (Publish_initial generation)
  then show ?thesis
    by (intro kept_mono [OF assms(1)]) (auto simp: is_apply_def ucmgr_publish_initial_def)
next
  case (Publish_pending revision generation)
  then show ?thesis
    by (intro kept_mono [OF assms(1)]) (auto simp: is_apply_def ucmgr_publish_pending_def)
next
  case (Fail_pending revision reason)
  then show ?thesis
    by (intro kept_mono [OF assms(1)]) (auto simp: is_apply_def ucmgr_fail_pending_def)
qed

lemma run_kept:
  "ucmgr_inv m \<Longrightarrow> um_configured m \<Longrightarrow> kept n r m \<Longrightarrow>
     n + length (filter is_apply ops) < ucc_max_idempotency_receipts \<Longrightarrow>
     kept (n + length (filter is_apply ops)) r (fold ucmgr_step ops m)"
proof (induction ops arbitrary: n m)
  case Nil
  then show ?case by simp
next
  case (Cons op ops)
  let ?k = "if is_apply op then 1 else 0 :: nat"
  have "kept (n + ?k) r (ucmgr_step op m)"
    using Cons.prems by (intro step_kept) (auto split: if_splits)
  moreover have "um_configured (ucmgr_step op m)"
    using ucmgr_step_trust [OF Cons.prems(1), of op] Cons.prems(2) by (simp add: same_trust_def)
  moreover have "n + ?k + length (filter is_apply ops) < ucc_max_idempotency_receipts"
    using Cons.prems(4) by (auto split: if_splits)
  ultimately have "kept (n + ?k + length (filter is_apply ops)) r
      (fold ucmgr_step ops (ucmgr_step op m))"
    using Cons.IH ucmgr_step_inv [OF Cons.prems(1)] by blast
  then show ?case by (auto split: if_splits)
qed

lemma kept_found:
  assumes "ucmgr_inv m" "um_configured m" "kept n r m"
  shows "find (\<lambda>q. rr_request_id q = rr_request_id r) (um_receipts m) = Some r"
  using assms by (intro find_unique) (auto simp: ucmgr_inv_def kept_def)

section \<open>Properties\<close>

text \<open>The register that a desired plan is written to: its version and the wanted pairs.\<close>

definition register :: "usecase_control_manager \<Rightarrow> nat \<times> (string \<times> string) set" where
  "register m = (unat (uk_control_revision (um_control m)), wanted (uk_requests (um_control m)))"

definition write_register ::
    "nat \<times> (string \<times> string) set \<Rightarrow> (string \<times> string) set \<Rightarrow> nat \<times> (string \<times> string) set" where
  "write_register reg want = (if want = snd reg then fst reg else Suc (fst reg), want)"

lemma apply_new_register:
  assumes inv: "ucmgr_inv m" and conf: "um_configured m"
    and valid: "ucmgr_entries_valid None (ucmgr_sort (up_entries plan))" and idle: "\<not> um_has_pending m"
    and ap: "ucmgr_apply_new alloc plan (ucmgr_sort (up_entries plan)) m rc0 = (Ok, m', rc)"
  shows "register m' = write_register (register m) (enabled (up_entries plan)) \<and>
    unat (ua_control_revision rc) = fst (register m') \<and>
    um_has_pending m' = (register m' \<noteq> register m) \<and>
    ua_apply_state rc = (if um_has_pending m' then Apply_reconciling else Apply_unchanged)"
  using ap
proof (cases rule: apply_new_cases)
  case (unchanged rs)
  note cand = candidate_requests_Some [OF inv_distinct [OF inv conf] valid_entries_distinct [OF valid] unchanged(2)]
  have "enabled (up_entries plan) = wanted (uk_requests (um_control m))"
    using unchanged(3) cand(2) changed_iff_wanted [OF inv_distinct [OF inv conf] cand(3)] by simp
  moreover have "um_control m' = um_control m" "um_has_pending m' = um_has_pending m"
    by (subst unchanged(5), simp)+
  ultimately show ?thesis using idle by (simp add: register_def write_register_def unchanged(4))
next
  case (changed rs control activation effective)
  note cand = candidate_requests_Some [OF inv_distinct [OF inv conf] valid_entries_distinct [OF valid] changed(2)]
  have "enabled (up_entries plan) \<noteq> wanted (uk_requests (um_control m))"
    using changed(3) cand(2) changed_iff_wanted [OF inv_distinct [OF inv conf] cand(3)] by simp
  moreover have "um_control m' = control" "um_has_pending m'" by (subst changed(8), simp)+
  ultimately show ?thesis
    using cand(2) by (simp add: register_def write_register_def changed(5,7) unat_Suc_exact [OF changed(4)])
qed simp

text \<open>
  C17. Desired plans cannot widen trust: after configuration and any sequence of calls, every
  model in the active deployment and in the pending one is a root of a use case that the
  trusted snapshot installs, entitles, supports, admits and holds compatible for that source,
  and the deployment is admitted against the model catalog.
\<close>

theorem ucmgr_only_entitled_runs:
  assumes conf: "ucmgr_configure None trusted base models ucmgr_initial = (Ok, m0)"
    and m: "m = fold ucmgr_step ops m0"
    and d: "d \<in> (if um_has_pending m then {um_active_deployment m, um_pending_deployment m}
      else {um_active_deployment m})"
    and s: "s \<in> set (dc_sources d)" and k: "k \<in> set (sd_model_ids s)"
  shows "(\<exists>q \<in> set (uk_requests trusted). uq_source_id q = sd_source_id s \<and> uq_installed q \<and>
      uq_entitlement_granted q \<and> uq_supported q \<and> uq_compatible q \<and> uq_resource_admitted q \<and>
      (\<exists>u \<in> set (uc_usecases (uk_catalog trusted)). ue_usecase_id u = uq_usecase_id q \<and>
        k \<in> set (ue_root_model_ids u))) \<and>
    fst (mdcat_validate_deployment_models d models 0) = Ok"
proof -
  note c = configured_state [OF conf]
  have inv: "ucmgr_inv m" unfolding m by (rule ucmgr.run_inv [OF c(1)])
  note trust = run_trust [OF c(1), of ops, folded m, unfolded same_trust_def, rule_format, OF c(2),
      unfolded c(3-5)]
  obtain rs activation where rs: "map gates rs = map gates (uk_requests trusted)"
      "ucact_compose_effective_deployment base models (uk_catalog trusted) rs blank_activation
        blank_deployment = (Ok, activation, d)"
    using inv trust d by (auto simp: ucmgr_inv_def split: if_splits)
  from runs_needs_gates [OF rs(2,1) s k] compose_admitted [OF rs(2)] s show ?thesis
    by (metis list.set_cases list.distinct(1))
qed

text \<open>
  C18. A desired plan is a compare-and-swap: in every reachable state an accepted new plan
  names the current control revision and replaces the whole wanted set by the pairs it
  enables (what it omits is off); the revision moves by one exactly when that set changes,
  which also starts a pending generation, and the receipt names the new revision. A
  replayed or refused plan leaves the register and the receipts as they were.
\<close>

theorem ucmgr_plan_is_compare_and_swap:
  assumes conf: "ucmgr_configure None trusted base models ucmgr_initial = (Ok, m0)"
    and m: "m = fold ucmgr_step ops m0"
    and ap: "ucmgr_apply_desired_plan alloc plan m rc0 = (st, m', rc)"
  shows "if st = Ok \<and> find (\<lambda>r. rr_request_id r = up_request_id plan) (um_receipts m) = None then
      unat (up_expected_control_revision plan) = fst (register m) \<and>
      register m' = write_register (register m) (enabled (up_entries plan)) \<and>
      unat (ua_control_revision rc) = fst (register m') \<and>
      um_has_pending m' = (register m' \<noteq> register m) \<and>
      ua_apply_state rc = (if um_has_pending m' then Apply_reconciling else Apply_unchanged)
    else register m' = register m \<and> um_receipts m' = um_receipts m \<and>
      um_active_deployment m' = um_active_deployment m"
proof -
  have inv: "ucmgr_inv m" unfolding m by (rule ucmgr.run_inv [OF configured_state(1) [OF conf]])
  from ap show ?thesis
  proof (cases rule: apply_cases)
    case fresh
    show ?thesis
    proof (cases "st = Ok")
      case True
      with fresh(7) apply_new_register [OF inv fresh(1,3,6)] have
        "register m' = write_register (register m) (enabled (up_entries plan)) \<and>
          unat (ua_control_revision rc) = fst (register m') \<and>
          um_has_pending m' = (register m' \<noteq> register m) \<and>
          ua_apply_state rc = (if um_has_pending m' then Apply_reconciling else Apply_unchanged)"
        by blast
      moreover have "unat (up_expected_control_revision plan) = fst (register m)"
        by (simp add: fresh(4) register_def)
      ultimately show ?thesis using True fresh(2) by simp
    next
      case False
      from fresh(7) have same: "um_control m' = um_control m \<and> um_receipts m' = um_receipts m \<and>
          um_active_deployment m' = um_active_deployment m"
      proof (cases rule: apply_new_cases)
        case rejected
        have "um_active_deployment m' = um_active_deployment m" by (subst rejected(5)) simp
        with rejected(3,4) show ?thesis by simp
      qed (use False in simp_all)
      with False show ?thesis by (simp add: register_def)
    qed
  qed simp_all
qed

text \<open>
  C19. Requests are idempotent: once a new plan was accepted, repeating it returns the same
  receipt and changes nothing, whatever else was called in between, as long as fewer than
  64 other plans were offered.
\<close>

theorem ucmgr_retry_returns_receipt:
  assumes conf: "ucmgr_configure None trusted base models ucmgr_initial = (Ok, m0)"
    and m: "m = fold ucmgr_step ops m0"
    and fresh: "find (\<lambda>r. rr_request_id r = up_request_id plan) (um_receipts m) = None"
    and ap: "ucmgr_apply_desired_plan alloc plan m rc0 = (Ok, m1, rc)"
    and few: "length (filter is_apply later) < 64" and alloc: "aa_entries alloc'"
  shows "ucmgr_apply_desired_plan alloc' plan (fold ucmgr_step later m1) rc1 =
    (Ok, fold ucmgr_step later m1, rc)"
proof -
  have inv: "ucmgr_inv m" unfolding m by (rule ucmgr.run_inv [OF configured_state(1) [OF conf]])
  note inv1 = ucmgr_apply_inv [OF inv ap]
  define r where "r = \<lparr>rr_request_id = up_request_id plan,
    rr_expected_control_revision = up_expected_control_revision plan,
    rr_entries = ucmgr_sort (up_entries plan), rr_receipt = rc\<rparr>"
  have stored: "\<exists>older. um_receipts m1 = older @ [r]" and conf1: "um_configured m1"
    and ok: "ident_is_valid (up_request_id plan) ucc_max_request_id_bytes"
      "length (up_entries plan) \<le> uca_max_associations"
      "ucmgr_entries_valid None (ucmgr_sort (up_entries plan))"
  proof -
    show "ident_is_valid (up_request_id plan) ucc_max_request_id_bytes"
      "length (up_entries plan) \<le> uca_max_associations"
      "ucmgr_entries_valid None (ucmgr_sort (up_entries plan))"
      using ap by (auto simp: ucmgr_apply_desired_plan_def Let_def split: if_splits)
    have "(\<exists>older. um_receipts m1 = older @ [r]) \<and> um_configured m1"
      using ap
    proof (cases rule: apply_cases)
      case new: fresh
      from new(7) show ?thesis
      proof (cases rule: apply_new_cases)
        case (unchanged rs)
        show ?thesis
          using new(1) by (subst (1 2) unchanged(5)) (simp add: ucmgr_store_receipt_def r_def)
      next
        case (changed rs control activation effective)
        show ?thesis
          using new(1) by (subst (1 2) changed(8)) (simp add: ucmgr_store_receipt_def r_def)
      qed simp
    qed (use fresh in simp_all)
    then show "\<exists>older. um_receipts m1 = older @ [r]" "um_configured m1" by blast+
  qed
  have "kept 0 r m1" using stored by (auto simp: kept_def)
  then have kept: "kept (0 + length (filter is_apply later)) r (fold ucmgr_step later m1)"
    using few by (intro run_kept [OF inv1 conf1]) (simp_all add: ucc_max_idempotency_receipts_def)
  have conf2: "um_configured (fold ucmgr_step later m1)"
    using run_trust [OF inv1, of later] conf1 by (simp add: same_trust_def)
  have "find (\<lambda>q. rr_request_id q = up_request_id plan) (um_receipts (fold ucmgr_step later m1)) = Some r"
    using kept_found [OF ucmgr.run_inv [OF inv1] conf2 kept] by (simp add: r_def)
  with conf2 ok alloc show ?thesis
    by (simp add: ucmgr_apply_desired_plan_def Let_def entries_equal_iff r_def)
qed

text \<open>
  C20. A failed generation cannot be retried: after the runtime owner failed the pending
  generation, offering the same wanted set again under a new request is accepted as
  \<open>unchanged\<close>: no generation becomes pending, the old deployment stays active and the failure
  stays reported.
\<close>

theorem ucmgr_failed_plan_not_retried:
  assumes conf: "ucmgr_configure None trusted base models ucmgr_initial = (Ok, m0)"
    and m: "m = fold ucmgr_step ops m0"
    and failed: "ucmgr_fail_pending revision reason m = (Ok, m1)"
    and fresh: "find (\<lambda>r. rr_request_id r = up_request_id plan) (um_receipts m1) = None"
    and same: "enabled (up_entries plan) = wanted (uk_requests (um_control m))"
    and ap: "ucmgr_apply_desired_plan alloc plan m1 rc0 = (Ok, m2, rc)"
  shows "ua_accepted rc \<and> ua_apply_state rc = Apply_unchanged \<and> \<not> um_has_pending m2 \<and>
    um_active_deployment m2 = um_active_deployment m \<and> um_pending_failure m2 = reason \<and> reason \<noteq> Ok"
proof -
  have inv: "ucmgr_inv m" unfolding m by (rule ucmgr.run_inv [OF configured_state(1) [OF conf]])
  have m1: "um_control m1 = um_control m" "\<not> um_has_pending m1" "um_pending_failure m1 = reason"
    "um_active_deployment m1 = um_active_deployment m" and reason: "reason \<noteq> Ok"
    using failed by (auto simp: ucmgr_fail_pending_def split: if_splits)
  have "m1 = ucmgr_step (Fail_pending revision reason) m" using failed by simp
  then have inv1: "ucmgr_inv m1" using ucmgr_step_inv [OF inv] by blast
  from ap show ?thesis
  proof (cases rule: apply_cases)
    case new: fresh
    from apply_new_register [OF inv1 new(1,3,6,7)] same m1(1)
    have idle: "\<not> um_has_pending m2" and "ua_apply_state rc = Apply_unchanged"
      by (simp_all add: register_def write_register_def)
    from new(7) show ?thesis
    proof (cases rule: apply_new_cases)
      case (unchanged rs)
      have "um_active_deployment m2 = um_active_deployment m1" "um_pending_failure m2 = um_pending_failure m1"
        by (subst unchanged(5), simp)+
      then show ?thesis using idle m1 reason unchanged(4) by simp
    next
      case (changed rs control activation effective)
      have "um_has_pending m2" by (subst changed(8)) simp
      with idle show ?thesis by simp
    qed simp
  qed (use fresh in simp_all)
qed

text \<open>The demonstration deployment under control, its first generation running.\<close>

definition demo_trusted :: usecase_control_snapshot where
  "demo_trusted = \<lparr>uk_control_revision = 7, uk_entitlement_revision = 1, uk_deployment_revision = 1,
     uk_catalog = demo_usecases, uk_requests = demo_requests\<rparr>"

definition demo_manager :: usecase_control_manager where
  "demo_manager = snd (ucmgr_configure None demo_trusted demo_deployment demo_catalog ucmgr_initial)"

definition demo_alloc :: apply_allocations where
  "demo_alloc = \<lparr>aa_entries = True, aa_receipt = True, aa_candidate = True, aa_publication = True\<rparr>"

definition demo_plan :: "string \<Rightarrow> u64 \<Rightarrow> usecase_desired_entry list \<Rightarrow> usecase_desired_plan" where
  "demo_plan name revision entries = \<lparr>up_request_id = name, up_expected_control_revision = revision,
     up_entries = entries\<rparr>"

lemma demo_configured:
  "ucmgr_configure None demo_trusted demo_deployment demo_catalog ucmgr_initial = (Ok, demo_manager)"
proof -
  have "fst (ucmgr_configure None demo_trusted demo_deployment demo_catalog ucmgr_initial) = Ok"
    by code_simp
  from ok_pair [OF this] show ?thesis by (simp only: demo_manager_def)
qed

theorem ucmgr_only_entitled_runs_witness:
  "\<exists>s \<in> set (dc_sources (um_active_deployment demo_manager)). \<exists>k \<in> set (sd_model_ids s).
     \<exists>q \<in> set (uk_requests demo_trusted). uq_source_id q = sd_source_id s \<and> uq_entitlement_granted q"
proof -
  have s: "hd (dc_sources (um_active_deployment demo_manager)) \<in>
      set (dc_sources (um_active_deployment demo_manager))" by code_simp
  have k: "''det'' \<in> set (sd_model_ids (hd (dc_sources (um_active_deployment demo_manager))))"
    by code_simp
  have m: "demo_manager = fold ucmgr_step [] demo_manager" by simp
  have d: "um_active_deployment demo_manager \<in> (if um_has_pending demo_manager
      then {um_active_deployment demo_manager, um_pending_deployment demo_manager}
      else {um_active_deployment demo_manager})" by simp
  from ucmgr_only_entitled_runs [OF demo_configured m d s k] s k show ?thesis by blast
qed

definition demo_change :: "status \<times> usecase_control_manager \<times> usecase_apply_receipt" where
  "demo_change = ucmgr_apply_desired_plan demo_alloc (demo_plan ''off'' 7 [])
     (fold ucmgr_step [Publish_initial 1] demo_manager) blank_receipt"

lemma demo_change_ok:
  "ucmgr_apply_desired_plan demo_alloc (demo_plan ''off'' 7 [])
     (fold ucmgr_step [Publish_initial 1] demo_manager) blank_receipt =
   (Ok, fst (snd demo_change), snd (snd demo_change))"
proof -
  have "fst demo_change = Ok" by code_simp
  from ok_triple [OF this] show ?thesis by (simp only: demo_change_def)
qed

lemma demo_change_new:
  "find (\<lambda>r. rr_request_id r = up_request_id (demo_plan ''off'' 7 []))
     (um_receipts (fold ucmgr_step [Publish_initial 1] demo_manager)) = None"
  by code_simp

theorem ucmgr_plan_is_compare_and_swap_witness:
  "register (fst (snd demo_change)) =
     write_register (register (fold ucmgr_step [Publish_initial 1] demo_manager))
       (enabled (up_entries (demo_plan ''off'' 7 [])))"
  using ucmgr_plan_is_compare_and_swap [OF demo_configured refl demo_change_ok] demo_change_new
  by simp

theorem ucmgr_retry_returns_receipt_witness:
  "ucmgr_apply_desired_plan demo_alloc (demo_plan ''off'' 7 [])
     (fold ucmgr_step [Publish_pending 8 2] (fst (snd demo_change))) blank_receipt =
   (Ok, fold ucmgr_step [Publish_pending 8 2] (fst (snd demo_change)), snd (snd demo_change))"
  by (rule ucmgr_retry_returns_receipt [OF demo_configured refl demo_change_new demo_change_ok])
    (simp_all add: is_apply_def demo_alloc_def)

definition demo_failed :: "status \<times> usecase_control_manager" where
  "demo_failed = ucmgr_fail_pending 8 Invalid_state (fst (snd demo_change))"

definition demo_again :: "status \<times> usecase_control_manager \<times> usecase_apply_receipt" where
  "demo_again = ucmgr_apply_desired_plan demo_alloc (demo_plan ''off_again'' 8 []) (snd demo_failed)
     blank_receipt"

theorem ucmgr_failed_plan_not_retried_witness:
  "ua_apply_state (snd (snd demo_again)) = Apply_unchanged \<and> \<not> um_has_pending (fst (snd demo_again))"
proof -
  have m: "fst (snd demo_change) =
      fold ucmgr_step [Publish_initial 1, Apply demo_alloc (demo_plan ''off'' 7 [])] demo_manager"
    by (simp add: demo_change_def)
  have "fst demo_failed = Ok" by code_simp
  from ok_pair [OF this] have failed:
    "ucmgr_fail_pending 8 Invalid_state (fst (snd demo_change)) = (Ok, snd demo_failed)"
    by (simp only: demo_failed_def)
  have "fst demo_again = Ok" by code_simp
  from ok_triple [OF this] have again:
    "ucmgr_apply_desired_plan demo_alloc (demo_plan ''off_again'' 8 []) (snd demo_failed) blank_receipt =
      (Ok, fst (snd demo_again), snd (snd demo_again))"
    by (simp only: demo_again_def)
  have new: "find (\<lambda>r. rr_request_id r = up_request_id (demo_plan ''off_again'' 8 []))
      (um_receipts (snd demo_failed)) = None" by code_simp
  have same: "enabled (up_entries (demo_plan ''off_again'' 8 [])) =
      wanted (uk_requests (um_control (fst (snd demo_change))))" by code_simp
  from ucmgr_failed_plan_not_retried [OF demo_configured m failed new same again] show ?thesis by blast
qed

end
