(* ===== verification/Float_Arith.thy ===== *)
theory Float_Arith
  imports Float_Compare "HOL-Library.Log_Nat"
begin

text \<open>
  IEEE 754 arithmetic on the values of \<open>Float_Compare\<close>: the exact result rounded to nearest,
  ties to even, with gradual underflow and overflow to infinity. \<open>float\<close> is the format
  \<open>binary32\<close> and \<open>double\<close> is \<open>binary64\<close>. The sign of zero is not kept, so a division by zero
  is left to the operations that need one.
\<close>

record ieee_format =
  ff_precision :: nat
  ff_emin :: int
  ff_emax :: int

definition binary32 :: ieee_format where
  "binary32 = \<lparr>ff_precision = 24, ff_emin = - 126, ff_emax = 127\<rparr>"

definition binary64 :: ieee_format where
  "binary64 = \<lparr>ff_precision = 53, ff_emin = - 1022, ff_emax = 1023\<rparr>"

text \<open>The exponent \<open>e\<close> with \<open>2 ^ e <= q < 2 ^ (e + 1)\<close> of a positive number.\<close>

definition exponent_of :: "rat \<Rightarrow> int" where
  "exponent_of q =
     (let (n, d) = quotient_of q; e = bitlen n - bitlen d
      in if 2 powi e \<le> q then e else e - 1)"

definition round_even :: "rat \<Rightarrow> int" where
  "round_even x =
     (let f = \<lfloor>x\<rfloor>; rest = x - of_int f
      in if rest < 1 / 2 then f else if rest > 1 / 2 then f + 1
         else if even f then f else f + 1)"

definition ulp_of :: "ieee_format \<Rightarrow> rat \<Rightarrow> rat" where
  "ulp_of fmt q = 2 powi (max (exponent_of \<bar>q\<bar>) (ff_emin fmt) - (int (ff_precision fmt) - 1))"

definition fp_round :: "ieee_format \<Rightarrow> rat \<Rightarrow> fp" where
  "fp_round fmt q =
     (if q = 0 then Finite 0
      else
        (let ulp = ulp_of fmt q; r = of_int (round_even (q / ulp)) * ulp
         in if \<bar>r\<bar> \<ge> 2 powi (ff_emax fmt + 1)
            then (if q > 0 then Pos_infinity else Neg_infinity) else Finite r))"

fun fp_neg :: "fp \<Rightarrow> fp" where
  "fp_neg (Finite a) = Finite (- a)"
| "fp_neg Pos_infinity = Neg_infinity"
| "fp_neg Neg_infinity = Pos_infinity"
| "fp_neg Not_a_number = Not_a_number"

fun fp_add :: "ieee_format \<Rightarrow> fp \<Rightarrow> fp \<Rightarrow> fp" where
  "fp_add fmt (Finite a) (Finite b) = fp_round fmt (a + b)"
| "fp_add fmt Not_a_number _ = Not_a_number"
| "fp_add fmt _ Not_a_number = Not_a_number"
| "fp_add fmt Pos_infinity Neg_infinity = Not_a_number"
| "fp_add fmt Neg_infinity Pos_infinity = Not_a_number"
| "fp_add fmt Pos_infinity _ = Pos_infinity"
| "fp_add fmt Neg_infinity _ = Neg_infinity"
| "fp_add fmt _ Pos_infinity = Pos_infinity"
| "fp_add fmt _ Neg_infinity = Neg_infinity"

definition fp_sub :: "ieee_format \<Rightarrow> fp \<Rightarrow> fp \<Rightarrow> fp" where
  "fp_sub fmt a b = fp_add fmt a (fp_neg b)"

definition fp_sign_infinity :: "bool \<Rightarrow> fp" where
  "fp_sign_infinity positive = (if positive then Pos_infinity else Neg_infinity)"

fun fp_mul :: "ieee_format \<Rightarrow> fp \<Rightarrow> fp \<Rightarrow> fp" where
  "fp_mul fmt (Finite a) (Finite b) = fp_round fmt (a * b)"
| "fp_mul fmt Not_a_number _ = Not_a_number"
| "fp_mul fmt _ Not_a_number = Not_a_number"
| "fp_mul fmt (Finite a) Pos_infinity = (if a = 0 then Not_a_number else fp_sign_infinity (a > 0))"
| "fp_mul fmt (Finite a) Neg_infinity = (if a = 0 then Not_a_number else fp_sign_infinity (a < 0))"
| "fp_mul fmt Pos_infinity (Finite b) = (if b = 0 then Not_a_number else fp_sign_infinity (b > 0))"
| "fp_mul fmt Neg_infinity (Finite b) = (if b = 0 then Not_a_number else fp_sign_infinity (b < 0))"
| "fp_mul fmt Pos_infinity Pos_infinity = Pos_infinity"
| "fp_mul fmt Neg_infinity Neg_infinity = Pos_infinity"
| "fp_mul fmt Pos_infinity Neg_infinity = Neg_infinity"
| "fp_mul fmt Neg_infinity Pos_infinity = Neg_infinity"

text \<open>Division by a number that is not zero.\<close>

definition fp_div_finite :: "ieee_format \<Rightarrow> rat \<Rightarrow> rat \<Rightarrow> fp" where
  "fp_div_finite fmt a b = fp_round fmt (a / b)"

definition fp_of_nat :: "nat \<Rightarrow> fp" where "fp_of_nat n = Finite (of_nat n)"

section \<open>How far rounding moves a number\<close>

lemma round_even_near: "\<bar>of_int (round_even x) - x\<bar> \<le> 1 / 2"
proof -
  define f where "f = \<lfloor>x\<rfloor>"
  have "of_int f \<le> x" "x < of_int f + 1" unfolding f_def by linarith+
  then show ?thesis unfolding round_even_def Let_def f_def [symmetric] by (auto simp: abs_if)
qed

lemma round_even_le: "x \<le> of_int n \<Longrightarrow> round_even x \<le> n"
proof -
  assume le: "x \<le> of_int n"
  show "round_even x \<le> n"
  proof (cases "\<lfloor>x\<rfloor> = n")
    case True
    with le have "x = of_int \<lfloor>x\<rfloor>" by linarith
    then have "x - of_int \<lfloor>x\<rfloor> = 0" by linarith
    with True show ?thesis by (simp add: round_even_def Let_def)
  next
    case False
    then have "\<lfloor>x\<rfloor> + 1 \<le> n" using le by linarith
    then show ?thesis by (auto simp: round_even_def Let_def)
  qed
qed

lemma exponent_of_bounds:
  assumes "0 < q"
  shows "2 powi exponent_of q \<le> q" "q < 2 powi (exponent_of q + 1)"
proof -
  obtain n d where nd: "quotient_of q = (n, d)" by fastforce
  have d: "0 < d" by (rule quotient_of_denom_pos [OF nd])
  have q: "q = of_int n / of_int d" by (rule quotient_of_div [OF nd])
  have n: "0 < n" using assms d unfolding q by (simp add: zero_less_divide_iff)
  let ?a = "nat (bitlen n)" and ?b = "nat (bitlen d)"
  have nat: "int ?a = bitlen n" "int ?b = bitlen d" by (simp_all add: bitlen_nonneg)
  have pos: "1 \<le> ?a" "1 \<le> ?b"
    using bitlen_eq_zero_iff [of n] bitlen_eq_zero_iff [of d] bitlen_nonneg [of n] bitlen_nonneg [of d] n d
    by linarith+
  have nb: "2 ^ (?a - 1) \<le> n" "n < 2 ^ ?a" and db: "2 ^ (?b - 1) \<le> d" "d < 2 ^ ?b"
    using bitlen_bounds [OF n] bitlen_bounds [OF d] nat pos by (simp_all add: nat_diff_distrib')
  have powi: "(2 :: rat) powi (bitlen n - bitlen d) = 2 ^ ?a / 2 ^ ?b"
  proof -
    have "(2 :: rat) powi bitlen n = 2 ^ ?a" "(2 :: rat) powi bitlen d = 2 ^ ?b"
      by (simp_all add: power_int_def bitlen_nonneg)
    then show ?thesis by (simp add: power_int_diff)
  qed
  have rn: "(2 :: rat) ^ (?a - 1) \<le> of_int n" "of_int n < (2 :: rat) ^ ?a"
    and rd: "(2 :: rat) ^ (?b - 1) \<le> of_int d" "of_int d < (2 :: rat) ^ ?b"
    using nb [folded of_int_le_iff [where 'a = rat] of_int_less_iff [where 'a = rat]]
      db [folded of_int_le_iff [where 'a = rat] of_int_less_iff [where 'a = rat]] by simp_all
  have a: "(2 :: rat) ^ ?a = 2 * 2 ^ (?a - 1)" "(2 :: rat) ^ ?b = 2 * 2 ^ (?b - 1)"
    using pos by (simp_all flip: power_Suc)
  have dpos: "(0 :: rat) < of_int d" using d by simp
  have less: "q < 2 * (2 powi (bitlen n - bitlen d))"
  proof -
    have "of_int n * (2 :: rat) ^ ?b < 2 ^ ?a * 2 ^ ?b" using rn(2) by simp
    also have "\<dots> \<le> 2 ^ ?a * (2 * of_int d)" using rd(1) a(2) by simp
    finally show ?thesis unfolding q powi using dpos by (simp add: field_simps)
  qed
  have ge: "2 powi (bitlen n - bitlen d) / 2 \<le> q"
  proof -
    have "(2 :: rat) ^ ?a * of_int d \<le> 2 ^ ?a * 2 ^ ?b" using rd(2) by simp
    also have "\<dots> \<le> (2 * of_int n) * 2 ^ ?b" using rn(1) a(1) by simp
    finally show ?thesis unfolding q powi using dpos by (simp add: field_simps)
  qed
  show "2 powi exponent_of q \<le> q" "q < 2 powi (exponent_of q + 1)"
    using less ge nd by (auto simp: exponent_of_def Let_def power_int_add power_int_diff mult.commute)
qed

lemma ulp_of_pos: "0 < ulp_of fmt q"
  by (simp add: ulp_of_def)

text \<open>Rounding moves a number by at most half a unit in its last place.\<close>

lemma fp_round_near:
  assumes "fp_round fmt q = Finite r" and "q \<noteq> 0"
  shows "\<bar>r - q\<bar> \<le> ulp_of fmt q / 2"
proof -
  let ?u = "ulp_of fmt q"
  have u: "0 < ?u" by (rule ulp_of_pos)
  have r: "r = of_int (round_even (q / ?u)) * ?u"
    using assms by (auto simp: fp_round_def Let_def split: if_splits)
  have "\<bar>r - q\<bar> = \<bar>of_int (round_even (q / ?u)) - q / ?u\<bar> * ?u"
    using u unfolding r abs_mult_pos [OF less_imp_le [OF u], symmetric] by (simp add: field_simps)
  also have "\<dots> \<le> 1 / 2 * ?u" using round_even_near [of "q / ?u"] u by (intro mult_right_mono) simp_all
  finally show ?thesis by simp
qed

text \<open>A normal number moves by at most its \<open>2 ^ precision\<close>-th part.\<close>

lemma fp_round_relative:
  assumes "fp_round fmt q = Finite r" and "2 powi ff_emin fmt \<le> q"
  shows "\<bar>r - q\<bar> \<le> q * (2 powi (- int (ff_precision fmt)))"
proof -
  have pos: "0 < q" using assms(2) by (meson less_le_trans zero_less_power_int zero_less_numeral)
  have e: "ff_emin fmt \<le> exponent_of q"
  proof (rule ccontr)
    assume "\<not> ff_emin fmt \<le> exponent_of q"
    then have "(2 :: rat) powi (exponent_of q + 1) \<le> 2 powi ff_emin fmt"
      by (intro power_int_increasing) simp_all
    with assms(2) exponent_of_bounds(2) [OF pos] show False by linarith
  qed
  then have "ulp_of fmt q / 2 = 2 powi exponent_of q * 2 powi (- int (ff_precision fmt))"
    using pos by (simp add: ulp_of_def power_int_diff power_int_add power_int_minus max_absorb1 field_simps)
  also have "\<dots> \<le> q * 2 powi (- int (ff_precision fmt))"
    using exponent_of_bounds(1) [OF pos] by (intro mult_right_mono) simp_all
  finally show ?thesis using fp_round_near [OF assms(1)] pos by simp
qed

text \<open>Natural numbers of at most \<open>precision\<close> bits are not rounded.\<close>

lemma round_even_of_int [simp]: "round_even (of_int k) = k"
  by (simp add: round_even_def Let_def)

lemma fp_round_nat:
  assumes "n < 2 ^ ff_precision fmt" and "ff_emin fmt \<le> 0" and "int (ff_precision fmt) \<le> ff_emax fmt + 1"
    and "0 < ff_precision fmt"
  shows "fp_round fmt (of_nat n) = Finite (of_nat n)"
proof (cases "n = 0")
  case False
  let ?q = "of_nat n :: rat" and ?p = "ff_precision fmt"
  have pos: "0 < ?q" using False by simp
  note e = exponent_of_bounds [OF pos]
  have small: "?q < 2 powi int ?p"
    using assms(1) [folded of_nat_less_iff [where 'a = rat]] by simp
  have low: "0 \<le> exponent_of ?q"
  proof (rule ccontr)
    assume "\<not> 0 \<le> exponent_of ?q"
    then have "(2 :: rat) powi (exponent_of ?q + 1) \<le> 2 powi 0" by (intro power_int_increasing) simp_all
    moreover have "1 \<le> ?q" using False by simp
    ultimately show False using e(2) by simp
  qed
  have high: "exponent_of ?q < int ?p"
  proof (rule ccontr)
    assume "\<not> exponent_of ?q < int ?p"
    then have "(2 :: rat) powi int ?p \<le> 2 powi exponent_of ?q" by (intro power_int_increasing) simp_all
    with e(1) small show False by linarith
  qed
  define j where "j = nat (int ?p - 1 - exponent_of ?q)"
  have ulp: "ulp_of fmt ?q = 1 / 2 ^ j"
  proof -
    have "exponent_of ?q - (int ?p - 1) = - int j" using high by (simp add: j_def)
    then show ?thesis
      using low assms(2) by (simp add: ulp_of_def max_absorb1 power_int_minus inverse_eq_divide)
  qed
  have whole: "?q / ulp_of fmt ?q = of_int (int n * 2 ^ j)" by (simp add: ulp)
  have "(2 :: rat) powi int ?p \<le> 2 powi (ff_emax fmt + 1)"
    using assms(3) by (intro power_int_increasing) simp_all
  then have fits: "\<not> 2 powi (ff_emax fmt + 1) \<le> ?q" using small by linarith
  have "of_int (round_even (?q / ulp_of fmt ?q)) * ulp_of fmt ?q = ?q"
    unfolding whole round_even_of_int by (simp add: ulp)
  with fits pos show ?thesis by (simp add: fp_round_def Let_def)
qed (simp add: fp_round_def)

lemma fp_round_numeral [simp]:
  "(numeral k :: nat) < 2 ^ 53 \<Longrightarrow> fp_round binary64 (numeral k) = Finite (numeral k)"
  "(numeral k :: nat) < 2 ^ 24 \<Longrightarrow> fp_round binary32 (numeral k) = Finite (numeral k)"
  "fp_round binary64 1 = Finite 1" "fp_round binary32 1 = Finite 1"
  using fp_round_nat [of "numeral k" binary64] fp_round_nat [of "numeral k" binary32]
    fp_round_nat [of 1 binary64] fp_round_nat [of 1 binary32]
  by (simp_all add: binary64_def binary32_def)

end
