(* ===== verification/Observation.thy ===== *)
theory Observation
  imports Preview_Contract Identifiers Float_Arith
begin

text \<open>
  What perception hands on: the overlay boxes of contracts/vqec_vision_preview_contract.hpp
  (prefix \<open>pvctr\<close>), and the observations of contracts/vqec_vision_observation.hpp with
  core/vqec_vision_observation.cpp (prefix \<open>obval\<close>). Coordinates and confidences are
  \<open>float\<close> values; the sum of a coordinate and an extent is computed in \<open>double\<close>.
\<close>

section \<open>Overlay boxes\<close>

definition pv_max_overlay_boxes :: nat where "pv_max_overlay_boxes = 128"
definition pv_max_label_bytes :: nat where "pv_max_label_bytes = 96"
definition pv_max_total_label_bytes :: nat where "pv_max_total_label_bytes = 4096"

record overlay_box =
  ob_x :: fp
  ob_y :: fp
  ob_width :: fp
  ob_height :: fp
  ob_rgba :: u32
  ob_label :: string

record overlay_batch =
  ov_frame :: preview_frame_key
  ov_geometry :: preview_geometry
  ov_policy_revision :: u64
  ov_prepared_monotonic_ns :: u64
  ov_boxes :: "overlay_box list"

definition fp_of_u32 :: "u32 \<Rightarrow> fp" where "fp_of_u32 w = fp_of_nat (unat w)"

definition printable :: "char \<Rightarrow> bool" where
  "printable c \<longleftrightarrow> (of_char c :: nat) \<ge> 32 \<and> (of_char c :: nat) \<le> 126"

definition pvctr_validate_box :: "overlay_box \<Rightarrow> preview_geometry \<Rightarrow> status" where
  "pvctr_validate_box b g =
     (if \<not> fp_is_finite (ob_x b) \<or> \<not> fp_is_finite (ob_y b) \<or> \<not> fp_is_finite (ob_width b) \<or>
         \<not> fp_is_finite (ob_height b) \<or> fp_less (ob_x b) (Finite 0) \<or> fp_less (ob_y b) (Finite 0) \<or>
         fp_le (ob_width b) (Finite 0) \<or> fp_le (ob_height b) (Finite 0) \<or>
         fp_less (fp_of_u32 (geo_width g)) (fp_add binary64 (ob_x b) (ob_width b)) \<or>
         fp_less (fp_of_u32 (geo_height g)) (fp_add binary64 (ob_y b) (ob_height b))
       then Invalid_argument
      else if length (ob_label b) > pv_max_label_bytes then Resource_exhausted
      else if \<not> list_all printable (ob_label b) then Unsupported
      else Ok)"

text \<open>The box loop: a box is checked, then its label is charged to the common label budget.\<close>

fun pvctr_boxes_from :: "preview_geometry \<Rightarrow> nat \<Rightarrow> overlay_box list \<Rightarrow> status" where
  "pvctr_boxes_from g label_bytes [] = Ok"
| "pvctr_boxes_from g label_bytes (b # rest) =
     and_then (pvctr_validate_box b g)
       (if length (ob_label b) > pv_max_total_label_bytes - label_bytes then Resource_exhausted
        else pvctr_boxes_from g (label_bytes + length (ob_label b)) rest)"

definition pvctr_validate_overlay ::
    "overlay_batch \<Rightarrow> preview_frame_key \<Rightarrow> preview_geometry \<Rightarrow> u64 \<Rightarrow> u64 \<Rightarrow> u64 \<Rightarrow> status" where
  "pvctr_validate_overlay batch expected_frame expected_geometry expected_revision now max_age =
     (let identity = pvctr_validate_identity (ov_frame batch) expected_frame
            (ov_geometry batch) expected_geometry
      in if identity \<noteq> Ok then identity
         else if expected_revision = 0 \<or> ov_policy_revision batch \<noteq> expected_revision then Unauthorized
         else if max_age = 0 \<or> ov_prepared_monotonic_ns batch > now then Invalid_argument
         else if now - ov_prepared_monotonic_ns batch > max_age then Timeout
         else if length (ov_boxes batch) > pv_max_overlay_boxes then Resource_exhausted
         else pvctr_boxes_from (ov_geometry batch) 0 (ov_boxes batch))"

section \<open>Observations\<close>

definition obs_max_observations :: nat where "obs_max_observations = 256"
definition obs_max_attributes :: nat where "obs_max_attributes = 32"
definition obs_max_identifier_bytes :: nat where "obs_max_identifier_bytes = 128"
definition obs_max_attribute_value_bytes :: nat where "obs_max_attribute_value_bytes = 512"
definition obs_max_landmark_points :: nat where "obs_max_landmark_points = 128"
definition obs_min_confidence :: fp where "obs_min_confidence = Finite 0"
definition obs_max_confidence :: fp where "obs_max_confidence = Finite 1"

datatype observation_quality =
    Quality_unknown | Quality_low | Quality_medium | Quality_high | Unlisted_quality nat

record observation_attribute =
  oa_schema_id :: string
  oa_schema_version :: string
  oa_value :: string
  oa_confidence :: fp
  oa_quality :: observation_quality
  oa_observed_at_ns :: u64
  oa_expires_at_ns :: u64

record landmark_point =
  lp_x :: fp
  lp_y :: fp

record observation_landmarks =
  ol_schema_id :: string
  ol_schema_version :: string
  ol_points :: "landmark_point list"

record observation =
  on_frame :: preview_frame_key
  on_track_id :: u64
  on_class_id :: string
  on_box :: overlay_box
  on_confidence :: fp
  on_quality :: observation_quality
  on_attributes :: "observation_attribute list"
  on_landmarks :: observation_landmarks

record observation_batch =
  ot_frame :: preview_frame_key
  ot_geometry :: preview_geometry
  ot_observations :: "observation list"

definition obval_valid_identifier :: "string \<Rightarrow> bool" where
  "obval_valid_identifier v = ident_is_valid v obs_max_identifier_bytes"

definition confidence_rejected :: "fp \<Rightarrow> bool" where
  "confidence_rejected c \<longleftrightarrow> \<not> fp_is_finite c \<or> fp_less c obs_min_confidence \<or>
     fp_less obs_max_confidence c"

definition obval_check_identity :: "bool \<Rightarrow> observation_batch \<Rightarrow> observation \<Rightarrow> status" where
  "obval_check_identity require_track_id batch item =
     and_then (pvctr_validate_identity (on_frame item) (ot_frame batch) (ot_geometry batch)
         (ot_geometry batch))
       (and_then (pvctr_validate_box (on_box item) (ot_geometry batch))
         (if (require_track_id \<and> on_track_id item = 0) \<or> \<not> obval_valid_identifier (on_class_id item) \<or>
             confidence_rejected (on_confidence item) \<or>
             length (on_attributes item) > obs_max_attributes then Invalid_argument else Ok))"

definition obval_check_track :: "observation list \<Rightarrow> observation \<Rightarrow> status" where
  "obval_check_track seen item =
     (if on_track_id item \<noteq> 0 \<and> (\<exists>p \<in> set seen. on_track_id p = on_track_id item)
      then Invalid_argument else Ok)"

definition obval_check_landmarks :: "preview_geometry \<Rightarrow> observation_landmarks \<Rightarrow> status" where
  "obval_check_landmarks g l =
     (if (ol_points l \<noteq> [] \<and> (\<not> obval_valid_identifier (ol_schema_id l) \<or>
            \<not> obval_valid_identifier (ol_schema_version l))) \<or>
         (ol_points l = [] \<and> (ol_schema_id l \<noteq> [] \<or> ol_schema_version l \<noteq> [])) \<or>
         length (ol_points l) > obs_max_landmark_points then Invalid_argument
      else if list_ex (\<lambda>p. \<not> fp_is_finite (lp_x p) \<or> \<not> fp_is_finite (lp_y p) \<or>
          fp_less (lp_x p) (Finite 0) \<or> fp_less (lp_y p) (Finite 0) \<or>
          fp_le (fp_of_u32 (geo_width g)) (lp_x p) \<or> fp_le (fp_of_u32 (geo_height g)) (lp_y p))
          (ol_points l) then Invalid_argument
      else Ok)"

definition obval_check_attribute ::
    "observation_attribute list \<Rightarrow> observation_attribute \<Rightarrow> status" where
  "obval_check_attribute seen a =
     (if \<not> obval_valid_identifier (oa_schema_id a) \<or> \<not> obval_valid_identifier (oa_schema_version a) \<or>
         length (oa_value a) > obs_max_attribute_value_bytes \<or> confidence_rejected (oa_confidence a) \<or>
         oa_observed_at_ns a > oa_expires_at_ns a \<or> oa_expires_at_ns a = UINT64_MAX
       then Invalid_argument
      else if \<exists>p \<in> set seen. oa_schema_id p = oa_schema_id a \<and>
          oa_schema_version p = oa_schema_version a then Invalid_argument
      else Ok)"

definition obval_check_item ::
    "bool \<Rightarrow> observation_batch \<Rightarrow> observation list \<Rightarrow> observation \<Rightarrow> status" where
  "obval_check_item require_track_id batch seen item =
     and_then (obval_check_identity require_track_id batch item)
       (and_then (obval_check_track seen item)
         (and_then (obval_check_landmarks (ot_geometry batch) (on_landmarks item))
           (validate_items obval_check_attribute [] (on_attributes item))))"

definition obval_validate_observations ::
    "observation_batch \<Rightarrow> preview_frame_key \<Rightarrow> preview_geometry \<Rightarrow> bool \<Rightarrow> status" where
  "obval_validate_observations batch expected_frame expected_geometry require_track_id =
     and_then (pvctr_validate_identity (ot_frame batch) expected_frame (ot_geometry batch)
         expected_geometry)
       (if length (ot_observations batch) > obs_max_observations then Resource_exhausted
        else validate_items (obval_check_item require_track_id batch) [] (ot_observations batch))"

definition obval_validate_detections ::
    "observation_batch \<Rightarrow> preview_frame_key \<Rightarrow> preview_geometry \<Rightarrow> status" where
  "obval_validate_detections batch expected_frame expected_geometry =
     obval_validate_observations batch expected_frame expected_geometry False"

definition obval_validate_batch ::
    "observation_batch \<Rightarrow> preview_frame_key \<Rightarrow> preview_geometry \<Rightarrow> status" where
  "obval_validate_batch batch expected_frame expected_geometry =
     obval_validate_observations batch expected_frame expected_geometry True"

section \<open>What a valid batch is\<close>

text \<open>
  An accepted box lies in the frame up to the rounding of one \<open>double\<close> addition.
\<close>

definition inside :: "fp \<Rightarrow> fp \<Rightarrow> u32 \<Rightarrow> bool" where
  "inside x extent limit \<longleftrightarrow>
     (\<exists>a e. x = Finite a \<and> extent = Finite e \<and> 0 \<le> a \<and> 0 < e \<and>
        (a + e) * (1 - 1 / 2 ^ 53) \<le> of_nat (unat limit))"

lemma sum_inside:
  assumes "fp_is_finite x" "fp_is_finite extent" "\<not> fp_less x (Finite 0)" "\<not> fp_le extent (Finite 0)"
    "\<not> fp_less (fp_of_u32 limit) (fp_add binary64 x extent)" and some: "limit \<noteq> 0"
  shows "inside x extent limit"
proof -
  obtain a e where xe: "x = Finite a" "extent = Finite e" "0 \<le> a" "0 < e"
    using assms(1-4) by (cases x; cases extent) (auto simp: fp_less_def)
  let ?L = "of_nat (unat limit) :: rat" and ?s = "a + e"
  have pos: "0 < ?s" using xe by linarith
  have L: "1 \<le> ?L" using some by (metis of_nat_1 of_nat_le_iff One_nat_def Suc_leI unat_gt_0)
  have "?s * (1 - 1 / 2 ^ 53) \<le> ?L"
  proof (cases "2 powi ff_emin binary64 \<le> ?s")
    case False
    moreover have "(2 :: rat) powi ff_emin binary64 \<le> 2 powi 0"
      by (rule power_int_increasing) (simp_all add: binary64_def)
    ultimately have "?s \<le> 1" by simp
    then have "?s * (1 - 1 / 2 ^ 53) \<le> 1" using pos by (intro mult_le_one) simp_all
    then show ?thesis using L by linarith
  next
    case True
    obtain r where r: "fp_round binary64 ?s = Finite r" "r \<le> ?L"
      using assms(5) xe pos
      by (cases "fp_round binary64 ?s")
        (auto simp: fp_less_def fp_of_u32_def fp_of_nat_def fp_round_def Let_def split: if_splits)
    from fp_round_relative [OF r(1) True] have "\<bar>r - ?s\<bar> \<le> ?s / 2 ^ 53"
      by (simp add: binary64_def power_int_minus field_simps)
    then have "?s - ?s / 2 ^ 53 \<le> r" by linarith
    moreover have "?s * (1 - 1 / 2 ^ 53) = ?s - ?s / 2 ^ 53" by (simp only: right_diff_distrib) simp
    ultimately show ?thesis using r(2) by linarith
  qed
  with xe show ?thesis by (auto simp: inside_def)
qed

lemma valid_box:
  assumes "pvctr_validate_box b g = Ok" and "geometry_supported g"
  shows "inside (ob_x b) (ob_width b) (geo_width g)" "inside (ob_y b) (ob_height b) (geo_height g)"
    "length (ob_label b) \<le> 96" "list_all printable (ob_label b)"
proof -
  have g: "geo_width g \<noteq> 0" "geo_height g \<noteq> 0" using assms(2) by (simp_all add: geometry_supported_def)
  show "inside (ob_x b) (ob_width b) (geo_width g)" "inside (ob_y b) (ob_height b) (geo_height g)"
    using assms(1) g by (auto simp: pvctr_validate_box_def intro!: sum_inside split: if_splits)
  show "length (ob_label b) \<le> 96" "list_all printable (ob_label b)"
    using assms(1) by (auto simp: pvctr_validate_box_def pv_max_label_bytes_def split: if_splits)
qed

text \<open>The label budget of an overlay is exact: the subtraction in the loop cannot wrap.\<close>

lemma boxes_from_Ok:
  "n \<le> pv_max_total_label_bytes \<Longrightarrow> pvctr_boxes_from g n bs = Ok \<longleftrightarrow>
     (\<forall>b \<in> set bs. pvctr_validate_box b g = Ok) \<and>
     n + sum_list (map (\<lambda>b. length (ob_label b)) bs) \<le> pv_max_total_label_bytes"
proof (induction bs arbitrary: n)
  case Nil
  then show ?case by simp
next
  case (Cons b bs)
  show ?case
  proof (cases "length (ob_label b) > pv_max_total_label_bytes - n")
    case True
    then show ?thesis using Cons.prems by auto
  next
    case False
    then have "n + length (ob_label b) \<le> pv_max_total_label_bytes" using Cons.prems by simp
    from Cons.IH [OF this] False show ?thesis by (auto simp: add.assoc)
  qed
qed

definition confidence_ok :: "fp \<Rightarrow> bool" where
  "confidence_ok c \<longleftrightarrow> (\<exists>q. c = Finite q \<and> 0 \<le> q \<and> q \<le> 1)"

lemma confidence_rejected_iff: "confidence_rejected c \<longleftrightarrow> \<not> confidence_ok c"
  by (cases c) (auto simp: confidence_rejected_def confidence_ok_def fp_less_def
      obs_min_confidence_def obs_max_confidence_def)

definition landmark_inside :: "preview_geometry \<Rightarrow> landmark_point \<Rightarrow> bool" where
  "landmark_inside g p \<longleftrightarrow> (\<exists>x y. lp_x p = Finite x \<and> lp_y p = Finite y \<and> 0 \<le> x \<and> 0 \<le> y \<and>
     x < of_nat (unat (geo_width g)) \<and> y < of_nat (unat (geo_height g)))"

lemma landmark_rejected_iff:
  "(\<not> fp_is_finite (lp_x p) \<or> \<not> fp_is_finite (lp_y p) \<or> fp_less (lp_x p) (Finite 0) \<or>
     fp_less (lp_y p) (Finite 0) \<or> fp_le (fp_of_u32 (geo_width g)) (lp_x p) \<or>
     fp_le (fp_of_u32 (geo_height g)) (lp_y p)) \<longleftrightarrow> \<not> landmark_inside g p"
  by (cases "lp_x p"; cases "lp_y p")
    (auto simp: landmark_inside_def fp_less_def fp_of_u32_def fp_of_nat_def)

text \<open>A valid item on its own; which of its fields are compared between items is the track.\<close>

definition observation_ok :: "bool \<Rightarrow> observation_batch \<Rightarrow> observation \<Rightarrow> bool" where
  "observation_ok require_track_id batch item \<longleftrightarrow>
     on_frame item = ot_frame batch \<and> geometry_supported (ot_geometry batch) \<and>
     inside (ob_x (on_box item)) (ob_width (on_box item)) (geo_width (ot_geometry batch)) \<and>
     inside (ob_y (on_box item)) (ob_height (on_box item)) (geo_height (ot_geometry batch)) \<and>
     (require_track_id \<longrightarrow> on_track_id item \<noteq> 0) \<and> confidence_ok (on_confidence item) \<and>
     list_all (landmark_inside (ot_geometry batch)) (ol_points (on_landmarks item)) \<and>
     list_all (\<lambda>a. confidence_ok (oa_confidence a) \<and> oa_observed_at_ns a \<le> oa_expires_at_ns a)
       (on_attributes item) \<and>
     distinct (map (\<lambda>a. (oa_schema_id a, oa_schema_version a)) (on_attributes item)) \<and>
     length (on_attributes item) \<le> 32 \<and> length (ol_points (on_landmarks item)) \<le> 128"

lemma check_attributes_Ok:
  assumes "validate_items obval_check_attribute [] as = Ok"
  shows "list_all (\<lambda>a. confidence_ok (oa_confidence a) \<and> oa_observed_at_ns a \<le> oa_expires_at_ns a) as"
    "distinct (map (\<lambda>a. (oa_schema_id a, oa_schema_version a)) as)"
proof -
  let ?good = "\<lambda>a. obval_valid_identifier (oa_schema_id a) \<and> obval_valid_identifier (oa_schema_version a) \<and>
      length (oa_value a) \<le> obs_max_attribute_value_bytes \<and> confidence_ok (oa_confidence a) \<and>
      oa_observed_at_ns a \<le> oa_expires_at_ns a \<and> oa_expires_at_ns a \<noteq> UINT64_MAX"
  have "obval_check_attribute prev a = Ok \<longleftrightarrow> ?good a \<and>
      (\<forall>p \<in> set prev. (oa_schema_id p, oa_schema_version p) \<noteq> (oa_schema_id a, oa_schema_version a))"
    for prev a
    by (auto simp: obval_check_attribute_def confidence_rejected_iff not_less)
  from validate_distinct_Ok [OF this] assms
  show "list_all (\<lambda>a. confidence_ok (oa_confidence a) \<and> oa_observed_at_ns a \<le> oa_expires_at_ns a) as"
    "distinct (map (\<lambda>a. (oa_schema_id a, oa_schema_version a)) as)"
    by (auto simp: list_all_iff)
qed

lemma check_item_Ok:
  assumes "obval_check_item require_track_id batch seen item = Ok"
  shows "observation_ok require_track_id batch item"
    "on_track_id item \<noteq> 0 \<Longrightarrow> \<forall>p \<in> set seen. on_track_id p \<noteq> on_track_id item"
proof -
  note ok = assms [unfolded obval_check_item_def and_then_Ok]
  have id: "obval_check_identity require_track_id batch item = Ok"
    and lm: "obval_check_landmarks (ot_geometry batch) (on_landmarks item) = Ok"
    and at: "validate_items obval_check_attribute [] (on_attributes item) = Ok" using ok by auto
  have ident: "pvctr_validate_identity (on_frame item) (ot_frame batch) (ot_geometry batch)
      (ot_geometry batch) = Ok" and box: "pvctr_validate_box (on_box item) (ot_geometry batch) = Ok"
    using id by (simp_all add: obval_check_identity_def)
  have rest: "require_track_id \<longrightarrow> on_track_id item \<noteq> 0" "confidence_ok (on_confidence item)"
    "length (on_attributes item) \<le> 32"
    using id by (auto simp: obval_check_identity_def confidence_rejected_iff obs_max_attributes_def
        split: if_splits)
  have "list_all (landmark_inside (ot_geometry batch)) (ol_points (on_landmarks item))"
    "length (ol_points (on_landmarks item)) \<le> 128"
    using lm unfolding obval_check_landmarks_def landmark_rejected_iff
    by (auto simp: list_all_iff list_ex_iff obs_max_landmark_points_def split: if_splits)
  with identity_Ok [THEN iffD1, OF ident] valid_box(1,2) [OF box] rest check_attributes_Ok [OF at]
  show "observation_ok require_track_id batch item" by (simp add: observation_ok_def)
  show "on_track_id item \<noteq> 0 \<Longrightarrow> \<forall>p \<in> set seen. on_track_id p \<noteq> on_track_id item"
    using ok by (auto simp: obval_check_track_def split: if_splits)
qed

lemma validate_observations_Ok:
  assumes "obval_validate_observations batch frame geometry require_track_id = Ok"
  shows "ot_frame batch = frame" "ot_geometry batch = geometry" "length (ot_observations batch) \<le> 256"
    "list_all (observation_ok require_track_id batch) (ot_observations batch)"
    "distinct (filter (\<lambda>t. t \<noteq> 0) (map on_track_id (ot_observations batch)))"
proof -
  let ?os = "ot_observations batch"
  note ok = assms [unfolded obval_validate_observations_def and_then_Ok]
  have items: "obval_check_item require_track_id batch (take i ?os) (?os ! i) = Ok" if "i < length ?os" for i
    using ok that by (auto simp: validate_items_Ok split: if_splits)
  show "ot_frame batch = frame" "ot_geometry batch = geometry" using ok identity_Ok by blast+
  show "length ?os \<le> 256" using ok by (auto simp: obs_max_observations_def split: if_splits)
  show "list_all (observation_ok require_track_id batch) ?os"
    using check_item_Ok(1) [OF items] by (simp add: list_all_length)
  show "distinct (filter (\<lambda>t. t \<noteq> 0) (map on_track_id ?os))"
    unfolding no_earlier_nonzero_key_distinct [symmetric] using check_item_Ok(2) [OF items] by blast
qed

text \<open>
  A batch of tracked observations that is accepted belongs to the expected frame, has at most
  256 items, each item lies in the picture (boxes up to the rounding of one double addition,
  landmark points exactly), with confidences in [0, 1] that are numbers and attributes in date
  order, and its track ids are nonzero and pairwise different.
\<close>

lemma obval_batch_sound:
  assumes "obval_validate_batch batch frame geometry = Ok"
  shows "ot_frame batch = frame \<and> ot_geometry batch = geometry \<and>
    length (ot_observations batch) \<le> 256 \<and>
    list_all (observation_ok True batch) (ot_observations batch) \<and>
    distinct (map on_track_id (ot_observations batch)) \<and>
    0 \<notin> set (map on_track_id (ot_observations batch))"
proof -
  let ?tracks = "map on_track_id (ot_observations batch)"
  note ok = validate_observations_Ok [OF assms [unfolded obval_validate_batch_def]]
  have nonzero: "0 \<notin> set ?tracks" using ok(4) by (auto simp: list_all_iff observation_ok_def)
  then have "filter (\<lambda>t. t \<noteq> 0) ?tracks = ?tracks" by (intro filter_True) auto
  with ok nonzero show ?thesis by simp
qed

definition demo_track :: "u64 \<Rightarrow> rat \<Rightarrow> observation" where
  "demo_track track x = \<lparr>on_frame = \<lparr>fk_camera_id = 1, fk_channel_id = 0, fk_source_epoch = 1,
       fk_frame_id = 5, fk_source_pts_ns = 100\<rparr>, on_track_id = track, on_class_id = ''person'',
     on_box = \<lparr>ob_x = Finite x, ob_y = Finite 2, ob_width = Finite 8, ob_height = Finite 4,
       ob_rgba = 255, ob_label = ''p''\<rparr>, on_confidence = Finite (1 / 2), on_quality = Quality_high,
     on_attributes = [], on_landmarks = \<lparr>ol_schema_id = ''face5'', ol_schema_version = ''1'',
       ol_points = [\<lparr>lp_x = Finite x, lp_y = Finite 3\<rparr>]\<rparr>\<rparr>"

definition demo_batch :: observation_batch where
  "demo_batch = \<lparr>ot_frame = on_frame (demo_track 1 0), ot_geometry = \<lparr>geo_width = 64, geo_height = 32\<rparr>,
     ot_observations = [demo_track 1 0, demo_track 2 1]\<rparr>"

lemma demo_identifiers [simp]:
  "obval_valid_identifier ''person''" "obval_valid_identifier ''face5''" "obval_valid_identifier ''1''"
  "printable CHR ''p''"
  by code_simp+

theorem obval_batch_sound_witness:
  "distinct (map on_track_id (ot_observations demo_batch))"
proof -
  have "obval_validate_batch demo_batch (ot_frame demo_batch) (ot_geometry demo_batch) = Ok"
    by (simp add: obval_validate_batch_def obval_validate_observations_def demo_batch_def demo_track_def
        obval_check_item_def obval_check_identity_def obval_check_track_def obval_check_landmarks_def
        pvctr_validate_box_def pvctr_validate_identity_def fp_less_def fp_of_u32_def fp_of_nat_def
        confidence_rejected_def obs_min_confidence_def obs_max_confidence_def obs_max_attributes_def
        obs_max_landmark_points_def obs_max_observations_def pv_max_label_bytes_def
        geometry_supported_def pv_max_dimension_pixels_def nvgeo_is_even_nonzero_def)
  from obval_batch_sound [OF this] show ?thesis by blast
qed

end
