(* ===== verification/Early_Return.thy ===== *)
theory Early_Return
  imports Prelude
begin

text \<open>
  Functions of the code are chains of guards that return an error early. The collection
  \<open>early_return\<close> turns "this chain returned \<open>Ok\<close>" into "every guard was passed", one guard at a time.
\<close>

named_theorems early_return \<open>a chain of guards that returned a given success\<close>

lemma error_then_pair [early_return]:
  "e \<noteq> e' \<Longrightarrow> (if c then (e, x) else r) = (e', y) \<longleftrightarrow> \<not> c \<and> r = (e', y)"
  "e \<noteq> e' \<Longrightarrow> (if c then r else (e, x)) = (e', y) \<longleftrightarrow> c \<and> r = (e', y)"
  by auto

lemma error_passed_on [early_return]:
  "(if e \<noteq> e' then (e, x) else r) = (e', y) \<longleftrightarrow> e = e' \<and> r = (e', y)"
  "(if e \<noteq> e' then (e, x, z) else r') = (e', y') \<longleftrightarrow> e = e' \<and> r' = (e', y')"
  by auto

lemma error_then_status [early_return]:
  "e \<noteq> e' \<Longrightarrow> (if c then e else r) = e' \<longleftrightarrow> \<not> c \<and> r = (e' :: status)"
  "e \<noteq> e' \<Longrightarrow> (if c then r else e) = e' \<longleftrightarrow> c \<and> r = (e' :: status)"
  by auto

lemma none_then_some [early_return]:
  "(if c then None else r) = Some y \<longleftrightarrow> \<not> c \<and> r = Some y"
  "(if c then r else None) = Some y \<longleftrightarrow> c \<and> r = Some y"
  by auto

end
