(* ===== verification/Camera_Control.thy ===== *)
theory Camera_Control
  imports Identifiers Early_Return
begin

text \<open>
  The control owner of one camera stream: adapters/camera/vqec_vision_camera_control.{hpp,cpp}
  (prefix \<open>cctrl\<close>) over the constants of vqec_vision_camera_protocol.hpp (prefix \<open>cp\<close>).

  The remote service is the environment: an operation takes the transport status and the
  fields the call would return (a \<open>std::map\<close>, here an association list with distinct keys), and
  hands back the call it made, if it made one. The lemmas show that the sequence of calls is
  always one the lease protocol \<open>lease_step\<close> allows, however the service answers.
\<close>

section \<open>Protocol\<close>

definition cp_start_stream :: string where "cp_start_stream = ''StartStream''"
definition cp_stop_stream :: string where "cp_stop_stream = ''StopStream''"
definition cp_camera_id_field :: string where "cp_camera_id_field = ''camera_id''"
definition cp_channel_id_field :: string where "cp_channel_id_field = ''channel_id''"
definition cp_stream_id_field :: string where "cp_stream_id_field = ''stream_id''"
definition cp_transport_field :: string where "cp_transport_field = ''transport''"
definition cp_consumer_id_field :: string where "cp_consumer_id_field = ''consumer_id''"
definition cp_request_id_field :: string where "cp_request_id_field = ''request_id''"
definition cp_stream_handle_field :: string where "cp_stream_handle_field = ''stream_handle''"
definition cp_code_field :: string where "cp_code_field = ''code''"
definition cp_codec_field :: string where "cp_codec_field = ''codec''"
definition cp_width_field :: string where "cp_width_field = ''width''"
definition cp_height_field :: string where "cp_height_field = ''height''"
definition cp_fps_field :: string where "cp_fps_field = ''fps''"
definition cp_raw_codec :: string where "cp_raw_codec = ''RAW''"
definition cp_ai_stream :: string where "cp_ai_stream = ''third''"
definition cp_fd_transport :: string where "cp_fd_transport = ''dmabuf''"
definition cp_code_ok :: u32 where "cp_code_ok = 0"
definition cp_code_invalid_argument :: u32 where "cp_code_invalid_argument = 1001"
definition cp_code_not_found :: u32 where "cp_code_not_found = 1002"
definition cp_code_invalid_profile :: u32 where "cp_code_invalid_profile = 1003"
definition cp_code_not_running :: u32 where "cp_code_not_running = 1005"
definition cp_code_busy :: u32 where "cp_code_busy = 1006"
definition cp_code_timeout :: u32 where "cp_code_timeout = 1007"
definition cp_code_unsupported :: u32 where "cp_code_unsupported = 1008"
definition cp_code_permission_denied :: u32 where "cp_code_permission_denied = 1009"
definition cp_code_resource_exhausted :: u32 where "cp_code_resource_exhausted = 2004"
definition cp_code_version_mismatch :: u32 where "cp_code_version_mismatch = 9001"
definition cp_max_call_timeout_ms :: int where "cp_max_call_timeout_ms = 60000"
definition cp_max_fields :: nat where "cp_max_fields = 64"
definition cp_max_key_bytes :: nat where "cp_max_key_bytes = 128"
definition cp_max_value_bytes :: nat where "cp_max_value_bytes = 4096"
definition cp_max_field_bytes :: nat where "cp_max_field_bytes = 16384"
definition cp_max_identifier_bytes :: nat where "cp_max_identifier_bytes = 128"
definition cp_max_handle_bytes :: nat where "cp_max_handle_bytes = 1024"

type_synonym camera_fields = "(string \<times> string) list"
type_synonym rpc_reply = "status \<times> camera_fields"

record rpc_call =
  rp_method :: string
  rp_fields :: camera_fields
  rp_timeout_ms :: int

section \<open>Decimal text\<close>

text \<open>\<open>std::to_string\<close> and \<open>std::from_chars\<close> of a \<open>std::uint32_t\<close>: digits only, no sign, no overflow.\<close>

definition digit_char :: "nat \<Rightarrow> char" where "digit_char d = char_of (48 + d)"
definition digit_value :: "char \<Rightarrow> nat" where "digit_value c = of_char c - 48"
definition is_digit :: "char \<Rightarrow> bool" where
  "is_digit c \<longleftrightarrow> 48 \<le> (of_char c :: nat) \<and> (of_char c :: nat) \<le> 57"

fun decimal_of :: "nat \<Rightarrow> string" where
  "decimal_of n = (if n < 10 then [digit_char n] else decimal_of (n div 10) @ [digit_char (n mod 10)])"

declare decimal_of.simps [simp del]

definition decimal_value :: "string \<Rightarrow> int" where
  "decimal_value text = foldl (\<lambda>n c. 10 * n + int (digit_value c)) 0 text"

definition u32_to_string :: "u32 \<Rightarrow> string" where "u32_to_string w = decimal_of (unat w)"

definition u32_from_chars :: "string \<Rightarrow> u32 option" where
  "u32_from_chars text =
     (if text = [] \<or> \<not> list_all is_digit text \<or> decimal_value text \<ge> 2 ^ 32 then None
      else Some (word_of_int (decimal_value text)))"

lemma digit_of [simp]: "d < 10 \<Longrightarrow> digit_value (digit_char d) = d" "d < 10 \<Longrightarrow> is_digit (digit_char d)"
  by (simp_all add: digit_value_def digit_char_def is_digit_def of_char_of)

lemma decimal_of_digits: "decimal_of n \<noteq> [] \<and> list_all is_digit (decimal_of n)"
  by (induction n rule: decimal_of.induct) (subst (1 2) decimal_of.simps, simp add: list_all_append)

lemma decimal_value_snoc: "decimal_value (s @ [c]) = 10 * decimal_value s + int (digit_value c)"
  by (simp add: decimal_value_def)

lemma decimal_value_of [simp]: "decimal_value (decimal_of n) = int n"
proof (induction n rule: decimal_of.induct)
  case (1 n)
  show ?case
  proof (cases "n < 10")
    case True
    then show ?thesis by (subst decimal_of.simps) (simp add: decimal_value_def)
  next
    case False
    then have "decimal_value (decimal_of n) = 10 * int (n div 10) + int (n mod 10)"
      using 1 by (subst decimal_of.simps) (simp add: decimal_value_snoc)
    then show ?thesis by (simp add: of_nat_div of_nat_mod)
  qed
qed

lemma u32_text_roundtrip [simp]: "u32_from_chars (u32_to_string w) = Some w"
  using decimal_of_digits [of "unat w"] uint_range_size [of w]
  by (simp add: u32_from_chars_def u32_to_string_def word_size)

section \<open>State\<close>

datatype camera_lease_state =
    Lease_idle | Lease_start_pending | Lease_acquired | Lease_stop_pending

record camera_acquire_request =
  aq_camera_id :: u32
  aq_channel_id :: u32
  aq_consumer_id :: string
  aq_request_id :: string

record camera_stream_profile =
  cm_width :: u32
  cm_height :: u32
  cm_fps :: u32
  cm_is_valid :: bool

record camera_control =
  cct_rpc :: bool
  cct_state :: camera_lease_state
  cct_request :: camera_acquire_request
  cct_stop_request_id :: string
  cct_handle :: string
  cct_profile :: camera_stream_profile

definition blank_acquire_request :: camera_acquire_request where
  "blank_acquire_request = \<lparr>aq_camera_id = 0, aq_channel_id = 0, aq_consumer_id = [], aq_request_id = []\<rparr>"

definition blank_stream_profile :: camera_stream_profile where
  "blank_stream_profile = \<lparr>cm_width = 0, cm_height = 0, cm_fps = 0, cm_is_valid = False\<rparr>"

definition cctrl_initial :: "bool \<Rightarrow> camera_control" where
  "cctrl_initial rpc = \<lparr>cct_rpc = rpc, cct_state = Lease_idle, cct_request = blank_acquire_request,
     cct_stop_request_id = [], cct_handle = [], cct_profile = blank_stream_profile\<rparr>"

section \<open>Operations\<close>

definition cctrl_is_identifier :: "string \<Rightarrow> bool" where
  "cctrl_is_identifier v = ident_is_valid v cp_max_identifier_bytes"

definition cctrl_read_number :: "camera_fields \<Rightarrow> string \<Rightarrow> u32 option" where
  "cctrl_read_number entries key =
     (case map_of entries key of None \<Rightarrow> None | Some text \<Rightarrow> u32_from_chars text)"

definition cctrl_code_status :: "u32 \<Rightarrow> status" where
  "cctrl_code_status code =
     (if code = cp_code_ok then Ok
      else if code = cp_code_invalid_argument \<or> code = cp_code_invalid_profile then Invalid_argument
      else if code = cp_code_not_found \<or> code = cp_code_not_running then Source_lost
      else if code = cp_code_busy \<or> code = cp_code_resource_exhausted then Resource_exhausted
      else if code = cp_code_timeout then Timeout
      else if code = cp_code_unsupported then Unsupported
      else if code = cp_code_permission_denied then Unauthorized
      else if code = cp_code_version_mismatch then Protocol_error
      else Io_error)"

definition cctrl_read_result :: "camera_fields \<Rightarrow> u32 \<Rightarrow> status \<times> u32" where
  "cctrl_read_result entries code0 =
     (if length entries > cp_max_fields then (Protocol_error, code0)
      else if list_ex (\<lambda>(key, text). length key > cp_max_key_bytes \<or> length text > cp_max_value_bytes)
          entries then (Protocol_error, code0)
      else if (\<Sum>(key, text) \<leftarrow> entries. length key + length text) > cp_max_field_bytes
        then (Protocol_error, code0)
      else (case cctrl_read_number entries cp_code_field of
          None \<Rightarrow> (Protocol_error, code0)
        | Some code \<Rightarrow> (cctrl_code_status code, code)))"

definition cctrl_read_profile :: "camera_fields \<Rightarrow> camera_stream_profile option" where
  "cctrl_read_profile response =
     (case (cctrl_read_number response cp_width_field, cctrl_read_number response cp_height_field,
            cctrl_read_number response cp_fps_field) of
        (Some width, Some height, Some fps) \<Rightarrow>
          if width = 0 \<or> height = 0 \<or> fps = 0 \<or> width AND 1 \<noteq> 0 \<or> height AND 1 \<noteq> 0 \<or>
             map_of response cp_codec_field \<noteq> Some cp_raw_codec then None
          else Some \<lparr>cm_width = width, cm_height = height, cm_fps = fps, cm_is_valid = True\<rparr>
      | _ \<Rightarrow> None)"

definition cctrl_handle_ok :: "camera_fields \<Rightarrow> string option" where
  "cctrl_handle_ok response =
     (case map_of response cp_stream_handle_field of
        None \<Rightarrow> None
      | Some handle \<Rightarrow>
          if handle = [] \<or> length handle > cp_max_handle_bytes \<or> CHR 0x00 \<in> set handle then None
          else Some handle)"

definition cctrl_start_fields :: "camera_acquire_request \<Rightarrow> camera_fields" where
  "cctrl_start_fields r =
     [(cp_camera_id_field, u32_to_string (aq_camera_id r)),
      (cp_channel_id_field, u32_to_string (aq_channel_id r)),
      (cp_stream_id_field, cp_ai_stream), (cp_transport_field, cp_fd_transport),
      (cp_consumer_id_field, aq_consumer_id r), (cp_request_id_field, aq_request_id r)]"

definition cctrl_start ::
    "camera_acquire_request \<Rightarrow> int \<Rightarrow> rpc_reply \<Rightarrow> camera_control \<Rightarrow>
       status \<times> camera_control \<times> rpc_call option" where
  "cctrl_start request timeout_ms reply c =
     (if \<not> cct_rpc c \<or> timeout_ms < 1 \<or> timeout_ms > cp_max_call_timeout_ms \<or>
         \<not> cctrl_is_identifier (aq_consumer_id request) \<or> \<not> cctrl_is_identifier (aq_request_id request)
        then (Invalid_argument, c, None)
      else if cct_state c = Lease_stop_pending then (Invalid_state, c, None)
      else if cct_state c \<noteq> Lease_idle \<and>
          (aq_camera_id request \<noteq> aq_camera_id (cct_request c) \<or>
           aq_channel_id request \<noteq> aq_channel_id (cct_request c) \<or>
           aq_consumer_id request \<noteq> aq_consumer_id (cct_request c) \<or>
           aq_request_id request \<noteq> aq_request_id (cct_request c)) then (Invalid_state, c, None)
      else if cct_state c = Lease_acquired
        then (if cm_is_valid (cct_profile c) then Ok else Protocol_error, c, None)
      else
        (let c1 = (if cct_state c = Lease_idle
                   then c\<lparr>cct_request := request, cct_state := Lease_start_pending\<rparr> else c);
             call = Some \<lparr>rp_method = cp_start_stream, rp_fields = cctrl_start_fields (cct_request c1),
                      rp_timeout_ms = timeout_ms\<rparr>;
             response = snd reply
         in if fst reply \<noteq> Ok then (fst reply, c1, call)
            else if fst (cctrl_read_result response (- 1)) \<noteq> Ok
              then (fst (cctrl_read_result response (- 1)), c1, call)
            else
              (case cctrl_handle_ok response of
                 None \<Rightarrow> (Protocol_error, c1, call)
               | Some handle \<Rightarrow>
                   (let c2 = c1\<lparr>cct_handle := handle, cct_state := Lease_acquired\<rparr> in
                    case cctrl_read_profile response of
                      None \<Rightarrow> (Protocol_error, c2, call)
                    | Some profile \<Rightarrow> (Ok, c2\<lparr>cct_profile := profile\<rparr>, call)))))"

definition cctrl_stop_fields :: "camera_control \<Rightarrow> camera_fields" where
  "cctrl_stop_fields c =
     [(cp_stream_handle_field, cct_handle c), (cp_stream_id_field, cp_ai_stream),
      (cp_consumer_id_field, aq_consumer_id (cct_request c)),
      (cp_request_id_field, cct_stop_request_id c)]"

definition cctrl_stop ::
    "string \<Rightarrow> int \<Rightarrow> rpc_reply \<Rightarrow> camera_control \<Rightarrow>
       status \<times> camera_control \<times> rpc_call option" where
  "cctrl_stop request_id timeout_ms reply c =
     (if \<not> cct_rpc c \<or> timeout_ms < 1 \<or> timeout_ms > cp_max_call_timeout_ms \<or>
         \<not> cctrl_is_identifier request_id then (Invalid_argument, c, None)
      else if cct_state c = Lease_idle then (Ok, c, None)
      else if cct_state c = Lease_start_pending then (Invalid_state, c, None)
      else if request_id = aq_request_id (cct_request c) \<or>
          (cct_state c = Lease_stop_pending \<and> request_id \<noteq> cct_stop_request_id c)
        then (Invalid_argument, c, None)
      else
        (let c1 = (if cct_state c = Lease_acquired
                   then c\<lparr>cct_stop_request_id := request_id, cct_state := Lease_stop_pending\<rparr> else c);
             call = Some \<lparr>rp_method = cp_stop_stream, rp_fields = cctrl_stop_fields c1,
                      rp_timeout_ms = timeout_ms\<rparr>
         in if fst reply \<noteq> Ok then (fst reply, c1, call)
            else
              (let (result, code) = cctrl_read_result (snd reply) (- 1)
               in if result \<noteq> Ok \<and> \<not> (result = Source_lost \<and> code = cp_code_not_found)
                  then (result, c1, call)
                  else (Ok, c1\<lparr>cct_state := Lease_idle, cct_handle := [], cct_stop_request_id := [],
                          cct_request := blank_acquire_request, cct_profile := blank_stream_profile\<rparr>,
                        call))))"

section \<open>The lease protocol\<close>

text \<open>
  What the service may see. A client asks for a stream with one request and repeats exactly
  that request until it is granted; a granted stream is given back, under the handle of the
  grant, by one stop request with an identity of its own, repeated until it is accepted. The
  state is what the two sides have to agree on; a timeout of a call does not matter.
\<close>

datatype lease =
    Free
  | Asking camera_acquire_request
  | Held camera_acquire_request string
  | Returning camera_acquire_request string string

definition grants :: "rpc_reply \<Rightarrow> string option" where
  "grants reply = (if fst reply = Ok \<and> fst (cctrl_read_result (snd reply) (- 1)) = Ok
     then cctrl_handle_ok (snd reply) else None)"

definition releases :: "rpc_reply \<Rightarrow> bool" where
  "releases reply \<longleftrightarrow> fst reply = Ok \<and>
     (let (result, code) = cctrl_read_result (snd reply) (- 1)
      in result = Ok \<or> (result = Source_lost \<and> code = cp_code_not_found))"

definition start_lease :: "camera_acquire_request \<Rightarrow> rpc_reply \<Rightarrow> lease" where
  "start_lease r reply = (case grants reply of None \<Rightarrow> Asking r | Some h \<Rightarrow> Held r h)"

definition stop_lease :: "camera_acquire_request \<Rightarrow> string \<Rightarrow> string \<Rightarrow> rpc_reply \<Rightarrow> lease" where
  "stop_lease r h sid reply = (if releases reply then Free else Returning r h sid)"

definition start_message :: "camera_acquire_request \<Rightarrow> string \<times> camera_fields" where
  "start_message r = (''StartStream'', cctrl_start_fields r)"

definition stop_message :: "camera_acquire_request \<Rightarrow> string \<Rightarrow> string \<Rightarrow> string \<times> camera_fields" where
  "stop_message r h sid = (''StopStream'', [(''stream_handle'', h), (''stream_id'', ''third''),
     (''consumer_id'', aq_consumer_id r), (''request_id'', sid)])"

definition message_of :: "rpc_call \<Rightarrow> string \<times> camera_fields" where
  "message_of call = (rp_method call, rp_fields call)"

inductive lease_step :: "lease \<Rightarrow> (string \<times> camera_fields) \<times> rpc_reply \<Rightarrow> lease \<Rightarrow> bool" where
  ask: "cctrl_is_identifier (aq_request_id r) \<Longrightarrow> cctrl_is_identifier (aq_consumer_id r) \<Longrightarrow>
    lease_step Free (start_message r, reply) (start_lease r reply)"
| ask_again: "lease_step (Asking r) (start_message r, reply) (start_lease r reply)"
| return: "cctrl_is_identifier sid \<Longrightarrow> sid \<noteq> aq_request_id r \<Longrightarrow>
    lease_step (Held r h) (stop_message r h sid, reply) (stop_lease r h sid reply)"
| return_again: "lease_step (Returning r h sid) (stop_message r h sid, reply) (stop_lease r h sid reply)"

inductive lease_run :: "lease \<Rightarrow> ((string \<times> camera_fields) \<times> rpc_reply) list \<Rightarrow> lease \<Rightarrow> bool" where
  stay [intro]: "lease_run l [] l"
| move [intro]: "lease_step l e l' \<Longrightarrow> lease_run l' es l'' \<Longrightarrow> lease_run l (e # es) l''"

definition cctrl_lease :: "camera_control \<Rightarrow> lease" where
  "cctrl_lease c =
     (case cct_state c of
        Lease_idle \<Rightarrow> Free
      | Lease_start_pending \<Rightarrow> Asking (cct_request c)
      | Lease_acquired \<Rightarrow> Held (cct_request c) (cct_handle c)
      | Lease_stop_pending \<Rightarrow> Returning (cct_request c) (cct_handle c) (cct_stop_request_id c))"

section \<open>Invariant\<close>

definition cctrl_inv :: "camera_control \<Rightarrow> bool" where
  "cctrl_inv c \<longleftrightarrow>
     (cct_state c \<noteq> Lease_idle \<longrightarrow> cctrl_is_identifier (aq_consumer_id (cct_request c)) \<and>
        cctrl_is_identifier (aq_request_id (cct_request c))) \<and>
     (cct_state c \<in> {Lease_acquired, Lease_stop_pending} \<longleftrightarrow> cct_handle c \<noteq> []) \<and>
     (cct_state c = Lease_stop_pending \<longrightarrow> cctrl_is_identifier (cct_stop_request_id c) \<and>
        cct_stop_request_id c \<noteq> aq_request_id (cct_request c)) \<and>
     (cct_state c \<in> {Lease_idle, Lease_start_pending} \<longrightarrow> cct_profile c = blank_stream_profile) \<and>
     (cm_is_valid (cct_profile c) \<longrightarrow> 0 < unat (cm_width (cct_profile c)) \<and>
        0 < unat (cm_height (cct_profile c)) \<and> 0 < unat (cm_fps (cct_profile c)))"

datatype camera_op =
    Ask camera_acquire_request int rpc_reply
  | Give_back string int rpc_reply

fun camera_op_result :: "camera_op \<Rightarrow> camera_control \<Rightarrow> status \<times> camera_control \<times> rpc_call option" where
  "camera_op_result (Ask request timeout_ms reply) c = cctrl_start request timeout_ms reply c"
| "camera_op_result (Give_back request_id timeout_ms reply) c = cctrl_stop request_id timeout_ms reply c"

fun camera_op_reply :: "camera_op \<Rightarrow> rpc_reply" where
  "camera_op_reply (Ask _ _ reply) = reply"
| "camera_op_reply (Give_back _ _ reply) = reply"

text \<open>A run collects the messages the service received with the replies it gave.\<close>

fun cctrl_run ::
    "camera_op list \<Rightarrow> camera_control \<Rightarrow> ((string \<times> camera_fields) \<times> rpc_reply) list \<times> camera_control" where
  "cctrl_run [] c = ([], c)"
| "cctrl_run (op # ops) c =
     (let (_, c1, call) = camera_op_result op c;
          (messages, c2) = cctrl_run ops c1
      in ((case call of None \<Rightarrow> [] | Some m \<Rightarrow> [(message_of m, camera_op_reply op)]) @ messages, c2))"

lemma cctrl_initial_inv [simp]: "cctrl_inv (cctrl_initial rpc)"
  by (simp add: cctrl_inv_def cctrl_initial_def blank_stream_profile_def)

lemma read_profile_valid:
  "cctrl_read_profile response = Some p \<Longrightarrow>
     0 < unat (cm_width p) \<and> 0 < unat (cm_height p) \<and> 0 < unat (cm_fps p) \<and> cm_is_valid p"
  by (auto simp: cctrl_read_profile_def unat_gt_0 split: option.splits if_splits)

lemma handle_ok_not_empty: "cctrl_handle_ok response = Some h \<Longrightarrow> h \<noteq> []"
  by (auto simp: cctrl_handle_ok_def split: option.splits if_splits)

text \<open>A start either makes no call and changes nothing, or makes the one call the lease allows.\<close>

lemma cctrl_start_effect:
  assumes "cctrl_start request timeout_ms reply c = (st, c', call)"
  obtains (quiet) "c' = c" "call = None" "st = Ok \<longrightarrow> cct_state c = Lease_acquired \<and> cm_is_valid (cct_profile c)"
  | (sent) m r where "call = Some m" "message_of m = start_message r" "cct_rpc c"
      "(cct_state c = Lease_idle \<and> r = request \<and> cctrl_is_identifier (aq_consumer_id r) \<and>
         cctrl_is_identifier (aq_request_id r)) \<or> (cct_state c = Lease_start_pending \<and> r = cct_request c)"
      "case grants reply of
         None \<Rightarrow> c' = c\<lparr>cct_request := r, cct_state := Lease_start_pending\<rparr> \<and> st \<noteq> Ok
       | Some h \<Rightarrow>
           (case cctrl_read_profile (snd reply) of
              None \<Rightarrow> c' = c\<lparr>cct_request := r, cct_handle := h, cct_state := Lease_acquired\<rparr> \<and> st \<noteq> Ok
            | Some p \<Rightarrow> c' = c\<lparr>cct_request := r, cct_handle := h, cct_state := Lease_acquired,
                cct_profile := p\<rparr> \<and> st = Ok)"
proof (cases "call")
  case None
  with assms have "c' = c" "st = Ok \<longrightarrow> cct_state c = Lease_acquired \<and> cm_is_valid (cct_profile c)"
    by (auto simp: cctrl_start_def Let_def split: if_splits option.splits)
  with None quiet show ?thesis by blast
next
  case (Some m)
  show ?thesis
  proof (rule sent [OF Some, of "if cct_state c = Lease_idle then request else cct_request c"])
  qed (use assms Some in \<open>cases "cct_state c"; force simp: cctrl_start_def Let_def grants_def message_of_def
      start_message_def cp_start_stream_def split: if_splits option.splits\<close>)+
qed

lemma cctrl_stop_effect:
  assumes "cctrl_stop request_id timeout_ms reply c = (st, c', call)"
  obtains (quiet) "c' = c" "call = None" "st = Ok \<longrightarrow> cct_state c = Lease_idle"
  | (sent) m where "call = Some m"
      "message_of m = stop_message (cct_request c) (cct_handle c) request_id"
      "cctrl_is_identifier request_id" "request_id \<noteq> aq_request_id (cct_request c)"
      "cct_state c = Lease_acquired \<or>
         (cct_state c = Lease_stop_pending \<and> request_id = cct_stop_request_id c)"
      "if releases reply then c' = cctrl_initial (cct_rpc c) \<and> st = Ok
       else c' = c\<lparr>cct_stop_request_id := request_id, cct_state := Lease_stop_pending\<rparr> \<and> st \<noteq> Ok"
proof (cases "call")
  case None
  with assms have "c' = c" "st = Ok \<longrightarrow> cct_state c = Lease_idle"
    by (auto simp: cctrl_stop_def Let_def split: if_splits prod.splits)
  with None quiet show ?thesis by blast
next
  case (Some m)
  show ?thesis
  proof (rule sent [OF Some])
  qed (use assms Some in \<open>cases "cct_state c"; force simp: cctrl_stop_def Let_def releases_def message_of_def
      stop_message_def cp_stop_stream_def cctrl_stop_fields_def cp_stream_handle_field_def
      cp_stream_id_field_def cp_ai_stream_def cp_consumer_id_field_def cp_request_id_field_def
      cctrl_initial_def split: if_splits prod.splits\<close>)+
qed

lemma cctrl_start_inv:
  assumes "cctrl_inv c" and "cctrl_start request timeout_ms reply c = (st, c', call)"
  shows "cctrl_inv c'"
  using assms(2)
proof (cases rule: cctrl_start_effect)
  case quiet
  then show ?thesis using assms(1) by simp
next
  case (sent m r)
  then show ?thesis using assms(1) read_profile_valid handle_ok_not_empty
    by (auto simp: cctrl_inv_def grants_def split: option.splits if_splits)
qed

lemma cctrl_stop_inv:
  assumes "cctrl_inv c" and "cctrl_stop request_id timeout_ms reply c = (st, c', call)"
  shows "cctrl_inv c'"
  using assms(2)
proof (cases rule: cctrl_stop_effect)
  case quiet
  then show ?thesis using assms(1) by simp
next
  case (sent m)
  show ?thesis
  proof (cases "releases reply")
    case True
    then show ?thesis using sent(6) by simp
  next
    case False
    then have "c' = c\<lparr>cct_stop_request_id := request_id, cct_state := Lease_stop_pending\<rparr>"
      using sent(6) by simp
    with sent(3-5) assms(1) show ?thesis unfolding cctrl_inv_def by auto
  qed
qed

text \<open>One operation is at most one step of the lease.\<close>

lemma camera_op_lease:
  assumes "camera_op_result op c = (st, c', call)"
  shows "case call of None \<Rightarrow> c' = c
    | Some m \<Rightarrow> lease_step (cctrl_lease c) (message_of m, camera_op_reply op) (cctrl_lease c')"
proof (cases op)
  case (Ask request timeout_ms reply)
  with assms have "cctrl_start request timeout_ms reply c = (st, c', call)" by simp
  then show ?thesis
  proof (cases rule: cctrl_start_effect)
    case quiet
    then show ?thesis by simp
  next
    case (sent m r)
    have after: "cctrl_lease c' = start_lease r reply"
      using sent(5) by (auto simp: cctrl_lease_def start_lease_def split: option.splits)
    from sent(4) have "cctrl_lease c = Free \<and> cctrl_is_identifier (aq_consumer_id r) \<and>
        cctrl_is_identifier (aq_request_id r) \<or> cctrl_lease c = Asking r"
      by (auto simp: cctrl_lease_def)
    then show ?thesis
      using lease_step.ask [of r reply] lease_step.ask_again [of r reply] sent(1,2) Ask
      by (auto simp: after)
  qed
next
  case (Give_back request_id timeout_ms reply)
  with assms have "cctrl_stop request_id timeout_ms reply c = (st, c', call)" by simp
  then show ?thesis
  proof (cases rule: cctrl_stop_effect)
    case quiet
    then show ?thesis by simp
  next
    case (sent m)
    have after: "cctrl_lease c' = stop_lease (cct_request c) (cct_handle c) request_id reply"
      using sent(6) by (auto simp: cctrl_lease_def stop_lease_def cctrl_initial_def split: if_splits)
    from sent(5) have "cctrl_lease c = Held (cct_request c) (cct_handle c) \<or>
        cctrl_lease c = Returning (cct_request c) (cct_handle c) request_id"
      by (auto simp: cctrl_lease_def)
    then show ?thesis
      using lease_step.return [OF sent(3,4), of "cct_handle c" reply]
        lease_step.return_again [of "cct_request c" "cct_handle c" request_id reply] sent(1,2) Give_back
      by (auto simp: after)
  qed
qed

lemma cctrl_run_lease: "cctrl_run ops c = (messages, c') \<Longrightarrow>
    lease_run (cctrl_lease c) messages (cctrl_lease c')"
proof (induction ops arbitrary: c messages c')
  case (Cons op ops)
  obtain st c1 call where first: "camera_op_result op c = (st, c1, call)" by (metis prod_cases3)
  obtain rest c2 where run: "cctrl_run ops c1 = (rest, c2)" by fastforce
  note IH = Cons.IH [OF run]
  show ?case using Cons.prems first run camera_op_lease [OF first] IH
    by (auto split: option.splits)
qed auto

lemma cctrl_run_inv: "cctrl_run ops c = (messages, c') \<Longrightarrow> cctrl_inv c \<Longrightarrow> cctrl_inv c'"
proof (induction ops arbitrary: c messages c')
  case (Cons op ops)
  obtain st c1 call where first: "camera_op_result op c = (st, c1, call)" by (metis prod_cases3)
  obtain rest c2 where run: "cctrl_run ops c1 = (rest, c2)" by fastforce
  have "cctrl_inv c1"
    using first Cons.prems(2) by (cases op) (auto dest: cctrl_start_inv cctrl_stop_inv)
  with Cons.IH [OF run] show ?case using Cons.prems(1) first run by simp
qed simp

text \<open>
  C23. Whatever operations are called and however the camera service answers or fails to answer,
  the requests it receives follow the lease protocol: a stream is asked for with one unchanging
  request until it is granted, a granted stream is given back under its own handle by one
  unchanging stop request with an identity of its own, and no second stream is ever asked for
  before the first one is back. The lease the service holds for the client is the one the
  client's state says it has.
\<close>

theorem cctrl_follows_lease_protocol:
  "lease_run Free (fst (cctrl_run ops (cctrl_initial rpc)))
     (cctrl_lease (snd (cctrl_run ops (cctrl_initial rpc))))"
proof -
  have "lease_run (cctrl_lease (cctrl_initial rpc)) (fst (cctrl_run ops (cctrl_initial rpc)))
     (cctrl_lease (snd (cctrl_run ops (cctrl_initial rpc))))"
    by (rule cctrl_run_lease) simp
  then show ?thesis by (simp add: cctrl_lease_def cctrl_initial_def)
qed

end
