(* ===== verification/Legacy_Wire.thy ===== *)
theory Legacy_Wire
  imports Raw_Source Deployment_Config Early_Return
begin

text \<open>
  The frame header of the camera service: adapters/camera/vqec_vision_legacy_wire.{hpp,cpp}
  (prefix \<open>lwire\<close>), 104 bytes in the byte order of the host (\<open>big\<close> for a big-endian one). The
  lemmas show that every accepted frame can be read without leaving its allocation and that
  its planes do not overlap, and that what a producer writes is what is decoded.
\<close>

section \<open>Layout\<close>

definition lw_header_bytes :: nat where "lw_header_bytes = 104"
definition lw_width_offset :: nat where "lw_width_offset = 8"
definition lw_height_offset :: nat where "lw_height_offset = 12"
definition lw_format_offset :: nat where "lw_format_offset = 16"
definition lw_plane_count_offset :: nat where "lw_plane_count_offset = 20"
definition lw_plane_offsets_offset :: nat where "lw_plane_offsets_offset = 24"
definition lw_plane_strides_offset :: nat where "lw_plane_strides_offset = 40"
definition lw_plane_field_bytes :: nat where "lw_plane_field_bytes = 4"
definition lw_view_size_offset :: nat where "lw_view_size_offset = 56"
definition lw_memory_offset_offset :: nat where "lw_memory_offset_offset = 64"
definition lw_allocation_size_offset :: nat where "lw_allocation_size_offset = 72"
definition lw_pts_offset :: nat where "lw_pts_offset = 80"
definition lw_dts_offset :: nat where "lw_dts_offset = 88"
definition lw_duration_offset :: nat where "lw_duration_offset = 96"
definition lw_nv12_planes :: u32 where "lw_nv12_planes = 2"

lemmas wire_layout = lw_header_bytes_def lw_width_offset_def lw_height_offset_def
  lw_format_offset_def lw_plane_count_offset_def lw_plane_offsets_offset_def
  lw_plane_strides_offset_def lw_plane_field_bytes_def lw_view_size_offset_def
  lw_memory_offset_offset_def lw_allocation_size_offset_def lw_pts_offset_def lw_dts_offset_def
  lw_duration_offset_def

record legacy_frame_limits =
  lf_nv12_format_value :: u32
  lf_max_width :: u32
  lf_max_height :: u32
  lf_max_allocation_bytes :: u64

text \<open>\<open>std::memcpy\<close> of a field: the first byte is the least significant one on a little-endian host.\<close>

fun word_of_bytes :: "u8 list \<Rightarrow> 'a::len word" where
  "word_of_bytes [] = 0"
| "word_of_bytes (b # bs) = push_bit 8 (word_of_bytes bs) OR ucast b"

definition lwire_read_field :: "bool \<Rightarrow> nat \<Rightarrow> u8 list \<Rightarrow> nat \<Rightarrow> 'a::len word" where
  "lwire_read_field big count packet offset =
     (let field = take count (drop offset packet)
      in word_of_bytes (if big then rev field else field))"

section \<open>Operations\<close>

definition lwire_make_limits ::
    "source_deployment_config \<Rightarrow> u32 \<Rightarrow> legacy_frame_limits \<Rightarrow> status \<times> legacy_frame_limits" where
  "lwire_make_limits s nv12_format_value limits0 =
     (let width = pf_width (sd_profile s); height = pf_height (sd_profile s);
          pixels = (ucast width :: u64) * ucast height;
          packed_bytes = pixels + pixels div 2;
          budget = sm_max_frame_allocation_bytes (sd_memory s)
      in if sd_raw_source_ref s = [] \<or> nv12_format_value = 0 \<or> width = 0 \<or> height = 0 \<or>
            width > dpl_max_dimension_pixels \<or> height > dpl_max_dimension_pixels \<or>
            width mod 2 \<noteq> 0 \<or> height mod 2 \<noteq> 0 then (Invalid_argument, limits0)
         else if budget < packed_bytes \<or> budget > dpl_max_frame_allocation_bytes
           then (Invalid_argument, limits0)
         else (Ok, \<lparr>lf_nv12_format_value = nv12_format_value, lf_max_width = width,
                lf_max_height = height, lf_max_allocation_bytes = budget\<rparr>))"

text \<open>One plane: its offset, stride and end, or the \<open>protocol_error\<close> return.\<close>

definition lwire_plane ::
    "bool \<Rightarrow> u8 list \<Rightarrow> u32 \<Rightarrow> u32 \<Rightarrow> u64 \<Rightarrow> nat \<Rightarrow> (u32 \<times> u32 \<times> u64) option" where
  "lwire_plane big packet width height view_size plane =
     (let offset = lwire_read_field big 4 packet (lw_plane_offsets_offset + plane * lw_plane_field_bytes);
          stride = lwire_read_field big 4 packet (lw_plane_strides_offset + plane * lw_plane_field_bytes)
      in if sint stride \<le> 0 \<or> stride < width then None
         else
           (let rows = (if plane = 0 then ucast height else ucast (height div 2)) :: u64;
                ends = ucast offset + rows * ucast stride
            in if ends > view_size then None else Some (offset, stride, ends)))"

definition lwire_decode_frame ::
    "bool \<Rightarrow> u8 list option \<Rightarrow> nat \<Rightarrow> legacy_frame_limits \<Rightarrow> frame_descriptor \<Rightarrow>
       status \<times> frame_descriptor" where
  "lwire_decode_frame big bytes count limits frame0 =
     (if lf_nv12_format_value limits = 0 \<or> lf_max_width limits = 0 \<or> lf_max_height limits = 0 \<or>
         lf_max_allocation_bytes limits = 0 then (Invalid_argument, frame0)
      else
        (case bytes of
           None \<Rightarrow> (Protocol_error, frame0)
         | Some packet \<Rightarrow>
           (let buffer_id = lwire_read_field big 8 packet 0 :: u64;
                width = lwire_read_field big 4 packet lw_width_offset :: u32;
                height = lwire_read_field big 4 packet lw_height_offset :: u32;
                format = lwire_read_field big 4 packet lw_format_offset :: u32;
                planes = lwire_read_field big 4 packet lw_plane_count_offset :: u32;
                view_size = lwire_read_field big 8 packet lw_view_size_offset :: u64;
                memory_offset = lwire_read_field big 8 packet lw_memory_offset_offset :: u64;
                allocation_size = lwire_read_field big 8 packet lw_allocation_size_offset :: u64
            in if count \<noteq> lw_header_bytes then (Protocol_error, frame0)
               else if format \<noteq> lf_nv12_format_value limits \<or> planes \<noteq> lw_nv12_planes
                 then (Unsupported, frame0)
               else if buffer_id = 0 \<or> width = 0 \<or> height = 0 \<or> width AND 1 \<noteq> 0 \<or>
                   height AND 1 \<noteq> 0 \<or> width > lf_max_width limits \<or> height > lf_max_height limits
                 then (Protocol_error, frame0)
               else if allocation_size = 0 \<or> allocation_size > lf_max_allocation_bytes limits \<or>
                   memory_offset > allocation_size \<or> view_size > allocation_size - memory_offset
                 then (Protocol_error, frame0)
               else
                 (case lwire_plane big packet width height view_size 0 of
                    None \<Rightarrow> (Protocol_error, frame0)
                  | Some (offset0, stride0, end0) \<Rightarrow>
                 (case lwire_plane big packet width height view_size 1 of
                    None \<Rightarrow> (Protocol_error, frame0)
                  | Some (offset1, stride1, end1) \<Rightarrow>
                      if ucast offset0 < end1 \<and> ucast offset1 < end0 then (Protocol_error, frame0)
                      else (Ok, \<lparr>fd_buffer_id = buffer_id, fd_session_epoch = 0, fd_width = width,
                             fd_height = height, fd_offsets = (offset0, offset1),
                             fd_strides = (stride0, stride1), fd_view_size_bytes = view_size,
                             fd_memory_offset_bytes = memory_offset,
                             fd_allocation_size_bytes = allocation_size,
                             fd_pts_ns = lwire_read_field big 8 packet lw_pts_offset,
                             fd_dts_ns = lwire_read_field big 8 packet lw_dts_offset,
                             fd_duration_ns = lwire_read_field big 8 packet lw_duration_offset\<rparr>))))))"

section \<open>Fields\<close>

lemma bit_word_of_bytes:
  "bit (word_of_bytes bs :: 'a::len word) i \<longleftrightarrow>
     i < LENGTH('a) \<and> i div 8 < length bs \<and> bit (bs ! (i div 8)) (i mod 8)"
proof (induction bs arbitrary: i)
  case Nil
  show ?case by simp
next
  case (Cons b bs)
  show ?case
  proof (cases "i < 8")
    case True
    then show ?thesis by (auto simp: bit_or_iff bit_push_bit_iff bit_unsigned_iff)
  next
    case False
    then have i: "i = 8 + (i - 8)" "i div 8 = Suc ((i - 8) div 8)" "i mod 8 = (i - 8) mod 8"
      by (simp_all add: le_div_geq le_mod_geq)
    have "\<not> bit b i" using False by (auto dest: bit_imp_le_length)
    then show ?thesis
      using False Cons.IH [of "i - 8"] i(2,3)
      by (auto simp: bit_or_iff bit_push_bit_iff bit_unsigned_iff possible_bit_def)
  qed
qed

definition bytes_of_word :: "nat \<Rightarrow> 'a::len word \<Rightarrow> u8 list" where
  "bytes_of_word n w = map (\<lambda>i. ucast (drop_bit (8 * i) w)) [0..<n]"

lemma length_bytes_of_word [simp]: "length (bytes_of_word n w) = n"
  by (simp add: bytes_of_word_def)

lemma word_of_bytes_of_word:
  assumes "LENGTH('a) = 8 * n"
  shows "word_of_bytes (bytes_of_word n w) = (w :: 'a::len word)"
proof (rule bit_word_eqI)
  fix i assume i: "i < LENGTH('a)"
  then have "i div 8 < n" using assms by (simp add: div_less_iff_less_mult mult.commute)
  moreover have "8 * (i div 8) + i mod 8 = i" by simp
  ultimately show "bit (word_of_bytes (bytes_of_word n w) :: 'a word) i \<longleftrightarrow> bit w i"
    using i by (simp add: bit_word_of_bytes bytes_of_word_def bit_unsigned_iff bit_drop_bit_eq)
qed

text \<open>What a producer writes.\<close>

definition write_field :: "bool \<Rightarrow> nat \<Rightarrow> 'a::len word \<Rightarrow> u8 list" where
  "write_field big count w = (if big then rev (bytes_of_word count w) else bytes_of_word count w)"

lemma length_write_field [simp]: "length (write_field big n w) = n"
  by (simp add: write_field_def)

lemma read_written_field:
  assumes "take n (drop offset packet) = write_field big n (w :: 'a::len word)"
    and "LENGTH('a) = 8 * n"
  shows "lwire_read_field big n packet offset = w"
  using assms by (simp add: lwire_read_field_def write_field_def word_of_bytes_of_word)

lemma nth_field_of_concat:
  "k < length fs \<Longrightarrow> length (fs ! k) = n \<Longrightarrow> length (concat (take k fs)) = offset \<Longrightarrow>
     take n (drop offset (concat fs)) = fs ! k"
proof -
  assume k: "k < length fs" and n: "length (fs ! k) = n" and offset: "length (concat (take k fs)) = offset"
  have "concat fs = concat (take k fs) @ fs ! k @ concat (drop (Suc k) fs)"
    using id_take_nth_drop [OF k] by (metis concat.simps(2) concat_append)
  then show ?thesis using n offset by simp
qed

definition wire_fields :: "bool \<Rightarrow> u32 \<Rightarrow> frame_descriptor \<Rightarrow> u8 list list" where
  "wire_fields big format d =
     [write_field big 8 (fd_buffer_id d), write_field big 4 (fd_width d),
      write_field big 4 (fd_height d), write_field big 4 format, write_field big 4 lw_nv12_planes,
      write_field big 4 (fst (fd_offsets d)), write_field big 4 (snd (fd_offsets d)), replicate 8 0,
      write_field big 4 (fst (fd_strides d)), write_field big 4 (snd (fd_strides d)), replicate 8 0,
      write_field big 8 (fd_view_size_bytes d), write_field big 8 (fd_memory_offset_bytes d),
      write_field big 8 (fd_allocation_size_bytes d), write_field big 8 (fd_pts_ns d),
      write_field big 8 (fd_dts_ns d), write_field big 8 (fd_duration_ns d)]"

definition encode_frame :: "bool \<Rightarrow> u32 \<Rightarrow> frame_descriptor \<Rightarrow> u8 list" where
  "encode_frame big format d = concat (wire_fields big format d)"

lemma encode_frame_length [simp]: "length (encode_frame big format d) = 104"
  by (simp add: encode_frame_def wire_fields_def)

lemma encoded_field:
  "k < 17 \<Longrightarrow> length (wire_fields big format d ! k) = n \<Longrightarrow>
     length (concat (take k (wire_fields big format d))) = offset \<Longrightarrow>
     take n (drop offset (encode_frame big format d)) = wire_fields big format d ! k"
  unfolding encode_frame_def by (rule nth_field_of_concat) (simp_all add: wire_fields_def)

lemma read_encoded_at:
  assumes "k < 17"
    and "wire_fields big format d ! k = write_field big n (w :: 'a::len word)"
    and "length (concat (take k (wire_fields big format d))) = offset"
    and "LENGTH('a) = 8 * n"
  shows "lwire_read_field big n (encode_frame big format d) offset = w"
  using assms by (intro read_written_field) (simp_all add: encoded_field)

lemma read_encoded:
  "lwire_read_field big 8 (encode_frame big format d) 0 = fd_buffer_id d"
  "lwire_read_field big 4 (encode_frame big format d) 8 = fd_width d"
  "lwire_read_field big 4 (encode_frame big format d) 12 = fd_height d"
  "lwire_read_field big 4 (encode_frame big format d) 16 = format"
  "lwire_read_field big 4 (encode_frame big format d) 20 = lw_nv12_planes"
  "lwire_read_field big 4 (encode_frame big format d) 24 = fst (fd_offsets d)"
  "lwire_read_field big 4 (encode_frame big format d) 28 = snd (fd_offsets d)"
  "lwire_read_field big 4 (encode_frame big format d) 40 = fst (fd_strides d)"
  "lwire_read_field big 4 (encode_frame big format d) 44 = snd (fd_strides d)"
  "lwire_read_field big 8 (encode_frame big format d) 56 = fd_view_size_bytes d"
  "lwire_read_field big 8 (encode_frame big format d) 64 = fd_memory_offset_bytes d"
  "lwire_read_field big 8 (encode_frame big format d) 72 = fd_allocation_size_bytes d"
  "lwire_read_field big 8 (encode_frame big format d) 80 = fd_pts_ns d"
  "lwire_read_field big 8 (encode_frame big format d) 88 = fd_dts_ns d"
  "lwire_read_field big 8 (encode_frame big format d) 96 = fd_duration_ns d"
  subgoal by (rule read_encoded_at [where k = 0]) (simp_all add: wire_fields_def)
  subgoal by (rule read_encoded_at [where k = 1]) (simp_all add: wire_fields_def)
  subgoal by (rule read_encoded_at [where k = 2]) (simp_all add: wire_fields_def)
  subgoal by (rule read_encoded_at [where k = 3]) (simp_all add: wire_fields_def)
  subgoal by (rule read_encoded_at [where k = 4]) (simp_all add: wire_fields_def)
  subgoal by (rule read_encoded_at [where k = 5]) (simp_all add: wire_fields_def)
  subgoal by (rule read_encoded_at [where k = 6]) (simp_all add: wire_fields_def)
  subgoal by (rule read_encoded_at [where k = 8]) (simp_all add: wire_fields_def)
  subgoal by (rule read_encoded_at [where k = 9]) (simp_all add: wire_fields_def)
  subgoal by (rule read_encoded_at [where k = 11]) (simp_all add: wire_fields_def)
  subgoal by (rule read_encoded_at [where k = 12]) (simp_all add: wire_fields_def)
  subgoal by (rule read_encoded_at [where k = 13]) (simp_all add: wire_fields_def)
  subgoal by (rule read_encoded_at [where k = 14]) (simp_all add: wire_fields_def)
  subgoal by (rule read_encoded_at [where k = 15]) (simp_all add: wire_fields_def)
  subgoal by (rule read_encoded_at [where k = 16]) (simp_all add: wire_fields_def)
  done

section \<open>Planes\<close>

text \<open>What a plane promises, over the natural numbers: rows of at least \<open>width\<close> bytes, all inside the view.\<close>

definition plane_rows :: "nat \<Rightarrow> u32 \<Rightarrow> nat" where
  "plane_rows plane height = (if plane = 0 then unat height else unat height div 2)"

definition plane_end :: "nat \<Rightarrow> u32 \<Rightarrow> u32 \<Rightarrow> u32 \<Rightarrow> nat" where
  "plane_end plane height offset stride = unat offset + plane_rows plane height * unat stride"

definition plane_ok :: "nat \<Rightarrow> u32 \<Rightarrow> u32 \<Rightarrow> u64 \<Rightarrow> u32 \<Rightarrow> u32 \<Rightarrow> bool" where
  "plane_ok plane width height view_size offset stride \<longleftrightarrow>
     0 < unat stride \<and> unat stride < 2 ^ 31 \<and> unat width \<le> unat stride \<and>
     plane_end plane height offset stride \<le> unat view_size"

lemma sint_positive_iff: "\<not> sint (w :: u32) \<le> 0 \<longleftrightarrow> 0 < unat w \<and> unat w < 2 ^ 31"
proof -
  have "sint w = (uint w + 2 ^ 31) mod 2 ^ 32 - 2 ^ 31"
    by (simp add: sint_uint signed_take_bit_eq_take_bit_shift take_bit_eq_mod)
  moreover have range: "0 \<le> uint w" "uint w < 2 ^ 32"
    using uint_range_size [of w] by (simp_all add: word_size)
  ultimately have "sint w = (if uint w < 2 ^ 31 then uint w else uint w - 2 ^ 32)"
    by (simp add: mod_pos_pos_trivial mod_pos_geq)
  moreover define n where "n = unat w"
  moreover have "uint w = int n" by (simp add: n_def)
  ultimately show ?thesis using range unfolding n_def [symmetric] by (auto split: if_splits)
qed

lemma plane_end_exact:
  fixes plane :: nat and height offset stride :: u32
  defines "rows \<equiv> (if plane = 0 then ucast height else ucast (height div 2)) :: u64"
  assumes "unat stride < 2 ^ 31"
  shows "unat (ucast offset + rows * ucast stride) = plane_end plane height offset stride"
proof -
  have rows: "unat rows = plane_rows plane height" by (simp add: rows_def plane_rows_def unat_div)
  have "plane_rows plane height < 2 ^ 32"
    using unat_bound [of height] by (auto simp: plane_rows_def)
  then have "plane_rows plane height * unat stride \<le> (2 ^ 32 - 1) * (2 ^ 31 - 1)"
    using assms(2) by (intro mult_le_mono) simp_all
  moreover have "unat offset < 2 ^ 32" using unat_bound [of offset] by simp
  ultimately have fits: "unat offset + plane_rows plane height * unat stride < 2 ^ 64" by simp
  have "unat (rows * ucast stride) = plane_rows plane height * unat stride"
    using fits by (simp add: rows unat_mult_exact)
  then show ?thesis using fits by (simp add: plane_end_def unat_add_exact)
qed

lemma lwire_plane_iff:
  fixes big :: bool and packet :: "u8 list" and plane :: nat
  defines "offset \<equiv> lwire_read_field big 4 packet (24 + plane * 4)"
    and "stride \<equiv> lwire_read_field big 4 packet (40 + plane * 4)"
  shows "lwire_plane big packet width height view_size plane = Some (a, b, e) \<longleftrightarrow>
    plane_ok plane width height view_size offset stride \<and> a = offset \<and> b = stride \<and>
    unat e = plane_end plane height offset stride"
proof (cases "sint stride \<le> 0 \<or> stride < width")
  case True
  then show ?thesis
    using sint_positive_iff [of stride]
    by (auto simp: lwire_plane_def Let_def wire_layout plane_ok_def offset_def stride_def
        word_less_nat_alt)
next
  case False
  then have small: "unat stride < 2 ^ 31" "0 < unat stride" "unat width \<le> unat stride"
    using sint_positive_iff [of stride] by (auto simp: word_less_nat_alt)
  let ?e = "ucast offset + (if plane = 0 then ucast height else ucast (height div 2)) * ucast stride :: u64"
  note exact = plane_end_exact [OF small(1), of offset plane height]
  have "lwire_plane big packet width height view_size plane =
      (if unat view_size < plane_end plane height offset stride then None else Some (offset, stride, ?e))"
    using False by (simp add: lwire_plane_def Let_def wire_layout offset_def [symmetric]
        stride_def [symmetric] word_less_nat_alt exact)
  then show ?thesis using small by (auto simp: plane_ok_def exact word_unat_eq_iff)
qed

section \<open>What is decoded\<close>

definition frame_ok :: "legacy_frame_limits \<Rightarrow> frame_descriptor \<Rightarrow> bool" where
  "frame_ok limits d \<longleftrightarrow>
     0 < unat (lf_nv12_format_value limits) \<and>
     fd_buffer_id d \<noteq> 0 \<and> fd_session_epoch d = 0 \<and>
     0 < unat (fd_width d) \<and> even (unat (fd_width d)) \<and> fd_width d \<le> lf_max_width limits \<and>
     0 < unat (fd_height d) \<and> even (unat (fd_height d)) \<and> fd_height d \<le> lf_max_height limits \<and>
     0 < unat (fd_allocation_size_bytes d) \<and>
     fd_allocation_size_bytes d \<le> lf_max_allocation_bytes limits \<and>
     unat (fd_memory_offset_bytes d) + unat (fd_view_size_bytes d) \<le> unat (fd_allocation_size_bytes d) \<and>
     plane_ok 0 (fd_width d) (fd_height d) (fd_view_size_bytes d) (fst (fd_offsets d)) (fst (fd_strides d)) \<and>
     plane_ok 1 (fd_width d) (fd_height d) (fd_view_size_bytes d) (snd (fd_offsets d)) (snd (fd_strides d)) \<and>
     (plane_end 0 (fd_height d) (fst (fd_offsets d)) (fst (fd_strides d)) \<le> unat (snd (fd_offsets d)) \<or>
      plane_end 1 (fd_height d) (snd (fd_offsets d)) (snd (fd_strides d)) \<le> unat (fst (fd_offsets d)))"

text \<open>The descriptor that the fields of a packet spell.\<close>

definition wire_frame :: "bool \<Rightarrow> u8 list \<Rightarrow> frame_descriptor" where
  "wire_frame big p = \<lparr>fd_buffer_id = lwire_read_field big 8 p 0, fd_session_epoch = 0,
     fd_width = lwire_read_field big 4 p 8, fd_height = lwire_read_field big 4 p 12,
     fd_offsets = (lwire_read_field big 4 p 24, lwire_read_field big 4 p 28),
     fd_strides = (lwire_read_field big 4 p 40, lwire_read_field big 4 p 44),
     fd_view_size_bytes = lwire_read_field big 8 p 56,
     fd_memory_offset_bytes = lwire_read_field big 8 p 64,
     fd_allocation_size_bytes = lwire_read_field big 8 p 72,
     fd_pts_ns = lwire_read_field big 8 p 80, fd_dts_ns = lwire_read_field big 8 p 88,
     fd_duration_ns = lwire_read_field big 8 p 96\<rparr>"

lemma even_and_1 [simp]: "(w :: u32) AND 1 = 0 \<longleftrightarrow> even (unat w)"
  by (simp only: and_one_eq word_unat_eq_iff unat_mod) (simp add: even_iff_mod_2_eq_zero)

lemma lwire_plane_None_iff:
  "lwire_plane big packet width height view_size plane = None \<longleftrightarrow>
    \<not> plane_ok plane width height view_size (lwire_read_field big 4 packet (24 + plane * 4))
        (lwire_read_field big 4 packet (40 + plane * 4))" (is "?none \<longleftrightarrow> \<not> ?ok")
proof
  assume none: ?none
  show "\<not> ?ok"
  proof
    assume ok: ?ok
    let ?stop = "plane_end plane height (lwire_read_field big 4 packet (24 + plane * 4))
      (lwire_read_field big 4 packet (40 + plane * 4))"
    have "?stop \<le> unat view_size" using ok by (simp add: plane_ok_def)
    from this unat_less_2_64 [of view_size] have "?stop < 2 ^ 64" by (rule le_less_trans)
    then have "unat (word_of_nat ?stop :: u64) = ?stop" by (simp add: unat_of_nat)
    with ok none show False
      using lwire_plane_iff [of big packet width height view_size plane
          "lwire_read_field big 4 packet (24 + plane * 4)"
          "lwire_read_field big 4 packet (40 + plane * 4)" "word_of_nat ?stop"] by simp
  qed
next
  assume "\<not> ?ok"
  then have "lwire_plane big packet width height view_size plane \<noteq> Some (a, b, e)" for a b e
    by (simp add: lwire_plane_iff)
  then show ?none by (cases "lwire_plane big packet width height view_size plane") auto
qed

lemma range_fits:
  "(b :: 'a::len word) \<le> a \<and> v \<le> a - b \<longleftrightarrow> unat b + unat v \<le> unat a"
  by (auto simp: word_le_nat_alt unat_sub)

text \<open>The decoder's verdict in terms of its fields.\<close>

lemma lwire_decode_frame_Ok_iff:
  "lwire_decode_frame big (Some packet) count limits frame0 = (Ok, d) \<longleftrightarrow>
     count = 104 \<and> d = wire_frame big packet \<and> frame_ok limits d \<and>
     lwire_read_field big 4 packet 16 = lf_nv12_format_value limits \<and>
     lwire_read_field big 4 packet 20 = lw_nv12_planes"
  (is "?decoded \<longleftrightarrow> ?spelled")
proof -
  let ?f = "wire_frame big packet"
  let ?plane = "lwire_plane big packet (fd_width ?f) (fd_height ?f) (fd_view_size_bytes ?f)"
  show ?thesis
  proof (cases "?plane 0")
    case None
    then have "\<not> frame_ok limits ?f"
      by (simp add: lwire_plane_None_iff frame_ok_def) (simp add: wire_frame_def)
    with None show ?thesis
      by (auto simp: lwire_decode_frame_def Let_def wire_layout wire_frame_def)
  next
    case plane0: (Some r0)
    obtain a0 b0 e0 where r0: "r0 = (a0, b0, e0)" by (cases r0)
    note p0 = plane0 [unfolded r0 lwire_plane_iff]
    show ?thesis
    proof (cases "?plane 1")
      case None
      then have "\<not> frame_ok limits ?f"
        by (simp add: lwire_plane_None_iff frame_ok_def) (simp add: wire_frame_def)
      with None plane0 r0 show ?thesis
        by (auto simp: lwire_decode_frame_def Let_def wire_layout wire_frame_def)
    next
      case plane1: (Some r1)
      obtain a1 b1 e1 where r1: "r1 = (a1, b1, e1)" by (cases r1)
      note p1 = plane1 [unfolded r1 lwire_plane_iff]
      have p0': "plane_ok 0 (fd_width ?f) (fd_height ?f) (fd_view_size_bytes ?f) (fst (fd_offsets ?f))
            (fst (fd_strides ?f))"
          "unat e0 = plane_end 0 (fd_height ?f) (fst (fd_offsets ?f)) (fst (fd_strides ?f))"
          "a0 = fst (fd_offsets ?f)"
        using p0 by (simp_all add: wire_frame_def)
      have p1': "plane_ok 1 (fd_width ?f) (fd_height ?f) (fd_view_size_bytes ?f) (snd (fd_offsets ?f))
            (snd (fd_strides ?f))"
          "unat e1 = plane_end 1 (fd_height ?f) (snd (fd_offsets ?f)) (snd (fd_strides ?f))"
          "a1 = snd (fd_offsets ?f)"
        using p1 by (simp_all add: wire_frame_def)
      have overlap: "ucast a0 < e1 \<and> ucast a1 < e0 \<longleftrightarrow> \<not> (unat e0 \<le> unat a1 \<or> unat e1 \<le> unat a0)"
        by (auto simp: word_less_nat_alt)
      have epoch: "fd_session_epoch ?f = 0" by (simp add: wire_frame_def)
      have ok: "frame_ok limits ?f \<longleftrightarrow> lf_nv12_format_value limits \<noteq> 0 \<and> fd_buffer_id ?f \<noteq> 0 \<and>
          fd_width ?f \<noteq> 0 \<and> even (unat (fd_width ?f)) \<and> fd_width ?f \<le> lf_max_width limits \<and>
          fd_height ?f \<noteq> 0 \<and> even (unat (fd_height ?f)) \<and> fd_height ?f \<le> lf_max_height limits \<and>
          fd_allocation_size_bytes ?f \<noteq> 0 \<and>
          fd_allocation_size_bytes ?f \<le> lf_max_allocation_bytes limits \<and>
          fd_memory_offset_bytes ?f \<le> fd_allocation_size_bytes ?f \<and>
          fd_view_size_bytes ?f \<le> fd_allocation_size_bytes ?f - fd_memory_offset_bytes ?f \<and>
          \<not> (ucast a0 < e1 \<and> ucast a1 < e0)"
        using p0' p1' epoch unfolding frame_ok_def range_fits [symmetric] unat_gt_0 overlap
        by simp
      have decoded: "?decoded \<longleftrightarrow> lf_nv12_format_value limits \<noteq> 0 \<and> lf_max_width limits \<noteq> 0 \<and>
          lf_max_height limits \<noteq> 0 \<and> lf_max_allocation_bytes limits \<noteq> 0 \<and> count = 104 \<and>
          lwire_read_field big 4 packet 16 = lf_nv12_format_value limits \<and>
          lwire_read_field big 4 packet 20 = lw_nv12_planes \<and> d = ?f \<and>
          fd_buffer_id ?f \<noteq> 0 \<and>
          fd_width ?f \<noteq> 0 \<and> even (unat (fd_width ?f)) \<and> fd_width ?f \<le> lf_max_width limits \<and>
          fd_height ?f \<noteq> 0 \<and> even (unat (fd_height ?f)) \<and> fd_height ?f \<le> lf_max_height limits \<and>
          fd_allocation_size_bytes ?f \<noteq> 0 \<and>
          fd_allocation_size_bytes ?f \<le> lf_max_allocation_bytes limits \<and>
          fd_memory_offset_bytes ?f \<le> fd_allocation_size_bytes ?f \<and>
          fd_view_size_bytes ?f \<le> fd_allocation_size_bytes ?f - fd_memory_offset_bytes ?f \<and>
          \<not> (ucast a0 < e1 \<and> ucast a1 < e0)"
        using plane0 plane1
        by (simp add: lwire_decode_frame_def Let_def wire_layout wire_frame_def r0 r1 early_return
            linorder_not_less conj_ac) (use p0 p1 in auto)
      show ?thesis unfolding decoded using ok by (auto simp: word_le_nat_alt word_unat_eq_iff)
    qed
  qed
qed

text \<open>
  C21. The decoder of the camera's 104-byte frame header accepts exactly what a producer that
  obeys the contract writes, in either byte order: encoding a frame description and decoding it
  with the stream's limits gives the description back if and only if it satisfies \<open>frame_ok\<close>
  (even dimensions within the limits, strides at least the width, both planes inside the view,
  the view inside the allocation, no overlap), all on unbounded natural numbers.
\<close>

theorem lwire_roundtrip_exact:
  "lwire_decode_frame big (Some (encode_frame big (lf_nv12_format_value limits) d)) 104 limits frame0 =
     (Ok, d) \<longleftrightarrow> frame_ok limits d"
proof -
  have "wire_frame big (encode_frame big (lf_nv12_format_value limits) d) = d\<lparr>fd_session_epoch := 0\<rparr>"
    by (simp add: wire_frame_def read_encoded)
  then show ?thesis
    by (auto simp: lwire_decode_frame_Ok_iff read_encoded frame_ok_def)
qed

lemma frame_ok_make_limits:
  assumes "lwire_make_limits s format limits0 = (Ok, limits)"
  shows "lf_nv12_format_value limits = format" and "lf_max_width limits = pf_width (sd_profile s)"
    and "lf_max_height limits = pf_height (sd_profile s)"
    and "lf_max_allocation_bytes limits = sm_max_frame_allocation_bytes (sd_memory s)"
    and "lf_max_allocation_bytes limits \<le> dpl_max_frame_allocation_bytes"
  using assms by (auto simp: lwire_make_limits_def Let_def early_return)

text \<open>The position of a byte of a plane in the allocation.\<close>

definition byte_position :: "frame_descriptor \<Rightarrow> nat \<Rightarrow> nat \<Rightarrow> nat \<Rightarrow> nat" where
  "byte_position d plane row column =
     unat (fd_memory_offset_bytes d) +
     unat (if plane = 0 then fst (fd_offsets d) else snd (fd_offsets d)) +
     row * unat (if plane = 0 then fst (fd_strides d) else snd (fd_strides d)) + column"

lemma plane_row_inside:
  assumes "plane_ok plane width height view_size offset stride"
    and "row < plane_rows plane height" and "column < unat width"
  shows "unat offset + row * unat stride + column < plane_end plane height offset stride"
proof -
  have "column < unat stride" using assms by (simp add: plane_ok_def)
  moreover have "Suc row * unat stride \<le> plane_rows plane height * unat stride"
    using assms(2) by (intro mult_le_mono) simp_all
  ultimately show ?thesis by (simp add: plane_end_def)
qed

lemma frame_ok_planes:
  assumes "frame_ok limits d"
  shows "row < plane_rows 0 (fd_height d) \<Longrightarrow> column < unat (fd_width d) \<Longrightarrow>
      byte_position d 0 row column < unat (fd_allocation_size_bytes d)"
    and "row < plane_rows 1 (fd_height d) \<Longrightarrow> column < unat (fd_width d) \<Longrightarrow>
      byte_position d 1 row column < unat (fd_allocation_size_bytes d)"
    and "row < plane_rows 0 (fd_height d) \<Longrightarrow> column < unat (fd_width d) \<Longrightarrow>
      row' < plane_rows 1 (fd_height d) \<Longrightarrow> column' < unat (fd_width d) \<Longrightarrow>
      byte_position d 0 row column \<noteq> byte_position d 1 row' column'"
proof -
  let ?end0 = "plane_end 0 (fd_height d) (fst (fd_offsets d)) (fst (fd_strides d))"
  let ?end1 = "plane_end 1 (fd_height d) (snd (fd_offsets d)) (snd (fd_strides d))"
  let ?mem = "unat (fd_memory_offset_bytes d)" and ?view = "unat (fd_view_size_bytes d)"
  have ok: "?mem + ?view \<le> unat (fd_allocation_size_bytes d)" "?end0 \<le> ?view" "?end1 \<le> ?view"
    "?end0 \<le> unat (snd (fd_offsets d)) \<or> ?end1 \<le> unat (fst (fd_offsets d))"
    and p0: "plane_ok 0 (fd_width d) (fd_height d) (fd_view_size_bytes d) (fst (fd_offsets d)) (fst (fd_strides d))"
    and p1: "plane_ok 1 (fd_width d) (fd_height d) (fd_view_size_bytes d) (snd (fd_offsets d)) (snd (fd_strides d))"
    using assms by (simp_all add: frame_ok_def plane_ok_def)
  have luma: "row < plane_rows 0 (fd_height d) \<Longrightarrow> column < unat (fd_width d) \<Longrightarrow>
      byte_position d 0 row column < ?mem + ?end0" for row column
    using plane_row_inside [OF p0] by (simp add: byte_position_def add.assoc)
  have chroma: "row < plane_rows 1 (fd_height d) \<Longrightarrow> column < unat (fd_width d) \<Longrightarrow>
      byte_position d 1 row column < ?mem + ?end1" for row column
    using plane_row_inside [OF p1] by (simp add: byte_position_def add.assoc)
  show "row < plane_rows 0 (fd_height d) \<Longrightarrow> column < unat (fd_width d) \<Longrightarrow>
      byte_position d 0 row column < unat (fd_allocation_size_bytes d)"
    using luma [of row column] ok by linarith
  show "row < plane_rows 1 (fd_height d) \<Longrightarrow> column < unat (fd_width d) \<Longrightarrow>
      byte_position d 1 row column < unat (fd_allocation_size_bytes d)"
    using chroma [of row column] ok by linarith
  have starts: "byte_position d 0 row column \<ge> ?mem + unat (fst (fd_offsets d))"
    "byte_position d 1 row' column' \<ge> ?mem + unat (snd (fd_offsets d))"
    by (simp_all add: byte_position_def)
  show "row < plane_rows 0 (fd_height d) \<Longrightarrow> column < unat (fd_width d) \<Longrightarrow>
      row' < plane_rows 1 (fd_height d) \<Longrightarrow> column' < unat (fd_width d) \<Longrightarrow>
      byte_position d 0 row column \<noteq> byte_position d 1 row' column'"
    using luma [of row column] chroma [of row' column'] starts ok(4) by linarith
qed

text \<open>
  C22. Whatever bytes arrive, a header that is accepted under the limits of a configured source
  describes memory that can be read: each byte of each visible row of both planes lies inside
  the allocation, the allocation is within the source's configured budget, and no luma byte is
  a chroma byte, so the renderer never leaves the mapping it was given.
\<close>

theorem lwire_accepted_frame_readable:
  assumes "lwire_make_limits s format limits0 = (Ok, limits)"
    and "lwire_decode_frame big packet count limits frame0 = (Ok, d)"
    and "row < unat (fd_height d)" and "column < unat (fd_width d)"
    and "row' < unat (fd_height d) div 2" and "column' < unat (fd_width d)"
  shows "byte_position d 0 row column < unat (fd_allocation_size_bytes d) \<and>
    byte_position d 1 row' column' < unat (fd_allocation_size_bytes d) \<and>
    byte_position d 0 row column \<noteq> byte_position d 1 row' column' \<and>
    fd_allocation_size_bytes d \<le> sm_max_frame_allocation_bytes (sd_memory s) \<and>
    fd_width d \<le> pf_width (sd_profile s) \<and> fd_height d \<le> pf_height (sd_profile s)"
proof -
  obtain p where "packet = Some p"
    using assms(2) by (cases packet) (auto simp: lwire_decode_frame_def early_return)
  then have ok: "frame_ok limits d" using assms(2) by (auto simp: lwire_decode_frame_Ok_iff)
  show ?thesis
    using frame_ok_planes [OF ok] assms(3-6) ok frame_ok_make_limits [OF assms(1)]
    by (simp add: plane_rows_def) (simp add: frame_ok_def)
qed

section \<open>An accepted frame\<close>

definition demo_legacy_source :: source_deployment_config where
  "demo_legacy_source = \<lparr>sd_source_id = ''cam0'', sd_raw_source_ref = ''camera'', sd_camera_id = 0,
     sd_channel_id = 0, sd_preview_output_ref = ''out'',
     sd_profile = \<lparr>pf_width = 4, pf_height = 2, pf_fps_numerator = 30, pf_fps_denominator = 1\<rparr>,
     sd_memory = \<lparr>sm_max_frame_allocation_bytes = 4096, sm_max_inflight_frames = 2,
       sm_preview_surface_count = 0, sm_max_tensor_bytes = 400, sm_max_temporal_bytes = 0\<rparr>,
     sd_cascade = \<lparr>cc_frames = 0, cc_tasks_per_frame = 0, cc_max_bytes = 0\<rparr>, sd_model_ids = []\<rparr>"

definition demo_legacy_frame :: frame_descriptor where
  "demo_legacy_frame = \<lparr>fd_buffer_id = 7, fd_session_epoch = 0, fd_width = 4, fd_height = 2,
     fd_offsets = (0, 16), fd_strides = (8, 8), fd_view_size_bytes = 24,
     fd_memory_offset_bytes = 8, fd_allocation_size_bytes = 32, fd_pts_ns = 1, fd_dts_ns = 1,
     fd_duration_ns = 33\<rparr>"

definition demo_legacy_limits :: legacy_frame_limits where
  "demo_legacy_limits = \<lparr>lf_nv12_format_value = 23, lf_max_width = 4, lf_max_height = 2,
     lf_max_allocation_bytes = 4096\<rparr>"

lemma demo_legacy_limits:
  "lwire_make_limits demo_legacy_source 23 demo_legacy_limits = (Ok, demo_legacy_limits)"
  by code_simp

lemma demo_legacy_decoded:
  "lwire_decode_frame False (Some (encode_frame False 23 demo_legacy_frame)) 104 demo_legacy_limits
     blank_descriptor = (Ok, demo_legacy_frame)"
  by code_simp

theorem lwire_accepted_frame_readable_witness:
  "byte_position demo_legacy_frame 0 1 3 < 32 \<and> byte_position demo_legacy_frame 1 0 3 < 32"
  using lwire_accepted_frame_readable [OF demo_legacy_limits demo_legacy_decoded,
      of 1 3 0 3]
  by (simp add: demo_legacy_frame_def)

end
