(* ===== verification/Frame_Source.thy ===== *)
theory Frame_Source
  imports Legacy_Wire "HOL-Library.Multiset"
begin

text \<open>
  The receiver of camera frames: adapters/camera/vqec_vision_frame_source.{hpp,cpp} (prefix
  \<open>frsrc\<close>). Sessions are shared objects: a frame keeps the session that delivered it alive, so
  the state holds every session ever connected and every frame ever delivered, by index, and
  \<open>fs_wire\<close> is what went out on the sockets. What the operating system answers (poll, recvmsg,
  send, the clock in nanoseconds) is an argument of the operation that asks; the file
  descriptors an operation closes are part of its result (the kernel only passes nonnegative ones).
\<close>

section \<open>State\<close>

definition fr_max_live_frames :: u32 where "fr_max_live_frames = 4"
definition fr_max_pending_releases :: nat where "fr_max_pending_releases = 16"
definition fr_release_deadline_ms :: int where "fr_release_deadline_ms = 1000"

text \<open>The size of \<open>sockaddr_un::sun_path\<close> on Linux.\<close>

definition fr_sun_path_bytes :: nat where "fr_sun_path_bytes = 108"

record camera_source_config =
  sr_socket_path :: string
  sr_producer_uid :: u32
  sr_limits :: legacy_frame_limits

record camera_pending_release =
  pr_token :: u64
  pr_queued_at :: int

record camera_session =
  se_limits :: legacy_frame_limits
  se_epoch :: u64
  se_last_buffer_id :: u64
  se_healthy :: bool
  se_pending_releases :: "camera_pending_release list"
  se_releases_faulted :: bool

record received_frame =
  rv_fd :: int
  rv_descriptor :: frame_descriptor
  rv_session :: nat
  rv_live :: bool

record frame_source =
  fs_session :: "nat option"
  fs_outstanding :: u32
  fs_next_epoch :: u64
  fs_sessions :: "camera_session list"
  fs_frames :: "received_frame list"
  fs_wire :: "(nat \<times> u64) list"

definition frsrc_initial :: frame_source where
  "frsrc_initial = \<lparr>fs_session = None, fs_outstanding = 0, fs_next_epoch = 1, fs_sessions = [],
     fs_frames = [], fs_wire = []\<rparr>"

section \<open>What the system answers\<close>

datatype send_outcome = Send_all | Send_would_block | Send_failed

datatype connect_outcome = No_socket | Connect_pending | Connect_refused | Connected "u32 option"

datatype poll_outcome = Poll_none | Poll_failed | Poll_ready bool

text \<open>A control message: whether it is an \<open>SCM_RIGHTS\<close> one, its whole descriptors, and the bytes after them.\<close>

record control_message =
  cg_is_rights :: bool
  cg_handles :: "int list"
  cg_trailing_bytes :: nat

datatype recv_outcome =
    Recv_again
  | Recv_failed
  | Recv_packet nat "u8 list" bool "control_message list"

text \<open>
  \<open>rx_interrupts\<close> are the milliseconds that remained at each interruption of the wait, and
  \<open>rx_poll\<close> is the answer of the last poll.
\<close>

record receive_environment =
  rx_sends :: "nat \<Rightarrow> send_outcome"
  rx_now :: int
  rx_interrupts :: "int list"
  rx_poll :: poll_outcome
  rx_recv :: recv_outcome

section \<open>Release queue\<close>

definition frsrc_age_ms :: "int \<Rightarrow> camera_pending_release \<Rightarrow> int" where
  "frsrc_age_ms now pending =
     (let d = now - pr_queued_at pending in if d < 0 then - (- d div 1000000) else d div 1000000)"

text \<open>The loop of the flush: what stays queued, what was sent, and whether the session faults.\<close>

fun frsrc_flush_from ::
    "(nat \<Rightarrow> send_outcome) \<Rightarrow> int \<Rightarrow> camera_pending_release list \<Rightarrow>
       camera_pending_release list \<times> u64 list \<times> bool" where
  "frsrc_flush_from sends now [] = ([], [], False)"
| "frsrc_flush_from sends now (p # ps) =
     (case sends 0 of
        Send_all \<Rightarrow>
          (let (rest, sent, fault) = frsrc_flush_from (\<lambda>n. sends (Suc n)) now ps
           in (rest, pr_token p # sent, fault))
      | Send_would_block \<Rightarrow> (p # ps, [], frsrc_age_ms now p \<ge> fr_release_deadline_ms)
      | Send_failed \<Rightarrow> (p # ps, [], True))"

definition frsrc_flush_releases ::
    "(nat \<Rightarrow> send_outcome) \<Rightarrow> int \<Rightarrow> camera_session \<Rightarrow> camera_session \<times> u64 list" where
  "frsrc_flush_releases sends now s =
     (let (rest, sent, fault) = frsrc_flush_from sends now (se_pending_releases s)
      in (s\<lparr>se_pending_releases := rest, se_releases_faulted := se_releases_faulted s \<or> fault,
            se_healthy := se_healthy s \<and> \<not> fault\<rparr>, sent))"

definition frsrc_release_completion ::
    "int \<Rightarrow> (nat \<Rightarrow> send_outcome) \<Rightarrow> int \<Rightarrow> u64 \<Rightarrow> camera_session \<Rightarrow> camera_session \<times> u64 list" where
  "frsrc_release_completion queued_at sends now token s =
     (if se_releases_faulted s then (s, [])
      else
        (let queued = se_pending_releases s @ [\<lparr>pr_token = token, pr_queued_at = queued_at\<rparr>]
         in if length queued > fr_max_pending_releases
            then (s\<lparr>se_releases_faulted := True, se_healthy := False, se_pending_releases := []\<rparr>, [])
            else frsrc_flush_releases sends now (s\<lparr>se_pending_releases := queued\<rparr>)))"

text \<open>The session with index \<open>k\<close> changes, and what it sent goes out on its socket.\<close>

definition on_session ::
    "nat \<Rightarrow> (camera_session \<Rightarrow> camera_session \<times> u64 list) \<Rightarrow> frame_source \<Rightarrow> frame_source" where
  "on_session k act s =
     (let (session, sent) = act (fs_sessions s ! k)
      in s\<lparr>fs_sessions := (fs_sessions s)[k := session], fs_wire := fs_wire s @ map (Pair k) sent\<rparr>)"

text \<open>The destructor of a frame: the final release, from whatever thread. It closes the descriptor.\<close>

definition frsrc_release_frame ::
    "nat \<Rightarrow> int \<Rightarrow> (nat \<Rightarrow> send_outcome) \<Rightarrow> int \<Rightarrow> frame_source \<Rightarrow> frame_source \<times> int list" where
  "frsrc_release_frame i queued_at sends now s =
     (if i < length (fs_frames s) \<and> rv_live (fs_frames s ! i) then
        (let f = fs_frames s ! i;
             s1 = on_session (rv_session f)
                    (frsrc_release_completion queued_at sends now (fd_buffer_id (rv_descriptor f))) s
         in (s1\<lparr>fs_frames := (fs_frames s)[i := f\<lparr>rv_live := False\<rparr>],
                fs_outstanding := fs_outstanding s - 1\<rparr>, [rv_fd f]))
      else (s, []))"

section \<open>Connecting\<close>

definition frsrc_connect ::
    "camera_source_config \<Rightarrow> connect_outcome \<Rightarrow> frame_source \<Rightarrow> status \<times> frame_source" where
  "frsrc_connect config outcome s =
     (let limits = sr_limits config; path = sr_socket_path config in
      if fs_session s \<noteq> None then (Invalid_state, s)
      else if sr_producer_uid config = - 1 \<or> lf_nv12_format_value limits = 0 \<or>
          lf_max_width limits = 0 \<or> lf_max_height limits = 0 \<or> lf_max_allocation_bytes limits = 0 \<or>
          fs_next_epoch s = UINT64_MAX then (Invalid_argument, s)
      else if path = [] \<or> hd path \<noteq> CHR ''/'' \<or> CHR 0x00 \<in> set path then (Invalid_argument, s)
      else if length path \<ge> fr_sun_path_bytes then (Invalid_argument, s)
      else
        (case outcome of
           No_socket \<Rightarrow> (Io_error, s)
         | Connect_pending \<Rightarrow> (Timeout, s)
         | Connect_refused \<Rightarrow> (Source_lost, s)
         | Connected peer \<Rightarrow>
             if peer \<noteq> Some (sr_producer_uid config) then (Unauthorized, s)
             else
               (Ok, s\<lparr>fs_sessions := fs_sessions s @
                        [\<lparr>se_limits = limits, se_epoch = fs_next_epoch s, se_last_buffer_id = 0,
                          se_healthy = True, se_pending_releases = [], se_releases_faulted = False\<rparr>],
                      fs_session := Some (length (fs_sessions s)),
                      fs_next_epoch := fs_next_epoch s + 1\<rparr>)))"

definition frsrc_disconnect ::
    "(nat \<Rightarrow> send_outcome) \<Rightarrow> int \<Rightarrow> frame_source \<Rightarrow> frame_source" where
  "frsrc_disconnect sends now s =
     (case fs_session s of
        None \<Rightarrow> s
      | Some k \<Rightarrow> (on_session k (frsrc_flush_releases sends now) s)\<lparr>fs_session := None\<rparr>)"

definition frsrc_is_healthy :: "frame_source \<Rightarrow> bool" where
  "frsrc_is_healthy s =
     (case fs_session s of None \<Rightarrow> False | Some k \<Rightarrow> se_healthy (fs_sessions s ! k))"

definition frsrc_get_outstanding :: "frame_source \<Rightarrow> u32" where
  "frsrc_get_outstanding s = fs_outstanding s"

section \<open>Receiving\<close>

text \<open>The control messages: whether all are well formed, how many carry rights, the descriptors kept, the rest.\<close>

fun frsrc_read_control ::
    "control_message list \<Rightarrow> bool \<times> nat \<times> int list \<times> int list \<Rightarrow> bool \<times> nat \<times> int list \<times> int list" where
  "frsrc_read_control [] r = r"
| "frsrc_read_control (m # ms) (valid, rights, handles, dropped) =
     frsrc_read_control ms
       (if \<not> cg_is_rights m then (False, rights, handles, dropped)
        else
          (let room = 16 - length handles
           in (valid \<and> cg_trailing_bytes m = 0 \<and> length (cg_handles m) \<le> room, Suc rights,
               handles @ take room (cg_handles m), dropped @ drop room (cg_handles m))))"

definition frsrc_fault :: "nat \<Rightarrow> frame_source \<Rightarrow> frame_source" where
  "frsrc_fault k s = s\<lparr>fs_sessions := (fs_sessions s)[k := (fs_sessions s ! k)\<lparr>se_healthy := False\<rparr>]\<rparr>"

text \<open>A complete packet with its one descriptor.\<close>

definition frsrc_accept ::
    "bool \<Rightarrow> u8 list \<Rightarrow> int \<Rightarrow> nat \<Rightarrow> frame_source \<Rightarrow> status \<times> frame_source \<times> nat option \<times> int list" where
  "frsrc_accept big packet fd k s =
     (let session = fs_sessions s ! k;
          (decoded, d) = lwire_decode_frame big (Some packet) lw_header_bytes (se_limits session) blank_descriptor
      in if decoded \<noteq> Ok then (decoded, frsrc_fault k s, None, [fd])
         else if fd_buffer_id d \<le> se_last_buffer_id session
           then (Protocol_error, frsrc_fault k s, None, [fd])
         else
           (Ok, s\<lparr>fs_frames := fs_frames s @
                    [\<lparr>rv_fd = fd, rv_descriptor = d\<lparr>fd_session_epoch := se_epoch session\<rparr>,
                      rv_session = k, rv_live = True\<rparr>],
                  fs_sessions := (fs_sessions s)[k := session\<lparr>se_last_buffer_id := fd_buffer_id d\<rparr>],
                  fs_outstanding := fs_outstanding s + 1\<rparr>,
            Some (length (fs_frames s)), []))"

definition frsrc_receive_packet ::
    "bool \<Rightarrow> recv_outcome \<Rightarrow> nat \<Rightarrow> frame_source \<Rightarrow> status \<times> frame_source \<times> nat option \<times> int list" where
  "frsrc_receive_packet big outcome k s =
     (case outcome of
        Recv_again \<Rightarrow> (Timeout, s, None, [])
      | Recv_failed \<Rightarrow> (Source_lost, frsrc_fault k s, None, [])
      | Recv_packet bytes packet truncated messages \<Rightarrow>
          (let (valid, rights, handles, dropped) = frsrc_read_control messages (True, 0, [], [])
           in if bytes = 0 then (Source_lost, frsrc_fault k s, None, dropped @ handles)
              else if bytes \<noteq> lw_header_bytes \<or> truncated \<or> \<not> valid \<or> rights \<noteq> 1 \<or> length handles \<noteq> 1
                then (Protocol_error, frsrc_fault k s, None, dropped @ handles)
              else
                (let (st, s', frame, rest) = frsrc_accept big packet (hd handles) k s
                 in (st, s', frame, dropped @ rest))))"

text \<open>
  The result: status, state, the frame delivered, the descriptors dropped. \<open>occupied\<close> says whether
  the caller's output already holds a frame.
\<close>

definition frsrc_receive ::
    "bool \<Rightarrow> bool \<Rightarrow> int \<Rightarrow> receive_environment \<Rightarrow> frame_source \<Rightarrow>
       status \<times> frame_source \<times> nat option \<times> int list" where
  "frsrc_receive big occupied timeout_ms env s0 =
     (if occupied \<or> timeout_ms < 0 \<or> timeout_ms > 60000 then (Invalid_argument, s0, None, [])
      else
        (case fs_session s0 of
           None \<Rightarrow> (Source_lost, s0, None, [])
         | Some k \<Rightarrow>
             (let s = on_session k (frsrc_flush_releases (rx_sends env) (rx_now env)) s0
              in if \<not> se_healthy (fs_sessions s ! k) then (Source_lost, s, None, [])
                 else if fs_outstanding s \<ge> fr_max_live_frames then (Resource_exhausted, s, None, [])
                 else if list_ex (\<lambda>remaining. remaining \<le> 0) (rx_interrupts env) then (Timeout, s, None, [])
                 else
                   (case rx_poll env of
                      Poll_none \<Rightarrow> (Timeout, s, None, [])
                    | Poll_failed \<Rightarrow> (Source_lost, frsrc_fault k s, None, [])
                    | Poll_ready hung_up \<Rightarrow>
                        if hung_up then (Source_lost, frsrc_fault k s, None, [])
                        else frsrc_receive_packet big (rx_recv env) k s))))"

section \<open>What the state means\<close>

definition token_of :: "received_frame \<Rightarrow> u64" where
  "token_of f = fd_buffer_id (rv_descriptor f)"

definition delivered :: "nat \<Rightarrow> frame_source \<Rightarrow> u64 list" where
  "delivered k s = map token_of (filter (\<lambda>f. rv_session f = k) (fs_frames s))"

definition released :: "nat \<Rightarrow> frame_source \<Rightarrow> u64 set" where
  "released k s = token_of ` {f \<in> set (fs_frames s). rv_session f = k \<and> \<not> rv_live f}"

definition acknowledged :: "nat \<Rightarrow> frame_source \<Rightarrow> u64 list" where
  "acknowledged k s = map snd (filter (\<lambda>w. fst w = k) (fs_wire s))"

definition queued :: "nat \<Rightarrow> frame_source \<Rightarrow> u64 list" where
  "queued k s = map pr_token (se_pending_releases (fs_sessions s ! k))"

text \<open>
  A session's acknowledgements: what it sent and what is queued are tokens of frames it
  delivered that have been released, each once; unless the session is faulted they are all of
  them; and its tokens grow from frame to frame.
\<close>

definition acks_exact :: "nat \<Rightarrow> frame_source \<Rightarrow> bool" where
  "acks_exact k s \<longleftrightarrow>
     distinct (acknowledged k s @ queued k s) \<and>
     set (acknowledged k s @ queued k s) \<subseteq> released k s \<and>
     (se_releases_faulted (fs_sessions s ! k) \<longrightarrow> \<not> se_healthy (fs_sessions s ! k)) \<and>
     (\<not> se_releases_faulted (fs_sessions s ! k) \<longrightarrow>
        set (acknowledged k s @ queued k s) = released k s) \<and>
     length (queued k s) \<le> 16 \<and>
     sorted_wrt (<) (delivered k s)"

definition session_ok :: "nat \<Rightarrow> frame_source \<Rightarrow> bool" where
  "session_ok k s \<longleftrightarrow> acks_exact k s \<and>
     unat (se_epoch (fs_sessions s ! k)) = Suc k \<and>
     (\<forall>x \<in> set (delivered k s). x \<le> se_last_buffer_id (fs_sessions s ! k))"

definition frame_ok_in :: "frame_source \<Rightarrow> received_frame \<Rightarrow> bool" where
  "frame_ok_in s f \<longleftrightarrow> rv_session f < length (fs_sessions s) \<and>
     fd_session_epoch (rv_descriptor f) = se_epoch (fs_sessions s ! rv_session f) \<and>
     frame_ok (se_limits (fs_sessions s ! rv_session f)) ((rv_descriptor f)\<lparr>fd_session_epoch := 0\<rparr>)"

definition frsrc_inv :: "frame_source \<Rightarrow> bool" where
  "frsrc_inv s \<longleftrightarrow>
     unat (fs_outstanding s) = length (filter rv_live (fs_frames s)) \<and> fs_outstanding s \<le> 4 \<and>
     unat (fs_next_epoch s) = Suc (length (fs_sessions s)) \<and>
     (\<forall>k. fs_session s = Some k \<longrightarrow> k < length (fs_sessions s)) \<and>
     (\<forall>w \<in> set (fs_wire s). fst w < length (fs_sessions s)) \<and>
     (\<forall>f \<in> set (fs_frames s). frame_ok_in s f) \<and>
     (\<forall>k < length (fs_sessions s). session_ok k s)"

lemma frsrc_initial_inv [simp]: "frsrc_inv frsrc_initial"
  by (simp add: frsrc_inv_def frsrc_initial_def)

section \<open>Flushing\<close>

lemma flush_from_tokens:
  "frsrc_flush_from sends now ps = (rest, sent, fault) \<Longrightarrow> sent @ map pr_token rest = map pr_token ps"
  by (induction sends now ps arbitrary: rest sent fault rule: frsrc_flush_from.induct)
    (auto split: send_outcome.splits prod.splits)

lemma flush_releases:
  assumes "frsrc_flush_releases sends now session = (session', sent)"
  shows "sent @ map pr_token (se_pending_releases session') = map pr_token (se_pending_releases session)"
    and "se_limits session' = se_limits session" and "se_epoch session' = se_epoch session"
    and "se_last_buffer_id session' = se_last_buffer_id session"
    and "se_releases_faulted session \<Longrightarrow> se_releases_faulted session'"
    and "(se_releases_faulted session \<Longrightarrow> \<not> se_healthy session) \<Longrightarrow>
      se_releases_faulted session' \<Longrightarrow> \<not> se_healthy session'"
    and "se_healthy session' \<Longrightarrow> se_healthy session"
  using assms by (auto simp: frsrc_flush_releases_def Let_def flush_from_tokens split: prod.splits)

lemma queued_shorter:
  "sent @ map pr_token xs = map pr_token ys \<Longrightarrow> length xs \<le> length ys"
  by (drule arg_cong [where f = length]) simp

text \<open>What changes with one session.\<close>

lemma on_session_fields [simp]:
  "fs_frames (on_session k act s) = fs_frames s"
  "fs_outstanding (on_session k act s) = fs_outstanding s"
  "fs_session (on_session k act s) = fs_session s"
  "fs_next_epoch (on_session k act s) = fs_next_epoch s"
  "length (fs_sessions (on_session k act s)) = length (fs_sessions s)"
  "delivered j (on_session k act s) = delivered j s"
  "released j (on_session k act s) = released j s"
  by (simp_all add: on_session_def split_beta delivered_def released_def)

lemma on_session_other:
  "j \<noteq> k \<Longrightarrow> fs_sessions (on_session k act s) ! j = fs_sessions s ! j"
  "j \<noteq> k \<Longrightarrow> acknowledged j (on_session k act s) = acknowledged j s"
  "j \<noteq> k \<Longrightarrow> queued j (on_session k act s) = queued j s"
  by (auto simp: on_session_def split_beta acknowledged_def queued_def filter_empty_conv)

lemma on_session_this:
  assumes "act (fs_sessions s ! k) = (session', sent)" and "k < length (fs_sessions s)"
  shows "fs_sessions (on_session k act s) ! k = session'"
    and "acknowledged k (on_session k act s) = acknowledged k s @ sent"
    and "queued k (on_session k act s) = map pr_token (se_pending_releases session')"
  using assms by (simp_all add: on_session_def acknowledged_def queued_def filter_map comp_def)

lemma session_ok_other:
  "j \<noteq> k \<Longrightarrow> session_ok j (on_session k act s) = session_ok j s"
  by (simp add: session_ok_def acks_exact_def on_session_other)

lemma frame_ok_on_session:
  assumes "\<And>session. se_limits (fst (act session)) = se_limits session \<and>
      se_epoch (fst (act session)) = se_epoch session \<and>
      se_last_buffer_id (fst (act session)) = se_last_buffer_id session"
  shows "frame_ok_in (on_session k act s) f = frame_ok_in s f"
  using assms [of "fs_sessions s ! k"]
  by (cases "k < length (fs_sessions s)"; cases "rv_session f = k")
    (simp_all add: frame_ok_in_def on_session_def split_beta)

lemma on_session_inv:
  assumes inv: "frsrc_inv s" and k: "k < length (fs_sessions s)"
    and fixed: "\<And>session. se_limits (fst (act session)) = se_limits session \<and>
      se_epoch (fst (act session)) = se_epoch session \<and>
      se_last_buffer_id (fst (act session)) = se_last_buffer_id session"
    and mine: "session_ok k (on_session k act s)"
  shows "frsrc_inv (on_session k act s)"
proof -
  have "session_ok j (on_session k act s)" if "j < length (fs_sessions s)" for j
    using that mine inv by (cases "j = k") (simp_all add: session_ok_other frsrc_inv_def)
  moreover have "\<forall>w \<in> set (fs_wire (on_session k act s)). fst w < length (fs_sessions s)"
    using inv k by (auto simp: frsrc_inv_def on_session_def split_beta)
  ultimately show ?thesis using inv by (simp add: frsrc_inv_def frame_ok_on_session [OF fixed])
qed

lemma flush_fixed:
  "se_limits (fst (frsrc_flush_releases sends now session)) = se_limits session \<and>
   se_epoch (fst (frsrc_flush_releases sends now session)) = se_epoch session \<and>
   se_last_buffer_id (fst (frsrc_flush_releases sends now session)) = se_last_buffer_id session"
  by (simp add: frsrc_flush_releases_def Let_def split_beta)

lemma flush_inv:
  assumes inv: "frsrc_inv s" and k: "k < length (fs_sessions s)"
  shows "frsrc_inv (on_session k (frsrc_flush_releases sends now) s)"
proof -
  obtain session' sent where act: "frsrc_flush_releases sends now (fs_sessions s ! k) = (session', sent)"
    by fastforce
  note mine = on_session_this [where act = "frsrc_flush_releases sends now", OF act k] and flush = flush_releases [OF act]
  have ok: "session_ok k s" using inv k by (simp add: frsrc_inv_def)
  have channel: "acknowledged k (on_session k (frsrc_flush_releases sends now) s) @
      queued k (on_session k (frsrc_flush_releases sends now) s) = acknowledged k s @ queued k s"
    using flush(1) by (simp add: mine queued_def)
  have "session_ok k (on_session k (frsrc_flush_releases sends now) s)"
    using ok flush(2-6) queued_shorter [OF flush(1)] channel
    unfolding session_ok_def acks_exact_def channel
    by (auto simp: mine queued_def)
  then show ?thesis by (intro on_session_inv [OF inv k flush_fixed])
qed

section \<open>Releasing\<close>

lemma release_completion_fixed:
  "se_limits (fst (frsrc_release_completion queued_at sends now token session)) = se_limits session \<and>
   se_epoch (fst (frsrc_release_completion queued_at sends now token session)) = se_epoch session \<and>
   se_last_buffer_id (fst (frsrc_release_completion queued_at sends now token session)) =
     se_last_buffer_id session"
  using flush_fixed [of sends now "session\<lparr>se_pending_releases := se_pending_releases session @
      [\<lparr>pr_token = token, pr_queued_at = queued_at\<rparr>]\<rparr>"]
  by (simp add: frsrc_release_completion_def Let_def)

lemma release_completion:
  assumes "frsrc_release_completion queued_at sends now token session = (session', sent)"
  obtains (dropped) "sent = []" "se_releases_faulted session'" "session' = session"
  | (overflow) "sent = []" "se_pending_releases session' = []" "se_releases_faulted session'"
      "\<not> se_healthy session'"
  | (queued) "sent @ map pr_token (se_pending_releases session') =
        map pr_token (se_pending_releases session) @ [token]"
      "length (se_pending_releases session') \<le> 16" "\<not> se_releases_faulted session"
      "se_releases_faulted session' \<longrightarrow> \<not> se_healthy session'"
proof (cases "se_releases_faulted session")
  case True
  then have same: "session' = session \<and> sent = []" using assms by (simp add: frsrc_release_completion_def)
  show ?thesis by (rule dropped) (simp_all add: same True)
next
  case False
  let ?queued = "se_pending_releases session @ [\<lparr>pr_token = token, pr_queued_at = queued_at\<rparr>]"
  show ?thesis
  proof (cases "length ?queued > fr_max_pending_releases")
    case True
    then have "session' = session\<lparr>se_releases_faulted := True, se_healthy := False,
        se_pending_releases := []\<rparr> \<and> sent = []"
      using assms False by (simp add: frsrc_release_completion_def)
    then show ?thesis by (intro overflow) simp_all
  next
    case small: False
    then have "frsrc_flush_releases sends now (session\<lparr>se_pending_releases := ?queued\<rparr>) = (session', sent)"
      using assms False by (simp add: frsrc_release_completion_def)
    note flush = flush_releases [OF this]
    show ?thesis
    proof (rule queued [OF _ _ False])
      show "sent @ map pr_token (se_pending_releases session') =
          map pr_token (se_pending_releases session) @ [token]" using flush(1) by simp
      show "length (se_pending_releases session') \<le> 16"
        using queued_shorter [OF flush(1)] small by (simp add: fr_max_pending_releases_def)
      show "se_releases_faulted session' \<longrightarrow> \<not> se_healthy session'" using flush(6) False by simp
    qed
  qed
qed

text \<open>Releasing a live frame adds its token to the released ones, and it was not there before.\<close>

lemma release_token_split:
  assumes xs: "fs_frames s = pre @ f # post" and live: "rv_live f"
    and xs': "fs_frames s' = pre @ f\<lparr>rv_live := False\<rparr> # post"
  shows "released k s' = (if rv_session f = k then insert (token_of f) (released k s) else released k s)"
    and "delivered k s' = delivered k s"
    and "Suc (length (filter rv_live (fs_frames s'))) = length (filter rv_live (fs_frames s))"
    and "sorted_wrt (<) (delivered k s) \<Longrightarrow> rv_session f = k \<Longrightarrow> token_of f \<notin> released k s"
proof -
  have split: "released k t = token_of ` {g \<in> set pre \<union> set post. rv_session g = k \<and> \<not> rv_live g} \<union>
      (if rv_session g = k \<and> \<not> rv_live g then {token_of g} else {})"
    if "fs_frames t = pre @ g # post" for t g
    using that by (auto simp: released_def)
  show "released k s' = (if rv_session f = k then insert (token_of f) (released k s) else released k s)"
    using live by (simp add: split [OF xs] split [OF xs'] token_of_def)
  show "delivered k s' = delivered k s"
    by (simp add: delivered_def xs xs' token_of_def)
  show "Suc (length (filter rv_live (fs_frames s'))) = length (filter rv_live (fs_frames s))"
    by (simp add: xs xs' live)
  assume sorted: "sorted_wrt (<) (delivered k s)" and k: "rv_session f = k"
  have differ: "token_of f \<noteq> token_of g" if "g \<in> set pre \<union> set post" "rv_session g = k" for g
  proof -
    from sorted have "\<forall>x \<in> token_of ` {g \<in> set pre. rv_session g = k}. x < token_of f"
      "\<forall>x \<in> token_of ` {g \<in> set post. rv_session g = k}. token_of f < x"
      by (auto simp: delivered_def xs k sorted_wrt_append)
    then show ?thesis using that by fastforce
  qed
  show "token_of f \<notin> released k s" using live differ unfolding split [OF xs] by auto
qed

lemma release_token:
  assumes i: "i < length (fs_frames s)" and live: "rv_live (fs_frames s ! i)"
    and frames: "fs_frames s' = (fs_frames s)[i := (fs_frames s ! i)\<lparr>rv_live := False\<rparr>]"
  shows "released k s' = (if rv_session (fs_frames s ! i) = k
      then insert (token_of (fs_frames s ! i)) (released k s) else released k s)"
    and "delivered k s' = delivered k s"
    and "Suc (length (filter rv_live (fs_frames s'))) = length (filter rv_live (fs_frames s))"
    and "sorted_wrt (<) (delivered k s) \<Longrightarrow> rv_session (fs_frames s ! i) = k \<Longrightarrow>
      token_of (fs_frames s ! i) \<notin> released k s"
  using release_token_split [OF id_take_nth_drop [OF i] live]
    frames [unfolded upd_conv_take_nth_drop [OF i]] by blast+

lemma channel_fields [simp]:
  "acknowledged k (s\<lparr>fs_frames := fs, fs_outstanding := n\<rparr>) = acknowledged k s"
  "queued k (s\<lparr>fs_frames := fs, fs_outstanding := n\<rparr>) = queued k s"
  by (simp_all add: acknowledged_def queued_def)

lemma release_frame_inv:
  assumes inv: "frsrc_inv s"
  shows "frsrc_inv (fst (frsrc_release_frame i queued_at sends now s))"
proof (cases "i < length (fs_frames s) \<and> rv_live (fs_frames s ! i)")
  case False
  then show ?thesis using inv by (auto simp: frsrc_release_frame_def)
next
  case True
  then have i: "i < length (fs_frames s)" and live: "rv_live (fs_frames s ! i)" by simp_all
  let ?f = "fs_frames s ! i" and ?k = "rv_session (fs_frames s ! i)"
  let ?act = "frsrc_release_completion queued_at sends now (token_of ?f)"
  let ?s1 = "on_session ?k ?act s"
  let ?s' = "?s1\<lparr>fs_frames := (fs_frames s)[i := ?f\<lparr>rv_live := False\<rparr>],
      fs_outstanding := fs_outstanding s - 1\<rparr>"
  have result: "fst (frsrc_release_frame i queued_at sends now s) = ?s'"
    using True by (simp add: frsrc_release_frame_def token_of_def Let_def)
  note token = release_token [OF i live, of ?s', simplified]
  have f: "frame_ok_in s ?f" using inv nth_mem [OF i] by (simp add: frsrc_inv_def)
  then have k: "?k < length (fs_sessions s)" by (simp add: frame_ok_in_def)
  obtain session' sent where act: "?act (fs_sessions s ! ?k) = (session', sent)" by fastforce
  note mine = on_session_this [where act = ?act, OF act k]
  note fixed = release_completion_fixed [of queued_at sends now "token_of ?f"]
  have fixed': "se_limits session' = se_limits (fs_sessions s ! ?k)"
    "se_epoch session' = se_epoch (fs_sessions s ! ?k)"
    "se_last_buffer_id session' = se_last_buffer_id (fs_sessions s ! ?k)"
    using fixed [of "fs_sessions s ! ?k"] act by simp_all
  have ok: "session_ok ?k s" using inv k by (simp add: frsrc_inv_def)
  then have fresh: "token_of ?f \<notin> released ?k s" using token(4) by (simp add: session_ok_def acks_exact_def)
  have "acks_exact ?k ?s'"
    using act
  proof (cases rule: release_completion)
    case dropped
    then show ?thesis using ok by (auto simp: session_ok_def acks_exact_def token mine queued_def)
  next
    case overflow
    then show ?thesis using ok by (auto simp: session_ok_def acks_exact_def token mine)
  next
    case q: queued
    have channel: "acknowledged ?k ?s' @ queued ?k ?s' = (acknowledged ?k s @ queued ?k s) @ [token_of ?f]"
      using q(1) by (simp add: mine queued_def)
    have "length (queued ?k ?s') \<le> 16" using q(2) by (simp add: mine)
    with ok fresh q(3,4) channel show ?thesis
      unfolding session_ok_def acks_exact_def channel token by (auto simp: mine)
  qed
  then have mine_ok: "session_ok ?k ?s'"
    using ok by (simp add: session_ok_def token mine fixed')
  have sessions_ok: "session_ok j ?s'" if "j < length (fs_sessions s)" for j
  proof (cases "j = ?k")
    case False
    have "session_ok j s" using inv that by (simp add: frsrc_inv_def)
    then show ?thesis using False
      by (simp add: session_ok_def acks_exact_def token on_session_other [OF False])
  qed (use mine_ok in simp)
  have frames_ok: "frame_ok_in ?s' g" if "g \<in> set (fs_frames ?s')" for g
  proof -
    from that have "g \<in> insert (?f\<lparr>rv_live := False\<rparr>) (set (fs_frames s))"
      using set_update_subset_insert [of "fs_frames s" i "?f\<lparr>rv_live := False\<rparr>"] by auto
    moreover have "frame_ok_in s (?f\<lparr>rv_live := False\<rparr>)" using f by (simp add: frame_ok_in_def)
    ultimately have "frame_ok_in s g" using inv by (auto simp: frsrc_inv_def)
    then have "frame_ok_in ?s1 g" by (simp add: frame_ok_on_session fixed)
    then show ?thesis by (simp add: frame_ok_in_def)
  qed
  have wires: "\<forall>w \<in> set (fs_wire ?s'). fst w < length (fs_sessions s)"
    using inv k by (auto simp: frsrc_inv_def on_session_def split_beta)
  have count: "unat (fs_outstanding s) = Suc (length (filter rv_live (fs_frames ?s')))"
    using token(3) inv by (simp add: frsrc_inv_def)
  then have "fs_outstanding s \<noteq> 0" by auto
  then have "unat (fs_outstanding s - 1) = unat (fs_outstanding s) - 1"
    by (simp add: unat_minus_one)
  then have "unat (fs_outstanding ?s') = length (filter rv_live (fs_frames ?s'))"
    and "fs_outstanding ?s' \<le> 4" using count inv by (simp_all add: frsrc_inv_def word_le_nat_alt)
  then show ?thesis unfolding result frsrc_inv_def
    using inv sessions_ok frames_ok wires by (simp add: frsrc_inv_def)
qed

section \<open>Connecting and receiving\<close>

lemma fault_as_session:
  "frsrc_fault k s = on_session k (\<lambda>session. (session\<lparr>se_healthy := False\<rparr>, [])) s"
  by (simp add: frsrc_fault_def on_session_def)

lemma frsrc_fault_inv:
  assumes inv: "frsrc_inv s" and k: "k < length (fs_sessions s)"
  shows "frsrc_inv (frsrc_fault k s)"
proof -
  let ?act = "\<lambda>session. (session\<lparr>se_healthy := False\<rparr>, [] :: u64 list)"
  note mine = on_session_this [where act = ?act and s = s, OF refl k]
  have "session_ok k s" using inv k by (simp add: frsrc_inv_def)
  then have "session_ok k (on_session k ?act s)"
    by (simp add: session_ok_def acks_exact_def mine) (simp add: queued_def)
  then show ?thesis unfolding fault_as_session by (intro on_session_inv [OF inv k]) simp_all
qed

text \<open>A frame is delivered only by a session whose description obeys the wire contract.\<close>

lemma accept_result:
  assumes "frsrc_accept big packet fd k s = (st, s', frame, dropped)"
  obtains (refused) "st \<noteq> Ok" "s' = frsrc_fault k s" "frame = None" "dropped = [fd]"
  | (taken) d where "st = Ok" "frame = Some (length (fs_frames s))" "dropped = []"
      "frame_ok (se_limits (fs_sessions s ! k)) d" "fd_session_epoch d = 0"
      "se_last_buffer_id (fs_sessions s ! k) < fd_buffer_id d"
      "s' = s\<lparr>fs_frames := fs_frames s @ [\<lparr>rv_fd = fd,
          rv_descriptor = d\<lparr>fd_session_epoch := se_epoch (fs_sessions s ! k)\<rparr>,
          rv_session = k, rv_live = True\<rparr>],
        fs_sessions := (fs_sessions s)[k := (fs_sessions s ! k)\<lparr>se_last_buffer_id := fd_buffer_id d\<rparr>],
        fs_outstanding := fs_outstanding s + 1\<rparr>"
proof -
  obtain decoded d where decode: "lwire_decode_frame big (Some packet) lw_header_bytes
      (se_limits (fs_sessions s ! k)) blank_descriptor = (decoded, d)" by fastforce
  show ?thesis
  proof (cases "decoded = Ok \<and> se_last_buffer_id (fs_sessions s ! k) < fd_buffer_id d")
    case False
    then have "st \<noteq> Ok \<and> s' = frsrc_fault k s \<and> frame = None \<and> dropped = [fd]"
      using assms decode by (auto simp: frsrc_accept_def Let_def not_less split: if_splits)
    then show ?thesis using refused by blast
  next
    case True
    then have ok: "frame_ok (se_limits (fs_sessions s ! k)) d" "fd_session_epoch d = 0"
      using decode by (auto simp: lwire_decode_frame_Ok_iff frame_ok_def)
    show ?thesis
    proof (rule taken [OF _ _ _ ok conjunct2 [OF True]])
    qed (use assms decode True in \<open>simp_all add: frsrc_accept_def Let_def not_le [symmetric]\<close>)
  qed
qed

lemma accept_inv:
  assumes inv: "frsrc_inv s" and k: "k < length (fs_sessions s)" and room: "fs_outstanding s < 4"
  shows "frsrc_inv (fst (snd (frsrc_accept big packet fd k s)))"
proof -
  obtain st s' frame dropped where result: "frsrc_accept big packet fd k s = (st, s', frame, dropped)"
    by (metis prod_cases4)
  from result have "frsrc_inv s'"
  proof (cases rule: accept_result)
    case refused
    then show ?thesis using frsrc_fault_inv [OF inv k] by simp
  next
    case (taken d)
    let ?session = "(fs_sessions s ! k)\<lparr>se_last_buffer_id := fd_buffer_id d\<rparr>"
    let ?frame = "\<lparr>rv_fd = fd, rv_descriptor = d\<lparr>fd_session_epoch := se_epoch (fs_sessions s ! k)\<rparr>,
        rv_session = k, rv_live = True\<rparr>"
    have new: "delivered j s' = delivered j s @ (if j = k then [fd_buffer_id d] else [])"
      "released j s' = released j s" "acknowledged j s' = acknowledged j s"
      "queued j s' = queued j s" for j
      using k by (auto simp: taken(7) delivered_def released_def acknowledged_def queued_def
          token_of_def nth_list_update)
    have sessions_ok: "session_ok j s'" if "j < length (fs_sessions s)" for j
    proof -
      have ok: "session_ok j s" using inv that by (simp add: frsrc_inv_def)
      show ?thesis
      proof (cases "j = k")
        case False
        then have "fs_sessions s' ! j = fs_sessions s ! j" by (simp add: taken(7))
        then show ?thesis using ok False by (simp add: session_ok_def acks_exact_def new)
      next
        case True
        have this_session: "fs_sessions s' ! k = ?session" using k by (simp add: taken(7))
        have "x < fd_buffer_id d" if "x \<in> set (delivered k s)" for x
          using ok that taken(6) by (auto simp: session_ok_def True)
        then show ?thesis using ok
          unfolding True by (auto simp: session_ok_def acks_exact_def new this_session
              sorted_wrt_append intro: less_imp_le)
      qed
    qed
    have fixed: "se_limits (fs_sessions s' ! j) = se_limits (fs_sessions s ! j)"
      "se_epoch (fs_sessions s' ! j) = se_epoch (fs_sessions s ! j)"
      if "j < length (fs_sessions s)" for j
      using that k by (cases "j = k"; simp add: taken(7))+
    have "d\<lparr>fd_session_epoch := 0\<rparr> = d" using taken(5) by (cases d) simp
    then have "frame_ok_in s' ?frame" using k taken(4) by (simp add: frame_ok_in_def fixed) (simp add: taken(7))
    moreover have "frame_ok_in s' f" if "f \<in> set (fs_frames s)" for f
      using that inv by (auto simp: frsrc_inv_def frame_ok_in_def fixed) (simp_all add: taken(7))
    ultimately have frames_ok: "\<forall>f \<in> set (fs_frames s'). frame_ok_in s' f" by (simp add: taken(7))
    have "unat (fs_outstanding s + 1) = Suc (unat (fs_outstanding s))"
      using room by (intro unat_Suc_exact) auto
    then have "unat (fs_outstanding s') = length (filter rv_live (fs_frames s'))" "fs_outstanding s' \<le> 4"
      using inv room by (simp_all add: taken(7) frsrc_inv_def word_le_nat_alt word_less_nat_alt)
    then show ?thesis using inv sessions_ok frames_ok unfolding frsrc_inv_def
      by (simp add: taken(7))
  qed
  then show ?thesis by (simp add: result)
qed

lemma receive_packet_inv:
  assumes inv: "frsrc_inv s" and k: "k < length (fs_sessions s)" and room: "fs_outstanding s < 4"
  shows "frsrc_inv (fst (snd (frsrc_receive_packet big outcome k s)))"
  using inv frsrc_fault_inv [OF inv k] accept_inv [OF inv k room]
  by (auto simp: frsrc_receive_packet_def Let_def split_beta split: recv_outcome.splits)

lemma receive_inv:
  assumes inv: "frsrc_inv s"
  shows "frsrc_inv (fst (snd (frsrc_receive big occupied timeout_ms env s)))"
proof (cases "fs_session s")
  case None
  then show ?thesis using inv by (simp add: frsrc_receive_def)
next
  case (Some k)
  then have k: "k < length (fs_sessions s)" using inv by (simp add: frsrc_inv_def)
  let ?s = "on_session k (frsrc_flush_releases (rx_sends env) (rx_now env)) s"
  have flushed: "frsrc_inv ?s" "k < length (fs_sessions ?s)" using flush_inv [OF inv k] k by simp_all
  have "frsrc_inv (fst (snd (frsrc_receive_packet big (rx_recv env) k ?s)))"
    if "\<not> 4 \<le> fs_outstanding s"
    using that by (intro receive_packet_inv flushed) (simp add: not_le)
  then show ?thesis
    using inv flushed(1) frsrc_fault_inv [OF flushed] Some
    by (simp add: frsrc_receive_def Let_def fr_max_live_frames_def split: poll_outcome.splits)
qed

lemma connect_inv:
  assumes inv: "frsrc_inv s"
  shows "frsrc_inv (snd (frsrc_connect config outcome s))"
proof (cases "snd (frsrc_connect config outcome s) = s")
  case True
  then show ?thesis using inv by simp
next
  case False
  let ?n = "length (fs_sessions s)"
  let ?session = "\<lparr>se_limits = sr_limits config, se_epoch = fs_next_epoch s, se_last_buffer_id = 0,
      se_healthy = True, se_pending_releases = [], se_releases_faulted = False\<rparr>"
  define s' where "s' = snd (frsrc_connect config outcome s)"
  have new: "s' = s\<lparr>fs_sessions := fs_sessions s @ [?session], fs_session := Some ?n,
      fs_next_epoch := fs_next_epoch s + 1\<rparr>" and epoch: "fs_next_epoch s \<noteq> UINT64_MAX"
    using False unfolding s'_def by (auto simp: frsrc_connect_def Let_def split: if_splits connect_outcome.splits)
  have epoch': "unat (fs_next_epoch s + 1) = Suc (unat (fs_next_epoch s))"
    using epoch by (intro unat_Suc_exact) simp
  have old: "fs_sessions s' ! j = fs_sessions s ! j" if "j < ?n" for j
    using that by (simp add: new nth_append)
  have same: "delivered j s' = delivered j s" "released j s' = released j s"
    "acknowledged j s' = acknowledged j s" for j
    by (simp_all add: new delivered_def released_def acknowledged_def)
  have sessions_ok: "session_ok j s'" if "j < ?n" for j
    using inv that by (auto simp: frsrc_inv_def session_ok_def acks_exact_def same old queued_def)
  have "delivered ?n s = []" "released ?n s = {}" "acknowledged ?n s = []"
    using inv by (auto simp: frsrc_inv_def frame_ok_in_def delivered_def released_def acknowledged_def
        filter_empty_conv)
  then have last_ok: "session_ok ?n s'"
    using inv by (simp add: session_ok_def acks_exact_def same queued_def) (simp add: new frsrc_inv_def)
  have frames_ok: "frame_ok_in s' f" if "f \<in> set (fs_frames s)" for f
    using inv that by (auto simp: frsrc_inv_def frame_ok_in_def old) (simp add: new less_SucI)
  have all_sessions: "session_ok j s'" if "j < length (fs_sessions s')" for j
    using that sessions_ok last_ok by (cases "j = ?n") (simp_all add: new)
  have "fs_frames s' = fs_frames s" "fs_wire s' = fs_wire s" "fs_outstanding s' = fs_outstanding s"
    "fs_session s' = Some ?n" "length (fs_sessions s') = Suc ?n" "fs_next_epoch s' = fs_next_epoch s + 1"
    by (simp_all add: new)
  with inv all_sessions frames_ok epoch' show ?thesis
    unfolding s'_def [symmetric] frsrc_inv_def by (auto intro: less_SucI)
qed

lemma disconnect_inv:
  assumes inv: "frsrc_inv s"
  shows "frsrc_inv (frsrc_disconnect sends now s)"
proof (cases "fs_session s")
  case (Some k)
  then have "k < length (fs_sessions s)" using inv by (simp add: frsrc_inv_def)
  from flush_inv [OF inv this, of sends now] Some show ?thesis
    by (simp add: frsrc_disconnect_def frsrc_inv_def session_ok_def acks_exact_def queued_def
        delivered_def released_def acknowledged_def frame_ok_in_def)
qed (use inv in \<open>simp add: frsrc_disconnect_def\<close>)

section \<open>Runs\<close>

datatype source_op =
    Connect camera_source_config connect_outcome
  | Receive bool int receive_environment
  | Disconnect "nat \<Rightarrow> send_outcome" int
  | Release nat int "nat \<Rightarrow> send_outcome" int

fun frsrc_step :: "bool \<Rightarrow> source_op \<Rightarrow> frame_source \<Rightarrow> frame_source" where
  "frsrc_step big (Connect config outcome) s = snd (frsrc_connect config outcome s)"
| "frsrc_step big (Receive occupied timeout_ms env) s =
     fst (snd (frsrc_receive big occupied timeout_ms env s))"
| "frsrc_step big (Disconnect sends now) s = frsrc_disconnect sends now s"
| "frsrc_step big (Release i queued_at sends now) s = fst (frsrc_release_frame i queued_at sends now s)"

lemma frsrc_step_inv: "frsrc_inv s \<Longrightarrow> frsrc_inv (frsrc_step big op s)"
  by (cases op) (simp_all add: connect_inv receive_inv disconnect_inv release_frame_inv)

interpretation frsrc: step_system "frsrc_step big" frsrc_inv for big
  by unfold_locales (rule frsrc_step_inv)

lemmas frsrc_run_inv = frsrc.run_inv [OF frsrc_initial_inv]

text \<open>
  C24. Over any sequence of connects, receives, detaches and final releases of frames, with any
  answers of the sockets: the number of outstanding frames is the number of delivered frames
  still owned, at most four; and in every session, also after it was detached, what was
  acknowledged on its socket together with what is queued is exactly the set of its released
  frames, each once, as long as the session did not fault, and never more than that afterwards.
  No buffer is handed back to the producer while a reader still owns it, and no token is sent twice.
\<close>

theorem frsrc_acknowledgements_exact:
  "let s = fold (frsrc_step big) ops frsrc_initial
   in unat (frsrc_get_outstanding s) = length (filter rv_live (fs_frames s)) \<and>
      frsrc_get_outstanding s \<le> 4 \<and>
      list_all (\<lambda>k. acks_exact k s) [0..<length (fs_sessions s)]"
proof -
  have "frsrc_inv (fold (frsrc_step big) ops frsrc_initial)" by (rule frsrc_run_inv)
  then show ?thesis
    by (auto simp: Let_def frsrc_inv_def frsrc_get_outstanding_def session_ok_def list_all_iff)
qed

text \<open>A receive returns a frame exactly with \<open>Ok\<close>: a new one, which its caller then owns.\<close>

lemma fault_outstanding [simp]:
  "fs_outstanding (frsrc_fault k s) = fs_outstanding s" "fs_frames (frsrc_fault k s) = fs_frames s"
  by (simp_all add: frsrc_fault_def)

lemma receive_result:
  assumes "frsrc_receive big occupied timeout_ms env s = (st, s', frame, dropped)"
  obtains (none) "frame = None" "st \<noteq> Ok" "fs_outstanding s' = fs_outstanding s"
  | (frame) i where "frame = Some i" "st = Ok" "unat (fs_outstanding s') = Suc (unat (fs_outstanding s))"
      "i < length (fs_frames s')" "rv_live (fs_frames s' ! i)"
proof -
  have "(frame = None \<and> st \<noteq> Ok \<and> fs_outstanding s' = fs_outstanding s) \<or>
      (\<exists>i. frame = Some i \<and> st = Ok \<and> unat (fs_outstanding s') = Suc (unat (fs_outstanding s)) \<and>
        i < length (fs_frames s') \<and> rv_live (fs_frames s' ! i))"
  proof (cases "\<exists>k bytes packet truncated messages. fs_session s = Some k \<and>
      rx_recv env = Recv_packet bytes packet truncated messages \<and> \<not> 4 \<le> fs_outstanding s")
    case False
    then show ?thesis using assms
      by (auto simp: frsrc_receive_def frsrc_receive_packet_def Let_def fr_max_live_frames_def
          split: option.splits if_splits poll_outcome.splits recv_outcome.splits prod.splits)
  next
    case True
    then obtain k bytes packet truncated messages where env: "fs_session s = Some k"
      "rx_recv env = Recv_packet bytes packet truncated messages" and room: "\<not> 4 \<le> fs_outstanding s"
      by blast
    let ?s = "on_session k (frsrc_flush_releases (rx_sends env) (rx_now env)) s"
    obtain valid rights handles early where read:
      "frsrc_read_control messages (True, 0, [], []) = (valid, rights, handles, early)"
      by (metis prod_cases4)
    obtain st1 s1 frame1 rest where accept: "frsrc_accept big packet (hd handles) k ?s = (st1, s1, frame1, rest)"
      by (metis prod_cases4)
    have "unat (fs_outstanding s + 1) = Suc (unat (fs_outstanding s))"
      using room by (intro unat_Suc_exact) auto
    with accept have "(frame1 = None \<and> st1 \<noteq> Ok \<and> fs_outstanding s1 = fs_outstanding s) \<or>
      (\<exists>i. frame1 = Some i \<and> st1 = Ok \<and> unat (fs_outstanding s1) = Suc (unat (fs_outstanding s)) \<and>
        i < length (fs_frames s1) \<and> rv_live (fs_frames s1 ! i))"
      by (cases rule: accept_result) auto
    then show ?thesis using assms env
      by (auto simp: frsrc_receive_def frsrc_receive_packet_def Let_def read accept
          split: if_splits poll_outcome.splits)
  qed
  then show ?thesis using none frame by blast
qed

lemma release_outstanding:
  assumes "frsrc_inv s"
  shows "unat (fs_outstanding (fst (frsrc_release_frame i queued_at sends now s))) =
    (if i < length (fs_frames s) \<and> rv_live (fs_frames s ! i) then unat (fs_outstanding s) - 1
     else unat (fs_outstanding s))"
    and "i < length (fs_frames s) \<Longrightarrow> rv_live (fs_frames s ! i) \<Longrightarrow> 0 < unat (fs_outstanding s)"
proof -
  have count: "unat (fs_outstanding s) = length (filter rv_live (fs_frames s))"
    using assms by (simp add: frsrc_inv_def)
  show pos: "0 < unat (fs_outstanding s)"
    if "i < length (fs_frames s)" "rv_live (fs_frames s ! i)"
  proof -
    from that have "fs_frames s ! i \<in> set (filter rv_live (fs_frames s))" by simp
    then show ?thesis unfolding count by (metis length_greater_0_conv list.set(1) empty_iff)
  qed
  have minus: "unat (fs_outstanding s - 1) = unat (fs_outstanding s) - 1" if "0 < unat (fs_outstanding s)"
    using that by (intro unat_minus_one) auto
  show "unat (fs_outstanding (fst (frsrc_release_frame i queued_at sends now s))) =
    (if i < length (fs_frames s) \<and> rv_live (fs_frames s ! i) then unat (fs_outstanding s) - 1
     else unat (fs_outstanding s))"
    using pos minus by (simp add: frsrc_release_frame_def Let_def)
qed

lemma connect_outstanding [simp]:
  "fs_outstanding (snd (frsrc_connect config outcome s)) = fs_outstanding s"
  by (simp add: frsrc_connect_def Let_def split: connect_outcome.split)

lemma disconnect_outstanding [simp]: "fs_outstanding (frsrc_disconnect sends now s) = fs_outstanding s"
  by (simp add: frsrc_disconnect_def split: option.split)

section \<open>Descriptors\<close>

definition received_handles :: "control_message list \<Rightarrow> int list" where
  "received_handles ms = concat (map cg_handles (filter cg_is_rights ms))"

lemma read_control_handles:
  "frsrc_read_control ms (valid, rights, handles, dropped) = (valid', rights', handles', dropped') \<Longrightarrow>
     mset handles' + mset dropped' = mset handles + mset dropped + mset (received_handles ms)"
proof (induction ms arbitrary: valid rights handles dropped)
  case Nil
  then show ?case by (simp add: received_handles_def)
next
  case (Cons m ms)
  show ?case
  proof (cases "cg_is_rights m")
    case False
    then show ?thesis using Cons.IH Cons.prems by (simp add: received_handles_def)
  next
    case True
    let ?room = "16 - length handles"
    have split: "mset (take ?room (cg_handles m)) + mset (drop ?room (cg_handles m)) = mset (cg_handles m)"
      by (simp flip: mset_append)
    have "mset handles' + mset dropped' = mset (handles @ take ?room (cg_handles m)) +
        mset (dropped @ drop ?room (cg_handles m)) + mset (received_handles ms)"
      by (rule Cons.IH) (use Cons.prems True in \<open>simp add: Let_def\<close>)
    then show ?thesis using True by (simp add: received_handles_def flip: split)
  qed
qed

text \<open>
  Every file descriptor that arrives with a packet is accounted for: it is either the one
  of the frame delivered, or it is closed before the receive returns, and none is closed twice.
\<close>

lemma frsrc_descriptors_accounted:
  "let (st, s', frame, dropped) = frsrc_receive_packet big (Recv_packet bytes packet truncated messages) k s
   in mset (received_handles messages) =
        mset dropped + (case frame of None \<Rightarrow> {#} | Some i \<Rightarrow> {#rv_fd (fs_frames s' ! i)#})"
proof -
  obtain valid rights handles early where read:
    "frsrc_read_control messages (True, 0, [], []) = (valid, rights, handles, early)"
    by (metis prod_cases4)
  note all = read_control_handles [OF this, simplified]
  obtain st s' frame rest where accept: "frsrc_accept big packet (hd handles) k s = (st, s', frame, rest)"
    by (metis prod_cases4)
  from accept have one: "{#hd handles#} = mset rest +
      (case frame of None \<Rightarrow> {#} | Some i \<Rightarrow> {#rv_fd (fs_frames s' ! i)#})"
    by (cases rule: accept_result) simp_all
  show ?thesis
  proof (cases "length handles = 1")
    case True
    then obtain h where h: "handles = [h]" by (cases handles) auto
    then have single: "mset (received_handles messages) = add_mset h (mset early)"
      using all by simp
    have "add_mset h (mset early) = mset (early @ rest) +
        (case frame of None \<Rightarrow> {#} | Some i \<Rightarrow> {#rv_fd (fs_frames s' ! i)#})"
      using one h by simp
    then show ?thesis
      by (simp add: frsrc_receive_packet_def read accept [simplified h list.sel(1)] h single lw_header_bytes_def)
  qed (use all in \<open>simp add: frsrc_receive_packet_def read add.commute\<close>)
qed

end
