(* ===== verification/Source_Lifecycle.thy ===== *)
theory Source_Lifecycle
  imports Camera_Control Frame_Source
begin

text \<open>
  One acquisition cycle of a camera, control and media together:
  adapters/camera/vqec_vision_source_lifecycle.{hpp,cpp} (prefix \<open>srclc\<close>), and the raw source
  port it implements (\<open>rawsr\<close>). It owns one \<open>camera_control\<close> and one \<open>frame_source\<close>; the lemmas
  show how the two are kept in order: the stream is given back only when every frame is released.
\<close>

section \<open>State\<close>

datatype camera_source_state =
    Cam_idle | Cam_starting | Cam_connecting | Cam_running | Cam_draining | Cam_releasing | Cam_stopped

record camera_lifecycle_config =
  lc_acquire :: camera_acquire_request
  lc_media :: camera_source_config
  lc_stop_request_id :: string
  lc_max_fps :: u32

record source_lifecycle =
  sl_config :: camera_lifecycle_config
  sl_control :: camera_control
  sl_source :: frame_source
  sl_state :: camera_source_state

definition srclc_create :: "bool \<Rightarrow> camera_lifecycle_config \<Rightarrow> source_lifecycle" where
  "srclc_create rpc config = \<lparr>sl_config = config, sl_control = cctrl_initial rpc,
     sl_source = frsrc_initial, sl_state = Cam_idle\<rparr>"

section \<open>Operations\<close>

definition srclc_is_identifier :: "string \<Rightarrow> bool" where
  "srclc_is_identifier v = ident_is_valid v cp_max_identifier_bytes"

definition srclc_config_rejected :: "camera_lifecycle_config \<Rightarrow> bool" where
  "srclc_config_rejected c \<longleftrightarrow>
     sr_socket_path (lc_media c) = [] \<or> \<not> srclc_is_identifier (lc_stop_request_id c) \<or>
     \<not> srclc_is_identifier (aq_request_id (lc_acquire c)) \<or>
     \<not> srclc_is_identifier (aq_consumer_id (lc_acquire c)) \<or>
     lc_stop_request_id c = aq_request_id (lc_acquire c) \<or> lc_max_fps c = 0 \<or>
     sr_producer_uid (lc_media c) = - 1 \<or> lf_nv12_format_value (sr_limits (lc_media c)) = 0 \<or>
     lf_max_width (sr_limits (lc_media c)) = 0 \<or> lf_max_height (sr_limits (lc_media c)) = 0 \<or>
     lf_max_allocation_bytes (sr_limits (lc_media c)) = 0"

text \<open>The connecting part of a start, from \<open>Cam_connecting\<close>.\<close>

definition srclc_connect ::
    "connect_outcome \<Rightarrow> source_lifecycle \<Rightarrow> status \<times> source_lifecycle" where
  "srclc_connect outcome l =
     (let (connected, source) = frsrc_connect (lc_media (sl_config l)) outcome (sl_source l);
          l1 = l\<lparr>sl_source := source\<rparr>
      in if connected = Ok then (connected, l1\<lparr>sl_state := Cam_running\<rparr>)
         else if connected \<noteq> Timeout \<and> connected \<noteq> Source_lost
           then (connected, l1\<lparr>sl_state := Cam_draining\<rparr>)
         else (connected, l1))"

text \<open>The acquiring part, from \<open>Cam_starting\<close>: whether to go on and connect, else the status.\<close>

definition srclc_acquire ::
    "int \<Rightarrow> rpc_reply \<Rightarrow> source_lifecycle \<Rightarrow> status option \<times> source_lifecycle \<times> rpc_call option" where
  "srclc_acquire timeout_ms reply l =
     (let (acquired, control, call) = cctrl_start (lc_acquire (sl_config l)) timeout_ms reply (sl_control l);
          l1 = l\<lparr>sl_control := control\<rparr>;
          profile = cct_profile control;
          limits = sr_limits (lc_media (sl_config l))
      in if acquired \<noteq> Ok
         then (Some acquired,
               if cct_state control = Lease_acquired then l1\<lparr>sl_state := Cam_draining\<rparr> else l1, call)
         else if cm_width profile > lf_max_width limits \<or> cm_height profile > lf_max_height limits \<or>
             cm_fps profile > lc_max_fps (sl_config l)
           then (Some Unsupported, l1\<lparr>sl_state := Cam_draining\<rparr>, call)
         else (None, l1\<lparr>sl_state := Cam_connecting\<rparr>, call))"

definition srclc_start ::
    "int \<Rightarrow> rpc_reply \<Rightarrow> connect_outcome \<Rightarrow> source_lifecycle \<Rightarrow>
       status \<times> source_lifecycle \<times> rpc_call option" where
  "srclc_start timeout_ms reply outcome l =
     (if timeout_ms < 1 \<or> timeout_ms > 60000 then (Invalid_argument, l, None)
      else if sl_state l \<in> {Cam_draining, Cam_releasing, Cam_stopped} then (Invalid_state, l, None)
      else if sl_state l = Cam_running then
        (if \<not> frsrc_is_healthy (sl_source l) then (Source_lost, l\<lparr>sl_state := Cam_draining\<rparr>, None)
         else (Ok, l, None))
      else if sl_state l = Cam_idle \<and> srclc_config_rejected (sl_config l) then (Invalid_argument, l, None)
      else
        (let l1 = (if sl_state l = Cam_idle then l\<lparr>sl_state := Cam_starting\<rparr> else l) in
         if sl_state l1 = Cam_starting then
           (case srclc_acquire timeout_ms reply l1 of
              (Some st, l2, call) \<Rightarrow> (st, l2, call)
            | (None, l2, call) \<Rightarrow> (let (st, l3) = srclc_connect outcome l2 in (st, l3, call)))
         else (let (st, l3) = srclc_connect outcome l1 in (st, l3, None))))"

text \<open>
  \<open>queued_at\<close>, \<open>sends\<close> and \<open>now\<close> are what the release of a frame that is not delivered meets.
\<close>

definition srclc_receive ::
    "bool \<Rightarrow> bool \<Rightarrow> int \<Rightarrow> receive_environment \<Rightarrow> int \<Rightarrow> (nat \<Rightarrow> send_outcome) \<Rightarrow> int \<Rightarrow>
       source_lifecycle \<Rightarrow> status \<times> source_lifecycle \<times> nat option" where
  "srclc_receive big occupied timeout_ms env queued_at sends now l =
     (if sl_state l \<noteq> Cam_running then (Invalid_state, l, None)
      else
        (case frsrc_receive big occupied timeout_ms env (sl_source l) of (received, source, frame, _) \<Rightarrow>
          (let l1 = l\<lparr>sl_source := source\<rparr> in
           case frame of
             None \<Rightarrow>
               (received, if \<not> frsrc_is_healthy source then l1\<lparr>sl_state := Cam_draining\<rparr> else l1, None)
           | Some i \<Rightarrow>
               (let d = rv_descriptor (fs_frames source ! i); profile = cct_profile (sl_control l) in
                if fd_width d \<noteq> cm_width profile \<or> fd_height d \<noteq> cm_height profile
                then (Unsupported,
                      l1\<lparr>sl_source := fst (frsrc_release_frame i queued_at sends now source),
                         sl_state := Cam_draining\<rparr>, None)
                else (Ok, l1, Some i)))))"

definition srclc_stop ::
    "int \<Rightarrow> rpc_reply \<Rightarrow> (nat \<Rightarrow> send_outcome) \<Rightarrow> int \<Rightarrow> source_lifecycle \<Rightarrow>
       status \<times> source_lifecycle \<times> rpc_call option" where
  "srclc_stop timeout_ms reply sends now l =
     (if timeout_ms < 1 \<or> timeout_ms > 60000 then (Invalid_argument, l, None)
      else if sl_state l \<in> {Cam_stopped, Cam_idle} then (Ok, l\<lparr>sl_state := Cam_stopped\<rparr>, None)
      else
        (let l1 = l\<lparr>sl_state := Cam_draining\<rparr> in
         if frsrc_get_outstanding (sl_source l1) \<noteq> 0 then (Pending, l1, None)
         else
           (let l2 = l1\<lparr>sl_source := frsrc_disconnect sends now (sl_source l1)\<rparr> in
            if cct_state (sl_control l2) = Lease_start_pending then
              (let (reconciled, control, call) =
                     cctrl_start (lc_acquire (sl_config l2)) timeout_ms reply (sl_control l2);
                   l3 = l2\<lparr>sl_control := control\<rparr>
               in if cct_state control = Lease_acquired then (Pending, l3, call)
                  else (reconciled, l3, call))
            else
              (let (released, control, call) =
                     cctrl_stop (lc_stop_request_id (sl_config l2)) timeout_ms reply (sl_control l2);
                   l3 = l2\<lparr>sl_control := control,
                          sl_state := (if released = Ok then Cam_stopped else Cam_releasing)\<rparr>
               in (released, l3, call)))))"

definition srclc_get_outstanding :: "source_lifecycle \<Rightarrow> u32" where
  "srclc_get_outstanding l = frsrc_get_outstanding (sl_source l)"

section \<open>The raw source port\<close>

text \<open>The caller's frame object is passed in; a delivered frame replaces it.\<close>

definition srclc_rawsr_receive ::
    "bool \<Rightarrow> raw_frame \<Rightarrow> int \<Rightarrow> receive_environment \<Rightarrow> int \<Rightarrow> (nat \<Rightarrow> send_outcome) \<Rightarrow> int \<Rightarrow>
       source_lifecycle \<Rightarrow> status \<times> source_lifecycle \<times> raw_frame" where
  "srclc_rawsr_receive big frame timeout_ms env queued_at sends now l =
     (if rf_owner frame \<noteq> None \<or> rf_native_handle frame \<noteq> - 1 then (Invalid_argument, l, frame)
      else
        (case srclc_receive big False timeout_ms env queued_at sends now l of
           (st, l', None) \<Rightarrow> (st, l', frame)
         | (st, l', Some i) \<Rightarrow>
             (let f = fs_frames (sl_source l') ! i
              in (Ok, l', \<lparr>rf_descriptor = rv_descriptor f, rf_native_handle = word_of_int (rv_fd f),
                           rf_owner = Some i\<rparr>))))"

definition srclc_rawsr_get_state :: "source_lifecycle \<Rightarrow> raw_source_state" where
  "srclc_rawsr_get_state l =
     (case sl_state l of
        Cam_idle \<Rightarrow> Source_idle
      | Cam_starting \<Rightarrow> Source_starting
      | Cam_connecting \<Rightarrow> Source_starting
      | Cam_running \<Rightarrow> Source_running
      | Cam_draining \<Rightarrow> Source_draining
      | Cam_releasing \<Rightarrow> Source_draining
      | Cam_stopped \<Rightarrow> Source_stopped)"

definition srclc_rawsr_get_profile :: "source_lifecycle \<Rightarrow> raw_source_profile" where
  "srclc_rawsr_get_profile l =
     (let profile = cct_profile (sl_control l)
      in \<lparr>sp_width = cm_width profile, sp_height = cm_height profile,
          sp_fps_numerator = cm_fps profile,
          sp_fps_denominator = (if cm_is_valid profile then 1 else 0)\<rparr>)"

section \<open>Runs\<close>

datatype lifecycle_op =
    Start int rpc_reply connect_outcome
  | Take bool int receive_environment int "nat \<Rightarrow> send_outcome" int
  | Stop int rpc_reply "nat \<Rightarrow> send_outcome" int
  | Free_frame nat int "nat \<Rightarrow> send_outcome" int

datatype lifecycle_event = Called "string \<times> camera_fields" | Delivered nat | Freed nat

fun call_events :: "rpc_call option \<Rightarrow> lifecycle_event list" where
  "call_events None = []"
| "call_events (Some call) = [Called (message_of call)]"

text \<open>One operation: what the service and the owners of frames see, and the next state.\<close>

fun srclc_step :: "bool \<Rightarrow> lifecycle_op \<Rightarrow> source_lifecycle \<Rightarrow> lifecycle_event list \<times> source_lifecycle" where
  "srclc_step big (Start timeout_ms reply outcome) l =
     (case srclc_start timeout_ms reply outcome l of (_, l', call) \<Rightarrow> (call_events call, l'))"
| "srclc_step big (Take occupied timeout_ms env queued_at sends now) l =
     (case srclc_receive big occupied timeout_ms env queued_at sends now l of
        (_, l', None) \<Rightarrow> ([], l') | (_, l', Some i) \<Rightarrow> ([Delivered i], l'))"
| "srclc_step big (Stop timeout_ms reply sends now) l =
     (case srclc_stop timeout_ms reply sends now l of (_, l', call) \<Rightarrow> (call_events call, l'))"
| "srclc_step big (Free_frame i queued_at sends now) l =
     (if i < length (fs_frames (sl_source l)) \<and> rv_live (fs_frames (sl_source l) ! i) then [Freed i] else [],
      l\<lparr>sl_source := fst (frsrc_release_frame i queued_at sends now (sl_source l))\<rparr>)"

fun srclc_run :: "bool \<Rightarrow> lifecycle_op list \<Rightarrow> source_lifecycle \<Rightarrow> lifecycle_event list \<times> source_lifecycle" where
  "srclc_run big [] l = ([], l)"
| "srclc_run big (op # ops) l =
     (let (now, l1) = srclc_step big op l; (later, l2) = srclc_run big ops l1 in (now @ later, l2))"

text \<open>
  The order that keeps the producer safe, on what is seen from outside: \<open>n\<close> frames are owned, and
  once a \<open>StopStream\<close> has been sent (\<open>stopping\<close>) no further frame comes.
\<close>

fun drained_before_stop :: "nat \<Rightarrow> bool \<Rightarrow> lifecycle_event list \<Rightarrow> bool" where
  "drained_before_stop n stopping [] = True"
| "drained_before_stop n stopping (Delivered i # es) =
     (\<not> stopping \<and> drained_before_stop (Suc n) stopping es)"
| "drained_before_stop n stopping (Freed i # es) =
     (0 < n \<and> drained_before_stop (n - 1) stopping es)"
| "drained_before_stop n stopping (Called m # es) =
     (if fst m = ''StopStream'' then n = 0 \<and> drained_before_stop n True es
      else drained_before_stop n stopping es)"

section \<open>Order\<close>

definition srclc_ended :: "source_lifecycle \<Rightarrow> bool" where
  "srclc_ended l \<longleftrightarrow> sl_state l \<in> {Cam_draining, Cam_releasing, Cam_stopped}"

lemma start_call_events:
  assumes "cctrl_start request timeout_ms reply c = (st, c', call)"
  shows "call_events call = [] \<or> (\<exists>r. call_events call = [Called (start_message r)])"
  using assms by (cases rule: cctrl_start_effect) auto

lemma start_message_name [simp]: "fst (start_message r) = ''StartStream''"
  by (simp add: start_message_def)

lemma stop_message_name [simp]: "fst (stop_message r h sid) = ''StopStream''"
  by (simp add: stop_message_def)

lemma stop_call_events:
  assumes "cctrl_stop request_id timeout_ms reply c = (st, c', call)"
  shows "call_events call = [] \<or> (\<exists>r h sid. call_events call = [Called (stop_message r h sid)])"
  using assms by (cases rule: cctrl_stop_effect) auto

definition owned :: "source_lifecycle \<Rightarrow> nat" where
  "owned l = unat (fs_outstanding (sl_source l))"

lemma srclc_connect_keeps:
  assumes "frsrc_inv (sl_source l)"
  shows "frsrc_inv (sl_source (snd (srclc_connect outcome l)))"
    and "owned (snd (srclc_connect outcome l)) = owned l"
  using connect_inv [OF assms, of "lc_media (sl_config l)" outcome]
  by (simp_all add: srclc_connect_def Let_def split_beta owned_def)

lemma srclc_acquire_keeps:
  assumes "srclc_acquire timeout_ms reply l = (st, l', call)"
  shows "sl_source l' = sl_source l"
    and "call_events call = [] \<or> (\<exists>r. call_events call = [Called (start_message r)])"
proof -
  obtain acquired control call1 where start:
    "cctrl_start (lc_acquire (sl_config l)) timeout_ms reply (sl_control l) = (acquired, control, call1)"
    by (metis prod_cases3)
  have "sl_source l' = sl_source l \<and> call = call1"
    using assms start by (auto simp: srclc_acquire_def Let_def split: if_splits)
  with start_call_events [OF start] show "sl_source l' = sl_source l"
    "call_events call = [] \<or> (\<exists>r. call_events call = [Called (start_message r)])" by blast+
qed

lemma srclc_start_keeps:
  assumes inv: "frsrc_inv (sl_source l)" and start: "srclc_start timeout_ms reply outcome l = (st, l', call)"
  shows "frsrc_inv (sl_source l')" and "owned l' = owned l"
    and "call_events call = [] \<or> (\<exists>r. call_events call = [Called (start_message r)])"
    and "srclc_ended l \<Longrightarrow> l' = l"
proof -
  let ?l1 = "if sl_state l = Cam_idle then l\<lparr>sl_state := Cam_starting\<rparr> else l"
  obtain go l2 call2 where acquire: "srclc_acquire timeout_ms reply ?l1 = (go, l2, call2)"
    by (metis prod_cases3)
  note acquired = srclc_acquire_keeps [OF acquire]
  have inv1: "frsrc_inv (sl_source ?l1)" "owned ?l1 = owned l" using inv by (simp_all add: owned_def)
  then have inv2: "frsrc_inv (sl_source l2)" "owned l2 = owned l" using acquired(1) by (simp_all add: owned_def)
  have all: "frsrc_inv (sl_source l') \<and> owned l' = owned l \<and>
      (call_events call = [] \<or> (\<exists>r. call_events call = [Called (start_message r)]))"
  proof (cases "timeout_ms < 1 \<or> timeout_ms > 60000 \<or> srclc_ended l \<or> sl_state l = Cam_running \<or>
      (sl_state l = Cam_idle \<and> srclc_config_rejected (sl_config l))")
    case True
    with start inv show ?thesis
      by (auto simp: srclc_start_def srclc_ended_def Let_def owned_def split: if_splits)
  next
    case False
    show ?thesis
    proof (cases "sl_state ?l1 = Cam_starting")
      case True
      show ?thesis
      proof (cases go)
        case None
        have "l' = snd (srclc_connect outcome l2) \<and> call = call2"
          using start False True acquire None
          by (auto simp: srclc_start_def Let_def split_beta srclc_ended_def)
        then show ?thesis using srclc_connect_keeps [OF inv2(1)] inv2(2) acquired(2) by simp
      next
        case (Some s)
        have "l' = l2 \<and> call = call2"
          using start False True acquire Some by (auto simp: srclc_start_def Let_def srclc_ended_def)
        then show ?thesis using inv2 acquired(2) by simp
      qed
    next
      case other: False
      have "l' = snd (srclc_connect outcome ?l1) \<and> call = None"
        using start False other by (auto simp: srclc_start_def Let_def split_beta srclc_ended_def)
      then show ?thesis using srclc_connect_keeps [OF inv1(1)] inv1(2) by simp
    qed
  qed
  then show "frsrc_inv (sl_source l')" "owned l' = owned l"
    "call_events call = [] \<or> (\<exists>r. call_events call = [Called (start_message r)])" by blast+
  show "srclc_ended l \<Longrightarrow> l' = l"
    using start by (auto simp: srclc_start_def srclc_ended_def split: if_splits)
qed

lemma srclc_receive_keeps:
  assumes inv: "frsrc_inv (sl_source l)"
    and receive: "srclc_receive big occupied timeout_ms env queued_at sends now l = (st, l', frame)"
  shows "frsrc_inv (sl_source l')"
    and "case frame of None \<Rightarrow> owned l' = owned l | Some i \<Rightarrow> owned l' = Suc (owned l) \<and> st = Ok"
    and "srclc_ended l \<Longrightarrow> l' = l \<and> frame = None"
proof -
  obtain received source frame0 dropped where result:
    "frsrc_receive big occupied timeout_ms env (sl_source l) = (received, source, frame0, dropped)"
    by (metis prod_cases4)
  have source_inv: "frsrc_inv source"
    using receive_inv [OF inv, of big occupied timeout_ms env] by (simp add: result)
  have all: "frsrc_inv (sl_source l') \<and>
      (case frame of None \<Rightarrow> owned l' = owned l | Some i \<Rightarrow> owned l' = Suc (owned l) \<and> st = Ok)"
    if running: "sl_state l = Cam_running"
    using result
  proof (cases rule: receive_result)
    case none
    then show ?thesis using receive result running source_inv
      by (auto simp: srclc_receive_def Let_def owned_def split: if_splits)
  next
    case (frame i)
    note released = release_outstanding(1) [OF source_inv, of i queued_at sends now]
      release_outstanding(2) [OF source_inv, of i]
    show ?thesis using receive result running source_inv frame released
        release_frame_inv [OF source_inv, of i queued_at sends now]
      by (auto simp: srclc_receive_def Let_def owned_def split: if_splits)
  qed
  have idle: "l' = l \<and> frame = None" if "sl_state l \<noteq> Cam_running"
    using receive that by (simp add: srclc_receive_def)
  show "frsrc_inv (sl_source l')"
    "case frame of None \<Rightarrow> owned l' = owned l | Some i \<Rightarrow> owned l' = Suc (owned l) \<and> st = Ok"
    using all idle inv by (cases "sl_state l = Cam_running"; auto)+
  show "srclc_ended l \<Longrightarrow> l' = l \<and> frame = None" using idle by (auto simp: srclc_ended_def)
qed

lemma srclc_stop_keeps:
  assumes inv: "frsrc_inv (sl_source l)" and stop: "srclc_stop timeout_ms reply sends now l = (st, l', call)"
  shows "frsrc_inv (sl_source l')" and "owned l' = owned l"
    and "call_events call = [] \<or> (\<exists>r. call_events call = [Called (start_message r)]) \<or>
      (\<exists>r h sid. call_events call = [Called (stop_message r h sid)] \<and> owned l = 0)"
    and "srclc_ended l' \<or> l' = l"
proof -
  let ?source = "frsrc_disconnect sends now (sl_source l)"
  obtain st1 control1 call1 where start:
    "cctrl_start (lc_acquire (sl_config l)) timeout_ms reply (sl_control l) = (st1, control1, call1)"
    by (metis prod_cases3)
  obtain st2 control2 call2 where release:
    "cctrl_stop (lc_stop_request_id (sl_config l)) timeout_ms reply (sl_control l) = (st2, control2, call2)"
    by (metis prod_cases3)
  have empty: "owned l = 0 \<longleftrightarrow> frsrc_get_outstanding (sl_source l) = 0"
    by (simp add: owned_def frsrc_get_outstanding_def unat_eq_0)
  have "(sl_source l' = sl_source l \<or> sl_source l' = ?source) \<and> (srclc_ended l' \<or> l' = l) \<and>
      (call = None \<or> call = call1 \<or> (call = call2 \<and> owned l = 0))"
    using stop start release empty
    by (auto simp: srclc_stop_def srclc_ended_def Let_def split: if_splits)
  then show "frsrc_inv (sl_source l')" "owned l' = owned l" "srclc_ended l' \<or> l' = l"
    "call_events call = [] \<or> (\<exists>r. call_events call = [Called (start_message r)]) \<or>
      (\<exists>r h sid. call_events call = [Called (stop_message r h sid)] \<and> owned l = 0)"
    using inv disconnect_inv [OF inv, of sends now] start_call_events [OF start] stop_call_events [OF release]
    by (auto simp: owned_def)
qed

lemma srclc_run_drained:
  "frsrc_inv (sl_source l) \<Longrightarrow> (stopping \<Longrightarrow> srclc_ended l) \<Longrightarrow>
     drained_before_stop (owned l) stopping (fst (srclc_run big ops l))"
proof (induction ops arbitrary: l stopping)
  case (Cons op ops)
  note inv = Cons.prems(1) and ended = Cons.prems(2)
  obtain es l1 where step: "srclc_step big op l = (es, l1)" by fastforce
  have run: "fst (srclc_run big (op # ops) l) = es @ fst (srclc_run big ops l1)"
    by (simp add: step split_beta)
  show ?case
  proof (cases op)
    case (Start timeout_ms reply outcome)
    obtain st l' call where start: "srclc_start timeout_ms reply outcome l = (st, l', call)"
      by (metis prod_cases3)
    note keeps = srclc_start_keeps [OF inv start]
    have l1: "l1 = l'" "es = call_events call" using step by (simp_all add: Start start)
    show ?thesis using Cons.IH [of l1 stopping] keeps ended unfolding run l1 by auto
  next
    case (Take occupied timeout_ms env queued_at sends now)
    obtain st l' frame where receive:
      "srclc_receive big occupied timeout_ms env queued_at sends now l = (st, l', frame)"
      by (metis prod_cases3)
    note keeps = srclc_receive_keeps [OF inv receive]
    have l1: "l1 = l'" "es = (case frame of None \<Rightarrow> [] | Some i \<Rightarrow> [Delivered i])"
      using step by (auto simp: Take receive split: option.splits)
    show ?thesis using Cons.IH [of l1 stopping] keeps ended unfolding run l1
      by (cases frame) auto
  next
    case (Stop timeout_ms reply sends now)
    obtain st l' call where stop: "srclc_stop timeout_ms reply sends now l = (st, l', call)"
      by (metis prod_cases3)
    note keeps = srclc_stop_keeps [OF inv stop]
    have l1: "l1 = l'" "es = call_events call" using step by (simp_all add: Stop stop)
    have quiet: "drained_before_stop (owned l) stopping (fst (srclc_run big ops l'))"
      using Cons.IH [of l' stopping] keeps ended by auto
    have stopped: "drained_before_stop (owned l) True (fst (srclc_run big ops l'))"
      if "call \<noteq> None" "owned l = 0"
    proof -
      have "srclc_ended l'" using stop \<open>call \<noteq> None\<close>
        by (auto simp: srclc_stop_def srclc_ended_def Let_def split: if_splits prod.splits)
      then show ?thesis using Cons.IH [of l' True] keeps by auto
    qed
    from keeps(3) show ?thesis using quiet stopped unfolding run l1 by (cases call) auto
  next
    case (Free_frame i queued_at sends now)
    note released = release_outstanding(1) [OF inv, of i queued_at sends now]
      release_outstanding(2) [OF inv, of i]
    have l1: "l1 = l\<lparr>sl_source := fst (frsrc_release_frame i queued_at sends now (sl_source l))\<rparr>"
      and es: "es = (if i < length (fs_frames (sl_source l)) \<and> rv_live (fs_frames (sl_source l) ! i)
        then [Freed i] else [])"
      using step by (auto simp: Free_frame)
    have "frsrc_inv (sl_source l1)" unfolding l1 using release_frame_inv [OF inv] by simp
    moreover have "srclc_ended l1 = srclc_ended l" by (simp add: l1 srclc_ended_def)
    ultimately show ?thesis using Cons.IH [of l1 stopping] released ended unfolding run es
      by (auto simp: owned_def l1)
  qed
qed simp

text \<open>
  C25. Whatever is called and whatever the camera service and the sockets answer, the stream is
  given back only when nobody reads from it: each \<open>StopStream\<close> is sent at a moment when every
  frame ever delivered has been released by its owner, and no frame is delivered after the first
  \<open>StopStream\<close>. The producer may unpin its buffers on \<open>StopStream\<close>.
\<close>

theorem srclc_stream_returned_after_drain:
  "drained_before_stop 0 False (fst (srclc_run big ops (srclc_create rpc config)))"
proof -
  have "drained_before_stop (owned (srclc_create rpc config)) False
      (fst (srclc_run big ops (srclc_create rpc config)))"
    by (rule srclc_run_drained) (simp_all add: srclc_create_def)
  then show ?thesis by (simp add: owned_def srclc_create_def frsrc_initial_def)
qed

section \<open>Ending a cycle\<close>

definition cycle_inv :: "source_lifecycle \<Rightarrow> bool" where
  "cycle_inv l \<longleftrightarrow>
     frsrc_inv (sl_source l) \<and> cct_rpc (sl_control l) \<and>
     (cct_state (sl_control l) \<noteq> Lease_idle \<longrightarrow>
        cct_request (sl_control l) = lc_acquire (sl_config l) \<and> \<not> srclc_config_rejected (sl_config l)) \<and>
     (cct_state (sl_control l) = Lease_stop_pending \<longrightarrow>
        cct_stop_request_id (sl_control l) = lc_stop_request_id (sl_config l)) \<and>
     (sl_state l \<notin> {Cam_idle, Cam_stopped} \<longrightarrow> \<not> srclc_config_rejected (sl_config l))"

lemma start_cycle:
  assumes "cctrl_start (lc_acquire cfg) timeout_ms reply c = (st, c', call)" and "\<not> srclc_config_rejected cfg"
    and "cct_rpc c" and "cct_state c \<noteq> Lease_idle \<Longrightarrow> cct_request c = lc_acquire cfg"
  shows "cct_rpc c'" "cct_state c' \<noteq> Lease_idle \<Longrightarrow> cct_request c' = lc_acquire cfg"
    "cct_state c' = Lease_stop_pending \<Longrightarrow> cct_state c = Lease_stop_pending \<and>
      cct_stop_request_id c' = cct_stop_request_id c"
  using assms(1)
  by (cases rule: cctrl_start_effect; use assms(3,4) in \<open>auto split: option.splits\<close>)+

lemma stop_cycle:
  assumes "cctrl_stop (lc_stop_request_id cfg) timeout_ms reply c = (st, c', call)" and "cct_rpc c"
  shows "cct_rpc c'" "cct_state c' \<noteq> Lease_idle \<Longrightarrow> cct_state c \<noteq> Lease_idle \<and> cct_request c' = cct_request c"
    "cct_state c' = Lease_stop_pending \<Longrightarrow>
      cct_stop_request_id c' = lc_stop_request_id cfg \<or> c' = c"
  using assms(1)
  by (cases rule: cctrl_stop_effect; use assms(2) in \<open>auto simp: cctrl_initial_def split: if_splits\<close>)+

lemma cycle_inv_create: "cycle_inv (srclc_create True config)"
  by (simp add: cycle_inv_def srclc_create_def cctrl_initial_def)

lemma srclc_connect_fields [simp]:
  "sl_control (snd (srclc_connect outcome l)) = sl_control l"
  "sl_config (snd (srclc_connect outcome l)) = sl_config l"
  by (simp_all add: srclc_connect_def Let_def split_beta)

lemma connect_cycle:
  assumes "cycle_inv l" and "\<not> srclc_config_rejected (sl_config l)"
  shows "cycle_inv (snd (srclc_connect outcome l))"
  using assms srclc_connect_keeps(1) [of l outcome] by (simp add: cycle_inv_def)

lemma acquire_cycle:
  assumes inv: "cycle_inv l" and ok: "\<not> srclc_config_rejected (sl_config l)"
    and acquire: "srclc_acquire timeout_ms reply l = (go, l', call)"
  shows "cycle_inv l'" and "sl_config l' = sl_config l"
proof -
  obtain acquired control call1 where start:
    "cctrl_start (lc_acquire (sl_config l)) timeout_ms reply (sl_control l) = (acquired, control, call1)"
    by (metis prod_cases3)
  have "cct_rpc (sl_control l)" and request: "cct_state (sl_control l) \<noteq> Lease_idle \<Longrightarrow>
      cct_request (sl_control l) = lc_acquire (sl_config l)"
    using inv by (simp_all add: cycle_inv_def)
  note control = start_cycle [OF start ok this]
  have "sl_control l' = control" "sl_config l' = sl_config l" "sl_source l' = sl_source l"
    using acquire start by (auto simp: srclc_acquire_def Let_def split: if_splits)
  then show "cycle_inv l'" "sl_config l' = sl_config l"
    using inv ok control by (auto simp: cycle_inv_def)
qed

lemma srclc_start_cycle:
  assumes inv: "cycle_inv l" and start: "srclc_start timeout_ms reply outcome l = (st, l', call)"
  shows "cycle_inv l'"
proof (cases "timeout_ms < 1 \<or> timeout_ms > 60000 \<or> srclc_ended l \<or> sl_state l = Cam_running \<or>
    (sl_state l = Cam_idle \<and> srclc_config_rejected (sl_config l))")
  case True
  with start inv show ?thesis
    by (auto simp: srclc_start_def srclc_ended_def Let_def cycle_inv_def split: if_splits)
next
  case False
  let ?l1 = "if sl_state l = Cam_idle then l\<lparr>sl_state := Cam_starting\<rparr> else l"
  have ok: "\<not> srclc_config_rejected (sl_config l)"
    using False inv by (auto simp: cycle_inv_def srclc_ended_def)
  then have ok1: "\<not> srclc_config_rejected (sl_config ?l1)" and inv1: "cycle_inv ?l1"
    using inv by (auto simp: cycle_inv_def)
  show ?thesis
  proof (cases "sl_state ?l1 = Cam_starting")
    case True
    obtain go l2 call2 where acquire: "srclc_acquire timeout_ms reply ?l1 = (go, l2, call2)"
      by (metis prod_cases3)
    note l2 = acquire_cycle [OF inv1 ok1 acquire]
    have "l' = l2 \<or> l' = snd (srclc_connect outcome l2)"
      using start False True acquire
      by (cases go) (auto simp: srclc_start_def Let_def split_beta srclc_ended_def)
    then show ?thesis using l2 ok1 connect_cycle [of l2 outcome] by auto
  next
    case other: False
    have "l' = snd (srclc_connect outcome ?l1)"
      using start False other by (auto simp: srclc_start_def Let_def split_beta srclc_ended_def)
    then show ?thesis using connect_cycle [OF inv1 ok1] by simp
  qed
qed

lemma srclc_receive_cycle:
  assumes inv: "cycle_inv l"
    and receive: "srclc_receive big occupied timeout_ms env queued_at sends now l = (st, l', frame)"
  shows "cycle_inv l'"
proof -
  have "frsrc_inv (sl_source l')"
    using srclc_receive_keeps(1) [OF _ receive] inv by (simp add: cycle_inv_def)
  moreover have "sl_control l' = sl_control l" "sl_config l' = sl_config l"
    "sl_state l' \<notin> {Cam_idle, Cam_stopped} \<Longrightarrow> sl_state l \<notin> {Cam_idle, Cam_stopped}"
    using receive by (auto simp: srclc_receive_def Let_def split: if_splits prod.splits option.splits)
  ultimately show ?thesis using inv by (auto simp: cycle_inv_def)
qed

lemma srclc_stop_cycle:
  assumes inv: "cycle_inv l" and stop: "srclc_stop timeout_ms reply sends now l = (st, l', call)"
  shows "cycle_inv l'" and "sl_config l' = sl_config l"
proof -
  obtain st1 control1 call1 where start:
    "cctrl_start (lc_acquire (sl_config l)) timeout_ms reply (sl_control l) = (st1, control1, call1)"
    by (metis prod_cases3)
  obtain st2 control2 call2 where release:
    "cctrl_stop (lc_stop_request_id (sl_config l)) timeout_ms reply (sl_control l) = (st2, control2, call2)"
    by (metis prod_cases3)
  have frames: "frsrc_inv (sl_source l')"
    using srclc_stop_keeps(1) [OF _ stop] inv by (simp add: cycle_inv_def)
  have rpc: "cct_rpc (sl_control l)" and request: "cct_state (sl_control l) \<noteq> Lease_idle \<Longrightarrow>
      cct_request (sl_control l) = lc_acquire (sl_config l)"
    using inv by (simp_all add: cycle_inv_def)
  have control: "sl_config l' = sl_config l \<and> (sl_control l' = sl_control l \<and>
        (sl_state l' = Cam_stopped \<or> sl_state l' = sl_state l \<or> sl_state l \<notin> {Cam_idle, Cam_stopped}) \<or>
      (sl_state l \<notin> {Cam_idle, Cam_stopped} \<and> (sl_control l' = control1 \<or> sl_control l' = control2)))"
    using stop start release by (auto simp: srclc_stop_def Let_def split: if_splits)
  then show config: "sl_config l' = sl_config l" by blast
  show "cycle_inv l'"
  proof (cases "sl_control l' = sl_control l")
    case True
    have "sl_state l' \<notin> {Cam_idle, Cam_stopped} \<Longrightarrow> sl_state l \<notin> {Cam_idle, Cam_stopped}"
      using control by auto
    then show ?thesis using inv frames config True by (auto simp: cycle_inv_def)
  next
    case False
    then have ok: "\<not> srclc_config_rejected (sl_config l)"
      and which: "sl_control l' = control1 \<or> sl_control l' = control2"
      using control inv by (auto simp: cycle_inv_def)
    note start' = start_cycle [OF start ok rpc request] and stop' = stop_cycle [OF release rpc]
    show ?thesis using which
    proof
      assume "sl_control l' = control1"
      with start' show ?thesis using inv frames config ok by (auto simp: cycle_inv_def)
    next
      assume "sl_control l' = control2"
      with stop' show ?thesis using inv frames config ok by (auto simp: cycle_inv_def)
    qed
  qed
qed

lemma srclc_step_cycle:
  assumes inv: "cycle_inv l" and step: "srclc_step big op l = (es, l')"
  shows "cycle_inv l'"
proof (cases op)
  case (Start timeout_ms reply outcome)
  with step show ?thesis using srclc_start_cycle [OF inv] by (auto split: prod.splits)
next
  case (Take occupied timeout_ms env queued_at sends now)
  with step show ?thesis using srclc_receive_cycle [OF inv] by (auto split: prod.splits option.splits)
next
  case (Stop timeout_ms reply sends now)
  with step show ?thesis using srclc_stop_cycle(1) [OF inv] by (auto split: prod.splits)
next
  case (Free_frame i queued_at sends now)
  with step show ?thesis using inv release_frame_inv [of "sl_source l" i queued_at sends now]
    by (auto simp: cycle_inv_def)
qed

lemma srclc_run_cycle: "cycle_inv l \<Longrightarrow> cycle_inv (snd (srclc_run big ops l))"
proof (induction ops arbitrary: l)
  case (Cons op ops)
  obtain es l1 where step: "srclc_step big op l = (es, l1)" by fastforce
  show ?case using Cons.IH [OF srclc_step_cycle [OF Cons.prems step]] by (simp add: step split_beta)
qed simp

lemma srclc_run_append:
  "snd (srclc_run big (ops @ later) l) = snd (srclc_run big later (snd (srclc_run big ops l)))"
  by (induction ops arbitrary: l) (simp_all add: split_beta)

lemma grants_releases: "grants reply \<noteq> None \<Longrightarrow> releases reply"
  by (auto simp: grants_def releases_def split_beta split: if_splits)

lemma start_granted:
  assumes "cct_state c = Lease_start_pending" and "cct_request c = request" and "cct_rpc c"
    and "1 \<le> timeout_ms" "timeout_ms \<le> 60000" and "cctrl_is_identifier (aq_consumer_id request)"
    and "cctrl_is_identifier (aq_request_id request)" and "grants reply \<noteq> None"
    and "cctrl_start request timeout_ms reply c = (st, c', call)"
  shows "cct_state c' = Lease_acquired"
  using assms(9)
proof (cases rule: cctrl_start_effect)
  case quiet
  then show ?thesis using assms by (auto simp: cctrl_start_def Let_def cp_max_call_timeout_ms_def
      split: if_splits option.splits)
next
  case (sent m r)
  then show ?thesis using assms(8) by (auto split: option.splits)
qed

lemma stop_released:
  assumes "cct_state c = Lease_acquired \<or> cct_state c = Lease_stop_pending \<and> request_id = cct_stop_request_id c"
    and "cct_rpc c" and "1 \<le> timeout_ms" "timeout_ms \<le> 60000" and "cctrl_is_identifier request_id"
    and "request_id \<noteq> aq_request_id (cct_request c)" and "releases reply"
    and "cctrl_stop request_id timeout_ms reply c = (st, c', call)"
  shows "st = Ok"
  using assms(8)
proof (cases rule: cctrl_stop_effect)
  case quiet
  then show ?thesis using assms by (auto simp: cctrl_stop_def Let_def cp_max_call_timeout_ms_def
      split: if_splits prod.splits)
next
  case (sent m)
  then show ?thesis using assms(7) by simp
qed

text \<open>A stop step of a drained cycle whose service answers well.\<close>

lemma srclc_stop_progress:
  assumes inv: "cycle_inv l" and drained: "owned l = 0" and time: "1 \<le> timeout_ms" "timeout_ms \<le> 60000"
    and good: "releases reply" and stop: "srclc_stop timeout_ms reply sends now l = (st, l', call)"
  shows "sl_state l' = Cam_stopped \<or>
    (cct_state (sl_control l) = Lease_start_pending \<and>
      (grants reply \<noteq> None \<longrightarrow> cct_state (sl_control l') = Lease_acquired \<and> sl_state l' = Cam_draining))"
proof (cases "sl_state l \<in> {Cam_stopped, Cam_idle}")
  case True
  then show ?thesis using stop time by (auto simp: srclc_stop_def split: if_splits)
next
  case False
  then have ok: "\<not> srclc_config_rejected (sl_config l)" using inv by (auto simp: cycle_inv_def)
  then have ids: "cctrl_is_identifier (lc_stop_request_id (sl_config l))"
    "cctrl_is_identifier (aq_request_id (lc_acquire (sl_config l)))"
    "cctrl_is_identifier (aq_consumer_id (lc_acquire (sl_config l)))"
    "lc_stop_request_id (sl_config l) \<noteq> aq_request_id (lc_acquire (sl_config l))"
    by (simp_all add: srclc_config_rejected_def srclc_is_identifier_def cctrl_is_identifier_def)
  have rpc: "cct_rpc (sl_control l)" and request: "cct_state (sl_control l) \<noteq> Lease_idle \<Longrightarrow>
      cct_request (sl_control l) = lc_acquire (sl_config l)"
    and same_stop: "cct_state (sl_control l) = Lease_stop_pending \<Longrightarrow>
      cct_stop_request_id (sl_control l) = lc_stop_request_id (sl_config l)"
    using inv by (simp_all add: cycle_inv_def)
  have none: "frsrc_get_outstanding (sl_source l) = 0"
    using drained by (simp add: owned_def frsrc_get_outstanding_def unat_eq_0)
  obtain st1 control1 call1 where start:
    "cctrl_start (lc_acquire (sl_config l)) timeout_ms reply (sl_control l) = (st1, control1, call1)"
    by (metis prod_cases3)
  obtain st2 control2 call2 where release:
    "cctrl_stop (lc_stop_request_id (sl_config l)) timeout_ms reply (sl_control l) = (st2, control2, call2)"
    by (metis prod_cases3)
  show ?thesis
  proof (cases "cct_state (sl_control l) = Lease_start_pending")
    case True
    have "grants reply \<noteq> None \<Longrightarrow> cct_state control1 = Lease_acquired"
      using start_granted [OF True _ rpc time ids(3,2) _ start] request True by simp
    then show ?thesis using stop False none True start time
      by (auto simp: srclc_stop_def Let_def split: if_splits)
  next
    case other: False
    have "st2 = Ok"
    proof (cases "cct_state (sl_control l) = Lease_idle")
      case True
      then show ?thesis using release rpc time ids(1)
        by (auto simp: cctrl_stop_def cp_max_call_timeout_ms_def)
    next
      case False
      have "cct_state (sl_control l) = Lease_acquired \<or> cct_state (sl_control l) = Lease_stop_pending \<and>
          lc_stop_request_id (sl_config l) = cct_stop_request_id (sl_control l)"
        using other False same_stop by (cases "cct_state (sl_control l)") auto
      from stop_released [OF this rpc time ids(1) _ good release] request [OF False] ids(4)
      show ?thesis by simp
    qed
    then show ?thesis using stop False none other release time
      by (auto simp: srclc_stop_def Let_def split: if_splits)
  qed
qed

text \<open>
  C26. A cycle can always be ended: from any state it can have reached, once every frame is
  released, two stop steps whose calls the camera service answers well end the cycle (the first
  may only recover the handle of a start whose outcome was never learnt).
\<close>

theorem srclc_two_stops_end_cycle:
  assumes "owned (snd (srclc_run big ops (srclc_create True config))) = 0"
    and "1 \<le> timeout_ms" and "timeout_ms \<le> 60000"
    and "grants reply1 \<noteq> None" and "releases reply2"
  shows "sl_state (snd (srclc_run big (ops @ [Stop timeout_ms reply1 sends1 now1,
    Stop timeout_ms reply2 sends2 now2]) (srclc_create True config))) = Cam_stopped"
proof -
  define l where "l = snd (srclc_run big ops (srclc_create True config))"
  have inv: "cycle_inv l" unfolding l_def by (rule srclc_run_cycle [OF cycle_inv_create])
  obtain st1 l1 call1 where one: "srclc_stop timeout_ms reply1 sends1 now1 l = (st1, l1, call1)"
    by (metis prod_cases3)
  obtain st2 l2 call2 where two: "srclc_stop timeout_ms reply2 sends2 now2 l1 = (st2, l2, call2)"
    by (metis prod_cases3)
  have drained: "owned l = 0" using assms(1) by (simp add: l_def)
  have inv1: "cycle_inv l1" by (rule srclc_stop_cycle(1) [OF inv one])
  have "owned l1 = 0" using srclc_stop_keeps(2) [OF _ one] inv drained by (simp add: cycle_inv_def)
  note second = srclc_stop_progress [OF inv1 this assms(2,3,5) two]
  have "sl_state l1 = Cam_stopped \<or> cct_state (sl_control l1) = Lease_acquired"
    using srclc_stop_progress [OF inv drained assms(2,3) grants_releases [OF assms(4)] one] assms(4)
    by blast
  then have "sl_state l2 = Cam_stopped"
    using second two assms(2,3) by (auto simp: srclc_stop_def split: if_splits)
  then show ?thesis by (simp add: srclc_run_append l_def [symmetric] one two)
qed

definition demo_lifecycle :: camera_lifecycle_config where
  "demo_lifecycle = \<lparr>lc_acquire = \<lparr>aq_camera_id = 0, aq_channel_id = 1, aq_consumer_id = ''ai'',
       aq_request_id = ''start-1''\<rparr>,
     lc_media = \<lparr>sr_socket_path = ''/run/cam'', sr_producer_uid = 7, sr_limits = demo_legacy_limits\<rparr>,
     lc_stop_request_id = ''stop-1'', lc_max_fps = 240\<rparr>"

definition demo_grant :: rpc_reply where
  "demo_grant = (Ok, [(''code'', ''0''), (''stream_handle'', ''h1''), (''width'', ''4''),
     (''height'', ''2''), (''fps'', ''30''), (''codec'', ''RAW'')])"

lemma demo_zero: "u32_from_chars ''0'' = Some 0"
  by code_simp

lemmas demo_reply_simps = cctrl_read_result_def cctrl_read_number_def cctrl_code_status_def
  cctrl_handle_ok_def cp_max_fields_def cp_max_key_bytes_def cp_max_value_bytes_def
  cp_max_field_bytes_def cp_max_handle_bytes_def cp_code_field_def cp_code_ok_def
  cp_stream_handle_field_def demo_zero

text \<open>The answer to the start is lost; the first stop step recovers the handle, the second gives it back.\<close>

theorem srclc_two_stops_end_cycle_witness:
  "sl_state (snd (srclc_run False ([Start 1000 (Timeout, []) Connect_refused] @
     [Stop 1000 demo_grant (\<lambda>_. Send_all) 0, Stop 1000 (Ok, [(''code'', ''0'')]) (\<lambda>_. Send_all) 0])
     (srclc_create True demo_lifecycle))) = Cam_stopped"
proof (rule srclc_two_stops_end_cycle)
  show "owned (snd (srclc_run False [Start 1000 (Timeout, []) Connect_refused]
      (srclc_create True demo_lifecycle))) = 0"
  proof -
    obtain st l call where start:
      "srclc_start 1000 (Timeout, []) Connect_refused (srclc_create True demo_lifecycle) = (st, l, call)"
      by (metis prod_cases3)
    have "owned l = owned (srclc_create True demo_lifecycle)"
      by (rule srclc_start_keeps(2) [OF _ start]) (simp add: srclc_create_def)
    moreover have "owned (srclc_create True demo_lifecycle) = 0"
      by (simp add: owned_def srclc_create_def frsrc_initial_def)
    ultimately show ?thesis by (simp add: start)
  qed
  show "grants demo_grant \<noteq> None"
    by (simp add: grants_def demo_grant_def demo_reply_simps)
  show "releases (Ok, [(''code'', ''0'')])"
    by (simp add: releases_def demo_reply_simps)
qed simp_all

end
