(* ===== verification/Feature_Event.thy ===== *)
theory Feature_Event
  imports Observation Early_Return
begin

text \<open>
  The events of a feature processor: contracts/vqec_vision_feature_event.hpp with
  core/vqec_vision_feature_event.cpp (prefix \<open>ftevt\<close>). The lemmas state what an accepted batch is.
\<close>

section \<open>Data\<close>

definition fev_max_events_per_batch :: nat where "fev_max_events_per_batch = 64"
definition fev_max_track_references_per_event :: nat where "fev_max_track_references_per_event = 32"
definition fev_max_fields_per_event :: nat where "fev_max_fields_per_event = 32"
definition fev_max_model_versions_per_event :: nat where "fev_max_model_versions_per_event = 16"
definition fev_max_identifier_bytes :: nat where "fev_max_identifier_bytes = 128"
definition fev_max_field_value_bytes :: nat where "fev_max_field_value_bytes = 512"

datatype feature_event_kind =
    Episode_opened | Episode_updated | Episode_closed | Snapshot | Unlisted_event_kind nat

record feature_event_field =
  ef_schema_id :: string
  ef_schema_version :: string
  ef_value :: string
  ef_confidence :: fp
  ef_quality :: observation_quality

record feature_event =
  ev_frame :: preview_frame_key
  ev_source_id :: string
  ev_feature_id :: string
  ev_event_id :: string
  ev_event_schema_id :: string
  ev_event_schema_version :: string
  ev_kind :: feature_event_kind
  ev_occurred_at_ns :: u64
  ev_config_revision :: u64
  ev_model_version_ids :: "string list"
  ev_track_ids :: "u64 list"
  ev_fields :: "feature_event_field list"
  ev_evidence_request_id :: string

record feature_event_batch =
  eb_frame :: preview_frame_key
  eb_geometry :: preview_geometry
  eb_events :: "feature_event list"

record feature_processor_config =
  fpc_source_id :: string
  fpc_feature_id :: string
  fpc_config_revision :: u64
  fpc_max_events_per_update :: nat
  fpc_max_track_references_per_event :: nat
  fpc_max_fields_per_event :: nat

definition blank_event_batch :: feature_event_batch where
  "blank_event_batch = \<lparr>eb_frame = blank_frame_key, eb_geometry = \<lparr>geo_width = 0, geo_height = 0\<rparr>,
     eb_events = []\<rparr>"

section \<open>Validators\<close>

definition ftevt_is_identifier :: "string \<Rightarrow> bool" where
  "ftevt_is_identifier v = ident_is_valid v fev_max_identifier_bytes"

fun ftevt_is_kind_valid :: "feature_event_kind \<Rightarrow> bool" where
  "ftevt_is_kind_valid (Unlisted_event_kind _) = False"
| "ftevt_is_kind_valid _ = True"

fun ftevt_is_quality_valid :: "observation_quality \<Rightarrow> bool" where
  "ftevt_is_quality_valid (Unlisted_quality _) = False"
| "ftevt_is_quality_valid _ = True"

definition ftevt_check_model_version :: "string list \<Rightarrow> string \<Rightarrow> status" where
  "ftevt_check_model_version seen v =
     (if \<not> ftevt_is_identifier v then Invalid_argument
      else if \<exists>p \<in> set seen. p = v then Invalid_argument else Ok)"

definition ftevt_check_track :: "u64 list \<Rightarrow> u64 \<Rightarrow> status" where
  "ftevt_check_track seen t =
     (if t = 0 then Invalid_argument
      else if \<exists>p \<in> set seen. p = t then Invalid_argument else Ok)"

definition ftevt_check_field :: "feature_event_field list \<Rightarrow> feature_event_field \<Rightarrow> status" where
  "ftevt_check_field seen field =
     (if \<not> ftevt_is_identifier (ef_schema_id field) \<or> \<not> ftevt_is_identifier (ef_schema_version field) \<or>
         length (ef_value field) > fev_max_field_value_bytes \<or>
         confidence_rejected (ef_confidence field) \<or> \<not> ftevt_is_quality_valid (ef_quality field)
       then Invalid_argument
      else if \<exists>p \<in> set seen. ef_schema_id p = ef_schema_id field then Invalid_argument else Ok)"

definition ftevt_event_rejected :: "feature_processor_config \<Rightarrow> feature_event \<Rightarrow> bool" where
  "ftevt_event_rejected config e \<longleftrightarrow>
     ev_source_id e \<noteq> fpc_source_id config \<or> ev_feature_id e \<noteq> fpc_feature_id config \<or>
     ev_config_revision e \<noteq> fpc_config_revision config \<or> \<not> ftevt_is_identifier (ev_event_id e) \<or>
     \<not> ftevt_is_identifier (ev_event_schema_id e) \<or> \<not> ftevt_is_identifier (ev_event_schema_version e) \<or>
     \<not> ftevt_is_kind_valid (ev_kind e) \<or> ev_occurred_at_ns e = UINT64_MAX \<or>
     ev_occurred_at_ns e > fk_source_pts_ns (ev_frame e) \<or>
     length (ev_model_version_ids e) > fev_max_model_versions_per_event \<or>
     length (ev_track_ids e) > fpc_max_track_references_per_event config \<or>
     length (ev_fields e) > fpc_max_fields_per_event config \<or>
     (ev_evidence_request_id e \<noteq> [] \<and> \<not> ftevt_is_identifier (ev_evidence_request_id e))"

definition ftevt_validate_event ::
    "feature_event \<Rightarrow> feature_event_batch \<Rightarrow> feature_processor_config \<Rightarrow> status" where
  "ftevt_validate_event e batch config =
     and_then (pvctr_validate_identity (ev_frame e) (eb_frame batch) (eb_geometry batch) (eb_geometry batch))
       (if ftevt_event_rejected config e then Invalid_argument
        else
          and_then (validate_items ftevt_check_model_version [] (ev_model_version_ids e))
            (and_then (validate_items ftevt_check_track [] (ev_track_ids e))
              (validate_items ftevt_check_field [] (ev_fields e))))"

definition ftevt_validate_processor_config :: "feature_processor_config \<Rightarrow> status" where
  "ftevt_validate_processor_config c =
     (if \<not> ftevt_is_identifier (fpc_source_id c) \<or> \<not> ftevt_is_identifier (fpc_feature_id c) \<or>
         fpc_config_revision c = 0 \<or> fpc_config_revision c = UINT64_MAX \<or>
         fpc_max_events_per_update c = 0 \<or> fpc_max_events_per_update c > fev_max_events_per_batch \<or>
         fpc_max_track_references_per_event c = 0 \<or>
         fpc_max_track_references_per_event c > fev_max_track_references_per_event \<or>
         fpc_max_fields_per_event c = 0 \<or> fpc_max_fields_per_event c > fev_max_fields_per_event
       then Invalid_argument else Ok)"

definition ftevt_check_event ::
    "feature_event_batch \<Rightarrow> feature_processor_config \<Rightarrow> feature_event list \<Rightarrow> feature_event \<Rightarrow> status" where
  "ftevt_check_event batch config seen e =
     and_then (ftevt_validate_event e batch config)
       (if \<exists>p \<in> set seen. ev_event_id p = ev_event_id e then Invalid_argument else Ok)"

definition ftevt_validate_batch ::
    "feature_event_batch \<Rightarrow> preview_frame_key \<Rightarrow> preview_geometry \<Rightarrow> feature_processor_config \<Rightarrow> status" where
  "ftevt_validate_batch batch expected_frame expected_geometry config =
     and_then (ftevt_validate_processor_config config)
       (and_then (pvctr_validate_identity (eb_frame batch) expected_frame (eb_geometry batch) expected_geometry)
         (if length (eb_events batch) > fpc_max_events_per_update config then Resource_exhausted
          else validate_items (ftevt_check_event batch config) [] (eb_events batch)))"

section \<open>What an accepted batch is\<close>

definition field_ok :: "feature_event_field \<Rightarrow> bool" where
  "field_ok f \<longleftrightarrow> ftevt_is_identifier (ef_schema_id f) \<and> ftevt_is_identifier (ef_schema_version f) \<and>
     length (ef_value f) \<le> 512 \<and> confidence_ok (ef_confidence f) \<and> ftevt_is_quality_valid (ef_quality f)"

definition event_ok :: "feature_event_batch \<Rightarrow> feature_processor_config \<Rightarrow> feature_event \<Rightarrow> bool" where
  "event_ok batch config e \<longleftrightarrow>
     ev_frame e = eb_frame batch \<and>
     ev_source_id e = fpc_source_id config \<and> ev_feature_id e = fpc_feature_id config \<and>
     ev_config_revision e = fpc_config_revision config \<and> ftevt_is_kind_valid (ev_kind e) \<and>
     ftevt_is_identifier (ev_event_id e) \<and> ftevt_is_identifier (ev_event_schema_id e) \<and>
     ftevt_is_identifier (ev_event_schema_version e) \<and>
     (ev_evidence_request_id e = [] \<or> ftevt_is_identifier (ev_evidence_request_id e)) \<and>
     ev_occurred_at_ns e \<le> fk_source_pts_ns (eb_frame batch) \<and>
     list_all ftevt_is_identifier (ev_model_version_ids e) \<and> distinct (ev_model_version_ids e) \<and>
     length (ev_model_version_ids e) \<le> 16 \<and>
     0 \<notin> set (ev_track_ids e) \<and> distinct (ev_track_ids e) \<and>
     length (ev_track_ids e) \<le> fpc_max_track_references_per_event config \<and>
     list_all field_ok (ev_fields e) \<and> distinct (map ef_schema_id (ev_fields e)) \<and>
     length (ev_fields e) \<le> fpc_max_fields_per_event config"

definition batch_ok ::
    "feature_event_batch \<Rightarrow> preview_frame_key \<Rightarrow> preview_geometry \<Rightarrow> feature_processor_config \<Rightarrow> bool" where
  "batch_ok batch frame geometry config \<longleftrightarrow>
     ftevt_validate_processor_config config = Ok \<and>
     eb_frame batch = frame \<and> eb_geometry batch = geometry \<and> geometry_supported geometry \<and>
     fk_source_epoch frame \<noteq> 0 \<and> fk_source_pts_ns frame \<noteq> UINT64_MAX \<and>
     length (eb_events batch) \<le> fpc_max_events_per_update config \<and>
     list_all (event_ok batch config) (eb_events batch) \<and>
     distinct (map ev_event_id (eb_events batch))"

lemma check_model_versions_Ok:
  "validate_items ftevt_check_model_version [] vs = Ok \<longleftrightarrow> list_all ftevt_is_identifier vs \<and> distinct vs"
proof -
  have "ftevt_check_model_version prev v = Ok \<longleftrightarrow> ftevt_is_identifier v \<and> (\<forall>p \<in> set prev. id p \<noteq> id v)"
    for prev v by (auto simp: ftevt_check_model_version_def)
  from validate_distinct_Ok [OF this] show ?thesis by (simp add: list_all_iff)
qed

lemma check_tracks_Ok:
  "validate_items ftevt_check_track [] ts = Ok \<longleftrightarrow> 0 \<notin> set ts \<and> distinct ts"
proof -
  have "ftevt_check_track prev t = Ok \<longleftrightarrow> t \<noteq> 0 \<and> (\<forall>p \<in> set prev. id p \<noteq> id t)"
    for prev t by (auto simp: ftevt_check_track_def)
  from validate_distinct_Ok [OF this] show ?thesis by auto
qed

lemma check_fields_Ok:
  "validate_items ftevt_check_field [] fs = Ok \<longleftrightarrow> list_all field_ok fs \<and> distinct (map ef_schema_id fs)"
proof -
  have "ftevt_check_field prev f = Ok \<longleftrightarrow> field_ok f \<and> (\<forall>p \<in> set prev. ef_schema_id p \<noteq> ef_schema_id f)"
    for prev f by (auto simp: ftevt_check_field_def field_ok_def confidence_rejected_iff
        fev_max_field_value_bytes_def not_less)
  from validate_distinct_Ok [OF this] show ?thesis by (simp add: list_all_iff)
qed

lemma validate_event_Ok:
  assumes "fk_source_epoch (eb_frame batch) \<noteq> 0" "fk_source_pts_ns (eb_frame batch) \<noteq> UINT64_MAX"
    and "geometry_supported (eb_geometry batch)"
  shows "ftevt_validate_event e batch config = Ok \<longleftrightarrow> event_ok batch config e"
proof (cases "ev_frame e = eb_frame batch")
  case True
  then have "pvctr_validate_identity (ev_frame e) (eb_frame batch) (eb_geometry batch)
      (eb_geometry batch) = Ok" using assms by (simp add: identity_Ok)
  moreover have "ev_occurred_at_ns e \<noteq> UINT64_MAX"
    if "ev_occurred_at_ns e \<le> fk_source_pts_ns (eb_frame batch)"
    using that assms(2) by (metis word_order.extremum_uniqueI)
  ultimately show ?thesis using True
    by (auto simp: ftevt_validate_event_def event_ok_def ftevt_event_rejected_def not_less
        check_model_versions_Ok check_tracks_Ok check_fields_Ok fev_max_model_versions_per_event_def
        early_return)
next
  case False
  then have "ftevt_validate_event e batch config \<noteq> Ok"
    by (simp add: ftevt_validate_event_def and_then_Ok identity_Ok)
  then show ?thesis using False by (simp add: event_ok_def)
qed

lemma event_batch_exact:
  "ftevt_validate_batch batch frame geometry config = Ok \<longleftrightarrow> batch_ok batch frame geometry config"
proof (cases "pvctr_validate_identity (eb_frame batch) frame (eb_geometry batch) geometry = Ok")
  case True
  note id = True [unfolded identity_Ok]
  have "ftevt_check_event batch config prev e = Ok \<longleftrightarrow> event_ok batch config e \<and>
      (\<forall>p \<in> set prev. ev_event_id p \<noteq> ev_event_id e)" for prev e
    using id by (auto simp: ftevt_check_event_def and_then_Ok validate_event_Ok)
  note events = validate_distinct_Ok [OF this]
  show ?thesis using True id
    by (auto simp: ftevt_validate_batch_def batch_ok_def and_then_Ok early_return events list_all_iff)
next
  case False
  then show ?thesis
    by (auto simp: ftevt_validate_batch_def batch_ok_def and_then_Ok identity_Ok)
qed

text \<open>
  C27. An event batch is accepted exactly when it is one the activation may publish: it belongs to
  the expected frame, stays within the activation's limits, and every event carries the
  activation's own source, feature and revision, happened no later than the frame, and has
  well-formed, pairwise different identities, track references and fields.
\<close>

theorem ftevt_batch_exact:
  "ftevt_validate_batch batch frame geometry config = Ok \<longleftrightarrow> batch_ok batch frame geometry config"
  by (rule event_batch_exact)

end
