(* ===== verification/Feature_Catalog.thy ===== *)
theory Feature_Catalog
  imports Feature_Event Model_Catalog
begin

text \<open>
  The catalog of features and their bindings to models: contracts/vqec_vision_feature_catalog.hpp
  with core/vqec_vision_feature_catalog.cpp (prefix \<open>ftcat\<close>).
\<close>

section \<open>Data\<close>

definition ftc_schema_version :: u32 where "ftc_schema_version = 1"
definition ftc_max_features :: nat where "ftc_max_features = 64"
definition ftc_max_model_dependencies :: nat where "ftc_max_model_dependencies = dpl_max_models_per_source"
definition ftc_max_attribute_dependencies :: nat where "ftc_max_attribute_dependencies = obs_max_attributes"
definition ftc_max_identifier_bytes :: nat where "ftc_max_identifier_bytes = 128"
definition ftc_max_configuration_bytes :: nat where "ftc_max_configuration_bytes = 256 * 1024"

datatype feature_input_mode = Single_model | Temporal_join | Unlisted_input_mode nat

record feature_model_dependency =
  fmd_role_id :: string
  fmd_model_id :: string

record feature_attribute_dependency =
  fad_schema_id :: string
  fad_schema_version :: string
  fad_max_age_ns :: u64

record feature_resource_profile =
  frp_max_temporal_bytes_per_source :: u64
  frp_max_events_per_update :: nat
  frp_max_track_references_per_event :: nat
  frp_max_fields_per_event :: nat

record feature_catalog_entry =
  fe_feature_id :: string
  fe_feature_version :: string
  fe_processor_contract :: string
  fe_configuration_schema :: string
  fe_input_mode :: feature_input_mode
  fe_model_dependencies :: "feature_model_dependency list"
  fe_attribute_dependencies :: "feature_attribute_dependency list"
  fe_resources :: feature_resource_profile

record feature_catalog =
  ftc_version :: u32
  ftc_revision :: u64
  ftc_catalog_id :: string
  ftc_model_catalog_ref :: string
  ftc_features :: "feature_catalog_entry list"

record feature_configuration =
  fcf_schema_id :: string
  fcf_revision :: u64
  fcf_payload :: "u8 list"

section \<open>Validators\<close>

definition ftcat_is_identifier :: "string \<Rightarrow> bool" where
  "ftcat_is_identifier v = ident_is_valid v ftc_max_identifier_bytes"

definition ftcat_is_input_mode :: "feature_input_mode \<Rightarrow> bool" where
  "ftcat_is_input_mode m \<longleftrightarrow> m = Single_model \<or> m = Temporal_join"

definition ftcat_check_model :: "feature_model_dependency list \<Rightarrow> feature_model_dependency \<Rightarrow> status" where
  "ftcat_check_model seen d =
     (if \<not> ftcat_is_identifier (fmd_role_id d) \<or> \<not> ftcat_is_identifier (fmd_model_id d) then Invalid_argument
      else if \<exists>p \<in> set seen. fmd_role_id p = fmd_role_id d \<or> fmd_model_id p = fmd_model_id d
        then Invalid_argument else Ok)"

definition ftcat_check_attribute ::
    "feature_attribute_dependency list \<Rightarrow> feature_attribute_dependency \<Rightarrow> status" where
  "ftcat_check_attribute seen d =
     (if \<not> ftcat_is_identifier (fad_schema_id d) \<or> \<not> ftcat_is_identifier (fad_schema_version d) \<or>
         fad_max_age_ns d = 0 \<or> fad_max_age_ns d = UINT64_MAX then Invalid_argument
      else if \<exists>p \<in> set seen. fad_schema_id p = fad_schema_id d then Invalid_argument else Ok)"

definition ftcat_validate_entry :: "feature_catalog_entry \<Rightarrow> status" where
  "ftcat_validate_entry f =
     (let model_count = length (fe_model_dependencies f); resources = fe_resources f in
      if \<not> ftcat_is_identifier (fe_feature_id f) \<or> \<not> ftcat_is_identifier (fe_feature_version f) \<or>
         \<not> ftcat_is_identifier (fe_processor_contract f) \<or>
         \<not> ftcat_is_identifier (fe_configuration_schema f) \<or> \<not> ftcat_is_input_mode (fe_input_mode f)
        then Invalid_argument
      else if model_count = 0 \<or> model_count > ftc_max_model_dependencies \<or>
          (fe_input_mode f = Single_model \<and> model_count \<noteq> 1) \<or>
          (fe_input_mode f = Temporal_join \<and> model_count < 2) then Invalid_argument
      else
        and_then (validate_items ftcat_check_model [] (fe_model_dependencies f))
          (if length (fe_attribute_dependencies f) > ftc_max_attribute_dependencies then Resource_exhausted
           else
             and_then (validate_items ftcat_check_attribute [] (fe_attribute_dependencies f))
               (if frp_max_temporal_bytes_per_source resources > dpl_max_temporal_bytes_per_source \<or>
                   frp_max_events_per_update resources = 0 \<or>
                   frp_max_events_per_update resources > fev_max_events_per_batch \<or>
                   frp_max_track_references_per_event resources = 0 \<or>
                   frp_max_track_references_per_event resources > fev_max_track_references_per_event \<or>
                   frp_max_fields_per_event resources = 0 \<or>
                   frp_max_fields_per_event resources > fev_max_fields_per_event
                then Invalid_argument else Ok)))"

definition ftcat_check_feature :: "feature_catalog_entry list \<Rightarrow> feature_catalog_entry \<Rightarrow> status" where
  "ftcat_check_feature seen f =
     and_then (ftcat_validate_entry f)
       (if \<exists>p \<in> set seen. fe_feature_id p = fe_feature_id f then Invalid_argument else Ok)"

definition ftcat_validate_catalog :: "feature_catalog \<Rightarrow> status" where
  "ftcat_validate_catalog c =
     (if ftc_version c \<noteq> ftc_schema_version then Unsupported
      else if ftc_revision c = 0 \<or> ftc_revision c = UINT64_MAX \<or>
          \<not> ftcat_is_identifier (ftc_catalog_id c) \<or> \<not> ftcat_is_identifier (ftc_model_catalog_ref c) \<or>
          ftc_features c = [] \<or> length (ftc_features c) > ftc_max_features then Invalid_argument
      else validate_items ftcat_check_feature [] (ftc_features c))"

definition ftcat_find_model :: "model_catalog \<Rightarrow> string \<Rightarrow> model_catalog_entry option" where
  "ftcat_find_model c model_id = find (\<lambda>m. me_model_id m = model_id) (ct_models c)"

definition ftcat_validate_model_dependencies :: "feature_catalog \<Rightarrow> model_catalog \<Rightarrow> status" where
  "ftcat_validate_model_dependencies features models =
     and_then (ftcat_validate_catalog features)
       (and_then (fst (mdcat_validate_catalog models 0))
         (if ftc_model_catalog_ref features \<noteq> ct_catalog_id models then Invalid_argument
          else if list_ex (\<lambda>f. list_ex (\<lambda>d. ftcat_find_model models (fmd_model_id d) = None)
              (fe_model_dependencies f)) (ftc_features features) then Invalid_argument
          else Ok))"

definition ftcat_validate_configuration :: "feature_catalog_entry \<Rightarrow> feature_configuration \<Rightarrow> status" where
  "ftcat_validate_configuration f c =
     and_then (ftcat_validate_entry f)
       (if fcf_schema_id c \<noteq> fe_configuration_schema f \<or> fcf_revision c = 0 \<or> fcf_revision c = UINT64_MAX
          then Invalid_argument
        else if length (fcf_payload c) > ftc_max_configuration_bytes then Resource_exhausted
        else Ok)"

text \<open>\<open>allocated\<close> says whether copying the identifiers found memory.\<close>

definition ftcat_compose_processor_config ::
    "bool \<Rightarrow> feature_catalog_entry \<Rightarrow> string \<Rightarrow> u64 \<Rightarrow> feature_processor_config \<Rightarrow>
       status \<times> feature_processor_config" where
  "ftcat_compose_processor_config allocated f source_id activation_revision config0 =
     (if ftcat_validate_entry f \<noteq> Ok then (ftcat_validate_entry f, config0)
      else if \<not> allocated then (Resource_exhausted, config0)
      else
        (let candidate = \<lparr>fpc_source_id = source_id, fpc_feature_id = fe_feature_id f,
               fpc_config_revision = activation_revision,
               fpc_max_events_per_update = frp_max_events_per_update (fe_resources f),
               fpc_max_track_references_per_event = frp_max_track_references_per_event (fe_resources f),
               fpc_max_fields_per_event = frp_max_fields_per_event (fe_resources f)\<rparr>;
             valid_config = ftevt_validate_processor_config candidate
         in if valid_config \<noteq> Ok then (valid_config, config0) else (Ok, candidate)))"

section \<open>What is accepted\<close>

definition entry_ok :: "feature_catalog_entry \<Rightarrow> bool" where
  "entry_ok f \<longleftrightarrow>
     ftcat_is_identifier (fe_feature_id f) \<and> ftcat_is_identifier (fe_feature_version f) \<and>
     ftcat_is_identifier (fe_processor_contract f) \<and> ftcat_is_identifier (fe_configuration_schema f) \<and>
     (fe_input_mode f = Single_model \<and> length (fe_model_dependencies f) = 1 \<or>
      fe_input_mode f = Temporal_join \<and> 2 \<le> length (fe_model_dependencies f)) \<and>
     length (fe_model_dependencies f) \<le> ftc_max_model_dependencies \<and>
     list_all (\<lambda>d. ftcat_is_identifier (fmd_role_id d) \<and> ftcat_is_identifier (fmd_model_id d))
       (fe_model_dependencies f) \<and>
     distinct (map fmd_role_id (fe_model_dependencies f)) \<and>
     distinct (map fmd_model_id (fe_model_dependencies f)) \<and>
     length (fe_attribute_dependencies f) \<le> 32 \<and>
     list_all (\<lambda>d. ftcat_is_identifier (fad_schema_id d) \<and> ftcat_is_identifier (fad_schema_version d) \<and>
       fad_max_age_ns d \<noteq> 0 \<and> fad_max_age_ns d \<noteq> UINT64_MAX) (fe_attribute_dependencies f) \<and>
     distinct (map fad_schema_id (fe_attribute_dependencies f)) \<and>
     frp_max_temporal_bytes_per_source (fe_resources f) \<le> dpl_max_temporal_bytes_per_source \<and>
     0 < frp_max_events_per_update (fe_resources f) \<and> frp_max_events_per_update (fe_resources f) \<le> 64 \<and>
     0 < frp_max_track_references_per_event (fe_resources f) \<and>
     frp_max_track_references_per_event (fe_resources f) \<le> 32 \<and>
     0 < frp_max_fields_per_event (fe_resources f) \<and> frp_max_fields_per_event (fe_resources f) \<le> 32"

lemma check_models_ftcat_Ok:
  "validate_items ftcat_check_model [] ds = Ok \<longleftrightarrow>
     list_all (\<lambda>d. ftcat_is_identifier (fmd_role_id d) \<and> ftcat_is_identifier (fmd_model_id d)) ds \<and>
     distinct (map fmd_role_id ds) \<and> distinct (map fmd_model_id ds)"
proof -
  let ?ok = "\<lambda>d. ftcat_is_identifier (fmd_role_id d) \<and> ftcat_is_identifier (fmd_model_id d)"
  have "validate_items ftcat_check_model [] ds = Ok \<longleftrightarrow>
      (\<forall>i < length ds. ?ok (ds ! i)) \<and>
      (\<forall>i < length ds. \<forall>y \<in> set (take i ds). fmd_role_id y \<noteq> fmd_role_id (ds ! i)) \<and>
      (\<forall>i < length ds. \<forall>y \<in> set (take i ds). fmd_model_id y \<noteq> fmd_model_id (ds ! i))"
    by (auto simp: validate_items_Ok ftcat_check_model_def early_return)
  then show ?thesis
    by (simp add: no_earlier_key_distinct list_all_length)
qed

lemma check_attributes_ftcat_Ok:
  "validate_items ftcat_check_attribute [] ds = Ok \<longleftrightarrow>
     list_all (\<lambda>d. ftcat_is_identifier (fad_schema_id d) \<and> ftcat_is_identifier (fad_schema_version d) \<and>
       fad_max_age_ns d \<noteq> 0 \<and> fad_max_age_ns d \<noteq> UINT64_MAX) ds \<and> distinct (map fad_schema_id ds)"
proof -
  have "ftcat_check_attribute prev d = Ok \<longleftrightarrow>
      (ftcat_is_identifier (fad_schema_id d) \<and> ftcat_is_identifier (fad_schema_version d) \<and>
       fad_max_age_ns d \<noteq> 0 \<and> fad_max_age_ns d \<noteq> UINT64_MAX) \<and>
      (\<forall>p \<in> set prev. fad_schema_id p \<noteq> fad_schema_id d)" for prev d
    by (auto simp: ftcat_check_attribute_def)
  from validate_distinct_Ok [OF this] show ?thesis by (simp add: list_all_iff)
qed

lemma ftcat_validate_entry_Ok: "ftcat_validate_entry f = Ok \<longleftrightarrow> entry_ok f"
  by (auto simp: ftcat_validate_entry_def entry_ok_def Let_def early_return and_then_Ok not_less
      check_models_ftcat_Ok check_attributes_ftcat_Ok ftcat_is_input_mode_def fev_max_events_per_batch_def
      fev_max_track_references_per_event_def fev_max_fields_per_event_def
      ftc_max_attribute_dependencies_def obs_max_attributes_def)

lemma ftcat_validate_catalog_Ok:
  "ftcat_validate_catalog c = Ok \<longleftrightarrow>
     ftc_version c = 1 \<and> ftc_revision c \<noteq> 0 \<and> ftc_revision c \<noteq> UINT64_MAX \<and>
     ftcat_is_identifier (ftc_catalog_id c) \<and> ftcat_is_identifier (ftc_model_catalog_ref c) \<and>
     ftc_features c \<noteq> [] \<and> length (ftc_features c) \<le> 64 \<and>
     list_all entry_ok (ftc_features c) \<and> distinct (map fe_feature_id (ftc_features c))"
proof -
  have "ftcat_check_feature prev f = Ok \<longleftrightarrow> entry_ok f \<and> (\<forall>p \<in> set prev. fe_feature_id p \<noteq> fe_feature_id f)"
    for prev f by (auto simp: ftcat_check_feature_def and_then_Ok ftcat_validate_entry_Ok)
  note features = validate_distinct_Ok [OF this]
  show ?thesis
    by (auto simp: ftcat_validate_catalog_def early_return features list_all_iff ftc_schema_version_def
        ftc_max_features_def not_less)
qed

text \<open>A valid entry always gives a valid processor configuration for an identified source and revision.\<close>

lemma ftcat_compose_valid:
  assumes "entry_ok f"
  shows "ftcat_compose_processor_config True f source_id revision config0 =
    (if ftevt_is_identifier source_id \<and> revision \<noteq> 0 \<and> revision \<noteq> UINT64_MAX
     then (Ok, \<lparr>fpc_source_id = source_id, fpc_feature_id = fe_feature_id f, fpc_config_revision = revision,
       fpc_max_events_per_update = frp_max_events_per_update (fe_resources f),
       fpc_max_track_references_per_event = frp_max_track_references_per_event (fe_resources f),
       fpc_max_fields_per_event = frp_max_fields_per_event (fe_resources f)\<rparr>)
     else (Invalid_argument, config0))"
proof -
  have "ftevt_is_identifier (fe_feature_id f)"
    using assms by (simp add: entry_ok_def ftevt_is_identifier_def ftcat_is_identifier_def
        fev_max_identifier_bytes_def ftc_max_identifier_bytes_def)
  then show ?thesis
    using assms ftcat_validate_entry_Ok [of f]
    by (auto simp: ftcat_compose_processor_config_def Let_def ftevt_validate_processor_config_def entry_ok_def
        fev_max_events_per_batch_def fev_max_track_references_per_event_def fev_max_fields_per_event_def)
qed

end
