(* ===== verification/Feature_Stage.thy ===== *)
theory Feature_Stage
  imports Feature_Event
begin

text \<open>
  The stage that runs one feature processor on one source:
  runtime/feature_manager/vqec_vision_feature_stage.{hpp,cpp} (prefix \<open>ftstg\<close>) over the port
  ports/vqec_vision_feature_processor.hpp. The processor is not trusted: its answers, an
  exception included, are arguments, and the calls it receives are part of the result. The
  scratch buffer of the class is not kept, since it is cleared before every use.
\<close>

section \<open>State\<close>

datatype 'a answer = Answered 'a | Raised

datatype processor_call =
    Reset_epoch u64
  | Process_observations observation_batch u64 bool

record feature_stage =
  fstg_config :: feature_processor_config
  fstg_source_epoch :: u64
  fstg_last_now_monotonic_ns :: u64
  fstg_is_active :: bool
  fstg_is_faulted :: bool

definition ftstg_create :: "feature_processor_config \<Rightarrow> feature_stage" where
  "ftstg_create config = \<lparr>fstg_config = config, fstg_source_epoch = 0, fstg_last_now_monotonic_ns = 0,
     fstg_is_active = False, fstg_is_faulted = False\<rparr>"

section \<open>Operations\<close>

definition ftstg_activate :: "status answer \<Rightarrow> feature_stage \<Rightarrow> status \<times> feature_stage" where
  "ftstg_activate accepted s =
     (if fstg_is_active s then (Invalid_state, s)
      else if ftevt_validate_processor_config (fstg_config s) \<noteq> Ok
        then (ftevt_validate_processor_config (fstg_config s), s)
      else
        (case accepted of
           Raised \<Rightarrow> (Io_error, s)
         | Answered st \<Rightarrow> if st \<noteq> Ok then (st, s) else (Ok, s\<lparr>fstg_is_active := True\<rparr>)))"

text \<open>The part after the epoch is settled: run the processor and judge what it wrote.\<close>

definition ftstg_run ::
    "observation_batch \<Rightarrow> u64 \<Rightarrow> bool \<Rightarrow> (status \<times> feature_event_batch) answer \<Rightarrow> feature_event_batch \<Rightarrow>
       feature_stage \<Rightarrow> status \<times> feature_stage \<times> feature_event_batch" where
  "ftstg_run tracked now gap processed events s0 =
     (let s = s0\<lparr>fstg_last_now_monotonic_ns := now\<rparr>; faulted = s\<lparr>fstg_is_faulted := True\<rparr> in
      case processed of
        Raised \<Rightarrow> (Io_error, faulted, events)
      | Answered (st, scratch) \<Rightarrow>
          if st \<noteq> Ok then (st, faulted, events)
          else
            (let valid_output = ftevt_validate_batch scratch (ot_frame tracked) (ot_geometry tracked) (fstg_config s)
             in if valid_output \<noteq> Ok then (valid_output, faulted, events) else (Ok, s, scratch)))"

definition ftstg_process ::
    "observation_batch \<Rightarrow> u64 \<Rightarrow> bool \<Rightarrow> status answer \<Rightarrow> (status \<times> feature_event_batch) answer \<Rightarrow>
       feature_event_batch \<Rightarrow> feature_stage \<Rightarrow>
       status \<times> feature_stage \<times> feature_event_batch \<times> processor_call list" where
  "ftstg_process tracked now gap reset processed events s =
     (let valid_input = obval_validate_batch tracked (ot_frame tracked) (ot_geometry tracked);
          incoming_epoch = fk_source_epoch (ot_frame tracked);
          call = Process_observations tracked now gap in
      if \<not> fstg_is_active s then (Invalid_state, s, events, [])
      else if valid_input \<noteq> Ok then (valid_input, s, events, [])
      else if now = UINT64_MAX \<or> now < fstg_last_now_monotonic_ns s
        then (Invalid_argument, s, events, [])
      else if incoming_epoch \<noteq> fstg_source_epoch s then
        (if fstg_source_epoch s \<noteq> 0 \<and> incoming_epoch < fstg_source_epoch s
           then (Invalid_state, s, events, [])
         else
           (let s1 = s\<lparr>fstg_source_epoch := incoming_epoch, fstg_last_now_monotonic_ns := now,
                      fstg_is_faulted := True\<rparr> in
            case reset of
              Raised \<Rightarrow> (Io_error, s1, events, [Reset_epoch incoming_epoch])
            | Answered st \<Rightarrow>
                if st \<noteq> Ok then (st, s1, events, [Reset_epoch incoming_epoch])
                else
                  (let (st', s2, out) = ftstg_run tracked now gap processed events
                         (s1\<lparr>fstg_is_faulted := False\<rparr>)
                   in (st', s2, out, [Reset_epoch incoming_epoch, call]))))
      else if fstg_is_faulted s then (Invalid_state, s, events, [])
      else
        (let (st', s2, out) = ftstg_run tracked now gap processed events s
         in (st', s2, out, [call])))"

section \<open>The life of a processor\<close>

text \<open>
  What the processor may rely on, by its calls and whether each went well (a processing goes well
  when its batch is published): epochs only grow, observations come only in an epoch that was
  entered well and in which nothing went wrong since, and time never goes back.
\<close>

fun processor_life :: "u64 \<Rightarrow> bool \<Rightarrow> u64 \<Rightarrow> (processor_call \<times> bool) list \<Rightarrow> bool" where
  "processor_life epoch serving latest [] = True"
| "processor_life epoch serving latest ((Reset_epoch e, well) # calls) =
     (epoch < e \<and> processor_life e well latest calls)"
| "processor_life epoch serving latest ((Process_observations tracked now gap, well) # calls) =
     (serving \<and> fk_source_epoch (ot_frame tracked) = epoch \<and> latest \<le> now \<and>
      processor_life epoch well now calls)"

datatype stage_op =
    Activate "status answer"
  | Process observation_batch u64 bool "status answer" "(status \<times> feature_event_batch) answer" feature_event_batch

text \<open>The calls of one operation with their outcomes: only the last call of a failed operation failed.\<close>

definition judged :: "bool \<Rightarrow> processor_call list \<Rightarrow> (processor_call \<times> bool) list" where
  "judged well calls = (if calls = [] then []
     else map (\<lambda>c. (c, True)) (butlast calls) @ [(last calls, well)])"

text \<open>An operation: the calls, what was published, the next state.\<close>

fun ftstg_step ::
    "stage_op \<Rightarrow> feature_stage \<Rightarrow>
       (processor_call \<times> bool) list \<times> (observation_batch \<times> feature_event_batch) list \<times> feature_stage" where
  "ftstg_step (Activate accepted) s = ([], [], snd (ftstg_activate accepted s))"
| "ftstg_step (Process tracked now gap reset processed events) s =
     (case ftstg_process tracked now gap reset processed events s of (st, s', out, calls) \<Rightarrow>
        (judged (st = Ok) calls, if st = Ok then [(tracked, out)] else [], s'))"

fun ftstg_steps ::
    "stage_op list \<Rightarrow> feature_stage \<Rightarrow>
       (processor_call \<times> bool) list \<times> (observation_batch \<times> feature_event_batch) list \<times> feature_stage" where
  "ftstg_steps [] s = ([], [], s)"
| "ftstg_steps (op # ops) s =
     (let (calls, out, s1) = ftstg_step op s; (calls', out', s2) = ftstg_steps ops s1
      in (calls @ calls', out @ out', s2))"

definition stage_serving :: "feature_stage \<Rightarrow> bool" where
  "stage_serving s \<longleftrightarrow> fstg_source_epoch s \<noteq> 0 \<and> \<not> fstg_is_faulted s"

lemma ftstg_run_result:
  assumes "ftstg_run tracked now gap processed events s = (st, s', out)"
  shows "fstg_config s' = fstg_config s" "fstg_source_epoch s' = fstg_source_epoch s"
    and "fstg_last_now_monotonic_ns s' = now" "fstg_is_faulted s' \<longleftrightarrow> fstg_is_faulted s \<or> st \<noteq> Ok"
    and "st = Ok \<Longrightarrow> batch_ok out (ot_frame tracked) (ot_geometry tracked) (fstg_config s)"
    and "st \<noteq> Ok \<Longrightarrow> out = events"
  using assms by (auto simp: ftstg_run_def Let_def ftevt_batch_exact
      split: answer.splits prod.splits if_splits)

text \<open>What one processing does to the stage, on each of its ways out.\<close>

lemma ftstg_process_result:
  assumes "ftstg_process tracked now gap reset processed events s = (st, s', out, calls)"
  obtains (refused) "st \<noteq> Ok" "s' = s" "out = events" "calls = []"
  | (not_reset) "st \<noteq> Ok" "out = events" "calls = [Reset_epoch (fk_source_epoch (ot_frame tracked))]"
      "fstg_source_epoch s < fk_source_epoch (ot_frame tracked)" "fstg_last_now_monotonic_ns s \<le> now"
      "s' = s\<lparr>fstg_source_epoch := fk_source_epoch (ot_frame tracked), fstg_last_now_monotonic_ns := now,
              fstg_is_faulted := True\<rparr>"
  | (entered) "calls = [Reset_epoch (fk_source_epoch (ot_frame tracked)), Process_observations tracked now gap]"
      "fstg_source_epoch s < fk_source_epoch (ot_frame tracked)" "fstg_last_now_monotonic_ns s \<le> now"
      "ftstg_run tracked now gap processed events (s\<lparr>fstg_source_epoch := fk_source_epoch (ot_frame tracked),
         fstg_last_now_monotonic_ns := now, fstg_is_faulted := False\<rparr>) = (st, s', out)"
  | (served) "calls = [Process_observations tracked now gap]" "stage_serving s"
      "fk_source_epoch (ot_frame tracked) = fstg_source_epoch s" "fstg_last_now_monotonic_ns s \<le> now"
      "ftstg_run tracked now gap processed events s = (st, s', out)"
proof -
  let ?epoch = "fk_source_epoch (ot_frame tracked)"
  have nonzero: "?epoch \<noteq> 0" if "obval_validate_batch tracked (ot_frame tracked) (ot_geometry tracked) = Ok"
    using that by (simp add: obval_validate_batch_def obval_validate_observations_def and_then_Ok identity_Ok)
  show ?thesis
  proof (cases "\<not> fstg_is_active s \<or> obval_validate_batch tracked (ot_frame tracked) (ot_geometry tracked) \<noteq> Ok \<or>
      now = UINT64_MAX \<or> now < fstg_last_now_monotonic_ns s \<or>
      (?epoch \<noteq> fstg_source_epoch s \<and> fstg_source_epoch s \<noteq> 0 \<and> ?epoch < fstg_source_epoch s) \<or>
      (?epoch = fstg_source_epoch s \<and> fstg_is_faulted s)")
    case True
    with assms have "st \<noteq> Ok \<and> s' = s \<and> out = events \<and> calls = []"
      by (auto simp: ftstg_process_def Let_def split: if_splits answer.splits prod.splits)
    then show ?thesis using refused by blast
  next
    case False
    then have ok: "obval_validate_batch tracked (ot_frame tracked) (ot_geometry tracked) = Ok"
      and time: "fstg_last_now_monotonic_ns s \<le> now" by auto
    note epoch = nonzero [OF ok]
    show ?thesis
    proof (cases "?epoch = fstg_source_epoch s")
      case True
      then have "ftstg_run tracked now gap processed events s = (st, s', out)"
        "calls = [Process_observations tracked now gap]" "stage_serving s"
        using assms False epoch
        by (auto simp: ftstg_process_def Let_def stage_serving_def split: prod.splits)
      then show ?thesis using served True time by blast
    next
      case other: False
      have newer: "fstg_source_epoch s < ?epoch"
      proof (cases "fstg_source_epoch s = 0")
        case True
        then show ?thesis using epoch by (simp add: word_neq_0_conv)
      next
        case nonzero: False
        then show ?thesis using False other by auto
      qed
      show ?thesis
      proof (cases "reset = Answered Ok")
        case True
        then show ?thesis using assms False other newer time
          by (intro entered) (auto simp: ftstg_process_def Let_def split: prod.splits)
      next
        case failed: False
        then have "st \<noteq> Ok \<and> out = events \<and> calls = [Reset_epoch ?epoch] \<and>
            s' = s\<lparr>fstg_source_epoch := ?epoch, fstg_last_now_monotonic_ns := now, fstg_is_faulted := True\<rparr>"
          using assms False other
          by (cases reset) (auto simp: ftstg_process_def Let_def split: if_splits)
        then show ?thesis using not_reset newer time by blast
      qed
    qed
  qed
qed

definition published_ok :: "feature_processor_config \<Rightarrow> observation_batch \<times> feature_event_batch \<Rightarrow> bool" where
  "published_ok config = (\<lambda>(tracked, out). batch_ok out (ot_frame tracked) (ot_geometry tracked) config)"

lemma activate_fields [simp]:
  "fstg_config (snd (ftstg_activate accepted s)) = fstg_config s"
  "fstg_source_epoch (snd (ftstg_activate accepted s)) = fstg_source_epoch s"
  "fstg_last_now_monotonic_ns (snd (ftstg_activate accepted s)) = fstg_last_now_monotonic_ns s"
  "fstg_is_faulted (snd (ftstg_activate accepted s)) = fstg_is_faulted s"
  by (simp_all add: ftstg_activate_def split: answer.split)

lemma processor_life_earlier:
  "processor_life epoch serving latest calls \<Longrightarrow> earlier \<le> latest \<Longrightarrow>
     processor_life epoch serving earlier calls"
  by (induction epoch serving latest calls arbitrary: earlier rule: processor_life.induct) auto

text \<open>The calls of one operation continue any life that has reached the stage's state.\<close>

lemma ftstg_step_life:
  assumes step: "ftstg_step op s = (calls, out, s')"
    and later: "processor_life (fstg_source_epoch s') (stage_serving s') (fstg_last_now_monotonic_ns s') rest"
  shows "processor_life (fstg_source_epoch s) (stage_serving s) (fstg_last_now_monotonic_ns s) (calls @ rest)"
    and "list_all (published_ok (fstg_config s)) out" and "fstg_config s' = fstg_config s"
proof -
  have "processor_life (fstg_source_epoch s) (stage_serving s) (fstg_last_now_monotonic_ns s) (calls @ rest) \<and>
      list_all (published_ok (fstg_config s)) out \<and> fstg_config s' = fstg_config s"
  proof (cases op)
    case (Activate accepted)
    then show ?thesis using step later by (auto simp: stage_serving_def)
  next
    case (Process tracked now gap reset processed events)
    obtain st s1 out1 calls1 where run:
      "ftstg_process tracked now gap reset processed events s = (st, s1, out1, calls1)"
      by (metis prod_cases4)
    have parts: "s' = s1" "calls = judged (st = Ok) calls1"
      "out = (if st = Ok then [(tracked, out1)] else [])"
      using step by (auto simp: Process run)
    from run show ?thesis
    proof (cases rule: ftstg_process_result)
      case refused
      then show ?thesis using later by (simp add: parts judged_def)
    next
      case not_reset
      then show ?thesis using later processor_life_earlier [OF _ not_reset(5), of _ False rest]
        by (simp add: parts judged_def stage_serving_def)
    next
      case entered
      note result = ftstg_run_result [OF entered(4)]
      have "fk_source_epoch (ot_frame tracked) \<noteq> 0" using entered(2) by auto
      then show ?thesis using later result entered(1-3)
        by (auto simp: parts judged_def stage_serving_def published_ok_def)
    next
      case served
      note result = ftstg_run_result [OF served(5)]
      show ?thesis using later result served(1-4)
        by (auto simp: parts judged_def stage_serving_def published_ok_def)
    qed
  qed
  then show "processor_life (fstg_source_epoch s) (stage_serving s) (fstg_last_now_monotonic_ns s) (calls @ rest)"
    "list_all (published_ok (fstg_config s)) out" "fstg_config s' = fstg_config s" by blast+
qed

lemma ftstg_steps_life:
  "ftstg_steps ops s = (calls, out, s') \<Longrightarrow>
     processor_life (fstg_source_epoch s) (stage_serving s) (fstg_last_now_monotonic_ns s) calls \<and>
     list_all (published_ok (fstg_config s)) out"
proof (induction ops arbitrary: s calls out)
  case (Cons op ops)
  obtain calls1 out1 s1 where step: "ftstg_step op s = (calls1, out1, s1)" by (metis prod_cases3)
  obtain calls2 out2 s2 where rest: "ftstg_steps ops s1 = (calls2, out2, s2)" by (metis prod_cases3)
  have parts: "calls = calls1 @ calls2" "out = out1 @ out2" using Cons.prems by (auto simp: step rest)
  have "s2 = s'" using Cons.prems by (auto simp: step rest)
  then have IH: "processor_life (fstg_source_epoch s1) (stage_serving s1) (fstg_last_now_monotonic_ns s1) calls2 \<and>
      list_all (published_ok (fstg_config s1)) out2" using Cons.IH rest by simp
  note one = ftstg_step_life [OF step, of calls2]
  show ?case using one IH by (simp add: parts)
qed simp

text \<open>
  However the processor behaves, exceptions included, and whatever input arrives in whatever
  order: the stage only publishes event batches that are acceptable for the very observations
  they were made from (see \<open>batch_ok\<close>), and the processor only sees a well-formed life
  (see \<open>processor_life\<close>): growing epochs, observations only in an epoch it entered well, nothing
  more in an epoch after anything went wrong in it, and time that never goes back.
\<close>

lemma ftstg_publishes_only_accepted:
  "case ftstg_steps ops (ftstg_create config) of (calls, published, _) \<Rightarrow>
     processor_life 0 False 0 calls \<and> list_all (published_ok config) published"
  using ftstg_steps_life [of ops "ftstg_create config"]
  by (auto simp: ftstg_create_def stage_serving_def)

end
