(* ===== verification/Feature_Activation.thy ===== *)
theory Feature_Activation
  imports Feature_Catalog Feature_Stage
begin

text \<open>
  The registry of feature processor factories and the manager of effective features:
  runtime/feature_manager/vqec_vision_feature_processor_registry.{hpp,cpp} (prefix \<open>ftreg\<close>) and
  vqec_vision_feature_activation_manager.{hpp,cpp} (prefix \<open>famgr\<close>). Factories are compiled-in
  packages: what one answers, and whether memory was found, is an argument.
\<close>

section \<open>Registry\<close>

definition ftr_max_factories :: nat where "ftr_max_factories = ftc_max_features"

type_synonym feature_processor_registry = "(string \<times> nat option) list"

datatype 'a factory_answer = Gave 'a | Out_of_memory | Threw

text \<open>A factory validates the configuration and makes a processor, or an empty owner.\<close>

record factory_environment =
  fy_allocated :: bool
  fy_validated :: "status factory_answer"
  fy_created :: "(status \<times> nat option) factory_answer"

definition ftreg_is_contract :: "string \<Rightarrow> bool" where
  "ftreg_is_contract v = ident_is_valid v ftc_max_identifier_bytes"

definition ftreg_register_factory ::
    "bool \<Rightarrow> string \<Rightarrow> nat \<Rightarrow> feature_processor_registry \<Rightarrow> status \<times> feature_processor_registry" where
  "ftreg_register_factory allocated processor_contract factory entries =
     (if \<not> ftreg_is_contract processor_contract then (Invalid_argument, entries)
      else if \<exists>e \<in> set entries. fst e = processor_contract then (Invalid_argument, entries)
      else if length entries = ftr_max_factories then (Resource_exhausted, entries)
      else if \<not> allocated then (Resource_exhausted, entries)
      else (Ok, entries @ [(processor_contract, Some factory)]))"

definition ftreg_resolve_factory ::
    "string \<Rightarrow> feature_processor_registry \<Rightarrow> status \<times> nat option" where
  "ftreg_resolve_factory processor_contract entries =
     (if \<not> ftreg_is_contract processor_contract then (Invalid_argument, None)
      else
        (case find (\<lambda>e. fst e = processor_contract) entries of
           None \<Rightarrow> (Unsupported, None)
         | Some (_, factory) \<Rightarrow> (if factory = None then Invalid_state else Ok, factory)))"

definition ftreg_create_processor ::
    "factory_environment \<Rightarrow> feature_catalog_entry \<Rightarrow> string \<Rightarrow> feature_configuration \<Rightarrow>
       feature_processor_registry \<Rightarrow> status \<times> nat option" where
  "ftreg_create_processor env f source_id configuration entries =
     (let blank = \<lparr>fpc_source_id = [], fpc_feature_id = [], fpc_config_revision = 0,
            fpc_max_events_per_update = 0, fpc_max_track_references_per_event = 0,
            fpc_max_fields_per_event = 0\<rparr>;
          composed = fst (ftcat_compose_processor_config (fy_allocated env) f source_id
            (fcf_revision configuration) blank);
          resolved = fst (ftreg_resolve_factory (fe_processor_contract f) entries) in
      if ftcat_validate_configuration f configuration \<noteq> Ok
        then (ftcat_validate_configuration f configuration, None)
      else if composed \<noteq> Ok then (composed, None)
      else if resolved \<noteq> Ok then (resolved, None)
      else
        (case fy_validated env of
           Out_of_memory \<Rightarrow> (Resource_exhausted, None)
         | Threw \<Rightarrow> (Io_error, None)
         | Gave valid \<Rightarrow>
             if valid \<noteq> Ok then (valid, None)
             else
               (case fy_created env of
                  Out_of_memory \<Rightarrow> (Resource_exhausted, None)
                | Threw \<Rightarrow> (Io_error, None)
                | Gave (created, candidate) \<Rightarrow>
                    if created \<noteq> Ok then (created, None)
                    else if candidate = None then (Invalid_state, None)
                    else (Ok, candidate))))"

definition ftreg_clear :: "feature_processor_registry \<Rightarrow> feature_processor_registry" where
  "ftreg_clear entries = []"

definition ftreg_get_count :: "feature_processor_registry \<Rightarrow> nat" where
  "ftreg_get_count entries = length entries"

section \<open>Activation\<close>

definition fal_max_associations :: nat where
  "fal_max_associations = dpl_max_sources * ftc_max_features"

datatype feature_effective_state =
    Fx_disabled | Fx_denied | Fx_unsupported | Fx_resource_limited | Fx_ready | Fx_faulted

record feature_activation_request =
  far_source_id :: string
  far_feature_id :: string
  far_desired_enabled :: bool
  far_entitlement_granted :: bool
  far_resource_admitted :: bool
  far_configuration :: feature_configuration

record feature_activation_record =
  fac_source_id :: string
  fac_feature_id :: string
  fac_state :: feature_effective_state
  fac_reason_code :: status_code
  fac_desired_enabled :: bool
  fac_entitlement_granted :: bool
  fac_resource_admitted :: bool
  fac_processor :: "nat option"
  fac_stage :: "feature_stage option"

record feature_activation_snapshot =
  fas_feature_catalog_revision :: u64
  fas_model_catalog_revision :: u64
  fas_deployment_revision :: u64
  fas_association_count :: u16
  fas_ready_count :: u16
  fas_denied_count :: u16
  fas_unsupported_count :: u16
  fas_resource_limited_count :: u16
  fas_faulted_count :: u16

text \<open>The three borrowed inputs are set together by \<open>configure\<close>.\<close>

record feature_activation_manager =
  fam_bound :: "(feature_catalog \<times> model_catalog \<times> deployment_config) option"
  fam_records :: "feature_activation_record list"
  fam_is_configured :: bool
  fam_is_frozen :: bool

definition famgr_initial :: feature_activation_manager where
  "famgr_initial = \<lparr>fam_bound = None, fam_records = [], fam_is_configured = False, fam_is_frozen = False\<rparr>"

definition famgr_configure ::
    "feature_catalog \<Rightarrow> model_catalog \<Rightarrow> deployment_config \<Rightarrow> feature_activation_manager \<Rightarrow>
       status \<times> feature_activation_manager" where
  "famgr_configure features models deployment m =
     (let valid_features = ftcat_validate_model_dependencies features models;
          valid_deployment = fst (mdcat_validate_deployment_models deployment models 0) in
      if fam_is_configured m then (Invalid_state, m)
      else if valid_features \<noteq> Ok then (valid_features, m)
      else if valid_deployment \<noteq> Ok then (valid_deployment, m)
      else if ftc_model_catalog_ref features \<noteq> ct_catalog_id models then (Invalid_argument, m)
      else (Ok, m\<lparr>fam_bound := Some (features, models, deployment), fam_is_configured := True\<rparr>))"

definition famgr_find_feature :: "feature_activation_manager \<Rightarrow> string \<Rightarrow> feature_catalog_entry option" where
  "famgr_find_feature m feature_id =
     (case fam_bound m of
        None \<Rightarrow> None
      | Some (features, _, _) \<Rightarrow> find (\<lambda>f. fe_feature_id f = feature_id) (ftc_features features))"

definition famgr_find_source :: "feature_activation_manager \<Rightarrow> string \<Rightarrow> source_deployment_config option" where
  "famgr_find_source m source_id =
     (case fam_bound m of
        None \<Rightarrow> None
      | Some (_, _, deployment) \<Rightarrow> find (\<lambda>s. sd_source_id s = source_id) (dc_sources deployment))"

definition famgr_source_has_models :: "source_deployment_config \<Rightarrow> feature_catalog_entry \<Rightarrow> bool" where
  "famgr_source_has_models s f =
     list_all (\<lambda>d. \<exists>id \<in> set (sd_model_ids s). id = fmd_model_id d) (fe_model_dependencies f)"

definition famgr_check_request ::
    "feature_activation_manager \<Rightarrow> feature_activation_request list \<Rightarrow> feature_activation_request \<Rightarrow> status" where
  "famgr_check_request m seen r =
     (if \<not> ident_is_valid (far_source_id r) ftc_max_identifier_bytes \<or>
         \<not> ident_is_valid (far_feature_id r) ftc_max_identifier_bytes \<or>
         famgr_find_source m (far_source_id r) = None \<or> famgr_find_feature m (far_feature_id r) = None
        then Invalid_argument
      else if \<exists>p \<in> set seen. far_source_id p = far_source_id r \<and> far_feature_id p = far_feature_id r
        then Invalid_argument else Ok)"

text \<open>
  The environment of one association: the factory, the memory for the configuration, and the
  construction of the stage (what the processor answered to its activation, if it came to that).
\<close>

record activation_environment =
  ave_factory :: factory_environment
  ave_allocated :: bool
  ave_stage :: "status answer factory_answer"

text \<open>The part of the loop body after the gates: the state, its reason, and what the record owns.\<close>

definition famgr_start ::
    "activation_environment \<Rightarrow> feature_processor_registry \<Rightarrow> feature_catalog_entry \<Rightarrow>
       feature_activation_request \<Rightarrow>
       feature_effective_state \<times> status_code \<times> nat option \<times> feature_stage option" where
  "famgr_start env registry f r =
     (let (created, processor) =
            ftreg_create_processor (ave_factory env) f (far_source_id r) (far_configuration r) registry;
          blank = \<lparr>fpc_source_id = [], fpc_feature_id = [], fpc_config_revision = 0,
            fpc_max_events_per_update = 0, fpc_max_track_references_per_event = 0,
            fpc_max_fields_per_event = 0\<rparr>;
          (composed, config) = ftcat_compose_processor_config (ave_allocated env) f (far_source_id r)
            (fcf_revision (far_configuration r)) blank
      in if created \<noteq> Ok
           then (if created = Unsupported then Fx_unsupported else Fx_faulted, created, None, None)
         else if composed \<noteq> Ok then (Fx_faulted, composed, None, None)
         else
           (case ave_stage env of
              Out_of_memory \<Rightarrow> (Fx_faulted, Resource_exhausted, None, None)
            | Threw \<Rightarrow> (Fx_faulted, Io_error, None, None)
            | Gave accepted \<Rightarrow>
                (let (activated, stage) = ftstg_activate accepted (ftstg_create config)
                 in if activated \<noteq> Ok then (Fx_faulted, activated, None, None)
                    else (Fx_ready, Ok, processor, Some stage))))"

definition famgr_resolve ::
    "activation_environment \<Rightarrow> feature_processor_registry \<Rightarrow> source_deployment_config \<Rightarrow>
       feature_catalog_entry \<Rightarrow> feature_activation_request \<Rightarrow>
       feature_effective_state \<times> status_code \<times> nat option \<times> feature_stage option" where
  "famgr_resolve env registry source f r =
     (if \<not> far_desired_enabled r then (Fx_disabled, Ok, None, None)
      else if \<not> far_entitlement_granted r then (Fx_denied, Unauthorized, None, None)
      else if \<not> far_resource_admitted r then (Fx_resource_limited, Resource_exhausted, None, None)
      else if \<not> famgr_source_has_models source f then (Fx_unsupported, Unsupported, None, None)
      else famgr_start env registry f r)"

definition famgr_record ::
    "activation_environment \<Rightarrow> feature_processor_registry \<Rightarrow> feature_activation_manager \<Rightarrow>
       feature_activation_request \<Rightarrow> feature_activation_record" where
  "famgr_record env registry m r =
     (let (state, reason, processor, stage) =
            famgr_resolve env registry (the (famgr_find_source m (far_source_id r)))
              (the (famgr_find_feature m (far_feature_id r))) r
      in \<lparr>fac_source_id = far_source_id r, fac_feature_id = far_feature_id r, fac_state = state,
          fac_reason_code = reason, fac_desired_enabled = far_desired_enabled r,
          fac_entitlement_granted = far_entitlement_granted r,
          fac_resource_admitted = far_resource_admitted r, fac_processor = processor, fac_stage = stage\<rparr>)"

definition famgr_count_state ::
    "feature_effective_state \<Rightarrow> feature_activation_snapshot \<Rightarrow> feature_activation_snapshot" where
  "famgr_count_state state s0 =
     (let s = s0\<lparr>fas_association_count := fas_association_count s0 + 1\<rparr> in
      case state of
        Fx_disabled \<Rightarrow> s
      | Fx_denied \<Rightarrow> s\<lparr>fas_denied_count := fas_denied_count s + 1\<rparr>
      | Fx_unsupported \<Rightarrow> s\<lparr>fas_unsupported_count := fas_unsupported_count s + 1\<rparr>
      | Fx_resource_limited \<Rightarrow> s\<lparr>fas_resource_limited_count := fas_resource_limited_count s + 1\<rparr>
      | Fx_ready \<Rightarrow> s\<lparr>fas_ready_count := fas_ready_count s + 1\<rparr>
      | Fx_faulted \<Rightarrow> s\<lparr>fas_faulted_count := fas_faulted_count s + 1\<rparr>)"

text \<open>The first fault is the status of the whole reconcile; the records are kept all the same.\<close>

definition famgr_first_error :: "feature_activation_record list \<Rightarrow> status" where
  "famgr_first_error records =
     (case find (\<lambda>r. fac_state r = Fx_faulted) records of None \<Rightarrow> Ok | Some r \<Rightarrow> fac_reason_code r)"

definition famgr_reconcile ::
    "(nat \<Rightarrow> activation_environment) \<Rightarrow> feature_activation_request list \<Rightarrow> feature_processor_registry \<Rightarrow>
       feature_activation_manager \<Rightarrow> feature_activation_snapshot \<Rightarrow>
       status \<times> feature_activation_manager \<times> feature_activation_snapshot" where
  "famgr_reconcile env requests registry m snapshot0 =
     (if \<not> fam_is_configured m then (Invalid_state, m, snapshot0)
      else if fam_is_frozen m then (Invalid_state, m, snapshot0)
      else if requests = [] \<or> length requests > fal_max_associations then (Invalid_argument, m, snapshot0)
      else if validate_items (famgr_check_request m) [] requests \<noteq> Ok
        then (validate_items (famgr_check_request m) [] requests, m, snapshot0)
      else
        (case fam_bound m of
           None \<Rightarrow> (Invalid_state, m, snapshot0)
         | Some (features, models, deployment) \<Rightarrow>
           (let records = map (\<lambda>(i, r). famgr_record (env i) registry m r) (enumerate 0 requests);
                empty = \<lparr>fas_feature_catalog_revision = ftc_revision features,
                  fas_model_catalog_revision = ct_revision models,
                  fas_deployment_revision = dc_revision deployment, fas_association_count = 0,
                  fas_ready_count = 0, fas_denied_count = 0, fas_unsupported_count = 0,
                  fas_resource_limited_count = 0, fas_faulted_count = 0\<rparr>;
                snapshot = fold famgr_count_state (map fac_state records) empty
            in (famgr_first_error records, m\<lparr>fam_records := records\<rparr>, snapshot))))"

definition famgr_get_record :: "nat \<Rightarrow> feature_activation_manager \<Rightarrow> feature_activation_record option" where
  "famgr_get_record slot m = (if slot < length (fam_records m) then Some (fam_records m ! slot) else None)"

definition famgr_get_feature :: "nat \<Rightarrow> feature_activation_manager \<Rightarrow> feature_catalog_entry option" where
  "famgr_get_feature slot m =
     (case famgr_get_record slot m of None \<Rightarrow> None | Some r \<Rightarrow> famgr_find_feature m (fac_feature_id r))"

definition famgr_get_stage :: "nat \<Rightarrow> feature_activation_manager \<Rightarrow> feature_stage option" where
  "famgr_get_stage slot m = (case famgr_get_record slot m of None \<Rightarrow> None | Some r \<Rightarrow> fac_stage r)"

definition famgr_get_count :: "feature_activation_manager \<Rightarrow> nat" where
  "famgr_get_count m = length (fam_records m)"

definition famgr_freeze :: "feature_activation_manager \<Rightarrow> feature_activation_manager" where
  "famgr_freeze m = m\<lparr>fam_is_frozen := True\<rparr>"

section \<open>What is active\<close>

text \<open>A record holds a processor and a stage exactly when it is ready, and then every gate was passed.\<close>

definition far_record_ok :: "feature_activation_manager \<Rightarrow> feature_activation_record \<Rightarrow> bool" where
  "far_record_ok m r \<longleftrightarrow>
     (case fac_stage r of
        None \<Rightarrow> fac_state r \<noteq> Fx_ready \<and> fac_processor r = None
      | Some stage \<Rightarrow>
          fac_state r = Fx_ready \<and> fac_reason_code r = Ok \<and> fac_processor r \<noteq> None \<and>
          fac_desired_enabled r \<and> fac_entitlement_granted r \<and> fac_resource_admitted r \<and>
          fstg_is_active stage \<and> ftevt_validate_processor_config (fstg_config stage) = Ok \<and>
          fpc_source_id (fstg_config stage) = fac_source_id r \<and>
          fpc_feature_id (fstg_config stage) = fac_feature_id r \<and>
          (\<exists>source f. famgr_find_source m (fac_source_id r) = Some source \<and>
             famgr_find_feature m (fac_feature_id r) = Some f \<and>
             fmd_model_id ` set (fe_model_dependencies f) \<subseteq> set (sd_model_ids source)))"

lemma activate_Ok:
  "ftstg_activate accepted s = (Ok, s') \<Longrightarrow>
     s' = s\<lparr>fstg_is_active := True\<rparr> \<and> ftevt_validate_processor_config (fstg_config s) = Ok"
  by (auto simp: ftstg_activate_def split: if_splits answer.splits)

lemma compose_fields:
  "ftcat_compose_processor_config allocated f source_id revision config0 = (Ok, config) \<Longrightarrow>
     fpc_source_id config = source_id \<and> fpc_feature_id config = fe_feature_id f \<and>
     fpc_config_revision config = revision"
  by (auto simp: ftcat_compose_processor_config_def Let_def split: if_splits)

lemma create_processor_Ok:
  "ftreg_create_processor env f source_id configuration registry = (Ok, processor) \<Longrightarrow> processor \<noteq> None"
  by (auto simp: ftreg_create_processor_def Let_def split: if_splits factory_answer.splits prod.splits)

lemma famgr_start_result:
  assumes "famgr_start env registry f r = (state, reason, processor, stage)"
  shows "case stage of
      None \<Rightarrow> state \<in> {Fx_unsupported, Fx_faulted} \<and> reason \<noteq> Ok \<and> processor = None
    | Some st \<Rightarrow> state = Fx_ready \<and> reason = Ok \<and> processor \<noteq> None \<and> fstg_is_active st \<and>
        ftevt_validate_processor_config (fstg_config st) = Ok \<and>
        fpc_source_id (fstg_config st) = far_source_id r \<and>
        fpc_feature_id (fstg_config st) = fe_feature_id f"
proof -
  obtain created processor0 where create:
    "ftreg_create_processor (ave_factory env) f (far_source_id r) (far_configuration r) registry =
      (created, processor0)" by fastforce
  obtain composed config where compose:
    "ftcat_compose_processor_config (ave_allocated env) f (far_source_id r)
       (fcf_revision (far_configuration r))
       \<lparr>fpc_source_id = [], fpc_feature_id = [], fpc_config_revision = 0,
        fpc_max_events_per_update = 0, fpc_max_track_references_per_event = 0,
        fpc_max_fields_per_event = 0\<rparr> = (composed, config)" by fastforce
  show ?thesis
  proof (cases "created = Ok \<and> composed = Ok \<and> (\<exists>accepted. ave_stage env = Gave accepted \<and>
      fst (ftstg_activate accepted (ftstg_create config)) = Ok)")
    case True
    then obtain accepted where accepted: "ave_stage env = Gave accepted"
      and ok: "created = Ok" "composed = Ok" "fst (ftstg_activate accepted (ftstg_create config)) = Ok" by blast
    note active = activate_Ok [OF ok_pair [OF ok(3)]]
    have "processor = processor0" "stage = Some (snd (ftstg_activate accepted (ftstg_create config)))"
      "state = Fx_ready" "reason = Ok"
      using assms create compose accepted ok by (auto simp: famgr_start_def split_beta)
    then show ?thesis
      using create_processor_Ok [OF create [unfolded ok]] active compose_fields [OF compose [unfolded ok]]
      by (simp add: ftstg_create_def)
  next
    case False
    then show ?thesis using assms create compose
      by (auto simp: famgr_start_def split: if_splits factory_answer.splits prod.splits)
  qed
qed

lemma famgr_find_names:
  "famgr_find_feature m name = Some f \<Longrightarrow> fe_feature_id f = name"
  "famgr_find_source m name' = Some s \<Longrightarrow> sd_source_id s = name'"
  by (auto simp: famgr_find_feature_def famgr_find_source_def dest: find_SomeD split: option.splits)

lemma famgr_record_result:
  assumes "famgr_check_request m seen r = Ok"
  shows "far_record_ok m (famgr_record env registry m r)"
    and "fac_state (famgr_record env registry m r) = Fx_faulted \<Longrightarrow>
      fac_reason_code (famgr_record env registry m r) \<noteq> Ok"
proof -
  obtain source f where found: "famgr_find_source m (far_source_id r) = Some source"
    "famgr_find_feature m (far_feature_id r) = Some f"
    using assms by (auto simp: famgr_check_request_def early_return)
  note name = famgr_find_names(1) [OF found(2)]
  obtain state reason processor stage where resolve:
    "famgr_resolve env registry source f r = (state, reason, processor, stage)"
    by (metis prod_cases4)
  let ?gated = "far_desired_enabled r \<and> far_entitlement_granted r \<and> far_resource_admitted r \<and>
      famgr_source_has_models source f"
  have "far_record_ok m (famgr_record env registry m r) \<and>
    (fac_state (famgr_record env registry m r) = Fx_faulted \<longrightarrow>
      fac_reason_code (famgr_record env registry m r) \<noteq> Ok)"
  proof (cases ?gated)
    case False
    then have "stage = None \<and> processor = None \<and> state \<notin> {Fx_ready, Fx_faulted}"
      using resolve by (auto simp: famgr_resolve_def split: if_splits)
    then show ?thesis by (simp add: famgr_record_def far_record_ok_def found resolve)
  next
    case True
    then have "famgr_start env registry f r = (state, reason, processor, stage)"
      using resolve by (simp add: famgr_resolve_def)
    note start = famgr_start_result [OF this]
    have models: "fmd_model_id ` set (fe_model_dependencies f) \<subseteq> set (sd_model_ids source)"
      using True by (auto simp: famgr_source_has_models_def list_all_iff)
    show ?thesis using start True models found name
      by (cases stage) (auto simp: famgr_record_def far_record_ok_def resolve)
  qed
  then show "far_record_ok m (famgr_record env registry m r)"
    "fac_state (famgr_record env registry m r) = Fx_faulted \<Longrightarrow>
      fac_reason_code (famgr_record env registry m r) \<noteq> Ok" by blast+
qed

lemma far_record_ok_bound:
  assumes "fam_bound m' = fam_bound m"
  shows "far_record_ok m' r = far_record_ok m r"
proof -
  have "famgr_find_source m' = famgr_find_source m" "famgr_find_feature m' = famgr_find_feature m"
    using assms by (auto simp: famgr_find_source_def famgr_find_feature_def)
  then show ?thesis by (cases "fac_stage r") (simp_all add: far_record_ok_def)
qed

section \<open>Counting\<close>

definition tallies :: "feature_activation_snapshot \<Rightarrow> feature_effective_state list \<Rightarrow> bool" where
  "tallies s states \<longleftrightarrow> unat (fas_association_count s) = length states \<and>
     unat (fas_denied_count s) = count_list states Fx_denied \<and>
     unat (fas_unsupported_count s) = count_list states Fx_unsupported \<and>
     unat (fas_resource_limited_count s) = count_list states Fx_resource_limited \<and>
     unat (fas_ready_count s) = count_list states Fx_ready \<and>
     unat (fas_faulted_count s) = count_list states Fx_faulted"

lemma count_state_tallies:
  assumes "tallies s states" and "length states < 65535"
  shows "tallies (famgr_count_state state s) (states @ [state])"
proof -
  have small: "count_list states x < 65535" for x using assms(2) count_le_length [of states x] by linarith
  have suc: "unat (c + 1) = Suc (unat c)" if "unat c < 65535" for c :: u16
    using that by (intro unat_Suc_exact) (auto simp: unat_max)
  show ?thesis using assms small
    by (cases state) (simp_all add: famgr_count_state_def tallies_def suc)
qed

lemma fold_tallies:
  "tallies s states \<Longrightarrow> length states + length later < 65536 \<Longrightarrow>
     tallies (fold famgr_count_state later s) (states @ later)"
proof (induction later arbitrary: s states)
  case (Cons x later)
  have "tallies (famgr_count_state x s) (states @ [x])"
    using Cons.prems by (intro count_state_tallies) simp_all
  from Cons.IH [OF this] Cons.prems(2) show ?case by simp
qed simp

section \<open>Reconciling\<close>

definition famgr_accepts :: "feature_activation_manager \<Rightarrow> feature_activation_request list \<Rightarrow> bool" where
  "famgr_accepts m requests \<longleftrightarrow>
     fam_is_configured m \<and> fam_bound m \<noteq> None \<and> \<not> fam_is_frozen m \<and> requests \<noteq> [] \<and>
     length requests \<le> fal_max_associations \<and>
     validate_items (famgr_check_request m) [] requests = Ok"

lemma check_requests_Ok:
  assumes "validate_items (famgr_check_request m) [] requests = Ok"
  shows "\<And>i. i < length requests \<Longrightarrow> famgr_check_request m (take i requests) (requests ! i) = Ok"
    and "distinct (map (\<lambda>r. (far_source_id r, far_feature_id r)) requests)"
proof -
  show checks: "famgr_check_request m (take i requests) (requests ! i) = Ok" if "i < length requests" for i
    using assms that by (simp add: validate_items_Ok)
  have "\<forall>i < length requests. \<forall>p \<in> set (take i requests).
      (far_source_id p, far_feature_id p) \<noteq> (far_source_id (requests ! i), far_feature_id (requests ! i))"
    using checks by (fastforce simp: famgr_check_request_def early_return)
  then show "distinct (map (\<lambda>r. (far_source_id r, far_feature_id r)) requests)"
    unfolding no_earlier_key_distinct [of requests "\<lambda>r. (far_source_id r, far_feature_id r)"] .
qed

lemma famgr_reconcile_result:
  assumes "famgr_reconcile env requests registry m snapshot0 = (st, m', snapshot)"
  shows "if famgr_accepts m requests
    then length (fam_records m') = length requests \<and>
      (\<forall>i < length requests. fam_records m' ! i = famgr_record (env i) registry m (requests ! i)) \<and>
      m' = m\<lparr>fam_records := fam_records m'\<rparr> \<and> st = famgr_first_error (fam_records m') \<and>
      tallies snapshot (map fac_state (fam_records m'))
    else st \<noteq> Ok \<and> m' = m \<and> snapshot = snapshot0"
proof (cases "famgr_accepts m requests")
  case False
  then show ?thesis using assms
    by (auto simp: famgr_reconcile_def famgr_accepts_def split: if_splits option.splits)
next
  case True
  then obtain features models deployment where bound: "fam_bound m = Some (features, models, deployment)"
    by (auto simp: famgr_accepts_def)
  let ?records = "map (\<lambda>(i, r). famgr_record (env i) registry m r) (enumerate 0 requests)"
  let ?empty = "\<lparr>fas_feature_catalog_revision = ftc_revision features,
      fas_model_catalog_revision = ct_revision models,
      fas_deployment_revision = dc_revision deployment, fas_association_count = 0,
      fas_ready_count = 0, fas_denied_count = 0, fas_unsupported_count = 0,
      fas_resource_limited_count = 0, fas_faulted_count = 0\<rparr>"
  have result: "m' = m\<lparr>fam_records := ?records\<rparr>" "st = famgr_first_error ?records"
    "snapshot = fold famgr_count_state (map fac_state ?records) ?empty"
    using assms True bound by (auto simp: famgr_reconcile_def famgr_accepts_def Let_def)
  have "length requests < 65536"
    using True by (simp add: famgr_accepts_def fal_max_associations_def ftc_max_features_def dpl_max_sources_def)
  moreover have "tallies ?empty []" by (simp add: tallies_def)
  ultimately have "tallies snapshot (map fac_state ?records)"
    using fold_tallies [of ?empty "[]" "map fac_state ?records"] by (simp add: result(3))
  then show ?thesis using True by (simp add: result(1,2) nth_enumerate_eq)
qed

text \<open>The operations of the manager, in any order.\<close>

datatype activation_op =
    Bind feature_catalog model_catalog deployment_config
  | Reconcile "nat \<Rightarrow> activation_environment" "feature_activation_request list" feature_processor_registry
      feature_activation_snapshot
  | Freeze

fun famgr_step :: "activation_op \<Rightarrow> feature_activation_manager \<Rightarrow> feature_activation_manager" where
  "famgr_step (Bind features models deployment) m = snd (famgr_configure features models deployment m)"
| "famgr_step (Reconcile env requests registry snapshot) m =
     fst (snd (famgr_reconcile env requests registry m snapshot))"
| "famgr_step Freeze m = famgr_freeze m"

definition famgr_inv :: "feature_activation_manager \<Rightarrow> bool" where
  "famgr_inv m \<longleftrightarrow> (fam_is_configured m \<longleftrightarrow> fam_bound m \<noteq> None) \<and>
     (fam_bound m = None \<longrightarrow> fam_records m = []) \<and>
     list_all (far_record_ok m) (fam_records m) \<and>
     distinct (map (\<lambda>r. (fac_source_id r, fac_feature_id r)) (fam_records m))"

lemma famgr_initial_inv [simp]: "famgr_inv famgr_initial"
  by (simp add: famgr_inv_def famgr_initial_def)

lemma famgr_reconcile_inv:
  assumes inv: "famgr_inv m" and run: "famgr_reconcile env requests registry m snapshot0 = (st, m', snapshot)"
  shows "famgr_inv m'"
proof (cases "famgr_accepts m requests")
  case False
  then show ?thesis using famgr_reconcile_result [OF run] inv by simp
next
  case True
  then have result: "length (fam_records m') = length requests"
    "\<And>i. i < length requests \<Longrightarrow> fam_records m' ! i = famgr_record (env i) registry m (requests ! i)"
    "m' = m\<lparr>fam_records := fam_records m'\<rparr>"
    using famgr_reconcile_result [OF run] by simp_all
  have bound: "fam_bound m' = fam_bound m" "fam_is_configured m' = fam_is_configured m"
    by (subst result(3), simp)+
  have checks: "validate_items (famgr_check_request m) [] requests = Ok"
    using True by (simp add: famgr_accepts_def)
  note checked = check_requests_Ok [OF checks]
  have "far_record_ok m' (fam_records m' ! i)" if "i < length requests" for i
    unfolding far_record_ok_bound [OF bound(1)] result(2) [OF that]
    by (rule famgr_record_result(1) [OF checked(1) [OF that]])
  then have "list_all (far_record_ok m') (fam_records m')" by (simp add: list_all_length result(1))
  moreover have "map (\<lambda>r. (fac_source_id r, fac_feature_id r)) (fam_records m') =
      map (\<lambda>r. (far_source_id r, far_feature_id r)) requests"
    by (rule nth_equalityI) (simp_all add: result(1,2) famgr_record_def split_beta)
  ultimately show ?thesis
    using inv bound checked(2) True by (auto simp: famgr_inv_def famgr_accepts_def)
qed

lemma famgr_configure_inv:
  assumes "famgr_inv m"
  shows "famgr_inv (snd (famgr_configure features models deployment m))"
  using assms by (auto simp: famgr_configure_def famgr_inv_def Let_def)

lemma famgr_freeze_inv: "famgr_inv m \<Longrightarrow> famgr_inv (famgr_freeze m)"
  using far_record_ok_bound [of "famgr_freeze m" m]
  by (simp add: famgr_inv_def famgr_freeze_def fun_eq_iff list_all_iff)

lemma famgr_step_inv: "famgr_inv m \<Longrightarrow> famgr_inv (famgr_step op m)"
  using famgr_reconcile_inv
  by (cases op) (auto simp: famgr_configure_inv famgr_freeze_inv split_beta prod_eq_iff)

text \<open>Once frozen, nothing the manager lent out can be replaced.\<close>

definition lent_out :: "feature_activation_record list \<Rightarrow> feature_activation_manager \<Rightarrow> bool" where
  "lent_out records m \<longleftrightarrow> fam_is_frozen m \<and> fam_records m = records"

lemma famgr_step_lent: "lent_out records m \<Longrightarrow> lent_out records (famgr_step op m)"
  by (cases op) (auto simp: lent_out_def famgr_configure_def famgr_reconcile_def famgr_freeze_def Let_def)

interpretation famgr: latched_system famgr_step famgr_inv "lent_out records" for records
  by unfold_locales (auto simp: famgr_step_inv famgr_step_lent)

text \<open>
  C28. After any sequence of bindings, reconciles and freezes, with any factories and processors: a
  source and feature pair has at most one record, and a record owns a processor and a stage
  exactly when it is ready, which it is only if the pair was wanted, entitled and admitted, the
  source is deployed with every model the feature depends on, and the processor accepted the
  activation; the stage then enforces the identity of that very pair.
\<close>

theorem famgr_ready_only_gated:
  "let m = fold famgr_step ops famgr_initial
   in list_all (far_record_ok m) (fam_records m) \<and>
      distinct (map (\<lambda>r. (fac_source_id r, fac_feature_id r)) (fam_records m))"
proof -
  have "famgr_inv (fold famgr_step ops famgr_initial)" by (rule famgr.run_inv) simp
  then show ?thesis by (simp add: famgr_inv_def Let_def)
qed

text \<open>What was lent out when the manager was frozen is never replaced.\<close>

lemma famgr_frozen_records:
  assumes "famgr_inv m" and "fam_is_frozen m"
  shows "fam_records (fold famgr_step ops m) = fam_records m"
  using famgr.run_latched [OF assms(1), of "fam_records m" ops] assms(2) by (simp add: lent_out_def)

end
