(* ===== verification/Inference_Worker.thy ===== *)
theory Inference_Worker
  imports Model_Cadence "HOL-Library.Multiset"
begin

text \<open>
  The worker pool that runs blocking inference off the control thread:
  runtime/scheduler/vqec_vision_inference_worker.{hpp,cpp} (prefix \<open>inwrk\<close>). Every critical section of
  the code is a function on the object's state; \<open>worker_step\<close> and \<open>iw_step\<close> interleave the critical
  sections of the worker threads with the operations of the callers. The lemmas account for every
  accepted item, bound the queues, and show when a drain ends and when a start does not.
\<close>

section \<open>State\<close>

definition iwk_max_workers :: u16 where "iwk_max_workers = 8"
definition iwk_max_sources :: u16 where "iwk_max_sources = 16"
definition iwk_max_models :: u16 where "iwk_max_models = 16"
definition iwk_max_queue :: nat where "iwk_max_queue = 64"
definition iwk_max_completions :: nat where "iwk_max_completions = 128"

lemmas iwk_limits = iwk_max_workers_def iwk_max_sources_def iwk_max_models_def iwk_max_queue_def
  iwk_max_completions_def

record inference_work_item =
  wi_job_id :: u64
  wi_source_slot :: u16
  wi_model_slot :: u16
  wi_source_epoch :: u64
  wi_source_frame_id :: u64
  wi_enqueued_ns :: u64
  wi_deadline_ns :: u64
  wi_priority :: u16

record inference_work_result =
  wr_item :: inference_work_item
  wr_result :: status
  wr_cancelled :: bool
  wr_superseded :: bool
  wr_stale_epoch :: bool

record inference_worker_config =
  wc_worker_count :: u16
  wc_queue_capacity :: nat
  wc_completion_capacity :: nat

text \<open>A joinable thread of the pool is at its wait, in the executor, or has left \<open>worker_main\<close>.\<close>

datatype worker_thread = Waiting | Executing inference_work_item | Exited

text \<open>
  \<open>iw_threads\<close> holds the threads of \<open>workers_\<close>, also while a drain has moved them out to join them
  (\<open>iw_joining\<close>); \<open>iw_mutex_kept\<close> is set while a start that failed joins its threads, since \<open>start\<close>
  holds the mutex from its first line to its last.
\<close>

record inference_worker =
  iw_executor :: bool
  iw_threads :: "worker_thread list"
  iw_joining :: bool
  iw_mutex_kept :: bool
  iw_pending :: "inference_work_item list"
  iw_completions :: "inference_work_result list"
  iw_source_epochs :: "u64 list"
  iw_queue_capacity :: nat
  iw_completion_capacity :: nat
  iw_worker_count :: u16
  iw_submitted_total :: u64
  iw_completed_total :: u64
  iw_failed_total :: u64
  iw_rejected_total :: u64
  iw_superseded_total :: u64
  iw_cancelled_total :: u64
  iw_dropped_total :: u64
  iw_stale_total :: u64
  iw_is_started :: bool
  iw_is_stopping :: bool

definition inwrk_initial :: inference_worker where
  "inwrk_initial = \<lparr>iw_executor = False, iw_threads = [], iw_joining = False, iw_mutex_kept = False,
     iw_pending = [], iw_completions = [], iw_source_epochs = [], iw_queue_capacity = 0,
     iw_completion_capacity = 0, iw_worker_count = 0, iw_submitted_total = 0, iw_completed_total = 0,
     iw_failed_total = 0, iw_rejected_total = 0, iw_superseded_total = 0, iw_cancelled_total = 0,
     iw_dropped_total = 0, iw_stale_total = 0, iw_is_started = False, iw_is_stopping = False\<rparr>"

section \<open>Critical sections\<close>

definition inwrk_config_rejected :: "inference_worker_config \<Rightarrow> bool" where
  "inwrk_config_rejected c \<longleftrightarrow>
     wc_worker_count c = 0 \<or> wc_worker_count c > iwk_max_workers \<or>
     wc_queue_capacity c = 0 \<or> wc_queue_capacity c > iwk_max_queue \<or>
     wc_completion_capacity c = 0 \<or> wc_completion_capacity c > iwk_max_completions"

text \<open>What the catch block of \<open>start\<close> leaves once its threads are joined.\<close>

definition inwrk_roll_back :: "inference_worker \<Rightarrow> inference_worker" where
  "inwrk_roll_back w = w\<lparr>iw_threads := [], iw_executor := False, iw_is_started := False,
     iw_mutex_kept := False\<rparr>"

text \<open>
  \<open>launched\<close> is the number of threads that could be created. The returned status is \<open>None\<close> when
  \<open>start\<close> does not return in this step: it waits for the threads it launched, with the mutex held.
\<close>

definition inwrk_start ::
    "inference_worker_config \<Rightarrow> nat \<Rightarrow> inference_worker \<Rightarrow> status option \<times> inference_worker" where
  "inwrk_start c launched w =
     (if iw_is_started w then (Some Invalid_state, w)
      else if inwrk_config_rejected c then (Some Invalid_argument, w)
      else
        (let w1 = w\<lparr>iw_worker_count := wc_worker_count c, iw_queue_capacity := wc_queue_capacity c,
                    iw_completion_capacity := wc_completion_capacity c, iw_executor := True,
                    iw_source_epochs := replicate (unat iwk_max_sources) 0,
                    iw_is_started := True, iw_is_stopping := False\<rparr>
         in if unat (wc_worker_count c) \<le> launched
            then (Some Ok, w1\<lparr>iw_threads := replicate (unat (wc_worker_count c)) Waiting\<rparr>)
            else
              (let w2 = w1\<lparr>iw_is_stopping := True, iw_threads := replicate launched Waiting\<rparr>
               in if launched = 0 then (Some Resource_exhausted, inwrk_roll_back w2)
                  else (None, w2\<lparr>iw_mutex_kept := True\<rparr>))))"

definition inwrk_push_completion :: "inference_work_result \<Rightarrow> inference_worker \<Rightarrow> inference_worker" where
  "inwrk_push_completion r w =
     (let w1 = (if iw_completion_capacity w \<le> length (iw_completions w)
                then w\<lparr>iw_completions := drop 1 (iw_completions w),
                       iw_dropped_total := iw_dropped_total w + 1\<rparr>
                else w)
      in w1\<lparr>iw_completions := iw_completions w1 @ [r]\<rparr>)"

definition inwrk_result :: "inference_work_item \<Rightarrow> status \<Rightarrow> inference_work_result" where
  "inwrk_result item st = \<lparr>wr_item = item, wr_result = st, wr_cancelled = False, wr_superseded = False,
     wr_stale_epoch = False\<rparr>"

function inwrk_cancel_pending :: "inference_worker \<Rightarrow> inference_worker" where
  "inwrk_cancel_pending w =
     (case iw_pending w of
        [] \<Rightarrow> w
      | item # rest \<Rightarrow>
          (let w1 = inwrk_push_completion ((inwrk_result item Pending)\<lparr>wr_cancelled := True\<rparr>)
                      (w\<lparr>iw_pending := rest\<rparr>)
           in inwrk_cancel_pending (w1\<lparr>iw_cancelled_total := iw_cancelled_total w1 + 1\<rparr>)))"
  by pat_completeness auto

lemma push_completion_simps [simp]:
  "iw_pending (inwrk_push_completion r w) = iw_pending w"
  "iw_threads (inwrk_push_completion r w) = iw_threads w"
  "iw_joining (inwrk_push_completion r w) = iw_joining w"
  "iw_mutex_kept (inwrk_push_completion r w) = iw_mutex_kept w"
  "iw_is_started (inwrk_push_completion r w) = iw_is_started w"
  "iw_is_stopping (inwrk_push_completion r w) = iw_is_stopping w"
  "iw_queue_capacity (inwrk_push_completion r w) = iw_queue_capacity w"
  "iw_completion_capacity (inwrk_push_completion r w) = iw_completion_capacity w"
  "iw_source_epochs (inwrk_push_completion r w) = iw_source_epochs w"
  "iw_executor (inwrk_push_completion r w) = iw_executor w"
  "iw_submitted_total (inwrk_push_completion r w) = iw_submitted_total w"
  "iw_completed_total (inwrk_push_completion r w) = iw_completed_total w"
  "iw_failed_total (inwrk_push_completion r w) = iw_failed_total w"
  "iw_superseded_total (inwrk_push_completion r w) = iw_superseded_total w"
  "iw_cancelled_total (inwrk_push_completion r w) = iw_cancelled_total w"
  by (simp_all add: inwrk_push_completion_def Let_def)

termination inwrk_cancel_pending
  by (relation "measure (\<lambda>w. length (iw_pending w))") simp_all

text \<open>
  The waiting end of \<open>worker_main\<close>'s loop: \<open>None\<close> while the predicate of the condition variable is
  false, otherwise the item taken, or no item when the thread leaves.
\<close>

definition inwrk_wake :: "inference_worker \<Rightarrow> (inference_work_item option \<times> inference_worker) option" where
  "inwrk_wake w =
     (if \<not> (iw_is_stopping w \<or> iw_pending w \<noteq> []) then None
      else case iw_pending w of
        [] \<Rightarrow> Some (None, w)
      | item # rest \<Rightarrow> Some (Some item, w\<lparr>iw_pending := rest\<rparr>))"

datatype executor_answer = Answers status | Out_of_memory | Throws

fun inwrk_executed :: "executor_answer \<Rightarrow> status" where
  "inwrk_executed (Answers st) = st"
| "inwrk_executed Out_of_memory = Resource_exhausted"
| "inwrk_executed Throws = Io_error"

definition inwrk_finish :: "inference_work_item \<Rightarrow> executor_answer \<Rightarrow> inference_worker \<Rightarrow> inference_worker" where
  "inwrk_finish item answer w =
     (let executed = inwrk_executed answer;
          w1 = (if executed = Ok then w\<lparr>iw_completed_total := iw_completed_total w + 1\<rparr>
                else w\<lparr>iw_failed_total := iw_failed_total w + 1\<rparr>)
      in inwrk_push_completion (inwrk_result item executed) w1)"

definition inwrk_same_slot :: "inference_work_item \<Rightarrow> inference_work_item \<Rightarrow> bool" where
  "inwrk_same_slot a b \<longleftrightarrow> wi_source_slot b = wi_source_slot a \<and> wi_model_slot b = wi_model_slot a"

text \<open>The first pending item of the same slot, if any, gives way to the new one.\<close>

definition inwrk_supersede :: "inference_work_item \<Rightarrow> inference_worker \<Rightarrow> inference_worker" where
  "inwrk_supersede item w =
     (case dropWhile (\<lambda>p. \<not> inwrk_same_slot item p) (iw_pending w) of
        [] \<Rightarrow> w
      | old # rest \<Rightarrow>
          (let w1 = inwrk_push_completion ((inwrk_result old Pending)\<lparr>wr_superseded := True\<rparr>)
                 (w\<lparr>iw_pending := takeWhile (\<lambda>p. \<not> inwrk_same_slot item p) (iw_pending w) @ rest\<rparr>)
           in w1\<lparr>iw_superseded_total := iw_superseded_total w1 + 1\<rparr>))"

definition inwrk_submit ::
    "inference_work_item \<Rightarrow> model_dispatch_policy \<Rightarrow> inference_worker \<Rightarrow> status \<times> inference_worker" where
  "inwrk_submit item qos w =
     (if \<not> iw_is_started w then (Invalid_state, w)
      else if iw_is_stopping w then (Invalid_state, w)
      else if wi_job_id item = 0 \<or> wi_source_slot item \<ge> iwk_max_sources \<or>
          wi_model_slot item \<ge> iwk_max_models \<or> wi_source_epoch item = 0 then (Invalid_argument, w)
      else if qos = Must_process_once \<or> qos = Event_triggered then (Unsupported, w)
      else
        (let w1 = (if qos = Latest_wins \<or> qos = Replace_pending then inwrk_supersede item w else w)
         in if iw_queue_capacity w1 \<le> length (iw_pending w1)
            then (Resource_exhausted, w1\<lparr>iw_rejected_total := iw_rejected_total w1 + 1\<rparr>)
            else (Ok, w1\<lparr>iw_pending := iw_pending w1 @ [item],
                          iw_submitted_total := iw_submitted_total w1 + 1\<rparr>)))"

definition inwrk_is_stale :: "u64 list \<Rightarrow> inference_work_result \<Rightarrow> bool" where
  "inwrk_is_stale epochs r \<longleftrightarrow>
     (let slot = unat (wi_source_slot (wr_item r))
      in \<not> wr_cancelled r \<and> \<not> wr_superseded r \<and> slot < length epochs \<and> epochs ! slot \<noteq> 0 \<and>
         wi_source_epoch (wr_item r) \<noteq> epochs ! slot)"

definition inwrk_poll :: "inference_worker \<Rightarrow> status \<times> inference_worker \<times> inference_work_result option" where
  "inwrk_poll w =
     (case iw_completions w of
        [] \<Rightarrow> (Pending, w, None)
      | r # rest \<Rightarrow>
          (let w1 = w\<lparr>iw_completions := rest\<rparr>
           in if inwrk_is_stale (iw_source_epochs w) r
              then (Ok, w1\<lparr>iw_stale_total := iw_stale_total w + 1\<rparr>, Some (r\<lparr>wr_stale_epoch := True\<rparr>))
              else (Ok, w1, Some r)))"

definition inwrk_set_source_epoch :: "u16 \<Rightarrow> u64 \<Rightarrow> inference_worker \<Rightarrow> status \<times> inference_worker" where
  "inwrk_set_source_epoch slot epoch w =
     (if length (iw_source_epochs w) \<le> unat slot then (Invalid_argument, w)
      else if epoch = 0 \<or> epoch < iw_source_epochs w ! unat slot then (Invalid_argument, w)
      else (Ok, w\<lparr>iw_source_epochs := (iw_source_epochs w)[unat slot := epoch]\<rparr>))"

definition inwrk_request_stop :: "inference_worker \<Rightarrow> inference_worker" where
  "inwrk_request_stop w =
     (if \<not> iw_is_started w \<or> iw_is_stopping w then w
      else inwrk_cancel_pending (w\<lparr>iw_is_stopping := True\<rparr>))"

text \<open>\<open>drain\<close> up to the joining of the threads, and after it.\<close>

definition inwrk_drain_begin :: "inference_worker \<Rightarrow> inference_worker" where
  "inwrk_drain_begin w =
     (let w1 = (if iw_is_started w then w\<lparr>iw_is_stopping := True\<rparr> else w) in w1\<lparr>iw_joining := True\<rparr>)"

definition inwrk_drain_end :: "inference_worker \<Rightarrow> inference_worker" where
  "inwrk_drain_end w =
     (let w1 = (if iw_pending w \<noteq> [] then inwrk_cancel_pending w else w)
      in w1\<lparr>iw_threads := [], iw_joining := False, iw_is_started := False, iw_is_stopping := False,
             iw_executor := False\<rparr>)"

record inference_worker_snapshot =
  ws_worker_count :: u16
  ws_queue_capacity :: nat
  ws_queue_depth :: nat
  ws_completion_depth :: nat
  ws_submitted_total :: u64
  ws_completed_total :: u64
  ws_failed_total :: u64
  ws_rejected_total :: u64
  ws_superseded_total :: u64
  ws_cancelled_total :: u64
  ws_dropped_total :: u64
  ws_stale_total :: u64
  ws_is_started :: bool
  ws_is_stopping :: bool

definition inwrk_get_snapshot :: "inference_worker \<Rightarrow> inference_worker_snapshot" where
  "inwrk_get_snapshot w = \<lparr>ws_worker_count = iw_worker_count w, ws_queue_capacity = iw_queue_capacity w,
     ws_queue_depth = length (iw_pending w), ws_completion_depth = length (iw_completions w),
     ws_submitted_total = iw_submitted_total w, ws_completed_total = iw_completed_total w,
     ws_failed_total = iw_failed_total w, ws_rejected_total = iw_rejected_total w,
     ws_superseded_total = iw_superseded_total w, ws_cancelled_total = iw_cancelled_total w,
     ws_dropped_total = iw_dropped_total w, ws_stale_total = iw_stale_total w,
     ws_is_started = iw_is_started w, ws_is_stopping = iw_is_stopping w\<rparr>"

section \<open>Interleaving\<close>

text \<open>A step of one worker thread; every one of them needs the mutex.\<close>

inductive worker_step :: "inference_worker \<Rightarrow> inference_worker \<Rightarrow> bool" where
  take_item: "\<not> iw_mutex_kept w \<Longrightarrow> iw_threads w = a @ Waiting # b \<Longrightarrow> inwrk_wake w = Some (Some item, w') \<Longrightarrow>
    worker_step w (w'\<lparr>iw_threads := a @ Executing item # b\<rparr>)"
| leave: "\<not> iw_mutex_kept w \<Longrightarrow> iw_threads w = a @ Waiting # b \<Longrightarrow> inwrk_wake w = Some (None, w') \<Longrightarrow>
    worker_step w (w'\<lparr>iw_threads := a @ Exited # b\<rparr>)"
| finish: "\<not> iw_mutex_kept w \<Longrightarrow> iw_threads w = a @ Executing item # b \<Longrightarrow>
    worker_step w ((inwrk_finish item answer w)\<lparr>iw_threads := a @ Waiting # b\<rparr>)"

text \<open>
  The whole pool with what its callers have seen: the items \<open>submit\<close> accepted and those \<open>poll\<close>
  delivered. One thread at a time owns the life cycle (\<open>start\<close> and \<open>drain\<close>); a submission, a poll,
  an epoch and a stop request may come whenever the mutex is free.
\<close>

record worker_pool =
  wp_worker :: inference_worker
  wp_accepted :: "inference_work_item multiset"
  wp_delivered :: "inference_work_item multiset"

definition pool_initial :: worker_pool where
  "pool_initial = \<lparr>wp_worker = inwrk_initial, wp_accepted = {#}, wp_delivered = {#}\<rparr>"

definition all_exited :: "inference_worker \<Rightarrow> bool" where
  "all_exited w \<longleftrightarrow> list_all (\<lambda>t. t = Exited) (iw_threads w)"

inductive pool_step :: "worker_pool \<Rightarrow> worker_pool \<Rightarrow> bool" where
  work: "worker_step (wp_worker p) w' \<Longrightarrow> pool_step p (p\<lparr>wp_worker := w'\<rparr>)"
| start: "\<not> iw_mutex_kept (wp_worker p) \<Longrightarrow> \<not> iw_joining (wp_worker p) \<Longrightarrow>
    inwrk_start c launched (wp_worker p) = (st, w') \<Longrightarrow> pool_step p (p\<lparr>wp_worker := w'\<rparr>)"
| start_fails: "iw_mutex_kept (wp_worker p) \<Longrightarrow> all_exited (wp_worker p) \<Longrightarrow>
    pool_step p (p\<lparr>wp_worker := inwrk_roll_back (wp_worker p)\<rparr>)"
| submit: "\<not> iw_mutex_kept (wp_worker p) \<Longrightarrow> inwrk_submit item qos (wp_worker p) = (st, w') \<Longrightarrow>
    pool_step p (p\<lparr>wp_worker := w',
      wp_accepted := (if st = Ok then add_mset item (wp_accepted p) else wp_accepted p)\<rparr>)"
| poll: "\<not> iw_mutex_kept (wp_worker p) \<Longrightarrow> inwrk_poll (wp_worker p) = (st, w', Some r) \<Longrightarrow>
    pool_step p (p\<lparr>wp_worker := w', wp_delivered := add_mset (wr_item r) (wp_delivered p)\<rparr>)"
| epoch: "\<not> iw_mutex_kept (wp_worker p) \<Longrightarrow> inwrk_set_source_epoch slot e (wp_worker p) = (st, w') \<Longrightarrow>
    pool_step p (p\<lparr>wp_worker := w'\<rparr>)"
| request_stop: "\<not> iw_mutex_kept (wp_worker p) \<Longrightarrow>
    pool_step p (p\<lparr>wp_worker := inwrk_request_stop (wp_worker p)\<rparr>)"
| drain: "\<not> iw_mutex_kept (wp_worker p) \<Longrightarrow> \<not> iw_joining (wp_worker p) \<Longrightarrow>
    pool_step p (p\<lparr>wp_worker := inwrk_drain_begin (wp_worker p)\<rparr>)"
| drained: "\<not> iw_mutex_kept (wp_worker p) \<Longrightarrow> iw_joining (wp_worker p) \<Longrightarrow> all_exited (wp_worker p) \<Longrightarrow>
    pool_step p (p\<lparr>wp_worker := inwrk_drain_end (wp_worker p)\<rparr>)"

inductive pool_reach :: "worker_pool \<Rightarrow> bool" where
  initially: "pool_reach pool_initial"
| and_then: "pool_reach p \<Longrightarrow> pool_step p p' \<Longrightarrow> pool_reach p'"

inductive_cases worker_stepE: "worker_step w w'"
inductive_cases pool_stepE: "pool_step p p'"

section \<open>Accounting\<close>

fun executing_of :: "worker_thread \<Rightarrow> inference_work_item list" where
  "executing_of (Executing item) = [item]"
| "executing_of _ = []"

definition iw_executing :: "inference_worker \<Rightarrow> inference_work_item list" where
  "iw_executing w = concat (map executing_of (iw_threads w))"

text \<open>The items the pool still has: queued, in the executor, or finished and not yet polled.\<close>

definition iw_held :: "inference_worker \<Rightarrow> inference_work_item multiset" where
  "iw_held w = mset (iw_pending w) + mset (iw_executing w) + image_mset wr_item (mset (iw_completions w))"

text \<open>
  \<open>moves entering out w w'\<close>: from \<open>w\<close> to \<open>w'\<close> the items \<open>entering\<close> came in and \<open>out\<close> went to the caller;
  whatever else went missing is counted as dropped.
\<close>

definition moves ::
    "inference_work_item multiset \<Rightarrow> inference_work_item multiset \<Rightarrow> inference_worker \<Rightarrow>
       inference_worker \<Rightarrow> bool" where
  "moves entering out w w' \<longleftrightarrow>
     (\<exists>lost. iw_held w + entering = iw_held w' + out + lost \<and>
             iw_dropped_total w' = iw_dropped_total w + of_nat (size lost))"

lemma moves_nothing [intro]:
  "iw_held w' = iw_held w \<Longrightarrow> iw_dropped_total w' = iw_dropped_total w \<Longrightarrow> moves {#} {#} w w'"
  by (auto simp: moves_def)

lemma moves_trans:
  assumes "moves i out w w1" and "moves i' out' w1 w2"
  shows "moves (i + i') (out + out') w w2"
proof -
  obtain l l' where "iw_held w + i = iw_held w1 + out + l" "iw_held w1 + i' = iw_held w2 + out' + l'"
    "iw_dropped_total w2 = iw_dropped_total w + of_nat (size (l + l'))"
    using assms by (auto simp: moves_def algebra_simps)
  then have "iw_held w + (i + i') = iw_held w2 + (out + out') + (l + l')"
    by (metis add.assoc add.commute add.left_commute)
  with \<open>iw_dropped_total w2 = _\<close> show ?thesis unfolding moves_def by blast
qed

lemma push_moves:
  assumes "1 \<le> iw_completion_capacity w"
  shows "moves {#wr_item r#} {#} w (inwrk_push_completion r w)"
proof (cases "iw_completion_capacity w \<le> length (iw_completions w)")
  case True
  then obtain c cs where "iw_completions w = c # cs" using assms by (cases "iw_completions w") auto
  then show ?thesis using True
    by (auto simp: moves_def iw_held_def iw_executing_def inwrk_push_completion_def
        intro: exI [of _ "{#wr_item c#}"])
next
  case False
  then show ?thesis
    by (auto simp: moves_def iw_held_def iw_executing_def inwrk_push_completion_def)
qed

text \<open>An item that leaves the queue for the completions stays in the pool.\<close>

lemma push_after_removal:
  assumes "1 \<le> iw_completion_capacity w" and "iw_pending w = xs @ wr_item r # ys"
  shows "moves {#} {#} w (inwrk_push_completion r (w\<lparr>iw_pending := xs @ ys\<rparr>))"
proof -
  let ?w = "w\<lparr>iw_pending := xs @ ys\<rparr>"
  obtain lost where "iw_held ?w + {#wr_item r#} = iw_held (inwrk_push_completion r ?w) + lost"
    "iw_dropped_total (inwrk_push_completion r ?w) = iw_dropped_total w + of_nat (size lost)"
    using push_moves [of ?w r] assms(1) by (auto simp: moves_def)
  moreover have "iw_held ?w + {#wr_item r#} = iw_held w"
    using assms(2) by (simp add: iw_held_def iw_executing_def)
  ultimately show ?thesis unfolding moves_def by (intro exI [of _ lost]) simp
qed

lemma result_item [simp]: "wr_item (inwrk_result item st) = item"
  by (simp add: inwrk_result_def)

definition iw_settled :: "inference_worker \<Rightarrow> u64" where
  "iw_settled w = iw_completed_total w + iw_failed_total w + iw_superseded_total w + iw_cancelled_total w"

text \<open>Every submission is queued, in the executor, or counted under one outcome.\<close>

definition iw_balanced :: "inference_worker \<Rightarrow> bool" where
  "iw_balanced w \<longleftrightarrow>
     iw_submitted_total w = of_nat (length (iw_pending w) + length (iw_executing w)) + iw_settled w"

definition pool_accounted :: "worker_pool \<Rightarrow> bool" where
  "pool_accounted p \<longleftrightarrow>
     iw_balanced (wp_worker p) \<and>
     (\<exists>lost. wp_accepted p = iw_held (wp_worker p) + wp_delivered p + lost \<and>
             iw_dropped_total (wp_worker p) = of_nat (size lost) \<and>
             iw_submitted_total (wp_worker p) = of_nat (size (wp_accepted p)))"

section \<open>Invariant\<close>

definition iw_inv :: "inference_worker \<Rightarrow> bool" where
  "iw_inv w \<longleftrightarrow>
     length (iw_pending w) \<le> iw_queue_capacity w \<and> iw_queue_capacity w \<le> iwk_max_queue \<and>
     length (iw_completions w) \<le> iwk_max_completions \<and>
     iw_completion_capacity w \<le> iwk_max_completions \<and>
     length (iw_threads w) \<le> unat iwk_max_workers \<and>
     (iw_is_started w \<longrightarrow> 1 \<le> iw_completion_capacity w \<and> iw_threads w \<noteq> []) \<and>
     (\<not> iw_is_started w \<longrightarrow> iw_pending w = [] \<and> iw_threads w = []) \<and>
     (Exited \<in> set (iw_threads w) \<longrightarrow> iw_is_stopping w \<and> iw_pending w = []) \<and>
     (iw_joining w \<and> iw_is_started w \<longrightarrow> iw_is_stopping w) \<and>
     (iw_mutex_kept w \<longrightarrow> iw_is_started w \<and> iw_threads w \<noteq> [] \<and> set (iw_threads w) = {Waiting})"

lemma push_bounded:
  assumes "1 \<le> iw_completion_capacity w" "iw_completion_capacity w \<le> iwk_max_completions"
    and "length (iw_completions w) \<le> iwk_max_completions"
  shows "length (iw_completions (inwrk_push_completion r w)) \<le> iwk_max_completions"
  using assms by (auto simp: inwrk_push_completion_def Let_def)


text \<open>What an operation on a started pool keeps while it moves items to the completions.\<close>

definition iw_frame :: "inference_worker \<Rightarrow> inference_worker \<Rightarrow> bool" where
  "iw_frame w w' \<longleftrightarrow>
     iw_threads w' = iw_threads w \<and> iw_joining w' = iw_joining w \<and> iw_mutex_kept w' = iw_mutex_kept w \<and>
     iw_is_started w' = iw_is_started w \<and> iw_is_stopping w' = iw_is_stopping w \<and>
     iw_queue_capacity w' = iw_queue_capacity w \<and>
     iw_completion_capacity w' = iw_completion_capacity w \<and>
     iw_submitted_total w' = iw_submitted_total w \<and>
     (length (iw_completions w) \<le> iwk_max_completions \<longrightarrow> length (iw_completions w') \<le> iwk_max_completions)"

lemma iw_frame_trans: "iw_frame w w1 \<Longrightarrow> iw_frame w1 w2 \<Longrightarrow> iw_frame w w2"
  by (simp add: iw_frame_def)

lemma push_frame:
  assumes "1 \<le> iw_completion_capacity w" "iw_completion_capacity w \<le> iwk_max_completions"
  shows "iw_frame w ((inwrk_push_completion r (w\<lparr>iw_pending := xs\<rparr>))\<lparr>iw_cancelled_total := n\<rparr>)"
    and "iw_frame w ((inwrk_push_completion r (w\<lparr>iw_pending := xs\<rparr>))\<lparr>iw_superseded_total := n\<rparr>)"
  using push_bounded [of "w\<lparr>iw_pending := xs\<rparr>" r] assms by (simp_all add: iw_frame_def)

lemma moves_cong:
  assumes "moves i out w w1"
    and "iw_pending w2 = iw_pending w1" "iw_threads w2 = iw_threads w1"
    and "iw_completions w2 = iw_completions w1" "iw_dropped_total w2 = iw_dropped_total w1"
  shows "moves i out w w2"
  using assms by (simp add: moves_def iw_held_def iw_executing_def)

declare inwrk_cancel_pending.simps [simp del]

lemma cancel_pending_effect:
  assumes "1 \<le> iw_completion_capacity w" "iw_completion_capacity w \<le> iwk_max_completions"
  shows "iw_pending (inwrk_cancel_pending w) = [] \<and> iw_frame w (inwrk_cancel_pending w) \<and>
    moves {#} {#} w (inwrk_cancel_pending w) \<and>
    (iw_balanced w \<longrightarrow> iw_balanced (inwrk_cancel_pending w))"
  using assms
proof (induction w rule: inwrk_cancel_pending.induct)
  case (1 w)
  show ?case
  proof (cases "iw_pending w")
    case Nil
    then show ?thesis
      by (subst (1 2 3 4) inwrk_cancel_pending.simps) (auto simp: iw_frame_def)
  next
    case (Cons item rest)
    let ?r = "(inwrk_result item Pending)\<lparr>wr_cancelled := True\<rparr>"
    let ?p = "inwrk_push_completion ?r (w\<lparr>iw_pending := rest\<rparr>)"
    let ?w = "?p\<lparr>iw_cancelled_total := iw_cancelled_total ?p + 1\<rparr>"
    have step: "inwrk_cancel_pending w = inwrk_cancel_pending ?w"
      by (subst inwrk_cancel_pending.simps) (simp add: Cons Let_def)
    have frame: "iw_frame w ?w" using "1.prems" by (rule push_frame)
    have capacity: "1 \<le> iw_completion_capacity ?w" "iw_completion_capacity ?w \<le> iwk_max_completions"
      using "1.prems" by simp_all
    note rec = "1.IH" [OF Cons refl capacity]
    have "moves {#} {#} w ?p"
      using push_after_removal [OF "1.prems"(1), of "[]" ?r rest] Cons by simp
    then have moved: "moves {#} {#} w ?w" by (rule moves_cong) simp_all
    have balanced: "iw_balanced ?w" if "iw_balanced w"
      using that Cons by (simp add: iw_balanced_def iw_settled_def iw_executing_def)
    show ?thesis
      using rec balanced iw_frame_trans [OF frame] moves_trans [OF moved]
      by (simp add: step)
  qed
qed

lemmas cancel_pending_empty = cancel_pending_effect [THEN conjunct1]

lemma supersede_effect:
  assumes "1 \<le> iw_completion_capacity w" "iw_completion_capacity w \<le> iwk_max_completions"
  shows "iw_frame w (inwrk_supersede item w) \<and> moves {#} {#} w (inwrk_supersede item w) \<and>
    (iw_balanced w \<longrightarrow> iw_balanced (inwrk_supersede item w)) \<and>
    length (iw_pending (inwrk_supersede item w)) \<le> length (iw_pending w)"
proof (cases "dropWhile (\<lambda>p. \<not> inwrk_same_slot item p) (iw_pending w)")
  case Nil
  have "inwrk_supersede item w = w" unfolding inwrk_supersede_def Nil by simp
  then show ?thesis by (auto simp: iw_frame_def)
next
  case (Cons old rest)
  let ?kept = "takeWhile (\<lambda>p. \<not> inwrk_same_slot item p) (iw_pending w)"
  let ?r = "(inwrk_result old Pending)\<lparr>wr_superseded := True\<rparr>"
  let ?p = "inwrk_push_completion ?r (w\<lparr>iw_pending := ?kept @ rest\<rparr>)"
  let ?w = "?p\<lparr>iw_superseded_total := iw_superseded_total ?p + 1\<rparr>"
  have result: "inwrk_supersede item w = ?w" unfolding inwrk_supersede_def Cons by (simp add: Let_def)
  have split: "iw_pending w = ?kept @ old # rest" by (metis Cons takeWhile_dropWhile_id)
  have "moves {#} {#} w ?p" using push_after_removal [OF assms(1), of ?kept ?r rest] split by simp
  then have "moves {#} {#} w ?w" by (rule moves_cong) simp_all
  moreover have "iw_frame w ?w" using assms by (rule push_frame)
  moreover have size: "length (iw_pending w) = length (?kept @ rest) + 1"
    by (subst split) simp
  moreover have "iw_balanced ?w" if "iw_balanced w"
    using that size by (simp add: iw_balanced_def iw_settled_def iw_executing_def)
  ultimately show ?thesis by (simp add: result)
qed

text \<open>A submission that replaces a pending item always finds room.\<close>

lemma supersede_makes_room:
  assumes "list_ex (inwrk_same_slot item) (iw_pending w)"
  shows "length (iw_pending (inwrk_supersede item w)) < length (iw_pending w)"
proof -
  obtain old rest where tail: "dropWhile (\<lambda>p. \<not> inwrk_same_slot item p) (iw_pending w) = old # rest"
    using assms by (metis (mono_tags, lifting) dropWhile_eq_Nil_conv list.exhaust list_ex_iff)
  have "length (iw_pending w) =
      length (takeWhile (\<lambda>p. \<not> inwrk_same_slot item p) (iw_pending w) @ old # rest)"
    by (metis tail takeWhile_dropWhile_id)
  then show ?thesis by (simp add: inwrk_supersede_def tail Let_def)
qed


section \<open>Steps\<close>

lemma frame_inv:
  assumes inv: "iw_inv w" and frame: "iw_frame w w'"
    and pending: "length (iw_pending w') \<le> length (iw_pending w)"
  shows "iw_inv w'"
proof -
  have "iw_pending w = [] \<Longrightarrow> iw_pending w' = []" using pending by simp
  moreover have "length (iw_pending w') \<le> iw_queue_capacity w"
    using inv pending unfolding iw_inv_def by linarith
  moreover have "length (iw_completions w') \<le> iwk_max_completions"
    using inv frame unfolding iw_inv_def iw_frame_def by blast
  moreover have "iw_threads w' = iw_threads w" "iw_joining w' = iw_joining w"
    "iw_mutex_kept w' = iw_mutex_kept w" "iw_is_started w' = iw_is_started w"
    "iw_is_stopping w' = iw_is_stopping w" "iw_queue_capacity w' = iw_queue_capacity w"
    "iw_completion_capacity w' = iw_completion_capacity w"
    using frame unfolding iw_frame_def by blast+
  ultimately show ?thesis using inv unfolding iw_inv_def by metis
qed

definition advances ::
    "inference_work_item multiset \<Rightarrow> inference_work_item multiset \<Rightarrow> inference_worker \<Rightarrow>
       inference_worker \<Rightarrow> bool" where
  "advances entering out w w' \<longleftrightarrow>
     iw_inv w' \<and> moves entering out w w' \<and> (iw_balanced w \<longrightarrow> iw_balanced w') \<and>
     iw_submitted_total w' = iw_submitted_total w + of_nat (size entering)"

lemma advances_accounted:
  assumes "pool_accounted p" and "advances entering out (wp_worker p) w'"
  shows "pool_accounted (p\<lparr>wp_worker := w', wp_accepted := wp_accepted p + entering,
    wp_delivered := wp_delivered p + out\<rparr>)"
proof -
  obtain lost lost' where "wp_accepted p = iw_held (wp_worker p) + wp_delivered p + lost"
    "iw_dropped_total (wp_worker p) = of_nat (size lost)"
    "iw_submitted_total (wp_worker p) = of_nat (size (wp_accepted p))"
    "iw_held (wp_worker p) + entering = iw_held w' + out + lost'"
    "iw_dropped_total w' = iw_dropped_total (wp_worker p) + of_nat (size lost')"
    "iw_submitted_total w' = iw_submitted_total (wp_worker p) + of_nat (size entering)"
    "iw_balanced w'"
    using assms by (auto simp: pool_accounted_def advances_def moves_def)
  moreover from this have "wp_accepted p + entering = iw_held w' + (wp_delivered p + out) + (lost + lost')"
    by (metis add.assoc add.commute add.left_commute)
  ultimately show ?thesis unfolding pool_accounted_def
    by (simp add: algebra_simps) (rule exI [of _ "lost + lost'"], simp)
qed

lemma inv_capacity:
  assumes "iw_inv w" "iw_is_started w"
  shows "1 \<le> iw_completion_capacity w" "iw_completion_capacity w \<le> iwk_max_completions"
  using assms by (simp_all add: iw_inv_def)

lemma thread_in_started: "iw_inv w \<Longrightarrow> iw_threads w = a @ t # b \<Longrightarrow> iw_is_started w"
  by (auto simp: iw_inv_def)

lemma take_item_advances:
  assumes inv: "iw_inv w" and threads: "iw_threads w = a @ Waiting # b" and free: "\<not> iw_mutex_kept w"
    and wake: "inwrk_wake w = Some (Some item, w1)"
  shows "advances {#} {#} w (w1\<lparr>iw_threads := a @ Executing item # b\<rparr>)"
proof -
  obtain rest where pending: "iw_pending w = item # rest" and w1: "w1 = w\<lparr>iw_pending := rest\<rparr>"
    using wake by (auto simp: inwrk_wake_def split: if_splits list.splits)
  have "iw_inv (w1\<lparr>iw_threads := a @ Executing item # b\<rparr>)"
    using inv free by (auto simp: iw_inv_def w1 pending threads)
  moreover have "moves {#} {#} w (w1\<lparr>iw_threads := a @ Executing item # b\<rparr>)"
    by (rule moves_nothing) (simp_all add: iw_held_def iw_executing_def w1 pending threads)
  ultimately show ?thesis
    by (simp add: advances_def w1 pending threads iw_balanced_def iw_settled_def iw_executing_def)
qed

lemma leave_advances:
  assumes inv: "iw_inv w" and threads: "iw_threads w = a @ Waiting # b" and free: "\<not> iw_mutex_kept w"
    and wake: "inwrk_wake w = Some (None, w1)"
  shows "advances {#} {#} w (w1\<lparr>iw_threads := a @ Exited # b\<rparr>)"
proof -
  have pending: "iw_pending w = []" "iw_is_stopping w" and w1: "w1 = w"
    using wake by (auto simp: inwrk_wake_def split: if_splits list.splits)
  have "iw_inv (w\<lparr>iw_threads := a @ Exited # b\<rparr>)"
    using inv free by (auto simp: iw_inv_def pending threads)
  moreover have "moves {#} {#} w (w\<lparr>iw_threads := a @ Exited # b\<rparr>)"
    by (rule moves_nothing) (simp_all add: iw_held_def iw_executing_def threads)
  ultimately show ?thesis
    by (simp add: advances_def w1 threads iw_balanced_def iw_settled_def iw_executing_def)
qed

lemma finish_advances:
  assumes inv: "iw_inv w" and threads: "iw_threads w = a @ Executing item # b" and free: "\<not> iw_mutex_kept w"
  shows "advances {#} {#} w ((inwrk_finish item answer w)\<lparr>iw_threads := a @ Waiting # b\<rparr>)"
proof -
  note capacity = inv_capacity [OF inv thread_in_started [OF inv threads]]
  define r where "r = inwrk_result item (inwrk_executed answer)"
  define w0 where "w0 = (if inwrk_executed answer = Ok then w\<lparr>iw_completed_total := iw_completed_total w + 1\<rparr>
      else w\<lparr>iw_failed_total := iw_failed_total w + 1\<rparr>)\<lparr>iw_threads := a @ Waiting # b\<rparr>"
  have item: "wr_item r = item" by (simp add: r_def)
  have w0: "iw_threads w0 = a @ Waiting # b" "iw_pending w0 = iw_pending w"
    "iw_completions w0 = iw_completions w" "iw_completion_capacity w0 = iw_completion_capacity w"
    "iw_dropped_total w0 = iw_dropped_total w" "iw_submitted_total w0 = iw_submitted_total w"
    "iw_settled w0 = iw_settled w + 1" "iw_queue_capacity w0 = iw_queue_capacity w"
    "iw_is_started w0 = iw_is_started w" "iw_is_stopping w0 = iw_is_stopping w"
    "iw_joining w0 = iw_joining w" "iw_mutex_kept w0 = iw_mutex_kept w"
    by (simp_all add: w0_def iw_settled_def)
  have result: "(inwrk_finish item answer w)\<lparr>iw_threads := a @ Waiting # b\<rparr> = inwrk_push_completion r w0"
    by (simp add: inwrk_finish_def inwrk_push_completion_def Let_def w0_def r_def)
  have held: "iw_held w0 + {#item#} = iw_held w"
    by (simp add: iw_held_def iw_executing_def threads w0)
  have moved: "moves {#} {#} w (inwrk_push_completion r w0)"
    using push_moves [of w0 r] capacity(1) unfolding moves_def item held w0 by auto
  have bounded: "length (iw_completions (inwrk_push_completion r w0)) \<le> iwk_max_completions"
    by (rule push_bounded) (use capacity inv in \<open>simp_all add: iw_inv_def w0\<close>)
  have "iw_inv (inwrk_push_completion r w0)"
    using inv free bounded by (auto simp: iw_inv_def threads w0)
  moreover have "iw_settled (inwrk_push_completion r w0) = iw_settled w + 1"
    using w0(7) by (simp add: iw_settled_def)
  then have "iw_balanced (inwrk_push_completion r w0)" if "iw_balanced w"
    using that by (simp add: iw_balanced_def iw_executing_def threads w0)
  ultimately show ?thesis using moved by (simp add: advances_def result w0)
qed

lemma worker_step_advances:
  assumes "worker_step w w'" "iw_inv w"
  shows "advances {#} {#} w w'"
  using assms
  by (cases rule: worker_step.cases)
    (auto intro: take_item_advances leave_advances finish_advances)

lemma frame_advances:
  assumes "iw_inv w" "iw_frame w w'" "length (iw_pending w') \<le> length (iw_pending w)"
    and "moves {#} {#} w w'" "iw_balanced w \<longrightarrow> iw_balanced w'"
  shows "advances {#} {#} w w'"
  using assms frame_inv by (simp add: advances_def iw_frame_def)

lemma unchanged_advances: "iw_inv w \<Longrightarrow> advances {#} {#} w w"
  by (rule frame_advances) (auto simp: iw_frame_def)

lemma running_inv:
  assumes "iw_inv w" "iw_is_started w" "\<not> iw_is_stopping w" "length xs \<le> iw_queue_capacity w"
  shows "iw_inv (w\<lparr>iw_pending := xs, iw_submitted_total := n\<rparr>)"
  using assms by (simp add: iw_inv_def)

lemma submit_advances:
  assumes inv: "iw_inv w" and submit: "inwrk_submit item qos w = (st, w')"
  shows "advances (if st = Ok then {#item#} else {#}) {#} w w'"
proof (cases "iw_is_started w")
  case True
  note replaced = supersede_effect [OF inv_capacity [OF inv True], of item]
  define w1 where "w1 = (if qos = Latest_wins \<or> qos = Replace_pending then inwrk_supersede item w else w)"
  have w1: "advances {#} {#} w w1"
    using frame_advances [OF inv] replaced unchanged_advances [OF inv] by (simp add: w1_def)
  have stopping: "iw_is_stopping w1 = iw_is_stopping w"
    using replaced by (simp add: w1_def iw_frame_def)
  consider "st \<noteq> Ok" "w' = w" | "st \<noteq> Ok" "w' = w1\<lparr>iw_rejected_total := iw_rejected_total w1 + 1\<rparr>"
    | "st = Ok" "\<not> iw_is_stopping w1" "length (iw_pending w1) < iw_queue_capacity w1"
      "w' = w1\<lparr>iw_pending := iw_pending w1 @ [item], iw_submitted_total := iw_submitted_total w1 + 1\<rparr>"
  proof (cases "iw_is_stopping w \<or> wi_job_id item = 0 \<or> wi_source_slot item \<ge> iwk_max_sources \<or>
      wi_model_slot item \<ge> iwk_max_models \<or> wi_source_epoch item = 0 \<or>
      qos = Must_process_once \<or> qos = Event_triggered")
    case True
    then have "st \<noteq> Ok \<and> w' = w" using submit by (simp add: inwrk_submit_def split: if_splits)
    then show ?thesis using that(1) by blast
  next
    case False
    then have "(st, w') =
        (if iw_queue_capacity w1 \<le> length (iw_pending w1)
         then (Resource_exhausted, w1\<lparr>iw_rejected_total := iw_rejected_total w1 + 1\<rparr>)
         else (Ok, w1\<lparr>iw_pending := iw_pending w1 @ [item], iw_submitted_total := iw_submitted_total w1 + 1\<rparr>))"
      using submit \<open>iw_is_started w\<close>
      unfolding inwrk_submit_def w1_def [symmetric] Let_def by (simp only: de_Morgan_disj not_not if_False simp_thms)
    then show ?thesis using False stopping that(2,3) by (simp split: if_splits)
  qed
  then show ?thesis
  proof cases
    case 1
    then show ?thesis using unchanged_advances [OF inv] by simp
  next
    case 2
    have "moves {#} {#} w w'" using w1 2 by (auto simp: advances_def intro: moves_cong)
    moreover have "iw_inv w'"
      by (rule frame_inv [of w1]) (use w1 in \<open>simp_all add: 2 iw_frame_def advances_def\<close>)
    moreover have "iw_balanced w' = iw_balanced w1"
      by (simp add: 2 iw_balanced_def iw_settled_def iw_executing_def)
    ultimately show ?thesis using w1 2 by (simp add: advances_def)
  next
    case 3
    obtain lost where "iw_held w = iw_held w1 + lost" "iw_dropped_total w1 = iw_dropped_total w + of_nat (size lost)"
      using w1 by (auto simp: advances_def moves_def)
    then have "moves {#item#} {#} w w'" unfolding moves_def 3(4)
      by (intro exI [of _ lost]) (simp add: iw_held_def iw_executing_def)
    moreover have "iw_inv w1" "iw_is_started w1"
      using w1 replaced True by (simp_all add: advances_def iw_frame_def w1_def)
    then have "iw_inv w'" using 3 by (simp add: running_inv)
    moreover have "iw_balanced w1 \<Longrightarrow> iw_balanced w'"
      by (simp add: 3 iw_balanced_def iw_settled_def iw_executing_def)
    ultimately show ?thesis using w1 3 by (simp add: advances_def)
  qed
next
  case False
  then show ?thesis using submit unchanged_advances [OF inv] by (auto simp: inwrk_submit_def)
qed


lemma stopped_inv:
  assumes "iw_inv w"
  shows "iw_inv (w\<lparr>iw_is_stopping := iw_is_started w \<or> iw_is_stopping w\<rparr>)"
    and "iw_inv (w\<lparr>iw_is_stopping := iw_is_started w \<or> iw_is_stopping w, iw_joining := True\<rparr>)"
  using assms unfolding iw_inv_def by auto

lemma advances_from:
  assumes "iw_held w0 = iw_held w" "iw_balanced w0 = iw_balanced w"
    and "iw_dropped_total w0 = iw_dropped_total w" "iw_submitted_total w0 = iw_submitted_total w"
    and "advances entering out w0 w'"
  shows "advances entering out w w'"
  using assms by (simp add: advances_def moves_def)

lemma request_stop_advances:
  assumes inv: "iw_inv w"
  shows "advances {#} {#} w (inwrk_request_stop w)"
proof (cases "\<not> iw_is_started w \<or> iw_is_stopping w")
  case True
  then show ?thesis using unchanged_advances [OF inv] by (simp add: inwrk_request_stop_def)
next
  case False
  let ?w = "w\<lparr>iw_is_stopping := True\<rparr>"
  have inv1: "iw_inv ?w" using stopped_inv(1) [OF inv] False by simp
  note cancelled = cancel_pending_effect [of ?w]
  have "advances {#} {#} ?w (inwrk_cancel_pending ?w)"
    using cancelled inv_capacity [OF inv1] False by (intro frame_advances [OF inv1]) auto
  then have "advances {#} {#} w (inwrk_cancel_pending ?w)"
    by (rule advances_from [rotated 4])
      (simp_all add: iw_held_def iw_executing_def iw_balanced_def iw_settled_def)
  then show ?thesis using False by (simp add: inwrk_request_stop_def)
qed

lemma poll_advances:
  assumes inv: "iw_inv w" and poll: "inwrk_poll w = (st, w', Some r)"
  shows "advances {#} {#wr_item r#} w w'"
proof -
  obtain c rest where completions: "iw_completions w = c # rest"
    using poll by (cases "iw_completions w") (auto simp: inwrk_poll_def)
  then have item: "wr_item r = wr_item c"
    and w': "w' = w\<lparr>iw_completions := rest\<rparr> \<or>
      w' = w\<lparr>iw_completions := rest, iw_stale_total := iw_stale_total w + 1\<rparr>"
    using poll by (auto simp: inwrk_poll_def Let_def split: if_splits)
  from w' have keeps: "iw_frame w w'" "iw_held w = iw_held w' + {#wr_item r#}"
    "iw_balanced w' = iw_balanced w" "iw_dropped_total w' = iw_dropped_total w"
    "iw_pending w' = iw_pending w" "iw_submitted_total w' = iw_submitted_total w"
    by (elim disjE; simp add: iw_frame_def iw_held_def iw_balanced_def iw_settled_def iw_executing_def
        completions item)+
  have "moves {#} {#wr_item r#} w w'" by (simp add: moves_def keeps)
  moreover have "iw_inv w'" by (rule frame_inv [OF inv keeps(1)]) (simp add: keeps)
  ultimately show ?thesis by (simp add: advances_def keeps)
qed

lemma epoch_advances:
  assumes inv: "iw_inv w" and set: "inwrk_set_source_epoch slot e w = (st, w')"
  shows "advances {#} {#} w w'"
proof -
  have "w' = w \<or> w' = w\<lparr>iw_source_epochs := (iw_source_epochs w)[unat slot := e]\<rparr>"
    using set by (auto simp: inwrk_set_source_epoch_def split: if_splits)
  then have keeps: "iw_frame w w'" "iw_held w' = iw_held w" "iw_balanced w' = iw_balanced w"
    "iw_dropped_total w' = iw_dropped_total w" "iw_pending w' = iw_pending w"
    by (elim disjE; simp add: iw_frame_def iw_held_def iw_balanced_def iw_settled_def iw_executing_def)+
  show ?thesis by (rule frame_advances [OF inv keeps(1)]) (auto simp: keeps)
qed

lemma drain_begin_advances:
  assumes inv: "iw_inv w"
  shows "advances {#} {#} w (inwrk_drain_begin w)"
proof -
  have result: "inwrk_drain_begin w =
      w\<lparr>iw_is_stopping := iw_is_started w \<or> iw_is_stopping w, iw_joining := True\<rparr>"
    by (simp add: inwrk_drain_begin_def)
  have "iw_inv (inwrk_drain_begin w)" unfolding result by (rule stopped_inv(2) [OF inv])
  moreover have "moves {#} {#} w (inwrk_drain_begin w)"
    by (rule moves_nothing) (simp_all add: result iw_held_def iw_executing_def)
  moreover have "iw_balanced (inwrk_drain_begin w) = iw_balanced w"
    by (simp add: result iw_balanced_def iw_settled_def iw_executing_def)
  ultimately show ?thesis by (simp add: advances_def result)
qed

text \<open>Once every thread has left, nothing is queued: the final sweep of \<open>drain\<close> finds nothing to cancel.\<close>

lemma nothing_left:
  assumes inv: "iw_inv w" and exited: "all_exited w"
  shows "iw_pending w = []" and "iw_executing w = []"
proof -
  show "iw_pending w = []"
  proof (cases "iw_threads w")
    case Nil
    then show ?thesis using inv by (auto simp: iw_inv_def)
  next
    case (Cons t ts)
    then have "Exited \<in> set (iw_threads w)" using exited by (simp add: all_exited_def)
    then show ?thesis using inv by (simp add: iw_inv_def)
  qed
  have "map executing_of (iw_threads w) = map (\<lambda>_. []) (iw_threads w)"
    using exited by (auto simp: all_exited_def list_all_iff)
  then show "iw_executing w = []" by (simp add: iw_executing_def)
qed

lemma drain_end_advances:
  assumes inv: "iw_inv w" and free: "\<not> iw_mutex_kept w" and exited: "all_exited w"
  shows "advances {#} {#} w (inwrk_drain_end w)"
proof -
  note left = nothing_left [OF inv exited]
  have result: "inwrk_drain_end w = w\<lparr>iw_threads := [], iw_joining := False, iw_is_started := False,
      iw_is_stopping := False, iw_executor := False\<rparr>"
    by (simp add: inwrk_drain_end_def left)
  have "iw_inv (inwrk_drain_end w)" unfolding result using inv free left(1) by (simp add: iw_inv_def)
  moreover have "iw_executing (inwrk_drain_end w) = []" by (simp add: result iw_executing_def)
  then have "iw_held (inwrk_drain_end w) = iw_held w" "iw_balanced (inwrk_drain_end w) = iw_balanced w"
    using left by (simp_all add: iw_held_def iw_balanced_def iw_settled_def result)
  then have "moves {#} {#} w (inwrk_drain_end w)" "iw_balanced (inwrk_drain_end w) = iw_balanced w"
    by (auto simp: result)
  ultimately show ?thesis by (simp add: advances_def result)
qed

lemma start_advances:
  assumes inv: "iw_inv w" and free: "\<not> iw_mutex_kept w" "\<not> iw_joining w"
    and start: "inwrk_start c launched w = (st, w')"
  shows "advances {#} {#} w w'"
proof (cases "iw_is_started w \<or> inwrk_config_rejected c")
  case True
  then have "w' = w" using start by (cases "iw_is_started w") (auto simp: inwrk_start_def)
  then show ?thesis using unchanged_advances [OF inv] by simp
next
  case False
  then have empty: "iw_pending w = []" "iw_threads w = []" using inv by (simp_all add: iw_inv_def)
  have config: "1 \<le> wc_queue_capacity c" "wc_queue_capacity c \<le> iwk_max_queue" "1 \<le> wc_completion_capacity c"
    "wc_completion_capacity c \<le> iwk_max_completions" "unat (wc_worker_count c) \<le> unat iwk_max_workers"
    "unat (wc_worker_count c) \<noteq> 0"
    using False by (auto simp: inwrk_config_rejected_def not_less word_le_nat_alt unat_eq_0)
  have executing: "map executing_of (replicate n Waiting) = replicate n []" for n by simp
  note kept = inv [unfolded iw_inv_def] free empty config
  have "iw_inv w'"
    using start False kept
    by (auto simp: inwrk_start_def iw_inv_def Let_def inwrk_roll_back_def split: if_splits)
  moreover have "moves {#} {#} w w' \<and> (iw_balanced w \<longrightarrow> iw_balanced w') \<and>
      iw_submitted_total w' = iw_submitted_total w"
    using start False empty
    by (auto simp: inwrk_start_def Let_def inwrk_roll_back_def iw_held_def iw_executing_def
        iw_balanced_def iw_settled_def concat_replicate_trivial split: if_splits)
  ultimately show ?thesis by (simp add: advances_def)
qed


lemma initial_ok: "iw_inv inwrk_initial" "pool_accounted pool_initial"
  by (simp_all add: iw_inv_def pool_accounted_def pool_initial_def inwrk_initial_def iwk_limits
      iw_held_def iw_executing_def iw_balanced_def iw_settled_def)

lemma kept_mutex_blocks:
  assumes "iw_inv w" "iw_mutex_kept w"
  shows "\<not> all_exited w"
proof -
  have "set (iw_threads w) = {Waiting}" using assms unfolding iw_inv_def by blast
  then show ?thesis by (auto simp: all_exited_def list_all_iff)
qed

definition pool_moves :: "worker_pool \<Rightarrow> worker_pool \<Rightarrow> bool" where
  "pool_moves p p' \<longleftrightarrow> (\<exists>entering out w'. advances entering out (wp_worker p) w' \<and>
     p' = p\<lparr>wp_worker := w', wp_accepted := wp_accepted p + entering, wp_delivered := wp_delivered p + out\<rparr>)"

lemma pool_movesI:
  "advances entering out (wp_worker p) w' \<Longrightarrow>
     pool_moves p (p\<lparr>wp_worker := w', wp_accepted := wp_accepted p + entering,
       wp_delivered := wp_delivered p + out\<rparr>)"
  unfolding pool_moves_def by blast

lemma pool_moves_inside: "advances {#} {#} (wp_worker p) w' \<Longrightarrow> pool_moves p (p\<lparr>wp_worker := w'\<rparr>)"
  using pool_movesI [of "{#}" "{#}"] by simp

lemma pool_step_moves:
  assumes "pool_step p p'" and inv: "iw_inv (wp_worker p)"
  shows "pool_moves p p'"
  using assms(1)
proof cases
  case (work w')
  show ?thesis unfolding work(1) by (rule pool_moves_inside worker_step_advances work(2) inv)+
next
  case (start c launched st w')
  show ?thesis unfolding start(1) by (rule pool_moves_inside start_advances start inv)+
next
  case start_fails
  then show ?thesis using kept_mutex_blocks [OF inv] by simp
next
  case (submit item qos st w')
  show ?thesis unfolding submit(1)
    using pool_movesI [OF submit_advances [OF inv submit(3)]] by (cases "st = Ok") simp_all
next
  case (poll st w' r)
  show ?thesis unfolding poll(1) using pool_movesI [OF poll_advances [OF inv poll(3)]] by simp
next
  case (epoch slot e st w')
  show ?thesis unfolding epoch(1) by (rule pool_moves_inside epoch_advances epoch inv)+
next
  case request_stop
  show ?thesis unfolding request_stop(1) by (rule pool_moves_inside request_stop_advances inv)+
next
  case drain
  show ?thesis unfolding drain(1) by (rule pool_moves_inside drain_begin_advances inv)+
next
  case drained
  show ?thesis unfolding drained(1) by (rule pool_moves_inside drain_end_advances drained inv)+
qed

lemma reach_ok: "pool_reach p \<Longrightarrow> iw_inv (wp_worker p) \<and> pool_accounted p"
proof (induction rule: pool_reach.induct)
  case initially
  then show ?case using initial_ok by (simp add: pool_initial_def)
next
  case (and_then p p')
  then have "pool_moves p p'" using pool_step_moves by blast
  then obtain entering out w' where step: "advances entering out (wp_worker p) w'"
    "p' = p\<lparr>wp_worker := w', wp_accepted := wp_accepted p + entering, wp_delivered := wp_delivered p + out\<rparr>"
    unfolding pool_moves_def by blast
  then show ?case using advances_accounted [OF _ step(1)] and_then.IH
    by (simp add: advances_def)
qed

section \<open>Draining\<close>

fun thread_work :: "worker_thread \<Rightarrow> nat" where
  "thread_work Waiting = 1"
| "thread_work (Executing item) = 2"
| "thread_work Exited = 0"

text \<open>A bound on the steps the threads can still make once nothing more is accepted.\<close>

definition work_left :: "inference_worker \<Rightarrow> nat" where
  "work_left w = 2 * length (iw_pending w) + sum_list (map thread_work (iw_threads w))"

lemma worker_step_work:
  assumes "worker_step w w'"
  shows "work_left w' < work_left w" and "iw_joining w' = iw_joining w"
    and "iw_mutex_kept w' = iw_mutex_kept w"
proof -
  have finish_pending: "iw_pending (inwrk_finish item answer v) = iw_pending v"
    "iw_joining (inwrk_finish item answer v) = iw_joining v"
    "iw_mutex_kept (inwrk_finish item answer v) = iw_mutex_kept v" for item answer v
    by (simp_all add: inwrk_finish_def Let_def)
  show "work_left w' < work_left w" "iw_joining w' = iw_joining w" "iw_mutex_kept w' = iw_mutex_kept w"
    using assms
    by (cases rule: worker_step.cases;
        auto simp: work_left_def inwrk_wake_def finish_pending split: if_splits list.splits)+
qed

text \<open>While a thread is inside \<open>worker_main\<close> and the pool is stopping, some thread can go on.\<close>

lemma worker_progress:
  assumes free: "\<not> iw_mutex_kept w" and stopping: "iw_is_stopping w" and busy: "\<not> all_exited w"
  shows "\<exists>w'. worker_step w w'"
proof -
  obtain t where t: "t \<in> set (iw_threads w)" "t \<noteq> Exited" using busy by (auto simp: all_exited_def list_all_iff)
  then obtain a b where split: "iw_threads w = a @ t # b" by (auto simp: in_set_conv_decomp)
  show ?thesis
  proof (cases t)
    case Waiting
    show ?thesis
    proof (cases "iw_pending w")
      case Nil
      then have "inwrk_wake w = Some (None, w)" using stopping by (simp add: inwrk_wake_def)
      then show ?thesis using leave [OF free] split Waiting by blast
    next
      case (Cons item rest)
      then have "inwrk_wake w = Some (Some item, w\<lparr>iw_pending := rest\<rparr>)" by (simp add: inwrk_wake_def)
      then show ?thesis using take_item [OF free] split Waiting by blast
    qed
  next
    case (Executing item)
    then show ?thesis using finish [OF free] split by blast
  qed (use t in simp)
qed

text \<open>
  \<open>drain_run n p q\<close>: while \<open>drain\<close> joins, the pool goes from \<open>p\<close> to \<open>q\<close> with at least \<open>n\<close> steps of its
  threads; the callers may submit, poll and ask for a stop in between.
\<close>

inductive drain_run :: "nat \<Rightarrow> worker_pool \<Rightarrow> worker_pool \<Rightarrow> bool" where
  here: "drain_run 0 p p"
| by_thread: "drain_run n p q \<Longrightarrow> worker_step (wp_worker q) w' \<Longrightarrow> drain_run (Suc n) p (q\<lparr>wp_worker := w'\<rparr>)"
| by_caller: "drain_run n p q \<Longrightarrow> pool_step q r \<Longrightarrow> iw_joining (wp_worker r) \<Longrightarrow> drain_run n p r"


lemma cancel_pending_keeps:
  "iw_threads (inwrk_cancel_pending w) = iw_threads w \<and> iw_joining (inwrk_cancel_pending w) = iw_joining w \<and>
   iw_is_started (inwrk_cancel_pending w) = iw_is_started w"
proof (induction w rule: inwrk_cancel_pending.induct)
  case (1 w)
  then show ?case
    by (subst (1 2 3) inwrk_cancel_pending.simps) (auto simp: Let_def split: list.split)
qed

text \<open>Nothing the callers do while a drain joins gives the threads more to do.\<close>

lemma pool_step_work:
  assumes "pool_step p q" and inv: "iw_inv (wp_worker p)"
    and joining: "iw_joining (wp_worker p)" "iw_joining (wp_worker q)"
  shows "work_left (wp_worker q) \<le> work_left (wp_worker p)"
  using assms(1)
proof cases
  case (work w')
  then show ?thesis using worker_step_work(1) by (auto intro: less_imp_le)
next
  case start_fails
  then show ?thesis using kept_mutex_blocks [OF inv] by simp
next
  case (submit item qos st w')
  have "iw_is_started (wp_worker p) \<Longrightarrow> iw_is_stopping (wp_worker p)"
    using inv joining by (simp add: iw_inv_def)
  then have "w' = wp_worker p" using submit by (auto simp: inwrk_submit_def split: if_splits)
  then show ?thesis using submit by simp
next
  case (poll st w' r)
  then show ?thesis
    by (auto simp: inwrk_poll_def Let_def work_left_def split: list.splits if_splits)
next
  case (epoch slot e st w')
  then show ?thesis by (auto simp: inwrk_set_source_epoch_def work_left_def split: if_splits)
next
  case request_stop
  then show ?thesis
    using inv joining by (auto simp: inwrk_request_stop_def iw_inv_def)
next
  case drained
  then show ?thesis using joining by (simp add: inwrk_drain_end_def)
qed (use joining in auto)

lemma joining_kept_free: "iw_inv w \<Longrightarrow> iw_mutex_kept w \<Longrightarrow> iw_threads w \<noteq> [] \<and> set (iw_threads w) = {Waiting}"
  by (simp add: iw_inv_def)

text \<open>A drain only joins while no failed start is in progress.\<close>

definition joins_free :: "inference_worker \<Rightarrow> bool" where
  "joins_free w \<longleftrightarrow> \<not> (iw_joining w \<and> iw_mutex_kept w)"

lemma cancel_pending_mutex: "iw_mutex_kept (inwrk_cancel_pending w) = iw_mutex_kept w"
proof (induction w rule: inwrk_cancel_pending.induct)
  case (1 w)
  then show ?case by (subst inwrk_cancel_pending.simps) (auto simp: Let_def split: list.split)
qed

lemma supersede_keeps:
  "iw_joining (inwrk_supersede item w) = iw_joining w \<and>
   iw_mutex_kept (inwrk_supersede item w) = iw_mutex_kept w"
  by (simp add: inwrk_supersede_def Let_def split: list.split)

lemma submit_keeps:
  assumes "inwrk_submit item qos w = (st, w')"
  shows "iw_mutex_kept w' = iw_mutex_kept w"
  using assms supersede_keeps by (auto simp: inwrk_submit_def Let_def split: if_splits)

lemma pool_step_free:
  assumes "pool_step p q" and inv: "iw_inv (wp_worker p)" and free: "joins_free (wp_worker p)"
  shows "joins_free (wp_worker q)"
  using assms(1)
proof cases
  case (work w')
  then show ?thesis using worker_step_work free by (simp add: joins_free_def)
next
  case (start c launched st w')
  then show ?thesis
    by (auto simp: joins_free_def inwrk_start_def inwrk_roll_back_def Let_def split: if_splits)
next
  case start_fails
  then show ?thesis using kept_mutex_blocks [OF inv] by simp
next
  case (submit item qos st w')
  then show ?thesis using submit_keeps [OF submit(3)] by (simp add: joins_free_def)
next
  case (poll st w' r)
  then show ?thesis
    by (auto simp: joins_free_def inwrk_poll_def Let_def split: list.splits if_splits)
next
  case (epoch slot e st w')
  then show ?thesis by (auto simp: joins_free_def inwrk_set_source_epoch_def split: if_splits)
next
  case request_stop
  then show ?thesis by (simp add: joins_free_def inwrk_request_stop_def cancel_pending_mutex)
next
  case drain
  then show ?thesis by (simp add: joins_free_def inwrk_drain_begin_def Let_def)
next
  case drained
  then show ?thesis by (simp add: joins_free_def inwrk_drain_end_def Let_def)
qed

lemma reach_free: "pool_reach p \<Longrightarrow> joins_free (wp_worker p)"
proof (induction rule: pool_reach.induct)
  case initially
  then show ?case by (simp add: joins_free_def pool_initial_def inwrk_initial_def)
next
  case (and_then p p')
  then show ?case using pool_step_free reach_ok by blast
qed

lemma drain_run_work:
  assumes "drain_run n p q" "pool_reach p" "iw_joining (wp_worker p)"
  shows "n + work_left (wp_worker q) \<le> work_left (wp_worker p) \<and> pool_reach q \<and> iw_joining (wp_worker q)"
  using assms
proof (induction rule: drain_run.induct)
  case (here p)
  then show ?case by simp
next
  case (by_thread n p q w')
  have "pool_reach (q\<lparr>wp_worker := w'\<rparr>)"
    using by_thread pool_reach.and_then pool_step.work by blast
  then show ?case using by_thread worker_step_work [OF by_thread.hyps(2)] by simp
next
  case (by_caller n p q r)
  then have "work_left (wp_worker r) \<le> work_left (wp_worker q)" "pool_reach r"
    using pool_step_work reach_ok pool_reach.and_then by blast+
  then show ?case using by_caller by simp
qed

lemma joining_progress:
  assumes "pool_reach p" "iw_joining (wp_worker p)"
  shows "all_exited (wp_worker p) \<or> (\<exists>w'. worker_step (wp_worker p) w')"
proof -
  have inv: "iw_inv (wp_worker p)" using reach_ok [OF assms(1)] by blast
  have free: "\<not> iw_mutex_kept (wp_worker p)"
    using reach_free [OF assms(1)] assms(2) by (simp add: joins_free_def)
  show ?thesis
  proof (cases "iw_is_started (wp_worker p)")
    case True
    then have "iw_is_stopping (wp_worker p)" using inv assms(2) by (simp add: iw_inv_def)
    then show ?thesis using worker_progress [OF free] by blast
  next
    case False
    then show ?thesis using inv by (simp add: iw_inv_def all_exited_def)
  qed
qed

section \<open>Properties\<close>

definition demo_item :: inference_work_item where
  "demo_item = \<lparr>wi_job_id = 7, wi_source_slot = 0, wi_model_slot = 0, wi_source_epoch = 1,
     wi_source_frame_id = 3, wi_enqueued_ns = 0, wi_deadline_ns = 0, wi_priority = 0\<rparr>"

definition demo_worker_config :: inference_worker_config where
  "demo_worker_config = \<lparr>wc_worker_count = 2, wc_queue_capacity = 4, wc_completion_capacity = 4\<rparr>"

definition demo_started :: worker_pool where
  "demo_started = pool_initial\<lparr>wp_worker := snd (inwrk_start demo_worker_config 2 inwrk_initial)\<rparr>"

definition demo_busy :: worker_pool where
  "demo_busy = demo_started\<lparr>wp_worker := snd (inwrk_submit demo_item Drop_if_busy (wp_worker demo_started)),
     wp_accepted := {#demo_item#}\<rparr>"

definition demo_draining :: worker_pool where
  "demo_draining = demo_busy\<lparr>wp_worker := inwrk_drain_begin (wp_worker demo_busy)\<rparr>"

lemmas demo_pool_defs = demo_started_def demo_busy_def demo_draining_def demo_item_def
  demo_worker_config_def pool_initial_def inwrk_initial_def inwrk_start_def inwrk_config_rejected_def
  iwk_limits inwrk_submit_def inwrk_drain_begin_def Let_def

lemma demo_started_reach: "pool_reach demo_started"
proof (rule pool_reach.and_then [OF pool_reach.initially])
  have "inwrk_start demo_worker_config 2 (wp_worker pool_initial) =
      (fst (inwrk_start demo_worker_config 2 inwrk_initial),
       snd (inwrk_start demo_worker_config 2 inwrk_initial))"
    by (simp add: pool_initial_def)
  then show "pool_step pool_initial demo_started" unfolding demo_started_def
    by (rule pool_step.start [rotated 2]) (simp_all add: pool_initial_def inwrk_initial_def)
qed

lemma demo_submit: "fst (inwrk_submit demo_item Drop_if_busy (wp_worker demo_started)) = Ok"
  by (simp add: demo_pool_defs)

lemma demo_busy_reach: "pool_reach demo_busy"
proof (rule pool_reach.and_then [OF demo_started_reach])
  have accepted: "wp_accepted demo_started = {#}" by (simp add: demo_started_def pool_initial_def)
  have "inwrk_submit demo_item Drop_if_busy (wp_worker demo_started) =
      (Ok, snd (inwrk_submit demo_item Drop_if_busy (wp_worker demo_started)))"
    by (simp add: demo_submit prod_eq_iff)
  then have "pool_step demo_started (demo_started\<lparr>
      wp_worker := snd (inwrk_submit demo_item Drop_if_busy (wp_worker demo_started)),
      wp_accepted := (if Ok = Ok then add_mset demo_item (wp_accepted demo_started)
        else wp_accepted demo_started)\<rparr>)"
    by (rule pool_step.submit [rotated]) (simp add: demo_pool_defs)
  then show "pool_step demo_started demo_busy" by (simp add: demo_busy_def accepted)
qed

lemma demo_draining_reach: "pool_reach demo_draining"
proof (rule pool_reach.and_then [OF demo_busy_reach])
  show "pool_step demo_busy demo_draining" unfolding demo_draining_def
    by (rule pool_step.drain) (simp_all add: demo_pool_defs)
qed

text \<open>
  C29. In every reachable state of the pool, under any interleaving of its threads with the callers,
  each accepted item is in exactly one place: queued, in an executor, among the completions, delivered by
  a poll, or lost from a full completion buffer, and the losses, the submissions and the outcomes are
  what the counters say.
\<close>

theorem inwrk_items_accounted:
  assumes "pool_reach p"
  shows "\<exists>lost. wp_accepted p = mset (iw_pending (wp_worker p)) + mset (iw_executing (wp_worker p)) +
      image_mset wr_item (mset (iw_completions (wp_worker p))) + wp_delivered p + lost \<and>
    iw_dropped_total (wp_worker p) = of_nat (size lost) \<and>
    iw_submitted_total (wp_worker p) = of_nat (size (wp_accepted p)) \<and>
    iw_submitted_total (wp_worker p) =
      of_nat (length (iw_pending (wp_worker p)) + length (iw_executing (wp_worker p))) +
      (iw_completed_total (wp_worker p) + iw_failed_total (wp_worker p) +
       iw_superseded_total (wp_worker p) + iw_cancelled_total (wp_worker p))"
proof -
  obtain lost where "wp_accepted p = iw_held (wp_worker p) + wp_delivered p + lost"
    "iw_dropped_total (wp_worker p) = of_nat (size lost)"
    "iw_submitted_total (wp_worker p) = of_nat (size (wp_accepted p))" "iw_balanced (wp_worker p)"
    using reach_ok [OF assms] by (auto simp: pool_accounted_def)
  then show ?thesis
    unfolding iw_held_def iw_balanced_def iw_settled_def by (intro exI [of _ lost]) simp_all
qed

theorem inwrk_items_accounted_witness:
  "\<exists>lost. wp_accepted demo_busy = mset (iw_pending (wp_worker demo_busy)) +
      mset (iw_executing (wp_worker demo_busy)) +
      image_mset wr_item (mset (iw_completions (wp_worker demo_busy))) + wp_delivered demo_busy + lost \<and>
    iw_dropped_total (wp_worker demo_busy) = of_nat (size lost)"
  using inwrk_items_accounted [OF demo_busy_reach] by blast

text \<open>
  C30. A drain ends: while it joins, the threads together make at most the number of steps that the
  queued and running items allow, whatever the callers do meanwhile, and as long as a thread has not left
  one of them can go on; once all have left nothing is queued or running and the drain can return.
\<close>

theorem inwrk_drain_returns:
  assumes "pool_reach p" "iw_joining (wp_worker p)" "drain_run n p q"
  shows "n \<le> work_left (wp_worker p) \<and>
    (if all_exited (wp_worker q)
     then iw_pending (wp_worker q) = [] \<and> iw_executing (wp_worker q) = [] \<and>
       pool_step q (q\<lparr>wp_worker := inwrk_drain_end (wp_worker q)\<rparr>)
     else \<exists>w'. worker_step (wp_worker q) w')"
proof -
  note run = drain_run_work [OF assms(3,1,2)]
  have q: "iw_inv (wp_worker q)" "\<not> iw_mutex_kept (wp_worker q)"
    using reach_ok reach_free run by (auto simp: joins_free_def)
  show ?thesis
  proof (cases "all_exited (wp_worker q)")
    case True
    then show ?thesis using run nothing_left [OF q(1)] pool_step.drained [OF q(2)] by simp
  next
    case False
    then have "\<exists>w'. worker_step (wp_worker q) w'" using run joining_progress by blast
    then show ?thesis using run False by simp
  qed
qed

theorem inwrk_drain_returns_witness:
  "0 \<le> work_left (wp_worker demo_draining) \<and> (\<exists>w'. worker_step (wp_worker demo_draining) w')"
proof -
  have joining: "iw_joining (wp_worker demo_draining)" "\<not> all_exited (wp_worker demo_draining)"
    by (simp_all add: demo_pool_defs all_exited_def list_all_iff)
  show ?thesis
    using inwrk_drain_returns [OF demo_draining_reach joining(1) drain_run.here] joining(2) by simp
qed

text \<open>
  C31. A start that launches some of its threads and then fails to launch the next one never returns, and
  the pool is blocked for good: the state is reachable for every valid configuration, and no thread and
  no caller can make a step in it, because \<open>start\<close> joins its threads with the mutex held that each of
  them needs first.
\<close>

theorem inwrk_partial_start_blocks:
  assumes "\<not> inwrk_config_rejected c" "0 < k" "k < unat (wc_worker_count c)"
  shows "\<exists>p. pool_step pool_initial p \<and> fst (inwrk_start c k inwrk_initial) = None \<and>
    wp_worker p = snd (inwrk_start c k inwrk_initial) \<and> \<not> (\<exists>p'. pool_step p p')"
proof -
  define w where "w = snd (inwrk_start c k inwrk_initial)"
  have start: "inwrk_start c k inwrk_initial = (None, w)"
    and kept: "iw_mutex_kept w" and threads: "iw_threads w = replicate k Waiting"
    using assms by (simp_all add: w_def inwrk_start_def Let_def inwrk_initial_def)
  have initially_free: "\<not> iw_mutex_kept inwrk_initial" "\<not> iw_joining inwrk_initial"
    "wp_worker pool_initial = inwrk_initial"
    by (simp_all add: inwrk_initial_def pool_initial_def)
  have step: "pool_step pool_initial (pool_initial\<lparr>wp_worker := w\<rparr>)"
    by (rule pool_step.start [of _ c k None])
      (simp_all add: initially_free start)
  have "\<not> all_exited w" using assms(2) by (cases k) (simp_all add: all_exited_def threads)
  moreover have "\<not> worker_step w w'" for w'
    using kept by (auto elim: worker_step.cases)
  ultimately have "\<not> pool_step (pool_initial\<lparr>wp_worker := w\<rparr>) p'" for p'
    using kept by (auto elim: pool_step.cases)
  then show ?thesis using step start by (intro exI [of _ "pool_initial\<lparr>wp_worker := w\<rparr>"]) simp
qed

theorem inwrk_partial_start_blocks_witness:
  "\<exists>p. pool_step pool_initial p \<and> fst (inwrk_start demo_worker_config 1 inwrk_initial) = None \<and>
    wp_worker p = snd (inwrk_start demo_worker_config 1 inwrk_initial) \<and> \<not> (\<exists>p'. pool_step p p')"
  by (rule inwrk_partial_start_blocks)
    (simp_all add: demo_worker_config_def inwrk_config_rejected_def iwk_limits)

text \<open>The bounds of the three tables, for every history.\<close>

lemma inwrk_bounds:
  assumes "pool_reach p"
  shows "length (iw_pending (wp_worker p)) \<le> 64" "length (iw_completions (wp_worker p)) \<le> 128"
    "length (iw_threads (wp_worker p)) \<le> 8"
  using reach_ok [OF assms] by (simp_all add: iw_inv_def iwk_limits)

end
