(* ===== verification/Overlay_Dispatch.thy ===== *)
theory Overlay_Dispatch
  imports Output_Gate Observation Feature_Event
begin

text \<open>
  What leaves perception under the licence gate: the boxes drawn into the preview
  (src/outputs/overlay_preparation.{hpp,cpp}, prefix \<open>ovrpr\<close>) and application events
  (src/outputs/feature_event_dispatch.{hpp,cpp}, prefix \<open>ftdsp\<close>). The lemmas show that exactly the
  authorised content is prepared or delivered.
\<close>

section \<open>Overlays\<close>

record overlay_preparation_context =
  oc_source_id :: string
  oc_feature_id :: string
  oc_policy_revision :: u64
  oc_prepared_monotonic_ns :: u64
  oc_max_age_ns :: u64
  oc_attributes :: "string list"

record prepared_overlay =
  po_overlay :: overlay_batch
  po_rendered_scopes :: "output_authorization list"

definition ovrpr_max_rendered_scopes :: nat where "ovrpr_max_rendered_scopes = 16"

fun ovrpr_authorize_each ::
    "output_authorization list \<Rightarrow> u64 \<Rightarrow> u64 \<Rightarrow> output_gate \<Rightarrow> status \<times> output_gate" where
  "ovrpr_authorize_each [] revision now g = (Ok, g)"
| "ovrpr_authorize_each (scope # scopes) revision now g =
     (if auth_policy_revision scope \<noteq> revision then (Unauthorized, g)
      else
        (let (authorized, g') = otgat_authorize scope now g
         in if authorized \<noteq> Ok then (authorized, g') else ovrpr_authorize_each scopes revision now g'))"

text \<open>A box without a label shows the class of its observation.\<close>

definition ovrpr_box :: "observation \<Rightarrow> overlay_box" where
  "ovrpr_box item =
     (if ob_label (on_box item) = [] then (on_box item)\<lparr>ob_label := on_class_id item\<rparr> else on_box item)"

definition ovrpr_candidate :: "observation_batch \<Rightarrow> u64 \<Rightarrow> u64 \<Rightarrow> overlay_batch" where
  "ovrpr_candidate observations revision prepared_ns =
     \<lparr>ov_frame = ot_frame observations, ov_geometry = ot_geometry observations,
      ov_policy_revision = revision, ov_prepared_monotonic_ns = prepared_ns,
      ov_boxes = map ovrpr_box (ot_observations observations)\<rparr>"

definition ovrpr_prepare_authorized_scopes ::
    "observation_batch \<Rightarrow> output_authorization list \<Rightarrow> u64 \<Rightarrow> u64 \<Rightarrow> output_gate \<Rightarrow> prepared_overlay \<Rightarrow>
       status \<times> output_gate \<times> prepared_overlay" where
  "ovrpr_prepare_authorized_scopes observations scopes prepared_ns max_age_ns g prepared =
     (if scopes = [] \<or> length scopes > ovrpr_max_rendered_scopes \<or> max_age_ns = 0 \<or>
         max_age_ns = UINT64_MAX \<or> prepared_ns = UINT64_MAX then (Invalid_argument, g, prepared)
      else
        (let revision = auth_policy_revision (hd scopes) in
         if revision = 0 then (Invalid_argument, g, prepared)
         else
           (let (authorized, g') = ovrpr_authorize_each scopes revision prepared_ns g in
            if authorized \<noteq> Ok then (authorized, g', prepared)
            else
              (let valid = obval_validate_batch observations (ot_frame observations)
                     (ot_geometry observations) in
               if valid \<noteq> Ok then (valid, g', prepared)
               else
                 (let candidate = ovrpr_candidate observations revision prepared_ns;
                      valid_overlay = pvctr_validate_overlay candidate (ot_frame observations)
                        (ot_geometry observations) revision prepared_ns max_age_ns in
                  if valid_overlay \<noteq> Ok then (valid_overlay, g', prepared)
                  else (Ok, g', \<lparr>po_overlay = candidate, po_rendered_scopes = scopes\<rparr>))))))"

definition ovrpr_prepare_authorized ::
    "observation_batch \<Rightarrow> overlay_preparation_context \<Rightarrow> output_gate \<Rightarrow> prepared_overlay \<Rightarrow>
       status \<times> output_gate \<times> prepared_overlay" where
  "ovrpr_prepare_authorized observations c g prepared =
     ovrpr_prepare_authorized_scopes observations
       [\<lparr>auth_policy_revision = oc_policy_revision c, auth_source_id = oc_source_id c,
         auth_feature_id = oc_feature_id c, auth_attributes = oc_attributes c\<rparr>]
       (oc_prepared_monotonic_ns c) (oc_max_age_ns c) g prepared"

definition blank_overlay :: overlay_batch where
  "blank_overlay = \<lparr>ov_frame = blank_frame_key, ov_geometry = \<lparr>geo_width = 0, geo_height = 0\<rparr>,
     ov_policy_revision = 0, ov_prepared_monotonic_ns = 0, ov_boxes = []\<rparr>"

definition ovrpr_prepare ::
    "observation_batch \<Rightarrow> overlay_preparation_context \<Rightarrow> output_gate \<Rightarrow> overlay_batch \<Rightarrow>
       status \<times> output_gate \<times> overlay_batch" where
  "ovrpr_prepare observations c g overlay =
     (case ovrpr_prepare_authorized observations c g
             \<lparr>po_overlay = blank_overlay, po_rendered_scopes = []\<rparr> of
        (result, g', prepared) \<Rightarrow> (result, g', if result = Ok then po_overlay prepared else overlay))"

section \<open>Application events\<close>

text \<open>
  \<open>alloc_ok\<close>: the request could be built. \<open>sink\<close> is what the sink answers, \<open>None\<close> an exception. The
  delivered events are returned.
\<close>

definition ftdsp_request :: "feature_event \<Rightarrow> u64 \<Rightarrow> output_authorization" where
  "ftdsp_request e policy_revision =
     \<lparr>auth_policy_revision = policy_revision, auth_source_id = ev_source_id e,
      auth_feature_id = ev_feature_id e, auth_attributes = map ef_schema_id (ev_fields e)\<rparr>"

definition ftdsp_dispatch_event ::
    "bool \<Rightarrow> feature_event_batch \<Rightarrow> nat \<Rightarrow> feature_processor_config \<Rightarrow> u64 \<Rightarrow> u64 \<Rightarrow> status option \<Rightarrow>
       output_gate \<Rightarrow> status \<times> output_gate \<times> feature_event list" where
  "ftdsp_dispatch_event alloc_ok batch event_index config policy_revision now sink g =
     (let valid = ftevt_validate_batch batch (eb_frame batch) (eb_geometry batch) config in
      if valid \<noteq> Ok then (valid, g, [])
      else if length (eb_events batch) \<le> event_index \<or> policy_revision = 0 \<or>
          policy_revision = UINT64_MAX then (Invalid_argument, g, [])
      else if \<not> alloc_ok then (Resource_exhausted, g, [])
      else
        (let e = eb_events batch ! event_index;
             (authorized, g') = otgat_authorize (ftdsp_request e policy_revision) now g in
         if authorized \<noteq> Ok then (authorized, g', [])
         else (case sink of None \<Rightarrow> Io_error | Some st \<Rightarrow> st, g', [e])))"

section \<open>Lemmas\<close>

text \<open>What the gate must say to all scopes of one picture at one time.\<close>

definition all_entitled :: "output_authorization list \<Rightarrow> u64 \<Rightarrow> output_gate \<Rightarrow> bool" where
  "all_entitled scopes now g \<longleftrightarrow>
     now \<noteq> UINT64_MAX \<and> og_last_now_ns g \<le> now \<and> og_is_active g \<and>
     (\<forall>s \<in> set scopes. entitled (og_policy g) s now)"

lemma gate_after_Ok:
  assumes "otgat_inv g" "otgat_authorize r now g = (Ok, g')"
  shows "g' = g\<lparr>og_last_now_ns := now\<rparr>" and "otgat_inv g'"
proof -
  show g': "g' = g\<lparr>og_last_now_ns := now\<rparr>"
    using assms(2) by (auto simp: otgat_authorize_def Let_def split: if_splits option.splits)
  show "otgat_inv g'" using assms(1) by (simp add: g' otgat_inv_def)
qed

lemma ovrpr_each_Ok:
  "otgat_inv g \<Longrightarrow> scopes \<noteq> [] \<Longrightarrow>
     fst (ovrpr_authorize_each scopes revision now g) = Ok \<longleftrightarrow>
     all_entitled scopes now g \<and> revision = pol_revision (og_policy g)"
proof (induction scopes arbitrary: g)
  case (Cons s scopes)
  obtain st g' where auth: "otgat_authorize s now g = (st, g')" by fastforce
  have Ok_iff: "st = Ok \<longleftrightarrow> all_entitled [s] now g"
    using otgat_authorize_Ok [OF Cons.prems(1), of s now] by (simp add: auth all_entitled_def)
  have revision: "entitled (og_policy g) s now \<Longrightarrow> auth_policy_revision s = pol_revision (og_policy g)"
    by (simp add: entitled_def)
  show ?case
  proof (cases "st = Ok")
    case True
    note g' = gate_after_Ok [OF Cons.prems(1) auth [unfolded True]]
    show ?thesis
    proof (cases scopes)
      case Nil
      then show ?thesis using True Ok_iff revision by (auto simp: auth all_entitled_def)
    next
      case (Cons t ts)
      then have "fst (ovrpr_authorize_each scopes revision now g') = Ok \<longleftrightarrow>
          all_entitled scopes now g \<and> revision = pol_revision (og_policy g)"
        using Cons.IH [OF g'(2)] True Ok_iff by (auto simp: g'(1) all_entitled_def)
      then show ?thesis using True Ok_iff revision by (auto simp: auth all_entitled_def)
    qed
  next
    case False
    then show ?thesis using Ok_iff by (auto simp: auth all_entitled_def)
  qed
qed simp

lemma box_has_label: "ob_label (ovrpr_box item) = (if ob_label (on_box item) = [] then on_class_id item
    else ob_label (on_box item))"
  by (simp add: ovrpr_box_def)

text \<open>Preparing for drawing succeeds exactly under these conditions.\<close>

definition drawable :: "observation_batch \<Rightarrow> output_authorization list \<Rightarrow> u64 \<Rightarrow> u64 \<Rightarrow> output_gate \<Rightarrow> bool" where
  "drawable observations scopes now max_age g \<longleftrightarrow>
     scopes \<noteq> [] \<and> length scopes \<le> 16 \<and> max_age \<noteq> 0 \<and> max_age \<noteq> UINT64_MAX \<and>
     pol_revision (og_policy g) \<noteq> 0 \<and> all_entitled scopes now g \<and>
     obval_validate_batch observations (ot_frame observations) (ot_geometry observations) = Ok \<and>
     length (ot_observations observations) \<le> pv_max_overlay_boxes \<and>
     (\<forall>b \<in> set (map ovrpr_box (ot_observations observations)).
        pvctr_validate_box b (ot_geometry observations) = Ok) \<and>
     sum_list (map (\<lambda>b. length (ob_label b)) (map ovrpr_box (ot_observations observations)))
       \<le> pv_max_total_label_bytes"


lemma obval_identity:
  assumes "obval_validate_batch b f h = Ok"
  shows "pvctr_validate_identity (ot_frame b) f (ot_geometry b) h = Ok"
  using assms by (simp add: obval_validate_batch_def obval_validate_observations_def and_then_Ok)

lemma candidate_simps [simp]:
  "ov_frame (ovrpr_candidate obs r n) = ot_frame obs" "ov_geometry (ovrpr_candidate obs r n) = ot_geometry obs"
  "ov_policy_revision (ovrpr_candidate obs r n) = r" "ov_prepared_monotonic_ns (ovrpr_candidate obs r n) = n"
  "ov_boxes (ovrpr_candidate obs r n) = map ovrpr_box (ot_observations obs)"
  by (simp_all add: ovrpr_candidate_def)

lemma candidate_valid:
  assumes "obval_validate_batch obs (ot_frame obs) (ot_geometry obs) = Ok" "r \<noteq> 0" "max_age \<noteq> 0"
  shows "pvctr_validate_overlay (ovrpr_candidate obs r n) (ot_frame obs) (ot_geometry obs) r n max_age = Ok \<longleftrightarrow>
    length (ot_observations obs) \<le> pv_max_overlay_boxes \<and>
    (\<forall>b \<in> set (map ovrpr_box (ot_observations obs)). pvctr_validate_box b (ot_geometry obs) = Ok) \<and>
    sum_list (map (\<lambda>b. length (ob_label b)) (map ovrpr_box (ot_observations obs))) \<le> pv_max_total_label_bytes"
proof -
  have boxes: "pvctr_boxes_from (ot_geometry obs) 0 (map ovrpr_box (ot_observations obs)) = Ok \<longleftrightarrow>
      (\<forall>b \<in> set (map ovrpr_box (ot_observations obs)). pvctr_validate_box b (ot_geometry obs) = Ok) \<and>
      sum_list (map (\<lambda>b. length (ob_label b)) (map ovrpr_box (ot_observations obs)))
        \<le> pv_max_total_label_bytes"
    by (subst boxes_from_Ok) simp_all
  have "pvctr_validate_overlay (ovrpr_candidate obs r n) (ot_frame obs) (ot_geometry obs) r n max_age = Ok \<longleftrightarrow>
      length (ot_observations obs) \<le> pv_max_overlay_boxes \<and>
      pvctr_boxes_from (ot_geometry obs) 0 (map ovrpr_box (ot_observations obs)) = Ok"
    using obval_identity [OF assms(1)] assms(2,3) by (simp add: pvctr_validate_overlay_def Let_def not_less)
  then show ?thesis unfolding boxes .
qed

lemma prepare_scopes_result:
  assumes inv: "otgat_inv g"
    and prepare: "ovrpr_prepare_authorized_scopes obs scopes now max_age g prepared = (st, g', p)"
  shows "(st = Ok \<longleftrightarrow> drawable obs scopes now max_age g) \<and>
    p = (if st = Ok then \<lparr>po_overlay = ovrpr_candidate obs (pol_revision (og_policy g)) now,
                          po_rendered_scopes = scopes\<rparr> else prepared)"
proof (cases "scopes = [] \<or> length scopes > 16 \<or> max_age = 0 \<or> max_age = UINT64_MAX \<or> now = UINT64_MAX \<or>
    auth_policy_revision (hd scopes) = 0")
  case True
  have "auth_policy_revision (hd scopes) = pol_revision (og_policy g)" if "drawable obs scopes now max_age g"
    using that by (cases scopes) (auto simp: drawable_def all_entitled_def entitled_def)
  then have "\<not> drawable obs scopes now max_age g" using True by (auto simp: drawable_def all_entitled_def)
  moreover have "st \<noteq> Ok \<and> p = prepared"
    using prepare True
    by (auto simp: ovrpr_prepare_authorized_scopes_def ovrpr_max_rendered_scopes_def Let_def split: if_splits)
  ultimately show ?thesis by simp
next
  case False
  let ?r = "auth_policy_revision (hd scopes)"
  obtain authorized g1 where each: "ovrpr_authorize_each scopes ?r now g = (authorized, g1)" by fastforce
  have authorized: "authorized = Ok \<longleftrightarrow> all_entitled scopes now g \<and> ?r = pol_revision (og_policy g)"
    using ovrpr_each_Ok [OF inv, of scopes ?r now] False by (simp add: each)
  let ?valid = "obval_validate_batch obs (ot_frame obs) (ot_geometry obs)"
  let ?overlay = "pvctr_validate_overlay (ovrpr_candidate obs ?r now) (ot_frame obs) (ot_geometry obs) ?r now max_age"
  have result: "(st, g', p) =
      (if authorized \<noteq> Ok then (authorized, g1, prepared)
       else if ?valid \<noteq> Ok then (?valid, g1, prepared)
       else if ?overlay \<noteq> Ok then (?overlay, g1, prepared)
       else (Ok, g1, \<lparr>po_overlay = ovrpr_candidate obs ?r now, po_rendered_scopes = scopes\<rparr>))"
    unfolding prepare [symmetric] using False
    by (simp add: ovrpr_prepare_authorized_scopes_def ovrpr_max_rendered_scopes_def Let_def each)
  have "st = Ok \<longleftrightarrow> authorized = Ok \<and> ?valid = Ok \<and> ?overlay = Ok"
    using result by (auto split: if_splits)
  also have "\<dots> \<longleftrightarrow> drawable obs scopes now max_age g"
  proof (cases "authorized = Ok \<and> ?valid = Ok")
    case True
    then show ?thesis
      using candidate_valid [of obs ?r max_age now] False authorized by (auto simp: drawable_def)
  next
    case other: False
    have "?r = pol_revision (og_policy g)" if "drawable obs scopes now max_age g"
      using that by (cases scopes) (auto simp: drawable_def all_entitled_def entitled_def)
    then show ?thesis using other authorized by (auto simp: drawable_def)
  qed
  finally show ?thesis using result authorized by (auto split: if_splits)
qed

section \<open>Properties\<close>

text \<open>
  C34. Boxes are prepared for drawing exactly when every scope they show is entitled by the policy in
  force, all in its revision, and the observations and their boxes are valid; the overlay then has one box
  per observation, carries the revision and the scopes that were authorised, and otherwise the caller's
  overlay is untouched.
\<close>

theorem ovrpr_prepares_exactly_authorized:
  "let g = fold otgat_step ops otgat_initial;
       (st, _, p) = ovrpr_prepare_authorized_scopes obs scopes now max_age g prepared
   in (st = Ok \<longleftrightarrow> drawable obs scopes now max_age g) \<and>
      p = (if st = Ok then \<lparr>po_overlay = \<lparr>ov_frame = ot_frame obs, ov_geometry = ot_geometry obs,
               ov_policy_revision = pol_revision (og_policy g), ov_prepared_monotonic_ns = now,
               ov_boxes = map ovrpr_box (ot_observations obs)\<rparr>, po_rendered_scopes = scopes\<rparr>
           else prepared)"
proof -
  obtain st g' p where
    run: "ovrpr_prepare_authorized_scopes obs scopes now max_age (fold otgat_step ops otgat_initial) prepared =
      (st, g', p)" by (metis prod_cases3)
  show ?thesis using prepare_scopes_result [OF otgat_run_inv run]
    by (simp add: run Let_def ovrpr_candidate_def)
qed

text \<open>
  C35. An application event reaches the sink exactly when its batch is valid, the index and the revision
  are, and the policy in force entitles its source and feature to every field the event actually carries;
  then it is delivered once and unchanged, and the sink's answer, or an I/O error for its exception, is
  the status.
\<close>

theorem ftdsp_delivers_exactly_entitled:
  "let g = fold otgat_step ops otgat_initial;
       (st, _, delivered) = ftdsp_dispatch_event alloc_ok batch i config revision now sink g
   in delivered =
        (if batch_ok batch (eb_frame batch) (eb_geometry batch) config \<and> i < length (eb_events batch) \<and>
            revision \<noteq> 0 \<and> revision \<noteq> UINT64_MAX \<and> alloc_ok \<and>
            all_entitled [ftdsp_request (eb_events batch ! i) revision] now g
         then [eb_events batch ! i] else []) \<and>
      (delivered = [] \<or> st = (case sink of None \<Rightarrow> Io_error | Some answer \<Rightarrow> answer))"
proof -
  let ?g = "fold otgat_step ops otgat_initial" and ?e = "eb_events batch ! i"
  obtain authorized g' where auth: "otgat_authorize (ftdsp_request ?e revision) now ?g = (authorized, g')"
    by fastforce
  have "authorized = Ok \<longleftrightarrow> all_entitled [ftdsp_request ?e revision] now ?g"
    using otgat_authorize_Ok [OF otgat_run_inv, of "ftdsp_request ?e revision" now ops]
    by (simp add: auth all_entitled_def)
  moreover have "ftevt_validate_batch batch (eb_frame batch) (eb_geometry batch) config = Ok \<longleftrightarrow>
      batch_ok batch (eb_frame batch) (eb_geometry batch) config"
    by (rule event_batch_exact)
  ultimately show ?thesis by (auto simp: ftdsp_dispatch_event_def Let_def auth not_le)
qed

end
