(* ===== verification/Ranking.thy ===== *)
theory Ranking
  imports Prelude "HOL-Library.Multiset"
begin

text \<open>
  The two ways the code orders candidates by a comparator of its own: \<open>std::sort\<close> and
  \<open>std::min_element\<close> of the C++ library, and the bounded selection built from the second. The locale
  \<open>ranking\<close> is the contract of such a comparator: on the values that occur it is a strict total order.
  Under it sorting is unique and the bounded selection keeps exactly the best.
\<close>

section \<open>Library algorithms\<close>

fun rank_insert :: "('a \<Rightarrow> 'a \<Rightarrow> bool) \<Rightarrow> 'a \<Rightarrow> 'a list \<Rightarrow> 'a list" where
  "rank_insert better c [] = [c]"
| "rank_insert better c (y # ys) = (if better y c then y # rank_insert better c ys else c # y # ys)"

definition rank_sort :: "('a \<Rightarrow> 'a \<Rightarrow> bool) \<Rightarrow> 'a list \<Rightarrow> 'a list" where
  "rank_sort better xs = foldr (rank_insert better) xs []"

text \<open>The index of the first element that no later one is less than: \<open>best\<close> at \<open>at\<close> so far.\<close>

fun min_element_from :: "('a \<Rightarrow> 'a \<Rightarrow> bool) \<Rightarrow> nat \<Rightarrow> 'a \<Rightarrow> nat \<Rightarrow> 'a list \<Rightarrow> nat" where
  "min_element_from lt at best i [] = at"
| "min_element_from lt at best i (x # xs) =
     (if lt x best then min_element_from lt i x (Suc i) xs
      else min_element_from lt at best (Suc i) xs)"

definition min_element :: "('a \<Rightarrow> 'a \<Rightarrow> bool) \<Rightarrow> 'a list \<Rightarrow> nat" where
  "min_element lt xs = (case xs of [] \<Rightarrow> 0 | x # rest \<Rightarrow> min_element_from lt 0 x 1 rest)"

text \<open>Keep the best \<open>k\<close> of a stream: append while there is room, else replace the worst.\<close>

definition keep_best :: "('a \<Rightarrow> 'a \<Rightarrow> bool) \<Rightarrow> nat \<Rightarrow> 'a \<Rightarrow> 'a list \<Rightarrow> 'a list" where
  "keep_best better k c ms =
     (if length ms < k then ms @ [c]
      else
        (let w = min_element (\<lambda>l r. better r l) ms
         in if better c (ms ! w) then ms[w := c] else ms))"

section \<open>The contract of a comparator\<close>

locale ranking =
  fixes better :: "'a \<Rightarrow> 'a \<Rightarrow> bool"
    and rank :: "'a \<Rightarrow> 'k::linorder"
    and good :: "'a \<Rightarrow> bool"
  assumes better_iff: "good a \<Longrightarrow> good b \<Longrightarrow> better a b \<longleftrightarrow> rank a < rank b"
begin

lemma rank_insert_insort:
  "good c \<Longrightarrow> list_all good ys \<Longrightarrow> rank_insert better c ys = insort_key rank c ys"
  by (induction ys) (auto simp: better_iff)

lemma rank_sort_sort: "list_all good xs \<Longrightarrow> rank_sort better xs = sort_key rank xs"
proof (induction xs)
  case Nil
  then show ?case by (simp add: rank_sort_def)
next
  case (Cons x xs)
  then have "rank_sort better (x # xs) = rank_insert better x (sort_key rank xs)"
    by (simp add: rank_sort_def)
  then show ?case using Cons.prems by (simp add: rank_insert_insort list_all_iff)
qed

lemma rank_sort_is_sorted:
  "list_all good xs \<Longrightarrow> sorted (map rank (rank_sort better xs)) \<and> mset (rank_sort better xs) = mset xs"
  by (simp add: rank_sort_sort)

lemma worst_from:
  "list_all good (best # xs) \<Longrightarrow> at < i \<Longrightarrow> (pre @ xs) ! at = best \<Longrightarrow> length pre = i \<Longrightarrow>
     (\<forall>x \<in> set pre. rank x \<le> rank best) \<Longrightarrow>
     (let w = min_element_from (\<lambda>l r. better r l) at best i xs
      in w < length (pre @ xs) \<and> (\<forall>x \<in> set (pre @ xs). rank x \<le> rank ((pre @ xs) ! w)))"
proof (induction xs arbitrary: best at i pre)
  case Nil
  then show ?case by auto
next
  case (Cons x xs)
  show ?case
  proof (cases "better best x")
    case True
    then have "rank best < rank x" using Cons.prems by (simp add: better_iff)
    then have "\<forall>y \<in> set (pre @ [x]). rank y \<le> rank x" using Cons.prems(5) by fastforce
    then show ?thesis
      using Cons.IH [of x i "Suc i" "pre @ [x]"] Cons.prems True by (simp add: nth_append)
  next
    case False
    then have "\<forall>y \<in> set (pre @ [x]). rank y \<le> rank best"
      using Cons.prems by (auto simp: better_iff)
    then show ?thesis
      using Cons.IH [of best at "Suc i" "pre @ [x]"] Cons.prems False by simp
  qed
qed

lemma worst_is_max:
  assumes "list_all good ms" "ms \<noteq> []"
  shows "min_element (\<lambda>l r. better r l) ms < length ms"
    and "x \<in> set ms \<Longrightarrow> rank x \<le> rank (ms ! min_element (\<lambda>l r. better r l) ms)"
proof -
  obtain m rest where ms: "ms = m # rest" using assms(2) by (cases ms) auto
  then show "min_element (\<lambda>l r. better r l) ms < length ms"
    "x \<in> set ms \<Longrightarrow> rank x \<le> rank (ms ! min_element (\<lambda>l r. better r l) ms)"
    using worst_from [of m rest 0 1 "[m]"] assms(1) by (auto simp: min_element_def Let_def)
qed

lemma take_insort:
  "sorted (map rank ys) \<Longrightarrow> rank c \<notin> rank ` set ys \<Longrightarrow> 0 < k \<Longrightarrow> k \<le> length ys \<Longrightarrow>
     take k (insort_key rank c ys) =
       (if rank c < rank (ys ! (k - 1)) then insort_key rank c (take (k - 1) ys) else take k ys)"
proof (induction ys arbitrary: k)
  case Nil
  then show ?case by simp
next
  case (Cons y ys)
  obtain j where k: "k = Suc j" using Cons.prems(3) by (cases k) auto
  show ?case
  proof (cases "rank c < rank y")
    case True
    have "(y # ys) ! j \<in> set (y # ys)" using Cons.prems(4) k by (intro nth_mem) simp
    then have "rank y \<le> rank ((y # ys) ! j)" using Cons.prems(1) by auto
    then have "rank c < rank ((y # ys) ! (k - 1))" using True k by auto
    then show ?thesis using True k by (cases j) (auto simp: take_Cons')
  next
    case False
    then have less: "rank y < rank c" using Cons.prems(2) by fastforce
    show ?thesis
    proof (cases j)
      case 0
      then show ?thesis using less k by auto
    next
      case (Suc i)
      then show ?thesis using Cons.IH [of j] Cons.prems less k by auto
    qed
  qed
qed

lemma sort_unique:
  assumes "mset xs = mset ys" "distinct (map rank ys)"
  shows "sort_key rank xs = sort_key rank ys"
proof (rule sort_key_inj_key_eq)
  show "mset xs = mset (sort_key rank ys)" using assms(1) by simp
  have "set xs = set ys" using assms(1) by (metis set_mset_mset)
  then show "inj_on rank (set xs)" using assms(2) by (simp add: distinct_map)
qed simp

text \<open>The bounded selection keeps the best: one more candidate.\<close>

lemma keep_best_step:
  assumes good: "list_all good (seen @ [c])" and distinct: "distinct (map rank (seen @ [c]))"
    and k: "0 < k" and kept: "mset ms = mset (take k (sort_key rank seen))"
  shows "mset (keep_best better k c ms) = mset (take k (sort_key rank (seen @ [c])))"
proof -
  let ?S = "sort_key rank seen"
  have sorted_all: "sort_key rank (seen @ [c]) = insort_key rank c ?S"
    using sort_unique [of "c # seen" "seen @ [c]"] distinct by simp
  have length_ms: "length ms = min k (length seen)"
    using mset_eq_length [OF kept] by simp
  show ?thesis
  proof (cases "length ms < k")
    case True
    then have "take k ?S = ?S" "take k (insort_key rank c ?S) = insort_key rank c ?S"
      using length_ms by simp_all
    then show ?thesis using True kept by (simp add: keep_best_def sorted_all)
  next
    case False
    then have long: "k \<le> length ?S" and nonempty: "ms \<noteq> []" using length_ms k by auto
    have set_ms: "set ms = set (take k ?S)" using kept by (metis set_mset_mset)
    then have ms_seen: "set ms \<subseteq> set seen" using set_take_subset [of k ?S] by simp
    have good_ms: "list_all good ms" using good ms_seen by (auto simp: list_all_iff)
    let ?w = "min_element (\<lambda>l r. better r l) ms" and ?last = "?S ! (k - 1)"
    note worst = worst_is_max [OF good_ms nonempty]
    have split: "take k ?S = take (k - 1) ?S @ [?last]"
      using long k take_Suc_conv_app_nth [of "k - 1" ?S] by simp
    have worst_mem: "ms ! ?w \<in> set (take k ?S)" "?last \<in> set ms"
    proof -
      show "ms ! ?w \<in> set (take k ?S)" unfolding set_ms [symmetric] by (rule nth_mem [OF worst(1)])
      show "?last \<in> set ms" unfolding set_ms by (subst split) simp
    qed
    have "sorted (map rank (take k ?S))" by (simp add: take_map [symmetric] sorted_wrt_take)
    then have "rank (ms ! ?w) \<le> rank ?last"
      using worst_mem(1) unfolding split by (auto simp: sorted_append)
    then have "rank (ms ! ?w) = rank ?last" using worst(2) [OF worst_mem(2)] by simp
    moreover have "inj_on rank (set seen)" using distinct by (simp add: distinct_map)
    moreover have "ms ! ?w \<in> set seen" "?last \<in> set seen" using worst_mem set_ms ms_seen by blast+
    ultimately have w: "ms ! ?w = ?last" by (meson inj_onD)
    have fresh: "rank c \<notin> rank ` set ?S" using distinct by auto
    have better: "better c ?last \<longleftrightarrow> rank c < rank ?last"
      using good ms_seen worst_mem(2) by (auto simp: better_iff list_all_iff)
    note take = take_insort [OF _ fresh k long]
    have "mset (ms[?w := c]) = add_mset c (mset ms - {#?last#})"
      using worst(1) w by (simp add: mset_update)
    also have "mset ms - {#?last#} = mset (take (k - 1) ?S)" by (simp add: kept split)
    finally show ?thesis using False better take kept
      by (simp add: keep_best_def Let_def w sorted_all)
  qed
qed

lemma keep_best_all:
  assumes "list_all good xs" "distinct (map rank xs)" "0 < k"
  shows "mset (fold (keep_best better k) xs []) = mset (take k (sort_key rank xs))"
  using assms
proof (induction xs rule: rev_induct)
  case (snoc c seen)
  then show ?case using keep_best_step [of seen c k] by simp
qed simp

lemma top_k_exact:
  assumes "list_all good xs" "distinct (map rank xs)" "0 < k"
  shows "rank_sort better (fold (keep_best better k) xs []) = take k (sort_key rank xs)"
proof -
  let ?ms = "fold (keep_best better k) xs []"
  note kept = keep_best_all [OF assms]
  have subset: "set ?ms \<subseteq> set xs" using set_take_subset [of k "sort_key rank xs"] kept
    by (metis set_mset_mset set_sort)
  then have "list_all good ?ms" using assms(1) by (auto simp: list_all_iff)
  then have "rank_sort better ?ms = sort_key rank ?ms" by (rule rank_sort_sort)
  also have "\<dots> = take k (sort_key rank xs)"
  proof (rule sort_key_inj_key_eq)
    show "mset ?ms = mset (take k (sort_key rank xs))" by (rule kept)
    show "inj_on rank (set ?ms)" using subset assms(2) by (auto simp: distinct_map intro: inj_on_subset)
    show "sorted (map rank (take k (sort_key rank xs)))" by (simp add: take_map [symmetric] sorted_wrt_take)
  qed
  finally show ?thesis .
qed

end

end
