(* ===== verification/Face_Index.thy ===== *)
theory Face_Index
  imports Early_Return Float_Arith Identifiers Preview_Contract Ranking "HOL-Library.Product_Lexorder"
begin

text \<open>
  Face embeddings: the validation of an embedding (contracts/embedding.hpp with core/embedding.cpp, prefix
  \<open>embct\<close>), the exact index that is searched for the most similar records
  (perception/embedding/exact_embedding_index.{hpp,cpp}, prefix \<open>exidx\<close>), and the snapshot of a gallery
  (contracts/face_gallery.hpp with core/face_gallery.cpp, prefix \<open>fgalr\<close>). The lemmas show that the index
  is a versioned map and that a search returns exactly the best matches.
\<close>

section \<open>Square roots\<close>

text \<open>The integer square root, and from it the correctly rounded \<open>std::sqrt\<close>.\<close>

function int_sqrt :: "int \<Rightarrow> int" where
  "int_sqrt n = (if n \<le> 0 then 0
     else let r = 2 * int_sqrt (n div 4) in if (r + 1) * (r + 1) \<le> n then r + 1 else r)"
  by auto
termination
  by (relation "measure nat") auto

declare int_sqrt.simps [simp del]

lemma int_sqrt_bounds:
  "0 \<le> n \<Longrightarrow> 0 \<le> int_sqrt n \<and> int_sqrt n * int_sqrt n \<le> n \<and> n < (int_sqrt n + 1) * (int_sqrt n + 1)"
proof (induction n rule: int_sqrt.induct)
  case (1 n)
  show ?case
  proof (cases "n = 0")
    case True
    then show ?thesis by (simp add: int_sqrt.simps)
  next
    case False
    let ?h = "int_sqrt (n div 4)"
    have n: "0 < n" using 1(2) False by simp
    then have IH: "0 \<le> ?h" "?h * ?h \<le> n div 4" "n div 4 < (?h + 1) * (?h + 1)" using 1(1) by auto
    have low: "2 * ?h * (2 * ?h) \<le> n" using IH(2) by simp
    have "n < 4 * ((?h + 1) * (?h + 1))" using IH(3) by linarith
    then have high: "n < (2 * ?h + 2) * (2 * ?h + 2)" by (simp add: algebra_simps)
    show ?thesis
    proof (cases "(2 * ?h + 1) * (2 * ?h + 1) \<le> n")
      case True
      have "int_sqrt n = 2 * ?h + 1" by (subst int_sqrt.simps) (use n True in \<open>simp add: Let_def\<close>)
      then show ?thesis using IH(1) True high by (simp add: algebra_simps)
    next
      case step: False
      have "int_sqrt n = 2 * ?h" by (subst int_sqrt.simps) (use n step in \<open>simp add: Let_def\<close>)
      then show ?thesis using IH(1) step low by simp
    qed
  qed
qed

text \<open>\<open>2 ^ e <= sqrt q < 2 ^ (e + 1)\<close> for half the exponent of \<open>q\<close>; one unit in the last place is \<open>ulp\<close>.\<close>

definition sqrt_round :: "ieee_format \<Rightarrow> rat \<Rightarrow> rat" where
  "sqrt_round fmt q =
     (let ulp = 2 powi (max (exponent_of q div 2) (ff_emin fmt) - (int (ff_precision fmt) - 1));
          y = q / (ulp * ulp); n = int_sqrt \<lfloor>y\<rfloor>; half = of_int n + 1 / 2
      in (if y < half * half \<or> (y = half * half \<and> even n) then of_int n else of_int n + 1) * ulp)"

fun fp_sqrt :: "ieee_format \<Rightarrow> fp \<Rightarrow> fp" where
  "fp_sqrt fmt (Finite q) =
     (if q < 0 then Not_a_number else if q = 0 then Finite 0 else Finite (sqrt_round fmt q))"
| "fp_sqrt fmt Pos_infinity = Pos_infinity"
| "fp_sqrt fmt _ = Not_a_number"

fun fp_abs :: "fp \<Rightarrow> fp" where
  "fp_abs (Finite q) = Finite \<bar>q\<bar>"
| "fp_abs Neg_infinity = Pos_infinity"
| "fp_abs x = x"

text \<open>\<open>static_cast<float>\<close> of a \<open>double\<close>, and \<open>std::clamp\<close>.\<close>

fun fp_narrow :: "fp \<Rightarrow> fp" where
  "fp_narrow (Finite q) = fp_round binary32 q"
| "fp_narrow x = x"

definition fp_clamp :: "fp \<Rightarrow> fp \<Rightarrow> fp \<Rightarrow> fp" where
  "fp_clamp v lo hi = (if fp_less v lo then lo else if fp_less hi v then hi else v)"

section \<open>Embeddings\<close>

definition emb_max_dimensions :: nat where "emb_max_dimensions = 4096"
definition emb_max_identifier_bytes :: nat where "emb_max_identifier_bytes = 128"
definition emb_max_subject_ref_bytes :: nat where "emb_max_subject_ref_bytes = 128"
definition emb_max_results :: nat where "emb_max_results = 64"

text \<open>The literal \<open>0.001F\<close>.\<close>

definition emb_normalized_tolerance :: fp where
  "emb_normalized_tolerance = fp_round binary32 (1 / 1000)"

record embedding_result =
  er_frame :: preview_frame_key
  er_track_id :: u64
  er_model_id :: string
  er_model_version :: string
  er_values :: "fp list"
  er_is_l2_normalized :: bool

definition squared_norm :: "fp list \<Rightarrow> fp" where
  "squared_norm vs = fold (\<lambda>v acc. fp_add binary64 acc (fp_mul binary64 v v)) vs (Finite 0)"

definition norm_error :: "fp \<Rightarrow> fp" where
  "norm_error norm2 = fp_abs (fp_sub binary64 (fp_sqrt binary64 norm2) (Finite 1))"

text \<open>\<open>std::numeric_limits<double>::epsilon()\<close>\<close>

definition double_epsilon :: fp where "double_epsilon = Finite (1 / 2 ^ 52)"

definition embct_validate_result :: "embedding_result \<Rightarrow> preview_frame_key \<Rightarrow> status" where
  "embct_validate_result r expected =
     (if fk_camera_id (er_frame r) \<noteq> fk_camera_id expected \<or>
         fk_channel_id (er_frame r) \<noteq> fk_channel_id expected \<or>
         fk_source_epoch (er_frame r) = 0 \<or>
         fk_source_epoch (er_frame r) \<noteq> fk_source_epoch expected \<or>
         fk_frame_id (er_frame r) \<noteq> fk_frame_id expected \<or>
         fk_source_pts_ns (er_frame r) = UINT64_MAX \<or>
         fk_source_pts_ns (er_frame r) \<noteq> fk_source_pts_ns expected \<or>
         er_track_id r = 0 \<or>
         \<not> ident_is_valid (er_model_id r) emb_max_identifier_bytes \<or>
         \<not> ident_is_valid (er_model_version r) emb_max_identifier_bytes \<or>
         er_values r = [] \<or> length (er_values r) > emb_max_dimensions then Invalid_argument
      else if \<not> list_all fp_is_finite (er_values r) then Invalid_argument
      else if \<not> fp_less double_epsilon (squared_norm (er_values r)) then Invalid_argument
      else if er_is_l2_normalized r \<and>
          fp_less emb_normalized_tolerance (norm_error (squared_norm (er_values r))) then Invalid_argument
      else Ok)"

section \<open>The index\<close>

datatype embedding_metric = Cosine_similarity | Unlisted_metric nat

record embedding_index_config =
  xc_model_id :: string
  xc_model_version :: string
  xc_dimensions :: nat
  xc_capacity :: nat
  xc_max_results :: nat
  xc_metric :: embedding_metric
  xc_initial_revision :: u64

record embedding_gallery_record =
  gr_record_id :: u64
  gr_subject_ref :: string
  gr_values :: "fp list"

record embedding_match =
  em_record_id :: u64
  em_subject_ref :: string
  em_similarity :: fp

record embedding_search_result =
  es_frame :: preview_frame_key
  es_track_id :: u64
  es_gallery_revision :: u64
  es_matches :: "embedding_match list"

record exact_embedding_index =
  xi_config :: embedding_index_config
  xi_records :: "embedding_gallery_record list"
  xi_revision :: u64
  xi_is_configured :: bool

definition exidx_initial :: exact_embedding_index where
  "exidx_initial = \<lparr>xi_config = \<lparr>xc_model_id = [], xc_model_version = [], xc_dimensions = 0,
       xc_capacity = 0, xc_max_results = 0, xc_metric = Cosine_similarity, xc_initial_revision = 0\<rparr>,
     xi_records = [], xi_revision = 0, xi_is_configured = False\<rparr>"

definition exidx_is_normalized :: "fp list \<Rightarrow> bool" where
  "exidx_is_normalized vs \<longleftrightarrow>
     list_all fp_is_finite vs \<and> fp_le (norm_error (squared_norm vs)) emb_normalized_tolerance"

definition exidx_valid_revision_change :: "u64 \<Rightarrow> u64 \<Rightarrow> u64 \<Rightarrow> bool" where
  "exidx_valid_revision_change current expected replacement \<longleftrightarrow>
     current = expected \<and> expected \<noteq> UINT64_MAX \<and> replacement = expected + 1"

definition exidx_config_rejected :: "embedding_index_config \<Rightarrow> bool" where
  "exidx_config_rejected c \<longleftrightarrow>
     \<not> ident_is_valid (xc_model_id c) emb_max_identifier_bytes \<or>
     \<not> ident_is_valid (xc_model_version c) emb_max_identifier_bytes \<or>
     xc_dimensions c = 0 \<or> xc_dimensions c > emb_max_dimensions \<or> xc_capacity c = 0 \<or>
     xc_max_results c = 0 \<or> xc_max_results c > emb_max_results \<or> xc_initial_revision c = 0 \<or>
     xc_initial_revision c = UINT64_MAX \<or> xc_metric c \<noteq> Cosine_similarity"

text \<open>
  \<open>reserve\<close> of the whole capacity succeeds, fails with \<open>bad_alloc\<close>, or fails with \<open>length_error\<close>, which
  the handler does not catch: then no status is returned.
\<close>

datatype reserve_outcome = Reserve_ok | Reserve_bad_alloc | Reserve_length_error

definition exidx_configure ::
    "embedding_index_config \<Rightarrow> reserve_outcome \<Rightarrow> exact_embedding_index \<Rightarrow>
       status option \<times> exact_embedding_index" where
  "exidx_configure c outcome i =
     (if xi_is_configured i then (Some Invalid_state, i)
      else if exidx_config_rejected c then (Some Invalid_argument, i)
      else
        (case outcome of
           Reserve_bad_alloc \<Rightarrow> (Some Resource_exhausted, i)
         | Reserve_length_error \<Rightarrow> (None, i)
         | Reserve_ok \<Rightarrow>
             (Some Ok, i\<lparr>xi_records := [], xi_config := c, xi_revision := xc_initial_revision c,
                         xi_is_configured := True\<rparr>)))"

definition exidx_record_rejected :: "embedding_index_config \<Rightarrow> embedding_gallery_record \<Rightarrow> bool" where
  "exidx_record_rejected c r \<longleftrightarrow>
     gr_record_id r = 0 \<or> \<not> ident_is_valid (gr_subject_ref r) emb_max_subject_ref_bytes \<or>
     length (gr_values r) \<noteq> xc_dimensions c \<or> \<not> exidx_is_normalized (gr_values r)"

definition exidx_find :: "u64 \<Rightarrow> exact_embedding_index \<Rightarrow> nat option" where
  "exidx_find record_id i = first_index (\<lambda>r. gr_record_id r = record_id) (xi_records i)"

definition exidx_upsert ::
    "embedding_gallery_record \<Rightarrow> u64 \<Rightarrow> u64 \<Rightarrow> bool \<Rightarrow> exact_embedding_index \<Rightarrow>
       status \<times> exact_embedding_index" where
  "exidx_upsert r expected_revision new_revision alloc_ok i =
     (if \<not> xi_is_configured i then (Invalid_state, i)
      else if \<not> exidx_valid_revision_change (xi_revision i) expected_revision new_revision
        then (Invalid_state, i)
      else if exidx_record_rejected (xi_config i) r then (Invalid_argument, i)
      else
        (case exidx_find (gr_record_id r) i of
           None \<Rightarrow>
             if length (xi_records i) = xc_capacity (xi_config i) then (Resource_exhausted, i)
             else if \<not> alloc_ok then (Resource_exhausted, i)
             else (Ok, i\<lparr>xi_records := xi_records i @ [r], xi_revision := new_revision\<rparr>)
         | Some k \<Rightarrow>
             if \<not> alloc_ok then (Resource_exhausted, i)
             else (Ok, i\<lparr>xi_records := (xi_records i)[k := r], xi_revision := new_revision\<rparr>)))"

definition exidx_remove ::
    "u64 \<Rightarrow> u64 \<Rightarrow> u64 \<Rightarrow> exact_embedding_index \<Rightarrow> status \<times> exact_embedding_index" where
  "exidx_remove record_id expected_revision new_revision i =
     (if \<not> xi_is_configured i \<or> record_id = 0 then (Invalid_state, i)
      else if \<not> exidx_valid_revision_change (xi_revision i) expected_revision new_revision
        then (Invalid_state, i)
      else
        (case exidx_find record_id i of
           None \<Rightarrow> (Invalid_argument, i)
         | Some k \<Rightarrow>
             (Ok, i\<lparr>xi_records := take k (xi_records i) @ drop (Suc k) (xi_records i),
                    xi_revision := new_revision\<rparr>)))"

section \<open>Search\<close>

definition exidx_similarity :: "nat \<Rightarrow> fp list \<Rightarrow> fp list \<Rightarrow> fp" where
  "exidx_similarity dimensions query values =
     fold (\<lambda>d acc. fp_add binary64 acc (fp_mul binary64 (query ! d) (values ! d)))
       [0..<dimensions] (Finite 0)"

definition exidx_match :: "nat \<Rightarrow> fp list \<Rightarrow> embedding_gallery_record \<Rightarrow> embedding_match" where
  "exidx_match dimensions query r =
     \<lparr>em_record_id = gr_record_id r, em_subject_ref = gr_subject_ref r,
      em_similarity = fp_clamp (fp_narrow (exidx_similarity dimensions query (gr_values r)))
        (Finite (- 1)) (Finite 1)\<rparr>"

definition exidx_better :: "embedding_match \<Rightarrow> embedding_match \<Rightarrow> bool" where
  "exidx_better left right \<longleftrightarrow>
     fp_less (em_similarity right) (em_similarity left) \<or>
     (fp_eq (em_similarity left) (em_similarity right) \<and> em_record_id left < em_record_id right)"

definition exidx_consider ::
    "nat \<Rightarrow> fp list \<Rightarrow> fp \<Rightarrow> nat \<Rightarrow> embedding_gallery_record \<Rightarrow> embedding_match list \<Rightarrow>
       embedding_match list" where
  "exidx_consider dimensions query minimum top_k r matches =
     (let current = exidx_match dimensions query r
      in if fp_le minimum (em_similarity current) then keep_best exidx_better top_k current matches
         else matches)"

definition exidx_query_rejected ::
    "embedding_index_config \<Rightarrow> embedding_result \<Rightarrow> nat \<Rightarrow> fp \<Rightarrow> bool" where
  "exidx_query_rejected c q top_k minimum \<longleftrightarrow>
     er_model_id q \<noteq> xc_model_id c \<or> er_model_version q \<noteq> xc_model_version c \<or>
     length (er_values q) \<noteq> xc_dimensions c \<or> \<not> er_is_l2_normalized q \<or> top_k = 0 \<or>
     top_k > xc_max_results c \<or> \<not> fp_is_finite minimum \<or> fp_less minimum (Finite (- 1)) \<or>
     fp_less (Finite 1) minimum \<or> embct_validate_result q (er_frame q) \<noteq> Ok"

text \<open>\<open>room\<close> is the capacity of the caller's match vector, \<open>alloc_ok\<close> whether the copies succeed.\<close>

definition exidx_search ::
    "embedding_result \<Rightarrow> u64 \<Rightarrow> nat \<Rightarrow> fp \<Rightarrow> nat \<Rightarrow> bool \<Rightarrow> exact_embedding_index \<Rightarrow>
       embedding_search_result \<Rightarrow> status \<times> embedding_search_result" where
  "exidx_search q required_revision top_k minimum room alloc_ok i result =
     (if \<not> xi_is_configured i \<or> required_revision \<noteq> xi_revision i then (Invalid_state, result)
      else if exidx_query_rejected (xi_config i) q top_k minimum then (Invalid_argument, result)
      else if room < top_k then (Resource_exhausted, result)
      else if \<not> alloc_ok then (Resource_exhausted, result)
      else
        (let matches = rank_sort exidx_better
               (fold (exidx_consider (xc_dimensions (xi_config i)) (er_values q) minimum top_k)
                 (xi_records i) [])
         in (Ok, \<lparr>es_frame = er_frame q, es_track_id = er_track_id q,
                  es_gallery_revision = xi_revision i,
                  es_matches = take (min (length matches) top_k) matches\<rparr>)))"

definition exidx_revision :: "exact_embedding_index \<Rightarrow> u64" where
  "exidx_revision i = xi_revision i"

datatype exidx_op =
    Xi_configure embedding_index_config reserve_outcome
  | Xi_upsert embedding_gallery_record u64 u64 bool
  | Xi_remove u64 u64 u64

fun exidx_step :: "exidx_op \<Rightarrow> exact_embedding_index \<Rightarrow> exact_embedding_index" where
  "exidx_step (Xi_configure c outcome) i = snd (exidx_configure c outcome i)"
| "exidx_step (Xi_upsert r e n a) i = snd (exidx_upsert r e n a i)"
| "exidx_step (Xi_remove k e n) i = snd (exidx_remove k e n i)"


section \<open>A versioned map\<close>

definition exidx_inv :: "exact_embedding_index \<Rightarrow> bool" where
  "exidx_inv i \<longleftrightarrow>
     (xi_is_configured i \<longrightarrow>
        \<not> exidx_config_rejected (xi_config i) \<and> length (xi_records i) \<le> xc_capacity (xi_config i) \<and>
        list_all (\<lambda>r. \<not> exidx_record_rejected (xi_config i) r) (xi_records i)) \<and>
     (\<not> xi_is_configured i \<longrightarrow> xi_records i = []) \<and>
     distinct (map gr_record_id (xi_records i))"

text \<open>The gallery as a map from record ids, which is what its user sees of it.\<close>

definition gallery :: "exact_embedding_index \<Rightarrow> u64 \<Rightarrow> embedding_gallery_record option" where
  "gallery i = map_of (map (\<lambda>r. (gr_record_id r, r)) (xi_records i))"

lemma gallery_dom: "dom (gallery i) = set (map gr_record_id (xi_records i))"
  by (simp add: gallery_def dom_map_of_conv_image_fst image_image)

lemma gallery_Some:
  "distinct (map gr_record_id (xi_records i)) \<Longrightarrow>
     gallery i k = Some r \<longleftrightarrow> r \<in> set (xi_records i) \<and> gr_record_id r = k"
  by (auto simp: gallery_def map_of_eq_Some_iff comp_def)

lemma gallery_eqI:
  assumes "distinct (map gr_record_id (xi_records i))" "\<And>k r. m k = Some r \<longleftrightarrow> r \<in> set (xi_records i) \<and> gr_record_id r = k"
  shows "gallery i = m"
proof
  fix k
  show "gallery i k = m k"
    using gallery_Some [OF assms(1), of k] assms(2) [of k] by (cases "m k") (auto, metis not_None_eq)
qed

lemma find_None: "exidx_find k i = None \<longleftrightarrow> gallery i k = None"
  by (auto simp: exidx_find_def first_index_None gallery_def map_of_eq_None_iff image_image)

lemma find_split:
  assumes "exidx_find k i = Some n"
  obtains pre old post where "xi_records i = pre @ old # post" "length pre = n" "gr_record_id old = k"
proof -
  have n: "n < length (xi_records i)" "gr_record_id (xi_records i ! n) = k"
    using first_index_Some [of _ "xi_records i" n] assms by (auto simp: exidx_find_def)
  show ?thesis
    by (rule that [of "take n (xi_records i)" "xi_records i ! n" "drop (Suc n) (xi_records i)"])
      (use n in \<open>simp_all add: id_take_nth_drop [symmetric]\<close>)
qed

text \<open>What a compare-and-swap of the revision decides.\<close>

definition revision_swap :: "exact_embedding_index \<Rightarrow> u64 \<Rightarrow> u64 \<Rightarrow> bool" where
  "revision_swap i expected new \<longleftrightarrow>
     xi_is_configured i \<and> xi_revision i = expected \<and> unat new = Suc (unat expected)"

lemma valid_change_iff:
  "xi_is_configured i \<and> exidx_valid_revision_change (xi_revision i) e n \<longleftrightarrow> revision_swap i e n"
proof -
  have "n = e + 1 \<and> e \<noteq> UINT64_MAX \<longleftrightarrow> unat n = Suc (unat e)"
  proof
    assume "n = e + 1 \<and> e \<noteq> UINT64_MAX"
    then show "unat n = Suc (unat e)" by (simp add: unat_Suc_exact)
  next
    assume n: "unat n = Suc (unat e)"
    have "e \<noteq> UINT64_MAX" using n unat_less_64 [of n] by (auto simp: unat_max)
    moreover from this have "n = e + 1" using n by (simp add: word_unat_eq_iff unat_Suc_exact)
    ultimately show "n = e + 1 \<and> e \<noteq> UINT64_MAX" by simp
  qed
  then show ?thesis by (auto simp: exidx_valid_revision_change_def revision_swap_def)
qed

lemma upsert_refines:
  assumes inv: "exidx_inv i" and upsert: "exidx_upsert r e n alloc_ok i = (st, i')"
  shows "(st = Ok \<longleftrightarrow> revision_swap i e n \<and> \<not> exidx_record_rejected (xi_config i) r \<and> alloc_ok \<and>
      (gallery i (gr_record_id r) = None \<longrightarrow> length (xi_records i) < xc_capacity (xi_config i)))"
    and "st = Ok \<Longrightarrow> gallery i' = (gallery i)(gr_record_id r \<mapsto> r) \<and> xi_revision i' = n \<and> exidx_inv i'"
    and "st \<noteq> Ok \<Longrightarrow> i' = i"
proof -
  have ids: "distinct (map gr_record_id (xi_records i))" using inv by (simp add: exidx_inv_def)
  have room: "length (xi_records i) \<noteq> xc_capacity (xi_config i) \<longleftrightarrow>
      length (xi_records i) < xc_capacity (xi_config i)" if "xi_is_configured i"
    using inv that by (auto simp: exidx_inv_def)
  consider (refused) "\<not> (revision_swap i e n \<and> \<not> exidx_record_rejected (xi_config i) r)"
    | (appended) "revision_swap i e n" "\<not> exidx_record_rejected (xi_config i) r"
        "exidx_find (gr_record_id r) i = None"
    | (replaced) pos where "revision_swap i e n" "\<not> exidx_record_rejected (xi_config i) r"
        "exidx_find (gr_record_id r) i = Some pos"
    by fastforce
  then have "(st = Ok \<longleftrightarrow> revision_swap i e n \<and> \<not> exidx_record_rejected (xi_config i) r \<and> alloc_ok \<and>
      (gallery i (gr_record_id r) = None \<longrightarrow> length (xi_records i) < xc_capacity (xi_config i))) \<and>
    (st = Ok \<longrightarrow> gallery i' = (gallery i)(gr_record_id r \<mapsto> r) \<and> xi_revision i' = n \<and> exidx_inv i') \<and>
    (st \<noteq> Ok \<longrightarrow> i' = i)"
  proof cases
    case refused
    then have "st \<noteq> Ok \<and> i' = i"
      using upsert valid_change_iff [of i e n] by (auto simp: exidx_upsert_def split: if_splits)
    then show ?thesis using refused by auto
  next
    case appended
    note swap = appended(1) [folded valid_change_iff]
    have fresh: "gr_record_id r \<notin> gr_record_id ` set (xi_records i)"
      using appended(3) by (auto simp: exidx_find_def first_index_None)
    have result: "(st, i') = (if length (xi_records i) = xc_capacity (xi_config i) \<or> \<not> alloc_ok
        then (Resource_exhausted, i)
        else (Ok, i\<lparr>xi_records := xi_records i @ [r], xi_revision := n\<rparr>))"
      unfolding upsert [symmetric] using swap appended by (simp add: exidx_upsert_def)
    have "gallery (i\<lparr>xi_records := xi_records i @ [r], xi_revision := n\<rparr>) = (gallery i)(gr_record_id r \<mapsto> r)"
      by (rule gallery_eqI) (use ids fresh in \<open>auto simp: gallery_Some image_iff\<close>)
    moreover have "exidx_inv (i\<lparr>xi_records := xi_records i @ [r], xi_revision := n\<rparr>)"
      if "length (xi_records i) < xc_capacity (xi_config i)"
      using inv fresh swap appended(2) that by (auto simp: exidx_inv_def)
    ultimately show ?thesis
      using result room swap appended find_None [of "gr_record_id r" i] by (auto split: if_splits)
  next
    case (replaced pos)
    note swap = replaced(1) [folded valid_change_iff]
    obtain pre old post where split: "xi_records i = pre @ old # post" "length pre = pos"
      "gr_record_id old = gr_record_id r" by (rule find_split [OF replaced(3)])
    have updated: "(xi_records i)[pos := r] = pre @ r # post" using split by auto
    have result: "(st, i') = (if \<not> alloc_ok then (Resource_exhausted, i)
        else (Ok, i\<lparr>xi_records := pre @ r # post, xi_revision := n\<rparr>))"
      unfolding upsert [symmetric] using swap replaced updated by (simp add: exidx_upsert_def)
    have "gallery (i\<lparr>xi_records := pre @ r # post, xi_revision := n\<rparr>) = (gallery i)(gr_record_id r \<mapsto> r)"
      by (rule gallery_eqI) (use ids split in \<open>auto simp: gallery_Some image_iff\<close>)
    moreover have "exidx_inv (i\<lparr>xi_records := pre @ r # post, xi_revision := n\<rparr>)"
      using inv swap replaced(2) split by (auto simp: exidx_inv_def)
    moreover have "gallery i (gr_record_id r) \<noteq> None" using replaced(3) find_None [of "gr_record_id r" i] by simp
    ultimately show ?thesis using result swap replaced by (auto split: if_splits)
  qed
  then show "(st = Ok \<longleftrightarrow> revision_swap i e n \<and> \<not> exidx_record_rejected (xi_config i) r \<and> alloc_ok \<and>
      (gallery i (gr_record_id r) = None \<longrightarrow> length (xi_records i) < xc_capacity (xi_config i)))"
    "st = Ok \<Longrightarrow> gallery i' = (gallery i)(gr_record_id r \<mapsto> r) \<and> xi_revision i' = n \<and> exidx_inv i'"
    "st \<noteq> Ok \<Longrightarrow> i' = i" by argo+
qed

lemma remove_refines:
  assumes inv: "exidx_inv i" and remove: "exidx_remove k e n i = (st, i')"
  shows "(st = Ok \<longleftrightarrow> revision_swap i e n \<and> k \<noteq> 0 \<and> gallery i k \<noteq> None)"
    and "st = Ok \<Longrightarrow> gallery i' = (gallery i)(k := None) \<and> xi_revision i' = n \<and> exidx_inv i'"
    and "st \<noteq> Ok \<Longrightarrow> i' = i"
proof -
  have ids: "distinct (map gr_record_id (xi_records i))" using inv by (simp add: exidx_inv_def)
  have "(st = Ok \<longleftrightarrow> revision_swap i e n \<and> k \<noteq> 0 \<and> gallery i k \<noteq> None) \<and>
    (st = Ok \<longrightarrow> gallery i' = (gallery i)(k := None) \<and> xi_revision i' = n \<and> exidx_inv i') \<and>
    (st \<noteq> Ok \<longrightarrow> i' = i)"
  proof (cases "revision_swap i e n \<and> k \<noteq> 0 \<and> gallery i k \<noteq> None")
    case False
    then have "st \<noteq> Ok \<and> i' = i"
      using remove valid_change_iff [of i e n] find_None [of k i]
      by (auto simp: exidx_remove_def split: if_splits option.splits)
    then show ?thesis using False by auto
  next
    case True
    then obtain pos where found: "exidx_find k i = Some pos" using find_None [of k i] by auto
    obtain pre old post where split: "xi_records i = pre @ old # post" "length pre = pos" "gr_record_id old = k"
      by (rule find_split [OF found])
    have erased: "take pos (xi_records i) @ drop (Suc pos) (xi_records i) = pre @ post" using split by auto
    have result: "st = Ok \<and> i' = i\<lparr>xi_records := pre @ post, xi_revision := n\<rparr>"
      using remove True valid_change_iff [of i e n] found erased by (auto simp: exidx_remove_def)
    have "gallery (i\<lparr>xi_records := pre @ post, xi_revision := n\<rparr>) = (gallery i)(k := None)"
      by (rule gallery_eqI) (use ids split in \<open>auto simp: gallery_Some image_iff\<close>)
    moreover have "exidx_inv (i\<lparr>xi_records := pre @ post, xi_revision := n\<rparr>)"
      using inv True split by (auto simp: exidx_inv_def revision_swap_def)
    ultimately show ?thesis using result True by simp
  qed
  then show "(st = Ok \<longleftrightarrow> revision_swap i e n \<and> k \<noteq> 0 \<and> gallery i k \<noteq> None)"
    "st = Ok \<Longrightarrow> gallery i' = (gallery i)(k := None) \<and> xi_revision i' = n \<and> exidx_inv i'"
    "st \<noteq> Ok \<Longrightarrow> i' = i" by argo+
qed

lemma exidx_step_inv: "exidx_inv i \<Longrightarrow> exidx_inv (exidx_step a i)"
proof (cases a)
  case (Xi_configure c outcome)
  assume "exidx_inv i"
  then show ?thesis unfolding Xi_configure
    by (auto simp: exidx_configure_def exidx_inv_def split: reserve_outcome.split)
next
  case (Xi_upsert r e n b)
  assume "exidx_inv i"
  then show ?thesis unfolding Xi_upsert exidx_step.simps
    by (cases "exidx_upsert r e n b i") (metis snd_conv upsert_refines(2,3))
next
  case (Xi_remove k e n)
  assume "exidx_inv i"
  then show ?thesis unfolding Xi_remove exidx_step.simps
    by (cases "exidx_remove k e n i") (metis snd_conv remove_refines(2,3))
qed

interpretation exidx: step_system exidx_step exidx_inv
  by unfold_locales (rule exidx_step_inv)

lemma exidx_inv_initial: "exidx_inv exidx_initial"
  by (simp add: exidx_inv_def exidx_initial_def)


section \<open>A search returns the best\<close>

definition exidx_rank :: "embedding_match \<Rightarrow> rat \<times> u64" where
  "exidx_rank m = (case em_similarity m of Finite q \<Rightarrow> (- q, em_record_id m) | _ \<Rightarrow> (0, em_record_id m))"

definition finite_match :: "embedding_match \<Rightarrow> bool" where
  "finite_match m \<longleftrightarrow> fp_is_finite (em_similarity m)"

text \<open>The code's comparator is the strict order by falling similarity, then by rising record id.\<close>

interpretation exidx_order: ranking exidx_better exidx_rank finite_match
proof unfold_locales
  fix a b
  assume "finite_match a" "finite_match b"
  then show "exidx_better a b \<longleftrightarrow> exidx_rank a < exidx_rank b"
    by (cases "em_similarity a"; cases "em_similarity b")
      (auto simp: exidx_better_def exidx_rank_def finite_match_def fp_less_def)
qed

lemma clamp_finite:
  assumes "fp_le (Finite q) (fp_clamp v (Finite a) (Finite b))"
  shows "fp_is_finite (fp_clamp v (Finite a) (Finite b))"
  using assms by (cases v) (auto simp: fp_clamp_def fp_less_def)

text \<open>What a search ranks: every record that is similar enough.\<close>

definition candidates :: "exact_embedding_index \<Rightarrow> fp list \<Rightarrow> fp \<Rightarrow> embedding_match list" where
  "candidates i query minimum =
     filter (\<lambda>m. fp_le minimum (em_similarity m))
       (map (exidx_match (xc_dimensions (xi_config i)) query) (xi_records i))"

lemma consider_all:
  "fold (exidx_consider d query minimum k) rs ms =
     fold (keep_best exidx_better k) (filter (\<lambda>m. fp_le minimum (em_similarity m)) (map (exidx_match d query) rs)) ms"
  by (induction rs arbitrary: ms) (simp_all add: exidx_consider_def Let_def)

lemma match_id [simp]: "em_record_id (exidx_match d query r) = gr_record_id r"
  by (simp add: exidx_match_def)

lemma candidates_good:
  assumes "exidx_inv i" "fp_is_finite minimum"
  shows "list_all finite_match (candidates i query minimum)"
    and "distinct (map exidx_rank (candidates i query minimum))"
proof -
  obtain q where q: "minimum = Finite q" using assms(2) by (cases minimum) auto
  show "list_all finite_match (candidates i query minimum)"
    by (auto simp: list_all_iff candidates_def finite_match_def exidx_match_def q intro: clamp_finite)
  have "distinct (map em_record_id (map (exidx_match (xc_dimensions (xi_config i)) query) (xi_records i)))"
    using assms(1) by (simp add: exidx_inv_def comp_def)
  then have "distinct (map em_record_id (candidates i query minimum))"
    unfolding candidates_def by (rule distinct_map_filter)
  moreover have "snd (exidx_rank m) = em_record_id m" for m
    by (simp add: exidx_rank_def split: fp.split)
  then have "map em_record_id (candidates i query minimum) =
      map snd (map exidx_rank (candidates i query minimum))" by simp
  ultimately show "distinct (map exidx_rank (candidates i query minimum))"
    by (metis distinct_map)
qed

lemma search_exact:
  assumes inv: "exidx_inv i" and search: "exidx_search q revision k minimum room alloc_ok i result = (st, r)"
  shows "r = (if st = Ok then \<lparr>es_frame = er_frame q, es_track_id = er_track_id q,
      es_gallery_revision = xi_revision i,
      es_matches = take k (sort_key exidx_rank (candidates i (er_values q) minimum))\<rparr> else result)"
proof (cases "st = Ok")
  case True
  then have query: "\<not> exidx_query_rejected (xi_config i) q k minimum"
    and r: "r = \<lparr>es_frame = er_frame q, es_track_id = er_track_id q, es_gallery_revision = xi_revision i,
      es_matches = (let matches = rank_sort exidx_better
        (fold (exidx_consider (xc_dimensions (xi_config i)) (er_values q) minimum k) (xi_records i) [])
        in take (min (length matches) k) matches)\<rparr>"
    using search by (auto simp: exidx_search_def Let_def split: if_splits)
  have k: "0 < k" "fp_is_finite minimum" using query by (auto simp: exidx_query_rejected_def)
  note good = candidates_good [OF inv k(2), of "er_values q"]
  have "rank_sort exidx_better
      (fold (exidx_consider (xc_dimensions (xi_config i)) (er_values q) minimum k) (xi_records i) []) =
    take k (sort_key exidx_rank (candidates i (er_values q) minimum))"
    unfolding consider_all candidates_def [symmetric] by (rule exidx_order.top_k_exact [OF good k(1)])
  then show ?thesis using True r by (simp add: Let_def min_def)
next
  case False
  then show ?thesis using search by (auto simp: exidx_search_def Let_def split: if_splits)
qed

section \<open>Galleries\<close>

definition fg_schema_version :: u32 where "fg_schema_version = 1"
definition fg_max_records :: nat where "fg_max_records = 4096"

record face_gallery_config =
  fgc_gallery_id :: string
  fgc_model_id :: string
  fgc_model_version :: string
  fgc_preprocess_revision :: u64
  fgc_dimensions :: nat
  fgc_capacity :: nat
  fgc_max_templates_per_subject :: nat

record face_gallery_template =
  ft_record_id :: u64
  ft_subject_ref :: string
  ft_values :: "fp list"

record face_gallery_snapshot =
  fg_schema :: u32
  fg_revision :: u64
  fg_next_record_id :: u64
  fg_gallery_id :: string
  fg_model_id :: string
  fg_model_version :: string
  fg_preprocess_revision :: u64
  fg_dimensions :: nat
  fg_templates :: "face_gallery_template list"

definition fgalr_is_normalized :: "fp list \<Rightarrow> bool" where
  "fgalr_is_normalized vs \<longleftrightarrow>
     list_all fp_is_finite vs \<and> fp_le (norm_error (squared_norm vs)) emb_normalized_tolerance"

definition fgalr_validate_config :: "face_gallery_config \<Rightarrow> status" where
  "fgalr_validate_config c =
     (if \<not> ident_is_valid (fgc_gallery_id c) emb_max_identifier_bytes \<or>
         \<not> ident_is_valid (fgc_model_id c) emb_max_identifier_bytes \<or>
         \<not> ident_is_valid (fgc_model_version c) emb_max_identifier_bytes \<or>
         fgc_preprocess_revision c = 0 \<or> fgc_dimensions c = 0 \<or>
         fgc_dimensions c > emb_max_dimensions \<or> fgc_capacity c = 0 \<or>
         fgc_capacity c > fg_max_records \<or> fgc_max_templates_per_subject c = 0 \<or>
         fgc_max_templates_per_subject c > fgc_capacity c then Invalid_argument
      else Ok)"

text \<open>
  The loop over the templates with its two containers: the set of record ids and the counts per subject.
  The subject is counted last, only when every other check of the template passed. At template number
  \<open>n\<close> the allocation of a node of the set succeeds when \<open>fst (alloc n)\<close>, of the map when \<open>snd (alloc n)\<close>.
\<close>

fun fgalr_templates_from ::
    "face_gallery_config \<Rightarrow> u64 \<Rightarrow> (nat \<Rightarrow> bool \<times> bool) \<Rightarrow> u64 list \<Rightarrow> (string \<Rightarrow> nat) \<Rightarrow>
       face_gallery_template list \<Rightarrow> status" where
  "fgalr_templates_from c next_id alloc ids counts [] = Ok"
| "fgalr_templates_from c next_id alloc ids counts (t # ts) =
     (if ft_record_id t = 0 \<or> ft_record_id t \<ge> next_id then Invalid_argument
      else if ft_record_id t \<in> set ids then Invalid_argument
      else if \<not> fst (alloc (length ids)) then Resource_exhausted
      else if \<not> ident_is_valid (ft_subject_ref t) emb_max_identifier_bytes \<or>
         length (ft_values t) \<noteq> fgc_dimensions c \<or> \<not> fgalr_is_normalized (ft_values t) then Invalid_argument
      else if counts (ft_subject_ref t) = 0 \<and> \<not> snd (alloc (length ids)) then Resource_exhausted
      else if Suc (counts (ft_subject_ref t)) > fgc_max_templates_per_subject c then Invalid_argument
      else fgalr_templates_from c next_id alloc (ft_record_id t # ids)
             (counts(ft_subject_ref t := Suc (counts (ft_subject_ref t)))) ts)"

definition fgalr_validate_snapshot :: "face_gallery_config \<Rightarrow> face_gallery_snapshot \<Rightarrow> (nat \<Rightarrow> bool \<times> bool) \<Rightarrow> status" where
  "fgalr_validate_snapshot c s alloc =
     (let config_status = fgalr_validate_config c in
      if config_status \<noteq> Ok then config_status
      else if fg_schema s \<noteq> fg_schema_version \<or> fg_revision s = 0 \<or> fg_revision s = UINT64_MAX \<or>
          fg_next_record_id s = 0 \<or> fg_next_record_id s = UINT64_MAX \<or>
          fg_gallery_id s \<noteq> fgc_gallery_id c \<or> fg_model_id s \<noteq> fgc_model_id c \<or>
          fg_model_version s \<noteq> fgc_model_version c \<or>
          fg_preprocess_revision s \<noteq> fgc_preprocess_revision c \<or>
          fg_dimensions s \<noteq> fgc_dimensions c \<or> length (fg_templates s) > fgc_capacity c
        then Invalid_argument
      else fgalr_templates_from c (fg_next_record_id s) alloc [] (\<lambda>_. 0) (fg_templates s))"

definition fgalr_validate_replacement ::
    "face_gallery_config \<Rightarrow> u64 \<Rightarrow> face_gallery_snapshot \<Rightarrow> (nat \<Rightarrow> bool \<times> bool) \<Rightarrow> status" where
  "fgalr_validate_replacement c expected_revision replacement alloc =
     (if expected_revision = 0 \<or> expected_revision = UINT64_MAX \<or>
         fg_revision replacement \<le> expected_revision then Invalid_state
      else fgalr_validate_snapshot c replacement alloc)"

definition template_ok :: "face_gallery_config \<Rightarrow> u64 \<Rightarrow> face_gallery_template \<Rightarrow> bool" where
  "template_ok c next_id t \<longleftrightarrow>
     ft_record_id t \<noteq> 0 \<and> ft_record_id t < next_id \<and>
     ident_is_valid (ft_subject_ref t) emb_max_identifier_bytes \<and>
     length (ft_values t) = fgc_dimensions c \<and> fgalr_is_normalized (ft_values t)"

definition plenty :: "nat \<Rightarrow> bool \<times> bool" where "plenty n = (True, True)"

lemma templates_from_Ok:
  "fgalr_templates_from c n plenty ids counts ts = Ok \<longleftrightarrow>
     list_all (template_ok c n) ts \<and> distinct (map ft_record_id ts) \<and>
     set ids \<inter> set (map ft_record_id ts) = {} \<and>
     (\<forall>t \<in> set ts. counts (ft_subject_ref t) + length (filter (\<lambda>u. ft_subject_ref u = ft_subject_ref t) ts)
        \<le> fgc_max_templates_per_subject c)"
proof (induction ts arbitrary: ids counts)
  case (Cons t ts)
  let ?same = "\<lambda>v us. length (filter (\<lambda>u. ft_subject_ref u = v) us)"
  let ?counts = "counts(ft_subject_ref t := Suc (counts (ft_subject_ref t)))"
  let ?limit = "fgc_max_templates_per_subject c"
  define fits where "fits r \<longleftrightarrow> ?counts r + ?same r ts \<le> ?limit" for r
  have fits: "counts r + ?same r (t # ts) \<le> ?limit \<longleftrightarrow> fits r" for r by (simp add: fits_def)
  have "fits (ft_subject_ref t) \<longleftrightarrow> Suc (counts (ft_subject_ref t)) + ?same (ft_subject_ref t) ts \<le> ?limit"
    by (simp add: fits_def)
  moreover have "?same (ft_subject_ref t) ts = 0 \<or> (\<exists>v \<in> set ts. ft_subject_ref v = ft_subject_ref t)"
    by (auto simp: filter_empty_conv)
  ultimately have "Suc (counts (ft_subject_ref t)) \<le> ?limit \<and> (\<forall>v \<in> set ts. fits (ft_subject_ref v)) \<longleftrightarrow>
      fits (ft_subject_ref t) \<and> (\<forall>v \<in> set ts. fits (ft_subject_ref v))"
    by (metis add.right_neutral add_leD1)
  then have counted: "Suc (counts (ft_subject_ref t)) \<le> ?limit \<and>
      (\<forall>v \<in> set ts. ?counts (ft_subject_ref v) + ?same (ft_subject_ref v) ts \<le> ?limit) \<longleftrightarrow>
      (\<forall>v \<in> set (t # ts). counts (ft_subject_ref v) + ?same (ft_subject_ref v) (t # ts) \<le> ?limit)"
    unfolding fits fits_def [symmetric] by (simp only: list.set) blast
  define rest where "rest \<longleftrightarrow> (\<forall>v \<in> set ts. ?counts (ft_subject_ref v) + ?same (ft_subject_ref v) ts \<le> ?limit)"
  have IH: "fgalr_templates_from c n plenty (ft_record_id t # ids) ?counts ts = Ok \<longleftrightarrow>
      list_all (template_ok c n) ts \<and> distinct (map ft_record_id ts) \<and>
      set (ft_record_id t # ids) \<inter> set (map ft_record_id ts) = {} \<and> rest"
    unfolding rest_def by (rule Cons.IH)
  have head: "fgalr_templates_from c n plenty ids counts (t # ts) = Ok \<longleftrightarrow>
      template_ok c n t \<and> ft_record_id t \<notin> set ids \<and> Suc (counts (ft_subject_ref t)) \<le> ?limit \<and>
      fgalr_templates_from c n plenty (ft_record_id t # ids) ?counts ts = Ok"
    unfolding fgalr_templates_from.simps template_ok_def plenty_def fst_conv snd_conv
    by (simp only: early_return status_code.distinct simp_thms de_Morgan_disj not_le not_less not_not) blast
  show ?case unfolding head IH counted [symmetric] rest_def [symmetric] by auto
qed simp


lemma snapshot_Ok:
  "fgalr_validate_snapshot c s plenty = Ok \<longleftrightarrow>
     fgalr_validate_config c = Ok \<and> fg_schema s = 1 \<and> fg_revision s \<noteq> 0 \<and> fg_revision s \<noteq> UINT64_MAX \<and>
     fg_next_record_id s \<noteq> 0 \<and> fg_next_record_id s \<noteq> UINT64_MAX \<and>
     fg_gallery_id s = fgc_gallery_id c \<and> fg_model_id s = fgc_model_id c \<and>
     fg_model_version s = fgc_model_version c \<and>
     fg_preprocess_revision s = fgc_preprocess_revision c \<and> fg_dimensions s = fgc_dimensions c \<and>
     length (fg_templates s) \<le> fgc_capacity c \<and>
     list_all (template_ok c (fg_next_record_id s)) (fg_templates s) \<and>
     distinct (map ft_record_id (fg_templates s)) \<and>
     (\<forall>t \<in> set (fg_templates s).
        length (filter (\<lambda>u. ft_subject_ref u = ft_subject_ref t) (fg_templates s))
          \<le> fgc_max_templates_per_subject c)"
proof -
  have templates: "fgalr_templates_from c (fg_next_record_id s) plenty [] (\<lambda>_. 0) (fg_templates s) = Ok \<longleftrightarrow>
      list_all (template_ok c (fg_next_record_id s)) (fg_templates s) \<and>
      distinct (map ft_record_id (fg_templates s)) \<and>
      (\<forall>t \<in> set (fg_templates s).
        length (filter (\<lambda>u. ft_subject_ref u = ft_subject_ref t) (fg_templates s))
          \<le> fgc_max_templates_per_subject c)"
    by (simp only: templates_from_Ok list.set Int_empty_left simp_thms add_0)
  show ?thesis
    unfolding fgalr_validate_snapshot_def Let_def templates [symmetric] fg_schema_version_def
    by (cases "fgalr_validate_config c = Ok"; simp add: early_return not_less; blast)
qed

lemma templates_from_alloc: "fgalr_templates_from c n alloc ids counts ts = Ok \<Longrightarrow>
    fgalr_templates_from c n plenty ids counts ts = Ok"
  by (induction ts arbitrary: ids counts) (simp_all add: early_return plenty_def)

lemma snapshot_accepted: "fgalr_validate_snapshot c s alloc = Ok \<Longrightarrow> fgalr_validate_snapshot c s plenty = Ok"
  using templates_from_alloc by (auto simp: fgalr_validate_snapshot_def Let_def split: if_splits)

text \<open>
  A gallery that was accepted can be loaded: every template is a record that an index of the same model
  takes, since both check the same identity, length and norm.
\<close>

lemma accepted_template_loads:
  assumes "fgalr_validate_snapshot c s alloc = Ok" "t \<in> set (fg_templates s)"
    and "xc_dimensions x = fgc_dimensions c"
  shows "\<not> exidx_record_rejected x
    \<lparr>gr_record_id = ft_record_id t, gr_subject_ref = ft_subject_ref t, gr_values = ft_values t\<rparr>"
  using snapshot_accepted [OF assms(1)] assms(2,3)
  by (auto simp: snapshot_Ok list_all_iff template_ok_def exidx_record_rejected_def
      fgalr_is_normalized_def exidx_is_normalized_def emb_max_identifier_bytes_def
      emb_max_subject_ref_bytes_def)

section \<open>Properties\<close>

text \<open>When the versioned map takes a record: the revision matches, and there is room or it is a replacement.\<close>

definition takes_record ::
    "exact_embedding_index \<Rightarrow> embedding_gallery_record \<Rightarrow> u64 \<Rightarrow> u64 \<Rightarrow> bool" where
  "takes_record i r expected new \<longleftrightarrow>
     revision_swap i expected new \<and> \<not> exidx_record_rejected (xi_config i) r \<and>
     (gr_record_id r \<in> dom (gallery i) \<or> card (dom (gallery i)) < xc_capacity (xi_config i))"

lemma card_gallery: "exidx_inv i \<Longrightarrow> card (dom (gallery i)) = length (xi_records i)"
  unfolding gallery_dom by (subst distinct_card) (simp_all add: exidx_inv_def)

text \<open>
  C36. After any calls the index is a versioned map from record ids: an upsert succeeds exactly when its
  expected revision is the current one, the new one is its successor, the record is valid and there is
  room or it replaces; then the map is updated at that id only. A removal succeeds exactly for a present
  id. Everything else leaves the index as it was.
\<close>

theorem exidx_is_versioned_map:
  "let i = fold exidx_step ops exidx_initial;
       (st, i1) = exidx_upsert r expected new alloc_ok i;
       (st', i2) = exidx_remove k expected new i
   in (st = Ok) = (takes_record i r expected new \<and> alloc_ok) \<and>
      (if st = Ok then gallery i1 = (gallery i)(gr_record_id r \<mapsto> r) \<and> xi_revision i1 = new else i1 = i) \<and>
      (st' = Ok) = (revision_swap i expected new \<and> k \<noteq> 0 \<and> k \<in> dom (gallery i)) \<and>
      (if st' = Ok then gallery i2 = (gallery i)(k := None) \<and> xi_revision i2 = new else i2 = i)"
proof -
  let ?i = "fold exidx_step ops exidx_initial"
  have inv: "exidx_inv ?i" by (rule exidx.run_inv [OF exidx_inv_initial])
  obtain st i1 where up: "exidx_upsert r expected new alloc_ok ?i = (st, i1)" by fastforce
  obtain st' i2 where rem: "exidx_remove k expected new ?i = (st', i2)" by fastforce
  have taken: "takes_record ?i r expected new \<and> alloc_ok \<longleftrightarrow> st = Ok"
    unfolding upsert_refines(1) [OF inv up] takes_record_def card_gallery [OF inv] domIff by blast
  note up_ok = upsert_refines(2) [OF inv up] and up_no = upsert_refines(3) [OF inv up]
  note rem_iff = remove_refines(1) [OF inv rem]
  note rem_ok = remove_refines(2) [OF inv rem] and rem_no = remove_refines(3) [OF inv rem]
  show ?thesis
    unfolding Let_def up rem prod.case taken domIff
    using up_ok up_no rem_iff rem_ok rem_no by simp
qed

text \<open>
  C37. A successful search returns exactly the best matches: of all records whose similarity, computed and
  rounded as the code does, reaches the minimum, the \<open>top_k\<close> first by falling similarity and rising
  record id, in that order, of the revision that was asked for; a refused search leaves the result alone.
\<close>

theorem exidx_search_returns_best:
  "let i = fold exidx_step ops exidx_initial;
       (st, r) = exidx_search q revision top_k minimum room alloc_ok i result
   in r = (if st = Ok
           then \<lparr>es_frame = er_frame q, es_track_id = er_track_id q, es_gallery_revision = xi_revision i,
                 es_matches = take top_k (sort_key exidx_rank
                   (filter (\<lambda>m. fp_le minimum (em_similarity m))
                     (map (exidx_match (xc_dimensions (xi_config i)) (er_values q)) (xi_records i))))\<rparr>
           else result)"
proof -
  let ?i = "fold exidx_step ops exidx_initial"
  have inv: "exidx_inv ?i" by (rule exidx.run_inv [OF exidx_inv_initial])
  obtain st r where run: "exidx_search q revision top_k minimum room alloc_ok ?i result = (st, r)"
    by fastforce
  show ?thesis using search_exact [OF inv run] by (simp add: run Let_def candidates_def)
qed

end
