(* ===== verification/Recognition_Policy.thy ===== *)
theory Recognition_Policy
  imports Face_Index "HOL-Library.List_Lexorder" "HOL-Library.Char_ord"
begin

text \<open>
  Who a face is: contracts/recognition.hpp with perception/embedding/recognition_policy.cpp (prefix
  \<open>rcpol\<close>). The policy folds the matches of a search into one score per subject and decides between a
  known subject, nobody known, and two subjects too close to tell. The lemmas show that the decision is
  the one the best score of every subject calls for, whatever the order of the matches.
\<close>

section \<open>Data\<close>

definition rcg_max_subjects :: nat where "rcg_max_subjects = emb_max_results"

datatype recognition_decision = Known | Unknown | Ambiguous

record recognition_policy_config =
  rp_minimum_similarity :: fp
  rp_minimum_subject_margin :: fp
  rp_max_subjects :: nat

record recognition_match_result =
  rm_frame :: preview_frame_key
  rm_track_id :: u64
  rm_gallery_revision :: u64
  rm_decision :: recognition_decision
  rm_subject_ref :: string
  rm_best_similarity :: fp
  rm_subject_margin :: fp

record subject_candidate =
  sc_subject_ref :: string
  sc_similarity :: fp

section \<open>The policy\<close>

definition rcpol_is_finite_score :: "fp \<Rightarrow> bool" where
  "rcpol_is_finite_score s \<longleftrightarrow> fp_is_finite s \<and> fp_le (Finite (- 1)) s \<and> fp_le s (Finite 1)"

definition rcpol_validate_config :: "recognition_policy_config \<Rightarrow> status" where
  "rcpol_validate_config c =
     (if \<not> fp_is_finite (rp_minimum_similarity c) \<or> fp_less (rp_minimum_similarity c) (Finite (- 1)) \<or>
         fp_less (Finite 1) (rp_minimum_similarity c) \<or> \<not> fp_is_finite (rp_minimum_subject_margin c) \<or>
         fp_less (rp_minimum_subject_margin c) (Finite 0) \<or>
         fp_less (Finite 2) (rp_minimum_subject_margin c) \<or> rp_max_subjects c = 0 \<or>
         rp_max_subjects c > rcg_max_subjects then Invalid_argument
      else Ok)"

text \<open>
  The loop over the matches: \<open>seen\<close> holds the record ids before, \<open>cs\<close> the candidates, and \<open>alloc n\<close> says
  whether the name of candidate \<open>n\<close> could be copied.
\<close>

fun rcpol_collect ::
    "nat \<Rightarrow> (nat \<Rightarrow> bool) \<Rightarrow> u64 list \<Rightarrow> subject_candidate list \<Rightarrow> embedding_match list \<Rightarrow>
       status + subject_candidate list" where
  "rcpol_collect max_subjects alloc seen cs [] = Inr cs"
| "rcpol_collect max_subjects alloc seen cs (m # ms) =
     (if em_record_id m = 0 \<or> \<not> ident_is_valid (em_subject_ref m) emb_max_subject_ref_bytes \<or>
         \<not> rcpol_is_finite_score (em_similarity m) then Inl Protocol_error
      else if em_record_id m \<in> set seen then Inl Protocol_error
      else
        (case first_index (\<lambda>c. sc_subject_ref c = em_subject_ref m) cs of
           None \<Rightarrow>
             if length cs = max_subjects then Inl Resource_exhausted
             else if \<not> alloc (length cs) then Inl Resource_exhausted
             else rcpol_collect max_subjects alloc (em_record_id m # seen)
                    (cs @ [\<lparr>sc_subject_ref = em_subject_ref m, sc_similarity = em_similarity m\<rparr>]) ms
         | Some k \<Rightarrow>
             rcpol_collect max_subjects alloc (em_record_id m # seen)
               (if fp_less (sc_similarity (cs ! k)) (em_similarity m)
                then cs[k := (cs ! k)\<lparr>sc_similarity := em_similarity m\<rparr>] else cs) ms))"

definition rcpol_better :: "subject_candidate \<Rightarrow> subject_candidate \<Rightarrow> bool" where
  "rcpol_better left right \<longleftrightarrow>
     fp_less (sc_similarity right) (sc_similarity left) \<or>
     (fp_eq (sc_similarity left) (sc_similarity right) \<and> sc_subject_ref left < sc_subject_ref right)"

definition rcpol_decide ::
    "recognition_policy_config \<Rightarrow> embedding_search_result \<Rightarrow> subject_candidate list \<Rightarrow>
       recognition_match_result" where
  "rcpol_decide c search cs =
     (let blank = \<lparr>rm_frame = es_frame search, rm_track_id = es_track_id search,
            rm_gallery_revision = es_gallery_revision search, rm_decision = Unknown, rm_subject_ref = [],
            rm_best_similarity = Finite 0, rm_subject_margin = Finite 0\<rparr>
      in if cs = [] then blank
         else
           (let sorted_cs = rank_sort rcpol_better cs;
                best = sc_similarity (sorted_cs ! 0);
                margin = (if length cs > 1
                  then fp_sub binary32 (sc_similarity (sorted_cs ! 0)) (sc_similarity (sorted_cs ! 1))
                  else Finite 0);
                evaluated = blank\<lparr>rm_best_similarity := best, rm_subject_margin := margin\<rparr>
            in if fp_less best (rp_minimum_similarity c) then evaluated\<lparr>rm_decision := Unknown\<rparr>
               else if length cs > 1 \<and> fp_less margin (rp_minimum_subject_margin c)
                 then evaluated\<lparr>rm_decision := Ambiguous\<rparr>
               else evaluated\<lparr>rm_decision := Known, rm_subject_ref := sc_subject_ref (sorted_cs ! 0)\<rparr>))"

definition rcpol_evaluate ::
    "embedding_search_result \<Rightarrow> u64 \<Rightarrow> recognition_policy_config \<Rightarrow> (nat \<Rightarrow> bool) \<Rightarrow>
       recognition_match_result \<Rightarrow> status \<times> recognition_match_result" where
  "rcpol_evaluate search required_revision c alloc result =
     (let config_status = rcpol_validate_config c in
      if config_status \<noteq> Ok then (config_status, result)
      else if required_revision = 0 \<or> required_revision = UINT64_MAX \<or>
          es_gallery_revision search \<noteq> required_revision \<or>
          length (es_matches search) > emb_max_results then (Invalid_state, result)
      else
        (case rcpol_collect (rp_max_subjects c) alloc [] [] (es_matches search) of
           Inl e \<Rightarrow> (e, result)
         | Inr cs \<Rightarrow> (Ok, rcpol_decide c search cs)))"

section \<open>One score per subject\<close>

fun score_of :: "fp \<Rightarrow> rat" where
  "score_of (Finite q) = q"
| "score_of _ = 0"

text \<open>The scores of a subject among the matches, and the best of them.\<close>

definition subject_scores :: "embedding_match list \<Rightarrow> string \<Rightarrow> rat set" where
  "subject_scores ms s = {score_of (em_similarity m) | m. m \<in> set ms \<and> em_subject_ref m = s}"

definition collected :: "subject_candidate list \<Rightarrow> embedding_match list \<Rightarrow> bool" where
  "collected cs ms \<longleftrightarrow>
     distinct (map sc_subject_ref cs) \<and>
     set (map sc_subject_ref cs) = set (map em_subject_ref ms) \<and>
     list_all (\<lambda>c. sc_similarity c = Finite (Max (subject_scores ms (sc_subject_ref c)))) cs"

lemma scores_finite [simp]: "finite (subject_scores ms s)"
  by (simp add: subject_scores_def)

lemma scores_empty: "subject_scores ms s = {} \<longleftrightarrow> s \<notin> set (map em_subject_ref ms)"
  by (auto simp: subject_scores_def)

lemma scores_append: "subject_scores (ms @ [m]) s =
    (if em_subject_ref m = s then insert (score_of (em_similarity m)) (subject_scores ms s)
     else subject_scores ms s)"
  by (auto simp: subject_scores_def)

lemma collect_new:
  assumes "collected cs ms" "em_subject_ref m \<notin> set (map sc_subject_ref cs)" "em_similarity m = Finite q"
  shows "collected (cs @ [\<lparr>sc_subject_ref = em_subject_ref m, sc_similarity = em_similarity m\<rparr>]) (ms @ [m])"
proof -
  have "subject_scores ms (em_subject_ref m) = {}"
    using assms(1,2) by (simp add: scores_empty collected_def)
  then show ?thesis using assms
    by (auto simp: collected_def list_all_iff scores_append)
qed

lemma collect_more:
  assumes collected: "collected cs ms" and k: "first_index (\<lambda>c. sc_subject_ref c = em_subject_ref m) cs = Some k"
    and q: "em_similarity m = Finite q"
  shows "collected (if fp_less (sc_similarity (cs ! k)) (em_similarity m)
    then cs[k := (cs ! k)\<lparr>sc_similarity := em_similarity m\<rparr>] else cs) (ms @ [m])"
proof -
  let ?s = "em_subject_ref m"
  define new where "new = (if fp_less (sc_similarity (cs ! k)) (em_similarity m)
    then cs[k := (cs ! k)\<lparr>sc_similarity := em_similarity m\<rparr>] else cs)"
  have pos: "k < length cs" "sc_subject_ref (cs ! k) = ?s"
    using first_index_Some [OF k] by simp_all
  have names: "map sc_subject_ref new = map sc_subject_ref cs"
    using pos by (simp add: new_def map_update list_update_same_conv)
  have known: "?s \<in> set (map em_subject_ref ms)"
    using collected pos nth_mem [OF pos(1)] by (metis collected_def in_set_conv_nth length_map nth_map)
  then have nonempty: "subject_scores ms ?s \<noteq> {}" using scores_empty by blast
  have best: "sc_similarity (cs ! k) = Finite (Max (subject_scores ms ?s))"
    using collected pos by (simp add: collected_def list_all_length)
  have max: "Max (insert q (subject_scores ms ?s)) = max q (Max (subject_scores ms ?s))"
    using nonempty by simp
  have each: "sc_similarity (new ! i) = Finite (Max (subject_scores (ms @ [m]) (sc_subject_ref (new ! i))))"
    if i: "i < length cs" for i
  proof (cases "i = k")
    case True
    then show ?thesis using pos best q max
      by (auto simp: new_def scores_append fp_less_def)
  next
    case False
    have "distinct (map sc_subject_ref cs)" using collected by (simp add: collected_def)
    then have "sc_subject_ref (cs ! i) \<noteq> ?s"
      using False i pos by (metis length_map nth_eq_iff_index_eq nth_map)
    then show ?thesis using collected i False
      by (auto simp: new_def scores_append collected_def list_all_length)
  qed
  have same: "length new = length cs" by (simp add: new_def)
  have "list_all (\<lambda>c. sc_similarity c = Finite (Max (subject_scores (ms @ [m]) (sc_subject_ref c)))) new"
    unfolding list_all_length same using each by blast
  then show ?thesis
    unfolding new_def [symmetric] collected_def names using collected known by (auto simp: collected_def)
qed

lemma collect_all:
  "collected cs pre \<Longrightarrow> rcpol_collect n alloc seen cs ms = Inr cs' \<Longrightarrow> collected cs' (pre @ ms)"
proof (induction ms arbitrary: cs pre seen)
  case (Cons m ms)
  obtain q where q: "em_similarity m = Finite q"
    using Cons.prems(2) by (cases "em_similarity m") (auto simp: rcpol_is_finite_score_def split: if_splits)
  show ?case
  proof (cases "first_index (\<lambda>c. sc_subject_ref c = em_subject_ref m) cs")
    case None
    then have "em_subject_ref m \<notin> set (map sc_subject_ref cs)" by (auto simp: first_index_None)
    from Cons.IH [OF collect_new [OF Cons.prems(1) this q]] show ?thesis
      using Cons.prems(2) None by (auto split: if_splits)
  next
    case (Some k)
    from Cons.IH [OF collect_more [OF Cons.prems(1) Some q]] show ?thesis
      using Cons.prems(2) Some by (auto split: if_splits)
  qed
qed simp

lemma collect_error: "rcpol_collect n alloc seen cs ms = Inl e \<Longrightarrow> e \<noteq> Ok"
proof (induction ms arbitrary: seen cs)
  case (Cons m ms)
  then show ?case
    by (simp split: if_splits option.splits)
qed simp

section \<open>The order of candidates\<close>

definition rcpol_rank :: "subject_candidate \<Rightarrow> rat \<times> string" where
  "rcpol_rank c = (- score_of (sc_similarity c), sc_subject_ref c)"

definition scored :: "subject_candidate \<Rightarrow> bool" where
  "scored c \<longleftrightarrow> fp_is_finite (sc_similarity c)"

interpretation rcpol_order: ranking rcpol_better rcpol_rank scored
proof unfold_locales
  fix a b
  assume "scored a" "scored b"
  then show "rcpol_better a b \<longleftrightarrow> rcpol_rank a < rcpol_rank b"
    by (cases "sc_similarity a"; cases "sc_similarity b")
      (auto simp: rcpol_better_def rcpol_rank_def scored_def fp_less_def)
qed

text \<open>
  The standings a search calls for: the best score of every subject among the matches, best first,
  subjects with equal scores by name. It is a function of the set of matches alone.
\<close>

definition standings :: "embedding_match list \<Rightarrow> (rat \<times> string) list" where
  "standings ms = sorted_list_of_set ((\<lambda>s. (- Max (subject_scores ms s), s)) ` set (map em_subject_ref ms))"

lemma collected_ranks:
  assumes "collected cs ms"
  shows "list_all scored cs" "distinct (map rcpol_rank cs)"
    "set (map rcpol_rank cs) = (\<lambda>s. (- Max (subject_scores ms s), s)) ` set (map em_subject_ref ms)"
proof -
  have scores: "sc_similarity c = Finite (Max (subject_scores ms (sc_subject_ref c)))" if "c \<in> set cs" for c
    using assms that by (simp add: collected_def list_all_iff)
  show "list_all scored cs" using scores by (auto simp: list_all_iff scored_def)
  have ranks: "map rcpol_rank cs = map (\<lambda>s. (- Max (subject_scores ms s), s)) (map sc_subject_ref cs)"
    using scores by (simp add: rcpol_rank_def)
  show "set (map rcpol_rank cs) = (\<lambda>s. (- Max (subject_scores ms s), s)) ` set (map em_subject_ref ms)"
    using assms unfolding ranks collected_def by (metis list.set_map)
  have "inj (\<lambda>s. (- Max (subject_scores ms s), s))" by (simp add: inj_def)
  then show "distinct (map rcpol_rank cs)"
    using assms unfolding ranks collected_def by (metis distinct_map inj_on_subset subset_UNIV)
qed

lemma collected_standings:
  assumes "collected cs ms"
  shows "map rcpol_rank (rank_sort rcpol_better cs) = standings ms"
proof -
  note ranks = collected_ranks [OF assms]
  let ?xs = "map rcpol_rank (rank_sort rcpol_better cs)"
  have "sorted ?xs" "mset (rank_sort rcpol_better cs) = mset cs"
    using rcpol_order.rank_sort_is_sorted [OF ranks(1)] by simp_all
  moreover from this(2) have "distinct ?xs" "set ?xs = set (map rcpol_rank cs)"
    using ranks(2) by (metis mset_map mset_eq_imp_distinct_iff, metis mset_map set_mset_mset)
  ultimately have "sorted_list_of_set (set (map rcpol_rank cs)) = ?xs"
    by (metis sorted_list_of_set.idem_if_sorted_distinct)
  then show ?thesis unfolding standings_def ranks(3) by simp
qed

text \<open>The decision the standings call for.\<close>

definition decision_of ::
    "recognition_policy_config \<Rightarrow> (rat \<times> string) list \<Rightarrow> recognition_decision \<times> string \<times> fp \<times> fp" where
  "decision_of c ranked =
     (case ranked of
        [] \<Rightarrow> (Unknown, [], Finite 0, Finite 0)
      | (best, s) # others \<Rightarrow>
          (let margin = (case others of [] \<Rightarrow> Finite 0
                 | (second, _) # _ \<Rightarrow> fp_sub binary32 (Finite (- best)) (Finite (- second)))
           in if fp_less (Finite (- best)) (rp_minimum_similarity c)
                then (Unknown, [], Finite (- best), margin)
              else if others \<noteq> [] \<and> fp_less margin (rp_minimum_subject_margin c)
                then (Ambiguous, [], Finite (- best), margin)
              else (Known, s, Finite (- best), margin)))"

lemma scored_rank: "scored c \<Longrightarrow> rcpol_rank c = (r, s) \<Longrightarrow> sc_similarity c = Finite (- r) \<and> sc_subject_ref c = s"
  by (cases "sc_similarity c") (auto simp: scored_def rcpol_rank_def)

lemma decide_of_standings:
  assumes "collected cs ms"
    and r_def: "r = rcpol_decide c search cs"
  shows "(rm_decision r, rm_subject_ref r, rm_best_similarity r, rm_subject_margin r) = decision_of c (standings ms)"
proof -
  define sorted where "sorted = rank_sort rcpol_better cs"
  note ranks = collected_ranks [OF assms(1)]
  have standings: "standings ms = map rcpol_rank sorted"
    using collected_standings [OF assms(1)] by (simp add: sorted_def)
  have perm: "mset sorted = mset cs"
    unfolding sorted_def using rcpol_order.rank_sort_is_sorted [OF ranks(1)] by simp
  then have scored: "list_all scored sorted"
    using ranks(1) unfolding list_all_iff by (metis set_mset_mset)
  have length: "length cs = length sorted" using perm by (metis mset_eq_length)
  show ?thesis
  proof (cases sorted)
    case Nil
    then show ?thesis using length standings by (simp add: r_def rcpol_decide_def decision_of_def)
  next
    case (Cons a rest)
    then have nonempty: "cs \<noteq> []" using length by auto
    obtain best s where a: "rcpol_rank a = (best, s)" by fastforce
    then have a': "sc_similarity a = Finite (- best)" "sc_subject_ref a = s"
      using scored_rank scored Cons by auto
    show ?thesis
    proof (cases rest)
      case Nil
      then show ?thesis using Cons a a' nonempty length standings
        unfolding r_def rcpol_decide_def decision_of_def sorted_def [symmetric] by (simp add: Let_def)
    next
      case (Cons b more_cs)
      obtain second t where b: "rcpol_rank b = (second, t)" by fastforce
      then have b': "sc_similarity b = Finite (- second)"
        using scored_rank scored Cons \<open>sorted = a # rest\<close> by auto
      show ?thesis using Cons \<open>sorted = a # rest\<close> a a' b b' nonempty length standings
        unfolding r_def rcpol_decide_def decision_of_def sorted_def [symmetric] by (simp add: Let_def)
    qed
  qed
qed

text \<open>
  A policy evaluation that succeeds decides by the best score of every subject: it names the leading
  subject exactly when that score reaches the configured minimum and leads the second subject by the
  configured margin, says ambiguous when only the margin is missing and unknown otherwise. The order in
  which the search listed the matches has no influence.
\<close>

lemma evaluate_decides:
  assumes "rcpol_evaluate search revision c alloc old = (Ok, r)"
  shows "(rm_decision r, rm_subject_ref r, rm_best_similarity r, rm_subject_margin r) =
           decision_of c (standings (es_matches search)) \<and>
         rm_frame r = es_frame search \<and> rm_track_id r = es_track_id search \<and> rm_gallery_revision r = revision"
proof -
  obtain cs where cs: "rcpol_collect (rp_max_subjects c) alloc [] [] (es_matches search) = Inr cs"
      "r = rcpol_decide c search cs" and rev: "es_gallery_revision search = revision"
    using assms by (auto simp: rcpol_evaluate_def Let_def split: if_splits sum.splits dest: collect_error)
  have "collected [] []" by (simp add: collected_def)
  from collect_all [OF this cs(1)] have "collected cs (es_matches search)" by simp
  note standings = decide_of_standings [OF this cs(2)]
  have "rm_frame r = es_frame search \<and> rm_track_id r = es_track_id search \<and>
      rm_gallery_revision r = es_gallery_revision search"
    unfolding cs(2) rcpol_decide_def Let_def by simp
  then show ?thesis using standings rev by simp
qed

definition two_faces :: embedding_search_result where
  "two_faces = \<lparr>es_frame = blank_frame_key, es_track_id = 7, es_gallery_revision = 3,
     es_matches = [\<lparr>em_record_id = 1, em_subject_ref = ''an'', em_similarity = Finite (1 / 2)\<rparr>,
       \<lparr>em_record_id = 2, em_subject_ref = ''binh'', em_similarity = Finite (1 / 4)\<rparr>,
       \<lparr>em_record_id = 3, em_subject_ref = ''binh'', em_similarity = Finite (3 / 4)\<rparr>]\<rparr>"

definition quarter_margin :: recognition_policy_config where
  "quarter_margin = \<lparr>rp_minimum_similarity = Finite (1 / 2), rp_minimum_subject_margin = Finite (1 / 4),
     rp_max_subjects = 8\<rparr>"

lemma two_faces_known:
  "rcpol_evaluate two_faces 3 quarter_margin (\<lambda>n. True) r =
     (Ok, \<lparr>rm_frame = blank_frame_key, rm_track_id = 7, rm_gallery_revision = 3, rm_decision = Known,
        rm_subject_ref = ''binh'', rm_best_similarity = Finite (3 / 4), rm_subject_margin = Finite (1 / 4)\<rparr>)"
  by code_simp

lemma two_faces_standings:
  "(Known, ''binh'', Finite (3 / 4), Finite (1 / 4)) =
     decision_of quarter_margin (standings (es_matches two_faces))"
  using evaluate_decides [OF two_faces_known] by simp

end
