(* ===== verification/Recognition_Session.thy ===== *)
theory Recognition_Session
  imports Recognition_Policy Observation
begin

text \<open>
  The owner of a face gallery: perception/embedding/recognition_session.{hpp,cpp} (prefix \<open>rcses\<close>). A
  session keeps the enrolled templates in an index and, when it is persistent, in a protected store. Both
  are ports: \<open>index_port\<close> is the interface of \<open>embedding_index_port\<close> and \<open>store_port\<close> that of
  \<open>face_gallery_store_port\<close>. What they promise and what follows is in Recognition_Recovery.
\<close>

section \<open>Ports\<close>

text \<open>
  A configuration may throw an exception that the session does not handle: then there is no status. The
  search gets the capacity of the result vector as an argument.
\<close>

record 'i index_port =
  ip_configure :: "embedding_index_config \<Rightarrow> 'i \<Rightarrow> status option \<times> 'i"
  ip_upsert :: "embedding_gallery_record \<Rightarrow> u64 \<Rightarrow> u64 \<Rightarrow> 'i \<Rightarrow> status \<times> 'i"
  ip_remove :: "u64 \<Rightarrow> u64 \<Rightarrow> u64 \<Rightarrow> 'i \<Rightarrow> status \<times> 'i"
  ip_search :: "embedding_result \<Rightarrow> u64 \<Rightarrow> nat \<Rightarrow> fp \<Rightarrow> nat \<Rightarrow> 'i \<Rightarrow> embedding_search_result \<Rightarrow>
    status \<times> embedding_search_result"
  ip_revision :: "'i \<Rightarrow> u64"

record 's store_port =
  sp_load :: "face_gallery_config \<Rightarrow> 's \<Rightarrow> status \<times> face_gallery_snapshot \<times> 's"
  sp_replace :: "face_gallery_config \<Rightarrow> u64 \<Rightarrow> face_gallery_snapshot \<Rightarrow> 's \<Rightarrow> status \<times> 's"

text \<open>
  The exact index behind the port. The outcome of an upsert's allocation is keyed by the revision it
  expects, which changes with every upsert that succeeds.
\<close>

definition exidx_port ::
    "reserve_outcome \<Rightarrow> (u64 \<Rightarrow> bool) \<Rightarrow> bool \<Rightarrow> exact_embedding_index index_port" where
  "exidx_port outcome alloc search_ok =
     \<lparr>ip_configure = (\<lambda>c. exidx_configure c outcome),
      ip_upsert = (\<lambda>r e n. exidx_upsert r e n (alloc e)),
      ip_remove = exidx_remove,
      ip_search = (\<lambda>q revision k minimum room. exidx_search q revision k minimum room search_ok),
      ip_revision = exidx_revision\<rparr>"

section \<open>State\<close>

record recognition_session_config =
  rsc_index :: embedding_index_config
  rsc_policy :: recognition_policy_config
  rsc_max_templates_per_subject :: nat
  rsc_search_top_k :: nat
  rsc_search_minimum_similarity :: fp

record recognition_session_snapshot =
  rss_gallery_revision :: u64
  rss_subject_count :: nat
  rss_template_count :: nat
  rss_is_configured :: bool
  rss_is_faulted :: bool

record template_metadata =
  tm_record_id :: u64
  tm_subject_ref :: string

text \<open>\<open>rs_has_index\<close> and \<open>rs_has_store\<close>: the two pointers are set.\<close>

record recognition_session =
  rs_has_index :: bool
  rs_has_store :: bool
  rs_config :: recognition_session_config
  rs_gallery_config :: face_gallery_config
  rs_gallery :: face_gallery_snapshot
  rs_templates :: "template_metadata list"
  rs_next_record_id :: u64
  rs_is_configured :: bool
  rs_is_faulted :: bool

definition blank_session_config :: recognition_session_config where
  "blank_session_config = \<lparr>rsc_index = xi_config exidx_initial,
     rsc_policy = \<lparr>rp_minimum_similarity = Finite 0, rp_minimum_subject_margin = Finite 0, rp_max_subjects = 0\<rparr>,
     rsc_max_templates_per_subject = 0, rsc_search_top_k = 0, rsc_search_minimum_similarity = Finite 0\<rparr>"

definition blank_gallery_config :: face_gallery_config where
  "blank_gallery_config = \<lparr>fgc_gallery_id = [], fgc_model_id = [], fgc_model_version = [],
     fgc_preprocess_revision = 0, fgc_dimensions = 0, fgc_capacity = 0, fgc_max_templates_per_subject = 0\<rparr>"

definition blank_gallery :: face_gallery_snapshot where
  "blank_gallery = \<lparr>fg_schema = 0, fg_revision = 0, fg_next_record_id = 0, fg_gallery_id = [],
     fg_model_id = [], fg_model_version = [], fg_preprocess_revision = 0, fg_dimensions = 0, fg_templates = []\<rparr>"

definition rcses_initial :: recognition_session where
  "rcses_initial = \<lparr>rs_has_index = False, rs_has_store = False, rs_config = blank_session_config,
     rs_gallery_config = blank_gallery_config, rs_gallery = blank_gallery, rs_templates = [],
     rs_next_record_id = 1, rs_is_configured = False, rs_is_faulted = False\<rparr>"

definition rcses_valid_revision_change :: "u64 \<Rightarrow> u64 \<Rightarrow> bool" where
  "rcses_valid_revision_change current expected \<longleftrightarrow> current = expected \<and> current \<noteq> UINT64_MAX"

definition rcses_validate_config :: "recognition_session_config \<Rightarrow> status" where
  "rcses_validate_config c =
     (if rcpol_validate_config (rsc_policy c) \<noteq> Ok \<or> xc_capacity (rsc_index c) = 0 \<or>
         rsc_max_templates_per_subject c = 0 \<or>
         rsc_max_templates_per_subject c > xc_capacity (rsc_index c) \<or> rsc_search_top_k c = 0 \<or>
         rsc_search_top_k c > xc_max_results (rsc_index c) \<or>
         rsc_search_top_k c > rp_max_subjects (rsc_policy c) \<or>
         \<not> fp_is_finite (rsc_search_minimum_similarity c) \<or>
         fp_less (rsc_search_minimum_similarity c) (Finite (- 1)) \<or>
         fp_less (rp_minimum_similarity (rsc_policy c)) (rsc_search_minimum_similarity c)
      then Invalid_argument else Ok)"

section \<open>Configuration\<close>

text \<open>\<open>outcome\<close> is that of reserving the metadata, \<open>alloc_ok\<close> that of copying the configuration.\<close>

definition rcses_configure ::
    "'i index_port \<Rightarrow> reserve_outcome \<Rightarrow> bool \<Rightarrow> recognition_session_config \<Rightarrow> recognition_session \<times> 'i \<Rightarrow>
       status option \<times> recognition_session \<times> 'i" where
  "rcses_configure ip outcome alloc_ok c = (\<lambda>(ss, i).
     (let config_status = rcses_validate_config c in
      if rs_is_configured ss then (Some Invalid_state, ss, i)
      else if config_status \<noteq> Ok then (Some config_status, ss, i)
      else if outcome = Reserve_length_error then (None, ss, i)
      else if outcome = Reserve_bad_alloc \<or> \<not> alloc_ok then (Some Resource_exhausted, ss, i)
      else
        (let (configured, i') = ip_configure ip (rsc_index c) i
         in if configured \<noteq> Some Ok then (configured, ss, i')
            else (Some Ok, ss\<lparr>rs_has_index := True, rs_config := c, rs_templates := [],
                    rs_next_record_id := 1, rs_is_configured := True\<rparr>, i'))))"

definition record_of :: "face_gallery_template \<Rightarrow> embedding_gallery_record" where
  "record_of t = \<lparr>gr_record_id = ft_record_id t, gr_subject_ref = ft_subject_ref t, gr_values = ft_values t\<rparr>"

definition metadata_of :: "face_gallery_template \<Rightarrow> template_metadata" where
  "metadata_of t = \<lparr>tm_record_id = ft_record_id t, tm_subject_ref = ft_subject_ref t\<rparr>"

text \<open>
  The rebuild of the index. The copy of record \<open>n\<close> succeeds when \<open>copy_ok n\<close>; it is made outside the
  try block, so its failure leaves the function.
\<close>

fun rcses_rebuild ::
    "'i index_port \<Rightarrow> (nat \<Rightarrow> bool) \<Rightarrow> nat \<Rightarrow> status option \<Rightarrow> u64 \<Rightarrow> face_gallery_template list \<Rightarrow> 'i \<Rightarrow>
       status option \<times> u64 \<times> 'i" where
  "rcses_rebuild ip copy_ok n rebuilt revision [] i = (rebuilt, revision, i)"
| "rcses_rebuild ip copy_ok n rebuilt revision (t # ts) i =
     (if rebuilt \<noteq> Some Ok then (rebuilt, revision, i)
      else if \<not> copy_ok n then (None, revision, i)
      else
        (let (st, i') = ip_upsert ip (record_of t) revision (revision + 1) i
         in rcses_rebuild ip copy_ok (Suc n) (Some st) (revision + 1) ts i'))"

definition rcses_galleries_differ :: "recognition_session_config \<Rightarrow> face_gallery_config \<Rightarrow> bool" where
  "rcses_galleries_differ c gc \<longleftrightarrow>
     fgc_model_id gc \<noteq> xc_model_id (rsc_index c) \<or> fgc_model_version gc \<noteq> xc_model_version (rsc_index c) \<or>
     fgc_dimensions gc \<noteq> xc_dimensions (rsc_index c) \<or> fgc_capacity gc \<noteq> xc_capacity (rsc_index c) \<or>
     fgc_max_templates_per_subject gc \<noteq> rsc_max_templates_per_subject c"

text \<open>The outcomes of the allocations: of the validation, of the copies, of each record.\<close>

record recovery_allocations =
  ra_validation :: "nat \<Rightarrow> bool \<times> bool"
  ra_copies :: bool
  ra_record :: "nat \<Rightarrow> bool"

definition rcses_recover ::
    "'i index_port \<Rightarrow> recovery_allocations \<Rightarrow> recognition_session_config \<Rightarrow> face_gallery_config \<Rightarrow>
       face_gallery_snapshot \<Rightarrow> recognition_session \<times> 'i \<Rightarrow> status option \<times> recognition_session \<times> 'i" where
  "rcses_recover ip env c gc g = (\<lambda>(ss, i).
     (let index_config = (rsc_index c)\<lparr>xc_initial_revision :=
            fg_revision g - of_nat (length (fg_templates g))\<rparr>;
          (configured, i1) = ip_configure ip index_config i;
          (rebuilt, revision, i2) = rcses_rebuild ip (ra_record env) 0 configured
            (xc_initial_revision index_config) (fg_templates g) i1
      in if rebuilt \<noteq> Some Ok then (rebuilt, ss, i2)
         else if revision \<noteq> fg_revision g \<or> ip_revision ip i2 \<noteq> fg_revision g
           then (Some Invalid_state, ss, i2)
         else (Some Ok, ss\<lparr>rs_has_index := True, rs_has_store := True, rs_config := c,
                 rs_gallery_config := gc, rs_gallery := g,
                 rs_templates := map metadata_of (fg_templates g),
                 rs_next_record_id := fg_next_record_id g, rs_is_configured := True\<rparr>, i2)))"

definition rcses_configure_persistent ::
    "'i index_port \<Rightarrow> 's store_port \<Rightarrow> recovery_allocations \<Rightarrow> recognition_session_config \<Rightarrow>
       face_gallery_config \<Rightarrow> recognition_session \<times> 'i \<times> 's \<Rightarrow>
       status option \<times> recognition_session \<times> 'i \<times> 's" where
  "rcses_configure_persistent ip sp env c gc = (\<lambda>(ss, i, s).
     (let config_status = rcses_validate_config c; gallery_status = fgalr_validate_config gc in
      if rs_is_configured ss then (Some Invalid_state, ss, i, s)
      else if config_status \<noteq> Ok then (Some config_status, ss, i, s)
      else if gallery_status \<noteq> Ok \<or> rcses_galleries_differ c gc then (Some Invalid_argument, ss, i, s)
      else
        (let (loaded, g, s') = sp_load sp gc s;
             validated = fgalr_validate_snapshot gc g (ra_validation env)
         in if loaded \<noteq> Ok then (Some loaded, ss, i, s')
            else if validated \<noteq> Ok then (Some validated, ss, i, s')
            else if unat (fg_revision g) \<le> length (fg_templates g)
              then (Some Invalid_state, ss, i, s')
            else if \<not> ra_copies env then (Some Resource_exhausted, ss, i, s')
            else
              (let (st, ss', i') = rcses_recover ip env c gc g (ss, i) in (st, ss', i', s')))))"

section \<open>Enrolment\<close>

definition rcses_template_rejected ::
    "recognition_session \<Rightarrow> string \<Rightarrow> embedding_result \<Rightarrow> bool" where
  "rcses_template_rejected ss subject e \<longleftrightarrow>
     embct_validate_result e (er_frame e) \<noteq> Ok \<or> \<not> ident_is_valid subject emb_max_subject_ref_bytes \<or>
     er_model_id e \<noteq> xc_model_id (rsc_index (rs_config ss)) \<or>
     er_model_version e \<noteq> xc_model_version (rsc_index (rs_config ss)) \<or>
     length (er_values e) \<noteq> xc_dimensions (rsc_index (rs_config ss)) \<or> \<not> er_is_l2_normalized e \<or>
     rs_next_record_id ss = 0 \<or> rs_next_record_id ss = UINT64_MAX"

definition rcses_subject_templates :: "string \<Rightarrow> recognition_session \<Rightarrow> nat" where
  "rcses_subject_templates subject ss =
     length (filter (\<lambda>t. tm_subject_ref t = subject) (rs_templates ss))"

text \<open>Validation and storage of a replacement, when there is a store.\<close>

definition rcses_store ::
    "'s store_port \<Rightarrow> (nat \<Rightarrow> bool \<times> bool) \<Rightarrow> recognition_session \<Rightarrow> u64 \<Rightarrow> face_gallery_snapshot \<Rightarrow> 's \<Rightarrow>
       status \<times> 's" where
  "rcses_store sp alloc ss revision replacement s =
     (if \<not> rs_has_store ss then (Ok, s)
      else
        (let validated = fgalr_validate_replacement (rs_gallery_config ss) revision replacement alloc
         in if validated \<noteq> Ok then (validated, s)
            else sp_replace sp (rs_gallery_config ss) revision replacement s))"

text \<open>\<open>out\<close> holds the two output parameters: the record id and the new revision.\<close>

definition rcses_add_template ::
    "'i index_port \<Rightarrow> 's store_port \<Rightarrow> bool \<Rightarrow> (nat \<Rightarrow> bool \<times> bool) \<Rightarrow> string \<Rightarrow> embedding_result \<Rightarrow> u64 \<Rightarrow>
       u64 \<times> u64 \<Rightarrow> recognition_session \<times> 'i \<times> 's \<Rightarrow>
       status \<times> (u64 \<times> u64) \<times> recognition_session \<times> 'i \<times> 's" where
  "rcses_add_template ip sp alloc_ok alloc subject e expected_revision out = (\<lambda>(ss, i, s).
     (let revision = ip_revision ip i in
      if \<not> rs_is_configured ss \<or> rs_is_faulted ss \<or> \<not> rs_has_index ss then (Invalid_state, out, ss, i, s)
      else if \<not> rcses_valid_revision_change revision expected_revision then (Invalid_state, out, ss, i, s)
      else if revision = 0 \<or> revision \<ge> UINT64_MAX - 1 then (Invalid_state, out, ss, i, s)
      else if rcses_template_rejected ss subject e then (Invalid_argument, out, ss, i, s)
      else if length (rs_templates ss) = xc_capacity (rsc_index (rs_config ss)) \<or>
          rcses_subject_templates subject ss = rsc_max_templates_per_subject (rs_config ss)
        then (Resource_exhausted, out, ss, i, s)
      else if \<not> alloc_ok then (Resource_exhausted, out, ss, i, s)
      else
        (let record_id = rs_next_record_id ss; new_revision = revision + 1;
             fresh = \<lparr>ft_record_id = record_id, ft_subject_ref = subject, ft_values = er_values e\<rparr>;
             replacement = (rs_gallery ss)\<lparr>fg_revision := new_revision, fg_next_record_id := record_id + 1,
               fg_templates := fg_templates (rs_gallery ss) @ [fresh]\<rparr>;
             (stored, s') = rcses_store sp alloc ss revision replacement s
         in if stored \<noteq> Ok then (stored, out, ss, i, s')
            else
              (let (added, i') = ip_upsert ip (record_of fresh) revision new_revision i
               in if added \<noteq> Ok
                  then (added, out,
                    ss\<lparr>rs_is_faulted := rs_is_faulted ss \<or> rs_has_store ss \<or> ip_revision ip i' \<noteq> revision\<rparr>, i', s')
                  else (Ok, (record_id, new_revision),
                    ss\<lparr>rs_templates := rs_templates ss @ [metadata_of fresh],
                       rs_next_record_id := record_id + 1,
                       rs_gallery := (if rs_has_store ss then replacement else rs_gallery ss)\<rparr>, i', s')))))"

text \<open>The loop over the templates: \<open>kept\<close> stand before the iterator.\<close>

fun rcses_remove_from ::
    "'i index_port \<Rightarrow> string \<Rightarrow> u64 \<Rightarrow> template_metadata list \<Rightarrow> template_metadata list \<Rightarrow> bool \<Rightarrow> 'i \<Rightarrow>
       status \<times> u64 \<times> template_metadata list \<times> bool \<times> 'i" where
  "rcses_remove_from ip subject revision kept [] removed_any i = (Ok, revision, kept, removed_any, i)"
| "rcses_remove_from ip subject revision kept (t # ts) removed_any i =
     (if tm_subject_ref t \<noteq> subject then rcses_remove_from ip subject revision (kept @ [t]) ts removed_any i
      else
        (let (removed, i') = ip_remove ip (tm_record_id t) revision (revision + 1) i
         in if removed \<noteq> Ok then (removed, revision, kept @ t # ts, removed_any, i')
            else rcses_remove_from ip subject (revision + 1) kept ts True i'))"

definition rcses_remove_subject ::
    "'i index_port \<Rightarrow> 's store_port \<Rightarrow> bool \<Rightarrow> (nat \<Rightarrow> bool \<times> bool) \<Rightarrow> string \<Rightarrow> u64 \<Rightarrow> u64 \<Rightarrow>
       recognition_session \<times> 'i \<times> 's \<Rightarrow> status \<times> u64 \<times> recognition_session \<times> 'i \<times> 's" where
  "rcses_remove_subject ip sp alloc_ok alloc subject expected_revision out = (\<lambda>(ss, i, s).
     (let revision = ip_revision ip i; count = (of_nat (rcses_subject_templates subject ss) :: u64) in
      if \<not> rs_is_configured ss \<or> rs_is_faulted ss \<or> \<not> rs_has_index ss \<or>
         \<not> ident_is_valid subject emb_max_subject_ref_bytes then (Invalid_state, out, ss, i, s)
      else if \<not> rcses_valid_revision_change revision expected_revision then (Invalid_state, out, ss, i, s)
      else if revision = 0 \<or> count \<ge> UINT64_MAX - revision then (Invalid_state, out, ss, i, s)
      else if count = 0 then (Invalid_argument, out, ss, i, s)
      else if rs_has_store ss \<and> \<not> alloc_ok then (Resource_exhausted, out, ss, i, s)
      else
        (let replacement = (rs_gallery ss)\<lparr>fg_revision := revision + count,
               fg_templates := filter (\<lambda>t. ft_subject_ref t \<noteq> subject) (fg_templates (rs_gallery ss))\<rparr>;
             (stored, s') = rcses_store sp alloc ss revision replacement s
         in if stored \<noteq> Ok then (stored, out, ss, i, s')
            else
              (let (removed, new_revision, templates, removed_any, i') =
                     rcses_remove_from ip subject revision [] (rs_templates ss) False i;
                   ss' = ss\<lparr>rs_templates := templates\<rparr>
               in if removed \<noteq> Ok then (removed, out, ss'\<lparr>rs_is_faulted := True\<rparr>, i', s')
                  else if \<not> removed_any then (Invalid_argument, out, ss', i', s')
                  else (Ok, new_revision,
                    ss'\<lparr>rs_gallery := (if rs_has_store ss then replacement else rs_gallery ss)\<rparr>, i', s')))))"

section \<open>Recognition\<close>

definition rcses_recognize ::
    "'i index_port \<Rightarrow> bool \<Rightarrow> (nat \<Rightarrow> bool) \<Rightarrow> embedding_result \<Rightarrow> recognition_session \<Rightarrow> 'i \<Rightarrow>
       recognition_match_result \<Rightarrow> status \<times> recognition_match_result" where
  "rcses_recognize ip reserve_ok alloc e ss i result =
     (let revision = ip_revision ip i; c = rs_config ss in
      if \<not> rs_is_configured ss \<or> rs_is_faulted ss \<or> \<not> rs_has_index ss then (Invalid_state, result)
      else if revision = 0 then (Invalid_state, result)
      else if \<not> reserve_ok then (Resource_exhausted, result)
      else
        (let blank = \<lparr>es_frame = blank_frame_key, es_track_id = 0, es_gallery_revision = 0, es_matches = []\<rparr>;
             (searched, search) = ip_search ip e revision (rsc_search_top_k c)
               (rsc_search_minimum_similarity c) (rsc_search_top_k c) i blank
         in if searched \<noteq> Ok then (searched, result)
            else rcpol_evaluate search revision (rsc_policy c) alloc result))"

definition blank_match_result :: recognition_match_result where
  "blank_match_result = \<lparr>rm_frame = blank_frame_key, rm_track_id = 0, rm_gallery_revision = 0,
     rm_decision = Unknown, rm_subject_ref = [], rm_best_similarity = Finite 0, rm_subject_margin = Finite 0\<rparr>"

text \<open>The loop of a batch: \<open>reserve_ok n\<close> and \<open>alloc n\<close> are the outcomes at embedding \<open>n\<close>.\<close>

fun rcses_recognize_from ::
    "'i index_port \<Rightarrow> (nat \<Rightarrow> bool) \<Rightarrow> (nat \<Rightarrow> nat \<Rightarrow> bool) \<Rightarrow> recognition_session \<Rightarrow> 'i \<Rightarrow>
       recognition_match_result list \<Rightarrow> embedding_result list \<Rightarrow> status + recognition_match_result list" where
  "rcses_recognize_from ip reserve_ok alloc ss i candidate [] = Inr candidate"
| "rcses_recognize_from ip reserve_ok alloc ss i candidate (e # es) =
     (let n = length candidate;
          (recognized, result) = rcses_recognize ip (reserve_ok n) (alloc n) e ss i blank_match_result
      in if recognized \<noteq> Ok then Inl recognized
         else rcses_recognize_from ip reserve_ok alloc ss i (candidate @ [result]) es)"

definition rcses_recognize_batch ::
    "'i index_port \<Rightarrow> bool \<Rightarrow> (nat \<Rightarrow> bool) \<Rightarrow> (nat \<Rightarrow> nat \<Rightarrow> bool) \<Rightarrow> nat \<Rightarrow> embedding_result list \<Rightarrow>
       recognition_session \<Rightarrow> 'i \<Rightarrow> recognition_match_result list \<Rightarrow>
       status \<times> recognition_match_result list" where
  "rcses_recognize_batch ip candidate_ok reserve_ok alloc room es ss i results =
     (if length es > obs_max_observations \<or> room < length es then (Resource_exhausted, results)
      else if \<not> candidate_ok then (Resource_exhausted, results)
      else
        (case rcses_recognize_from ip reserve_ok alloc ss i [] es of
           Inl e \<Rightarrow> (e, results)
         | Inr candidate \<Rightarrow> (Ok, candidate)))"

definition rcses_get_snapshot ::
    "'i index_port \<Rightarrow> recognition_session \<Rightarrow> 'i \<Rightarrow> recognition_session_snapshot" where
  "rcses_get_snapshot ip ss i =
     \<lparr>rss_gallery_revision = (if rs_has_index ss then ip_revision ip i else 0),
      rss_subject_count = length (filter (\<lambda>n. list_all (\<lambda>t. tm_subject_ref t \<noteq> tm_subject_ref (rs_templates ss ! n))
        (take n (rs_templates ss))) [0..<length (rs_templates ss)]),
      rss_template_count = length (rs_templates ss),
      rss_is_configured = rs_is_configured ss, rss_is_faulted = rs_is_faulted ss\<rparr>"

definition rcses_stale_label ::
    "recognition_session_snapshot \<Rightarrow> recognition_match_result \<Rightarrow> observation_batch \<Rightarrow> bool" where
  "rcses_stale_label snapshot r batch \<longleftrightarrow>
     rm_gallery_revision r \<noteq> rss_gallery_revision snapshot \<or>
     fk_camera_id (rm_frame r) \<noteq> fk_camera_id (ot_frame batch) \<or>
     fk_channel_id (rm_frame r) \<noteq> fk_channel_id (ot_frame batch) \<or>
     fk_source_epoch (rm_frame r) \<noteq> fk_source_epoch (ot_frame batch) \<or>
     fk_frame_id (rm_frame r) \<noteq> fk_frame_id (ot_frame batch) \<or>
     fk_source_pts_ns (rm_frame r) \<noteq> fk_source_pts_ns (ot_frame batch)"

definition set_label :: "string \<Rightarrow> observation \<Rightarrow> observation" where
  "set_label label ob = ob\<lparr>on_box := (on_box ob)\<lparr>ob_label := label\<rparr>\<rparr>"

text \<open>
  The labels are written in place, one result after the other. The copy of a label may throw; nothing
  catches it, and then there is no status.
\<close>

fun rcses_apply_labels ::
    "'i index_port \<Rightarrow> (string \<Rightarrow> bool) \<Rightarrow> recognition_session \<Rightarrow> 'i \<Rightarrow> recognition_match_result list \<Rightarrow>
       observation_batch \<Rightarrow> status option \<times> observation_batch" where
  "rcses_apply_labels ip copy_ok ss i [] batch = (Some Ok, batch)"
| "rcses_apply_labels ip copy_ok ss i (r # rs) batch =
     (if rm_decision r \<noteq> Known then rcses_apply_labels ip copy_ok ss i rs batch
      else if rcses_stale_label (rcses_get_snapshot ip ss i) r batch then (Some Invalid_state, batch)
      else
        (case first_index (\<lambda>ob. on_track_id ob = rm_track_id r) (ot_observations batch) of
           None \<Rightarrow> (Some Invalid_argument, batch)
         | Some k \<Rightarrow>
             if \<not> copy_ok (rm_subject_ref r) then (None, batch)
             else rcses_apply_labels ip copy_ok ss i rs
               (batch\<lparr>ot_observations := (ot_observations batch)
                  [k := set_label (rm_subject_ref r) (ot_observations batch ! k)]\<rparr>)))"

section \<open>Runs of calls\<close>

text \<open>Each call meets its own environment \<open>'e\<close>, which decides how the index's allocations end.\<close>

datatype 'e rcses_call =
    Rs_configure 'e reserve_outcome bool recognition_session_config
  | Rs_configure_persistent 'e recovery_allocations recognition_session_config face_gallery_config
  | Rs_add_template 'e bool "nat \<Rightarrow> bool \<times> bool" string embedding_result u64
  | Rs_remove_subject 'e bool "nat \<Rightarrow> bool \<times> bool" string u64

fun rcses_step ::
    "('e \<Rightarrow> 'i index_port) \<Rightarrow> 's store_port \<Rightarrow> 'e rcses_call \<Rightarrow> recognition_session \<times> 'i \<times> 's \<Rightarrow>
       recognition_session \<times> 'i \<times> 's" where
  "rcses_step port sp (Rs_configure e outcome alloc_ok c) (ss, i, s) =
     (let (st, ss', i') = rcses_configure (port e) outcome alloc_ok c (ss, i) in (ss', i', s))"
| "rcses_step port sp (Rs_configure_persistent e env c gc) (ss, i, s) =
     snd (rcses_configure_persistent (port e) sp env c gc (ss, i, s))"
| "rcses_step port sp (Rs_add_template e alloc_ok alloc subject emb expected) (ss, i, s) =
     snd (snd (rcses_add_template (port e) sp alloc_ok alloc subject emb expected (0, 0) (ss, i, s)))"
| "rcses_step port sp (Rs_remove_subject e alloc_ok alloc subject expected) (ss, i, s) =
     snd (snd (rcses_remove_subject (port e) sp alloc_ok alloc subject expected 0 (ss, i, s)))"

end
