(* ===== verification/Recognition_Standings.thy ===== *)
theory Recognition_Standings
  imports Recognition_Policy
begin

text \<open>
  What a decision needs of the standings: the best score, its subject, and the score of the best match of
  any other subject. In a list of matches ranked as a search returns them these are read off from the
  front, so a prefix that reaches the second subject decides like the whole list.
\<close>

definition lead_decision ::
    "recognition_policy_config \<Rightarrow> rat \<Rightarrow> string \<Rightarrow> rat option \<Rightarrow> recognition_decision \<times> string \<times> fp \<times> fp" where
  "lead_decision c best s rival =
     (let margin = (case rival of None \<Rightarrow> Finite 0 | Some q \<Rightarrow> fp_sub binary32 (Finite best) (Finite q))
      in if fp_less (Finite best) (rp_minimum_similarity c) then (Unknown, [], Finite best, margin)
         else if rival \<noteq> None \<and> fp_less margin (rp_minimum_subject_margin c)
           then (Ambiguous, [], Finite best, margin)
         else (Known, s, Finite best, margin))"

abbreviation score :: "embedding_match \<Rightarrow> rat" where "score m \<equiv> score_of (em_similarity m)"

text \<open>Matches ranked by falling score.\<close>

definition ranked :: "embedding_match list \<Rightarrow> bool" where
  "ranked ms \<longleftrightarrow> sorted (map (\<lambda>m. - score m) ms)"

definition rival :: "embedding_match list \<Rightarrow> embedding_match option" where
  "rival ms = List.find (\<lambda>m. em_subject_ref m \<noteq> em_subject_ref (hd ms)) ms"

abbreviation best_of :: "embedding_match list \<Rightarrow> string \<Rightarrow> rat" where
  "best_of ms s \<equiv> Max (subject_scores ms s)"

lemma best_of_least: "m \<in> set ms \<Longrightarrow> score m \<le> best_of ms (em_subject_ref m)"
  by (auto simp: subject_scores_def intro!: Max_ge)

lemma best_of_attained:
  assumes "s \<in> set (map em_subject_ref ms)"
  obtains m where "m \<in> set ms" "em_subject_ref m = s" "best_of ms s = score m"
proof -
  have "best_of ms s \<in> subject_scores ms s"
    using assms scores_empty by (intro Max_in) (simp, blast)
  then show ?thesis using that by (auto simp: subject_scores_def)
qed

lemma standings_mem:
  "(v, s) \<in> set (standings ms) \<longleftrightarrow> s \<in> set (map em_subject_ref ms) \<and> v = - best_of ms s"
  by (auto simp: standings_def)

lemma standings_sorted: "sorted (standings ms)" "distinct (standings ms)"
  by (simp_all add: standings_def)

lemma ranked_head: "ranked (x # rest) \<Longrightarrow> m \<in> set (x # rest) \<Longrightarrow> score m \<le> score x"
  by (auto simp: ranked_def)

lemma standings_lead:
  assumes ranked: "ranked (x # rest)"
  obtains s others where "standings (x # rest) = (- score x, s) # others"
    "s \<in> set (map em_subject_ref (x # rest))" "best_of (x # rest) s = score x"
    "s = em_subject_ref x \<or> (- score x, em_subject_ref x) \<in> set others"
proof -
  let ?ms = "x # rest"
  have best: "best_of ?ms (em_subject_ref x) = score x"
  proof (rule antisym)
    obtain m where "m \<in> set ?ms" "best_of ?ms (em_subject_ref x) = score m"
      by (rule best_of_attained [of "em_subject_ref x" ?ms]) simp_all
    then show "best_of ?ms (em_subject_ref x) \<le> score x" using ranked_head [OF ranked] by simp
    show "score x \<le> best_of ?ms (em_subject_ref x)" by (rule best_of_least) simp
  qed
  then have x: "(- score x, em_subject_ref x) \<in> set (standings ?ms)" by (simp add: standings_mem)
  then obtain a s others where L: "standings ?ms = (a, s) # others"
    by (cases "standings ?ms") auto
  then have "(a, s) \<in> set (standings ?ms)" by simp
  then have s: "s \<in> set (map em_subject_ref ?ms)" "a = - best_of ?ms s" by (simp_all add: standings_mem)
  obtain m where "m \<in> set ?ms" "best_of ?ms s = score m" by (rule best_of_attained [OF s(1)])
  then have "- score x \<le> a" using ranked_head [OF ranked] s(2) by simp
  moreover have "(a, s) \<le> (- score x, em_subject_ref x)"
    using standings_sorted(1) [of ?ms] x unfolding L by auto
  ultimately have a: "a = - score x" by auto
  show ?thesis
  proof (rule that [of s others])
    show "standings ?ms = (- score x, s) # others" using L a by simp
    show "best_of ?ms s = score x" using s(2) a by simp
    show "s = em_subject_ref x \<or> (- score x, em_subject_ref x) \<in> set others"
      using x a unfolding L by auto
  qed (rule s(1))
qed

lemma ranked_rival:
  assumes ranked: "ranked ms" and y: "rival ms = Some y"
    and m: "m \<in> set ms" "em_subject_ref m \<noteq> em_subject_ref (hd ms)"
  shows "score m \<le> score y"
proof -
  obtain n where n: "n < length ms" "y = ms ! n" "\<forall>j < n. em_subject_ref (ms ! j) = em_subject_ref (hd ms)"
    using y by (auto simp: rival_def find_Some_iff)
  obtain j where j: "j < length ms" "m = ms ! j" using m(1) by (metis in_set_conv_nth)
  have "n \<le> j" using n(3) m(2) j(2) by (meson not_le)
  then show ?thesis using ranked n j sorted_nth_mono [of "map (\<lambda>m. - score m) ms" n j]
    by (simp add: ranked_def)
qed

lemma rival_mem: "rival ms = Some y \<Longrightarrow> y \<in> set ms \<and> em_subject_ref y \<noteq> em_subject_ref (hd ms)"
  by (auto simp: rival_def find_Some_iff)

lemma rival_None: "rival ms = None \<longleftrightarrow> (\<forall>m \<in> set ms. em_subject_ref m = em_subject_ref (hd ms))"
  by (auto simp: rival_def find_None_iff)

lemma standings_alone:
  assumes "ranked (x # rest)" "rival (x # rest) = None"
  shows "standings (x # rest) = [(- score x, em_subject_ref x)]"
proof -
  obtain s others where L: "standings (x # rest) = (- score x, s) # others"
    "s \<in> set (map em_subject_ref (x # rest))" "best_of (x # rest) s = score x"
    by (rule standings_lead [OF assms(1)])
  have alone: "\<forall>m \<in> set (x # rest). em_subject_ref m = em_subject_ref x"
    using assms(2) by (simp add: rival_None)
  have "others = []"
  proof (cases others)
    case (Cons p more_subjects)
    obtain v t where p: "p = (v, t)" by fastforce
    have "(v, t) \<in> set (standings (x # rest))" unfolding L(1) Cons p by simp
    then have t: "t \<in> set (map em_subject_ref (x # rest))" "v = - best_of (x # rest) t"
      unfolding standings_mem by blast+
    have "t = s" using alone t(1) L(2) by (metis imageE list.set_map)
    then have "p = (- score x, s)" using t(2) L(3) p by simp
    then show ?thesis using standings_sorted(2) [of "x # rest"] Cons L(1) by simp
  qed simp
  moreover have "s = em_subject_ref x" using alone L(2) by (metis imageE list.set_map)
  ultimately show ?thesis using L(1) by simp
qed

lemma standings_rival:
  assumes ranked: "ranked (x # rest)" and y: "rival (x # rest) = Some y"
  obtains s t more_subjects where "standings (x # rest) = (- score x, s) # (- score y, t) # more_subjects"
    "score y < score x \<longrightarrow> s = em_subject_ref x" "score y \<le> score x"
proof -
  let ?ms = "x # rest"
  obtain s others where L: "standings ?ms = (- score x, s) # others"
    and s: "s \<in> set (map em_subject_ref ?ms)" "best_of ?ms s = score x"
      "s = em_subject_ref x \<or> (- score x, em_subject_ref x) \<in> set others"
    by (rule standings_lead [OF ranked])
  have y': "y \<in> set ?ms" "em_subject_ref y \<noteq> em_subject_ref x" using rival_mem [OF y] by simp_all
  have below: "score y \<le> score x" by (rule ranked_head [OF ranked y'(1)])
  have sorted: "sorted ((- score x, s) # others)" "distinct ((- score x, s) # others)"
    using standings_sorted [of ?ms] unfolding L by blast+
  \<comment> \<open>an entry of another subject than the leader\<close>
  obtain v r where entry: "(v, r) \<in> set others" "v \<le> - score y"
  proof (cases "s = em_subject_ref x")
    case True
    have "(- best_of ?ms (em_subject_ref y), em_subject_ref y) \<in> set (standings ?ms)"
      using y'(1) by (auto simp: standings_mem)
    then have "(- best_of ?ms (em_subject_ref y), em_subject_ref y) \<in> set others"
      using True y'(2) unfolding L by auto
    then show ?thesis using that best_of_least [OF y'(1)] by simp
  next
    case False
    then show ?thesis using that s(3) below by auto
  qed
  then obtain b t more_subjects where others: "others = (b, t) # more_subjects"
    by (cases others) auto
  have "(b, t) \<le> (v, r)" using entry(1) sorted(1) unfolding others by auto
  then have b_le: "b \<le> - score y" using entry(2) by auto
  have tie: "s = em_subject_ref x \<or> score y = score x"
  proof -
    obtain m where m: "m \<in> set ?ms" "em_subject_ref m = s" "best_of ?ms s = score m"
      by (rule best_of_attained [OF s(1)])
    have "s \<noteq> em_subject_ref x \<Longrightarrow> score m \<le> score y" by (rule ranked_rival [OF ranked y]) (use m in auto)
    then show ?thesis using m(3) s(2) below by fastforce
  qed
  have "- score y \<le> b"
  proof -
    have "(b, t) \<in> set (standings ?ms)" unfolding L others by simp
    then have t: "t \<in> set (map em_subject_ref ?ms)" "b = - best_of ?ms t" by (simp_all add: standings_mem)
    obtain m where m: "m \<in> set ?ms" "em_subject_ref m = t" "best_of ?ms t = score m"
      by (rule best_of_attained [OF t(1)])
    have "score m \<le> score y"
    proof (cases "t = em_subject_ref x")
      case True
      have "s \<noteq> t" using sorted(2) s(2) t(2) unfolding others by auto
      then have "score y = score x" using tie True by simp
      then show ?thesis using ranked_head [OF ranked m(1)] by simp
    next
      case False
      show ?thesis by (rule ranked_rival [OF ranked y]) (use m False in auto)
    qed
    then show ?thesis using t(2) m(3) by simp
  qed
  then have b: "b = - score y" using b_le by simp
  show ?thesis
  proof (rule that [of s t more_subjects])
    show "standings ?ms = (- score x, s) # (- score y, t) # more_subjects" by (simp add: L others b)
    show "score y < score x \<longrightarrow> s = em_subject_ref x" using tie by auto
  qed (rule below)
qed

text \<open>
  Two lists of standings call for the same verdict: the same decision, score and margin, and a subject
  named by the first leads the second; the same name when a positive margin is required.
\<close>

definition same_verdict ::
    "recognition_policy_config \<Rightarrow> (rat \<times> string) list \<Rightarrow> (rat \<times> string) list \<Rightarrow> bool" where
  "same_verdict c front all \<longleftrightarrow>
     (case (decision_of c front, decision_of c all) of
        ((d, name, best, margin), (d', name', best', margin')) \<Rightarrow>
          d = d' \<and> best = best' \<and> margin = margin' \<and>
          (d = Known \<longrightarrow> (fst (hd all), name) \<in> set all) \<and>
          (fp_less (Finite 0) (rp_minimum_subject_margin c) \<longrightarrow> name = name'))"

text \<open>The decision depends on the front of the ranking; so does the name, but for subjects with equal scores.\<close>

lemma decision_from_front:
  assumes ranked: "ranked (x # rest)"
  obtains s where "fst (hd (standings (x # rest))) = - score x" "(- score x, s) \<in> set (standings (x # rest))"
    "decision_of c (standings (x # rest)) = lead_decision c (score x) s (map_option score (rival (x # rest)))"
    "fp_less (Finite 0) (rp_minimum_subject_margin c) \<Longrightarrow>
      decision_of c (standings (x # rest)) = lead_decision c (score x) (em_subject_ref x) (map_option score (rival (x # rest)))"
proof (cases "rival (x # rest)")
  case None
  then show ?thesis
    using that [of "em_subject_ref x"] by (simp add: standings_alone [OF ranked] decision_of_def lead_decision_def Let_def)
next
  case (Some y)
  obtain s t more_subjects where L: "standings (x # rest) = (- score x, s) # (- score y, t) # more_subjects"
    "score y < score x \<longrightarrow> s = em_subject_ref x" "score y \<le> score x"
    by (rule standings_rival [OF ranked Some])
  have lead: "decision_of c (standings (x # rest)) = lead_decision c (score x) s (map_option score (rival (x # rest)))"
    by (simp add: L(1) Some decision_of_def lead_decision_def Let_def)
  have "lead_decision c (score x) s (Some (score y)) = lead_decision c (score x) (em_subject_ref x) (Some (score y))"
    if margin: "fp_less (Finite 0) (rp_minimum_subject_margin c)"
  proof (cases "score y = score x")
    case True
    have "fp_sub binary32 (Finite (score x)) (Finite (score x)) = Finite 0"
      by (simp add: fp_sub_def fp_round_def)
    then show ?thesis using margin True by (simp add: lead_decision_def Let_def)
  qed (use L(2,3) in simp)
  then show ?thesis using that [of s] lead by (simp add: L(1) Some)
qed

text \<open>A prefix longer than the matches of any one subject reaches the rival.\<close>

lemma rival_take:
  assumes "length (filter (\<lambda>m. em_subject_ref m = em_subject_ref x) (x # rest)) < k"
  shows "rival (take k (x # rest)) = rival (x # rest)"
proof -
  let ?ms = "x # rest" and ?other = "\<lambda>m. em_subject_ref m \<noteq> em_subject_ref x"
  have k: "0 < k" using assms by simp
  then have hd: "hd (take k ?ms) = x" by (cases k) simp_all
  have "List.find ?other (take k ?ms) = List.find ?other ?ms"
  proof (cases "List.find ?other ?ms")
    case None
    then have "\<forall>m \<in> set (take k ?ms). \<not> ?other m"
      using set_take_subset [of k ?ms] unfolding find_None_iff by blast
    then show ?thesis unfolding None find_None_iff by blast
  next
    case (Some y)
    then obtain n where n: "n < length ?ms" "?other (?ms ! n)" "y = ?ms ! n" "\<forall>j < n. \<not> ?other (?ms ! j)"
      unfolding find_Some_iff by blast
    have "take n ?ms = filter (\<lambda>m. em_subject_ref m = em_subject_ref x) (take n ?ms)"
      using n(1,4) by (intro filter_True [symmetric]) (auto simp: in_set_conv_nth)
    then have "n = length (filter (\<lambda>m. em_subject_ref m = em_subject_ref x) (take n ?ms))"
      using n(1) by (metis length_take min.absorb4)
    also have "\<dots> \<le> length (filter (\<lambda>m. em_subject_ref m = em_subject_ref x) ?ms)"
      by (subst (2) append_take_drop_id [of n, symmetric]) (simp only: filter_append length_append le_add1)
    finally have "n < k" using assms by simp
    then show ?thesis unfolding Some using n by (auto simp: find_Some_iff intro!: exI [of _ n])
  qed
  then show ?thesis by (simp only: rival_def hd list.sel)
qed

lemma ranked_take: "ranked ms \<Longrightarrow> ranked (take k ms)"
  by (simp add: ranked_def take_map [symmetric] sorted_wrt_take)

lemma decision_from_top:
  assumes "ranked ms"
    and few: "\<And>s. length (filter (\<lambda>m. em_subject_ref m = s) ms) < k"
  shows "same_verdict c (standings (take k ms)) (standings ms)"
proof (cases ms)
  case Nil
  then show ?thesis by (simp add: same_verdict_def standings_def decision_of_def)
next
  case (Cons x rest)
  have "0 < k" using few [of "em_subject_ref x"] by simp
  then obtain j where k: "k = Suc j" by (cases k) auto
  have top: "ranked (x # take j rest)" using ranked_take [OF assms(1), of k] by (simp add: Cons k)
  have all: "ranked (x # rest)" using assms(1) by (simp add: Cons)
  have same: "rival (x # take j rest) = rival (x # rest)"
    using rival_take [of x rest k] few [of "em_subject_ref x"] by (simp add: Cons k)
  obtain s where s: "(- score x, s) \<in> set (standings (x # take j rest))"
    "decision_of c (standings (x # take j rest)) = lead_decision c (score x) s (map_option score (rival (x # rest)))"
    "fp_less (Finite 0) (rp_minimum_subject_margin c) \<Longrightarrow> decision_of c (standings (x # take j rest)) =
      lead_decision c (score x) (em_subject_ref x) (map_option score (rival (x # rest)))"
    using decision_from_front [OF top, of c] unfolding same by metis
  obtain t where t: "fst (hd (standings (x # rest))) = - score x"
    "decision_of c (standings (x # rest)) = lead_decision c (score x) t (map_option score (rival (x # rest)))"
    "fp_less (Finite 0) (rp_minimum_subject_margin c) \<Longrightarrow> decision_of c (standings (x # rest)) =
      lead_decision c (score x) (em_subject_ref x) (map_option score (rival (x # rest)))"
    using decision_from_front [OF all, of c] by metis
  have "(- score x, s) \<in> set (standings (x # rest))"
  proof -
    have scored: "s \<in> set (map em_subject_ref (x # take j rest))" "score x = best_of (x # take j rest) s"
      using s(1) by (auto simp: standings_mem)
    then obtain m where m: "m \<in> set (x # take j rest)" "em_subject_ref m = s" "score x = score m"
      using best_of_attained by metis
    then have m': "m \<in> set (x # rest)" by (auto dest: in_set_takeD)
    then have "score x \<le> best_of (x # rest) s" using best_of_least [OF m'] m by simp
    moreover obtain l where "l \<in> set (x # rest)" "best_of (x # rest) s = score l"
      using best_of_attained [of s "x # rest"] m' m(2) by auto
    then have "best_of (x # rest) s \<le> score x" using ranked_head [OF all] by simp
    ultimately have "- score x = - best_of (x # rest) s" by simp
    then show ?thesis using m' m(2) unfolding standings_mem by auto
  qed
  moreover have "fst (lead_decision c b n q) = fst (lead_decision c b n' q)"
    "fst (lead_decision c b n q) = Known \<Longrightarrow> fst (snd (lead_decision c b n q)) = n"
    "snd (snd (lead_decision c b n q)) = snd (snd (lead_decision c b n' q))" for b n n' q
    by (auto simp: lead_decision_def Let_def split: if_splits)
  ultimately show ?thesis
    using s(2,3) t by (auto simp: same_verdict_def Cons k split_beta prod_eq_iff)
qed

end
