(* ===== verification/Recognition_Recovery.thy ===== *)
theory Recognition_Recovery
  imports Recognition_Session Recognition_Standings
begin

text \<open>
  What a recognition session promises. The laws its index has to obey are the locale \<open>gallery_index\<close>, and
  \<open>reliable_index\<close> for an index with enough memory; the exact index provides both. Under them the
  session's table, its index and the stored gallery agree after any calls, a restart brings the stored
  gallery back, and a recognition decides by the whole gallery.
\<close>

section \<open>Contracts of the ports\<close>

text \<open>
  What a session may rely on: a load that answers Ok returns the snapshot that is then stored (it may have
  created the first one), and no load changes a snapshot that is stored. A replacement that is answered
  Ok is stored; one that fails leaves the stored snapshot or has stored the replacement all the same, as
  the encrypted store does when the directory cannot be synchronised after the rename. A stale expected
  revision changes nothing.
\<close>

definition atomic_store :: "'s store_port \<Rightarrow> ('s \<Rightarrow> face_gallery_snapshot option) \<Rightarrow> bool" where
  "atomic_store sp stored \<longleftrightarrow>
     (\<forall>c s g s'. sp_load sp c s = (Ok, g, s') \<longrightarrow> stored s' = Some g) \<and>
     (\<forall>c s g. stored s = Some g \<longrightarrow> stored (snd (snd (sp_load sp c s))) = Some g) \<and>
     (\<forall>c e g s st s'. sp_replace sp c e g s = (st, s') \<longrightarrow>
        (if st = Ok then stored s' = Some g else stored s' = stored s \<or> stored s' = Some g) \<and>
        (\<forall>h. stored s = Some h \<and> fg_revision h \<noteq> e \<longrightarrow> st \<noteq> Ok \<and> stored s' = stored s))"

lemma atomic_replace:
  assumes "atomic_store sp stored" "sp_replace sp c e g s = (st, s')"
  shows "st = Ok \<Longrightarrow> stored s' = Some g" "stored s' = stored s \<or> stored s' = Some g"
    "stored s = Some h \<Longrightarrow> fg_revision h \<noteq> e \<Longrightarrow> st \<noteq> Ok \<and> stored s' = stored s"
  using assms unfolding atomic_store_def by (metis, metis, metis)

text \<open>One enrolment or one removal ahead.\<close>

definition gallery_change :: "face_gallery_snapshot \<Rightarrow> face_gallery_snapshot \<Rightarrow> bool" where
  "gallery_change a b \<longleftrightarrow> fg_revision a < fg_revision b \<and>
     ((\<exists>t. ft_record_id t = fg_next_record_id a \<and> fg_templates b = fg_templates a @ [t]) \<or>
      (\<exists>s. fg_templates b = filter (\<lambda>t. ft_subject_ref t \<noteq> s) (fg_templates a)))"

definition metadata_of_record :: "embedding_gallery_record \<Rightarrow> template_metadata" where
  "metadata_of_record r = \<lparr>tm_record_id = gr_record_id r, tm_subject_ref = gr_subject_ref r\<rparr>"

lemma metadata_of_record_of [simp]: "metadata_of_record (record_of t) = metadata_of t"
  by (simp add: metadata_of_record_def record_of_def metadata_of_def)

locale gallery_index =
  fixes port :: "'e \<Rightarrow> 'i index_port"
    and ready :: "embedding_index_config \<Rightarrow> 'i \<Rightarrow> bool"
    and recs :: "'i \<Rightarrow> embedding_gallery_record list"
    and revision :: "'i \<Rightarrow> u64"
  assumes reported: "ip_revision (port e) i = revision i"
    and configured: "ip_configure (port e) c i = (Some Ok, i') \<Longrightarrow>
      ready c i' \<and> recs i' = [] \<and> revision i' = xc_initial_revision c"
    and upserted: "ready c i \<Longrightarrow> gr_record_id r \<notin> gr_record_id ` set (recs i) \<Longrightarrow>
      ip_upsert (port e) r x n i = (st, i') \<Longrightarrow>
      ready c i' \<and> (if st = Ok then recs i' = recs i @ [r] \<and> revision i' = n
                     else recs i' = recs i \<and> revision i' = revision i)"
    and removed: "ready c i \<Longrightarrow> ip_remove (port e) k x n i = (st, i') \<Longrightarrow>
      ready c i' \<and> (if st = Ok then recs i' = filter (\<lambda>r. gr_record_id r \<noteq> k) (recs i) \<and> revision i' = n
                     else recs i' = recs i \<and> revision i' = revision i)"
begin

definition prepared :: "recognition_session_config \<Rightarrow> 'i \<Rightarrow> bool" where
  "prepared c i \<longleftrightarrow> (\<exists>v. ready ((rsc_index c)\<lparr>xc_initial_revision := v\<rparr>) i)"

text \<open>The session's own table describes the index.\<close>

definition table_agrees :: "recognition_session \<Rightarrow> 'i \<Rightarrow> bool" where
  "table_agrees ss i \<longleftrightarrow>
     rs_templates ss = map metadata_of_record (recs i) \<and>
     distinct (map tm_record_id (rs_templates ss)) \<and>
     list_all (\<lambda>t. unat (tm_record_id t) < unat (rs_next_record_id ss)) (rs_templates ss) \<and>
     (\<forall>s. rcses_subject_templates s ss \<le> rsc_max_templates_per_subject (rs_config ss))"

text \<open>A gallery that a session of this configuration can start from.\<close>

definition loadable :: "recognition_session_config \<Rightarrow> face_gallery_config \<Rightarrow> face_gallery_snapshot \<Rightarrow> bool" where
  "loadable c gc g \<longleftrightarrow>
     rcses_validate_config c = Ok \<and> fgalr_validate_config gc = Ok \<and> \<not> rcses_galleries_differ c gc \<and>
     fgalr_validate_snapshot gc g plenty = Ok \<and> length (fg_templates g) < unat (fg_revision g)"

definition gallery_agrees :: "recognition_session \<Rightarrow> 'i \<Rightarrow> bool" where
  "gallery_agrees ss i \<longleftrightarrow>
     recs i = map record_of (fg_templates (rs_gallery ss)) \<and> revision i = fg_revision (rs_gallery ss) \<and>
     rs_next_record_id ss = fg_next_record_id (rs_gallery ss)"

text \<open>
  The stored gallery is the acknowledged one, or one change ahead of it when the store or the index failed.
\<close>

definition store_agrees :: "recognition_session \<Rightarrow> 'i \<Rightarrow> face_gallery_snapshot option \<Rightarrow> bool" where
  "store_agrees ss i kept \<longleftrightarrow>
     (\<exists>g. kept = Some g \<and> loadable (rs_config ss) (rs_gallery_config ss) g \<and>
        (g = rs_gallery ss \<or> gallery_change (rs_gallery ss) g) \<and> (\<not> rs_is_faulted ss \<longrightarrow> gallery_agrees ss i))"

definition session_inv ::
    "'s store_port \<Rightarrow> ('s \<Rightarrow> face_gallery_snapshot option) \<Rightarrow> recognition_session \<Rightarrow> 'i \<Rightarrow> 's \<Rightarrow> bool" where
  "session_inv sp stored ss i s \<longleftrightarrow>
     (rs_has_store ss \<longrightarrow> rs_is_configured ss) \<and>
     (rs_is_configured ss \<longrightarrow> rs_has_index ss \<and> rcses_validate_config (rs_config ss) = Ok \<and>
        prepared (rs_config ss) i \<and> table_agrees ss i) \<and>
     (atomic_store sp stored \<and> rs_has_store ss \<longrightarrow> store_agrees ss i (stored s))"

lemma session_inv_initial: "session_inv sp stored rcses_initial i s"
  by (simp add: session_inv_def rcses_initial_def)

lemma prepared_upsert:
  assumes "prepared c i" "gr_record_id r \<notin> gr_record_id ` set (recs i)" "ip_upsert (port e) r x n i = (st, i')"
  shows "prepared c i'" "st = Ok \<Longrightarrow> recs i' = recs i @ [r] \<and> revision i' = n"
    "st \<noteq> Ok \<Longrightarrow> recs i' = recs i \<and> revision i' = revision i"
  using assms upserted unfolding prepared_def by (metis, metis, metis)

lemma prepared_remove:
  assumes "prepared c i" "ip_remove (port e) k x n i = (st, i')"
  shows "prepared c i'" "st = Ok \<Longrightarrow> recs i' = filter (\<lambda>r. gr_record_id r \<noteq> k) (recs i) \<and> revision i' = n"
    "st \<noteq> Ok \<Longrightarrow> recs i' = recs i \<and> revision i' = revision i"
  using assms removed unfolding prepared_def by (metis, metis, metis)

lemma session_configure_inv:
  assumes inv: "session_inv sp stored ss i s"
    and run: "rcses_configure (port e) outcome alloc_ok c (ss, i) = (st, ss', i')"
  shows "session_inv sp stored ss' i' s"
proof (cases "st = Some Ok")
  case True
  then have c: "rcses_validate_config c = Ok" "\<not> rs_is_configured ss"
    and i': "ip_configure (port e) (rsc_index c) i = (Some Ok, i')"
    and ss': "ss' = ss\<lparr>rs_has_index := True, rs_config := c, rs_templates := [],
      rs_next_record_id := 1, rs_is_configured := True\<rparr>"
    using run by (auto simp: rcses_configure_def Let_def split: if_splits prod.splits)
  have "ready ((rsc_index c)\<lparr>xc_initial_revision := xc_initial_revision (rsc_index c)\<rparr>) i'"
    using configured [OF i'] by simp
  then have "prepared c i'" unfolding prepared_def by blast
  then show ?thesis using inv c configured [OF i']
    by (simp add: ss' session_inv_def table_agrees_def rcses_subject_templates_def)
next
  case False
  then have "ss' = ss" "rs_is_configured ss \<longrightarrow> i' = i"
    using run by (auto simp: rcses_configure_def Let_def split: if_splits prod.splits)
  then show ?thesis using inv by (auto simp: session_inv_def)
qed

lemma rebuild_recs:
  "rcses_rebuild (port e) copy_ok n (Some Ok) v ts i = (Some Ok, v', i') \<Longrightarrow> ready c i \<Longrightarrow>
     distinct (map gr_record_id (recs i @ map record_of ts)) \<Longrightarrow>
     ready c i' \<and> recs i' = recs i @ map record_of ts"
proof (induction ts arbitrary: n v i)
  case (Cons t ts)
  obtain st i1 where up: "ip_upsert (port e) (record_of t) v (v + 1) i = (st, i1)" by fastforce
  have "gr_record_id (record_of t) \<notin> gr_record_id ` set (recs i)" using Cons.prems(3) by auto
  note i1 = upserted [OF Cons.prems(2) this up]
  have next_run: "rcses_rebuild (port e) copy_ok (Suc n) (Some st) (v + 1) ts i1 = (Some Ok, v', i')"
    using Cons.prems(1) up by (simp split: if_splits)
  then have "st = Ok" by (cases ts) (auto split: if_splits)
  then show ?case using Cons.IH [OF next_run [unfolded \<open>st = Ok\<close>]] i1 Cons.prems(3) by simp
qed simp

lemma recover_inv:
  assumes run: "rcses_recover (port e) env c gc g (ss, i) = (Some Ok, ss', i')"
    and g: "loadable c gc g" and stored: "atomic_store sp stored \<Longrightarrow> stored s = Some g"
  shows "session_inv sp stored ss' i' s"
proof -
  let ?c = "(rsc_index c)\<lparr>xc_initial_revision := fg_revision g - of_nat (length (fg_templates g))\<rparr>"
  obtain st i1 where i1: "ip_configure (port e) ?c i = (st, i1)" by fastforce
  obtain st' v where rebuild: "rcses_rebuild (port e) (ra_record env) 0 st (xc_initial_revision ?c) (fg_templates g) i1
      = (st', v, i')"
    and fin: "st' = Some Ok" "ip_revision (port e) i' = fg_revision g"
    and ss': "ss' = ss\<lparr>rs_has_index := True, rs_has_store := True, rs_config := c, rs_gallery_config := gc,
      rs_gallery := g, rs_templates := map metadata_of (fg_templates g),
      rs_next_record_id := fg_next_record_id g, rs_is_configured := True\<rparr>"
    using run i1 by (auto simp: rcses_recover_def Let_def split: if_splits prod.splits)
  have "st = Some Ok" using rebuild fin(1) by (cases "fg_templates g") (auto split: if_splits)
  note conf = configured [OF i1 [unfolded this]]
  have valid: "fgalr_validate_snapshot gc g plenty = Ok" and same: "\<not> rcses_galleries_differ c gc"
    using g by (simp_all add: loadable_def)
  have ids: "distinct (map ft_record_id (fg_templates g))"
    "list_all (template_ok gc (fg_next_record_id g)) (fg_templates g)"
    using valid unfolding snapshot_Ok by blast+
  have few: "length (filter (\<lambda>t. ft_subject_ref t = s) (fg_templates g)) \<le> rsc_max_templates_per_subject c" for s
  proof (cases "\<exists>t \<in> set (fg_templates g). ft_subject_ref t = s")
    case True
    then show ?thesis using valid same unfolding snapshot_Ok rcses_galleries_differ_def by auto
  qed (simp add: filter_empty_conv)
  have record_ids: "gr_record_id \<circ> record_of = ft_record_id" "tm_record_id \<circ> metadata_of = ft_record_id"
    by (auto simp: record_of_def metadata_of_def)
  have recs': "ready ?c i' \<and> recs i' = map record_of (fg_templates g)"
    using rebuild_recs [OF rebuild [unfolded fin(1) \<open>st = Some Ok\<close>] conjunct1 [OF conf]] conf ids
    by (simp add: record_ids)
  have subjects: "(\<lambda>t. tm_subject_ref t = s) \<circ> metadata_of = (\<lambda>t. ft_subject_ref t = s)" for s
    by (auto simp: metadata_of_def)
  have table: "table_agrees ss' i'"
    using ids few recs' unfolding table_agrees_def rcses_subject_templates_def
    by (auto simp: ss' record_ids filter_map subjects list_all_iff template_ok_def metadata_of_def word_less_nat_alt)
  have "gallery_agrees ss' i'"
    using recs' fin(2) by (simp add: gallery_agrees_def ss' reported)
  moreover have "prepared c i'" using recs' unfolding prepared_def by blast
  ultimately show ?thesis using g stored table
    by (simp add: session_inv_def store_agrees_def ss' loadable_def)
qed

lemma recover_failed:
  "rcses_recover (port e) env c gc g (ss, i) = (st, ss', i') \<Longrightarrow> st \<noteq> Some Ok \<Longrightarrow> ss' = ss"
  by (auto simp: rcses_recover_def Let_def split: if_splits prod.splits)

lemma persistent_inv:
  assumes inv: "session_inv sp stored ss i s"
    and run: "rcses_configure_persistent (port e) sp env c gc (ss, i, s) = (st, ss', i', s')"
  shows "session_inv sp stored ss' i' s'"
proof (cases "rs_is_configured ss")
  case True
  then have "ss' = ss" "i' = i" "s' = s" using run by (auto simp: rcses_configure_persistent_def)
  then show ?thesis using inv by simp
next
  case False
  show ?thesis
  proof (cases "st = Some Ok")
    case True
    obtain loaded g s1 where load: "sp_load sp gc s = (loaded, g, s1)" by (cases "sp_load sp gc s") auto
    have ok: "loaded = Ok" "fgalr_validate_snapshot gc g (ra_validation env) = Ok"
        "rcses_validate_config c = Ok" "fgalr_validate_config gc = Ok" "\<not> rcses_galleries_differ c gc"
        "length (fg_templates g) < unat (fg_revision g)" "s' = s1"
        and recover: "rcses_recover (port e) env c gc g (ss, i) = (Some Ok, ss', i')"
      using run load True False
      by (auto simp: rcses_configure_persistent_def Let_def not_le split: if_splits prod.splits)
    have "stored s' = Some g" if "atomic_store sp stored"
      using that load ok(1,7) unfolding atomic_store_def by blast
    moreover have "loadable c gc g"
      using ok snapshot_accepted [OF ok(2)] by (simp add: loadable_def)
    ultimately show ?thesis by (intro recover_inv [OF recover])
  next
    case failed: False
    then have "ss' = ss" using run False recover_failed
      by (auto simp: rcses_configure_persistent_def Let_def split: if_splits prod.splits)
    then show ?thesis using inv False by (auto simp: session_inv_def)
  qed
qed

text \<open>What storing a replacement leaves behind.\<close>

lemma stored_replacement:
  assumes store: "atomic_store sp stored" and run: "rcses_store sp alloc ss v g s = (st, s')" and "rs_has_store ss"
  shows "st = Ok \<Longrightarrow> stored s' = Some g \<and> fgalr_validate_snapshot (rs_gallery_config ss) g plenty = Ok"
    and "stored s' = stored s \<or> stored s' = Some g \<and> fgalr_validate_snapshot (rs_gallery_config ss) g plenty = Ok"
    and "stored s = Some h \<Longrightarrow> fg_revision h \<noteq> v \<Longrightarrow> st \<noteq> Ok \<and> stored s' = stored s"
proof -
  have valid: "fgalr_validate_replacement (rs_gallery_config ss) v g alloc = Ok \<Longrightarrow>
      fgalr_validate_snapshot (rs_gallery_config ss) g plenty = Ok"
    using snapshot_accepted by (auto simp: fgalr_validate_replacement_def split: if_splits)
  consider "st \<noteq> Ok" "s' = s"
    | "sp_replace sp (rs_gallery_config ss) v g s = (st, s')" "fgalr_validate_snapshot (rs_gallery_config ss) g plenty = Ok"
    using run assms(3) valid by (auto simp: rcses_store_def Let_def split: if_splits)
  note ways = this
  show "st = Ok \<Longrightarrow> stored s' = Some g \<and> fgalr_validate_snapshot (rs_gallery_config ss) g plenty = Ok"
    using ways atomic_replace [OF store] by cases blast+
  show "stored s' = stored s \<or> stored s' = Some g \<and> fgalr_validate_snapshot (rs_gallery_config ss) g plenty = Ok"
    using ways atomic_replace [OF store] by cases blast+
  show "stored s = Some h \<Longrightarrow> fg_revision h \<noteq> v \<Longrightarrow> st \<noteq> Ok \<and> stored s' = stored s"
    using ways atomic_replace [OF store] by cases blast+
qed

lemma not_stored: "\<not> rs_has_store ss \<Longrightarrow> rcses_store sp alloc ss v g s = (st, s') \<Longrightarrow> st = Ok \<and> s' = s"
  by (simp add: rcses_store_def)

text \<open>
  A replacement that the session tries to store: from a stored gallery that agrees it leads to one that
  still agrees with the session as it was, and if it is answered Ok the replacement is what is stored.
\<close>

lemma replacement_tried:
  assumes store: "atomic_store sp stored" and run: "rcses_store sp alloc ss v rep s = (st, s')"
    and "rs_has_store ss" "\<not> rs_is_faulted ss" "store_agrees ss i (stored s)" "v = revision i"
    and rep: "gallery_change (rs_gallery ss) rep"
      "length (fg_templates (rs_gallery ss)) < unat (fg_revision (rs_gallery ss)) \<Longrightarrow>
        length (fg_templates rep) < unat (fg_revision rep)"
  shows "store_agrees ss i (stored s')"
    and "st = Ok \<Longrightarrow> stored s' = Some rep \<and> loadable (rs_config ss) (rs_gallery_config ss) rep"
proof -
  note tried = stored_replacement [OF store run assms(3)]
  obtain g where g: "stored s = Some g" "loadable (rs_config ss) (rs_gallery_config ss) g"
      "g = rs_gallery ss \<or> gallery_change (rs_gallery ss) g" "gallery_agrees ss i"
    using assms(4,5) by (auto simp: store_agrees_def)
  have v: "v = fg_revision (rs_gallery ss)" using g(4) assms(6) by (simp add: gallery_agrees_def)
  have ahead: "st \<noteq> Ok \<and> stored s' = stored s" if "g \<noteq> rs_gallery ss"
  proof (rule tried(3) [OF g(1)])
    have "fg_revision (rs_gallery ss) < fg_revision g" using g(3) that by (auto simp: gallery_change_def)
    then show "fg_revision g \<noteq> v" using v by simp
  qed
  have same: "loadable (rs_config ss) (rs_gallery_config ss) rep"
    if "g = rs_gallery ss" "fgalr_validate_snapshot (rs_gallery_config ss) rep plenty = Ok"
    using g(2) rep(2) that by (simp add: loadable_def)
  show "store_agrees ss i (stored s')"
    using ahead same tried(2) g rep(1) assms(5) by (cases "g = rs_gallery ss") (auto simp: store_agrees_def)
  show "st = Ok \<Longrightarrow> stored s' = Some rep \<and> loadable (rs_config ss) (rs_gallery_config ss) rep"
    using ahead same tried(1) by blast
qed

lemma loadable_replacement:
  assumes "loadable c gc g" "fgalr_validate_snapshot gc g' plenty = Ok"
    and "length (fg_templates g') < unat (fg_revision g')"
  shows "loadable c gc g'"
  using assms by (simp add: loadable_def)

lemma fresh_id:
  assumes "table_agrees ss i"
  shows "rs_next_record_id ss \<notin> gr_record_id ` set (recs i)"
proof
  assume "rs_next_record_id ss \<in> gr_record_id ` set (recs i)"
  then obtain r where r: "r \<in> set (recs i)" "gr_record_id r = rs_next_record_id ss" by auto
  then have "metadata_of_record r \<in> set (rs_templates ss)"
    using assms unfolding table_agrees_def by simp
  then have "unat (tm_record_id (metadata_of_record r)) < unat (rs_next_record_id ss)"
    using assms unfolding table_agrees_def list_all_iff by blast
  then show False using r(2) by (simp add: metadata_of_record_def)
qed

lemma table_same:
  assumes "recs i' = recs i" "rs_templates ss' = rs_templates ss" "rs_config ss' = rs_config ss"
    "rs_next_record_id ss' = rs_next_record_id ss"
  shows "table_agrees ss' i' = table_agrees ss i"
  by (simp only: table_agrees_def rcses_subject_templates_def assms)

lemma table_append:
  assumes "table_agrees ss i" "recs i' = recs i @ [r]" "gr_record_id r = rs_next_record_id ss"
    "rs_next_record_id ss \<noteq> UINT64_MAX"
    "rcses_subject_templates (gr_subject_ref r) ss \<noteq> rsc_max_templates_per_subject (rs_config ss)"
    "rs_templates ss' = rs_templates ss @ [metadata_of_record r]" "rs_config ss' = rs_config ss"
    "rs_next_record_id ss' = rs_next_record_id ss + 1"
  shows "table_agrees ss' i'"
proof -
  have old: "distinct (map tm_record_id (rs_templates ss))" "rs_templates ss = map metadata_of_record (recs i)"
    using assms(1) unfolding table_agrees_def by blast+
  have "tm_record_id ` set (rs_templates ss) = gr_record_id ` set (recs i)"
    unfolding old(2) by (simp add: image_image metadata_of_record_def)
  then have "distinct (map tm_record_id (rs_templates ss'))"
    using fresh_id [OF assms(1)] old(1) by (simp add: assms(3,6) metadata_of_record_def)
  moreover have "list_all (\<lambda>t. unat (tm_record_id t) < unat (rs_next_record_id ss')) (rs_templates ss')"
    using assms(1,3,4,6,8) by (auto simp: table_agrees_def list_all_iff unat_Suc_exact metadata_of_record_def intro: less_SucI)
  moreover have "rcses_subject_templates s ss' \<le> rsc_max_templates_per_subject (rs_config ss')" for s
  proof -
    have "rcses_subject_templates s ss \<le> rsc_max_templates_per_subject (rs_config ss)"
      using assms(1) by (simp add: table_agrees_def)
    then show ?thesis using assms(5-7)
      by (cases "gr_subject_ref r = s") (auto simp: rcses_subject_templates_def metadata_of_record_def)
  qed
  moreover have "rs_templates ss' = map metadata_of_record (recs i')" using old(2) assms(2,6) by simp
  ultimately show ?thesis unfolding table_agrees_def by blast
qed

lemma add_template_inv:
  assumes inv: "session_inv sp stored ss i s"
    and run: "rcses_add_template (port e) sp alloc_ok alloc subject emb expected out (ss, i, s) = (st, out', ss', i', s')"
  shows "session_inv sp stored ss' i' s'"
proof -
  define v where "v = ip_revision (port e) i"
  define fresh where "fresh = \<lparr>ft_record_id = rs_next_record_id ss, ft_subject_ref = subject, ft_values = er_values emb\<rparr>"
  define rep where "rep = (rs_gallery ss)\<lparr>fg_revision := v + 1, fg_next_record_id := rs_next_record_id ss + 1,
    fg_templates := fg_templates (rs_gallery ss) @ [fresh]\<rparr>"
  obtain st1 s1 where S: "rcses_store sp alloc ss v rep s = (st1, s1)" by fastforce
  obtain st2 i2 where U: "ip_upsert (port e) (record_of fresh) v (v + 1) i = (st2, i2)" by fastforce
  define added where "added = ss\<lparr>rs_templates := rs_templates ss @ [metadata_of fresh],
    rs_next_record_id := rs_next_record_id ss + 1, rs_gallery := (if rs_has_store ss then rep else rs_gallery ss)\<rparr>"
  define failed where "failed = ss\<lparr>rs_is_faulted := rs_is_faulted ss \<or> rs_has_store ss \<or> ip_revision (port e) i2 \<noteq> v\<rparr>"
  have outcome: "(ss', i', s') = (ss, i, s) \<or>
      (rs_is_configured ss \<and> \<not> rs_is_faulted ss \<and> v < UINT64_MAX - 1 \<and> rs_next_record_id ss \<noteq> UINT64_MAX \<and>
       rcses_subject_templates subject ss \<noteq> rsc_max_templates_per_subject (rs_config ss)) \<and>
      (st1 \<noteq> Ok \<and> (ss', i', s') = (ss, i, s1) \<or>
       st1 = Ok \<and> st2 \<noteq> Ok \<and> (ss', i', s') = (failed, i2, s1) \<or>
       st1 = Ok \<and> st2 = Ok \<and> (ss', i', s') = (added, i2, s1))"
    using run S U unfolding rcses_add_template_def Let_def prod.case v_def [symmetric] fresh_def [symmetric]
      rep_def [symmetric] rcses_template_rejected_def
    by (auto simp: not_le added_def failed_def split: if_splits)
  show ?thesis
  proof (cases "(ss', i', s') = (ss, i, s)")
    case True
    then show ?thesis using inv by simp
  next
    case False
    then have entry: "rs_is_configured ss" "\<not> rs_is_faulted ss" "v < UINT64_MAX - 1" "rs_next_record_id ss \<noteq> UINT64_MAX"
      "rcses_subject_templates subject ss \<noteq> rsc_max_templates_per_subject (rs_config ss)"
      using outcome by blast+
    have at_entry: "rs_has_index ss" "rcses_validate_config (rs_config ss) = Ok" "prepared (rs_config ss) i"
        "table_agrees ss i"
      using inv entry(1) by (simp_all add: session_inv_def)
    have kept: "store_agrees ss i (stored s)" if "atomic_store sp stored" "rs_has_store ss"
      using inv that by (simp add: session_inv_def)
    have fresh: "gr_record_id (record_of fresh) = rs_next_record_id ss" "gr_subject_ref (record_of fresh) = subject"
      by (simp_all add: record_of_def fresh_def)
    note up = prepared_upsert [OF at_entry(3) _ U, unfolded fresh(1), OF fresh_id [OF at_entry(4)]]
    have v: "v = revision i" "fg_revision (rs_gallery ss) = v \<and> rs_next_record_id ss = fg_next_record_id (rs_gallery ss)"
      if "atomic_store sp stored" "rs_has_store ss"
      using kept [OF that] entry(2) by (auto simp: v_def reported store_agrees_def gallery_agrees_def)
    have next_v: "unat (v + 1) = Suc (unat v)" using entry(3) by (intro unat_Suc_exact) auto
    have change: "gallery_change (rs_gallery ss) rep" if "atomic_store sp stored" "rs_has_store ss"
      using v(2) [OF that] next_v by (simp add: gallery_change_def rep_def fresh_def word_less_nat_alt)
    have longer: "length (fg_templates (rs_gallery ss)) < unat (fg_revision (rs_gallery ss)) \<Longrightarrow>
        length (fg_templates rep) < unat (fg_revision rep)" if "atomic_store sp stored" "rs_has_store ss"
      using v(2) [OF that] next_v by (simp add: rep_def)
    have tried: "store_agrees ss i (stored s1)"
        "st1 = Ok \<Longrightarrow> stored s1 = Some rep \<and> loadable (rs_config ss) (rs_gallery_config ss) rep"
      if "atomic_store sp stored" "rs_has_store ss"
      using replacement_tried [OF that(1) S that(2) entry(2) kept [OF that] v(1) [OF that] change [OF that] longer [OF that]]
      by blast+
    consider "st1 \<noteq> Ok" "ss' = ss" "i' = i" "s' = s1"
      | "st1 = Ok" "st2 \<noteq> Ok" "ss' = failed" "i' = i2" "s' = s1"
      | "st1 = Ok" "st2 = Ok" "ss' = added" "i' = i2" "s' = s1"
      using outcome False by blast
    then show ?thesis
    proof cases
      case 1
      then show ?thesis using inv tried(1) by (simp add: session_inv_def)
    next
      case 2
      have "recs i2 = recs i" using up(3) [OF 2(2)] by simp
      then have "table_agrees failed i2"
        using at_entry(4) table_same [of i2 i failed ss] by (simp add: failed_def)
      moreover have "store_agrees failed i2 (stored s1)" if "atomic_store sp stored" "rs_has_store ss"
        using tried(2) [OF that 2(1)] change [OF that] that(2)
        by (simp add: store_agrees_def failed_def)
      ultimately show ?thesis using 2 at_entry up(1) entry(1) by (simp add: session_inv_def failed_def)
    next
      case 3
      have table: "table_agrees added i2"
        by (rule table_append [OF at_entry(4), of _ "record_of fresh"])
          (use up(2) [OF 3(2)] fresh entry in \<open>simp_all add: added_def\<close>)
      have "store_agrees added i2 (stored s1)" if "atomic_store sp stored" "rs_has_store ss"
      proof -
        have "gallery_agrees ss i" using kept [OF that] entry(2) by (auto simp: store_agrees_def)
        then have "gallery_agrees added i2"
          using up(2) [OF 3(2)] that(2) by (simp add: gallery_agrees_def added_def rep_def)
        then show ?thesis using tried(2) [OF that 3(1)] that(2)
          by (simp add: store_agrees_def added_def)
      qed
      then show ?thesis using 3 at_entry up(1) entry table by (simp add: session_inv_def added_def)
    qed
  qed
qed

text \<open>
  The removal loop: whatever it answers, its table describes the index; if it answers Ok, exactly the
  subject's records are gone.
\<close>

lemma remove_from_table:
  assumes "rcses_remove_from (port e) subject v kept ts removed_any i = (st, v', templates, any', i')"
    and "prepared c i" "map metadata_of_record (recs i) = kept @ ts" "distinct (map tm_record_id (kept @ ts))"
    and "list_all (\<lambda>t. tm_subject_ref t \<noteq> subject) kept"
  shows "prepared c i' \<and> templates = map metadata_of_record (recs i') \<and>
    (\<exists>keep. recs i' = filter keep (recs i)) \<and>
    (st = Ok \<longrightarrow> recs i' = filter (\<lambda>r. gr_subject_ref r \<noteq> subject) (recs i))"
  using assms
proof (induction ts arbitrary: v kept removed_any i)
  case Nil
  have "filter (\<lambda>r. gr_subject_ref r \<noteq> subject) (recs i) = recs i"
    using Nil.prems(3,5) by (auto simp: list_all_iff metadata_of_record_def intro!: filter_True)
  then show ?case using Nil.prems by (auto intro!: exI [of _ "\<lambda>_. True"])
next
  case (Cons t ts)
  show ?case
  proof (cases "tm_subject_ref t = subject")
    case False
    then show ?thesis using Cons.IH [of v "kept @ [t]" removed_any i] Cons.prems by simp
  next
    case True
    obtain st1 i1 where R: "ip_remove (port e) (tm_record_id t) v (v + 1) i = (st1, i1)" by fastforce
    note one = prepared_remove [OF Cons.prems(2) R]
    show ?thesis
    proof (cases "st1 = Ok")
      case failed: False
      then have run: "st = st1" "templates = kept @ t # ts" "i' = i1"
        using Cons.prems(1) True R by auto
      then show ?thesis using one(1) one(3) [OF failed] failed Cons.prems(3)
        by (auto intro!: exI [of _ "\<lambda>_. True"])
    next
      case ok: True
      then have run: "rcses_remove_from (port e) subject (v + 1) kept ts True i1 = (st, v', templates, any', i')"
        using Cons.prems(1) True R by simp
      have recs1: "recs i1 = filter (\<lambda>r. gr_record_id r \<noteq> tm_record_id t) (recs i)" using one(2) [OF ok] by simp
      have meta: "filter (\<lambda>m. tm_record_id m \<noteq> tm_record_id t) (map metadata_of_record (recs i)) =
          map metadata_of_record (recs i1)"
        by (simp add: recs1 filter_map comp_def metadata_of_record_def)
      have "filter (\<lambda>m. tm_record_id m \<noteq> tm_record_id t) (kept @ t # ts) = kept @ ts"
      proof -
        have "tm_record_id t \<notin> tm_record_id ` set (kept @ ts)" using Cons.prems(4) by auto
        then have "filter (\<lambda>m. tm_record_id m \<noteq> tm_record_id t) (kept @ ts) = kept @ ts"
          by (intro filter_True) (metis imageI)
        then show ?thesis by simp
      qed
      then have map1: "map metadata_of_record (recs i1) = kept @ ts"
        using meta Cons.prems(3) by simp
      have IH: "prepared c i' \<and> templates = map metadata_of_record (recs i') \<and>
          (\<exists>keep. recs i' = filter keep (recs i1)) \<and>
          (st = Ok \<longrightarrow> recs i' = filter (\<lambda>r. gr_subject_ref r \<noteq> subject) (recs i1))"
        by (rule Cons.IH [OF run one(1) map1]) (use Cons.prems(4,5) in auto)
      have same: "gr_record_id r \<noteq> tm_record_id t \<or> gr_subject_ref r = subject" if "r \<in> set (recs i)" for r
      proof -
        have "inj_on tm_record_id (set (kept @ t # ts))" using Cons.prems(4) by (simp only: distinct_map)
        moreover have "metadata_of_record r \<in> set (kept @ t # ts)"
          using that Cons.prems(3) by (metis imageI list.set_map)
        moreover have "t \<in> set (kept @ t # ts)" by simp
        ultimately have "tm_record_id (metadata_of_record r) = tm_record_id t \<longrightarrow> metadata_of_record r = t"
          by (meson inj_onD)
        then show ?thesis using True by (cases t) (auto simp: metadata_of_record_def)
      qed
      have "filter (\<lambda>r. gr_subject_ref r \<noteq> subject) (recs i1) = filter (\<lambda>r. gr_subject_ref r \<noteq> subject) (recs i)"
        unfolding recs1 filter_filter using same by (intro filter_cong) auto
      moreover have "\<exists>keep. recs i' = filter keep (recs i)"
        using IH unfolding recs1 by (auto simp: filter_filter)
      ultimately show ?thesis using IH by simp
    qed
  qed
qed

lemma remove_from_any:
  "rcses_remove_from (port e) subject v kept ts removed_any i = (st, v', templates, any', i') \<Longrightarrow> st = Ok \<Longrightarrow>
     any' = (removed_any \<or> \<not> list_all (\<lambda>t. tm_subject_ref t \<noteq> subject) ts)"
  by (induction ts arbitrary: v kept removed_any i) (auto split: if_splits prod.splits)

text \<open>Every removal is one revision.\<close>

lemma remove_from_revision:
  "rcses_remove_from (port e) subject v kept ts removed_any i = (st, v', templates, any', i') \<Longrightarrow> st = Ok \<Longrightarrow>
     prepared c i \<Longrightarrow> revision i = v \<Longrightarrow>
     v' = v + of_nat (length (filter (\<lambda>t. tm_subject_ref t = subject) ts)) \<and> revision i' = v'"
proof (induction ts arbitrary: v kept removed_any i)
  case (Cons t ts)
  show ?case
  proof (cases "tm_subject_ref t = subject")
    case True
    obtain st1 i1 where R: "ip_remove (port e) (tm_record_id t) v (v + 1) i = (st1, i1)" by fastforce
    note one = prepared_remove [OF Cons.prems(3) R]
    have run: "st1 = Ok" "rcses_remove_from (port e) subject (v + 1) kept ts True i1 = (st, v', templates, any', i')"
      using Cons.prems(1,2) True R by (auto split: if_splits)
    show ?thesis using Cons.IH [OF run(2) Cons.prems(2) one(1)] one(2) [OF run(1)] True by simp
  qed (use Cons in simp)
qed simp

lemma table_filter:
  assumes "table_agrees ss i" "recs i' = filter keep (recs i)" "rs_templates ss' = map metadata_of_record (recs i')"
    "rs_config ss' = rs_config ss" "rs_next_record_id ss' = rs_next_record_id ss"
  shows "table_agrees ss' i'"
proof -
  define keep' where "keep' m \<longleftrightarrow> (\<exists>r \<in> set (recs i). metadata_of_record r = m \<and> keep r)" for m
  have old: "rs_templates ss = map metadata_of_record (recs i)" "distinct (map tm_record_id (rs_templates ss))"
    "list_all (\<lambda>t. unat (tm_record_id t) < unat (rs_next_record_id ss)) (rs_templates ss)"
    "\<And>s. rcses_subject_templates s ss \<le> rsc_max_templates_per_subject (rs_config ss)"
    using assms(1) unfolding table_agrees_def by blast+
  have inj: "inj_on metadata_of_record (set (recs i))"
    using old(2) unfolding old(1) map_map distinct_map by (blast intro: inj_on_imageI2)
  have "filter keep (recs i) = filter (keep' \<circ> metadata_of_record) (recs i)"
    using inj by (intro filter_cong) (auto simp: keep'_def inj_on_def)
  then have new: "rs_templates ss' = filter keep' (rs_templates ss)"
    unfolding assms(2,3) old(1) filter_map by simp
  have "distinct (map tm_record_id (rs_templates ss'))"
    unfolding new by (rule distinct_map_filter [OF old(2)])
  moreover have "list_all (\<lambda>t. unat (tm_record_id t) < unat (rs_next_record_id ss')) (rs_templates ss')"
    using old(3) by (simp add: new assms(5) list_all_iff)
  moreover have "rcses_subject_templates s ss' \<le> rsc_max_templates_per_subject (rs_config ss')" for s
  proof -
    have "rcses_subject_templates s ss' \<le> rcses_subject_templates s ss"
    proof -
      let ?of = "\<lambda>t. tm_subject_ref t = s"
      have "filter ?of (filter keep' (rs_templates ss)) = filter keep' (filter ?of (rs_templates ss))"
        by (simp add: conj_commute)
      then show ?thesis unfolding rcses_subject_templates_def new by (metis length_filter_le)
    qed
    then show ?thesis using old(4) [of s] by (simp add: assms(4))
  qed
  ultimately show ?thesis using assms(3) unfolding table_agrees_def by blast
qed

lemma remove_subject_inv:
  assumes inv: "session_inv sp stored ss i s"
    and run: "rcses_remove_subject (port e) sp alloc_ok alloc subject expected out (ss, i, s) = (st, out', ss', i', s')"
  shows "session_inv sp stored ss' i' s'"
proof -
  define v where "v = ip_revision (port e) i"
  define count where "count = (of_nat (rcses_subject_templates subject ss) :: u64)"
  define rep where "rep = (rs_gallery ss)\<lparr>fg_revision := v + count,
    fg_templates := filter (\<lambda>t. ft_subject_ref t \<noteq> subject) (fg_templates (rs_gallery ss))\<rparr>"
  obtain st1 s1 where S: "rcses_store sp alloc ss v rep s = (st1, s1)" by fastforce
  obtain st2 v2 ts2 any i2 where R:
    "rcses_remove_from (port e) subject v [] (rs_templates ss) False i = (st2, v2, ts2, any, i2)"
    by (metis prod_cases5)
  have outcome: "(ss', i', s') = (ss, i, s) \<or>
      (rs_is_configured ss \<and> \<not> rs_is_faulted ss \<and> count < UINT64_MAX - v \<and> count \<noteq> 0) \<and>
      (st1 \<noteq> Ok \<and> (ss', i', s') = (ss, i, s1) \<or>
       st1 = Ok \<and> st2 \<noteq> Ok \<and> (ss', i', s') = (ss\<lparr>rs_templates := ts2, rs_is_faulted := True\<rparr>, i2, s1) \<or>
       st1 = Ok \<and> st2 = Ok \<and> \<not> any \<and> (ss', i', s') = (ss\<lparr>rs_templates := ts2\<rparr>, i2, s1) \<or>
       st1 = Ok \<and> st2 = Ok \<and> any \<and> (ss', i', s') = (ss\<lparr>rs_templates := ts2,
         rs_gallery := (if rs_has_store ss then rep else rs_gallery ss)\<rparr>, i2, s1))"
    using run S R unfolding rcses_remove_subject_def Let_def prod.case v_def [symmetric] count_def [symmetric]
      rep_def [symmetric]
    by (auto simp: not_le split: if_splits)
  show ?thesis
  proof (cases "(ss', i', s') = (ss, i, s)")
    case True
    then show ?thesis using inv by simp
  next
    case False
    then have entry: "rs_is_configured ss" "\<not> rs_is_faulted ss" "count < UINT64_MAX - v" "count \<noteq> 0"
      using outcome by blast+
    have at_entry: "rs_has_index ss" "rcses_validate_config (rs_config ss) = Ok" "prepared (rs_config ss) i"
        "table_agrees ss i"
      using inv entry(1) by (simp_all add: session_inv_def)
    have kept: "store_agrees ss i (stored s)" if "atomic_store sp stored" "rs_has_store ss"
      using inv that by (simp add: session_inv_def)
    have v: "v = revision i" "fg_revision (rs_gallery ss) = v" if "atomic_store sp stored" "rs_has_store ss"
      using kept [OF that] entry(2) by (auto simp: v_def reported store_agrees_def gallery_agrees_def)
    have next_v: "unat (v + count) = unat v + unat count"
      using entry(3) by (intro unat_add_exact) (simp add: word_less_nat_alt unat_max_minus)
    have "0 < unat count" using entry(4) by (simp add: unat_gt_0)
    note next_v = next_v this
    have change: "gallery_change (rs_gallery ss) rep" if "atomic_store sp stored" "rs_has_store ss"
      using v(2) [OF that] next_v by (auto simp: gallery_change_def rep_def word_less_nat_alt)
    have longer: "length (fg_templates (rs_gallery ss)) < unat (fg_revision (rs_gallery ss)) \<Longrightarrow>
        length (fg_templates rep) < unat (fg_revision rep)" if "atomic_store sp stored" "rs_has_store ss"
      using v(2) [OF that] next_v by (simp add: rep_def) (rule le_less_trans [OF length_filter_le], simp)
    have tried: "store_agrees ss i (stored s1)"
        "st1 = Ok \<Longrightarrow> stored s1 = Some rep \<and> loadable (rs_config ss) (rs_gallery_config ss) rep"
      if "atomic_store sp stored" "rs_has_store ss"
      using replacement_tried [OF that(1) S that(2) entry(2) kept [OF that] v(1) [OF that] change [OF that] longer [OF that]]
      by blast+
    have meta: "map metadata_of_record (recs i) = [] @ rs_templates ss"
      "distinct (map tm_record_id ([] @ rs_templates ss))"
      using at_entry(4) unfolding table_agrees_def append_Nil by (blast intro: sym)+
    have loop: "prepared (rs_config ss) i2 \<and> ts2 = map metadata_of_record (recs i2) \<and>
        (\<exists>keep. recs i2 = filter keep (recs i)) \<and>
        (st2 = Ok \<longrightarrow> recs i2 = filter (\<lambda>r. gr_subject_ref r \<noteq> subject) (recs i))"
      by (rule remove_from_table [OF R at_entry(3) meta]) simp
    then obtain keep where keep: "recs i2 = filter keep (recs i)" by blast
    have table: "table_agrees new i2" if "rs_templates new = ts2" "rs_config new = rs_config ss"
        "rs_next_record_id new = rs_next_record_id ss" for new
      by (rule table_filter [OF at_entry(4) keep]) (use that loop in simp_all)
    have "any" if "st2 = Ok"
    proof -
      have "rcses_subject_templates subject ss \<noteq> 0" 
      proof
        assume "rcses_subject_templates subject ss = 0"
        then show False using entry(4) by (simp add: count_def)
      qed
      then show ?thesis using remove_from_any [OF R that]
        by (simp add: rcses_subject_templates_def filter_empty_conv list_all_iff)
    qed
    then consider "st1 \<noteq> Ok" "ss' = ss" "i' = i" "s' = s1"
      | "st1 = Ok" "ss' = ss\<lparr>rs_templates := ts2, rs_is_faulted := True\<rparr>" "i' = i2" "s' = s1"
      | "st1 = Ok" "st2 = Ok" "i' = i2" "s' = s1"
        "ss' = ss\<lparr>rs_templates := ts2, rs_gallery := (if rs_has_store ss then rep else rs_gallery ss)\<rparr>"
      using outcome False by blast
    then show ?thesis
    proof cases
      case 1
      then show ?thesis using inv tried(1) by (simp add: session_inv_def)
    next
      case 2
      have "table_agrees ss' i2" by (rule table) (simp_all add: 2)
      moreover have "store_agrees ss' i2 (stored s1)" if "atomic_store sp stored" "rs_has_store ss"
        using tried(2) [OF that 2(1)] change [OF that] by (simp add: store_agrees_def 2)
      ultimately show ?thesis using 2 at_entry loop entry(1) by (simp add: session_inv_def)
    next
      case 3
      have table': "table_agrees ss' i2" by (rule table) (simp_all add: 3)
      have "store_agrees ss' i2 (stored s1)" if "atomic_store sp stored" "rs_has_store ss"
      proof -
        have old: "gallery_agrees ss i" using kept [OF that] entry(2) by (auto simp: store_agrees_def)
        then have "recs i2 = map record_of (fg_templates rep)"
          using loop 3(2) by (simp add: gallery_agrees_def rep_def filter_map comp_def record_of_def)
        moreover have "revision i2 = v + count"
          using remove_from_revision [OF R 3(2) at_entry(3)]
          by (simp add: v_def reported count_def rcses_subject_templates_def)
        ultimately have "gallery_agrees ss' i2" using old that(2) by (simp add: gallery_agrees_def 3 rep_def)
        then show ?thesis using tried(2) [OF that 3(1)] that(2) by (simp add: store_agrees_def 3)
      qed
      then show ?thesis using 3 at_entry loop entry table' by (simp add: session_inv_def)
    qed
  qed
qed

lemma step_inv:
  assumes "session_inv sp stored ss i s"
    and "rcses_step port sp call (ss, i, s) = (ss', i', s')"
  shows "session_inv sp stored ss' i' s'"
proof (cases call)
  case (Rs_configure e outcome alloc_ok c)
  obtain st ss1 i1 where "rcses_configure (port e) outcome alloc_ok c (ss, i) = (st, ss1, i1)"
    by (metis prod_cases3)
  from session_configure_inv [OF assms(1) this] this show ?thesis using assms(2) Rs_configure by simp
next
  case (Rs_configure_persistent e env c gc)
  obtain st ss1 i1 s1 where "rcses_configure_persistent (port e) sp env c gc (ss, i, s) = (st, ss1, i1, s1)"
    by (metis prod_cases4)
  from persistent_inv [OF assms(1) this] this show ?thesis using assms(2) Rs_configure_persistent by simp
next
  case (Rs_add_template e alloc_ok alloc subject emb expected)
  obtain st out' ss1 i1 s1 where
    "rcses_add_template (port e) sp alloc_ok alloc subject emb expected (0, 0) (ss, i, s) = (st, out', ss1, i1, s1)"
    by (metis prod_cases5)
  from add_template_inv [OF assms(1) this] this show ?thesis using assms(2) Rs_add_template by simp
next
  case (Rs_remove_subject e alloc_ok alloc subject expected)
  obtain st out' ss1 i1 s1 where
    "rcses_remove_subject (port e) sp alloc_ok alloc subject expected 0 (ss, i, s) = (st, out', ss1, i1, s1)"
    by (metis prod_cases5)
  from remove_subject_inv [OF assms(1) this] this show ?thesis using assms(2) Rs_remove_subject by simp
qed

lemma run_inv:
  "session_inv sp stored ss i s \<Longrightarrow>
     fold (rcses_step port sp) calls (ss, i, s) = (ss', i', s') \<Longrightarrow> session_inv sp stored ss' i' s'"
proof (induction calls arbitrary: ss i s)
  case (Cons call calls)
  obtain ss1 i1 s1 where step: "rcses_step port sp call (ss, i, s) = (ss1, i1, s1)" by (metis prod_cases3)
  show ?case using Cons.IH [OF step_inv [OF Cons.prems(1) step]] Cons.prems(2) step by simp
qed simp

end


text \<open>
  An index that refuses nothing without a reason: with enough memory it opens for every configuration it
  accepts and takes every acceptable record while there is room.
\<close>

locale reliable_index = gallery_index +
  fixes ample_port :: "'b index_port" and fresh :: "'b"
  assumes ample: "\<exists>e. ample_port = port e"
    and checked: "ready c i \<Longrightarrow> \<not> exidx_config_rejected c"
    and opens: "\<not> exidx_config_rejected c \<Longrightarrow> fst (ip_configure ample_port c fresh) = Some Ok"
    and takes: "ready c i \<Longrightarrow> gr_record_id r \<notin> gr_record_id ` set (recs i) \<Longrightarrow>
      \<not> exidx_record_rejected c r \<Longrightarrow> length (recs i) < xc_capacity c \<Longrightarrow> revision i \<noteq> UINT64_MAX \<Longrightarrow>
      fst (ip_upsert ample_port r (revision i) (revision i + 1) i) = Ok"
begin

lemma rebuild_succeeds:
  "ready c i \<Longrightarrow> distinct (map gr_record_id (recs i @ map record_of ts)) \<Longrightarrow>
     list_all (\<lambda>t. \<not> exidx_record_rejected c (record_of t)) ts \<Longrightarrow>
     length (recs i) + length ts \<le> xc_capacity c \<Longrightarrow> revision i = v \<Longrightarrow> unat v + length ts < 2 ^ 64 \<Longrightarrow>
     \<exists>i'. rcses_rebuild ample_port (\<lambda>_. True) n (Some Ok) v ts i = (Some Ok, v + of_nat (length ts), i') \<and>
       revision i' = v + of_nat (length ts)"
proof (induction ts arbitrary: n v i)
  case (Cons t ts)
  have v: "v \<noteq> UINT64_MAX" using Cons.prems(6) by (auto simp: unat_max)
  have new: "gr_record_id (record_of t) \<notin> gr_record_id ` set (recs i)" using Cons.prems(2) by auto
  obtain st i1 where up: "ip_upsert ample_port (record_of t) v (v + 1) i = (st, i1)" by fastforce
  have "fst (ip_upsert ample_port (record_of t) (revision i) (revision i + 1) i) = Ok"
    by (rule takes [OF Cons.prems(1) new]) (use Cons.prems v in simp_all)
  then have st: "st = Ok" using up Cons.prems(5) by simp
  obtain e where "ample_port = port e" using ample by blast
  with upserted [OF Cons.prems(1) new] up st
  have i1: "ready c i1" "recs i1 = recs i @ [record_of t]" "revision i1 = v + 1" by metis+
  have "unat (v + 1) = Suc (unat v)" by (rule unat_Suc_exact [OF v])
  then have "\<exists>i'. rcses_rebuild ample_port (\<lambda>_. True) (Suc n) (Some Ok) (v + 1) ts i1 =
      (Some Ok, v + 1 + of_nat (length ts), i') \<and> revision i' = v + 1 + of_nat (length ts)"
    by (intro Cons.IH) (use Cons.prems i1 in simp_all)
  then show ?case using up st by (simp add: add.assoc)
qed simp

text \<open>A restart with what is stored brings the gallery back.\<close>

lemma restart:
  assumes g: "loadable c gc g" and opened: "prepared c i0" and load: "sp_load sp gc s = (Ok, g, s')"
  shows "\<exists>ss' i'. rcses_configure_persistent ample_port sp
      \<lparr>ra_validation = plenty, ra_copies = True, ra_record = (\<lambda>_. True)\<rparr> c gc (rcses_initial, fresh, s) =
        (Some Ok, ss', i', s') \<and> rs_gallery ss' = g"
proof -
  let ?n = "length (fg_templates g)" and ?ids = "map ft_record_id (fg_templates g)"
  define v where "v = fg_revision g - of_nat ?n"
  let ?c = "(rsc_index c)\<lparr>xc_initial_revision := v\<rparr>"
  have valid: "fgalr_validate_snapshot gc g plenty = Ok" "?n < unat (fg_revision g)"
    and same: "\<not> rcses_galleries_differ c gc"
    using g by (simp_all add: loadable_def)
  have parts: "fg_revision g \<noteq> UINT64_MAX" "?n \<le> fgc_capacity gc" "distinct ?ids"
    using valid(1) unfolding snapshot_Ok by blast+
  have n: "unat (of_nat ?n :: u64) = ?n"
    using less_trans [OF valid(2) unat_less_64] by (simp add: unsigned_of_nat take_bit_nat_eq_self)
  then have v: "unat v = unat (fg_revision g) - ?n" "v + of_nat ?n = fg_revision g"
    using valid(2) by (simp_all add: v_def unat_sub_exact word_le_nat_alt)
  have "fg_revision g < UINT64_MAX" using parts(1) by (simp add: order.strict_iff_order)
  then have "unat (fg_revision g) < 18446744073709551615" by (simp add: word_less_nat_alt unat_max)
  then have rev: "v \<noteq> 0" "v \<noteq> UINT64_MAX" "unat v + ?n < 2 ^ 64"
    using v(1) valid(2) unat_less_64 [of "fg_revision g"] by (auto simp: unat_max)
  have "\<not> exidx_config_rejected ?c"
    using opened checked rev unfolding prepared_def exidx_config_rejected_def by fastforce
  then obtain i1 where i1: "ip_configure ample_port ?c fresh = (Some Ok, i1)"
    using opens [of ?c] by (metis prod.collapse)
  obtain e where e: "ample_port = port e" using ample by blast
  note ready = configured [OF i1 [unfolded e]]
  have "\<exists>i'. rcses_rebuild ample_port (\<lambda>_. True) 0 (Some Ok) v (fg_templates g) i1 =
      (Some Ok, v + of_nat ?n, i') \<and> revision i' = v + of_nat ?n"
  proof (rule rebuild_succeeds [of ?c])
    show "distinct (map gr_record_id (recs i1 @ map record_of (fg_templates g)))"
      using ready parts(3) by (simp add: comp_def record_of_def)
    show "list_all (\<lambda>t. \<not> exidx_record_rejected ?c (record_of t)) (fg_templates g)"
      using accepted_template_loads [OF valid(1), of _ ?c] same
      by (simp add: list_all_iff record_of_def rcses_galleries_differ_def)
    show "length (recs i1) + ?n \<le> xc_capacity ?c"
      using ready parts(2) same by (simp add: rcses_galleries_differ_def)
  qed (use ready rev in simp_all)
  then obtain i' where i': "rcses_rebuild ample_port (\<lambda>_. True) 0 (Some Ok) v (fg_templates g) i1 =
      (Some Ok, fg_revision g, i')" "revision i' = fg_revision g"
    unfolding v(2) by blast
  have "ip_revision ample_port i' = fg_revision g" using i'(2) by (simp add: e reported)
  moreover have "\<not> unat (fg_revision g) \<le> ?n" using valid(2) by simp
  ultimately show ?thesis
    using load valid(1) g i1 i'(1)
    by (simp add: rcses_configure_persistent_def rcses_recover_def Let_def loadable_def rcses_initial_def
      v_def [symmetric])
qed

end

section \<open>The exact index behind a session\<close>

definition exact_port :: "reserve_outcome \<times> (u64 \<Rightarrow> bool) \<times> bool \<Rightarrow> exact_embedding_index index_port" where
  "exact_port = (\<lambda>(outcome, alloc, search_ok). exidx_port outcome alloc search_ok)"

definition exact_ready :: "embedding_index_config \<Rightarrow> exact_embedding_index \<Rightarrow> bool" where
  "exact_ready c i \<longleftrightarrow> xi_is_configured i \<and> xi_config i = c \<and> exidx_inv i"

lemma find_fresh: "gr_record_id r \<notin> gr_record_id ` set (xi_records i) \<Longrightarrow> exidx_find (gr_record_id r) i = None"
  unfolding exidx_find_def first_index_None list_all_iff by (metis imageI)

lemma remove_is_filter:
  assumes "distinct (map gr_record_id (xi_records i))" "exidx_find k i = Some n"
  shows "take n (xi_records i) @ drop (Suc n) (xi_records i) = filter (\<lambda>r. gr_record_id r \<noteq> k) (xi_records i)"
proof -
  obtain pre old post where split: "xi_records i = pre @ old # post" "length pre = n" "gr_record_id old = k"
    by (rule find_split [OF assms(2)])
  have "k \<notin> gr_record_id ` set (pre @ post)" using assms(1) split(1,3) by auto
  then have "filter (\<lambda>r. gr_record_id r \<noteq> k) (pre @ post) = pre @ post"
    by (intro filter_True ballI notI) (metis imageI)
  then show ?thesis using split by simp
qed

interpretation exact: gallery_index exact_port exact_ready xi_records exidx_revision
proof unfold_locales
  fix e i c i'
  assume conf: "ip_configure (exact_port e) c i = (Some Ok, i')"
  obtain outcome alloc search_ok where e: "e = (outcome, alloc, search_ok)" by (metis prod_cases3)
  have conf: "exidx_configure c outcome i = (Some Ok, i')" using conf by (simp add: e exact_port_def exidx_port_def)
  then show "exact_ready c i' \<and> xi_records i' = [] \<and> exidx_revision i' = xc_initial_revision c"
    by (auto simp: exidx_configure_def exact_ready_def exidx_inv_def exidx_revision_def
        split: if_splits reserve_outcome.splits)
next
  fix e c i r x n st i'
  assume ready: "exact_ready c i" and new: "gr_record_id r \<notin> gr_record_id ` set (xi_records i)"
    and up: "ip_upsert (exact_port e) r x n i = (st, i')"
  obtain outcome alloc search_ok where e: "e = (outcome, alloc, search_ok)" by (metis prod_cases3)
  have up: "exidx_upsert r x n (alloc x) i = (st, i')" using up by (simp add: e exact_port_def exidx_port_def)
  have inv: "exidx_inv i'" using exidx.step_inv [of i "Xi_upsert r x n (alloc x)"] ready up
    by (simp add: exact_ready_def)
  have same: "xi_is_configured i' = xi_is_configured i" "xi_config i' = xi_config i"
    using up by (auto simp: exidx_upsert_def Let_def split: if_splits option.splits)
  show "exact_ready c i' \<and> (if st = Ok then xi_records i' = xi_records i @ [r] \<and> exidx_revision i' = n
      else xi_records i' = xi_records i \<and> exidx_revision i' = exidx_revision i)"
    using inv same ready up find_fresh [OF new]
    by (auto simp: exact_ready_def exidx_revision_def exidx_upsert_def split: if_splits)
next
  fix e c i k x n st i'
  assume ready: "exact_ready c i" and rem: "ip_remove (exact_port e) k x n i = (st, i')"
  obtain outcome alloc search_ok where e: "e = (outcome, alloc, search_ok)" by (metis prod_cases3)
  have rem: "exidx_remove k x n i = (st, i')" using rem by (simp add: e exact_port_def exidx_port_def)
  have inv: "exidx_inv i'" using exidx.step_inv [of i "Xi_remove k x n"] ready rem
    by (simp add: exact_ready_def)
  have "distinct (map gr_record_id (xi_records i))" using ready by (simp add: exact_ready_def exidx_inv_def)
  note filtered = remove_is_filter [OF this]
  have same: "xi_is_configured i' = xi_is_configured i" "xi_config i' = xi_config i"
    using rem by (auto simp: exidx_remove_def split: if_splits option.splits)
  show "exact_ready c i' \<and> (if st = Ok then xi_records i' = filter (\<lambda>r. gr_record_id r \<noteq> k) (xi_records i) \<and>
        exidx_revision i' = n
      else xi_records i' = xi_records i \<and> exidx_revision i' = exidx_revision i)"
    using inv same ready rem filtered
    by (auto simp: exact_ready_def exidx_revision_def exidx_remove_def split: if_splits option.splits)
next
  fix e i
  show "ip_revision (exact_port e) i = exidx_revision i"
    by (cases e) (simp add: exact_port_def exidx_port_def)
qed

definition ample_exact :: "exact_embedding_index index_port" where
  "ample_exact = exidx_port Reserve_ok (\<lambda>_. True) True"

interpretation exact: reliable_index exact_port exact_ready xi_records exidx_revision ample_exact exidx_initial
proof unfold_locales
  show "\<exists>e. ample_exact = exact_port e"
    by (rule exI [of _ "(Reserve_ok, \<lambda>_. True, True)"]) (simp add: ample_exact_def exact_port_def)
next
  fix c i
  assume "exact_ready c i"
  then show "\<not> exidx_config_rejected c" by (auto simp: exact_ready_def exidx_inv_def)
next
  fix c
  assume "\<not> exidx_config_rejected c"
  then show "fst (ip_configure ample_exact c exidx_initial) = Some Ok"
    by (simp add: ample_exact_def exidx_port_def exidx_configure_def exidx_initial_def)
next
  fix c i r
  assume "exact_ready c i" "gr_record_id r \<notin> gr_record_id ` set (xi_records i)"
    "\<not> exidx_record_rejected c r" "length (xi_records i) < xc_capacity c" "exidx_revision i \<noteq> UINT64_MAX"
  then show "fst (ip_upsert ample_exact r (exidx_revision i) (exidx_revision i + 1) i) = Ok"
    by (simp add: ample_exact_def exidx_port_def exidx_upsert_def exact_ready_def exidx_revision_def
        exidx_valid_revision_change_def find_fresh)
qed

section \<open>Recovery\<close>

definition ample :: recovery_allocations where
  "ample = \<lparr>ra_validation = plenty, ra_copies = True, ra_record = (\<lambda>_. True)\<rparr>"

abbreviation exact_run where
  "exact_run sp calls s0 \<equiv> fold (rcses_step exact_port sp) calls (rcses_initial, exidx_initial, s0)"

lemma exact_run_inv:
  "exact_run sp calls s0 = (ss, i, s) \<Longrightarrow> exact.session_inv sp stored ss i s"
  by (rule exact.run_inv [OF exact.session_inv_initial])


text \<open>
  A replacement that was stored although the store answered an error is never noticed: the session goes on
  without a fault, but no enrolment succeeds any more until it is restarted.
\<close>

lemma rcses_unnoticed_commit_blocks:
  assumes "atomic_store sp stored" and "exact_run sp calls s0 = (ss, i, s)" and "rs_has_store ss"
    and "stored s = Some g" "g \<noteq> rs_gallery ss"
  shows "fst (rcses_add_template (exact_port e) sp alloc_ok alloc subject emb expected out (ss, i, s)) \<noteq> Ok"
proof (cases "rs_is_faulted ss")
  case False
  have "exact.session_inv sp stored ss i s" by (rule exact_run_inv [OF assms(2)])
  then have "gallery_change (rs_gallery ss) g" "exact.gallery_agrees ss i"
    using assms(1,3-5) False by (auto simp: exact.session_inv_def exact.store_agrees_def)
  then have "fg_revision g \<noteq> exidx_revision i" by (auto simp: gallery_change_def exact.gallery_agrees_def)
  note refused = exact.stored_replacement(3) [OF assms(1) _ assms(3,4) this]
  have revision: "ip_revision (exact_port e) i = exidx_revision i" by (cases e) (simp add: exact_port_def exidx_port_def)
  show ?thesis using refused
    by (auto simp: rcses_add_template_def Let_def revision split: prod.splits if_splits)
qed (simp add: rcses_add_template_def Let_def)

section \<open>Recognition by the whole gallery\<close>

lemma match_subject [simp]: "em_subject_ref (exidx_match d query r) = gr_subject_ref r"
  by (simp add: exidx_match_def)

lemma rank_fst: "finite_match m \<Longrightarrow> fst (exidx_rank m) = - score m"
  by (cases "em_similarity m") (auto simp: exidx_rank_def finite_match_def)

lemma sorted_ranked:
  assumes "list_all finite_match ms"
  shows "ranked (sort_key exidx_rank ms)"
proof -
  have "sorted (map exidx_rank (sort_key exidx_rank ms))" by simp
  then have "sorted (map (\<lambda>m. fst (exidx_rank m)) (sort_key exidx_rank ms))"
    unfolding sorted_map by (rule sorted_wrt_mono_rel [rotated]) (auto simp: less_eq_prod_def)
  moreover have "map (\<lambda>m. fst (exidx_rank m)) (sort_key exidx_rank ms) =
      map (\<lambda>m. - score m) (sort_key exidx_rank ms)"
    using assms by (intro map_cong) (auto simp: rank_fst list_all_iff)
  ultimately show ?thesis by (simp add: ranked_def)
qed

lemma standings_set: "set ms = set ms' \<Longrightarrow> standings ms = standings ms'"
proof -
  assume "set ms = set ms'"
  then have "subject_scores ms = subject_scores ms'" by (simp add: subject_scores_def fun_eq_iff)
  then show ?thesis using \<open>set ms = set ms'\<close> by (simp add: standings_def)
qed

lemma subject_candidates:
  assumes table: "exact.table_agrees ss i"
  shows "length (filter (\<lambda>m. em_subject_ref m = s) (sort_key exidx_rank (candidates i query minimum)))
    \<le> rsc_max_templates_per_subject (rs_config ss)"
proof -
  let ?of = "\<lambda>m. em_subject_ref m = s"
  let ?all = "map (exidx_match (xc_dimensions (xi_config i)) query) (xi_records i)"
  have "length (filter ?of (sort_key exidx_rank (candidates i query minimum))) =
      length (filter ?of (candidates i query minimum))"
    by (metis mset_filter mset_sort size_mset)
  also have "\<dots> = length (filter (\<lambda>m. fp_le minimum (em_similarity m)) (filter ?of ?all))"
    by (simp add: candidates_def conj_commute)
  also have "\<dots> \<le> length (filter ?of ?all)" by (rule length_filter_le)
  also have "\<dots> = rcses_subject_templates s ss"
    using table by (simp add: exact.table_agrees_def rcses_subject_templates_def filter_map comp_def
        metadata_of_record_def)
  also have "\<dots> \<le> rsc_max_templates_per_subject (rs_config ss)"
    using table by (simp add: exact.table_agrees_def)
  finally show ?thesis .
qed

text \<open>
  C39. When a search returns more matches than a subject may have templates, a recognition decides by the
  whole gallery: its decision, score and margin are those of the best scores of every enrolled subject
  whose similarity reaches the search floor, although only the best few matches were looked at. A subject
  that is named has the best score of all; when a positive margin is required it is the one the whole
  gallery names, otherwise it may be another with the same score.
\<close>

theorem rcses_recognizes_by_whole_gallery:
  assumes "exact_run sp calls s0 = (ss, i, s)"
    and "rsc_max_templates_per_subject (rs_config ss) < rsc_search_top_k (rs_config ss)"
    and "rcses_recognize (exact_port e) reserve_ok alloc emb ss i old = (Ok, r)"
  shows "let all = standings (candidates i (er_values emb) (rsc_search_minimum_similarity (rs_config ss)));
             policy = rsc_policy (rs_config ss)
         in case decision_of policy all of (decision, name, best, margin) \<Rightarrow>
              rm_decision r = decision \<and> rm_best_similarity r = best \<and> rm_subject_margin r = margin \<and>
              (decision = Known \<longrightarrow> (fst (hd all), rm_subject_ref r) \<in> set all) \<and>
              (fp_less (Finite 0) (rp_minimum_subject_margin policy) \<longrightarrow> rm_subject_ref r = name)"
proof -
  let ?c = "rs_config ss"
  let ?k = "rsc_search_top_k ?c" and ?floor = "rsc_search_minimum_similarity ?c"
  let ?all = "candidates i (er_values emb) ?floor"
  obtain outcome up_ok search_ok where e: "e = (outcome, up_ok, search_ok)" by (metis prod_cases3)
  obtain blank search where search: "exidx_search emb (exidx_revision i) ?k ?floor ?k search_ok i blank = (Ok, search)"
    and decided: "rcpol_evaluate search (exidx_revision i) (rsc_policy ?c) alloc old = (Ok, r)"
    and live: "rs_is_configured ss"
    using assms(3) by (auto simp: e exact_port_def exidx_port_def rcses_recognize_def Let_def
        split: if_splits prod.splits)
  have "exact.session_inv sp (\<lambda>_. None) ss i s" by (rule exact_run_inv [OF assms(1)])
  then have inv: "exidx_inv i" and table: "exact.table_agrees ss i"
      and "rcses_validate_config ?c = Ok"
    using live by (auto simp: exact.session_inv_def exact.prepared_def exact_ready_def)
  then have floor: "fp_is_finite ?floor" by (auto simp: rcses_validate_config_def split: if_splits)
  have "es_matches search = take ?k (sort_key exidx_rank ?all)"
    using search_exact [OF inv search] by simp
  then have decided: "(rm_decision r, rm_subject_ref r, rm_best_similarity r, rm_subject_margin r) =
      decision_of (rsc_policy ?c) (standings (take ?k (sort_key exidx_rank ?all)))"
    using evaluate_decides [OF decided] by simp
  have "standings (sort_key exidx_rank ?all) = standings ?all"
    using standings_set [of "sort_key exidx_rank ?all" ?all] by simp
  moreover have "same_verdict (rsc_policy ?c) (standings (take ?k (sort_key exidx_rank ?all)))
      (standings (sort_key exidx_rank ?all))"
    by (rule decision_from_top [OF sorted_ranked [OF candidates_good(1) [OF inv floor]]])
      (rule le_less_trans [OF subject_candidates [OF table] assms(2)])
  ultimately show ?thesis
    by (simp add: same_verdict_def Let_def split_beta decided [symmetric])
qed

end
