(* ===== verification/Recognition_Examples.thy ===== *)
theory Recognition_Examples
  imports Recognition_Recovery
begin

text \<open>
  Two people with the same face, enrolled in a persistent session over the exact index: what the session
  promises, at work, and an accepted configuration in which one of them is named.
\<close>

section \<open>Examples\<close>

definition memory_store :: "face_gallery_snapshot option store_port" where
  "memory_store = \<lparr>sp_load = (\<lambda>c s. (case s of None \<Rightarrow> (Invalid_state, blank_gallery, None) | Some g \<Rightarrow> (Ok, g, s))),
     sp_replace = (\<lambda>c expected g s. if map_option fg_revision s = Some expected then (Ok, Some g) else (Invalid_state, s))\<rparr>"


definition tiny_gallery :: face_gallery_config where
  "tiny_gallery = \<lparr>fgc_gallery_id = ''g'', fgc_model_id = ''m'', fgc_model_version = ''1'',
     fgc_preprocess_revision = 1, fgc_dimensions = 1, fgc_capacity = 4, fgc_max_templates_per_subject = 1\<rparr>"

definition empty_gallery :: face_gallery_snapshot where
  "empty_gallery = \<lparr>fg_schema = 1, fg_revision = 1, fg_next_record_id = 1, fg_gallery_id = ''g'',
     fg_model_id = ''m'', fg_model_version = ''1'', fg_preprocess_revision = 1, fg_dimensions = 1,
     fg_templates = []\<rparr>"

definition tiny_session :: "nat \<Rightarrow> recognition_session_config" where
  "tiny_session top_k = \<lparr>rsc_index = \<lparr>xc_model_id = ''m'', xc_model_version = ''1'', xc_dimensions = 1,
       xc_capacity = 4, xc_max_results = 4, xc_metric = Cosine_similarity, xc_initial_revision = 1\<rparr>,
     rsc_policy = \<lparr>rp_minimum_similarity = Finite (1 / 2), rp_minimum_subject_margin = Finite (1 / 4),
       rp_max_subjects = 4\<rparr>,
     rsc_max_templates_per_subject = 1, rsc_search_top_k = top_k, rsc_search_minimum_similarity = Finite 0\<rparr>"

definition unit_face :: embedding_result where
  "unit_face = \<lparr>er_frame = \<lparr>fk_camera_id = 1, fk_channel_id = 0, fk_source_epoch = 1, fk_frame_id = 5,
       fk_source_pts_ns = 9\<rparr>, er_track_id = 7, er_model_id = ''m'', er_model_version = ''1'',
     er_values = [Finite 1], er_is_l2_normalized = True\<rparr>"

abbreviation "all_ok \<equiv> (Reserve_ok, (\<lambda>_. True), True)"

text \<open>Two people with the same face: the states after \<open>n\<close> of them are enrolled.\<close>

definition twin :: "nat \<Rightarrow> face_gallery_template" where
  "twin n = \<lparr>ft_record_id = of_nat n, ft_subject_ref = (if n = 1 then ''an'' else ''binh''), ft_values = [Finite 1]\<rparr>"

definition twin_gallery :: "nat \<Rightarrow> face_gallery_snapshot" where
  "twin_gallery n = empty_gallery\<lparr>fg_revision := of_nat (Suc n), fg_next_record_id := of_nat (Suc n),
     fg_templates := map twin [1..<Suc n]\<rparr>"

definition twin_index :: "nat \<Rightarrow> exact_embedding_index" where
  "twin_index n = \<lparr>xi_config = rsc_index (tiny_session 0), xi_records = map (record_of \<circ> twin) [1..<Suc n],
     xi_revision = of_nat (Suc n), xi_is_configured = True\<rparr>"

definition twin_session :: "nat \<Rightarrow> nat \<Rightarrow> recognition_session" where
  "twin_session top_k n = \<lparr>rs_has_index = True, rs_has_store = True, rs_config = tiny_session top_k,
     rs_gallery_config = tiny_gallery, rs_gallery = twin_gallery n, rs_templates = map (metadata_of \<circ> twin) [1..<Suc n],
     rs_next_record_id = of_nat (Suc n), rs_is_configured = True, rs_is_faulted = False\<rparr>"

definition twins :: "nat \<Rightarrow> (reserve_outcome \<times> (u64 \<Rightarrow> bool) \<times> bool) rcses_call list" where
  "twins top_k = [Rs_configure_persistent all_ok ample (tiny_session top_k) tiny_gallery,
     Rs_add_template all_ok True plenty ''an'' unit_face 1,
     Rs_add_template all_ok True plenty ''binh'' unit_face 2]"

lemma exidx_port_simps [simp]:
  "ip_configure (exidx_port r a f) = (\<lambda>c. exidx_configure c r)"
  "ip_upsert (exidx_port r a f) = (\<lambda>rec e n. exidx_upsert rec e n (a e))"
  "ip_search (exidx_port r a f) = (\<lambda>q v k m room. exidx_search q v k m room f)"
  "ip_revision (exidx_port r a f) i = xi_revision i"
  "exact_port (r, a, f) = exidx_port r a f"
  by (simp_all add: exidx_port_def exact_port_def exidx_revision_def)

lemma tiny_checks:
  "rcses_validate_config (tiny_session 1) = Ok" "rcses_validate_config (tiny_session 2) = Ok"
  "fgalr_validate_config tiny_gallery = Ok" "\<not> rcses_galleries_differ (tiny_session k) tiny_gallery"
  "fgalr_validate_snapshot tiny_gallery empty_gallery plenty = Ok"
  "\<not> exidx_config_rejected (rsc_index (tiny_session k))"
  by (code_simp, code_simp, code_simp, simp add: rcses_galleries_differ_def tiny_session_def tiny_gallery_def,
    code_simp) (simp add: tiny_session_def, code_simp)

lemma twins_open:
  assumes "k = 1 \<or> k = 2"
  shows "rcses_configure_persistent (exidx_port Reserve_ok (\<lambda>_. True) f) memory_store ample (tiny_session k) tiny_gallery
    (rcses_initial, exidx_initial, Some empty_gallery) =
      (Some Ok, twin_session k 0, twin_index 0, Some empty_gallery)"
proof -
  have "rcses_validate_config (tiny_session k) = Ok" using assms tiny_checks(1,2) by blast
  moreover have "(rsc_index (tiny_session k))\<lparr>xc_initial_revision := 1\<rparr> = rsc_index (tiny_session 0)"
    "xc_initial_revision (rsc_index (tiny_session 0)) = 1"
    by (simp_all add: tiny_session_def)
  moreover have "fg_templates empty_gallery = []" "fg_revision empty_gallery = 1" "twin_gallery 0 = empty_gallery"
    "fg_next_record_id empty_gallery = 1"
    by (simp_all add: empty_gallery_def twin_gallery_def)
  ultimately show ?thesis using tiny_checks
    by (simp add: rcses_configure_persistent_def rcses_recover_def Let_def memory_store_def ample_def
        exidx_configure_def rcses_initial_def exidx_initial_def twin_session_def twin_index_def)
qed

lemma one_binary64 [simp]: "fp_round binary64 1 = Finite 1"
proof -
  have ulp: "ulp_of binary64 1 = 1 / 4503599627370496" by code_simp
  have even: "round_even 4503599627370496 = 4503599627370496" by code_simp
  have "(1 :: rat) < 2 powi (ff_emax binary64 + 1)"
    by (rule one_less_power_int) (simp_all add: binary64_def)
  then show ?thesis by (simp add: fp_round_def Let_def ulp even)
qed

lemma unit_norm [simp]: "squared_norm [Finite 1] = Finite 1" "norm_error (Finite 1) = Finite 0"
  by (simp add: squared_norm_def) code_simp

lemma unit_normalized [simp]: "exidx_is_normalized [Finite 1]" "fgalr_is_normalized [Finite 1]"
proof -
  have "fp_le (Finite 0) emb_normalized_tolerance" by code_simp
  then show "exidx_is_normalized [Finite 1]" "fgalr_is_normalized [Finite 1]"
    by (simp_all add: exidx_is_normalized_def fgalr_is_normalized_def)
qed

lemma names [simp]:
  "ident_is_valid ''an'' 128" "ident_is_valid ''binh'' 128" "ident_is_valid ''m'' 128" "ident_is_valid ''1'' 128"
  by code_simp+

lemma unit_face_valid [simp]: "embct_validate_result unit_face (er_frame unit_face) = Ok"
proof -
  have "fp_less double_epsilon (Finite 1)" "\<not> fp_less emb_normalized_tolerance (Finite 0)" by code_simp+
  then show ?thesis
    by (simp add: embct_validate_result_def unit_face_def emb_max_identifier_bytes_def emb_max_dimensions_def)
qed

lemma upto_simps [simp]: "[Suc 0..<3] = [1, 2]" "[Suc 0..<2] = [1]" "[Suc 0..<Suc (Suc 0)] = [1]"
  by (simp_all add: upt_rec)

lemma small_words [simp]: "\<not> (2 :: u64) \<le> 1" "\<not> (3 :: u64) \<le> 1" "\<not> (3 :: u64) \<le> 2"
  "\<not> (- 2 :: u64) \<le> 1" "\<not> (- 2 :: u64) \<le> 2"
  by code_simp+

lemma twin_replacement:
  "fgalr_validate_replacement tiny_gallery 1 (twin_gallery 1) plenty = Ok"
  "fgalr_validate_replacement tiny_gallery 2 (twin_gallery 2) plenty = Ok"
  using tiny_checks(3)
  by (simp_all add: fgalr_validate_replacement_def fgalr_validate_snapshot_def twin_gallery_def empty_gallery_def
      tiny_gallery_def Let_def fg_schema_version_def twin_def plenty_def emb_max_identifier_bytes_def)

text \<open>Both enrolments, step by step.\<close>

lemma twins_an:
  "rcses_add_template (exidx_port r (\<lambda>_. True) f) memory_store True plenty ''an'' unit_face 1 out
    (twin_session k 0, twin_index 0, Some (twin_gallery 0)) = (Ok, (1, 2), twin_session k 1, twin_index 1, Some (twin_gallery 1))"
proof -
  have gallery: "(twin_gallery 0)\<lparr>fg_revision := 2, fg_next_record_id := 2, fg_templates := [twin 1]\<rparr> = twin_gallery 1"
    by (simp add: twin_gallery_def)
  have fresh: "\<lparr>ft_record_id = 1, ft_subject_ref = ''an'', ft_values = er_values unit_face\<rparr> = twin 1"
    by (simp add: twin_def unit_face_def)
  have face: "er_model_id unit_face = ''m''" "er_model_version unit_face = ''1''" "length (er_values unit_face) = 1"
    "er_is_l2_normalized unit_face"
    by (simp_all add: unit_face_def)
  have up: "exidx_upsert (record_of (twin 1)) 1 2 True (twin_index 0) = (Ok, twin_index 1)"
    by (simp add: exidx_upsert_def exidx_valid_revision_change_def exidx_record_rejected_def twin_index_def
        exidx_find_def tiny_session_def record_of_def twin_def emb_max_subject_ref_bytes_def)
  have index: "xi_revision (twin_index 0) = 1" by (simp add: twin_index_def)
  have revisions: "fg_revision (twin_gallery 0) = 1" by (simp add: twin_gallery_def)
  have stored: "rcses_store memory_store plenty (twin_session k 0) 1 (twin_gallery 1) (Some (twin_gallery 0)) = (Ok, Some (twin_gallery 1))"
    using twin_replacement(1) by (simp add: rcses_store_def twin_session_def memory_store_def revisions)
  have session: "rs_is_configured (twin_session k 0)" "\<not> rs_is_faulted (twin_session k 0)" "rs_has_index (twin_session k 0)"
    "rs_has_store (twin_session k 0)" "rs_templates (twin_session k 0) = []" "rs_next_record_id (twin_session k 0) = 1"
    "rs_config (twin_session k 0) = tiny_session k" "rs_gallery (twin_session k 0) = twin_gallery 0"
    "fg_templates (twin_gallery 0) = []"
    by (simp_all add: twin_session_def twin_gallery_def empty_gallery_def)
  have final: "(twin_session k 0)\<lparr>rs_templates := [metadata_of (twin 1)], rs_next_record_id := 2,
      rs_gallery := twin_gallery 1\<rparr> = twin_session k 1"
    by (simp add: twin_session_def)
  show ?thesis
    using gallery fresh up stored final
    by (simp add: rcses_add_template_def index session Let_def rcses_valid_revision_change_def
        rcses_template_rejected_def face tiny_session_def emb_max_subject_ref_bytes_def
        rcses_subject_templates_def)
qed

lemma twins_binh:
  "rcses_add_template (exidx_port r (\<lambda>_. True) f) memory_store True plenty ''binh'' unit_face 2 out
    (twin_session k (Suc 0), twin_index (Suc 0), Some (twin_gallery (Suc 0))) = (Ok, (2, 3), twin_session k 2, twin_index 2, Some (twin_gallery 2))"
proof -
  have gallery: "(twin_gallery (Suc 0))\<lparr>fg_revision := 3, fg_next_record_id := 3, fg_templates := [twin 1, twin 2]\<rparr> = twin_gallery 2"
    by (simp add: twin_gallery_def)
  have fresh: "\<lparr>ft_record_id = 2, ft_subject_ref = ''binh'', ft_values = er_values unit_face\<rparr> = twin 2"
    by (simp add: twin_def unit_face_def)
  have face: "er_model_id unit_face = ''m''" "er_model_version unit_face = ''1''" "length (er_values unit_face) = 1"
    "er_is_l2_normalized unit_face"
    by (simp_all add: unit_face_def)
  have up: "exidx_upsert (record_of (twin 2)) 2 3 True (twin_index (Suc 0)) = (Ok, twin_index 2)"
    by (simp add: exidx_upsert_def exidx_valid_revision_change_def exidx_record_rejected_def twin_index_def
        exidx_find_def tiny_session_def record_of_def twin_def emb_max_subject_ref_bytes_def)
  have index: "xi_revision (twin_index (Suc 0)) = 2" by (simp add: twin_index_def)
  have revisions: "fg_revision (twin_gallery (Suc 0)) = 2" by (simp add: twin_gallery_def)
  have stored: "rcses_store memory_store plenty (twin_session k (Suc 0)) 2 (twin_gallery 2) (Some (twin_gallery (Suc 0))) = (Ok, Some (twin_gallery 2))"
    using twin_replacement(2) by (simp add: rcses_store_def twin_session_def memory_store_def revisions)
  have session: "rs_is_configured (twin_session k (Suc 0))" "\<not> rs_is_faulted (twin_session k (Suc 0))" "rs_has_index (twin_session k (Suc 0))"
    "rs_has_store (twin_session k (Suc 0))" "rs_templates (twin_session k (Suc 0)) = [metadata_of (twin 1)]" "rs_next_record_id (twin_session k (Suc 0)) = 2"
    "rs_config (twin_session k (Suc 0)) = tiny_session k" "rs_gallery (twin_session k (Suc 0)) = twin_gallery (Suc 0)"
    "fg_templates (twin_gallery (Suc 0)) = [twin 1]"
    by (simp_all add: twin_session_def twin_gallery_def empty_gallery_def)
  have final: "(twin_session k (Suc 0))\<lparr>rs_templates := [metadata_of (twin 1), metadata_of (twin 2)],
      rs_next_record_id := 3, rs_gallery := twin_gallery 2\<rparr> = twin_session k 2"
    by (simp add: twin_session_def)
  show ?thesis
    using gallery fresh up stored final
    by (simp add: rcses_add_template_def index session Let_def rcses_valid_revision_change_def
        rcses_template_rejected_def face tiny_session_def emb_max_subject_ref_bytes_def
        rcses_subject_templates_def metadata_of_def twin_def)
qed


lemma twins_run:
  assumes "k = 1 \<or> k = 2"
  shows "exact_run memory_store (twins k) (Some empty_gallery) = (twin_session k 2, twin_index 2, Some (twin_gallery 2))"
proof -
  have same: "twin_gallery 0 = empty_gallery" by (simp add: twin_gallery_def empty_gallery_def)
  show ?thesis using twins_open [OF assms] twins_an [unfolded same] twins_binh by (simp add: twins_def)
qed

section \<open>What the session then answers\<close>

definition twin_match :: "nat \<Rightarrow> embedding_match" where
  "twin_match n = \<lparr>em_record_id = of_nat n, em_subject_ref = (if n = 1 then ''an'' else ''binh''),
     em_similarity = Finite 1\<rparr>"

lemma one_binary32 [simp]: "fp_round binary32 1 = Finite 1"
  by code_simp

lemma unit_sum [simp]: "fp_add binary64 (Finite 0) (fp_mul binary64 (Finite 1) (Finite 1)) = Finite 1"
  by simp

lemma twin_candidates: "candidates (twin_index 2) [Finite 1] (Finite 0) = [twin_match 1, twin_match 2]"
  by (simp add: candidates_def twin_index_def tiny_session_def exidx_match_def exidx_similarity_def record_of_def
      twin_def twin_match_def fp_clamp_def fp_less_def)

lemma twin_query: "\<not> exidx_query_rejected (rsc_index (tiny_session 0)) unit_face 1 (Finite 0)"
  "\<not> exidx_query_rejected (rsc_index (tiny_session 0)) unit_face 2 (Finite 0)"
  by (simp_all add: exidx_query_rejected_def) (simp_all add: tiny_session_def unit_face_def fp_less_def)

definition twin_answer :: "nat \<Rightarrow> recognition_match_result" where
  "twin_answer top_k = \<lparr>rm_frame = er_frame unit_face, rm_track_id = 7, rm_gallery_revision = 3,
     rm_decision = (if top_k = 1 then Known else Ambiguous), rm_subject_ref = (if top_k = 1 then ''an'' else []),
     rm_best_similarity = Finite 1, rm_subject_margin = Finite 0\<rparr>"

lemma twin_decisions:
  "rcpol_evaluate \<lparr>es_frame = er_frame unit_face, es_track_id = 7, es_gallery_revision = 3,
     es_matches = take 1 [twin_match 1, twin_match 2]\<rparr> 3 (rsc_policy (tiny_session 1)) (\<lambda>_. True) blank_match_result =
       (Ok, twin_answer 1)"
  "rcpol_evaluate \<lparr>es_frame = er_frame unit_face, es_track_id = 7, es_gallery_revision = 3,
     es_matches = take 2 [twin_match 1, twin_match 2]\<rparr> 3 (rsc_policy (tiny_session 2)) (\<lambda>_. True) blank_match_result =
       (Ok, twin_answer 2)"
  by code_simp+

lemma twin_search:
  assumes "k = 1 \<or> k = 2"
  shows "exidx_search unit_face 3 k (Finite 0) k True (twin_index 2) blank =
    (Ok, \<lparr>es_frame = er_frame unit_face, es_track_id = 7, es_gallery_revision = 3,
          es_matches = take k [twin_match 1, twin_match 2]\<rparr>)"
proof -
  obtain st r where run: "exidx_search unit_face 3 k (Finite 0) k True (twin_index 2) blank = (st, r)" by fastforce
  have index: "xi_config (twin_index 2) = rsc_index (tiny_session 0)" "xi_revision (twin_index 2) = 3"
    "xi_is_configured (twin_index 2)"
    by (simp_all add: twin_index_def)
  have st: "st = Ok" using run assms twin_query by (auto simp: exidx_search_def index Let_def)
  have "exact.session_inv memory_store id (twin_session 2 2) (twin_index 2) (Some (twin_gallery 2))"
    by (rule exact_run_inv [OF twins_run]) simp
  then have "exidx_inv (twin_index 2)"
    by (simp add: exact.session_inv_def exact.prepared_def exact_ready_def twin_session_def)
  from search_exact [OF this run] have "r = \<lparr>es_frame = er_frame unit_face, es_track_id = er_track_id unit_face,
      es_gallery_revision = 3, es_matches = take k (sort_key exidx_rank [twin_match 1, twin_match 2])\<rparr>"
    by (simp add: st index twin_candidates unit_face_def)
  moreover have "sort_key exidx_rank [twin_match 1, twin_match 2] = [twin_match 1, twin_match 2]"
    by (simp add: exidx_rank_def twin_match_def)
  ultimately show ?thesis using run st by (simp add: unit_face_def)
qed

lemma twin_recognized:
  assumes "k = 1 \<or> k = 2"
  shows "rcses_recognize (exact_port all_ok) True (\<lambda>_. True) unit_face (twin_session k 2) (twin_index 2)
    blank_match_result = (Ok, twin_answer k)"
proof -
  have session: "rs_is_configured (twin_session k 2)" "\<not> rs_is_faulted (twin_session k 2)"
    "rs_has_index (twin_session k 2)" "rs_config (twin_session k 2) = tiny_session k" "xi_revision (twin_index 2) = 3"
    "rsc_search_top_k (tiny_session k) = k" "rsc_search_minimum_similarity (tiny_session k) = Finite 0"
    by (simp_all add: twin_session_def twin_index_def tiny_session_def)
  show ?thesis using assms twin_decisions
    by (auto simp: rcses_recognize_def session Let_def twin_search)
qed


theorem rcses_recognizes_by_whole_gallery_witness:
  "rm_decision (twin_answer 2) = fst (decision_of (rsc_policy (tiny_session 2)) (standings [twin_match 1, twin_match 2]))"
proof -
  have config: "rs_config (twin_session 2 2) = tiny_session 2" by (simp add: twin_session_def)
  have "rsc_max_templates_per_subject (tiny_session 2) < rsc_search_top_k (tiny_session 2)"
    "rsc_search_minimum_similarity (tiny_session 2) = Finite 0" "er_values unit_face = [Finite 1]"
    by (simp_all add: tiny_session_def unit_face_def)
  then show ?thesis
    using rcses_recognizes_by_whole_gallery [OF twins_run, of 2, unfolded config, OF _ _ twin_recognized] twin_candidates
    by (simp add: Let_def split_beta)
qed

text \<open>
  A session may be configured to search no more matches than a subject may have templates: then the
  second of two people with the same face is not among the matches, the required margin is not checked,
  and the first is reported as known where the standings of the whole gallery are ambiguous.
\<close>

lemma rcses_small_top_k_hides_rival:
  "case exact_run memory_store (twins 1) (Some empty_gallery) of (ss, i, s) \<Rightarrow>
     rcses_validate_config (rs_config ss) = Ok \<and> \<not> rs_is_faulted ss \<and>
     (case rcses_recognize (exact_port all_ok) True (\<lambda>_. True) unit_face ss i blank_match_result of
        (st, r) \<Rightarrow> st = Ok \<and> rm_decision r = Known) \<and>
     fst (decision_of (rsc_policy (rs_config ss))
        (standings (candidates i (er_values unit_face) (rsc_search_minimum_similarity (rs_config ss))))) = Ambiguous"
proof -
  have run: "exact_run memory_store (twins 1) (Some empty_gallery) = (twin_session 1 2, twin_index 2, Some (twin_gallery 2))"
    by (rule twins_run) simp
  have config: "rs_config (twin_session 1 2) = tiny_session 1" "\<not> rs_is_faulted (twin_session 1 2)"
    "rsc_search_minimum_similarity (tiny_session 1) = Finite 0" "er_values unit_face = [Finite 1]"
    "fp_less (Finite 0) (rp_minimum_subject_margin (rsc_policy (tiny_session 1)))"
    by (simp_all add: twin_session_def tiny_session_def unit_face_def fp_less_def)
  have ranked: "ranked [twin_match 1, twin_match 2]" by (simp add: ranked_def twin_match_def)
  have "fst (decision_of (rsc_policy (tiny_session 1)) (standings [twin_match 1, twin_match 2])) = Ambiguous"
  proof -
    have "decision_of (rsc_policy (tiny_session 1)) (standings [twin_match 1, twin_match 2]) =
        lead_decision (rsc_policy (tiny_session 1)) (score (twin_match 1)) (em_subject_ref (twin_match 1))
          (map_option score (rival [twin_match 1, twin_match 2]))"
      using config(5) by (rule_tac decision_from_front [OF ranked, of "rsc_policy (tiny_session 1)"]) blast
    note lead = this
    show ?thesis unfolding lead by code_simp
  qed
  moreover have "rcses_recognize (exact_port all_ok) True (\<lambda>_. True) unit_face (twin_session 1 2) (twin_index 2)
      blank_match_result = (Ok, twin_answer 1)"
    by (rule twin_recognized) simp
  ultimately show ?thesis
    unfolding run prod.case config twin_candidates using tiny_checks(1) config(2) by (simp add: twin_answer_def)
qed

end
