(* ===== verification/Source_Session_Worker.thy ===== *)
theory Source_Session_Worker
  imports Tensor_Pool Submission_Window
begin

text \<open>
  A source session on a thread of its own: app/source_session.hpp (the port and its reports) and
  app/source_session_worker.{hpp,cpp} (prefix \<open>sswrk\<close>). Each critical section of the code is a function on
  the object's state, and \<open>session_step\<close> interleaves the worker thread with the control thread. The lemmas
  account for every step that was accepted and show what a stop does to the ones not yet delivered.
\<close>

section \<open>The port\<close>

record tensor_result =
  tr_pipeline_pts_ns :: u64
  tr_tensors :: "tensor_blob list"

definition blank_result :: tensor_result where
  "blank_result = \<lparr>tr_pipeline_pts_ns = UINT64_MAX, tr_tensors = []\<rparr>"

abbreviation UINT16_MAX :: u16 where "UINT16_MAX \<equiv> - 1"

definition g_invalid_model_slot :: u16 where "g_invalid_model_slot = UINT16_MAX"

datatype source_session_phase = Session_idle | Session_starting | Session_running | Session_draining | Session_stopped

record source_session_progress =
  sp_model_slot :: u16
  sp_due_model_mask :: u16
  sp_submitted_model_mask :: u16
  sp_busy_model_mask :: u16
  sp_error_model_slot :: u16
  sp_ticket :: submission_ticket
  sp_has_submission :: bool
  sp_has_result :: bool

definition blank_progress :: source_session_progress where
  "blank_progress = \<lparr>sp_model_slot = g_invalid_model_slot, sp_due_model_mask = 0, sp_submitted_model_mask = 0,
     sp_busy_model_mask = 0, sp_error_model_slot = g_invalid_model_slot, sp_ticket = blank_ticket,
     sp_has_submission = False, sp_has_result = False\<rparr>"

record source_session_health =
  sh_phase :: source_session_phase
  sh_model_graph_count :: u16
  sh_running_graph_count :: u16
  sh_outstanding_jobs :: u32
  sh_source_readers :: u32
  sh_is_recovery_required :: bool
  sh_first_error_code :: status

definition blank_health :: source_session_health where
  "blank_health = \<lparr>sh_phase = Session_idle, sh_model_graph_count = 0, sh_running_graph_count = 0,
     sh_outstanding_jobs = 0, sh_source_readers = 0, sh_is_recovery_required = False, sh_first_error_code = Ok\<rparr>"

text \<open>
  How a call of the session ends, with what it left in the two reference parameters: a status, or an
  exception.
\<close>

datatype session_ending = Returned status | Raised_bad_alloc | Raised_other

type_synonym session_answer = "session_ending \<times> tensor_result \<times> source_session_progress"

section \<open>State\<close>

datatype worker_command = Command_none | Command_step | Command_stop

text \<open>The thread waits, is inside a call of the session, or has left \<open>worker_main\<close>.\<close>

datatype session_thread = Thread_waiting | Thread_in_session worker_command u64 | Thread_exited

text \<open>
  \<open>sk_thread\<close> is the joinable thread, \<open>sk_joining\<close> holds from the first critical section of a drain to its
  last.
\<close>

record source_session_worker =
  sk_session :: "nat option"
  sk_thread :: "session_thread option"
  sk_joining :: bool
  sk_pending :: worker_command
  sk_pending_now_ns :: u64
  sk_completion_status :: status
  sk_completion_result :: tensor_result
  sk_completion_progress :: source_session_progress
  sk_steps_requested :: u64
  sk_steps_completed :: u64
  sk_rejected :: u64
  sk_has_completion :: bool
  sk_has_inflight :: bool
  sk_is_running :: bool
  sk_is_exiting :: bool

record source_session_worker_snapshot =
  ks_steps_requested :: u64
  ks_steps_completed :: u64
  ks_rejected :: u64
  ks_is_running :: bool
  ks_has_inflight :: bool
  ks_has_completion :: bool

definition sswrk_initial :: source_session_worker where
  "sswrk_initial = \<lparr>sk_session = None, sk_thread = None, sk_joining = False, sk_pending = Command_none,
     sk_pending_now_ns = 0, sk_completion_status = Ok, sk_completion_result = blank_result,
     sk_completion_progress = blank_progress, sk_steps_requested = 0, sk_steps_completed = 0, sk_rejected = 0,
     sk_has_completion = False, sk_has_inflight = False, sk_is_running = False, sk_is_exiting = False\<rparr>"

section \<open>Operations\<close>

definition sswrk_start :: "nat \<Rightarrow> bool \<Rightarrow> source_session_worker \<Rightarrow> status \<times> source_session_worker" where
  "sswrk_start session launched w =
     (if sk_is_running w then (Invalid_state, w)
      else
        (let w' = w\<lparr>sk_session := Some session, sk_is_running := True, sk_is_exiting := False\<rparr> in
         if launched then (Ok, w'\<lparr>sk_thread := Some Thread_waiting\<rparr>)
         else (Resource_exhausted, w'\<lparr>sk_session := None, sk_is_running := False\<rparr>)))"

text \<open>The thread wakes; its predicate must hold.\<close>

definition sswrk_wake :: "source_session_worker \<Rightarrow> source_session_worker option" where
  "sswrk_wake w =
     (if sk_is_exiting w then Some (w\<lparr>sk_pending := Command_none, sk_thread := Some Thread_exited\<rparr>)
      else if sk_pending w = Command_none then None
      else Some (w\<lparr>sk_thread := Some (Thread_in_session (sk_pending w) (sk_pending_now_ns w)),
                   sk_pending := Command_none, sk_has_inflight := True\<rparr>))"

definition sswrk_ending_status :: "session_ending \<Rightarrow> status" where
  "sswrk_ending_status ending =
     (case ending of Returned st \<Rightarrow> st | Raised_bad_alloc \<Rightarrow> Resource_exhausted | Raised_other \<Rightarrow> Io_error)"

text \<open>A stop passes no reference parameters: its completion has an empty result.\<close>

definition sswrk_finish :: "worker_command \<Rightarrow> session_answer \<Rightarrow> source_session_worker \<Rightarrow> source_session_worker" where
  "sswrk_finish command answer w =
     (case answer of (ending, result, progress) \<Rightarrow>
        w\<lparr>sk_completion_status := sswrk_ending_status ending,
          sk_completion_result := (if command = Command_step then result else blank_result),
          sk_completion_progress := (if command = Command_step then progress else blank_progress),
          sk_has_completion := True, sk_has_inflight := False,
          sk_steps_completed := (if command = Command_step then sk_steps_completed w + 1 else sk_steps_completed w),
          sk_thread := Some Thread_waiting\<rparr>)"

definition sswrk_request_step :: "u64 \<Rightarrow> source_session_worker \<Rightarrow> status \<times> source_session_worker" where
  "sswrk_request_step now w =
     (if \<not> sk_is_running w then (Invalid_state, w)
      else if sk_has_completion w then (Resource_exhausted, w\<lparr>sk_rejected := sk_rejected w + 1\<rparr>)
      else if sk_has_inflight w \<or> sk_pending w \<noteq> Command_none
        then (Resource_exhausted, w\<lparr>sk_rejected := sk_rejected w + 1\<rparr>)
      else (Ok, w\<lparr>sk_pending := Command_step, sk_pending_now_ns := now,
                  sk_steps_requested := sk_steps_requested w + 1\<rparr>))"

definition sswrk_request_stop :: "u64 \<Rightarrow> source_session_worker \<Rightarrow> status \<times> source_session_worker" where
  "sswrk_request_stop now w =
     (if \<not> sk_is_running w then (Invalid_state, w)
      else (Ok, w\<lparr>sk_pending := Command_stop, sk_pending_now_ns := now\<rparr>))"

definition sswrk_poll_completion ::
    "source_session_worker \<Rightarrow> status \<times> (status \<times> tensor_result \<times> source_session_progress) option \<times>
       source_session_worker" where
  "sswrk_poll_completion w =
     (if \<not> sk_has_completion w then (Pending, None, w)
      else (Ok, Some (sk_completion_status w, sk_completion_result w, sk_completion_progress w),
            w\<lparr>sk_completion_status := Ok, sk_completion_result := blank_result,
              sk_completion_progress := blank_progress, sk_has_completion := False\<rparr>))"

text \<open>A drain up to its join, and after it.\<close>

definition sswrk_drain_begin :: "source_session_worker \<Rightarrow> source_session_worker" where
  "sswrk_drain_begin w =
     (if \<not> sk_is_running w then w
      else w\<lparr>sk_is_exiting := True, sk_pending := Command_none, sk_joining := True\<rparr>)"

definition sswrk_drain_end :: "source_session_worker \<Rightarrow> source_session_worker" where
  "sswrk_drain_end w = w\<lparr>sk_thread := None, sk_joining := False, sk_session := None, sk_is_running := False,
     sk_has_completion := False, sk_has_inflight := False, sk_completion_status := Ok,
     sk_completion_result := blank_result, sk_completion_progress := blank_progress\<rparr>"

definition sswrk_get_snapshot :: "source_session_worker \<Rightarrow> source_session_worker_snapshot" where
  "sswrk_get_snapshot w = \<lparr>ks_steps_requested = sk_steps_requested w, ks_steps_completed = sk_steps_completed w,
     ks_rejected = sk_rejected w, ks_is_running = sk_is_running w, ks_has_inflight = sk_has_inflight w,
     ks_has_completion = sk_has_completion w\<rparr>"

section \<open>Interleaving\<close>

text \<open>
  The worker with the history of its steps: accepted and refused are those of \<open>request_step\<close>; \<open>sr_run\<close>
  counts the calls of the session's \<open>step\<close>, and \<open>sr_read\<close> the completions of such calls that were polled.
\<close>

record session_run =
  sr_worker :: source_session_worker
  sr_accepted :: nat
  sr_run :: nat
  sr_read :: nat

definition session_initial :: session_run where
  "session_initial = \<lparr>sr_worker = sswrk_initial, sr_accepted = 0, sr_run = 0, sr_read = 0\<rparr>"

inductive thread_step :: "session_run \<Rightarrow> session_run \<Rightarrow> bool" where
  wake: "sk_thread (sr_worker s) = Some Thread_waiting \<Longrightarrow> sswrk_wake (sr_worker s) = Some w' \<Longrightarrow>
    thread_step s (s\<lparr>sr_worker := w'\<rparr>)"
| finish: "sk_thread (sr_worker s) = Some (Thread_in_session command now) \<Longrightarrow>
    thread_step s (s\<lparr>sr_worker := sswrk_finish command answer (sr_worker s),
      sr_run := (if command = Command_step then Suc (sr_run s) else sr_run s)\<rparr>)"

text \<open>The control thread calls one operation after the other; a drain ends when the thread has left.\<close>

datatype control_call = Call_start | Call_request_step | Call_request_stop | Call_poll | Call_drain | Call_drained

inductive control_step :: "control_call \<Rightarrow> session_run \<Rightarrow> session_run \<Rightarrow> bool" where
  start: "\<not> sk_joining (sr_worker s) \<Longrightarrow> sswrk_start session launched (sr_worker s) = (st, w') \<Longrightarrow>
    control_step Call_start s (s\<lparr>sr_worker := w'\<rparr>)"
| request_step: "\<not> sk_joining (sr_worker s) \<Longrightarrow> sswrk_request_step now (sr_worker s) = (st, w') \<Longrightarrow>
    control_step Call_request_step s (s\<lparr>sr_worker := w',
      sr_accepted := (if st = Ok then Suc (sr_accepted s) else sr_accepted s)\<rparr>)"
| request_stop: "\<not> sk_joining (sr_worker s) \<Longrightarrow> sswrk_request_stop now (sr_worker s) = (st, w') \<Longrightarrow>
    control_step Call_request_stop s (s\<lparr>sr_worker := w'\<rparr>)"
| poll: "\<not> sk_joining (sr_worker s) \<Longrightarrow> sswrk_poll_completion (sr_worker s) = (st, c, w') \<Longrightarrow>
    control_step Call_poll s (s\<lparr>sr_worker := w', sr_read := (if st = Ok then Suc (sr_read s) else sr_read s)\<rparr>)"
| drain: "\<not> sk_joining (sr_worker s) \<Longrightarrow>
    control_step Call_drain s (s\<lparr>sr_worker := sswrk_drain_begin (sr_worker s)\<rparr>)"
| drained: "sk_joining (sr_worker s) \<Longrightarrow> sk_thread (sr_worker s) = Some Thread_exited \<Longrightarrow>
    control_step Call_drained s (s\<lparr>sr_worker := sswrk_drain_end (sr_worker s)\<rparr>)"

definition session_step :: "session_run \<Rightarrow> session_run \<Rightarrow> bool" where
  "session_step s s' \<longleftrightarrow> thread_step s s' \<or> (\<exists>call. control_step call s s')"

text \<open>A step of a run that neither stops nor drains.\<close>

definition serving_step :: "session_run \<Rightarrow> session_run \<Rightarrow> bool" where
  "serving_step s s' \<longleftrightarrow>
     thread_step s s' \<or> (\<exists>call. call \<notin> {Call_request_stop, Call_drain} \<and> control_step call s s')"

inductive_cases thread_stepE: "thread_step s s'"
inductive_cases control_stepE: "control_step call s s'"

section \<open>Steps are accounted for\<close>

definition queued_step :: "source_session_worker \<Rightarrow> nat" where
  "queued_step w = (if sk_pending w = Command_step then 1 else 0)"

definition running_step :: "source_session_worker \<Rightarrow> nat" where
  "running_step w = (case sk_thread w of Some (Thread_in_session Command_step now) \<Rightarrow> 1 | _ \<Rightarrow> 0)"

definition unread_completion :: "source_session_worker \<Rightarrow> nat" where
  "unread_completion w = (if sk_has_completion w then 1 else 0)"

lemmas step_counts = queued_step_def running_step_def unread_completion_def

definition in_session :: "source_session_worker \<Rightarrow> bool" where
  "in_session w \<longleftrightarrow> (case sk_thread w of Some (Thread_in_session command now) \<Rightarrow> True | _ \<Rightarrow> False)"

definition sswrk_inv :: "source_session_worker \<Rightarrow> bool" where
  "sswrk_inv w \<longleftrightarrow>
     (sk_is_running w \<longleftrightarrow> sk_thread w \<noteq> None) \<and> (sk_joining w \<longrightarrow> sk_is_running w \<and> sk_is_exiting w) \<and>
     (sk_is_running w \<and> sk_is_exiting w \<longrightarrow> sk_joining w) \<and>
     (sk_thread w = Some Thread_exited \<longrightarrow> sk_joining w) \<and>
     (sk_has_inflight w \<longleftrightarrow> in_session w) \<and>
     (sk_pending w \<noteq> Command_none \<longrightarrow> sk_is_running w \<and> \<not> sk_joining w) \<and>
     (sk_has_completion w \<longrightarrow> sk_is_running w) \<and>
     (sk_pending w = Command_step \<longrightarrow> \<not> sk_has_completion w \<and> \<not> sk_has_inflight w) \<and>
     (running_step w = 1 \<longrightarrow> \<not> sk_has_completion w)"

text \<open>The steps that were accepted and have left the worker without having been run.\<close>

definition lost_steps :: "session_run \<Rightarrow> int" where
  "lost_steps s = int (sr_accepted s) -
     int (sr_run s + queued_step (sr_worker s) + running_step (sr_worker s))"

lemmas sswrk_defs = sswrk_start_def sswrk_wake_def sswrk_finish_def sswrk_request_step_def sswrk_request_stop_def
  sswrk_poll_completion_def sswrk_drain_begin_def sswrk_drain_end_def

lemma sswrk_inv_initial: "sswrk_inv sswrk_initial"
  by (simp add: sswrk_inv_def sswrk_initial_def in_session_def running_step_def)

abbreviation "held w \<equiv> queued_step w + running_step w"

lemma wake_inv:
  assumes "sswrk_inv w" "sk_thread w = Some Thread_waiting" "sswrk_wake w = Some w'"
  shows "sswrk_inv w' \<and> held w' = held w \<and> unread_completion w' = unread_completion w"
proof (cases "sk_is_exiting w")
  case True
  then show ?thesis using assms by (auto simp: sswrk_wake_def sswrk_inv_def step_counts in_session_def)
next
  case False
  then show ?thesis using assms
    by (cases "sk_pending w") (auto simp: sswrk_wake_def sswrk_inv_def step_counts in_session_def)
qed

lemma finish_inv:
  assumes "sswrk_inv w" "sk_thread w = Some (Thread_in_session command now)"
  shows "sswrk_inv (sswrk_finish command answer w)"
    "queued_step (sswrk_finish command answer w) = queued_step w"
    "running_step (sswrk_finish command answer w) = 0" "sk_has_completion (sswrk_finish command answer w)"
    "running_step w = (if command = Command_step then 1 else 0)"
  using assms
  by (cases answer; cases command;
      auto simp: sswrk_finish_def sswrk_inv_def step_counts in_session_def split: if_splits)+

lemma start_inv:
  assumes "sswrk_inv w" "sswrk_start session launched w = (st, w')"
  shows "sswrk_inv w' \<and> held w' = held w \<and> unread_completion w' = unread_completion w"
  using assms by (cases "sk_is_running w") (auto simp: sswrk_start_def Let_def sswrk_inv_def step_counts in_session_def
      split: if_splits)

lemma same_thread [simp]:
  "in_session (w\<lparr>sk_pending := v0\<rparr>) = in_session w" "running_step (w\<lparr>sk_pending := v0\<rparr>) = running_step w"
  "in_session (w\<lparr>sk_pending_now_ns := v1\<rparr>) = in_session w" "running_step (w\<lparr>sk_pending_now_ns := v1\<rparr>) = running_step w"
  "in_session (w\<lparr>sk_joining := v2\<rparr>) = in_session w" "running_step (w\<lparr>sk_joining := v2\<rparr>) = running_step w"
  "in_session (w\<lparr>sk_is_exiting := v3\<rparr>) = in_session w" "running_step (w\<lparr>sk_is_exiting := v3\<rparr>) = running_step w"
  "in_session (w\<lparr>sk_rejected := v4\<rparr>) = in_session w" "running_step (w\<lparr>sk_rejected := v4\<rparr>) = running_step w"
  "in_session (w\<lparr>sk_steps_requested := v5\<rparr>) = in_session w" "running_step (w\<lparr>sk_steps_requested := v5\<rparr>) = running_step w"
  "in_session (w\<lparr>sk_completion_status := v6\<rparr>) = in_session w" "running_step (w\<lparr>sk_completion_status := v6\<rparr>) = running_step w"
  "in_session (w\<lparr>sk_completion_result := v7\<rparr>) = in_session w" "running_step (w\<lparr>sk_completion_result := v7\<rparr>) = running_step w"
  "in_session (w\<lparr>sk_completion_progress := v8\<rparr>) = in_session w" "running_step (w\<lparr>sk_completion_progress := v8\<rparr>) = running_step w"
  "in_session (w\<lparr>sk_has_completion := v9\<rparr>) = in_session w" "running_step (w\<lparr>sk_has_completion := v9\<rparr>) = running_step w"
  by (simp_all add: in_session_def running_step_def)

lemma request_step_inv:
  assumes "sswrk_inv w" "\<not> sk_joining w" "sswrk_request_step now w = (st, w')"
  shows "sswrk_inv w' \<and> held w' = held w + (if st = Ok then 1 else 0) \<and>
    unread_completion w' = unread_completion w"
proof (cases "st = Ok")
  case True
  then have "sk_is_running w" "\<not> sk_has_completion w" "\<not> sk_has_inflight w" "sk_pending w = Command_none"
      "w' = w\<lparr>sk_pending := Command_step, sk_pending_now_ns := now, sk_steps_requested := sk_steps_requested w + 1\<rparr>"
    using assms(3) by (auto simp: sswrk_request_step_def split: if_splits)
  then show ?thesis using assms(1,2) True unfolding sswrk_inv_def
    by (simp add: queued_step_def unread_completion_def)
next
  case False
  then have "w' = w \<or> w' = w\<lparr>sk_rejected := sk_rejected w + 1\<rparr>"
    using assms(3) by (auto simp: sswrk_request_step_def split: if_splits)
  moreover have "sswrk_inv (w\<lparr>sk_rejected := sk_rejected w + 1\<rparr>) = sswrk_inv w" by (simp add: sswrk_inv_def)
  ultimately show ?thesis using assms(1) False by (auto simp: queued_step_def unread_completion_def)
qed

lemma worker_stop_inv:
  assumes "sswrk_inv w" "\<not> sk_joining w" "sswrk_request_stop now w = (st, w')"
  shows "sswrk_inv w' \<and> running_step w' = running_step w \<and> queued_step w' = (if st = Ok then 0 else queued_step w)"
proof (cases "sk_is_running w")
  case True
  then have "st = Ok" "w' = w\<lparr>sk_pending := Command_stop, sk_pending_now_ns := now\<rparr>"
    using assms(3) by (auto simp: sswrk_request_stop_def)
  then show ?thesis using assms(1,2) True unfolding sswrk_inv_def by (simp add: queued_step_def)
qed (use assms in \<open>simp add: sswrk_request_stop_def\<close>)

lemma poll_inv:
  assumes "sswrk_inv w" "sswrk_poll_completion w = (st, c, w')"
  shows "sswrk_inv w' \<and> held w' = held w \<and>
    unread_completion w = unread_completion w' + (if st = Ok then 1 else 0)"
proof (cases "sk_has_completion w")
  case True
  then have "st = Ok" "w' = w\<lparr>sk_completion_status := Ok, sk_completion_result := blank_result,
      sk_completion_progress := blank_progress, sk_has_completion := False\<rparr>"
    using assms(2) by (simp_all add: sswrk_poll_completion_def)
  then show ?thesis using assms(1) True unfolding sswrk_inv_def
    by (simp add: queued_step_def unread_completion_def; blast)
qed (use assms in \<open>auto simp: sswrk_poll_completion_def\<close>)

lemma drain_inv:
  assumes "sswrk_inv w"
  shows "sswrk_inv (sswrk_drain_begin w) \<and> running_step (sswrk_drain_begin w) = running_step w \<and>
    queued_step (sswrk_drain_begin w) = 0"
proof (cases "sk_is_running w")
  case True
  then show ?thesis using assms unfolding sswrk_inv_def by (simp add: sswrk_drain_begin_def queued_step_def)
next
  case False
  then have "sk_pending w = Command_none" using assms unfolding sswrk_inv_def by blast
  then show ?thesis using assms False by (simp add: sswrk_drain_begin_def queued_step_def)
qed

lemma drained_inv:
  assumes "sswrk_inv w" "sk_joining w" "sk_thread w = Some Thread_exited"
  shows "sswrk_inv (sswrk_drain_end w) \<and> held (sswrk_drain_end w) = held w"
  using assms by (auto simp: sswrk_drain_end_def sswrk_inv_def step_counts in_session_def)

lemma thread_step_inv:
  assumes "thread_step s s'" "sswrk_inv (sr_worker s)"
  shows "sswrk_inv (sr_worker s') \<and> lost_steps s' = lost_steps s"
  using assms(1)
proof (cases rule: thread_step.cases)
  case (wake w')
  then show ?thesis using wake_inv [OF assms(2) wake(2,3)] by (simp add: lost_steps_def)
next
  case (finish command now answer)
  note f = finish_inv [OF assms(2) finish(2)]
  show ?thesis using f(1-3,5) finish(1) by (simp add: lost_steps_def)
qed

lemma control_step_inv:
  assumes "control_step call s s'" "sswrk_inv (sr_worker s)"
  shows "sswrk_inv (sr_worker s') \<and> lost_steps s \<le> lost_steps s' \<and>
    (call \<notin> {Call_request_stop, Call_drain} \<longrightarrow> lost_steps s' = lost_steps s)"
  using assms(1)
proof (cases rule: control_step.cases)
  case (start session launched st w')
  then show ?thesis using start_inv [OF assms(2) start(4)] by (simp add: lost_steps_def)
next
  case (request_step now st w')
  then show ?thesis using request_step_inv [OF assms(2) request_step(3,4)] by (cases "st = Ok") (simp_all add: lost_steps_def)
next
  case (request_stop now st w')
  then show ?thesis using worker_stop_inv [OF assms(2) request_stop(3,4)] by (simp add: lost_steps_def)
next
  case (poll st c w')
  then show ?thesis using poll_inv [OF assms(2) poll(4)] by (simp add: lost_steps_def)
next
  case drain
  then show ?thesis using drain_inv [OF assms(2)] by (simp add: lost_steps_def)
next
  case drained
  then show ?thesis using drained_inv [OF assms(2) drained(3,4)] by (simp add: lost_steps_def)
qed

text \<open>While nobody stops the worker only steps are run, and every completion is that of a step.\<close>

definition serving :: "session_run \<Rightarrow> bool" where
  "serving s \<longleftrightarrow>
     sswrk_inv (sr_worker s) \<and> \<not> sk_joining (sr_worker s) \<and> sk_pending (sr_worker s) \<noteq> Command_stop \<and>
     (in_session (sr_worker s) \<longrightarrow> running_step (sr_worker s) = 1) \<and> lost_steps s = 0 \<and>
     sr_run s = sr_read s + unread_completion (sr_worker s)"

lemma wake_serving:
  assumes "sswrk_inv w" "sk_pending w \<noteq> Command_stop" "sk_thread w = Some Thread_waiting" "sswrk_wake w = Some w'"
  shows "sk_pending w' \<noteq> Command_stop \<and> (in_session w' \<longrightarrow> running_step w' = 1) \<and> sk_joining w' = sk_joining w"
  using assms(2,4)
  by (cases "sk_pending w") (auto simp: sswrk_wake_def in_session_def running_step_def split: if_splits)

lemma finish_fields [simp]:
  "sk_pending (sswrk_finish command answer w) = sk_pending w" "\<not> in_session (sswrk_finish command answer w)"
  "sk_joining (sswrk_finish command answer w) = sk_joining w"
  by (cases answer; simp add: sswrk_finish_def in_session_def)+

lemma serving_step_serving:
  assumes "serving_step s s'" "serving s"
  shows "serving s'"
proof -
  let ?w = "sr_worker s"
  have inv: "sswrk_inv ?w" using assms(2) by (simp add: serving_def)
  consider "thread_step s s'" | call where "call \<notin> {Call_request_stop, Call_drain}" "control_step call s s'"
    using assms(1) by (auto simp: serving_step_def)
  then show ?thesis
  proof cases
    case 1
    note kept = thread_step_inv [OF 1 inv]
    from 1 show ?thesis
    proof (cases rule: thread_step.cases)
      case (wake w')
      then show ?thesis
        using assms(2) kept wake_inv [OF inv wake(2,3)] wake_serving [OF inv _ wake(2,3)]
        by (simp add: serving_def)
    next
      case (finish command now answer)
      note f = finish_inv [OF inv finish(2)]
      have "in_session ?w" using finish(2) by (simp add: in_session_def)
      then have run: "running_step ?w = 1" using assms(2) by (simp add: serving_def)
      then have "\<not> sk_has_completion ?w" using inv unfolding sswrk_inv_def by blast
      then have unread: "unread_completion ?w = 0" by (simp add: unread_completion_def)
      have command: "command = Command_step" using run f(5) by (metis zero_neq_one)
      define w1 where "w1 = sswrk_finish command answer ?w"
      have w1: "unread_completion w1 = 1" "\<not> sk_joining w1 \<and> sk_pending w1 \<noteq> Command_stop" "\<not> in_session w1"
        using f(4) [of answer] assms(2) by (simp_all add: w1_def unread_completion_def serving_def)
      have s': "s' = s\<lparr>sr_worker := w1, sr_run := Suc (sr_run s)\<rparr>"
        using finish(1) command by (simp add: w1_def)
      have "lost_steps s = 0" "sr_run s = sr_read s" using assms(2) unread by (simp_all add: serving_def)
      then show ?thesis using kept w1 unfolding serving_def by (simp add: s')
    qed
  next
    case 2
    note kept = control_step_inv [OF 2(2) inv]
    from 2(2) show ?thesis
    proof (cases rule: control_step.cases)
      case (start session launched st w')
      have "sk_joining w' = sk_joining ?w" "sk_pending w' = sk_pending ?w" "in_session w' \<longrightarrow> in_session ?w \<and> running_step w' = running_step ?w"
        using start(4) by (auto simp: sswrk_start_def Let_def in_session_def running_step_def split: if_splits)
      then show ?thesis using assms(2) kept start start_inv [OF inv start(4)] 2(1)
        by (auto simp: serving_def)
    next
      case (request_step now st w')
      have "sk_joining w' = sk_joining ?w" "sk_pending w' \<noteq> Command_stop \<or> sk_pending w' = sk_pending ?w" "in_session w' = in_session ?w"
          "running_step w' = running_step ?w"
        using request_step(4) by (auto simp: sswrk_request_step_def split: if_splits)
      then show ?thesis using assms(2) kept request_step request_step_inv [OF inv request_step(3,4)] 2(1)
        by (auto simp: serving_def)
    next
      case (poll st c w')
      have "sk_joining w' = sk_joining ?w" "sk_pending w' = sk_pending ?w" "in_session w' = in_session ?w" "running_step w' = running_step ?w"
        using poll(4) by (auto simp: sswrk_poll_completion_def split: if_splits)
      then show ?thesis using assms(2) kept poll poll_inv [OF inv poll(4)] 2(1)
        by (auto simp: serving_def)
    next
      case drained
      then show ?thesis using assms(2) by (simp add: serving_def)
    qed (use 2(1) in simp_all)
  qed
qed

lemma serving_initial: "serving session_initial"
  by (simp add: serving_def session_initial_def sswrk_inv_initial lost_steps_def)
    (simp add: sswrk_initial_def step_counts in_session_def)

lemma serving_run: "serving_step\<^sup>*\<^sup>* session_initial s \<Longrightarrow> serving s"
  by (induction rule: rtranclp_induct) (auto intro: serving_initial serving_step_serving)

lemma one_outstanding:
  assumes "sswrk_inv w"
  shows "held w + unread_completion w \<le> 1"
proof (cases "sk_pending w = Command_step")
  case True
  then have "\<not> sk_has_completion w" "\<not> in_session w" using assms unfolding sswrk_inv_def by blast+
  then show ?thesis
    by (auto simp: step_counts in_session_def split: option.splits session_thread.splits worker_command.splits)
next
  case False
  then have "queued_step w = 0" by (simp add: queued_step_def)
  moreover have "running_step w = 0 \<or> running_step w = 1 \<and> \<not> sk_has_completion w"
    using assms unfolding sswrk_inv_def running_step_def
    by (auto split: option.splits session_thread.splits worker_command.splits)
  ultimately show ?thesis by (auto simp: unread_completion_def)
qed

lemma session_step_inv:
  assumes "session_step s s'" "sswrk_inv (sr_worker s)"
  shows "sswrk_inv (sr_worker s') \<and> lost_steps s \<le> lost_steps s'"
  using assms thread_step_inv control_step_inv unfolding session_step_def by fastforce

lemma session_run_inv:
  "session_step\<^sup>*\<^sup>* s s' \<Longrightarrow> sswrk_inv (sr_worker s) \<Longrightarrow>
     sswrk_inv (sr_worker s') \<and> lost_steps s \<le> lost_steps s'"
proof (induction rule: rtranclp_induct)
  case (step y z)
  then show ?case using session_step_inv [of y z] by fastforce
qed simp

text \<open>
  Until somebody stops or drains the worker, every step it accepted is in exactly one place: it waits,
  is inside the session, its completion waits to be read, or that completion was read; and only one step
  is not yet read at any time. Rejected requests change nothing of this, and no completion is read twice.
\<close>

theorem sswrk_step_delivered_once:
  assumes "serving_step\<^sup>*\<^sup>* session_initial s"
  shows "sr_accepted s = sr_read s + queued_step (sr_worker s) + running_step (sr_worker s) +
           unread_completion (sr_worker s) \<and>
         sr_run s = sr_read s + unread_completion (sr_worker s) \<and>
         queued_step (sr_worker s) + running_step (sr_worker s) + unread_completion (sr_worker s) \<le> 1"
  using serving_run [OF assms] one_outstanding [of "sr_worker s"]
  by (simp add: serving_def lost_steps_def)

text \<open>
  A stop takes the place of a step that was accepted and still waits: whatever is called afterwards and
  however the thread runs, that step is never given to the session.
\<close>

theorem sswrk_stop_drops_queued_step:
  assumes "session_step\<^sup>*\<^sup>* session_initial s" and "sk_pending (sr_worker s) = Command_step"
    and "sswrk_request_stop now (sr_worker s) = (st, w')" and "session_step\<^sup>*\<^sup>* (s\<lparr>sr_worker := w'\<rparr>) s'"
  shows "st = Ok \<and> sr_run s' + queued_step (sr_worker s') + running_step (sr_worker s') < sr_accepted s'"
proof -
  have inv: "sswrk_inv (sr_worker s)" and lost: "0 \<le> lost_steps s"
    using session_run_inv [OF assms(1)] sswrk_inv_initial
    by (auto simp: session_initial_def lost_steps_def sswrk_initial_def step_counts)
  have live: "sk_is_running (sr_worker s)" "\<not> sk_joining (sr_worker s)"
    using inv assms(2) unfolding sswrk_inv_def by auto
  then have st: "st = Ok" using assms(3) by (simp add: sswrk_request_stop_def)
  note stop = worker_stop_inv [OF inv live(2) assms(3)]
  have "queued_step (sr_worker s) = 1" using assms(2) by (simp add: queued_step_def)
  then have "lost_steps (s\<lparr>sr_worker := w'\<rparr>) = lost_steps s + 1"
    using stop st by (simp add: lost_steps_def)
  then have "0 < lost_steps s'"
    using session_run_inv [OF assms(4)] stop lost by simp
  then show ?thesis using st by (simp add: lost_steps_def)
qed

section \<open>Examples\<close>

definition one_step :: session_run where
  "one_step = session_initial\<lparr>sr_worker := sswrk_initial\<lparr>sk_session := Some 3, sk_thread := Some Thread_waiting,
     sk_is_running := True, sk_pending := Command_step, sk_pending_now_ns := 10, sk_steps_requested := 1\<rparr>,
     sr_accepted := 1\<rparr>"

lemma one_step_reached: "serving_step\<^sup>*\<^sup>* session_initial one_step"
proof -
  define w where "w = sswrk_initial\<lparr>sk_session := Some 3, sk_thread := Some Thread_waiting, sk_is_running := True\<rparr>"
  have "sswrk_start 3 True sswrk_initial = (Ok, w)"
    by (simp add: sswrk_start_def w_def sswrk_initial_def)
  then have "control_step Call_start session_initial (session_initial\<lparr>sr_worker := w\<rparr>)"
    using control_step.start [of session_initial 3 True Ok w] by (simp add: session_initial_def sswrk_initial_def)
  then have "serving_step session_initial (session_initial\<lparr>sr_worker := w\<rparr>)"
    unfolding serving_step_def by blast
  moreover have "sswrk_request_step 10 w = (Ok, sr_worker one_step)" "\<not> sk_joining w"
    by (simp_all add: sswrk_request_step_def w_def one_step_def sswrk_initial_def)
  then have "control_step Call_request_step (session_initial\<lparr>sr_worker := w\<rparr>) one_step"
    using control_step.request_step [of "session_initial\<lparr>sr_worker := w\<rparr>" 10 Ok "sr_worker one_step"]
    by (simp add: one_step_def session_initial_def)
  then have "serving_step (session_initial\<lparr>sr_worker := w\<rparr>) one_step"
    unfolding serving_step_def by blast
  ultimately show ?thesis by (meson rtranclp.rtrancl_into_rtrancl rtranclp.rtrancl_refl)
qed

theorem sswrk_step_delivered_once_witness: "sr_accepted one_step = 1 \<and> queued_step (sr_worker one_step) = 1"
  using sswrk_step_delivered_once [OF one_step_reached] by (simp add: one_step_def queued_step_def)

lemma serving_is_step: "serving_step s s' \<Longrightarrow> session_step s s'"
  unfolding serving_step_def session_step_def by blast

theorem sswrk_stop_drops_queued_step_witness:
  "\<exists>w'. sswrk_request_stop 20 (sr_worker one_step) = (Ok, w') \<and>
        sr_run (one_step\<lparr>sr_worker := w'\<rparr>) < sr_accepted (one_step\<lparr>sr_worker := w'\<rparr>)"
proof -
  have "session_step\<^sup>*\<^sup>* session_initial one_step"
    using one_step_reached by (rule rtranclp_mono [THEN predicate2D, rotated]) (blast intro: serving_is_step)
  moreover obtain st w' where "sswrk_request_stop 20 (sr_worker one_step) = (st, w')" by fastforce
  ultimately show ?thesis
    using sswrk_stop_drops_queued_step [of one_step 20 st w' "one_step\<lparr>sr_worker := w'\<rparr>"]
    by (fastforce simp: one_step_def)
qed

end
