(* ===== verification/Multi_Source_Supervisor.thy ===== *)
theory Multi_Source_Supervisor
  imports Source_Session_Worker Deployment_Config
begin

text \<open>
  The coordinator of all sources: app/multi_source_supervisor.{hpp,cpp} (prefix \<open>mssup\<close>). Sessions are
  borrowed objects: the supervisor holds their addresses and \<open>heap\<close> the objects; \<open>session_port\<close> is the
  interface they implement. With workers a session runs on a thread of its own
  (Source_Session_Worker). The lemmas show that no source starves, that a source's error stays its own
  and is reported, and that the fault channel is a bounded queue.
\<close>

section \<open>Sessions\<close>

record 'n session_port =
  sn_step :: "u64 \<Rightarrow> tensor_result \<Rightarrow> 'n \<Rightarrow> session_ending \<times> tensor_result \<times> source_session_progress \<times> 'n"
  sn_request_stop :: "u64 \<Rightarrow> 'n \<Rightarrow> session_ending \<times> 'n"
  sn_health :: "'n \<Rightarrow> source_session_health"

text \<open>The call a worker thread makes.\<close>

definition session_call :: "'n session_port \<Rightarrow> worker_command \<Rightarrow> u64 \<Rightarrow> 'n \<Rightarrow> session_answer \<times> 'n" where
  "session_call port command now n =
     (if command = Command_step
      then (let (ending, result, progress, n') = sn_step port now blank_result n in ((ending, result, progress), n'))
      else (let (ending, n') = sn_request_stop port now n in ((ending, blank_result, blank_progress), n')))"

section \<open>State\<close>

definition g_invalid_source_index :: u16 where "g_invalid_source_index = UINT16_MAX"
definition g_max_supervisor_fault_events :: nat where "g_max_supervisor_fault_events = 32"

datatype multi_source_supervisor_state = Supervisor_binding | Supervisor_running | Supervisor_stopping | Supervisor_stopped

record multi_source_supervisor_config =
  vc_deployment_revision :: u64
  vc_catalog_revision :: u64
  vc_source_count :: u16
  vc_use_session_workers :: bool

record multi_source_progress_report =
  vr_source_index :: u16
  vr_source_status :: status
  vr_source_health :: source_session_health
  vr_source_progress :: source_session_progress
  vr_has_source :: bool
  vr_has_result :: bool

record multi_source_fault_event =
  ve_source_index :: u16
  ve_code :: status
  ve_at_ns :: u64

record multi_source_supervisor_snapshot =
  vn_supervisor_state :: multi_source_supervisor_state
  vn_deployment_revision :: u64
  vn_catalog_revision :: u64
  vn_declared_sources :: u16
  vn_bound_sources :: u16
  vn_starting_sources :: u16
  vn_running_sources :: u16
  vn_stopping_sources :: u16
  vn_stopped_sources :: u16
  vn_recovery_sources :: u16
  vn_faulted_sources :: u16
  vn_fault_event_total :: u32
  vn_source_fault_codes :: "status list"
  vn_first_error_code :: status

record multi_source_supervisor =
  sv_config :: multi_source_supervisor_config
  sv_sessions :: "nat option list"
  sv_workers :: "source_session_worker list"
  sv_state :: multi_source_supervisor_state
  sv_source_fault_codes :: "status list"
  sv_fault_events :: "multi_source_fault_event list"
  sv_bound_count :: u16
  sv_next_source_index :: u16
  sv_next_result_index :: u16
  sv_async_mode :: bool
  sv_async_poll_turn :: bool
  sv_fault_event_head :: u16
  sv_fault_event_count :: u16
  sv_fault_event_total :: u32
  sv_last_now_ns :: u64

definition blank_report :: multi_source_progress_report where
  "blank_report = \<lparr>vr_source_index = g_invalid_source_index, vr_source_status = Ok, vr_source_health = blank_health,
     vr_source_progress = blank_progress, vr_has_source = False, vr_has_result = False\<rparr>"

definition blank_fault_event :: multi_source_fault_event where
  "blank_fault_event = \<lparr>ve_source_index = g_invalid_source_index, ve_code = Ok, ve_at_ns = 0\<rparr>"

definition mssup_initial :: "multi_source_supervisor_config \<Rightarrow> multi_source_supervisor" where
  "mssup_initial c = \<lparr>sv_config = c, sv_sessions = replicate dpl_max_sources None,
     sv_workers = replicate dpl_max_sources sswrk_initial, sv_state = Supervisor_binding,
     sv_source_fault_codes = replicate dpl_max_sources Ok,
     sv_fault_events = replicate g_max_supervisor_fault_events blank_fault_event, sv_bound_count = 0,
     sv_next_source_index = 0, sv_next_result_index = 0, sv_async_mode = False, sv_async_poll_turn = False,
     sv_fault_event_head = 0, sv_fault_event_count = 0, sv_fault_event_total = 0, sv_last_now_ns = 0\<rparr>"

abbreviation "source_count sv \<equiv> unat (vc_source_count (sv_config sv))"

text \<open>
  The phase of the session at an index. A null pointer is only read when no session is bound there, which
  the guards exclude (\<open>activated_bound\<close>); the value given for it is never used.
\<close>

definition health_at :: "'n session_port \<Rightarrow> (nat \<Rightarrow> 'n) \<Rightarrow> multi_source_supervisor \<Rightarrow> nat \<Rightarrow> source_session_health" where
  "health_at port heap sv i =
     (case sv_sessions sv ! i of None \<Rightarrow> blank_health\<lparr>sh_phase := Session_stopped\<rparr> | Some a \<Rightarrow> sn_health port (heap a))"

abbreviation "phase_at port heap sv i \<equiv> sh_phase (health_at port heap sv i)"

section \<open>Binding and activation\<close>

definition mssup_check_time :: "u64 \<Rightarrow> multi_source_supervisor \<Rightarrow> status \<times> multi_source_supervisor" where
  "mssup_check_time now sv =
     (if now = UINT64_MAX \<or> now < sv_last_now_ns sv then (Invalid_argument, sv)
      else (Ok, sv\<lparr>sv_last_now_ns := now\<rparr>))"

definition mssup_bind_session ::
    "'n session_port \<Rightarrow> (nat \<Rightarrow> 'n) \<Rightarrow> u16 \<Rightarrow> nat \<Rightarrow> multi_source_supervisor \<Rightarrow> status \<times> multi_source_supervisor" where
  "mssup_bind_session port heap index session sv =
     (if sv_state sv \<noteq> Supervisor_binding then (Invalid_state, sv)
      else if source_count sv = 0 \<or> source_count sv > dpl_max_sources \<or> unat index \<ge> source_count sv
        then (Invalid_argument, sv)
      else if sv_sessions sv ! unat index \<noteq> None then (Invalid_state, sv)
      else if sh_phase (sn_health port (heap session)) \<noteq> Session_idle then (Invalid_state, sv)
      else if list_ex (\<lambda>i. sv_sessions sv ! i = Some session) [0..<source_count sv] then (Invalid_argument, sv)
      else (Ok, sv\<lparr>sv_sessions := (sv_sessions sv)[unat index := Some session],
                   sv_bound_count := sv_bound_count sv + 1\<rparr>))"

text \<open>
  A drain of one worker as its caller sees it: a call of the session that is still running is awaited,
  then the thread leaves and is joined.
\<close>

definition sswrk_drain ::
    "'n session_port \<Rightarrow> source_session_worker \<times> (nat \<Rightarrow> 'n) \<Rightarrow> source_session_worker \<times> (nat \<Rightarrow> 'n)" where
  "sswrk_drain port = (\<lambda>(w, heap).
     (if \<not> sk_is_running w then (w, heap)
      else
        (let w1 = sswrk_drain_begin w;
             (w2, heap') =
               (case (sk_thread w1, sk_session w1) of
                  (Some (Thread_in_session command now), Some a) \<Rightarrow>
                    (let (answer, n') = session_call port command now (heap a)
                     in (sswrk_finish command answer w1, heap(a := n')))
                | _ \<Rightarrow> (w1, heap))
         in (sswrk_drain_end (case sswrk_wake w2 of None \<Rightarrow> w2 | Some w3 \<Rightarrow> w3), heap'))))"

fun drain_workers ::
    "'n session_port \<Rightarrow> nat list \<Rightarrow> source_session_worker list \<times> (nat \<Rightarrow> 'n) \<Rightarrow>
       source_session_worker list \<times> (nat \<Rightarrow> 'n)" where
  "drain_workers port [] (ws, heap) = (ws, heap)"
| "drain_workers port (i # is) (ws, heap) =
     (let (w, heap') = sswrk_drain port (ws ! i, heap) in drain_workers port is (ws[i := w], heap'))"

text \<open>The workers are started in order; \<open>launched i\<close> says whether thread \<open>i\<close> could be created.\<close>

fun mssup_start_workers ::
    "'n session_port \<Rightarrow> (nat \<Rightarrow> bool) \<Rightarrow> nat option list \<Rightarrow> nat list \<Rightarrow>
       source_session_worker list \<times> (nat \<Rightarrow> 'n) \<Rightarrow> status \<times> source_session_worker list \<times> (nat \<Rightarrow> 'n)" where
  "mssup_start_workers port launched sessions [] (ws, heap) = (Ok, ws, heap)"
| "mssup_start_workers port launched sessions (i # is) (ws, heap) =
     (case sessions ! i of
        None \<Rightarrow> (Invalid_state, ws, heap)
      | Some a \<Rightarrow>
          (let (started, w) = sswrk_start a (launched i) (ws ! i); ws' = ws[i := w]
           in if started \<noteq> Ok
              then (let (ws'', heap') = drain_workers port [0..<i] (ws', heap) in (started, ws'', heap'))
              else mssup_start_workers port launched sessions is (ws', heap)))"

definition mssup_activate ::
    "'n session_port \<Rightarrow> (nat \<Rightarrow> bool) \<Rightarrow> multi_source_supervisor \<times> (nat \<Rightarrow> 'n) \<Rightarrow>
       status \<times> multi_source_supervisor \<times> (nat \<Rightarrow> 'n)" where
  "mssup_activate port launched = (\<lambda>(sv, heap).
     (let c = sv_config sv; sv_go = sv\<lparr>sv_next_source_index := 0, sv_next_result_index := 0, sv_state := Supervisor_running\<rparr> in
      if sv_state sv \<noteq> Supervisor_binding then (Invalid_state, sv, heap)
      else if vc_deployment_revision c = 0 \<or> vc_catalog_revision c = 0 \<or> source_count sv = 0 \<or>
          source_count sv > dpl_max_sources \<or> sv_bound_count sv \<noteq> vc_source_count c
        then (Invalid_argument, sv, heap)
      else if list_ex (\<lambda>i. sv_sessions sv ! i = None \<or> phase_at port heap sv i \<noteq> Session_idle) [0..<source_count sv]
        then (Invalid_state, sv, heap)
      else if \<not> vc_use_session_workers c then (Ok, sv_go, heap)
      else
        (let (started, ws, heap') = mssup_start_workers port launched (sv_sessions sv) [0..<source_count sv]
               (sv_workers sv, heap)
         in if started \<noteq> Ok then (started, sv\<lparr>sv_workers := ws\<rparr>, heap')
            else (Ok, sv_go\<lparr>sv_workers := ws, sv_async_mode := True\<rparr>, heap'))))"

definition mssup_drain ::
    "'n session_port \<Rightarrow> multi_source_supervisor \<times> (nat \<Rightarrow> 'n) \<Rightarrow> status \<times> multi_source_supervisor \<times> (nat \<Rightarrow> 'n)" where
  "mssup_drain port = (\<lambda>(sv, heap).
     (let (ws, heap') = drain_workers port [0..<min (source_count sv) (length (sv_sessions sv))] (sv_workers sv, heap)
      in (Ok, sv\<lparr>sv_workers := ws, sv_async_mode := False\<rparr>, heap')))"

section \<open>The fault channel\<close>

definition mssup_record_fault :: "u16 \<Rightarrow> status \<Rightarrow> u64 \<Rightarrow> multi_source_supervisor \<Rightarrow> multi_source_supervisor" where
  "mssup_record_fault index code at_ns sv =
     (let event = \<lparr>ve_source_index = index, ve_code = code, ve_at_ns = at_ns\<rparr>;
          sv1 = (if unat index < dpl_max_sources
                 then sv\<lparr>sv_source_fault_codes := (sv_source_fault_codes sv)[unat index := code]\<rparr> else sv);
          h = unat (sv_fault_event_head sv); n = unat (sv_fault_event_count sv);
          sv2 = (if n < g_max_supervisor_fault_events
                 then sv1\<lparr>sv_fault_events := (sv_fault_events sv)[(h + n) mod g_max_supervisor_fault_events := event],
                          sv_fault_event_count := sv_fault_event_count sv + 1\<rparr>
                 else sv1\<lparr>sv_fault_events := (sv_fault_events sv)[h := event],
                          sv_fault_event_head := of_nat ((h + 1) mod g_max_supervisor_fault_events)\<rparr>)
      in sv2\<lparr>sv_fault_event_total := sv_fault_event_total sv + 1\<rparr>)"

definition mssup_take_fault ::
    "multi_source_fault_event \<Rightarrow> multi_source_supervisor \<Rightarrow>
       status \<times> multi_source_fault_event \<times> multi_source_supervisor" where
  "mssup_take_fault out sv =
     (let h = unat (sv_fault_event_head sv) in
      if sv_fault_event_count sv = 0 then (Pending, out, sv)
      else (Ok, sv_fault_events sv ! h,
            sv\<lparr>sv_fault_events := (sv_fault_events sv)[h := blank_fault_event],
               sv_fault_event_head := of_nat ((h + 1) mod g_max_supervisor_fault_events),
               sv_fault_event_count := sv_fault_event_count sv - 1\<rparr>))"

section \<open>Progress\<close>

definition mssup_refresh_state ::
    "'n session_port \<Rightarrow> (nat \<Rightarrow> 'n) \<Rightarrow> multi_source_supervisor \<Rightarrow> multi_source_supervisor" where
  "mssup_refresh_state port heap sv =
     (if sv_state sv = Supervisor_binding \<or> sv_state sv = Supervisor_stopped then sv
      else if list_ex (\<lambda>i. sv_sessions sv ! i = None \<or> phase_at port heap sv i \<noteq> Session_stopped)
          [0..<source_count sv] then sv
      else sv\<lparr>sv_state := Supervisor_stopped\<rparr>)"

abbreviation "turn sv start offset \<equiv> (unat (start sv) + offset) mod source_count sv"

abbreviation "is_fault code \<equiv> code \<noteq> Ok \<and> code \<noteq> Pending"

text \<open>One completion, in turn: the first worker from the next index on that has one.\<close>

fun mssup_poll_one ::
    "'n session_port \<Rightarrow> (nat \<Rightarrow> 'n) \<Rightarrow> u64 \<Rightarrow> nat list \<Rightarrow>
       tensor_result \<times> multi_source_progress_report \<times> multi_source_supervisor \<Rightarrow>
       bool \<times> tensor_result \<times> multi_source_progress_report \<times> multi_source_supervisor" where
  "mssup_poll_one port heap now [] (result, report, sv) = (False, result, report, sv)"
| "mssup_poll_one port heap now (offset # offsets) (result, report, sv) =
     (let i = turn sv sv_next_result_index offset in
      if sv_sessions sv ! i = None then mssup_poll_one port heap now offsets (result, report, sv)
      else
        (case sswrk_poll_completion (sv_workers sv ! i) of
           (st, Some (step_status, candidate, progress), w) \<Rightarrow>
             (let sv1 = sv\<lparr>sv_workers := (sv_workers sv)[i := w]\<rparr>;
                  sv2 = (if is_fault step_status then mssup_record_fault (of_nat i) step_status now sv1 else sv1)
              in (True, if sp_has_result progress then candidate else result,
                  report\<lparr>vr_source_index := of_nat i, vr_source_status := step_status,
                         vr_source_health := health_at port heap sv i, vr_source_progress := progress,
                         vr_has_source := True, vr_has_result := sp_has_result progress\<rparr>,
                  sv2\<lparr>sv_next_result_index := of_nat ((i + 1) mod source_count sv)\<rparr>))
         | (st, None, w) \<Rightarrow> mssup_poll_one port heap now offsets (result, report, sv)))"

text \<open>One request, in turn: the first worker of a session that has not stopped and takes it.\<close>

fun mssup_request_one ::
    "'n session_port \<Rightarrow> (nat \<Rightarrow> 'n) \<Rightarrow> u64 \<Rightarrow> nat list \<Rightarrow>
       multi_source_progress_report \<times> multi_source_supervisor \<Rightarrow>
       bool \<times> multi_source_progress_report \<times> multi_source_supervisor" where
  "mssup_request_one port heap now [] (report, sv) = (False, report, sv)"
| "mssup_request_one port heap now (offset # offsets) (report, sv) =
     (let i = turn sv sv_next_source_index offset in
      if sv_sessions sv ! i = None \<or> phase_at port heap sv i = Session_stopped
      then mssup_request_one port heap now offsets (report, sv)
      else
        (let (st, w) = sswrk_request_step now (sv_workers sv ! i); sv1 = sv\<lparr>sv_workers := (sv_workers sv)[i := w]\<rparr>
         in if st = Ok
            then (True, report\<lparr>vr_source_index := of_nat i, vr_has_source := True\<rparr>,
                  sv1\<lparr>sv_next_source_index := of_nat ((i + 1) mod source_count sv)\<rparr>)
            else mssup_request_one port heap now offsets (report, sv1)))"

definition mssup_step_async ::
    "'n session_port \<Rightarrow> (nat \<Rightarrow> 'n) \<Rightarrow> u64 \<Rightarrow> tensor_result \<times> multi_source_progress_report \<times> multi_source_supervisor \<Rightarrow>
       status \<times> tensor_result \<times> multi_source_progress_report \<times> multi_source_supervisor" where
  "mssup_step_async port heap now = (\<lambda>(result, report, sv).
     (let offsets = [0..<source_count sv]; poll_first = sv_async_poll_turn sv;
          sv1 = sv\<lparr>sv_async_poll_turn := \<not> poll_first\<rparr>;
          answer = (\<lambda>r. if vr_has_result r then Ok else Pending)
      in if poll_first
         then
           (let (polled, result', report', sv2) = mssup_poll_one port heap now offsets (result, report, sv1) in
            if polled then (answer report', result', report', mssup_refresh_state port heap sv2)
            else (let (requested, report'', sv3) = mssup_request_one port heap now offsets (report', sv2)
                  in (Pending, result', report'', mssup_refresh_state port heap sv3)))
         else
           (let (requested, report', sv2) = mssup_request_one port heap now offsets (report, sv1) in
            if requested then (Pending, result, report', mssup_refresh_state port heap sv2)
            else
              (let (polled, result', report'', sv3) = mssup_poll_one port heap now offsets (result, report', sv2)
               in (if polled then answer report'' else Pending, result', report'', mssup_refresh_state port heap sv3)))))"

text \<open>The first source from the next index on that has not stopped.\<close>

definition mssup_select :: "'n session_port \<Rightarrow> (nat \<Rightarrow> 'n) \<Rightarrow> multi_source_supervisor \<Rightarrow> nat option" where
  "mssup_select port heap sv =
     map_option (turn sv sv_next_source_index)
       (List.find (\<lambda>offset. phase_at port heap sv (turn sv sv_next_source_index offset) \<noteq> Session_stopped)
          [0..<source_count sv])"

text \<open>One step of the selected source on the caller's thread. An exception of the session leaves the call.\<close>

definition mssup_step_source ::
    "'n session_port \<Rightarrow> nat \<Rightarrow> u64 \<Rightarrow> tensor_result \<times> multi_source_progress_report \<times> multi_source_supervisor \<times> (nat \<Rightarrow> 'n) \<Rightarrow>
       status option \<times> tensor_result \<times> multi_source_progress_report \<times> multi_source_supervisor \<times> (nat \<Rightarrow> 'n)" where
  "mssup_step_source port i now = (\<lambda>(result, report, sv, heap).
     (let a = the (sv_sessions sv ! i);
          sv1 = sv\<lparr>sv_next_source_index := of_nat ((i + 1) mod source_count sv)\<rparr>;
          (ending, result', progress, n') = sn_step port now result (heap a);
          heap' = heap(a := n')
      in case ending of
           Returned source_code \<Rightarrow>
             (let report' = \<lparr>vr_source_index = of_nat i, vr_source_status = source_code,
                    vr_source_health = sn_health port n', vr_source_progress = progress,
                    vr_has_source = True, vr_has_result = sp_has_result progress\<rparr>;
                  sv2 = (if is_fault source_code then mssup_record_fault (of_nat i) source_code now sv1 else sv1);
                  sv3 = mssup_refresh_state port heap' sv2;
                  st = (if sv_state sv3 = Supervisor_stopped then Ok
                        else if is_fault source_code then Pending
                        else if source_code = Ok \<and> sp_has_result progress then Ok else Pending)
              in (Some st, result', report', sv3, heap'))
         | _ \<Rightarrow> (None, result', report, sv1, heap')))"

definition mssup_step ::
    "'n session_port \<Rightarrow> u64 \<Rightarrow> tensor_result \<times> multi_source_supervisor \<times> (nat \<Rightarrow> 'n) \<Rightarrow>
       status option \<times> tensor_result \<times> multi_source_progress_report \<times> multi_source_supervisor \<times> (nat \<Rightarrow> 'n)" where
  "mssup_step port now = (\<lambda>(result, sv, heap).
     (let (time, sv1) = mssup_check_time now sv in
      if time \<noteq> Ok then (Some time, result, blank_report, sv1, heap)
      else if sv_state sv1 = Supervisor_binding then (Some Invalid_state, result, blank_report, sv1, heap)
      else if sv_state sv1 = Supervisor_stopped then (Some Ok, result, blank_report, sv1, heap)
      else if sv_async_mode sv1
        then (let (st, result', report', sv2) = mssup_step_async port heap now (result, blank_report, sv1)
              in (Some st, result', report', sv2, heap))
      else
        (case mssup_select port heap sv1 of
           None \<Rightarrow> (Some Ok, result, blank_report, sv1\<lparr>sv_state := Supervisor_stopped\<rparr>, heap)
         | Some i \<Rightarrow> mssup_step_source port i now (result, blank_report, sv1, heap))))"

section \<open>Stopping\<close>

fun mssup_stop_from ::
    "'n session_port \<Rightarrow> u64 \<Rightarrow> nat list \<Rightarrow> status \<Rightarrow> multi_source_supervisor \<times> (nat \<Rightarrow> 'n) \<Rightarrow>
       status option \<times> multi_source_supervisor \<times> (nat \<Rightarrow> 'n)" where
  "mssup_stop_from port now [] first_error (sv, heap) = (Some first_error, sv, heap)"
| "mssup_stop_from port now (i # is) first_error (sv, heap) =
     (if sv_async_mode sv
      then
        (let (stopped, w) = sswrk_request_stop now (sv_workers sv ! i)
         in mssup_stop_from port now is (if first_error = Ok then stopped else first_error)
              (sv\<lparr>sv_workers := (sv_workers sv)[i := w]\<rparr>, heap))
      else
        (let a = the (sv_sessions sv ! i); (ending, n') = sn_request_stop port now (heap a)
         in case ending of
              Returned stopped \<Rightarrow>
                mssup_stop_from port now is (if first_error = Ok then stopped else first_error) (sv, heap(a := n'))
            | _ \<Rightarrow> (None, sv, heap(a := n'))))"

definition mssup_request_stop ::
    "'n session_port \<Rightarrow> u64 \<Rightarrow> multi_source_supervisor \<times> (nat \<Rightarrow> 'n) \<Rightarrow>
       status option \<times> multi_source_supervisor \<times> (nat \<Rightarrow> 'n)" where
  "mssup_request_stop port now = (\<lambda>(sv, heap).
     (let (time, sv1) = mssup_check_time now sv in
      if time \<noteq> Ok then (Some time, sv1, heap)
      else if sv_state sv1 = Supervisor_binding then (Some Invalid_state, sv1, heap)
      else if sv_state sv1 = Supervisor_stopped then (Some Ok, sv1, heap)
      else
        (let (first_error, sv2, heap') = mssup_stop_from port now
               [0..<min (source_count sv1) (length (sv_sessions sv1))] Ok (sv1\<lparr>sv_state := Supervisor_stopping\<rparr>, heap)
         in if first_error = None then (None, sv2, heap')
            else (first_error, mssup_refresh_state port heap' sv2, heap'))))"

section \<open>Snapshot\<close>

definition mssup_count_source ::
    "'n session_port \<Rightarrow> (nat \<Rightarrow> 'n) \<Rightarrow> multi_source_supervisor \<Rightarrow> nat \<Rightarrow> multi_source_supervisor_snapshot \<Rightarrow>
       multi_source_supervisor_snapshot" where
  "mssup_count_source port heap sv i sn =
     (case sv_sessions sv ! i of
        None \<Rightarrow> sn
      | Some a \<Rightarrow>
          (let source = sn_health port (heap a);
               sn1 = (case sh_phase source of
                   Session_running \<Rightarrow> sn\<lparr>vn_running_sources := vn_running_sources sn + 1\<rparr>
                 | Session_draining \<Rightarrow> sn\<lparr>vn_stopping_sources := vn_stopping_sources sn + 1\<rparr>
                 | Session_stopped \<Rightarrow> sn\<lparr>vn_stopped_sources := vn_stopped_sources sn + 1\<rparr>
                 | _ \<Rightarrow> sn\<lparr>vn_starting_sources := vn_starting_sources sn + 1\<rparr>);
               sn2 = (if sh_is_recovery_required source
                      then sn1\<lparr>vn_recovery_sources := vn_recovery_sources sn1 + 1\<rparr> else sn1);
               code = sv_source_fault_codes sv ! i;
               sn3 = (if code \<noteq> Ok
                      then sn2\<lparr>vn_source_fault_codes := (vn_source_fault_codes sn2)[i := code],
                               vn_faulted_sources := vn_faulted_sources sn2 + 1\<rparr> else sn2)
           in if vn_first_error_code sn3 = Ok \<and> sh_first_error_code source \<noteq> Ok
              then sn3\<lparr>vn_first_error_code := sh_first_error_code source\<rparr> else sn3))"

definition mssup_get_snapshot ::
    "'n session_port \<Rightarrow> (nat \<Rightarrow> 'n) \<Rightarrow> multi_source_supervisor \<Rightarrow> multi_source_supervisor_snapshot" where
  "mssup_get_snapshot port heap sv =
     fold (mssup_count_source port heap sv) [0..<min (source_count sv) (length (sv_sessions sv))]
       \<lparr>vn_supervisor_state = sv_state sv, vn_deployment_revision = vc_deployment_revision (sv_config sv),
        vn_catalog_revision = vc_catalog_revision (sv_config sv), vn_declared_sources = vc_source_count (sv_config sv),
        vn_bound_sources = sv_bound_count sv, vn_starting_sources = 0, vn_running_sources = 0,
        vn_stopping_sources = 0, vn_stopped_sources = 0, vn_recovery_sources = 0, vn_faulted_sources = 0,
        vn_fault_event_total = sv_fault_event_total sv,
        vn_source_fault_codes = replicate dpl_max_sources Ok, vn_first_error_code = Ok\<rparr>"

section \<open>The fault channel is a bounded queue\<close>

definition fault_queue :: "multi_source_supervisor \<Rightarrow> multi_source_fault_event list" where
  "fault_queue sv = map (\<lambda>j. sv_fault_events sv ! ((unat (sv_fault_event_head sv) + j) mod 32))
     [0..<unat (sv_fault_event_count sv)]"

definition ring_ok :: "multi_source_supervisor \<Rightarrow> bool" where
  "ring_ok sv \<longleftrightarrow> length (sv_fault_events sv) = 32 \<and> unat (sv_fault_event_head sv) < 32 \<and>
     unat (sv_fault_event_count sv) \<le> 32"

lemma ring_slots_differ:
  assumes "(a :: nat) < b" "b - a < 32"
  shows "(h + a) mod 32 \<noteq> (h + b) mod 32"
proof
  assume "(h + a) mod 32 = (h + b) mod 32"
  then have "32 dvd (h + b) - (h + a)" using assms(1) by (metis add_le_cancel_left less_imp_le mod_eq_dvd_iff_nat)
  then show False using assms by (auto dest: dvd_imp_le)
qed

lemma ring_update_other:
  assumes "a < b" "b - a < 32"
  shows "ev[(h + b) mod 32 := e] ! ((h + a) mod 32) = ev ! ((h + a) mod 32)"
    and "ev[(h + a) mod 32 := e] ! ((h + b) mod 32) = ev ! ((h + b) mod 32)"
  using ring_slots_differ [OF assms, of h] by (simp_all add: nth_list_update_neq)

lemma ring_update_head:
  assumes "h < 32" "j < 31"
  shows "ev[h := e] ! (((h + 1) mod 32 + j) mod 32) = ev ! ((h + Suc j) mod 32)"
  using ring_update_other(2) [of 0 "Suc j" ev h e] assms by (simp add: mod_add_left_eq)

lemma unat_of_mod_32: "unat (of_nat (n mod 32) :: u16) = n mod 32"
proof -
  have "n mod 32 < 2 ^ 16" by (rule less_trans [of _ 32]) simp_all
  then show ?thesis by (simp add: unsigned_of_nat take_bit_nat_eq_self)
qed

lemma record_fault_queue:
  assumes "ring_ok sv" and e_def: "e = \<lparr>ve_source_index = index, ve_code = code, ve_at_ns = at_ns\<rparr>"
  shows "ring_ok (mssup_record_fault index code at_ns sv) \<and>
    fault_queue (mssup_record_fault index code at_ns sv) =
      (if length (fault_queue sv) < 32 then fault_queue sv @ [e] else tl (fault_queue sv) @ [e])"
proof -
  define h where "h = unat (sv_fault_event_head sv)"
  define n where "n = unat (sv_fault_event_count sv)"
  define ev where "ev = sv_fault_events sv"
  have ring: "length ev = 32" "h < 32" "n \<le> 32" using assms(1) by (simp_all add: ring_ok_def h_def n_def ev_def)
  have queue: "fault_queue sv = map (\<lambda>j. ev ! ((h + j) mod 32)) [0..<n]"
    by (simp add: fault_queue_def h_def n_def ev_def)
  show ?thesis
  proof (cases "n < 32")
    case True
    define sv' where "sv' = mssup_record_fault index code at_ns sv"
    have "sv_fault_event_count sv \<noteq> - 1" using True by (auto simp: n_def unat_max)
    then have "unat (sv_fault_event_count sv + 1) = Suc n" by (simp add: unat_Suc_exact n_def)
    then have sv': "sv_fault_events sv' = ev[(h + n) mod 32 := e]" "unat (sv_fault_event_count sv') = Suc n"
        "unat (sv_fault_event_head sv') = h"
      using True by (simp_all add: sv'_def mssup_record_fault_def Let_def g_max_supervisor_fault_events_def
          e_def h_def n_def ev_def)
    have "map (\<lambda>j. ev[(h + n) mod 32 := e] ! ((h + j) mod 32)) [0..<n] = map (\<lambda>j. ev ! ((h + j) mod 32)) [0..<n]"
      using True by (intro map_cong refl ring_update_other(1)) simp_all
    moreover have "fault_queue sv' = map (\<lambda>j. ev[(h + n) mod 32 := e] ! ((h + j) mod 32)) [0..<n] @ [e]"
      using ring(1) by (simp add: fault_queue_def sv')
    ultimately have "fault_queue sv' = fault_queue sv @ [e]" by (simp only: queue)
    then show ?thesis using ring True sv' queue
      by (simp add: sv'_def [symmetric] ring_ok_def)
  next
    case False
    then have n: "n = 32" using ring by simp
    define sv' where "sv' = mssup_record_fault index code at_ns sv"
    have sv': "sv_fault_events sv' = ev[h := e]" "unat (sv_fault_event_count sv') = 32"
        "unat (sv_fault_event_head sv') = (h + 1) mod 32"
      using n by (simp_all add: sv'_def mssup_record_fault_def Let_def g_max_supervisor_fault_events_def
          e_def h_def n_def ev_def unat_of_mod_32 [of "Suc _", simplified])
    have "[0..<32] = [0..<31] @ [31 :: nat]" by (simp add: upt_rec)
    then have "fault_queue sv' = map (\<lambda>j. ev[h := e] ! (((h + 1) mod 32 + j) mod 32)) [0..<31] @ [ev[h := e] ! (((h + 1) mod 32 + 31) mod 32)]"
      by (simp add: fault_queue_def sv')
    moreover have "((h + 1) mod 32 + 31) mod 32 = h" using ring(2) by (simp add: mod_add_left_eq)
    moreover have "map (\<lambda>j. ev[h := e] ! (((h + 1) mod 32 + j) mod 32)) [0..<31] =
        map (\<lambda>j. ev ! ((h + Suc j) mod 32)) [0..<31]"
      using ring(2) by (intro map_cong refl ring_update_head) simp_all
    moreover have "tl (fault_queue sv) = map (\<lambda>j. ev ! ((h + Suc j) mod 32)) [0..<31]"
    proof -
      have "[0..<32] = 0 # map Suc [0..<31]" by (simp add: map_Suc_upt upt_rec)
      then show ?thesis by (simp add: queue n comp_def)
    qed
    ultimately have "fault_queue sv' = tl (fault_queue sv) @ [e]" using ring by simp
    then show ?thesis using ring n sv' queue
      by (simp add: sv'_def [symmetric] ring_ok_def)
  qed
qed

lemma take_fault_queue:
  assumes "ring_ok sv"
  shows "case fault_queue sv of
      [] \<Rightarrow> mssup_take_fault out sv = (Pending, out, sv)
    | e # rest \<Rightarrow> (case mssup_take_fault out sv of (st, e', sv') \<Rightarrow>
        st = Ok \<and> e' = e \<and> ring_ok sv' \<and> fault_queue sv' = rest)"
proof -
  define h where "h = unat (sv_fault_event_head sv)"
  define n where "n = unat (sv_fault_event_count sv)"
  define ev where "ev = sv_fault_events sv"
  have ring: "length ev = 32" "h < 32" "n \<le> 32" using assms(1) by (simp_all add: ring_ok_def h_def n_def ev_def)
  have queue: "fault_queue sv = map (\<lambda>j. ev ! ((h + j) mod 32)) [0..<n]"
    by (simp add: fault_queue_def h_def n_def ev_def)
  show ?thesis
  proof (cases n)
    case 0
    then show ?thesis by (simp add: queue mssup_take_fault_def n_def unat_eq_zero)
  next
    case (Suc m)
    define sv' where "sv' = sv\<lparr>sv_fault_events := ev[h := blank_fault_event],
      sv_fault_event_head := of_nat ((h + 1) mod 32), sv_fault_event_count := sv_fault_event_count sv - 1\<rparr>"
    have "sv_fault_event_count sv \<noteq> 0" using Suc by (auto simp: n_def)
    then have count: "unat (sv_fault_event_count sv - 1) = m"
      using Suc by (simp add: n_def unat_minus_one)
    have take: "mssup_take_fault out sv = (Ok, ev ! h, sv')"
      using \<open>sv_fault_event_count sv \<noteq> 0\<close>
      by (simp add: mssup_take_fault_def Let_def sv'_def h_def ev_def g_max_supervisor_fault_events_def)
    have "sv_fault_event_head sv' = of_nat ((h + 1) mod 32)" by (simp add: sv'_def)
    then have head: "unat (sv_fault_event_head sv') = (h + 1) mod 32" by (simp only: unat_of_mod_32)
    have "sv_fault_events sv' = ev[h := blank_fault_event]" "unat (sv_fault_event_count sv') = m"
      by (simp_all add: sv'_def count)
    note sv' = this head
    have "fault_queue sv' = map (\<lambda>j. ev[h := blank_fault_event] ! (((h + 1) mod 32 + j) mod 32)) [0..<m]"
      unfolding fault_queue_def sv' ..
    also have "\<dots> = map (\<lambda>j. ev ! ((h + Suc j) mod 32)) [0..<m]"
      using ring Suc by (intro map_cong refl ring_update_head) simp_all
    finally have rest: "fault_queue sv' = map (\<lambda>j. ev ! ((h + Suc j) mod 32)) [0..<m]" .
    have "[0..<n] = 0 # map Suc [0..<m]" using upt_conv_Cons [of 0 "Suc m"] by (simp only: Suc map_Suc_upt zero_less_Suc)
    then have "fault_queue sv = ev ! h # map (\<lambda>j. ev ! ((h + Suc j) mod 32)) [0..<m]"
      using ring(2) by (simp add: queue comp_def)
    moreover have "ring_ok sv'" using ring Suc unfolding ring_ok_def sv' by simp
    ultimately show ?thesis using rest by (simp add: take)
  qed
qed


section \<open>Reachable supervisors\<close>

text \<open>
  The caller's operations one after the other; in between the worker threads, and whoever else owns the
  sessions, may change the workers and the session objects in any way.
\<close>

inductive mssup_call ::
    "'n session_port \<Rightarrow> multi_source_supervisor \<times> (nat \<Rightarrow> 'n) \<Rightarrow> multi_source_supervisor \<times> (nat \<Rightarrow> 'n) \<Rightarrow> bool"
  for port where
  bind: "mssup_bind_session port heap index session sv = (st, sv') \<Longrightarrow> mssup_call port (sv, heap) (sv', heap)"
| activate: "mssup_activate port launched (sv, heap) = (st, sv', heap') \<Longrightarrow> mssup_call port (sv, heap) (sv', heap')"
| step: "mssup_step port now (result, sv, heap) = (st, result', report, sv', heap') \<Longrightarrow>
    mssup_call port (sv, heap) (sv', heap')"
| stop: "mssup_request_stop port now (sv, heap) = (stopped, sv', heap') \<Longrightarrow> mssup_call port (sv, heap) (sv', heap')"
| take_fault: "mssup_take_fault out sv = (st, e, sv') \<Longrightarrow> mssup_call port (sv, heap) (sv', heap)"
| drain: "mssup_drain port (sv, heap) = (st, sv', heap') \<Longrightarrow> mssup_call port (sv, heap) (sv', heap')"
| others: "length ws = length (sv_workers sv) \<Longrightarrow> mssup_call port (sv, heap) (sv\<lparr>sv_workers := ws\<rparr>, heap')"

definition mssup_reachable :: "'n session_port \<Rightarrow> multi_source_supervisor \<times> (nat \<Rightarrow> 'n) \<Rightarrow> bool" where
  "mssup_reachable port s \<longleftrightarrow> (\<exists>c heap. (mssup_call port)\<^sup>*\<^sup>* (mssup_initial c, heap) s)"

definition sessions_distinct :: "nat \<Rightarrow> nat option list \<Rightarrow> bool" where
  "sessions_distinct n ss \<longleftrightarrow> (\<forall>i < min n (length ss). \<forall>j < min n (length ss). ss ! i \<noteq> None \<and> ss ! i = ss ! j \<longrightarrow> i = j)"

definition sessions_bound :: "nat \<Rightarrow> nat option list \<Rightarrow> bool" where
  "sessions_bound n ss \<longleftrightarrow> 0 < n \<and> n \<le> 16 \<and> (\<forall>i < n. ss ! i \<noteq> None)"

definition bindings_ok :: "multi_source_supervisor \<Rightarrow> bool" where
  "bindings_ok sv \<longleftrightarrow>
     length (sv_sessions sv) = 16 \<and> length (sv_workers sv) = 16 \<and> length (sv_source_fault_codes sv) = 16 \<and>
     sessions_distinct (source_count sv) (sv_sessions sv) \<and>
     (sv_state sv \<noteq> Supervisor_binding \<longrightarrow> sessions_bound (source_count sv) (sv_sessions sv))"

definition mssup_inv :: "multi_source_supervisor \<Rightarrow> bool" where
  "mssup_inv sv \<longleftrightarrow> bindings_ok sv \<and> ring_ok sv"

lemma ring_ok_frame [simp]:
  "ring_ok (sv\<lparr>sv_workers := ws\<rparr>) = ring_ok sv" "ring_ok (sv\<lparr>sv_sessions := ss\<rparr>) = ring_ok sv"
  "ring_ok (sv\<lparr>sv_state := s\<rparr>) = ring_ok sv" "ring_ok (sv\<lparr>sv_bound_count := b\<rparr>) = ring_ok sv"
  "ring_ok (sv\<lparr>sv_next_source_index := m\<rparr>) = ring_ok sv" "ring_ok (sv\<lparr>sv_next_result_index := m\<rparr>) = ring_ok sv"
  "ring_ok (sv\<lparr>sv_async_mode := t\<rparr>) = ring_ok sv" "ring_ok (sv\<lparr>sv_async_poll_turn := t\<rparr>) = ring_ok sv"
  "ring_ok (sv\<lparr>sv_last_now_ns := now\<rparr>) = ring_ok sv"
  by (simp_all add: ring_ok_def)

lemma fault_queue_frame [simp]:
  "fault_queue (sv\<lparr>sv_workers := ws\<rparr>) = fault_queue sv"
  "fault_queue (sv\<lparr>sv_state := s\<rparr>) = fault_queue sv"
  "fault_queue (sv\<lparr>sv_next_source_index := m\<rparr>) = fault_queue sv"
  "fault_queue (sv\<lparr>sv_next_result_index := m\<rparr>) = fault_queue sv"
  "fault_queue (sv\<lparr>sv_async_mode := t\<rparr>) = fault_queue sv"
  "fault_queue (sv\<lparr>sv_async_poll_turn := t\<rparr>) = fault_queue sv"
  "fault_queue (sv\<lparr>sv_last_now_ns := now\<rparr>) = fault_queue sv"
  by (simp_all add: fault_queue_def)

lemma bindings_ok_frame [simp]:
  "bindings_ok (sv\<lparr>sv_next_source_index := m\<rparr>) = bindings_ok sv"
  "bindings_ok (sv\<lparr>sv_next_result_index := m\<rparr>) = bindings_ok sv"
  "bindings_ok (sv\<lparr>sv_async_mode := t\<rparr>) = bindings_ok sv" "bindings_ok (sv\<lparr>sv_async_poll_turn := t\<rparr>) = bindings_ok sv"
  "bindings_ok (sv\<lparr>sv_last_now_ns := now\<rparr>) = bindings_ok sv"
  "bindings_ok (sv\<lparr>sv_workers := ws\<rparr>) \<longleftrightarrow> bindings_ok sv" if "length ws = length (sv_workers sv)"
  using that by (simp_all add: bindings_ok_def)

lemma record_fault_fields [simp]:
  "sv_sessions (mssup_record_fault i code now sv) = sv_sessions sv"
  "sv_workers (mssup_record_fault i code now sv) = sv_workers sv"
  "sv_state (mssup_record_fault i code now sv) = sv_state sv"
  "sv_config (mssup_record_fault i code now sv) = sv_config sv"
  "sv_async_mode (mssup_record_fault i code now sv) = sv_async_mode sv"
  "sv_async_poll_turn (mssup_record_fault i code now sv) = sv_async_poll_turn sv"
  "sv_next_source_index (mssup_record_fault i code now sv) = sv_next_source_index sv"
  "sv_next_result_index (mssup_record_fault i code now sv) = sv_next_result_index sv"
  "sv_last_now_ns (mssup_record_fault i code now sv) = sv_last_now_ns sv"
  "sv_source_fault_codes (mssup_record_fault i code now sv) =
     (if unat i < 16 then (sv_source_fault_codes sv)[unat i := code] else sv_source_fault_codes sv)"
  by (simp_all add: mssup_record_fault_def Let_def dpl_max_sources_def)

lemma record_fault_inv: "mssup_inv sv \<Longrightarrow> mssup_inv (mssup_record_fault i code now sv)"
  using record_fault_queue [of sv] by (simp add: mssup_inv_def bindings_ok_def)

lemma take_fault_inv: "mssup_inv sv \<Longrightarrow> mssup_take_fault out sv = (st, e, sv') \<Longrightarrow> mssup_inv sv'"
  using take_fault_queue [of sv out]
  by (cases "fault_queue sv")
    (auto simp: mssup_inv_def bindings_ok_def mssup_take_fault_def Let_def split: if_splits)


lemma mssup_inv_frame [simp]:
  "mssup_inv (sv\<lparr>sv_next_source_index := m\<rparr>) = mssup_inv sv"
  "mssup_inv (sv\<lparr>sv_next_result_index := m\<rparr>) = mssup_inv sv"
  "mssup_inv (sv\<lparr>sv_async_mode := t\<rparr>) = mssup_inv sv" "mssup_inv (sv\<lparr>sv_async_poll_turn := t\<rparr>) = mssup_inv sv"
  "mssup_inv (sv\<lparr>sv_last_now_ns := now\<rparr>) = mssup_inv sv"
  "mssup_inv (sv\<lparr>sv_workers := (sv_workers sv)[i := w]\<rparr>) = mssup_inv sv"
  by (simp_all add: mssup_inv_def)

lemma mssup_inv_workers: "length ws = length (sv_workers sv) \<Longrightarrow> mssup_inv (sv\<lparr>sv_workers := ws\<rparr>) = mssup_inv sv"
  by (simp add: mssup_inv_def)

lemma mssup_inv_state:
  "mssup_inv sv \<Longrightarrow> sv_state sv \<noteq> Supervisor_binding \<or> s = Supervisor_binding \<Longrightarrow> mssup_inv (sv\<lparr>sv_state := s\<rparr>)"
  by (auto simp: mssup_inv_def bindings_ok_def)

lemma mssup_inv_initial: "mssup_inv (mssup_initial c)"
  by (simp add: mssup_inv_def bindings_ok_def ring_ok_def mssup_initial_def dpl_max_sources_def
      g_max_supervisor_fault_events_def sessions_distinct_def)

lemma sessions_distinct_bind:
  assumes "sessions_distinct n ss" "\<not> list_ex (\<lambda>i. ss ! i = Some a) [0..<n]" "i < n" "n \<le> length ss"
  shows "sessions_distinct n (ss[i := Some a])"
  using assms by (auto simp: sessions_distinct_def list_ex_iff nth_list_update)

lemma bind_session_inv:
  assumes "mssup_inv sv" "mssup_bind_session port heap index session sv = (st, sv')"
  shows "mssup_inv sv'"
proof (cases "st = Ok")
  case True
  then have "sv' = sv\<lparr>sv_sessions := (sv_sessions sv)[unat index := Some session],
      sv_bound_count := sv_bound_count sv + 1\<rparr>" "sv_state sv = Supervisor_binding"
    "unat index < source_count sv" "source_count sv \<le> 16"
    "\<not> list_ex (\<lambda>i. sv_sessions sv ! i = Some session) [0..<source_count sv]"
    using assms(2) by (auto simp: mssup_bind_session_def dpl_max_sources_def split: if_splits)
  then show ?thesis
    using assms(1) sessions_distinct_bind by (simp add: mssup_inv_def bindings_ok_def)
next
  case False
  then show ?thesis using assms by (auto simp: mssup_bind_session_def split: if_splits)
qed

lemma drain_workers_length:
  "drain_workers port is (ws, heap) = (ws', heap') \<Longrightarrow> length ws' = length ws"
  by (induction "is" arbitrary: ws heap) (force split: prod.splits)+

lemma start_workers_length:
  "mssup_start_workers port launched ss is (ws, heap) = (st, ws', heap') \<Longrightarrow> length ws' = length ws"
proof (induction "is" arbitrary: ws heap)
  case (Cons i "is")
  then show ?case
    using drain_workers_length by (fastforce simp: Let_def split: option.splits prod.splits if_splits)
qed simp

lemma activate_inv:
  assumes "mssup_inv sv" "mssup_activate port launched (sv, heap) = (st, sv', heap')"
  shows "mssup_inv sv'"
proof -
  let ?go = "sv\<lparr>sv_next_source_index := 0, sv_next_result_index := 0, sv_state := Supervisor_running\<rparr>"
  define r where "r = mssup_start_workers port launched (sv_sessions sv) [0..<source_count sv] (sv_workers sv, heap)"
  obtain started ws heap1 where r: "r = (started, ws, heap1)" by (cases r)
  have len: "length ws = length (sv_workers sv)" using start_workers_length r unfolding r_def by blast
  consider "sv' = sv" | "sv' = sv\<lparr>sv_workers := ws\<rparr>"
    | "sessions_bound (source_count sv) (sv_sessions sv)" "sv' = ?go \<or> sv' = ?go\<lparr>sv_workers := ws, sv_async_mode := True\<rparr>"
    using assms(2) unfolding mssup_activate_def
    by (auto simp: Let_def r_def [symmetric] r sessions_bound_def list_ex_iff dpl_max_sources_def split: if_splits)
  then show ?thesis
  proof cases
    case 3
    then have "mssup_inv ?go" using assms(1) by (simp add: mssup_inv_def bindings_ok_def)
    with 3(2) len show ?thesis by (auto simp: mssup_inv_workers)
  qed (use assms(1) len in \<open>simp_all add: mssup_inv_workers\<close>)
qed

lemma refresh_inv: "mssup_inv sv \<Longrightarrow> mssup_inv (mssup_refresh_state port heap sv)"
  by (auto simp: mssup_refresh_state_def intro!: mssup_inv_state)

lemma refresh_fields [simp]:
  "sv_sessions (mssup_refresh_state port heap sv) = sv_sessions sv"
  "sv_workers (mssup_refresh_state port heap sv) = sv_workers sv"
  "sv_config (mssup_refresh_state port heap sv) = sv_config sv"
  "sv_async_mode (mssup_refresh_state port heap sv) = sv_async_mode sv"
  "sv_async_poll_turn (mssup_refresh_state port heap sv) = sv_async_poll_turn sv"
  "sv_next_source_index (mssup_refresh_state port heap sv) = sv_next_source_index sv"
  "sv_next_result_index (mssup_refresh_state port heap sv) = sv_next_result_index sv"
  "sv_last_now_ns (mssup_refresh_state port heap sv) = sv_last_now_ns sv"
  "sv_source_fault_codes (mssup_refresh_state port heap sv) = sv_source_fault_codes sv"
  "fault_queue (mssup_refresh_state port heap sv) = fault_queue sv"
  by (simp_all add: mssup_refresh_state_def)


section \<open>What a step does to the fault channel\<close>

text \<open>A fault report leaves the channel as one more event; anything else leaves it alone.\<close>

definition push_fault :: "multi_source_fault_event \<Rightarrow> multi_source_fault_event list \<Rightarrow> multi_source_fault_event list" where
  "push_fault e q = (if length q < 32 then q @ [e] else tl q @ [e])"

definition faults_follow ::
    "u64 \<Rightarrow> multi_source_progress_report \<Rightarrow> multi_source_supervisor \<Rightarrow> multi_source_supervisor \<Rightarrow> bool" where
  "faults_follow now report sv sv' \<longleftrightarrow>
     (let i = unat (vr_source_index report); code = vr_source_status report in
      if is_fault code
      then i < source_count sv \<and> sv_source_fault_codes sv' = (sv_source_fault_codes sv)[i := code] \<and>
           fault_queue sv' = push_fault \<lparr>ve_source_index = of_nat i, ve_code = code, ve_at_ns = now\<rparr> (fault_queue sv)
      else sv_source_fault_codes sv' = sv_source_fault_codes sv \<and> fault_queue sv' = fault_queue sv)"

text \<open>A change of the rest of the supervisor.\<close>

definition same_faults :: "multi_source_supervisor \<Rightarrow> multi_source_supervisor \<Rightarrow> bool" where
  "same_faults sv sv' \<longleftrightarrow> fault_queue sv' = fault_queue sv \<and> sv_source_fault_codes sv' = sv_source_fault_codes sv \<and>
     sv_config sv' = sv_config sv \<and> sv_state sv' = sv_state sv \<and> sv_sessions sv' = sv_sessions sv"

lemma unat_of_index: "i < n \<Longrightarrow> n \<le> 16 \<Longrightarrow> unat (of_nat i :: u16) = i"
  by (simp add: unsigned_of_nat take_bit_nat_eq_self)

lemma turn_less: "mssup_inv sv \<Longrightarrow> sv_state sv \<noteq> Supervisor_binding \<Longrightarrow> turn sv start offset < source_count sv"
  by (simp add: mssup_inv_def bindings_ok_def sessions_bound_def)

lemma running_counts:
  assumes "mssup_inv sv" "sv_state sv \<noteq> Supervisor_binding"
  shows "0 < source_count sv" "source_count sv \<le> 16"
  using assms by (simp_all add: mssup_inv_def bindings_ok_def sessions_bound_def)

lemma bound_at:
  assumes "mssup_inv sv" "sv_state sv \<noteq> Supervisor_binding" "i < source_count sv"
  obtains a where "sv_sessions sv ! i = Some a"
  using assms by (auto simp: mssup_inv_def bindings_ok_def sessions_bound_def)

lemma activated_bound:
  assumes "mssup_inv sv" "sv_state sv \<noteq> Supervisor_binding"
  shows "sv_sessions sv ! turn sv start offset \<noteq> None"
  using bound_at [OF assms turn_less [OF assms]] by (metis option.distinct(1))

lemma request_one_keeps:
  assumes "mssup_request_one port heap now offsets (report, sv) = (requested, report', sv')" "mssup_inv sv"
  shows "mssup_inv sv' \<and> same_faults sv sv' \<and> vr_source_status report' = vr_source_status report \<and>
    vr_has_result report' = vr_has_result report"
  using assms
proof (induction offsets arbitrary: report sv)
  case (Cons offset offsets)
  show ?case
  proof (cases "sv_sessions sv ! turn sv sv_next_source_index offset = None \<or>
      phase_at port heap sv (turn sv sv_next_source_index offset) = Session_stopped")
    case True
    then show ?thesis using Cons by (simp add: Let_def)
  next
    case False
    obtain st w where w: "sswrk_request_step now (sv_workers sv ! turn sv sv_next_source_index offset) = (st, w)"
      by fastforce
    define sv1 where "sv1 = sv\<lparr>sv_workers := (sv_workers sv)[turn sv sv_next_source_index offset := w]\<rparr>"
    have sv1: "mssup_inv sv1" "same_faults sv sv1" using Cons.prems(2) by (simp_all add: sv1_def same_faults_def)
    show ?thesis
    proof (cases "st = Ok")
      case True
      then have "sv' = sv1\<lparr>sv_next_source_index := of_nat ((turn sv sv_next_source_index offset + 1) mod source_count sv)\<rparr>"
          "report' = report\<lparr>vr_source_index := of_nat (turn sv sv_next_source_index offset), vr_has_source := True\<rparr>"
        using Cons.prems(1) False w by (auto simp: Let_def sv1_def)
      then show ?thesis using sv1 by (simp add: same_faults_def)
    next
      case st: False
      then have "mssup_request_one port heap now offsets (report, sv1) = (requested, report', sv')"
        using Cons.prems(1) False w by (auto simp: Let_def sv1_def)
      from Cons.IH [OF this sv1(1)] show ?thesis using sv1(2) by (auto simp: same_faults_def)
    qed
  qed
qed (simp add: same_faults_def)

lemma record_fault_push:
  assumes "mssup_inv sv"
  shows "fault_queue (mssup_record_fault i code now sv) =
    push_fault \<lparr>ve_source_index = i, ve_code = code, ve_at_ns = now\<rparr> (fault_queue sv)"
  using assms record_fault_queue [of sv] by (simp add: mssup_inv_def push_fault_def)

lemma reported_fault_follows:
  assumes "mssup_inv sv" "i < source_count sv" "source_count sv \<le> 16"
    and "sv' = (if is_fault code then mssup_record_fault (of_nat i) code now sv else sv)"
    and "vr_source_index report = of_nat i" "vr_source_status report = code"
  shows "mssup_inv sv' \<and> faults_follow now report sv sv'"
  using assms unat_of_index [OF assms(2,3)]
  by (auto simp: faults_follow_def Let_def record_fault_inv record_fault_push)

lemma poll_one_keeps:
  assumes "mssup_poll_one port heap now offsets (result, report, sv) = (polled, result', report', sv')"
    and "mssup_inv sv" "sv_state sv \<noteq> Supervisor_binding" "vr_source_status report = Ok"
  shows "mssup_inv sv' \<and> faults_follow now report' sv sv' \<and> sv_state sv' = sv_state sv"
  using assms(1)
proof (induction offsets)
  case Nil
  then show ?case using assms(2-4) by (auto simp: faults_follow_def)
next
  case (Cons offset offsets)
  define i where "i = turn sv sv_next_result_index offset"
  have i: "i < source_count sv" "source_count sv \<le> 16" "sv_sessions sv ! i \<noteq> None"
    using turn_less running_counts activated_bound assms(2,3) unfolding i_def by auto
  obtain st c w where poll: "sswrk_poll_completion (sv_workers sv ! i) = (st, c, w)" by (metis prod_cases3)
  show ?case
  proof (cases c)
    case None
    then show ?thesis using Cons poll i(3) by (simp add: Let_def i_def del: not_None_eq)
  next
    case (Some outcome)
    obtain code candidate progress where answer: "outcome = (code, candidate, progress)" by (metis prod_cases3)
    define sv1 where "sv1 = sv\<lparr>sv_workers := (sv_workers sv)[i := w]\<rparr>"
    define sv2 where "sv2 = (if is_fault code then mssup_record_fault (of_nat i) code now sv1 else sv1)"
    have sv': "sv' = sv2\<lparr>sv_next_result_index := of_nat ((i + 1) mod source_count sv)\<rparr>"
      and report': "vr_source_index report' = of_nat i" "vr_source_status report' = code"
      using Cons.prems poll i(3) by (auto simp: Let_def i_def [symmetric] Some answer sv2_def sv1_def)
    have "mssup_inv sv2 \<and> faults_follow now report' sv1 sv2"
      using i assms(2) by (intro reported_fault_follows [of sv1 i]) (simp_all add: sv1_def sv2_def report')
    then show ?thesis by (auto simp: sv' faults_follow_def Let_def sv1_def sv2_def)
  qed
qed


lemma poll_one_none:
  assumes "mssup_poll_one port heap now offsets (result, report, sv) = (False, result', report', sv')"
  shows "result' = result \<and> report' = report \<and> sv' = sv"
  using assms
proof (induction offsets)
  case (Cons offset offsets)
  then show ?case by (auto simp: Let_def split: if_splits prod.splits option.splits)
qed simp

lemma faults_follow_same: "same_faults sv sv1 \<Longrightarrow> faults_follow now report sv1 sv' = faults_follow now report sv sv'"
  by (simp add: same_faults_def faults_follow_def)

lemma faults_follow_refresh [simp]:
  "faults_follow now report sv (mssup_refresh_state port heap sv') = faults_follow now report sv sv'"
  by (simp add: faults_follow_def)

lemma no_fault_follows: "same_faults sv sv' \<Longrightarrow> \<not> is_fault (vr_source_status report) \<Longrightarrow> faults_follow now report sv sv'"
  by (auto simp: same_faults_def faults_follow_def Let_def)

lemma step_async_keeps:
  assumes "mssup_step_async port heap now (result, blank_report, sv) = (st, result', report', sv')"
    and "mssup_inv sv" "sv_state sv \<noteq> Supervisor_binding"
  shows "mssup_inv sv' \<and> faults_follow now report' sv sv' \<and> st \<in> {Ok, Pending}"
proof -
  define sv1 where "sv1 = sv\<lparr>sv_async_poll_turn := \<not> sv_async_poll_turn sv\<rparr>"
  have sv1: "mssup_inv sv1" "same_faults sv sv1" "sv_state sv1 \<noteq> Supervisor_binding"
    using assms(2,3) by (simp_all add: sv1_def same_faults_def)
  note step = assms(1) [unfolded mssup_step_async_def Let_def prod.case, folded sv1_def]
  have blank: "vr_source_status blank_report = Ok" by (simp add: blank_report_def)
  show ?thesis
  proof (cases "sv_async_poll_turn sv")
    case True
    obtain polled r1 report1 sv2 where
      poll: "mssup_poll_one port heap now [0..<source_count sv] (result, blank_report, sv1) = (polled, r1, report1, sv2)"
      by (metis prod_cases4)
    note kept = poll_one_keeps [OF poll sv1(1,3) blank]
    show ?thesis
    proof (cases polled)
      case polled: True
      then show ?thesis using step True poll kept refresh_inv faults_follow_same [OF sv1(2)]
        by (auto split: if_splits)
    next
      case False
      then have same: "report1 = blank_report" "sv2 = sv1" using poll_one_none [of port heap now _ result blank_report sv1] poll by auto
      obtain requested report2 sv3 where
        request: "mssup_request_one port heap now [0..<source_count sv] (blank_report, sv1) = (requested, report2, sv3)"
        by (metis prod_cases3)
      note asked = request_one_keeps [OF request sv1(1)]
      have "faults_follow now report2 sv sv3"
        using asked blank sv1(2) by (intro no_fault_follows) (auto simp: same_faults_def)
      then show ?thesis using step True False poll request asked refresh_inv same
        by (auto split: if_splits)
    qed
  next
    case False
    obtain requested report1 sv2 where
      request: "mssup_request_one port heap now [0..<source_count sv] (blank_report, sv1) = (requested, report1, sv2)"
      by (metis prod_cases3)
    note asked = request_one_keeps [OF request sv1(1)]
    have same: "same_faults sv sv2" using asked sv1(2) by (auto simp: same_faults_def)
    show ?thesis
    proof (cases requested)
      case True
      have "faults_follow now report1 sv sv2" using same asked blank by (intro no_fault_follows) auto
      then show ?thesis using step False True request asked refresh_inv
        by (auto split: if_splits)
    next
      case none: False
      obtain polled r1 report2 sv3 where
        poll: "mssup_poll_one port heap now [0..<source_count sv] (result, report1, sv2) = (polled, r1, report2, sv3)"
        by (metis prod_cases4)
      have "mssup_inv sv3 \<and> faults_follow now report2 sv2 sv3 \<and> sv_state sv3 = sv_state sv2"
        using asked sv1(3) same blank assms(3) by (intro poll_one_keeps [OF poll]) (auto simp: same_faults_def)
      then show ?thesis using step False none request poll refresh_inv faults_follow_same [OF same]
        by (auto split: if_splits)
    qed
  qed
qed

lemma step_source_keeps:
  assumes "mssup_step_source port i now (result, report, sv, heap) = (ended, result', report', sv', heap')"
    and "mssup_inv sv" "sv_state sv \<noteq> Supervisor_binding" "i < source_count sv" "sv_sessions sv ! i = Some a"
  shows "mssup_inv sv' \<and> (\<forall>b. heap' b \<noteq> heap b \<longrightarrow> b = a) \<and>
    (\<forall>st. ended = Some st \<longrightarrow> st \<in> {Ok, Pending} \<and> vr_has_source report' \<and> vr_source_index report' = of_nat i \<and>
       faults_follow now report' sv sv')"
proof -
  obtain ending r1 progress n' where call: "sn_step port now result (heap a) = (ending, r1, progress, n')"
    by (metis prod_cases4)
  define sv1 where "sv1 = sv\<lparr>sv_next_source_index := of_nat ((i + 1) mod source_count sv)\<rparr>"
  have sv1: "mssup_inv sv1" "same_faults sv sv1" "source_count sv1 = source_count sv" using assms(2) by (simp_all add: sv1_def same_faults_def)
  show ?thesis
  proof (cases ending)
    case (Returned code)
    define sv2 where "sv2 = (if is_fault code then mssup_record_fault (of_nat i) code now sv1 else sv1)"
    have report': "vr_has_source report'" "vr_source_index report' = of_nat i" "vr_source_status report' = code"
      and sv': "sv' = mssup_refresh_state port heap' sv2" and heap': "heap' = heap(a := n')"
      and st: "\<exists>st \<in> {Ok, Pending}. ended = Some st"
      using assms(1,5) call Returned by (auto simp: mssup_step_source_def Let_def sv1_def sv2_def split: if_splits)
    have "mssup_inv sv2 \<and> faults_follow now report' sv1 sv2"
      using sv1 assms(4) running_counts [OF assms(2,3)]
      by (intro reported_fault_follows [of sv1 i _ code]) (simp_all add: sv2_def report')
    then show ?thesis using st report' faults_follow_same [OF sv1(2)] by (auto simp: sv' heap' refresh_inv)
  qed (use assms(1,2,5) call in \<open>auto simp: mssup_step_source_def Let_def split: if_splits\<close>)
qed

lemma check_time_frame:
  assumes "mssup_check_time now sv = (time, sv1)"
  shows "same_faults sv sv1 \<and> mssup_inv sv1 = mssup_inv sv \<and> sv_async_mode sv1 = sv_async_mode sv \<and>
    sv_next_source_index sv1 = sv_next_source_index sv \<and> sv_workers sv1 = sv_workers sv \<and>
    sv_next_result_index sv1 = sv_next_result_index sv \<and> sv_async_poll_turn sv1 = sv_async_poll_turn sv"
  using assms by (auto simp: mssup_check_time_def same_faults_def split: if_splits)


text \<open>The source whose object a step may change.\<close>

definition stepped_source :: "multi_source_progress_report \<Rightarrow> multi_source_supervisor \<Rightarrow> nat option" where
  "stepped_source report sv = (if vr_has_source report then sv_sessions sv ! unat (vr_source_index report) else None)"

lemma select_Some:
  assumes "mssup_select port heap sv = Some i"
  obtains offset where "i = turn sv sv_next_source_index offset" "offset < source_count sv"
    "phase_at port heap sv i \<noteq> Session_stopped"
    "\<forall>j < offset. phase_at port heap sv (turn sv sv_next_source_index j) = Session_stopped"
  using assms by (auto simp: mssup_select_def find_Some_iff)

lemma select_None:
  assumes "mssup_select port heap sv = None" "offset < source_count sv"
  shows "phase_at port heap sv (turn sv sv_next_source_index offset) = Session_stopped"
  using assms by (auto simp: mssup_select_def find_None_iff)

lemma mssup_step_cases:
  assumes "mssup_step port now (result, sv, heap) = (ended, result', report, sv', heap')" and "mssup_inv sv"
  shows "mssup_inv sv' \<and>
    (ended \<noteq> None \<longrightarrow> faults_follow now report sv sv' \<and> (\<forall>a. heap' a \<noteq> heap a \<longrightarrow> stepped_source report sv = Some a)) \<and>
    (fst (mssup_check_time now sv) = Ok \<and> sv_state sv \<noteq> Supervisor_binding \<longrightarrow> ended \<in> {None, Some Ok, Some Pending})"
proof -
  obtain time sv1 where time: "mssup_check_time now sv = (time, sv1)" by fastforce
  note frame = check_time_frame [OF time]
  have quiet: "\<not> is_fault (vr_source_status blank_report)" by (simp add: blank_report_def)
  consider (refused) "time \<noteq> Ok \<or> sv_state sv = Supervisor_binding"
    | (over) "time = Ok" "sv_state sv = Supervisor_stopped"
    | (workers) "time = Ok" "sv_state sv \<notin> {Supervisor_binding, Supervisor_stopped}" "sv_async_mode sv"
    | (direct) "time = Ok" "sv_state sv \<notin> {Supervisor_binding, Supervisor_stopped}" "\<not> sv_async_mode sv"
    by auto
  then show ?thesis
  proof cases
    case refused
    then have "report = blank_report" "sv' = sv1" "heap' = heap"
      using assms(1) time frame by (auto simp: mssup_step_def same_faults_def split: if_splits)
    then show ?thesis using refused assms(2) frame time no_fault_follows [of sv sv1] quiet by auto
  next
    case over
    then have "report = blank_report" "sv' = sv1" "heap' = heap" "ended = Some Ok"
      using assms(1) time frame by (auto simp: mssup_step_def same_faults_def split: if_splits)
    then show ?thesis using assms(2) frame no_fault_follows [of sv sv1] quiet by auto
  next
    case workers
    obtain st r1 report1 sv2 where step: "mssup_step_async port heap now (result, blank_report, sv1) = (st, r1, report1, sv2)"
      by (metis prod_cases4)
    have "report = report1" "sv' = sv2" "heap' = heap" "ended = Some st"
      using assms(1) workers time frame step by (auto simp: mssup_step_def same_faults_def split: if_splits)
    moreover have "mssup_inv sv2 \<and> faults_follow now report1 sv1 sv2 \<and> st \<in> {Ok, Pending}"
      using step_async_keeps [OF step] frame assms(2) workers(2) by (auto simp: same_faults_def)
    ultimately show ?thesis using faults_follow_same [of sv sv1] frame by auto
  next
    case direct
    have sv1: "mssup_inv sv1" "sv_state sv1 \<noteq> Supervisor_binding" using assms(2) frame direct(2) by (auto simp: same_faults_def)
    show ?thesis
    proof (cases "mssup_select port heap sv1")
      case None
      then have "report = blank_report" "sv' = sv1\<lparr>sv_state := Supervisor_stopped\<rparr>" "heap' = heap" "ended = Some Ok"
        using assms(1) direct time frame by (auto simp: mssup_step_def same_faults_def split: if_splits)
      moreover have "faults_follow now blank_report sv (sv1\<lparr>sv_state := Supervisor_stopped\<rparr>)"
        using frame quiet by (auto simp: faults_follow_def same_faults_def Let_def)
      ultimately show ?thesis using mssup_inv_state sv1 by auto
    next
      case (Some i)
      obtain offset where "i = turn sv1 sv_next_source_index offset" using Some by (rule select_Some)
      then have i: "i < source_count sv1" using turn_less [OF sv1] by simp
      obtain a where a: "sv_sessions sv1 ! i = Some a" using bound_at [OF sv1 i] .
      have step: "mssup_step_source port i now (result, blank_report, sv1, heap) = (ended, result', report, sv', heap')"
        using assms(1) direct time frame Some by (auto simp: mssup_step_def same_faults_def split: if_splits)
      note kept = step_source_keeps [OF step sv1 i a]
      have "unat (of_nat i :: u16) = i" using i running_counts [OF sv1] by (intro unat_of_index)
      then show ?thesis using kept a faults_follow_same [of sv sv1] frame
        by (auto simp: stepped_source_def same_faults_def)
    qed
  qed
qed


lemma stop_from_inv:
  "mssup_stop_from port now is e (sv, heap) = (e', sv', heap') \<Longrightarrow> mssup_inv sv \<Longrightarrow> mssup_inv sv'"
proof (induction "is" arbitrary: e sv heap)
  case (Cons i "is")
  then show ?case by (auto simp: Let_def split: if_splits prod.splits session_ending.splits)
qed simp

lemma request_stop_inv:
  assumes "mssup_inv sv" "mssup_request_stop port now (sv, heap) = (e, sv', heap')"
  shows "mssup_inv sv'"
proof -
  obtain time sv1 where time: "mssup_check_time now sv = (time, sv1)" by fastforce
  have sv1: "mssup_inv sv1" using check_time_frame [OF time] assms(1) by simp
  define r where "r = mssup_stop_from port now [0..<min (source_count sv1) (length (sv_sessions sv1))] Ok
    (sv1\<lparr>sv_state := Supervisor_stopping\<rparr>, heap)"
  obtain first_error sv2 heap2 where r: "r = (first_error, sv2, heap2)" by (metis prod_cases3)
  have "sv_state sv1 \<noteq> Supervisor_binding \<Longrightarrow> mssup_inv sv2"
    using stop_from_inv r mssup_inv_state [OF sv1] unfolding r_def by blast
  then show ?thesis using assms(2) sv1 refresh_inv unfolding mssup_request_stop_def
    by (auto simp: time Let_def r_def [symmetric] r split: if_splits)
qed

lemma drain_supervisor_inv:
  assumes "mssup_inv sv" "mssup_drain port (sv, heap) = (st, sv', heap')"
  shows "mssup_inv sv'"
proof -
  obtain ws heap1 where d: "drain_workers port [0..<min (source_count sv) (length (sv_sessions sv))] (sv_workers sv, heap) = (ws, heap1)"
    by fastforce
  then have "length ws = length (sv_workers sv)" by (rule drain_workers_length)
  then show ?thesis using assms d by (auto simp: mssup_drain_def mssup_inv_workers)
qed

lemma mssup_call_inv:
  assumes "mssup_call port s s'" "mssup_inv (fst s)"
  shows "mssup_inv (fst s')"
  using assms
proof cases
  case (step now result sv heap ended result' report sv' heap')
  then show ?thesis using mssup_step_cases [OF step(3)] assms(2) by simp
next
  case (others ws sv heap heap')
  then show ?thesis using assms(2) by (simp add: mssup_inv_workers)
qed (use bind_session_inv activate_inv request_stop_inv take_fault_inv drain_supervisor_inv in auto)

lemma mssup_reachable_inv:
  assumes "mssup_reachable port (sv, heap)"
  shows "mssup_inv sv"
proof -
  have "(mssup_call port)\<^sup>*\<^sup>* s s' \<Longrightarrow> mssup_inv (fst s) \<Longrightarrow> mssup_inv (fst s')" for s s' :: "multi_source_supervisor \<times> (nat \<Rightarrow> 'a)"
    by (induction rule: rtranclp_induct) (auto intro: mssup_call_inv)
  then show ?thesis using assms mssup_inv_initial by (force simp: mssup_reachable_def)
qed

text \<open>
  However the supervisor got here and whether or not its sessions have threads, a step keeps an error of
  a source with that source: the step itself answers Ok or Pending, the report names the source, its last
  error is that code, and the fault channel holds the event as its newest one; without such an error in
  the report the channel and every source's last error stay as they are. A step called on the caller's
  thread changes no other session than the reported one.
\<close>

theorem mssup_fault_stays_with_source:
  assumes "mssup_reachable port (sv, heap)"
    and "mssup_step port now (result, sv, heap) = (Some st, result', report, sv', heap')"
  shows "faults_follow now report sv sv' \<and>
    (\<forall>a. heap' a \<noteq> heap a \<longrightarrow> stepped_source report sv = Some a) \<and>
    (fst (mssup_check_time now sv) = Ok \<and> sv_state sv \<noteq> Supervisor_binding \<longrightarrow> st = Ok \<or> st = Pending)"
  using mssup_step_cases [OF assms(2) mssup_reachable_inv [OF assms(1)]] by auto

section \<open>The fault channel is read in order\<close>

datatype fault_call = Record_fault u16 status u64 | Take_fault

text \<open>The queue as its readers know it: first in, first out, the oldest of 32 gives way.\<close>

fun fault_spec :: "fault_call list \<Rightarrow> multi_source_fault_event list \<Rightarrow> multi_source_fault_event list" where
  "fault_spec [] q = []"
| "fault_spec (Record_fault i code now # calls) q =
     fault_spec calls (push_fault \<lparr>ve_source_index = i, ve_code = code, ve_at_ns = now\<rparr> q)"
| "fault_spec (Take_fault # calls) [] = fault_spec calls []"
| "fault_spec (Take_fault # calls) (e # q) = e # fault_spec calls q"

text \<open>The events the code hands out.\<close>

fun faults_taken :: "fault_call list \<Rightarrow> multi_source_supervisor \<Rightarrow> multi_source_fault_event list" where
  "faults_taken [] sv = []"
| "faults_taken (Record_fault i code now # calls) sv = faults_taken calls (mssup_record_fault i code now sv)"
| "faults_taken (Take_fault # calls) sv =
     (case mssup_take_fault blank_fault_event sv of
        (st, e, sv') \<Rightarrow> if st = Ok then e # faults_taken calls sv' else faults_taken calls sv')"

lemma faults_taken_spec: "mssup_inv sv \<Longrightarrow> faults_taken calls sv = fault_spec calls (fault_queue sv)"
proof (induction calls arbitrary: sv)
  case (Cons call calls)
  show ?case
  proof (cases call)
    case (Record_fault i code now)
    then show ?thesis using Cons by (simp add: record_fault_inv record_fault_push)
  next
    case Take_fault
    obtain st e sv' where take: "mssup_take_fault blank_fault_event sv = (st, e, sv')" by (metis prod_cases3)
    note kept = take_fault_inv [OF Cons.prems take]
    have "ring_ok sv" using Cons.prems by (simp add: mssup_inv_def)
    note head = take_fault_queue [OF this, of blank_fault_event]
    show ?thesis
    proof (cases "fault_queue sv")
      case Nil
      then show ?thesis using Take_fault take head Cons.IH [OF kept] by simp
    next
      case (Cons e' q)
      then show ?thesis using Take_fault take head Cons.IH [OF kept] by simp
    qed
  qed
qed simp

text \<open>
  From any reachable supervisor the ring buffer of fault events is a queue of at most 32: whatever is
  recorded and taken, events come out oldest first, each once, and only when a thirty-third is recorded
  is the oldest of them given up.
\<close>

theorem mssup_faults_first_in_first_out:
  assumes "mssup_reachable port (sv, heap)"
  shows "faults_taken calls sv = fault_spec calls (fault_queue sv) \<and> length (fault_queue sv) \<le> 32"
  using mssup_reachable_inv [OF assms]
  by (simp add: faults_taken_spec) (simp add: mssup_inv_def ring_ok_def fault_queue_def)


section \<open>No source starves\<close>

fun mssup_steps ::
    "'n session_port \<Rightarrow> u64 list \<Rightarrow> tensor_result \<times> multi_source_supervisor \<times> (nat \<Rightarrow> 'n) \<Rightarrow>
       multi_source_progress_report list" where
  "mssup_steps port [] s = []"
| "mssup_steps port (now # nows) s =
     (let (ended, result, report, sv, heap) = mssup_step port now s
      in report # mssup_steps port nows (result, sv, heap))"

definition never_raises :: "'n session_port \<Rightarrow> bool" where
  "never_raises port \<longleftrightarrow> (\<forall>now result n. \<exists>code. fst (sn_step port now result n) = Returned code)"

definition reports_source :: "nat \<Rightarrow> multi_source_progress_report \<Rightarrow> bool" where
  "reports_source k report \<longleftrightarrow> vr_has_source report \<and> vr_source_index report = of_nat k"

text \<open>A supervisor that steps its sources itself, with source \<open>k\<close> still to be served.\<close>

definition serves :: "'n session_port \<Rightarrow> nat \<Rightarrow> multi_source_supervisor \<Rightarrow> (nat \<Rightarrow> 'n) \<Rightarrow> bool" where
  "serves port k sv heap \<longleftrightarrow>
     sv_state sv \<notin> {Supervisor_binding, Supervisor_stopped} \<and> \<not> sv_async_mode sv \<and> k < source_count sv \<and>
     phase_at port heap sv k \<noteq> Session_stopped"

lemma refresh_not_stopped:
  assumes "k < source_count sv" "phase_at port heap sv k \<noteq> Session_stopped"
  shows "mssup_refresh_state port heap sv = sv"
  using assms by (auto simp: mssup_refresh_state_def list_ex_iff)

lemma later_turn:
  assumes "(x + d) mod n = k" "offset < d"
  shows "(((x + offset) mod n + 1) mod n + (d - Suc offset)) mod n = (k :: nat)"
proof -
  have "(((x + offset) mod n + 1) mod n + (d - Suc offset)) mod n = (x + offset + 1 + (d - Suc offset)) mod n"
    by (simp add: mod_simps)
  also have "x + offset + 1 + (d - Suc offset) = x + d" using assms(2) by simp
  finally show ?thesis using assms(1) by simp
qed

lemma step_source_next:
  assumes "mssup_step_source port i now (result, report, sv, heap) = (ended, result', report', sv', heap')"
    and "never_raises port" "sv_sessions sv ! i = Some a" "phase_at port heap' sv k \<noteq> Session_stopped" "k < source_count sv"
  shows "ended \<noteq> None \<and> sv_next_source_index sv' = of_nat ((i + 1) mod source_count sv) \<and> sv_state sv' = sv_state sv \<and>
    sv_async_mode sv' = sv_async_mode sv \<and> sv_config sv' = sv_config sv \<and> sv_sessions sv' = sv_sessions sv \<and>
    sv_last_now_ns sv' = sv_last_now_ns sv"
proof -
  obtain ending r1 progress n' where call: "sn_step port now result (heap a) = (ending, r1, progress, n')"
    by (metis prod_cases4)
  obtain code where code: "ending = Returned code" using assms(2) call by (metis fst_conv never_raises_def)
  define sv1 where "sv1 = sv\<lparr>sv_next_source_index := of_nat ((i + 1) mod source_count sv)\<rparr>"
  define sv2 where "sv2 = (if is_fault code then mssup_record_fault (of_nat i) code now sv1 else sv1)"
  have sv': "sv' = mssup_refresh_state port heap' sv2" and "ended \<noteq> None"
    using assms(1,3) call code by (auto simp: mssup_step_source_def Let_def sv1_def sv2_def)
  moreover have same: "sv_sessions sv2 = sv_sessions sv" "sv_config sv2 = sv_config sv"
      "sv_state sv2 = sv_state sv" "sv_async_mode sv2 = sv_async_mode sv" "sv_last_now_ns sv2 = sv_last_now_ns sv"
      "sv_next_source_index sv2 = of_nat ((i + 1) mod source_count sv)"
    by (simp_all add: sv2_def sv1_def)
  moreover have "mssup_refresh_state port heap' sv2 = sv2"
    using assms(4,5) by (intro refresh_not_stopped [of k]) (simp_all add: same health_at_def)
  ultimately show ?thesis by simp
qed

lemma distinct_addresses:
  assumes "sessions_distinct n ss" "i < n" "k < n" "ss ! i = Some a" "ss ! k = Some b" "n \<le> length ss" "i \<noteq> k"
  shows "a \<noteq> b"
proof
  assume "a = b"
  then have "i < min n (length ss)" "k < min n (length ss)" "ss ! i \<noteq> None \<and> ss ! i = ss ! k" using assms by simp_all
  then show False using assms(1,7) unfolding sessions_distinct_def by blast
qed

lemma step_comes_closer:
  assumes "mssup_step port now (result, sv, heap) = (ended, result', report, sv', heap')"
    and inv: "mssup_inv sv" and serves: "serves port k sv heap" and "never_raises port"
    and time: "now \<noteq> UINT64_MAX" "sv_last_now_ns sv \<le> now"
    and d: "d < source_count sv" "(unat (sv_next_source_index sv) + d) mod source_count sv = k"
  shows "reports_source k report \<or>
    (\<exists>d' < d. mssup_inv sv' \<and> serves port k sv' heap' \<and> source_count sv' = source_count sv \<and> sv_last_now_ns sv' = now \<and>
       (unat (sv_next_source_index sv') + d') mod source_count sv = k)"
proof -
  define sv1 where "sv1 = sv\<lparr>sv_last_now_ns := now\<rparr>"
  have check: "mssup_check_time now sv = (Ok, sv1)" using time by (simp add: mssup_check_time_def sv1_def)
  have sv1: "mssup_inv sv1" "sv_state sv1 \<noteq> Supervisor_binding" "k < source_count sv1"
    using inv serves by (auto simp: sv1_def serves_def)
  have same: "sv_sessions sv1 = sv_sessions sv" "sv_config sv1 = sv_config sv" "sv_state sv1 = sv_state sv"
      "sv_async_mode sv1 = sv_async_mode sv" "sv_next_source_index sv1 = sv_next_source_index sv"
    by (simp_all add: sv1_def)
  have k: "phase_at port heap sv1 k \<noteq> Session_stopped" using serves by (simp add: serves_def health_at_def same)
  have "mssup_select port heap sv1 \<noteq> None"
    using select_None [of port heap sv1 d] d k by (auto simp: same)
  then obtain i where select: "mssup_select port heap sv1 = Some i" by blast
  then obtain offset where offset: "i = turn sv1 sv_next_source_index offset" "offset < source_count sv1"
      and "phase_at port heap sv1 i \<noteq> Session_stopped" and before: "\<forall>j < offset. phase_at port heap sv1 (turn sv1 sv_next_source_index j) = Session_stopped"
    by (rule select_Some)
  have "\<not> d < offset" using before d k by (auto simp: same)
  have i: "i < source_count sv1" using turn_less [OF sv1(1,2)] offset by simp
  obtain a where a: "sv_sessions sv1 ! i = Some a" using bound_at [OF sv1(1,2) i] .
  have step: "mssup_step_source port i now (result, blank_report, sv1, heap) = (ended, result', report, sv', heap')"
    using assms(1) serves by (simp add: mssup_step_def check select same serves_def)
  note kept = step_source_keeps [OF step sv1(1,2) i a]
  show ?thesis
  proof (cases "i = k")
    case True
    obtain code where "fst (sn_step port now result (heap a)) = Returned code" using assms(4) unfolding never_raises_def by blast
    then have "ended \<noteq> None" using step a by (auto simp: mssup_step_source_def Let_def split: prod.splits)
    then show ?thesis using kept True by (auto simp: reports_source_def)
  next
    case False
    obtain b where b: "sv_sessions sv1 ! k = Some b" using bound_at [OF sv1] .
    have "a \<noteq> b"
      using sv1(1) running_counts [OF sv1(1,2)] distinct_addresses [OF _ i sv1(3) a b] False
      by (auto simp: mssup_inv_def bindings_ok_def)
    then have "heap' b = heap b" using kept by metis
    then have k': "phase_at port heap' sv1 k \<noteq> Session_stopped" using k b by (simp add: health_at_def)
    note moved = step_source_next [OF step assms(4) a k' sv1(3)]
    have "offset \<noteq> d" using False d(2) offset(1) by (auto simp: same)
    then have less: "offset < d" using \<open>\<not> d < offset\<close> by simp
    have "unat (sv_next_source_index sv') = (i + 1) mod source_count sv"
      using moved running_counts [OF sv1(1,2)] unat_of_index [of "(i + 1) mod source_count sv" "source_count sv"]
      by (simp add: same)
    then have "(unat (sv_next_source_index sv') + (d - Suc offset)) mod source_count sv = k"
      using later_turn [OF d(2) less] offset(1) by (simp add: same)
    moreover have "serves port k sv' heap'"
      using moved k' serves by (simp add: serves_def same health_at_def)
    moreover have "d - Suc offset < d" using less by simp
    ultimately show ?thesis using kept moved by (auto simp: same sv1_def)
  qed
qed


lemma turn_comes:
  assumes "mssup_inv sv" "serves port k sv heap" "never_raises port" "d < source_count sv"
    and "(unat (sv_next_source_index sv) + d) mod source_count sv = k"
    and "sorted (sv_last_now_ns sv # nows)" "UINT64_MAX \<notin> set nows" "d < length nows"
  shows "\<exists>report \<in> set (take (Suc d) (mssup_steps port nows (result, sv, heap))). reports_source k report"
  using assms
proof (induction d arbitrary: sv heap result nows rule: less_induct)
  case (less d)
  obtain now later where nows: "nows = now # later" using less.prems(8) by (cases nows) auto
  obtain ended result' report sv' heap' where
    step: "mssup_step port now (result, sv, heap) = (ended, result', report, sv', heap')" by (metis prod_cases5)
  have steps: "mssup_steps port nows (result, sv, heap) = report # mssup_steps port later (result', sv', heap')"
    by (simp add: nows step)
  have time: "now \<noteq> UINT64_MAX" "sv_last_now_ns sv \<le> now" using less.prems(6,7) by (auto simp: nows)
  consider "reports_source k report"
    | d' where "d' < d" "mssup_inv sv'" "serves port k sv' heap'" "source_count sv' = source_count sv" "sv_last_now_ns sv' = now"
        "(unat (sv_next_source_index sv') + d') mod source_count sv = k"
    using step_comes_closer [OF step less.prems(1-3) time less.prems(4,5)] by blast
  then show ?case
  proof cases
    case 2
    have "\<exists>report \<in> set (take (Suc d') (mssup_steps port later (result', sv', heap'))). reports_source k report"
      using 2 less.prems by (intro less.IH) (auto simp: nows)
    moreover have "set (take (Suc d') (mssup_steps port later (result', sv', heap'))) \<subseteq>
        set (take d (mssup_steps port later (result', sv', heap')))"
      using 2(1) by (intro set_take_subset_set_take) simp
    ultimately show ?thesis unfolding steps by auto
  qed (simp add: steps)
qed

lemma distance_exists:
  assumes "k < (n :: nat)"
  shows "\<exists>d < n. (x + d) mod n = k"
proof -
  have "(x + (k + n - x mod n)) mod n = (x mod n + (k + n - x mod n)) mod n" by (simp add: mod_simps)
  also have "x mod n + (k + n - x mod n) = k + n"
    using mod_less_divisor [of n x] assms by linarith
  finally have "(x + (k + n - x mod n) mod n) mod n = k" using assms by (simp add: mod_simps)
  then show ?thesis using assms by (intro exI [of _ "(k + n - x mod n) mod n"]) auto
qed

text \<open>
  C40. Without workers no source starves: as long as a source has not stopped, one of the next steps, as many
  as there are sources, is its own, whatever the other sources do and however they fail. Times need only
  not run backwards; the sessions may do anything but raise an exception.
\<close>

theorem mssup_every_source_gets_its_turn:
  assumes "mssup_reachable port (sv, heap)" and "serves port k sv heap" and "never_raises port"
    and "sorted (sv_last_now_ns sv # nows)" "UINT64_MAX \<notin> set nows" "length nows = source_count sv"
  shows "\<exists>report \<in> set (mssup_steps port nows (result, sv, heap)). reports_source k report"
proof -
  have "k < source_count sv" using assms(2) by (simp add: serves_def)
  then obtain d where d: "d < source_count sv" "(unat (sv_next_source_index sv) + d) mod source_count sv = k"
    using distance_exists by blast
  have "\<exists>report \<in> set (take (Suc d) (mssup_steps port nows (result, sv, heap))). reports_source k report"
    using assms d by (intro turn_comes mssup_reachable_inv) auto
  then show ?thesis by (meson in_set_takeD)
qed


section \<open>No completion is left behind\<close>

text \<open>The rest of the supervisor is left alone by a step with workers.\<close>

definition same_run :: "multi_source_supervisor \<Rightarrow> multi_source_supervisor \<Rightarrow> bool" where
  "same_run sv sv' \<longleftrightarrow> sv_config sv' = sv_config sv \<and> sv_state sv' = sv_state sv \<and> sv_sessions sv' = sv_sessions sv \<and>
     sv_async_mode sv' = sv_async_mode sv \<and> sv_async_poll_turn sv' = sv_async_poll_turn sv \<and>
     sv_last_now_ns sv' = sv_last_now_ns sv"

lemma request_step_completion: "sswrk_request_step now w = (st, w') \<Longrightarrow> sk_has_completion w' = sk_has_completion w"
  by (auto simp: sswrk_request_step_def split: if_splits)

lemma request_one_run:
  assumes "mssup_request_one port heap now offsets (report, sv) = (requested, report', sv')" "k < length (sv_workers sv)"
  shows "same_run sv sv' \<and> sv_next_result_index sv' = sv_next_result_index sv \<and>
    sk_has_completion (sv_workers sv' ! k) = sk_has_completion (sv_workers sv ! k)"
  using assms
proof (induction offsets arbitrary: report sv)
  case (Cons offset offsets)
  define i where "i = turn sv sv_next_source_index offset"
  show ?case
  proof (cases "sv_sessions sv ! i = None \<or> phase_at port heap sv i = Session_stopped")
    case True
    then show ?thesis using Cons by (simp add: Let_def i_def)
  next
    case False
    obtain st w where w: "sswrk_request_step now (sv_workers sv ! i) = (st, w)" by fastforce
    define sv1 where "sv1 = sv\<lparr>sv_workers := (sv_workers sv)[i := w]\<rparr>"
    have sv1: "same_run sv sv1" "sv_next_result_index sv1 = sv_next_result_index sv"
        "sk_has_completion (sv_workers sv1 ! k) = sk_has_completion (sv_workers sv ! k)" "k < length (sv_workers sv1)"
      using request_step_completion [OF w] Cons.prems(2)
      by (cases "k = i"; simp add: sv1_def same_run_def; fail)+
    show ?thesis
    proof (cases "st = Ok")
      case True
      then have "sv' = sv1\<lparr>sv_next_source_index := of_nat ((i + 1) mod source_count sv)\<rparr>"
        using Cons.prems(1) False w by (auto simp: Let_def sv1_def i_def)
      then show ?thesis using sv1 by (simp add: same_run_def)
    next
      case st: False
      then have "mssup_request_one port heap now offsets (report, sv1) = (requested, report', sv')"
        using Cons.prems(1) False w by (auto simp: Let_def sv1_def i_def)
      from Cons.IH [OF this sv1(4)] sv1 show ?thesis by (simp add: same_run_def)
    qed
  qed
qed (simp add: same_run_def)

lemma poll_one_reaches:
  assumes "mssup_poll_one port heap now [m..<n] (result, report, sv) = (polled, result', report', sv')"
    and "mssup_inv sv" "sv_state sv \<noteq> Supervisor_binding" "m \<le> d" "d < n"
    and "sk_has_completion (sv_workers sv ! turn sv sv_next_result_index d)"
  shows "polled \<and> (\<exists>offset \<le> d. let i = turn sv sv_next_result_index offset in
    reports_source i report' \<and> \<not> sk_has_completion (sv_workers sv' ! i) \<and>
    sv_next_result_index sv' = of_nat ((i + 1) mod source_count sv) \<and> same_run sv sv')"
  using assms(1,4)
proof (induction "d - m" arbitrary: m rule: less_induct)
  case less
  define i where "i = turn sv sv_next_result_index m"
  have i: "i < source_count sv" "source_count sv \<le> 16" "sv_sessions sv ! i \<noteq> None" "length (sv_workers sv) = 16"
    unfolding i_def
    by (rule turn_less [OF assms(2,3)], rule running_counts(2) [OF assms(2,3)], rule activated_bound [OF assms(2,3)])
      (use assms(2) in \<open>simp add: mssup_inv_def bindings_ok_def\<close>)
  have range: "[m..<n] = m # [Suc m..<n]" using less.prems(2) assms(5) by (intro upt_conv_Cons) simp
  show ?case
  proof (cases "sk_has_completion (sv_workers sv ! i)")
    case True
    then obtain code candidate progress w where
        poll: "sswrk_poll_completion (sv_workers sv ! i) = (Ok, Some (code, candidate, progress), w)" "\<not> sk_has_completion w"
      by (auto simp: sswrk_poll_completion_def)
    have "polled" "reports_source i report'" "\<not> sk_has_completion (sv_workers sv' ! i)" "same_run sv sv'"
        "sv_next_result_index sv' = of_nat ((i + 1) mod source_count sv)"
      using less.prems(1) poll i by (auto simp: range Let_def i_def [symmetric] reports_source_def same_run_def split: if_splits)
    then show ?thesis using less.prems(2) by (auto simp: Let_def i_def)
  next
    case False
    then have "m \<noteq> d" using assms(6) by (auto simp: i_def)
    then have m: "Suc m \<le> d" "d - Suc m < d - m" using less.prems(2) by auto
    have "sswrk_poll_completion (sv_workers sv ! i) = (Pending, None, sv_workers sv ! i)"
      using False by (simp add: sswrk_poll_completion_def)
    then have "mssup_poll_one port heap now [Suc m..<n] (result, report, sv) = (polled, result', report', sv')"
      using less.prems(1) i(3) by (simp add: range Let_def i_def [symmetric] del: not_None_eq)
    then show ?thesis using less.hyps [OF m(2) _ m(1)] by blast
  qed
qed


text \<open>One step with workers, while a completion of source \<open>k\<close> waits to be read.\<close>

definition awaits :: "'n session_port \<Rightarrow> nat \<Rightarrow> multi_source_supervisor \<Rightarrow> (nat \<Rightarrow> 'n) \<Rightarrow> bool" where
  "awaits port k sv heap \<longleftrightarrow>
     sv_state sv \<notin> {Supervisor_binding, Supervisor_stopped} \<and> sv_async_mode sv \<and> k < source_count sv \<and>
     phase_at port heap sv k \<noteq> Session_stopped"

definition delivers :: "nat \<Rightarrow> multi_source_progress_report \<Rightarrow> multi_source_supervisor \<Rightarrow> bool" where
  "delivers k report sv \<longleftrightarrow> reports_source k report \<and> \<not> sk_has_completion (sv_workers sv ! k)"

lemma polled_closer:
  assumes "mssup_poll_one port heap now [0..<source_count sv] (result, report, sv) = (polled, result', report', sv')"
    and "mssup_inv sv" "awaits port k sv heap" "sk_has_completion (sv_workers sv ! k)" "d < source_count sv"
    and "turn sv sv_next_result_index d = k"
  shows "polled \<and> awaits port k sv' heap \<and> same_run sv sv' \<and>
    (delivers k report' sv' \<or> (\<exists>d' < d. turn sv' sv_next_result_index d' = k))"
proof -
  have state: "sv_state sv \<noteq> Supervisor_binding" using assms(3) by (simp add: awaits_def)
  obtain offset where offset: "polled" "offset \<le> d" "reports_source (turn sv sv_next_result_index offset) report'"
      "\<not> sk_has_completion (sv_workers sv' ! turn sv sv_next_result_index offset)" "same_run sv sv'"
      "sv_next_result_index sv' = of_nat ((turn sv sv_next_result_index offset + 1) mod source_count sv)"
    using poll_one_reaches [OF assms(1,2) state _ assms(5)] assms(4,6) by (auto simp: Let_def)
  have awaits: "awaits port k sv' heap" using assms(3) offset(5) by (simp add: awaits_def same_run_def health_at_def)
  show ?thesis
  proof (cases "offset = d")
    case True
    then show ?thesis using offset awaits assms(6) by (simp add: delivers_def)
  next
    case False
    then have less: "offset < d" using offset(2) by simp
    have "unat (sv_next_result_index sv') = (turn sv sv_next_result_index offset + 1) mod source_count sv"
      using offset(6) running_counts [OF assms(2) state] by (simp only: offset(6)) (intro unat_of_index; simp)
    then have "turn sv' sv_next_result_index (d - Suc offset) = k"
      using later_turn [OF assms(6) less] offset(5) by (simp add: same_run_def)
    moreover have "d - Suc offset < d" using less by simp
    ultimately show ?thesis using offset awaits by blast
  qed
qed

lemma refresh_awaits: "awaits port k sv heap \<Longrightarrow> mssup_refresh_state port heap sv = sv"
  by (auto simp: awaits_def intro: refresh_not_stopped)

lemma async_step_closer:
  assumes "mssup_step port now (result, sv, heap) = (ended, result', report, sv', heap')"
    and inv: "mssup_inv sv" and awaits: "awaits port k sv heap" and "sk_has_completion (sv_workers sv ! k)"
    and time: "now \<noteq> UINT64_MAX" "sv_last_now_ns sv \<le> now"
    and d: "d < source_count sv" "turn sv sv_next_result_index d = k"
  shows "sv_config sv' = sv_config sv \<and> sv_sessions sv' = sv_sessions sv \<and> sv_state sv' = sv_state sv \<and>
    sv_async_mode sv' \<and> sv_last_now_ns sv' = now \<and>
    (delivers k report sv' \<or> (\<exists>d'. turn sv' sv_next_result_index d' = k \<and>
       (d' < d \<or> d' = d \<and> \<not> sv_async_poll_turn sv \<and> sv_async_poll_turn sv')))"
proof -
  define sv0 where "sv0 = sv\<lparr>sv_last_now_ns := now\<rparr>"
  define sv1 where "sv1 = sv0\<lparr>sv_async_poll_turn := \<not> sv_async_poll_turn sv0\<rparr>"
  have check: "mssup_check_time now sv = (Ok, sv0)" using time by (simp add: mssup_check_time_def sv0_def)
  have sv0: "sv_state sv0 = sv_state sv" "sv_async_mode sv0 = sv_async_mode sv" "sv_config sv0 = sv_config sv"
      "sv_async_poll_turn sv0 = sv_async_poll_turn sv"
    by (simp_all add: sv0_def)
  have step: "\<exists>st. mssup_step_async port heap now (result, blank_report, sv0) = (st, result', report, sv')"
    using assms(1) awaits by (auto simp: mssup_step_def check awaits_def sv0 split: prod.splits)
  have sv1: "mssup_inv sv1" "awaits port k sv1 heap" "sk_has_completion (sv_workers sv1 ! k)" "d < source_count sv1"
      "turn sv1 sv_next_result_index d = k" "k < length (sv_workers sv1)"
    using inv awaits assms(4) d running_counts [OF inv]
    by (simp_all add: sv1_def sv0_def awaits_def health_at_def) (simp add: mssup_inv_def bindings_ok_def)
  have same: "sv_config sv1 = sv_config sv" "sv_sessions sv1 = sv_sessions sv" "sv_state sv1 = sv_state sv"
      "sv_async_mode sv1" "sv_last_now_ns sv1 = now" "sv_async_poll_turn sv1 = (\<not> sv_async_poll_turn sv)"
    using awaits by (simp_all add: sv1_def sv0_def awaits_def)
  note step = step [unfolded mssup_step_async_def Let_def prod.case, folded sv1_def, unfolded sv0]
  show ?thesis
  proof (cases "sv_async_poll_turn sv")
    case True
    obtain polled r1 report1 sv2 where
      poll: "mssup_poll_one port heap now [0..<source_count sv1] (result, blank_report, sv1) = (polled, r1, report1, sv2)"
      by (metis prod_cases4)
    note got = polled_closer [OF poll sv1(1-5)]
    have "report = report1" "sv' = sv2" using step True poll got refresh_awaits [of port k sv2 heap] by (auto simp: same split: if_splits)
    then show ?thesis using got same by (auto simp: same_run_def)
  next
    case False
    obtain requested report1 sv2 where
      request: "mssup_request_one port heap now [0..<source_count sv1] (blank_report, sv1) = (requested, report1, sv2)"
      by (metis prod_cases3)
    note asked = request_one_keeps [OF request sv1(1)] request_one_run [OF request sv1(6)]
    have sv2: "mssup_inv sv2" "awaits port k sv2 heap" "sk_has_completion (sv_workers sv2 ! k)" "d < source_count sv2"
        "turn sv2 sv_next_result_index d = k"
      using asked sv1 by (simp_all add: same_run_def awaits_def health_at_def)
    show ?thesis
    proof (cases requested)
      case True
      have "sv' = sv2" using step False True request refresh_awaits [OF sv2(2)] by (auto simp: same split: if_splits)
      then show ?thesis using asked same False sv2(5) by (auto simp: same_run_def)
    next
      case none: False
      obtain polled r1 report2 sv3 where
        poll: "mssup_poll_one port heap now [0..<source_count sv2] (result, report1, sv2) = (polled, r1, report2, sv3)"
        by (metis prod_cases4)
      note got = polled_closer [OF poll sv2]
      have "source_count sv2 = source_count sv" using asked same by (simp add: same_run_def)
      then have "report = report2" "sv' = sv3"
        using step False none request poll got refresh_awaits [of port k sv3 heap] by (auto simp: same split: if_splits)
      then show ?thesis using got same asked by (auto simp: same_run_def)
    qed
  qed
qed


text \<open>
  Steps of a supervisor with workers. Before each one the worker threads have left the workers and the
  sessions in some state.
\<close>

type_synonym 'n surroundings = "u64 \<times> source_session_worker list \<times> (nat \<Rightarrow> 'n)"

fun async_steps ::
    "'n session_port \<Rightarrow> 'n surroundings list \<Rightarrow> tensor_result \<times> multi_source_supervisor \<Rightarrow>
       (multi_source_progress_report \<times> multi_source_supervisor) list" where
  "async_steps port [] s = []"
| "async_steps port ((now, ws, heap) # later) (result, sv) =
     (let (ended, result', report, sv', heap') = mssup_step port now (result, sv\<lparr>sv_workers := ws\<rparr>, heap)
      in (report, sv') # async_steps port later (result', sv'))"

text \<open>Source \<open>k\<close> has not stopped and its completion waits to be read.\<close>

definition waits :: "'n session_port \<Rightarrow> nat \<Rightarrow> multi_source_supervisor \<Rightarrow> 'n surroundings \<Rightarrow> bool" where
  "waits port k sv = (\<lambda>(now, ws, heap). length ws = length (sv_workers sv) \<and> sk_has_completion (ws ! k) \<and>
     now \<noteq> UINT64_MAX \<and> phase_at port heap sv k \<noteq> Session_stopped)"

lemma completion_comes:
  assumes "mssup_inv sv" "sv_state sv \<notin> {Supervisor_binding, Supervisor_stopped}" "sv_async_mode sv"
    and "k < source_count sv" "list_all (waits port k sv) env" "sorted (sv_last_now_ns sv # map fst env)"
    and "d < source_count sv" "turn sv sv_next_result_index d = k"
    and "2 * d + (if sv_async_poll_turn sv then 0 else 1) < length env"
  shows "\<exists>(report, sv') \<in> set (async_steps port env (result, sv)). delivers k report sv'"
  using assms
proof (induction "2 * d + (if sv_async_poll_turn sv then 0 else 1)" arbitrary: d sv result env rule: less_induct)
  case less
  obtain now ws heap later where env: "env = (now, ws, heap) # later" using less.prems(9) by (cases env) auto
  define sv0 where "sv0 = sv\<lparr>sv_workers := ws\<rparr>"
  obtain ended result' report sv' heap' where step: "mssup_step port now (result, sv0, heap) = (ended, result', report, sv', heap')"
    by (metis prod_cases5)
  have steps: "async_steps port env (result, sv) = (report, sv') # async_steps port later (result', sv')"
    by (simp add: env sv0_def [symmetric] step)
  have w: "length ws = length (sv_workers sv)" "sk_has_completion (ws ! k)" "now \<noteq> UINT64_MAX"
      "phase_at port heap sv k \<noteq> Session_stopped"
    using less.prems(5) by (simp_all add: env waits_def)
  have sv0: "mssup_inv sv0" "awaits port k sv0 heap" "sk_has_completion (sv_workers sv0 ! k)" "sv_last_now_ns sv0 \<le> now"
      "d < source_count sv0" "turn sv0 sv_next_result_index d = k"
    using less.prems w by (auto simp: sv0_def mssup_inv_workers awaits_def health_at_def env)
  note closer = async_step_closer [OF step sv0(1-3) w(3) sv0(4-6)]
  have inv': "mssup_inv sv'" using mssup_step_cases [OF step sv0(1)] by blast
  show ?case
  proof (cases "delivers k report sv'")
    case True
    then show ?thesis by (simp add: steps)
  next
    case False
    then obtain d' where d': "turn sv' sv_next_result_index d' = k"
        "d' < d \<or> d' = d \<and> \<not> sv_async_poll_turn sv \<and> sv_async_poll_turn sv'"
      using closer by (auto simp: sv0_def)
    have same: "sv_config sv' = sv_config sv" "sv_sessions sv' = sv_sessions sv" "sv_state sv' = sv_state sv"
        "sv_async_mode sv'" "sv_last_now_ns sv' = now"
      using closer by (simp_all add: sv0_def)
    have "length (sv_workers sv') = length (sv_workers sv)"
      using inv' less.prems(1) by (simp add: mssup_inv_def bindings_ok_def)
    then have "list_all (waits port k sv') later"
      using less.prems(5) by (auto simp: env list_all_iff waits_def health_at_def same)
    moreover have fewer: "2 * d' + (if sv_async_poll_turn sv' then 0 else 1) < 2 * d + (if sv_async_poll_turn sv then 0 else 1)"
      using d'(2) by auto
    ultimately have "\<exists>(report, sv'') \<in> set (async_steps port later (result', sv')). delivers k report sv''"
      using less.prems d' inv' same by (intro less.hyps [of d' sv']) (auto simp: env)
    then show ?thesis by (auto simp: steps)
  qed
qed

text \<open>
  With workers no completion is left behind: whatever the threads do, a completion of a source that has
  not stopped is read within twice as many steps as there are sources.
\<close>

theorem mssup_every_completion_is_read:
  assumes "mssup_reachable port (sv, h)" and "sv_state sv \<notin> {Supervisor_binding, Supervisor_stopped}" "sv_async_mode sv"
    and "k < source_count sv" "list_all (waits port k sv) env" "sorted (sv_last_now_ns sv # map fst env)"
    and "2 * source_count sv \<le> length env"
  shows "\<exists>(report, sv') \<in> set (async_steps port env (result, sv)). delivers k report sv'"
proof -
  obtain d where d: "d < source_count sv" "turn sv sv_next_result_index d = k"
    using distance_exists [OF assms(4)] by blast
  show ?thesis
    using assms d by (intro completion_comes [OF mssup_reachable_inv [OF assms(1)]]) auto
qed


section \<open>Example\<close>

text \<open>Two sources; every step of the second one fails.\<close>

definition demo_port :: "nat session_port" where
  "demo_port = \<lparr>sn_step = (\<lambda>now result n. (Returned (if odd n then Io_error else Ok), result, blank_progress, n + 2)),
     sn_request_stop = (\<lambda>now n. (Returned Ok, n)),
     sn_health = (\<lambda>n. blank_health\<lparr>sh_phase := if n < 2 then Session_idle else Session_running\<rparr>)\<rparr>"

definition demo_config_of_two :: multi_source_supervisor_config where
  "demo_config_of_two = \<lparr>vc_deployment_revision = 1, vc_catalog_revision = 1, vc_source_count = 2, vc_use_session_workers = False\<rparr>"

definition demo_bound :: "nat option list \<Rightarrow> multi_source_supervisor" where
  "demo_bound bound = (mssup_initial demo_config_of_two)\<lparr>sv_sessions := bound @ replicate (16 - length bound) None,
     sv_bound_count := of_nat (length bound)\<rparr>"

definition demo_supervisor :: multi_source_supervisor where
  "demo_supervisor = (demo_bound [Some 0, Some 1])\<lparr>sv_state := Supervisor_running\<rparr>"

lemmas demo_defs = mssup_initial_def demo_config_of_two_def demo_bound_def dpl_max_sources_def demo_port_def

lemma demo_slots:
  "(replicate 16 None)[0 := Some 0] = Some (0 :: nat) # replicate 15 None"
  "(Some (0 :: nat) # replicate 15 None)[Suc 0 := Some 1] = Some 0 # Some 1 # replicate 14 None"
  by (simp_all add: numeral_eq_Suc)

lemma demo_reachable: "mssup_reachable demo_port (demo_supervisor, id)"
proof -
  have "mssup_bind_session demo_port id 0 0 (demo_bound []) = (Ok, demo_bound [Some 0])"
    by (simp add: mssup_bind_session_def demo_defs demo_slots upt_rec)
  then have "mssup_call demo_port (demo_bound [], id) (demo_bound [Some 0], id)" by (rule mssup_call.bind)
  moreover have "mssup_bind_session demo_port id 1 1 (demo_bound [Some 0]) = (Ok, demo_bound [Some 0, Some 1])"
    by (simp add: mssup_bind_session_def demo_defs demo_slots [simplified] upt_rec)
  then have "mssup_call demo_port (demo_bound [Some 0], id) (demo_bound [Some 0, Some 1], id)" by (rule mssup_call.bind)
  moreover have "mssup_activate demo_port (\<lambda>_. True) (demo_bound [Some 0, Some 1], id) = (Ok, demo_supervisor, id)"
    by (simp add: mssup_activate_def demo_defs demo_supervisor_def health_at_def upt_rec Let_def)
  then have "mssup_call demo_port (demo_bound [Some 0, Some 1], id) (demo_supervisor, id)" by (rule mssup_call.activate)
  ultimately have "(mssup_call demo_port)\<^sup>*\<^sup>* (demo_bound [], id) (demo_supervisor, id)"
    by (meson converse_rtranclp_into_rtranclp rtranclp.rtrancl_refl)
  moreover have "demo_bound [] = mssup_initial demo_config_of_two" by (simp add: demo_bound_def mssup_initial_def dpl_max_sources_def)
  ultimately show ?thesis unfolding mssup_reachable_def by metis
qed

theorem mssup_every_source_gets_its_turn_witness:
  "\<exists>report \<in> set (mssup_steps demo_port [10, 20] (blank_result, demo_supervisor, id)). reports_source 1 report"
proof (rule mssup_every_source_gets_its_turn [OF demo_reachable])
  show "serves demo_port 1 demo_supervisor id"
    by (simp add: serves_def demo_supervisor_def demo_defs health_at_def blank_health_def)
  show "never_raises demo_port" by (simp add: never_raises_def demo_port_def)
  show "sorted (sv_last_now_ns demo_supervisor # [10, 20])" "length [10, 20] = source_count demo_supervisor"
    by (simp_all add: demo_supervisor_def demo_defs)
  show "UINT64_MAX \<notin> set [10, 20]" by code_simp
qed

end
