(* ===== verification/Spec2Isabelle.thy ===== *)
theory Spec2Isabelle
  imports Encoder_Window Output_Gate Inference_Execution Tensor_Pool Preview_Pool
    Recovery_Controller Model_Cadence Cascade_Frame_Store Usecase_Control Observation Source_Lifecycle Feature_Activation
    Inference_Worker Encoded_Dispatch Overlay_Dispatch Recognition_Examples Multi_Source_Supervisor
begin

text \<open>
  A model of LACAI, the edge video analytics service of this repository (C++17 under src/), and of
  what its parts promise. Paths below are relative to the repository's root directory; \<open>contracts/\<close>
  and \<open>ports/\<close> are the directories of that name below include/vqec/vision/ai, and file names leave
  out the prefix \<open>vqec_vision_\<close>.

  \<^bold>\<open>The program.\<close> A camera service lends raw frames over a socket; for every source a session decides
  which models run on a frame, hands the frame to an inference backend, and turns the results into
  observations, events and an encoded preview with boxes drawn on it. A trusted licence policy decides
  what may run and what may leave the device. Vendor code is reached only through the interfaces of
  ports/ and contracts/; the code modelled here is the neutral code between them: contracts and
  ledgers (src/core, contracts/), the runtime (src/runtime), the coordination of sources (src/app), and the
  camera adapter (src/adapters/camera).

  \<^bold>\<open>How code becomes a definition.\<close> Integers keep their width and wrap; \<open>size()\<close> is a \<open>nat\<close>; a \<open>status\<close>
  is its code (the message is diagnostic). A method that changes its object is a function that takes the
  old object (a record with one prefix per struct) and returns the status and the new one; reference
  parameters are passed in and returned, so that a failure leaves them alone is a theorem. A pointer that
  may be null is an option. What the code cannot decide itself is an argument: whether an allocation
  succeeds, the bytes a socket yields, the answer of a service, a processor or a backend. What the code
  does to the outside (descriptors closed, messages sent, calls made) is returned as a list. A value of
  an \<open>enum class\<close> that is none of its enumerators is \<open>Unlisted_...\<close>. Floating point numbers are
  their values with the rounding of each operation written out (Float_Arith), compared as the hardware
  does (Float_Compare). Definitions keep the source's names without the prefix
  \<open>vqec_vision_ai_<layer>_\<close>.

  \<^bold>\<open>Parts.\<close>

  \<^item> Prelude, Early_Return, Float_Compare, Float_Arith: machine integers and their overflow guards, the
    status codes, chains of guards, floating point, and the contracts (locales) components share.
  \<^item> Identifiers: contracts/identifier.hpp.
  \<^item> Submission_Window: the ledger of asynchronous jobs (core/submission_window). Every job walks an
    abstract life cycle \<open>job_step\<close>; the ledger refines it, a job is released by both its completions only,
    ids are never used twice, and the timestamps given to the pipeline keep the source's intervals.
  \<^item> Encoder_Contract, Encoder_Window: encoder events and the encoder's own table beside its ledger
    (core/encoder_contract, encoder_window, encoded_output): the two tables agree after any calls and the
    surface budget is exact.
  \<^item> Output_Gate: the licence gate and the binding identities (core/output_gate, output_generation): it
    answers exactly the declarative licence question, and a clock that goes back closes it.
  \<^item> Overlay_Dispatch, Encoded_Dispatch: what is drawn, published and written (src/outputs): overlays and
    application events for exactly the entitled scopes, and encoded pictures written exactly when still
    entitled, fresh and wanted. A result is written once; a sink that leaves with an exception closes the
    window instead.
  \<^item> Preview_Contract, Preview_Pool: preview geometry, overlays and access units, and the surface pool
    (core/preview_contract, preview_pool, preview_surface).
  \<^item> Observation: tracked observation batches (core/observation).
  \<^item> Tensor_Contract, Inference_Execution, Tensor_Pool, Inference_Plan: tensors, execution policies and
    capabilities, the tensor pool, preprocessing and inference plans (core/tensor_contract,
    inference_execution, tensor_pool, inference_plan, preprocess_spec).
  \<^item> Deployment_Config, Model_Catalog: what a deployment declares and which models exist
    (core/deployment_config, model_catalog): acceptance is exact and budgets hold on unbounded numbers.
  \<^item> Usecase_Activation, Usecase_Control: which use cases run where (core/usecase_activation) and the
    operator's versioned plan (runtime/feature_manager/usecase_control_manager): only entitled use cases
    run, a plan is a compare-and-swap, a retried request gets its receipt.
  \<^item> Recovery_Controller, Model_Cadence, Cascade_Frame_Store: restarting lost sources
    (runtime/lifecycle/recovery_controller), choosing the due models of a frame
    (runtime/scheduler/model_cadence), and keeping frames for secondary models
    (runtime/scheduler/cascade_frame_store).
  \<^item> Inference_Worker: the thread pool around blocking inference (runtime/scheduler/inference_worker). The
    critical sections are functions, the threads and callers interleave in the step relation \<open>pool_step\<close>:
    every accepted item is accounted for, a drain ends, and a start that fails half way blocks.
  \<^item> Source_Session_Worker, Multi_Source_Supervisor: a source's session on a thread of its own
    (src/app/source_session_worker, interleaved in \<open>session_step\<close>) and the coordinator of all sources
    (src/app/multi_source_supervisor): accepted steps are accounted for, no source starves, an error stays
    with its source, the fault channel is a queue of 32 events.
  \<^item> Raw_Source, Legacy_Wire, Camera_Control, Frame_Source, Source_Lifecycle: the camera adapter
    (adapters/camera and the port raw_source.hpp): frame descriptions on the wire, the stream lease, the
    frame socket with its acknowledgements, and one acquisition cycle made of both.
  \<^item> Feature_Event, Feature_Stage, Feature_Catalog, Feature_Activation: event batches, the stage around
    an application's processor, the catalog of features, and the registry and manager that create and
    retire stages (core/feature_event, feature_catalog, runtime/feature_manager).

  \<^item> Ranking, Face_Index, Recognition_Policy, Recognition_Standings: embeddings, the exact index and
    galleries (core/embedding, core/face_gallery, perception/embedding/exact_embedding_index), and who a
    face is (recognition_policy): the index is a versioned map, a search returns exactly the best matches,
    and a decision is the one the best score of every subject calls for.
  \<^item> Recognition_Session, Recognition_Recovery, Recognition_Examples: the owner of a gallery
    (perception/embedding/recognition_session) over the ports of index and store: a restart brings back
    the stored gallery, the acknowledged one or one change more, and a recognition decides by the whole
    gallery if it searches enough matches. \<open>atomic_store\<close> is what is asked of the store; the example shows
    one.

  \<^bold>\<open>How the parts meet.\<close> Encoder_Window is built on Submission_Window and inherits its life cycle.
  Encoded_Dispatch stands between Output_Gate and Encoder_Window and shows what only both together give.
  Inference_Plan, Model_Cadence, Usecase_Activation and Usecase_Control start from the same admitted
  deployment and catalog: composing plans and cadences succeeds for every source the catalog admits, and
  switching use cases off keeps a deployment admitted. Source_Lifecycle owns a Camera_Control and a
  Frame_Source and orders them. Feature_Stage validates with Feature_Event what the processor of a
  Feature_Activation record returns.

  \<^bold>\<open>Locales.\<close> \<open>step_system\<close>, \<open>latched_system\<close>, \<open>fresh_ids\<close>, \<open>held_resources\<close> (Prelude) and \<open>job_ledger\<close>
  (Submission_Window) state the contracts of stateful components once: an invariant every operation keeps,
  a flag that never clears, identities never handed out twice, resources that stay with their holder, and
  jobs that only move along their life cycle. \<open>ranking\<close> (Ranking) is the contract of a comparator that
  candidates are sorted and selected by; \<open>gallery_index\<close> and \<open>reliable_index\<close> (Recognition_Recovery) are
  what a recognition session needs of its index, and the exact index provides them. The components interpret them on their own step functions
  and take the run lemmas from there.

  \<^bold>\<open>Bounds and termination.\<close> No fuel is used: the loops of the code run over lists or towards a bound and
  are structural recursions, or carry a measure. A run of calls is a list of operations of any length, so
  the invariants hold after every history.
\<close>

text \<open>
  \<^bold>\<open>Not modelled.\<close> Vendor and library adapters (src/adapters/qualcomm, zvec, storage, fw_output,
  fw_control, and the D-Bus transport of adapters/camera): they drive SDKs, sockets, crypto and databases
  whose code is not here; where modelled code calls them, their answers are arguments. The JSON loaders of
  src/runtime (deployment_config, model_catalog, feature_catalog, output_manifest, decoder_package,
  usecase_config): they translate a parsed document of an external library; what they must produce is
  what the validators accept. The rest of src/app (the sessions themselves, wiring, options, service loop) and the decoders and
  trackers of src/perception are not modelled. Apart from the worker pool and the session worker, whose
  threads interleave at every critical section, calls are taken one after the other, as the classes demand
  of their callers. The step relation of the supervisor lets the worker threads change workers and sessions
  between its calls; during a call they rest.
\<close>

end
